(* ===== verification/Prelude.thy ===== *)
theory Prelude
  imports Main "HOL-Library.Word"
begin

text \<open>
  Vocabulary shared by every component theory: the machine integers of the code as words,
  Rust strings as their UTF-8 bytes, the sum type that stands for \<open>Result\<close>, and the
  generic lemmas and fact collections the component proofs use.
\<close>

unbundle bit_operations_syntax

named_theorems wr_simps \<open>equations of the byte writer and reader primitives\<close>
named_theorems codec_intro \<open>introduction rules for writer and reader round trips\<close>
named_theorems list_view \<open>how list operations act on the abstract entry sequence\<close>

section \<open>Machine integers and results\<close>

type_synonym u8 = "8 word"
type_synonym u16 = "16 word"
type_synonym u32 = "32 word"
type_synonym u64 = "64 word"

text \<open>
  \<open>usize\<close> values are natural numbers; wherever the code checks a width it is written out.
  \<open>Err\<close> and \<open>Ok\<close> are the two constructors of Rust's \<open>Result\<close>.
\<close>

abbreviation Err :: "'e \<Rightarrow> 'e + 'a" where "Err \<equiv> Inl"
abbreviation Ok :: "'a \<Rightarrow> 'e + 'a" where "Ok \<equiv> Inr"

definition u32_max :: nat where "u32_max = 4294967295"
definition u16_max :: nat where "u16_max = 65535"
definition usize_max :: nat where "usize_max = 18446744073709551615"

lemma word_lt_iff_take_bit:
  fixes w :: "'a::len word"
  assumes "n < LENGTH('a)"
  shows "w < 2 ^ n \<longleftrightarrow> take_bit n w = w"
proof -
  have "unat (2 ^ n :: 'a word) = 2 ^ n"
    using assms by (simp add: unat_eq_nat_uint uint_2p word_gt_0 nat_power_eq)
  then have "w < 2 ^ n \<longleftrightarrow> unat w < 2 ^ n" by (simp add: word_less_nat_alt)
  also have "\<dots> \<longleftrightarrow> take_bit n (unat w) = unat w" by (simp add: take_bit_nat_eq_self_iff)
  also have "\<dots> \<longleftrightarrow> unat (take_bit n w) = unat w" by (simp add: unsigned_take_bit_eq)
  finally show ?thesis by (simp add: word_unat_eq_iff)
qed

lemma unat_ucast_u32_u64: "unat (ucast (n :: u32) :: u64) = unat n"
proof -
  have "unat n < 2 ^ 32" by (rule order_less_le_trans [OF unsigned_less]) simp
  then show ?thesis by (simp add: unsigned_ucast_eq take_bit_nat_eq_self_iff)
qed

text \<open>\<open>?\<close> on a \<open>Result\<close>: the error returns early, the value goes on.\<close>

definition res_bind :: "'e + 'a \<Rightarrow> ('a \<Rightarrow> 'e + 'b) \<Rightarrow> 'e + 'b" where
  "res_bind r f = (case r of Inl e \<Rightarrow> Inl e | Inr x \<Rightarrow> f x)"

definition map_err :: "('e \<Rightarrow> 'f) \<Rightarrow> 'e + 'a \<Rightarrow> 'f + 'a" where
  "map_err h r = (case r of Inl e \<Rightarrow> Inl (h e) | Inr x \<Rightarrow> Inr x)"

definition ok_or :: "'e \<Rightarrow> 'a option \<Rightarrow> 'e + 'a" where
  "ok_or e x = (case x of None \<Rightarrow> Inl e | Some y \<Rightarrow> Inr y)"

lemma res_bind_simps [simp]:
  "res_bind (Inl e) f = Inl e" "res_bind (Inr x) f = f x"
  by (simp_all add: res_bind_def)

lemma res_bind_assoc: "res_bind (res_bind r f) g = res_bind r (\<lambda>x. res_bind (f x) g)"
  by (cases r) simp_all

lemma res_bind_Inr_iff: "res_bind r f = Inr y \<longleftrightarrow> (\<exists>x. r = Inr x \<and> f x = Inr y)"
  by (cases r) simp_all

lemma map_err_simps [simp]:
  "map_err h (Inl e) = Inl (h e)" "map_err h (Inr x) = Inr x"
  by (simp_all add: map_err_def)

lemma map_err_Inr_iff: "map_err h r = Inr x \<longleftrightarrow> r = Inr x"
  by (cases r) simp_all

lemma ok_or_simps [simp]: "ok_or e None = Inl e" "ok_or e (Some x) = Inr x"
  by (simp_all add: ok_or_def)

lemma ok_or_Inr_iff: "ok_or e x = Inr y \<longleftrightarrow> x = Some y"
  by (cases x) simp_all

text \<open>What a \<open>Result\<close> may be: an error that satisfies \<open>E\<close> or a value that satisfies \<open>Q\<close>.\<close>

definition satisfies :: "('e \<Rightarrow> bool) \<Rightarrow> ('a \<Rightarrow> bool) \<Rightarrow> 'e + 'a \<Rightarrow> bool" where
  "satisfies E Q r \<longleftrightarrow> (case r of Inl e \<Rightarrow> E e | Inr x \<Rightarrow> Q x)"

lemma satisfies_simps [simp]: "satisfies E Q (Inl e) = E e" "satisfies E Q (Inr x) = Q x"
  by (simp_all add: satisfies_def)

lemma satisfies_bind_eq:
  "satisfies E P m \<Longrightarrow> (\<And>x. m = Inr x \<Longrightarrow> P x \<Longrightarrow> satisfies E Q (f x)) \<Longrightarrow> satisfies E Q (res_bind m f)"
  by (cases m) simp_all

lemma satisfies_bind: "satisfies E P m \<Longrightarrow> (\<And>x. P x \<Longrightarrow> satisfies E Q (f x)) \<Longrightarrow> satisfies E Q (res_bind m f)"
  by (cases m) simp_all

lemma satisfies_mono: "satisfies E P m \<Longrightarrow> (\<And>x. P x \<Longrightarrow> Q x) \<Longrightarrow> satisfies E Q m"
  by (cases m) simp_all

lemma satisfies_Inl: "satisfies E P m \<Longrightarrow> m = Inl e \<Longrightarrow> E e"
  by simp

lemma satisfies_Inr: "satisfies E P m \<Longrightarrow> m = Inr x \<Longrightarrow> P x"
  by simp

section \<open>Strings as UTF-8 bytes\<close>

text \<open>
  A Rust \<open>str\<close> is a byte sequence that is well-formed UTF-8. A byte of a string is an
  Isabelle \<open>char\<close>, so literals read as in the source, and \<open>utf8_valid\<close> is the check that
  \<open>String::from_utf8\<close> makes (Unicode, Table 3-7).
\<close>

definition byte :: "char \<Rightarrow> nat" where "byte c = of_char c"

definition utf8_cont :: "char \<Rightarrow> bool" where
  "utf8_cont c \<longleftrightarrow> 128 \<le> byte c \<and> byte c < 192"

definition utf8_width :: "char \<Rightarrow> nat" where
  "utf8_width c =
     (if byte c < 128 then 1 else if byte c < 224 then 2 else if byte c < 240 then 3 else 4)"

definition utf8_second :: "char \<Rightarrow> char \<Rightarrow> bool" where
  "utf8_second a b \<longleftrightarrow> utf8_cont b
     \<and> (byte a = 224 \<longrightarrow> 160 \<le> byte b) \<and> (byte a = 237 \<longrightarrow> byte b < 160)
     \<and> (byte a = 240 \<longrightarrow> 144 \<le> byte b) \<and> (byte a = 244 \<longrightarrow> byte b < 144)"

definition utf8_lead_ok :: "char \<Rightarrow> string \<Rightarrow> bool" where
  "utf8_lead_ok a bs \<longleftrightarrow> byte a < 128
     \<or> (194 \<le> byte a \<and> byte a < 245 \<and> utf8_second a (hd bs) \<and> list_all utf8_cont bs)"

definition utf8_lead :: "string \<Rightarrow> nat option" where
  "utf8_lead s = (let n = utf8_width (hd s) in
     if n \<le> length s \<and> utf8_lead_ok (hd s) (tl (take n s)) then Some n else None)"

lemma utf8_lead_Some:
  "utf8_lead s = Some n \<Longrightarrow> n = utf8_width (hd s) \<and> 0 < n \<and> n \<le> length s"
  by (auto simp: utf8_lead_def utf8_width_def Let_def split: if_splits)

function utf8_valid :: "string \<Rightarrow> bool" where
  "utf8_valid s = (case s of [] \<Rightarrow> True
     | _ \<Rightarrow> (case utf8_lead s of None \<Rightarrow> False | Some n \<Rightarrow> utf8_valid (drop n s)))"
  by pat_completeness auto
termination
  by (relation "measure length") (auto dest: utf8_lead_Some)

declare utf8_valid.simps [simp del]

lemma byte_bound: "byte c < 256"
  by (simp add: byte_def)

lemma byte_inj: "byte a = byte b \<longleftrightarrow> a = b"
  by (simp add: byte_def)

lemma utf8_width_pos: "0 < utf8_width c"
  by (simp add: utf8_width_def)

lemma utf8_second_cont: "utf8_second a b \<Longrightarrow> utf8_cont b"
  by (simp add: utf8_second_def)

text \<open>Position \<open>i\<close> of \<open>s\<close> is a character boundary: the condition under which Rust slices.\<close>

definition char_boundary :: "string \<Rightarrow> nat \<Rightarrow> bool" where
  "char_boundary s i \<longleftrightarrow> i \<le> length s \<and> (i < length s \<longrightarrow> \<not> utf8_cont (s ! i))"

definition ascii :: "char \<Rightarrow> bool" where "ascii c \<longleftrightarrow> byte c < 128"

lemma ascii_not_cont: "ascii c \<Longrightarrow> \<not> utf8_cont c"
  by (simp add: ascii_def utf8_cont_def)

lemma utf8_valid_Nil [simp]: "utf8_valid []"
  by (simp add: utf8_valid.simps)

lemma utf8_lead_ascii: "ascii a \<Longrightarrow> utf8_lead (a # s) = Some 1"
  by (simp add: utf8_lead_def utf8_width_def utf8_lead_ok_def ascii_def)

lemma utf8_valid_ascii_Cons: "ascii a \<Longrightarrow> utf8_valid (a # s) = utf8_valid s"
  by (subst utf8_valid.simps) (simp add: utf8_lead_ascii)

lemma utf8_valid_ascii: "list_all ascii s \<Longrightarrow> utf8_valid s"
  by (induction s) (simp_all add: utf8_valid_ascii_Cons)

lemma utf8_lead_append: "utf8_lead s = Some n \<Longrightarrow> utf8_lead (s @ t) = Some n"
  by (cases s) (auto simp: utf8_lead_def Let_def utf8_width_def split: if_splits)

lemma utf8_valid_iff:
  "s \<noteq> [] \<Longrightarrow> utf8_valid s \<longleftrightarrow> (\<exists>n. utf8_lead s = Some n \<and> utf8_valid (drop n s))"
  by (subst utf8_valid.simps) (auto split: list.split option.split)

lemma utf8_valid_append: "utf8_valid xs \<Longrightarrow> utf8_valid ys \<Longrightarrow> utf8_valid (xs @ ys)"
proof (induction xs rule: utf8_valid.induct)
  case (1 xs)
  show ?case
  proof (cases "xs = []")
    case True
    with "1.prems" show ?thesis by simp
  next
    case False
    with "1.prems"(1) obtain n where n: "utf8_lead xs = Some n" "utf8_valid (drop n xs)"
      by (auto simp: utf8_valid_iff)
    obtain a t where xs: "xs = a # t" using False by (cases xs) auto
    have "utf8_valid (drop n xs @ ys)"
      using "1.IH" [OF xs n(1) n(2) "1.prems"(2)] .
    then show ?thesis
      using n utf8_lead_append [OF n(1), of ys] utf8_lead_Some [OF n(1)] False
      by (auto simp: utf8_valid_iff)
  qed
qed

lemma utf8_lead_take: "utf8_lead s = Some n \<Longrightarrow> utf8_lead (take n s) = Some n"
  by (cases s) (auto simp: utf8_lead_def Let_def utf8_width_def split: if_splits)

lemma utf8_lead_not_cont: "s \<noteq> [] \<Longrightarrow> utf8_lead s = Some n \<Longrightarrow> \<not> utf8_cont (hd s)"
  by (auto simp: utf8_lead_def utf8_lead_ok_def utf8_cont_def Let_def split: if_splits)

text \<open>A non-empty valid string starts with one whole character and goes on valid after it.\<close>

lemma utf8_valid_first:
  assumes "utf8_valid s" and "s \<noteq> []"
  shows "utf8_width (hd s) \<le> length s" "utf8_valid (drop (utf8_width (hd s)) s)"
    "utf8_valid (take (utf8_width (hd s)) s)" "\<not> utf8_cont (hd s)"
proof -
  obtain n where n: "utf8_lead s = Some n" "utf8_valid (drop n s)"
    using assms by (auto simp: utf8_valid_iff)
  have w: "n = utf8_width (hd s)" "0 < n" "n \<le> length s" using utf8_lead_Some [OF n(1)] by auto
  show "utf8_width (hd s) \<le> length s" "utf8_valid (drop (utf8_width (hd s)) s)"
    using n w by simp_all
  show "\<not> utf8_cont (hd s)" using utf8_lead_not_cont assms(2) n(1) by blast
  have "take n s \<noteq> []" using w assms(2) by simp
  then have "utf8_valid (take n s)"
    using utf8_lead_take [OF n(1)] by (auto simp: utf8_valid_iff)
  then show "utf8_valid (take (utf8_width (hd s)) s)" using w by simp
qed

text \<open>A character is its first byte and continuation bytes.\<close>

lemma first_character:
  assumes "utf8_valid t" "t \<noteq> []"
  obtains r where "take (utf8_width (hd t)) t = hd t # r" "list_all utf8_cont r" "ascii (hd t) \<Longrightarrow> r = []"
proof
  obtain n where n: "utf8_lead t = Some n" using assms by (auto simp: utf8_valid_iff)
  have w: "n = utf8_width (hd t)" "0 < n" using utf8_lead_Some [OF n] by auto
  show "take (utf8_width (hd t)) t = hd t # tl (take (utf8_width (hd t)) t)"
    using w assms(2) by (cases t) (simp_all add: take_Cons')
  show "ascii (hd t) \<Longrightarrow> tl (take (utf8_width (hd t)) t) = []"
    by (cases t) (simp_all add: ascii_def utf8_width_def)
  then show "list_all utf8_cont (tl (take (utf8_width (hd t)) t))"
    using n w by (auto simp: utf8_lead_def utf8_lead_ok_def Let_def ascii_def split: if_splits)
qed

lemma utf8_lead_prefix:
  assumes "utf8_lead (xs @ ys) = Some n" and "n \<le> length xs"
  shows "utf8_lead xs = Some n"
proof -
  have w: "0 < n" "n = utf8_width (hd (xs @ ys))" using utf8_lead_Some [OF assms(1)] by simp_all
  then have "xs \<noteq> []" using assms(2) by auto
  then show ?thesis using assms w by (auto simp: utf8_lead_def Let_def split: if_splits)
qed

lemma utf8_valid_append_right:
  "utf8_valid xs \<Longrightarrow> utf8_valid (xs @ ys) = utf8_valid ys"
proof (induction xs rule: utf8_valid.induct)
  case (1 xs)
  show ?case
  proof (cases "xs = []")
    case False
    with "1.prems" obtain n where n: "utf8_lead xs = Some n" "utf8_valid (drop n xs)"
      by (auto simp: utf8_valid_iff)
    then have "n \<le> length xs" using utf8_lead_Some by blast
    obtain a t where xs: "xs = a # t" using False by (cases xs) auto
    have "utf8_valid (drop n xs @ ys) = utf8_valid ys"
      using "1.IH" [OF xs n(1) n(2)] .
    then show ?thesis
      using n(1) utf8_lead_append [OF n(1), of ys] False \<open>n \<le> length xs\<close>
      by (simp add: utf8_valid_iff)
  qed simp
qed

text \<open>A valid string splits into valid strings in front of any byte that starts a character.\<close>

lemma utf8_valid_split:
  "utf8_valid (xs @ ys) \<Longrightarrow> ys = [] \<or> \<not> utf8_cont (hd ys) \<Longrightarrow> utf8_valid xs \<and> utf8_valid ys"
proof (induction "length xs" arbitrary: xs rule: less_induct)
  case less
  show ?case
  proof (cases "xs = []")
    case False
    then obtain n where n: "utf8_lead (xs @ ys) = Some n" "utf8_valid (drop n (xs @ ys))"
      using less.prems(1) by (auto simp: utf8_valid_iff)
    have w: "0 < n" "n \<le> length (xs @ ys)" using utf8_lead_Some [OF n(1)] by simp_all
    show ?thesis
    proof (cases "n \<le> length xs")
      case True
      then have "utf8_valid (drop n xs @ ys)" using n(2) by simp
      with less.hyps [of "drop n xs"] less.prems(2) w False
      have "utf8_valid (drop n xs) \<and> utf8_valid ys" by simp
      with utf8_lead_prefix [OF n(1) True] False show ?thesis by (auto simp: utf8_valid_iff)
    next
      case False
      with w have ys: "ys \<noteq> []" by auto
      obtain x xt where xs: "xs = x # xt" using \<open>xs \<noteq> []\<close> by (cases xs) auto
      obtain y yt where y: "ys = y # yt" using ys by (cases ys) auto
      have "\<not> byte x < 128"
        using n(1) False xs by (auto simp: utf8_lead_def utf8_width_def split: if_splits)
      then have "list_all utf8_cont (tl (take n (xs @ ys)))"
        using n(1) utf8_lead_Some [OF n(1)] xs
        by (auto simp: utf8_lead_def utf8_lead_ok_def Let_def split: if_splits)
      moreover have "y \<in> set (tl (take n (xs @ ys)))"
        using False xs y by (cases n) (auto simp: take_Cons')
      ultimately show ?thesis using less.prems(2) y by (auto simp: list_all_iff)
    qed
  qed (use less.prems in simp)
qed


section \<open>Standard formatting and splitting of strings\<close>

text \<open>\<open>{byte:02x}\<close>: two lowercase hexadecimal digits.\<close>

definition hex_digit :: "nat \<Rightarrow> char" where
  "hex_digit n = char_of (if n < 10 then 48 + n else 87 + n)"

definition hex_byte :: "char \<Rightarrow> string" where
  "hex_byte c = [hex_digit (byte c div 16), hex_digit (byte c mod 16)]"

text \<open>\<open>str::split(sep)\<close> for a one-byte separator: always at least one piece.\<close>

fun split_char :: "char \<Rightarrow> string \<Rightarrow> string list" where
  "split_char sep [] = [[]]"
| "split_char sep (c # s) =
     (if c = sep then [] # split_char sep s
      else (case split_char sep s of [] \<Rightarrow> [[c]] | p # ps \<Rightarrow> (c # p) # ps))"

text \<open>\<open>str::starts_with\<close> and \<open>str::ends_with\<close>.\<close>

fun starts_with :: "string \<Rightarrow> string \<Rightarrow> bool" where
  "starts_with s [] = True"
| "starts_with [] (p # ps) = False"
| "starts_with (c # s) (p # ps) = (c = p \<and> starts_with s ps)"

definition ends_with :: "string \<Rightarrow> string \<Rightarrow> bool" where
  "ends_with s p = starts_with (rev s) (rev p)"

lemma starts_with_iff: "starts_with s p \<longleftrightarrow> (\<exists>t. s = p @ t)"
  by (induction s p rule: starts_with.induct) auto

lemma ends_with_iff: "ends_with s p \<longleftrightarrow> (\<exists>t. s = t @ p)"
proof -
  have "(\<exists>t. rev s = rev p @ t) \<longleftrightarrow> (\<exists>t. s = t @ p)"
    by (metis rev_append rev_rev_ident)
  then show ?thesis by (simp add: ends_with_def starts_with_iff)
qed

lemma split_char_nonempty [simp]: "split_char sep s \<noteq> []"
  by (induction s) (auto split: list.splits)

lemma split_char_pieces: "p \<in> set (split_char sep s) \<Longrightarrow> sep \<notin> set p"
  by (induction s arbitrary: p) (force split: list.splits if_splits)+

lemma split_char_no_sep: "sep \<notin> set s \<Longrightarrow> split_char sep s = [s]"
  by (induction s) auto

lemma split_char_append:
  "sep \<notin> set p \<Longrightarrow> split_char sep (p @ sep # s) = p # split_char sep s"
  by (induction p) auto

lemma split_char_join: "sep # s = concat (map ((#) sep) (split_char sep s))"
proof (induction s)
  case (Cons c s)
  then show ?case by (cases "split_char sep s") (auto split: list.splits)
qed simp

lemma hex_digit_ascii:
  "n < 16 \<Longrightarrow> byte (hex_digit n) = (if n < 10 then 48 + n else 87 + n)"
  by (simp add: hex_digit_def byte_def)

lemma hex_digit_inj:
  assumes "m < 16" and "n < 16"
  shows "hex_digit m = hex_digit n \<longleftrightarrow> m = n"
proof -
  have "byte (hex_digit m) = byte (hex_digit n) \<longleftrightarrow> m = n"
    using assms by (auto simp: hex_digit_ascii split: if_splits)
  then show ?thesis by (simp add: byte_inj)
qed

lemma byte_div_mod: "byte c div 16 < 16" "byte c mod 16 < 16"
  using byte_bound [of c] by auto

lemma hex_byte_inj: "hex_byte a = hex_byte b \<longleftrightarrow> a = b"
proof
  assume "hex_byte a = hex_byte b"
  then have "byte a div 16 = byte b div 16" "byte a mod 16 = byte b mod 16"
    by (simp_all add: hex_byte_def hex_digit_inj byte_div_mod)
  then have "byte a = byte b" by (metis div_mult_mod_eq)
  then show "a = b" by (simp add: byte_inj)
qed simp

lemma length_hex_byte [simp]: "length (hex_byte c) = 2"
  by (simp add: hex_byte_def)

text \<open>A number as \<open>format!\<close> prints it.\<close>

fun decimal :: "nat \<Rightarrow> string" where
  "decimal n = (if n < 10 then [char_of (48 + n)] else decimal (n div 10) @ [char_of (48 + n mod 10)])"

declare decimal.simps [simp del]

end
