(* ===== verification/Value.thy ===== *)
theory Value
  imports Prelude
begin

text \<open>
  Runtime values of \<open>crates/dm-value\<close>: canonical type paths and field names, generational
  handles, the \<open>Value\<close> enum with its non-coercive equality, the keys and hashes the
  lists index by, and the pointer-free \<open>PackedValue\<close> record of the hot paths.
  A DM number is its binary32 bits throughout (\<open>DmNumberBits\<close> of \<open>crates/dm-core\<close>);
  the comparisons the code makes on it are written on the bits.
\<close>

section \<open>Binary32 numbers by their bits\<close>

type_synonym dm_number_bits = u32

text \<open>\<open>f32::is_nan\<close>: exponent all ones and a non-zero mantissa.\<close>

definition f32_is_nan :: "u32 \<Rightarrow> bool" where
  "f32_is_nan b \<longleftrightarrow> b AND 0x7f800000 = 0x7f800000 \<and> b AND 0x007fffff \<noteq> 0"

text \<open>\<open>value == 0.0\<close>: both signed zeros.\<close>

definition f32_is_zero :: "u32 \<Rightarrow> bool" where
  "f32_is_zero b \<longleftrightarrow> b = 0 \<or> b = 0x80000000"

text \<open>\<open>partial_cmp == Some(Equal)\<close> on binary32.\<close>

definition f32_eq :: "u32 \<Rightarrow> u32 \<Rightarrow> bool" where
  "f32_eq a b \<longleftrightarrow> \<not> f32_is_nan a \<and> \<not> f32_is_nan b
     \<and> (a = b \<or> f32_is_zero a \<and> f32_is_zero b)"

lemma f32_zero_not_nan: "f32_is_zero b \<Longrightarrow> \<not> f32_is_nan b"
  by (auto simp: f32_is_zero_def f32_is_nan_def)

section \<open>Errors\<close>

datatype datum_id = DatumId (datum_index: u32) (datum_generation: u32)
datatype list_id = ListId (list_index: u32) (list_generation: u32)

datatype value_error =
    CorruptHeapSnapshot string
  | InvalidTypePath string
  | InvalidFieldName string
  | MissingField string
  | IndexZero
  | IndexOutOfBounds nat nat
  | MissingKey
  | InvalidListIndex string
  | CorruptListStorage
  | StaleList list_id
  | StaleDatum datum_id

section \<open>Type paths and field names\<close>

definition type_path_parse :: "string \<Rightarrow> value_error + string" where
  "type_path_parse path =
     (if \<not> starts_with path ''/'' \<or> length path = 1 \<or> ends_with path ''/''
         \<or> list_ex (\<lambda>p. p = []) (split_char (CHR ''/'') (drop 1 path))
      then Inl (InvalidTypePath path) else Inr path)"

definition is_alpha :: "char \<Rightarrow> bool" where
  "is_alpha c \<longleftrightarrow> (65 \<le> byte c \<and> byte c \<le> 90) \<or> (97 \<le> byte c \<and> byte c \<le> 122)"

definition is_digit :: "char \<Rightarrow> bool" where
  "is_digit c \<longleftrightarrow> 48 \<le> byte c \<and> byte c \<le> 57"

definition is_alnum :: "char \<Rightarrow> bool" where
  "is_alnum c \<longleftrightarrow> is_alpha c \<or> is_digit c"

definition ident_byte :: "char \<Rightarrow> bool" where
  "ident_byte c \<longleftrightarrow> is_alnum c \<or> c = CHR ''_''"

definition field_name_parse :: "string \<Rightarrow> value_error + string" where
  "field_name_parse name =
     (case name of
        [] \<Rightarrow> Inl (InvalidFieldName name)
      | first # rest \<Rightarrow>
          if \<not> (is_alpha first \<or> first = CHR ''_'') \<or> \<not> list_all ident_byte rest
          then Inl (InvalidFieldName name) else Inr name)"

definition static_storage :: "string \<Rightarrow> string" where
  "static_storage variable_path = ''__dm_static_'' @ concat (map hex_byte variable_path)"

section \<open>Values\<close>

datatype dm_value =
    VNull
  | VNumber dm_number_bits
  | VText string
  | VFile string
  | VTypePath string
  | VModifiedTypePath string "(string \<times> dm_value) list"
  | VDatum datum_id
  | VList list_id

fun semantic_eq :: "dm_value \<Rightarrow> dm_value \<Rightarrow> bool"
  and overrides_eq :: "(string \<times> dm_value) list \<Rightarrow> (string \<times> dm_value) list \<Rightarrow> bool" where
  "semantic_eq VNull w = (w = VNull)"
| "semantic_eq (VNumber l) w = (case w of VNumber r \<Rightarrow> f32_eq l r | _ \<Rightarrow> False)"
| "semantic_eq (VText l) w = (w = VText l)"
| "semantic_eq (VFile l) w = (w = VFile l)"
| "semantic_eq (VTypePath l) w = (w = VTypePath l)"
| "semantic_eq (VModifiedTypePath b os) w =
     (case w of VModifiedTypePath b' os' \<Rightarrow> b = b' \<and> overrides_eq os os' | _ \<Rightarrow> False)"
| "semantic_eq (VDatum d) w = (w = VDatum d)"
| "semantic_eq (VList l) w = (w = VList l)"
| "overrides_eq [] os' = (os' = [])"
| "overrides_eq ((n, v) # os) os' =
     (case os' of [] \<Rightarrow> False
      | (n', v') # rest \<Rightarrow> n = n' \<and> semantic_eq v v' \<and> overrides_eq os rest)"

definition as_number :: "dm_value \<Rightarrow> dm_number_bits option" where
  "as_number v = (case v of VNumber n \<Rightarrow> Some n | _ \<Rightarrow> None)"

section \<open>Index keys and hashes\<close>

datatype sem_key =
    KNull
  | KNumber u32
  | KText string
  | KFile string
  | KTypePath string
  | KDatum datum_id
  | KList list_id

definition number_key :: "u32 \<Rightarrow> u32" where
  "number_key b = (if f32_is_zero b then 0 else b)"

fun semantic_key :: "dm_value \<Rightarrow> sem_key option" where
  "semantic_key VNull = Some KNull"
| "semantic_key (VNumber n) = (if f32_is_nan n then None else Some (KNumber (number_key n)))"
| "semantic_key (VText t) = Some (KText t)"
| "semantic_key (VFile p) = Some (KFile p)"
| "semantic_key (VTypePath p) = Some (KTypePath p)"
| "semantic_key (VDatum d) = Some (KDatum d)"
| "semantic_key (VList l) = Some (KList l)"
| "semantic_key (VModifiedTypePath b os) = None"

text \<open>
  What \<open>semantic_hash\<close> feeds to \<open>DefaultHasher\<close>, write by write. The hasher itself is the
  parameter \<open>sip\<close>: the standard library does not specify its algorithm, only that equal
  writes give equal digests.
\<close>

datatype hash_write = HashU8 u8 | HashU32 u32 | HashStr string

fun hash_writes :: "dm_value \<Rightarrow> hash_write list option" where
  "hash_writes VNull = Some [HashU8 0]"
| "hash_writes (VNumber n) =
     (if f32_is_nan n then None else Some [HashU8 1, HashU32 (number_key n)])"
| "hash_writes (VText t) = Some [HashU8 2, HashStr t]"
| "hash_writes (VFile p) = Some [HashU8 3, HashStr p]"
| "hash_writes (VTypePath p) = Some [HashU8 4, HashStr p]"
| "hash_writes (VDatum d) =
     Some [HashU8 5, HashU32 (datum_index d), HashU32 (datum_generation d)]"
| "hash_writes (VList l) =
     Some [HashU8 6, HashU32 (list_index l), HashU32 (list_generation l)]"
| "hash_writes (VModifiedTypePath b os) = None"

definition semantic_hash :: "(hash_write list \<Rightarrow> u64) \<Rightarrow> dm_value \<Rightarrow> u64 option" where
  "semantic_hash sip v = map_option sip (hash_writes v)"

section \<open>Packed values\<close>

definition PACKED_TAG_SHIFT :: nat where "PACKED_TAG_SHIFT = 62"
definition PACKED_PAYLOAD_MASK :: u64 where "PACKED_PAYLOAD_MASK = push_bit PACKED_TAG_SHIFT 1 - 1"
definition PACKED_HANDLE_COMPONENT_MASK :: u32 where
  "PACKED_HANDLE_COMPONENT_MASK = push_bit 31 1 - 1"

definition packed_handle :: "u64 \<Rightarrow> u32 \<Rightarrow> u32 \<Rightarrow> u64 option" where
  "packed_handle tag index generation =
     (if PACKED_HANDLE_COMPONENT_MASK < index \<or> PACKED_HANDLE_COMPONENT_MASK < generation then None
      else Some (push_bit PACKED_TAG_SHIFT tag OR (ucast index OR push_bit 31 (ucast generation))))"

definition packed_null :: u64 where "packed_null = 0"

definition packed_number_bits :: "dm_number_bits \<Rightarrow> u64" where
  "packed_number_bits n = push_bit PACKED_TAG_SHIFT 1 OR ucast n"

fun try_from_value :: "dm_value \<Rightarrow> u64 option" where
  "try_from_value VNull = Some (push_bit PACKED_TAG_SHIFT 0 OR 0)"
| "try_from_value (VNumber n) = Some (push_bit PACKED_TAG_SHIFT 1 OR ucast n)"
| "try_from_value (VDatum d) = packed_handle 2 (datum_index d) (datum_generation d)"
| "try_from_value (VList l) = packed_handle 3 (list_index l) (list_generation l)"
| "try_from_value (VText t) = None"
| "try_from_value (VFile p) = None"
| "try_from_value (VTypePath p) = None"
| "try_from_value (VModifiedTypePath b os) = None"

text \<open>The \<open>unreachable!\<close> arm of \<open>into_value\<close> is \<open>None\<close>; a two-bit tag never reaches it.\<close>

definition into_value :: "u64 \<Rightarrow> dm_value option" where
  "into_value bits =
     (let tag = drop_bit PACKED_TAG_SHIFT bits;
          payload = bits AND PACKED_PAYLOAD_MASK;
          index = (ucast payload :: u32) AND PACKED_HANDLE_COMPONENT_MASK;
          generation = ucast (drop_bit 31 payload) :: u32
      in if tag = 0 then Some VNull
         else if tag = 1 then Some (VNumber (ucast payload))
         else if tag = 2 then Some (VDatum (DatumId index generation))
         else if tag = 3 then Some (VList (ListId index generation))
         else None)"

definition as_number_or_null :: "u64 \<Rightarrow> dm_number_bits option" where
  "as_number_or_null bits =
     (let tag = drop_bit PACKED_TAG_SHIFT bits
      in if tag = 0 then Some 0 else if tag = 1 then Some (ucast bits) else None)"

definition heap_handles :: "u64 \<Rightarrow> datum_id option \<times> list_id option" where
  "heap_handles bits = (case into_value bits of
       Some (VDatum d) \<Rightarrow> (Some d, None)
     | Some (VList l) \<Rightarrow> (None, Some l)
     | _ \<Rightarrow> (None, None))"


section \<open>Equality of values\<close>

lemma f32_eq_sym: "f32_eq a b \<Longrightarrow> f32_eq b a"
  by (auto simp: f32_eq_def)

lemma f32_eq_trans: "f32_eq a b \<Longrightarrow> f32_eq b c \<Longrightarrow> f32_eq a c"
  by (auto simp: f32_eq_def)

lemma f32_eq_key:
  "f32_eq a b \<longleftrightarrow> \<not> f32_is_nan a \<and> \<not> f32_is_nan b \<and> number_key a = number_key b"
  by (auto simp: f32_eq_def number_key_def f32_is_zero_def)

lemma semantic_eq_sym:
  "semantic_eq v w \<Longrightarrow> semantic_eq w v"
  "overrides_eq os os' \<Longrightarrow> overrides_eq os' os"
  by (induction v w and os os' rule: semantic_eq_overrides_eq.induct)
    (auto split: dm_value.splits list.splits intro: f32_eq_sym)

lemma semantic_eq_modified_iff:
  "semantic_eq (VModifiedTypePath b os) w \<longleftrightarrow>
     (\<exists>os'. w = VModifiedTypePath b os' \<and> overrides_eq os os')"
  by (cases w) auto

lemma semantic_eq_number_iff:
  "semantic_eq (VNumber l) w \<longleftrightarrow> (\<exists>r. w = VNumber r \<and> f32_eq l r)"
  by (cases w) auto

lemma overrides_eq_Cons_iff:
  "overrides_eq ((n, v) # os) os' \<longleftrightarrow>
     (\<exists>v' rest. os' = (n, v') # rest \<and> semantic_eq v v' \<and> overrides_eq os rest)"
  by (cases os') auto

lemma semantic_eq_trans:
  "semantic_eq v w \<Longrightarrow> semantic_eq w x \<Longrightarrow> semantic_eq v x"
  "overrides_eq os os' \<Longrightarrow> overrides_eq os' os'' \<Longrightarrow> overrides_eq os os''"
proof (induction v w and os os' arbitrary: x and os'' rule: semantic_eq_overrides_eq.induct)
  case (2 l w)
  then obtain r t where "w = VNumber r" "x = VNumber t" "f32_eq l r" "f32_eq r t"
    by (auto simp del: semantic_eq.simps simp add: semantic_eq_number_iff)
  then show ?case using f32_eq_trans by simp
next
  case (6 b os w)
  from "6.prems"(1) obtain os' where w: "w = VModifiedTypePath b os'" "overrides_eq os os'"
    by (auto simp del: semantic_eq.simps simp add: semantic_eq_modified_iff)
  with "6.prems"(2) obtain os3 where x: "x = VModifiedTypePath b os3" "overrides_eq os' os3"
    by (auto simp del: semantic_eq.simps simp add: semantic_eq_modified_iff)
  show ?case
    using "6.IH" [OF w(1) w(2) x(2)] x(1) by simp
next
  case (10 n v os os')
  from "10.prems"(1) obtain v' rest
    where e: "os' = (n, v') # rest" "semantic_eq v v'" "overrides_eq os rest"
    by (auto simp del: overrides_eq.simps simp add: overrides_eq_Cons_iff)
  with "10.prems"(2) obtain v'' rest'
    where f: "os'' = (n, v'') # rest'" "semantic_eq v' v''" "overrides_eq rest rest'"
    by (auto simp del: overrides_eq.simps simp add: overrides_eq_Cons_iff)
  show ?case
    using "10.IH" e f by simp
qed auto

text \<open>On values with an index key, equality is equality of the keys.\<close>

lemma semantic_key_number_iff:
  "semantic_key w = Some (KNumber n) \<longleftrightarrow>
     (\<exists>r. w = VNumber r \<and> \<not> f32_is_nan r \<and> number_key r = n)"
  by (cases w) auto

lemma semantic_key_simple_iff:
  "semantic_key w = Some KNull \<longleftrightarrow> w = VNull"
  "semantic_key w = Some (KText t) \<longleftrightarrow> w = VText t"
  "semantic_key w = Some (KFile t) \<longleftrightarrow> w = VFile t"
  "semantic_key w = Some (KTypePath t) \<longleftrightarrow> w = VTypePath t"
  "semantic_key w = Some (KDatum d) \<longleftrightarrow> w = VDatum d"
  "semantic_key w = Some (KList l) \<longleftrightarrow> w = VList l"
  by (cases w; simp)+

lemma semantic_eq_key:
  assumes "semantic_key v = Some k"
  shows "semantic_eq v w \<longleftrightarrow> semantic_key w = Some k"
proof (cases v)
  case (VNumber l)
  with assms have "\<not> f32_is_nan l" "k = KNumber (number_key l)" by (auto split: if_splits)
  then show ?thesis
    unfolding VNumber semantic_eq_number_iff by (auto simp: semantic_key_number_iff f32_eq_key)
qed (use assms in \<open>auto simp: semantic_key_simple_iff\<close>)

lemma semantic_eq_key_None:
  assumes "semantic_key v = None" and "semantic_eq v w"
  shows "semantic_key w = None"
proof (cases "semantic_key w")
  case (Some k)
  then have "semantic_key v = Some k"
    using semantic_eq_sym(1) [OF assms(2)] semantic_eq_key by blast
  with assms(1) show ?thesis by simp
qed

lemma hash_writes_key:
  assumes "semantic_key v = Some k" and "semantic_key w = Some k"
  shows "hash_writes v = hash_writes w"
proof (cases v)
  case (VNumber l)
  with assms(1) have l: "\<not> f32_is_nan l" "k = KNumber (number_key l)" by (auto split: if_splits)
  with assms(2) obtain r where "w = VNumber r" "\<not> f32_is_nan r" "number_key r = number_key l"
    by (auto simp: semantic_key_number_iff)
  with VNumber l show ?thesis by simp
qed (use assms in \<open>auto simp: semantic_key_simple_iff\<close>)

lemma hash_writes_None_iff: "hash_writes v = None \<longleftrightarrow> semantic_key v = None"
  by (cases v) auto

lemma semantic_hash_None_iff: "semantic_hash sip v = None \<longleftrightarrow> semantic_key v = None"
  by (simp add: semantic_hash_def hash_writes_None_iff)

lemma semantic_eq_hash:
  assumes "semantic_eq v w" and "semantic_hash sip v = Some h"
  shows "semantic_hash sip w = Some h"
proof -
  obtain k where k: "semantic_key v = Some k"
    using assms(2) semantic_hash_None_iff [of sip v] by (cases "semantic_key v") simp_all
  then have "semantic_key w = Some k" using assms(1) semantic_eq_key by blast
  then have "hash_writes v = hash_writes w" by (rule hash_writes_key [OF k])
  with assms(2) show ?thesis by (simp add: semantic_hash_def)
qed

section \<open>Type path and field name parsing\<close>

text \<open>The segments of a canonical path: non-empty and without a slash.\<close>

definition path_segment :: "string \<Rightarrow> bool" where
  "path_segment p \<longleftrightarrow> p \<noteq> [] \<and> CHR ''/'' \<notin> set p"

lemma split_char_concat_segments:
  "list_all path_segment segs \<Longrightarrow> segs \<noteq> [] \<Longrightarrow>
   split_char (CHR ''/'') (drop (Suc 0) (concat (map ((#) (CHR ''/'')) segs))) = segs"
proof (induction segs)
  case (Cons p ps)
  show ?case
  proof (cases ps)
    case Nil
    with Cons.prems show ?thesis by (simp add: split_char_no_sep path_segment_def)
  next
    case (Cons q qs)
    with Cons.IH Cons.prems show ?thesis
      by (simp add: path_segment_def split_char_append)
  qed
qed simp

lemma type_path_parse_Inr_iff:
  "type_path_parse p = Inr q \<longleftrightarrow> q = p \<and> starts_with p ''/'' \<and> length p \<noteq> 1
     \<and> \<not> ends_with p ''/'' \<and> (\<forall>s \<in> set (split_char (CHR ''/'') (drop 1 p)). s \<noteq> [])"
  by (auto simp: type_path_parse_def list_ex_iff)

lemma not_ends_with_segments:
  "list_all path_segment segs \<Longrightarrow> segs \<noteq> [] \<Longrightarrow>
   \<not> ends_with (concat (map ((#) (CHR ''/'')) segs)) ''/''"
proof (induction segs rule: rev_induct)
  case (snoc x xs)
  then have "x \<noteq> []" "CHR ''/'' \<notin> set x" by (auto simp: path_segment_def)
  then have x: "x \<noteq> []" "last x \<noteq> CHR ''/''" by (metis last_in_set)+
  show ?case
  proof
    assume "ends_with (concat (map ((#) (CHR ''/'')) (xs @ [x]))) ''/''"
    then obtain t where "concat (map ((#) (CHR ''/'')) xs) @ CHR ''/'' # x = t @ ''/''"
      by (auto simp: ends_with_iff)
    then have "last (CHR ''/'' # x) = CHR ''/''" by (metis last_appendR last_snoc list.discI)
    with x show False by simp
  qed
qed simp

lemma type_path_parse_segments:
  assumes "list_all path_segment segs" and "segs \<noteq> []"
  shows "type_path_parse (concat (map ((#) (CHR ''/'')) segs)) =
         Inr (concat (map ((#) (CHR ''/'')) segs))"
proof -
  let ?p = "concat (map ((#) (CHR ''/'')) segs)"
  obtain q qs where segs: "segs = q # qs" using assms(2) by (cases segs) auto
  have "starts_with ?p ''/''" by (simp add: segs)
  moreover have "length ?p \<noteq> 1" using assms(1) by (simp add: segs path_segment_def)
  moreover have "\<forall>s \<in> set segs. s \<noteq> []"
    using assms(1) by (auto simp: list_all_iff path_segment_def)
  ultimately show ?thesis
    by (simp add: type_path_parse_Inr_iff not_ends_with_segments [OF assms]
        split_char_concat_segments [OF assms])
qed


text \<open>
  \<open>TypePath::parse\<close> accepts a string exactly when it is a non-empty sequence of
  slash-prefixed segments, each non-empty and free of slashes, and it returns the string
  unchanged: relative paths, the root, empty segments and trailing slashes are rejected.
\<close>

theorem type_path_parse_iff:
  "type_path_parse p = Inr q \<longleftrightarrow>
     q = p \<and> (\<exists>segs. segs \<noteq> [] \<and> list_all path_segment segs
                    \<and> p = concat (map ((#) (CHR ''/'')) segs))"
proof
  assume "type_path_parse p = Inr q"
  then have q: "q = p" "starts_with p ''/''"
      "\<forall>s \<in> set (split_char (CHR ''/'') (drop 1 p)). s \<noteq> []"
    by (simp_all add: type_path_parse_Inr_iff)
  then obtain t where t: "p = CHR ''/'' # t" by (auto simp: starts_with_iff)
  let ?segs = "split_char (CHR ''/'') t"
  have "list_all path_segment ?segs"
    using q(3) by (auto simp: t list_all_iff path_segment_def dest: split_char_pieces)
  moreover have "p = concat (map ((#) (CHR ''/'')) ?segs)"
    using split_char_join [of "CHR ''/''" t] by (simp add: t)
  ultimately show "q = p \<and> (\<exists>segs. segs \<noteq> [] \<and> list_all path_segment segs
                    \<and> p = concat (map ((#) (CHR ''/'')) segs))"
    using q(1) split_char_nonempty by blast
qed (auto simp: type_path_parse_segments)

lemma hex_digit_ident: "n < 16 \<Longrightarrow> ident_byte (hex_digit n)"
  by (auto simp: ident_byte_def is_alnum_def is_alpha_def is_digit_def hex_digit_ascii)

lemma hex_bytes_ident: "list_all ident_byte (concat (map hex_byte s))"
  by (induction s) (simp_all add: hex_byte_def hex_digit_ident byte_div_mod)

lemma concat_hex_inj: "concat (map hex_byte s) = concat (map hex_byte t) \<longleftrightarrow> s = t"
proof (induction s arbitrary: t)
  case Nil
  then show ?case by (cases t) (auto simp: hex_byte_def)
next
  case (Cons a s)
  show ?case
  proof (cases t)
    case Nil
    then show ?thesis by (simp add: hex_byte_def)
  next
    case (Cons b t')
    have "concat (map hex_byte (a # s)) = concat (map hex_byte (b # t')) \<longleftrightarrow>
        hex_byte a = hex_byte b \<and> concat (map hex_byte s) = concat (map hex_byte t')"
      by (simp add: append_eq_append_conv)
    then show ?thesis using Cons Cons.IH by (simp add: hex_byte_inj)
  qed
qed

text \<open>
  \<open>FieldName::static_storage\<close> gives two different variable paths two different storage
  keys, and every key it makes is a name that \<open>FieldName::parse\<close> accepts.
\<close>

theorem static_storage_injective:
  "(static_storage p = static_storage q \<longleftrightarrow> p = q)
   \<and> field_name_parse (static_storage p) = Inr (static_storage p)"
proof -
  have "field_name_parse (static_storage p) = Inr (static_storage p)"
    using hex_bytes_ident [of p]
    by (simp add: static_storage_def field_name_parse_def is_alnum_def ident_byte_def
        is_alpha_def is_digit_def byte_def list_all_iff)
  then show ?thesis by (simp add: static_storage_def concat_hex_inj)
qed

text \<open>
  The list indexes agree with equality: when a value has a \<open>SemanticKey\<close>, another value
  is equal to it under \<open>semantic_eq\<close> exactly when it has the same key, and then both have the
  same \<open>semantic_hash\<close>. Signed zeros share a key; NaN and modified paths have none.
\<close>

theorem semantic_key_coherent:
  assumes "semantic_key v = Some k"
  shows "(semantic_eq v w \<longleftrightarrow> semantic_key w = Some k)
       \<and> (semantic_eq v w \<longrightarrow> semantic_hash sip w = semantic_hash sip v)"
proof -
  have "semantic_eq v w \<Longrightarrow> semantic_hash sip w = semantic_hash sip v"
    using hash_writes_key [OF assms, of w] semantic_eq_key [OF assms, of w]
    by (simp add: semantic_hash_def)
  then show ?thesis using semantic_eq_key [OF assms] by blast
qed

theorem semantic_key_coherent_witness:
  "semantic_eq (VNumber 0) (VNumber 0x80000000)
   \<and> semantic_hash (\<lambda>ws. of_nat (length ws)) (VNumber 0x80000000)
     = semantic_hash (\<lambda>ws. of_nat (length ws)) (VNumber 0)"
proof -
  have k: "semantic_key (VNumber 0) = Some (KNumber 0)"
    by (simp add: f32_is_nan_def number_key_def)
  have "semantic_key (VNumber 0x80000000) = Some (KNumber 0)"
    by (simp add: f32_is_nan_def number_key_def f32_is_zero_def)
  then show ?thesis
    using semantic_key_coherent [OF k, of "VNumber 0x80000000" "\<lambda>ws. of_nat (length ws)"] by simp
qed

section \<open>Packed values round trip\<close>

lemma packed_masks:
  "PACKED_PAYLOAD_MASK = mask 62" "PACKED_HANDLE_COMPONENT_MASK = mask 31"
  by (simp_all add: PACKED_PAYLOAD_MASK_def PACKED_HANDLE_COMPONENT_MASK_def PACKED_TAG_SHIFT_def
      mask_eq_exp_minus_1)

lemma packed_component_take_bit:
  assumes "\<not> PACKED_HANDLE_COMPONENT_MASK < x"
  shows "take_bit 31 x = x"
proof -
  have "x \<le> 0x7FFFFFFF"
    using assms by (simp add: PACKED_HANDLE_COMPONENT_MASK_def not_less)
  then have "x < 0x80000000" by (rule order.strict_trans1) simp
  then show ?thesis using word_lt_iff_take_bit [of 31 x] by simp
qed

lemma packed_component_bit:
  assumes "\<not> PACKED_HANDLE_COMPONENT_MASK < x" and "bit x n"
  shows "n < 31"
  using packed_component_take_bit [OF assms(1)] assms(2) by (metis bit_take_bit_iff)

lemma packed_fields:
  fixes tag :: u64 and payload :: u64
  assumes "tag < 4" and "payload < 2 ^ 62"
  shows "drop_bit PACKED_TAG_SHIFT (push_bit PACKED_TAG_SHIFT tag OR payload) = tag"
    and "(push_bit PACKED_TAG_SHIFT tag OR payload) AND PACKED_PAYLOAD_MASK = payload"
proof -
  have t: "take_bit 2 tag = tag" using assms(1) word_lt_iff_take_bit [of 2 tag] by simp
  have p: "take_bit 62 payload = payload" using assms(2) word_lt_iff_take_bit [of 62 payload] by simp
  have bt: "bit tag n \<Longrightarrow> n < 2" for n using t by (metis bit_take_bit_iff)
  have bp: "bit payload n \<Longrightarrow> n < 62" for n using p by (metis bit_take_bit_iff)
  show "drop_bit PACKED_TAG_SHIFT (push_bit PACKED_TAG_SHIFT tag OR payload) = tag"
    by (rule bit_word_eqI)
      (auto simp: bit_simps PACKED_TAG_SHIFT_def dest: bt bp)
  show "(push_bit PACKED_TAG_SHIFT tag OR payload) AND PACKED_PAYLOAD_MASK = payload"
    by (rule bit_word_eqI)
      (auto simp: bit_simps PACKED_TAG_SHIFT_def packed_masks dest: bt bp)
qed

lemma packed_handle_parts:
  fixes index generation :: u32
  assumes "\<not> PACKED_HANDLE_COMPONENT_MASK < index" "\<not> PACKED_HANDLE_COMPONENT_MASK < generation"
  defines "payload \<equiv> ucast index OR push_bit 31 (ucast generation) :: u64"
  shows "payload < 2 ^ 62"
    and "ucast payload AND PACKED_HANDLE_COMPONENT_MASK = index"
    and "ucast (drop_bit 31 payload) = generation"
proof -
  note bi = packed_component_bit [OF assms(1)] and bg = packed_component_bit [OF assms(2)]
  have "take_bit 62 payload = payload"
    by (rule bit_word_eqI) (auto simp: payload_def bit_simps dest: bi bg)
  then show "payload < 2 ^ 62" using word_lt_iff_take_bit [of 62 payload] by simp
  show "ucast payload AND PACKED_HANDLE_COMPONENT_MASK = index"
    by (rule bit_word_eqI) (auto simp: payload_def bit_simps packed_masks dest: bi)
  show "ucast (drop_bit 31 payload) = generation"
    by (rule bit_word_eqI) (auto simp: payload_def bit_simps dest: bi bg)
qed

lemma packed_handle_SomeD:
  assumes "packed_handle tag i g = Some b" and "tag < 4"
  shows "drop_bit PACKED_TAG_SHIFT b = tag"
    and "ucast (b AND PACKED_PAYLOAD_MASK) AND PACKED_HANDLE_COMPONENT_MASK = i"
    and "ucast (drop_bit 31 (b AND PACKED_PAYLOAD_MASK)) = g"
proof -
  let ?payload = "ucast i OR push_bit 31 (ucast g) :: u64"
  have c: "\<not> PACKED_HANDLE_COMPONENT_MASK < i" "\<not> PACKED_HANDLE_COMPONENT_MASK < g"
      and b: "b = push_bit PACKED_TAG_SHIFT tag OR ?payload"
    using assms(1) by (auto simp: packed_handle_def split: if_splits)
  note parts = packed_handle_parts [OF c]
  note fields = packed_fields [OF assms(2) parts(1)]
  show "drop_bit PACKED_TAG_SHIFT b = tag" using fields(1) by (simp only: b)
  show "ucast (b AND PACKED_PAYLOAD_MASK) AND PACKED_HANDLE_COMPONENT_MASK = i"
    using parts(2) by (simp only: b fields(2))
  show "ucast (drop_bit 31 (b AND PACKED_PAYLOAD_MASK)) = g"
    using parts(3) by (simp only: b fields(2))
qed

lemma ucast_number_bound: "(ucast (n :: u32) :: u64) < 2 ^ 62"
proof -
  have "unat (ucast n :: u64) = unat n" by (simp add: unat_ucast_u32_u64)
  also have "\<dots> < 2 ^ 32" by (rule order_less_le_trans [OF unsigned_less]) simp
  finally show ?thesis by (simp add: word_less_nat_alt)
qed

lemma ucast_ucast_number: "ucast (ucast (n :: u32) :: u64) = n"
  by (rule bit_word_eqI) (auto simp: bit_simps)

lemma into_value_number:
  "into_value (push_bit PACKED_TAG_SHIFT 1 OR ucast n) = Some (VNumber n)"
  using packed_fields [OF _ ucast_number_bound, of 1 n]
  by (simp add: into_value_def ucast_ucast_number)

text \<open>
  Packing is exact: a value that \<open>PackedValue::try_from_value\<close> packs is restored by
  \<open>into_value\<close> bit for bit and handle for handle, and the values it refuses are precisely the
  interned variants and the handles with a component above 31 bits.
\<close>

theorem packed_value_roundtrip:
  "(\<forall>b. try_from_value v = Some b \<longrightarrow> into_value b = Some v)
   \<and> (try_from_value v \<noteq> None \<longleftrightarrow>
       (case v of VNull \<Rightarrow> True | VNumber n \<Rightarrow> True
        | VDatum d \<Rightarrow> datum_index d < 2 ^ 31 \<and> datum_generation d < 2 ^ 31
        | VList l \<Rightarrow> list_index l < 2 ^ 31 \<and> list_generation l < 2 ^ 31
        | _ \<Rightarrow> False))"
proof -
  have fits: "\<not> PACKED_HANDLE_COMPONENT_MASK < x \<longleftrightarrow> x < 2147483648" for x
    by (auto simp: PACKED_HANDLE_COMPONENT_MASK_def not_less word_le_nat_alt word_less_nat_alt)
  have rt: "into_value b = Some v" if "try_from_value v = Some b" for b
  proof (cases v)
    case VNull
    with that show ?thesis by (auto simp: into_value_def)
  next
    case (VNumber n)
    with that show ?thesis using into_value_number [of n] by auto
  next
    case (VDatum d)
    with that packed_handle_SomeD [of 2] show ?thesis by (simp add: into_value_def)
  next
    case (VList l)
    with that packed_handle_SomeD [of 3] show ?thesis by (simp add: into_value_def)
  qed (use that in auto)
  show ?thesis
    using rt by (cases v) (auto simp: packed_handle_def fits [symmetric])
qed

theorem packed_value_roundtrip_witness:
  "into_value 9223372043297226755 = Some (VDatum (DatumId 3 3))"
proof -
  have "try_from_value (VDatum (DatumId 3 3)) = Some 9223372043297226755" by code_simp
  then show ?thesis using packed_value_roundtrip [of "VDatum (DatumId 3 3)"] by blast
qed

end
