(* ===== verification/CodecIO.thy ===== *)
theory CodecIO
  imports Prelude Value
begin

text \<open>
  The \<open>Writer\<close> and \<open>Reader\<close> of \<open>crates/dm-vm/src/module_codec.rs\<close>. A writer is the
  bytes appended so far; an operation returns the longer byte string or an error. A reader
  is the input, a position and the three interning tables; an operation returns a value and
  the moved reader, or an error. The relation \<open>roundtrips\<close> says that whatever a writer
  operation appends, a reader operation turns back into the same value.
\<close>

section \<open>Errors and limits\<close>

datatype codec_error =
    ExceedsFormatLimit string
  | ExceedsLimit string
  | Truncated string
  | LengthOverflow string
  | InvalidFlag string u8
  | NotUtf8 string
  | UnknownTag string u8
  | InvalidFieldNameIn value_error
  | InvalidTypePathIn string value_error
  | InvalidProcedureId nat nat
  | JumpTargetOutside nat nat
  | UnsupportedVersion u16
  | DuplicateProcedurePath string
  | CodecMessage string
  | InProcedure nat string codec_error

definition MAX_ARTIFACT_BYTES :: nat where "MAX_ARTIFACT_BYTES = 8589934592"
definition MAX_PROCEDURES :: nat where "MAX_PROCEDURES = 1000000"
definition MAX_PROCEDURE_TYPES :: nat where "MAX_PROCEDURE_TYPES = 1000000"
definition MAX_INSTRUCTIONS_PER_PROGRAM :: nat where "MAX_INSTRUCTIONS_PER_PROGRAM = 65535"
definition MAX_TOTAL_INSTRUCTIONS :: nat where "MAX_TOTAL_INSTRUCTIONS = 500000000"
definition MAX_STRING_BYTES :: nat where "MAX_STRING_BYTES = 67108864"
definition MAX_VECTOR_ELEMENTS :: nat where "MAX_VECTOR_ELEMENTS = 1000000"

section \<open>Bytes of strings and little-endian integers\<close>

definition as_bytes :: "string \<Rightarrow> u8 list" where
  "as_bytes s = map (\<lambda>c. of_nat (byte c)) s"

definition from_utf8 :: "u8 list \<Rightarrow> string option" where
  "from_utf8 bs = (let s = map (\<lambda>b. char_of (unat b)) bs in if utf8_valid s then Some s else None)"

fun le_bytes :: "nat \<Rightarrow> 'a::len word \<Rightarrow> u8 list" where
  "le_bytes 0 v = []"
| "le_bytes (Suc n) v = ucast v # le_bytes n (drop_bit 8 v)"

lemma le_bytes_numeral:
  "le_bytes (numeral k) v = ucast v # le_bytes (pred_numeral k) (drop_bit 8 v)"
  by (simp add: numeral_eq_Suc)

fun from_le :: "u8 list \<Rightarrow> 'a::len word" where
  "from_le [] = 0"
| "from_le (b # bs) = ucast b OR push_bit 8 (from_le bs)"

section \<open>The writer\<close>

type_synonym wr = "u8 list \<Rightarrow> codec_error + u8 list"

text \<open>Operations run one after another; the first error returns.\<close>

fun wr_seq :: "wr list \<Rightarrow> wr" where
  "wr_seq [] b = Inr b"
| "wr_seq (w # ws) b = res_bind (w b) (wr_seq ws)"

declare wr_seq.simps [simp del]

definition wr_u8 :: "u8 \<Rightarrow> wr" where "wr_u8 v b = Inr (b @ [v])"
definition wr_i8 :: "8 word \<Rightarrow> wr" where "wr_i8 v = wr_u8 v"
definition wr_u16 :: "u16 \<Rightarrow> wr" where "wr_u16 v b = Inr (b @ le_bytes 2 v)"
definition wr_u32 :: "u32 \<Rightarrow> wr" where "wr_u32 v b = Inr (b @ le_bytes 4 v)"
definition wr_u64 :: "u64 \<Rightarrow> wr" where "wr_u64 v b = Inr (b @ le_bytes 8 v)"
definition wr_boolean :: "bool \<Rightarrow> wr" where "wr_boolean v = wr_u8 (if v then 1 else 0)"

definition wr_len :: "nat \<Rightarrow> nat \<Rightarrow> string \<Rightarrow> wr" where
  "wr_len v mx label b =
     (if mx < v \<or> u32_max < v then Inl (ExceedsFormatLimit label) else wr_u32 (of_nat v) b)"

definition wr_string :: "string \<Rightarrow> wr" where
  "wr_string s = wr_seq
     [wr_len (length s) MAX_STRING_BYTES ''string length'', \<lambda>b. Inr (b @ as_bytes s)]"

definition wr_optional_string :: "string option \<Rightarrow> wr" where
  "wr_optional_string v =
     wr_seq (wr_boolean (v \<noteq> None) # (case v of None \<Rightarrow> [] | Some s \<Rightarrow> [wr_string s]))"

definition wr_optional_strings :: "string option list \<Rightarrow> wr" where
  "wr_optional_strings vs = wr_seq
     (wr_len (length vs) MAX_VECTOR_ELEMENTS ''optional string vector length''
       # map wr_optional_string vs)"

definition wr_target :: "nat \<Rightarrow> wr" where
  "wr_target v b = (if u32_max < v
     then Inl (CodecMessage ''instruction target exceeds format limit'')
     else wr_u32 (of_nat v) b)"

definition wr_optional_u16 :: "u16 option \<Rightarrow> wr" where
  "wr_optional_u16 v =
     wr_seq (wr_boolean (v \<noteq> None) # (case v of None \<Rightarrow> [] | Some x \<Rightarrow> [wr_u16 x]))"

definition wr_optional_procedure :: "u32 option \<Rightarrow> wr" where
  "wr_optional_procedure v =
     wr_seq (wr_boolean (v \<noteq> None) # (case v of None \<Rightarrow> [] | Some x \<Rightarrow> [wr_u32 x]))"

text \<open>\<open>ProcedureRefEncoding\<close>: raw ids inside one module, canonical paths in a digest.\<close>

datatype procedure_ref_encoding = RawId | SemanticPath "string list"

definition wr_semantic_procedure_path :: "string option \<Rightarrow> wr" where
  "wr_semantic_procedure_path p = (case p of
       None \<Rightarrow> wr_u8 0
     | Some path \<Rightarrow>
         if starts_with path ''/''
         then wr_seq [wr_u8 1, wr_string (hd (split_char (CHR ''@'') path))]
         else wr_seq [wr_u8 2, wr_string path])"

definition nth_opt :: "'a list \<Rightarrow> nat \<Rightarrow> 'a option" where
  "nth_opt xs i = (if i < length xs then Some (xs ! i) else None)"

definition wr_procedure_ref :: "u32 \<Rightarrow> procedure_ref_encoding \<Rightarrow> wr" where
  "wr_procedure_ref procedure enc = (case enc of
       RawId \<Rightarrow> wr_u32 procedure
     | SemanticPath ps \<Rightarrow> wr_semantic_procedure_path (nth_opt ps (unat procedure)))"

definition wr_fields :: "string list \<Rightarrow> wr" where
  "wr_fields vs = wr_seq
     (wr_len (length vs) MAX_VECTOR_ELEMENTS ''field vector length'' # map wr_string vs)"

definition wr_u16s :: "u16 list \<Rightarrow> wr" where
  "wr_u16s vs = wr_seq
     (wr_len (length vs) MAX_VECTOR_ELEMENTS ''u16 vector length'' # map wr_u16 vs)"

definition wr_booleans :: "bool list \<Rightarrow> wr" where
  "wr_booleans vs = wr_seq
     (wr_len (length vs) MAX_VECTOR_ELEMENTS ''boolean vector length'' # map wr_boolean vs)"

section \<open>The reader\<close>

record reader =
  rd_bytes :: "u8 list"
  rd_position :: nat
  rd_field_names :: "string \<rightharpoonup> string"
  rd_type_paths :: "string \<rightharpoonup> string"
  rd_texts :: "string \<rightharpoonup> string"

type_synonym 'a rd = "reader \<Rightarrow> codec_error + 'a \<times> reader"

definition reader_new :: "u8 list \<Rightarrow> reader" where
  "reader_new bs = \<lparr>rd_bytes = bs, rd_position = 0, rd_field_names = Map.empty,
     rd_type_paths = Map.empty, rd_texts = Map.empty\<rparr>"

definition rd_return :: "'a \<Rightarrow> 'a rd" where "rd_return x r = Inr (x, r)"
definition rd_fail :: "codec_error \<Rightarrow> 'a rd" where "rd_fail e r = Inl e"

definition rd_bind :: "'a rd \<Rightarrow> ('a \<Rightarrow> 'b rd) \<Rightarrow> 'b rd" where
  "rd_bind d f r = (case d r of Inl e \<Rightarrow> Inl e | Inr (x, r') \<Rightarrow> f x r')"

text \<open>A constructor applied to fields read in order, as in a struct literal.\<close>

definition rd1 :: "('a \<Rightarrow> 'z) \<Rightarrow> 'a rd \<Rightarrow> 'z rd" where
  "rd1 C d = rd_bind d (\<lambda>x. rd_return (C x))"
definition rd2 :: "('a \<Rightarrow> 'b \<Rightarrow> 'z) \<Rightarrow> 'a rd \<Rightarrow> 'b rd \<Rightarrow> 'z rd" where
  "rd2 C d e = rd_bind d (\<lambda>x. rd1 (C x) e)"
definition rd3 :: "('a \<Rightarrow> 'b \<Rightarrow> 'c \<Rightarrow> 'z) \<Rightarrow> 'a rd \<Rightarrow> 'b rd \<Rightarrow> 'c rd \<Rightarrow> 'z rd" where
  "rd3 C d e f = rd_bind d (\<lambda>x. rd2 (C x) e f)"
definition rd4 :: "('a \<Rightarrow> 'b \<Rightarrow> 'c \<Rightarrow> 'd \<Rightarrow> 'z) \<Rightarrow> 'a rd \<Rightarrow> 'b rd \<Rightarrow> 'c rd \<Rightarrow> 'd rd \<Rightarrow> 'z rd" where
  "rd4 C d e f g = rd_bind d (\<lambda>x. rd3 (C x) e f g)"

text \<open>\<open>(0..n).map(|_| item()).collect()\<close>\<close>

fun rd_repeat :: "nat \<Rightarrow> 'a rd \<Rightarrow> 'a list rd" where
  "rd_repeat 0 d = rd_return []"
| "rd_repeat (Suc n) d = rd2 (#) d (rd_repeat n d)"

definition rd_is_empty :: "reader \<Rightarrow> bool" where
  "rd_is_empty r \<longleftrightarrow> rd_position r = length (rd_bytes r)"

definition rd_remaining :: "reader \<Rightarrow> nat" where
  "rd_remaining r = length (rd_bytes r) - rd_position r"

definition rd_take :: "nat \<Rightarrow> string \<Rightarrow> u8 list rd" where
  "rd_take n label r =
     (let e = rd_position r + n in
      if usize_max < e then Inl (LengthOverflow label)
      else if length (rd_bytes r) < e then Inl (Truncated label)
      else Inr (take n (drop (rd_position r) (rd_bytes r)), r\<lparr>rd_position := e\<rparr>))"

definition rd_u8 :: "string \<Rightarrow> u8 rd" where
  "rd_u8 label = rd1 (\<lambda>bs. bs ! 0) (rd_take 1 label)"
definition rd_i8 :: "string \<Rightarrow> 8 word rd" where "rd_i8 label = rd_u8 label"
definition rd_u16 :: "string \<Rightarrow> u16 rd" where "rd_u16 label = rd1 from_le (rd_take 2 label)"
definition rd_u32 :: "string \<Rightarrow> u32 rd" where "rd_u32 label = rd1 from_le (rd_take 4 label)"
definition rd_u64 :: "string \<Rightarrow> u64 rd" where "rd_u64 label = rd1 from_le (rd_take 8 label)"

text \<open>\<open>usize::try_from\<close> of a \<open>u64\<close> cannot fail on the 64-bit hosts the crate requires.\<close>

definition rd_usize64 :: "string \<Rightarrow> nat rd" where
  "rd_usize64 label = rd1 unat (rd_u64 label)"

definition rd_boolean :: "string \<Rightarrow> bool rd" where
  "rd_boolean label = rd_bind (rd_u8 label) (\<lambda>v.
     if v = 0 then rd_return False else if v = 1 then rd_return True
     else rd_fail (InvalidFlag label v))"

definition rd_len :: "nat \<Rightarrow> string \<Rightarrow> nat rd" where
  "rd_len mx label = rd_bind (rd_u32 label) (\<lambda>v.
     if mx < unat v then rd_fail (ExceedsLimit label) else rd_return (unat v))"

text \<open>A length that is checked against the bytes left before anything is allocated for it.\<close>

definition rd_len_checked :: "codec_error \<Rightarrow> nat \<Rightarrow> string \<Rightarrow> nat \<Rightarrow> nat rd" where
  "rd_len_checked err mx label minimum_item_bytes = rd_bind (rd_len mx label) (\<lambda>v r.
     if rd_remaining r div minimum_item_bytes < v then Inl err else Inr (v, r))"

definition rd_len_with_min :: "nat \<Rightarrow> string \<Rightarrow> nat \<Rightarrow> nat rd" where
  "rd_len_with_min mx label minimum_item_bytes =
     rd_len_checked (Truncated label) mx label minimum_item_bytes"

definition rd_string :: "string \<Rightarrow> string rd" where
  "rd_string label = rd_bind (rd_len MAX_STRING_BYTES (label @ '' length'')) (\<lambda>n.
     rd_bind (rd_take n label) (\<lambda>raw.
       case from_utf8 raw of None \<Rightarrow> rd_fail (NotUtf8 label) | Some s \<Rightarrow> rd_return s))"

definition rd_text :: "string rd" where
  "rd_text = rd_bind (rd_string ''text constant'') (\<lambda>raw r.
     case rd_texts r raw of
       Some existing \<Rightarrow> Inr (existing, r)
     | None \<Rightarrow> Inr (raw, r\<lparr>rd_texts := (rd_texts r)(raw \<mapsto> raw)\<rparr>))"

definition rd_optional_string :: "string option rd" where
  "rd_optional_string = rd_bind (rd_boolean ''optional string flag'') (\<lambda>flag.
     if flag then rd1 Some (rd_string ''optional string'') else rd_return None)"

definition rd_optional_strings :: "string option list rd" where
  "rd_optional_strings =
     rd_bind (rd_len_with_min MAX_VECTOR_ELEMENTS ''optional string vector length'' 1)
       (\<lambda>n. rd_repeat n rd_optional_string)"

definition rd_target :: "nat rd" where
  "rd_target = rd1 unat (rd_u32 ''instruction target'')"

definition rd_optional_u16 :: "u16 option rd" where
  "rd_optional_u16 = rd_bind (rd_boolean ''optional u16 flag'') (\<lambda>flag.
     if flag then rd1 Some (rd_u16 ''optional u16'') else rd_return None)"

definition validate_procedure :: "u32 \<Rightarrow> nat \<Rightarrow> codec_error + unit" where
  "validate_procedure procedure procedure_count =
     (if procedure_count \<le> unat procedure
      then Inl (InvalidProcedureId (unat procedure) procedure_count) else Inr ())"

definition rd_procedure :: "nat \<Rightarrow> u32 rd" where
  "rd_procedure procedure_count = rd_bind (rd_u32 ''procedure id'') (\<lambda>v r.
     res_bind (validate_procedure v procedure_count) (\<lambda>_. Inr (v, r)))"

definition rd_optional_procedure :: "nat \<Rightarrow> u32 option rd" where
  "rd_optional_procedure procedure_count =
     rd_bind (rd_boolean ''optional procedure flag'') (\<lambda>flag.
       if flag then rd1 Some (rd_procedure procedure_count) else rd_return None)"

definition rd_field :: "string rd" where
  "rd_field = rd_bind (rd_string ''field name'') (\<lambda>raw r.
     case rd_field_names r raw of
       Some existing \<Rightarrow> Inr (existing, r)
     | None \<Rightarrow> (case field_name_parse raw of
           Inl e \<Rightarrow> Inl (InvalidFieldNameIn e)
         | Inr f \<Rightarrow> Inr (f, r\<lparr>rd_field_names := (rd_field_names r)(raw \<mapsto> f)\<rparr>)))"

definition rd_fields :: "string list rd" where
  "rd_fields = rd_bind (rd_len_with_min MAX_VECTOR_ELEMENTS ''field vector length'' 4)
     (\<lambda>n. rd_repeat n rd_field)"

definition intern_type_path :: "string \<Rightarrow> string \<Rightarrow> string rd" where
  "intern_type_path raw label r =
     (case rd_type_paths r raw of
        Some existing \<Rightarrow> Inr (existing, r)
      | None \<Rightarrow> (case type_path_parse raw of
            Inl e \<Rightarrow> Inl (InvalidTypePathIn label e)
          | Inr p \<Rightarrow> Inr (p, r\<lparr>rd_type_paths := (rd_type_paths r)(raw \<mapsto> p)\<rparr>)))"

definition rd_type_path :: "string rd" where
  "rd_type_path = rd_bind (rd_string ''type path'') (\<lambda>raw. intern_type_path raw ''type path'')"

definition rd_u16s :: "u16 list rd" where
  "rd_u16s = rd_bind (rd_len_with_min MAX_VECTOR_ELEMENTS ''u16 vector length'' 2)
     (\<lambda>n. rd_repeat n (rd_u16 ''u16 vector item''))"

definition rd_booleans :: "bool list rd" where
  "rd_booleans = rd_bind (rd_len_with_min MAX_VECTOR_ELEMENTS ''boolean vector length'' 1)
     (\<lambda>n. rd_repeat n (rd_boolean ''boolean vector item''))"


section \<open>Laws of bytes\<close>

lemma char_of_byte: "char_of (unat (of_nat (byte c) :: u8)) = c"
proof -
  have "unat (of_nat (byte c) :: u8) = byte c"
    using byte_bound [of c] by (simp add: unsigned_of_nat take_bit_nat_eq_self_iff)
  then show ?thesis by (simp add: byte_def)
qed

lemma length_as_bytes [simp]: "length (as_bytes s) = length s"
  by (simp add: as_bytes_def)

lemma from_utf8_as_bytes: "utf8_valid s \<Longrightarrow> from_utf8 (as_bytes s) = Some s"
  by (simp add: from_utf8_def as_bytes_def comp_def char_of_byte)

lemma from_utf8_valid: "from_utf8 bs = Some s \<Longrightarrow> utf8_valid s"
  by (auto simp: from_utf8_def Let_def split: if_splits)

lemma length_le_bytes [simp]: "length (le_bytes n v) = n"
  by (induction n arbitrary: v) simp_all

lemma le_step:
  fixes v :: "'a::len word"
  shows "ucast (ucast v :: u8) OR push_bit 8 (take_bit n (drop_bit 8 v)) = take_bit (8 + n) v"
  by (rule bit_word_eqI) (auto simp: bit_simps)

lemma from_le_le_bytes: "from_le (le_bytes n v) = take_bit (8 * n) v"
  by (induction n arbitrary: v) (simp_all add: le_step)

lemma from_le_exact:
  "from_le (le_bytes 2 (a :: u16)) = a" "from_le (le_bytes 4 (b :: u32)) = b"
  "from_le (le_bytes 8 (c :: u64)) = c"
  by (simp_all add: from_le_le_bytes take_bit_word_eq_self)

section \<open>Readers over unread bytes\<close>

definition unread :: "reader \<Rightarrow> u8 list" where
  "unread r = drop (rd_position r) (rd_bytes r)"

text \<open>
  A reader inside its input whose interning tables only hold what parsing gives: then an
  interned result equals a freshly parsed one.
\<close>

definition reader_ok :: "reader \<Rightarrow> bool" where
  "reader_ok r \<longleftrightarrow> rd_position r \<le> length (rd_bytes r) \<and> length (rd_bytes r) \<le> usize_max
     \<and> (\<forall>k t. rd_texts r k = Some t \<longrightarrow> t = k)
     \<and> (\<forall>k f. rd_field_names r k = Some f \<longrightarrow> field_name_parse k = Inr f)
     \<and> (\<forall>k p. rd_type_paths r k = Some p \<longrightarrow> type_path_parse k = Inr p)"

lemma reader_new_ok: "length bs \<le> usize_max \<Longrightarrow> reader_ok (reader_new bs) \<and> unread (reader_new bs) = bs"
  by (simp add: reader_ok_def reader_new_def unread_def)

lemma length_unread: "reader_ok r \<Longrightarrow> length (unread r) = rd_remaining r"
  by (simp add: unread_def rd_remaining_def)

text \<open>
  \<open>decodes k d bs x\<close>: with \<open>bs\<close> next in the input and at least \<open>k\<close> bytes after it, the
  operation \<open>d\<close> consumes exactly \<open>bs\<close> and returns \<open>x\<close>.
\<close>

definition decodes :: "nat \<Rightarrow> 'a rd \<Rightarrow> u8 list \<Rightarrow> 'a \<Rightarrow> bool" where
  "decodes k d bs x \<longleftrightarrow> (\<forall>r rest. reader_ok r \<longrightarrow> unread r = bs @ rest \<longrightarrow> k \<le> length rest \<longrightarrow>
     (\<exists>r'. d r = Inr (x, r') \<and> reader_ok r' \<and> unread r' = rest))"

lemma decodesI:
  "(\<And>r rest. reader_ok r \<Longrightarrow> unread r = bs @ rest \<Longrightarrow> k \<le> length rest \<Longrightarrow>
     \<exists>r'. d r = Inr (x, r') \<and> reader_ok r' \<and> unread r' = rest) \<Longrightarrow> decodes k d bs x"
  by (simp add: decodes_def)

lemma decodesE:
  assumes "decodes k d bs x" "reader_ok r" "unread r = bs @ rest" "k \<le> length rest"
  obtains r' where "d r = Inr (x, r')" "reader_ok r'" "unread r' = rest"
  using assms unfolding decodes_def by blast

lemma decodes_return: "decodes k (rd_return x) [] x"
  by (rule decodesI) (auto simp: rd_return_def)

lemma decodes_bind:
  assumes "decodes k d bs x" and "decodes k' (f x) bs' y" and "k \<le> length bs' + k'"
  shows "decodes k' (rd_bind d f) (bs @ bs') y"
proof (rule decodesI)
  fix r rest
  assume r: "reader_ok r" "unread r = (bs @ bs') @ rest" "k' \<le> length rest"
  from r(2) have "unread r = bs @ (bs' @ rest)" by simp
  from assms(1) r(1) this obtain r1
    where r1: "d r = Inr (x, r1)" "reader_ok r1" "unread r1 = bs' @ rest"
    by (rule decodesE) (use assms(3) r(3) in simp)
  from assms(2) r1(2,3) r(3) obtain r2 where "f x r1 = Inr (y, r2)" "reader_ok r2" "unread r2 = rest"
    by (rule decodesE)
  with r1(1) show "\<exists>r'. rd_bind d f r = Inr (y, r') \<and> reader_ok r' \<and> unread r' = rest"
    by (auto simp: rd_bind_def)
qed

lemma decodes_rd1:
  assumes "decodes k d bs x"
  shows "decodes k (rd1 C d) bs (C x)"
proof -
  have "decodes k (rd_bind d (\<lambda>x. rd_return (C x))) (bs @ []) (C x)"
    by (rule decodes_bind [OF assms decodes_return]) simp
  then show ?thesis by (simp add: rd1_def)
qed

lemma decodes_take:
  assumes "length bs = n"
  shows "decodes 0 (rd_take n label) bs bs"
proof (rule decodesI)
  fix r rest
  assume r: "reader_ok r" "unread r = bs @ rest"
  have "n + length rest = length (rd_bytes r) - rd_position r"
    using r assms length_unread [OF r(1)] by (simp add: rd_remaining_def)
  moreover have "rd_position r \<le> length (rd_bytes r)" using r(1) by (simp add: reader_ok_def)
  ultimately have le: "rd_position r + n \<le> length (rd_bytes r)" by linarith
  have "take n (unread r) = bs" "drop n (unread r) = rest"
    using assms r(2) by simp_all
  then have "take n (drop (rd_position r) (rd_bytes r)) = bs"
      "drop (rd_position r + n) (rd_bytes r) = rest"
    by (simp_all add: unread_def add.commute)
  then show "\<exists>r'. rd_take n label r = Inr (bs, r') \<and> reader_ok r' \<and> unread r' = rest"
    using r(1) le by (auto simp: rd_take_def reader_ok_def unread_def Let_def)
qed

section \<open>Round trips\<close>

text \<open>
  \<open>roundtrips k m w d x\<close>: whenever the writer operation \<open>w\<close> succeeds it appends at least
  \<open>m\<close> bytes, and \<open>d\<close> reads them back as \<open>x\<close> given \<open>k\<close> more bytes of look-ahead.
\<close>

definition roundtrips :: "nat \<Rightarrow> nat \<Rightarrow> wr \<Rightarrow> 'a rd \<Rightarrow> 'a \<Rightarrow> bool" where
  "roundtrips k m w d x \<longleftrightarrow> (\<forall>b b'. w b = Inr b' \<longrightarrow>
     (\<exists>bs. b' = b @ bs \<and> m \<le> length bs \<and> decodes k d bs x))"

lemma roundtripsI:
  "(\<And>b b'. w b = Inr b' \<Longrightarrow> \<exists>bs. b' = b @ bs \<and> m \<le> length bs \<and> decodes k d bs x) \<Longrightarrow>
   roundtrips k m w d x"
  by (simp add: roundtrips_def)

lemma roundtripsE:
  assumes "roundtrips k m w d x" "w b = Inr b'"
  obtains bs where "b' = b @ bs" "m \<le> length bs" "decodes k d bs x"
  using assms unfolding roundtrips_def by blast

lemma rt_mono: "roundtrips k m w d x \<Longrightarrow> m' \<le> m \<Longrightarrow> roundtrips k m' w d x"
  unfolding roundtrips_def by (meson order_trans)

lemma rt_return: "roundtrips k 0 (wr_seq []) (rd_return x) x"
  by (rule roundtripsI) (auto simp: wr_seq.simps intro: decodes_return)

lemma rt_bind:
  assumes "roundtrips k m w d x" and "roundtrips k' m' (wr_seq ws) (f x) y" and "k \<le> m' + k'"
  shows "roundtrips k' (m + m') (wr_seq (w # ws)) (rd_bind d f) y"
proof (rule roundtripsI)
  fix b b'
  assume "wr_seq (w # ws) b = Inr b'"
  then obtain b1 where b1: "w b = Inr b1" "wr_seq ws b1 = Inr b'"
    by (auto simp: wr_seq.simps res_bind_Inr_iff)
  from assms(1) b1(1) obtain bs where bs: "b1 = b @ bs" "m \<le> length bs" "decodes k d bs x"
    by (rule roundtripsE)
  from assms(2) b1(2) obtain bs'
    where bs': "b' = b1 @ bs'" "m' \<le> length bs'" "decodes k' (f x) bs' y"
    by (rule roundtripsE)
  have "decodes k' (rd_bind d f) (bs @ bs') y"
    by (rule decodes_bind [of k d bs x]) (use bs(3) bs'(2,3) assms(3) in simp_all)
  then show "\<exists>bs. b' = b @ bs \<and> m + m' \<le> length bs \<and> decodes k' (rd_bind d f) bs y"
    using bs(1,2) bs'(1,2) by (intro exI [of _ "bs @ bs'"]) simp
qed

lemma rt_single: "roundtrips k m (wr_seq [w]) d x \<longleftrightarrow> roundtrips k m w d x"
proof -
  have "wr_seq [w] b = w b" for b by (cases "w b") (simp_all add: wr_seq.simps)
  then show ?thesis by (simp add: roundtrips_def)
qed

lemma rt_rd1: "roundtrips k m w d x \<Longrightarrow> roundtrips k m w (rd1 C d) (C x)"
  unfolding roundtrips_def by (meson decodes_rd1)

lemma rt_next:
  assumes "roundtrips 0 m w d x" and "roundtrips 0 m' (wr_seq ws) (f x) y"
  shows "roundtrips 0 (m + m') (wr_seq (w # ws)) (rd_bind d f) y"
  by (rule rt_bind [OF assms(1)]) (simp_all add: assms(2))

lemma wr_seq_append: "wr_seq (ws @ ws') b = res_bind (wr_seq ws b) (wr_seq ws')"
  by (induction ws arbitrary: b) (auto simp: wr_seq.simps res_bind_def split: sum.splits)

lemma wr_seq_nested: "wr_seq (wr_seq ws # ws') = wr_seq (ws @ ws')"
  by (rule ext) (simp add: wr_seq_append wr_seq.simps)

text \<open>A guard on the bytes left, which the bytes still to be read satisfy.\<close>

lemma rt_guarded:
  assumes "roundtrips 0 m w d y" and "c * n \<le> m" and "0 < c"
  shows "roundtrips 0 m w (\<lambda>r. if rd_remaining r div c < n then Inl e else d r) y"
proof (rule roundtripsI)
  fix b b' assume "w b = Inr b'"
  with assms(1) obtain bs where bs: "b' = b @ bs" "m \<le> length bs" "decodes 0 d bs y"
    by (rule roundtripsE)
  have "decodes 0 (\<lambda>r. if rd_remaining r div c < n then Inl e else d r) bs y"
  proof (rule decodesI)
    fix r rest assume r: "reader_ok r" "unread r = bs @ rest"
    have "c * n \<le> rd_remaining r"
      using length_unread [OF r(1)] r(2) bs(2) assms(2) by simp
    then have "n \<le> rd_remaining r div c"
      using assms(3) by (simp add: less_eq_div_iff_mult_less_eq mult.commute)
    moreover obtain r' where "d r = Inr (y, r')" "reader_ok r'" "unread r' = rest"
      using bs(3) r by (rule decodesE) simp
    ultimately show "\<exists>r'. (if rd_remaining r div c < n then Inl e else d r) = Inr (y, r')
        \<and> reader_ok r' \<and> unread r' = rest"
      by simp
  qed
  with bs(1,2) show "\<exists>bs. b' = b @ bs \<and> m \<le> length bs
      \<and> decodes 0 (\<lambda>r. if rd_remaining r div c < n then Inl e else d r) bs y"
    by blast
qed

text \<open>The rules that follow the shape of an encoder and its decoder, field by field.\<close>

lemma rt_fields:
  "roundtrips 0 m w d x \<Longrightarrow> roundtrips 0 m (wr_seq [w]) (rd1 C d) (C x)"
  "roundtrips 0 m w d x \<Longrightarrow> roundtrips 0 m2 w2 d2 x2 \<Longrightarrow>
     roundtrips 0 (m + m2) (wr_seq [w, w2]) (rd2 C2 d d2) (C2 x x2)"
  "roundtrips 0 m w d x \<Longrightarrow> roundtrips 0 m2 w2 d2 x2 \<Longrightarrow> roundtrips 0 m3 w3 d3 x3 \<Longrightarrow>
     roundtrips 0 (m + (m2 + m3)) (wr_seq [w, w2, w3]) (rd3 C3 d d2 d3) (C3 x x2 x3)"
  "roundtrips 0 m w d x \<Longrightarrow> roundtrips 0 m2 w2 d2 x2 \<Longrightarrow> roundtrips 0 m3 w3 d3 x3 \<Longrightarrow>
     roundtrips 0 m4 w4 d4 x4 \<Longrightarrow>
     roundtrips 0 (m + (m2 + (m3 + m4))) (wr_seq [w, w2, w3, w4]) (rd4 C4 d d2 d3 d4) (C4 x x2 x3 x4)"
  unfolding rd2_def rd3_def rd4_def
  by (assumption | rule rt_bind rt_rd1 | simp add: rt_single)+


subsection \<open>Primitives\<close>

lemma wr_appends:
  "roundtrips k m (\<lambda>b. Inr (b @ bs)) d x \<longleftrightarrow> m \<le> length bs \<and> decodes k d bs x"
  by (simp add: roundtrips_def)

lemma rt_u8 [codec_intro]: "roundtrips 0 1 (wr_u8 v) (rd_u8 label) v"
  unfolding wr_u8_def rd_u8_def wr_appends
  using decodes_rd1 [OF decodes_take [of "[v]" 1 label], of "\<lambda>bs. bs ! 0"] by simp

lemma rt_i8 [codec_intro]: "roundtrips 0 1 (wr_i8 v) (rd_i8 label) v"
  unfolding wr_i8_def rd_i8_def by (rule rt_u8)

lemma rt_u16 [codec_intro]: "roundtrips 0 2 (wr_u16 v) (rd_u16 label) v"
  unfolding wr_u16_def rd_u16_def wr_appends
  using decodes_rd1 [OF decodes_take [of "le_bytes 2 v" 2 label], of "from_le :: u8 list \<Rightarrow> u16"]
  by (simp add: from_le_exact)

lemma rt_u32 [codec_intro]: "roundtrips 0 4 (wr_u32 v) (rd_u32 label) v"
  unfolding wr_u32_def rd_u32_def wr_appends
  using decodes_rd1 [OF decodes_take [of "le_bytes 4 v" 4 label], of "from_le :: u8 list \<Rightarrow> u32"]
  by (simp add: from_le_exact)

lemma rt_u64: "roundtrips 0 8 (wr_u64 v) (rd_u64 label) v"
  unfolding wr_u64_def rd_u64_def wr_appends
  using decodes_rd1 [OF decodes_take [of "le_bytes 8 v" 8 label], of "from_le :: u8 list \<Rightarrow> u64"]
  by (simp add: from_le_exact)

lemma rt_usize64: "v \<le> usize_max \<Longrightarrow> roundtrips 0 8 (wr_u64 (of_nat v)) (rd_usize64 label) v"
  unfolding rd_usize64_def
  using rt_rd1 [OF rt_u64 [of "of_nat v" label], of unat] take_bit_nat_eq_self [of v 64]
  by (simp add: unsigned_of_nat usize_max_def)

text \<open>A value followed by a pure check of it.\<close>

lemma rt_then:
  assumes "roundtrips k m w d x" and "f x = rd_return y"
  shows "roundtrips k m w (rd_bind d f) y"
proof -
  have "roundtrips k (m + 0) (wr_seq [w]) (rd_bind d f) y"
    by (rule rt_bind [OF assms(1)]) (simp_all add: assms(2) rt_return)
  then show ?thesis by (simp add: rt_single)
qed

lemma rt_boolean [codec_intro]: "roundtrips 0 1 (wr_boolean v) (rd_boolean label) v"
  unfolding wr_boolean_def rd_boolean_def by (rule rt_then [OF rt_u8]) simp

lemma rt_len:
  assumes "v \<le> mx' \<Longrightarrow> v \<le> mx"
  shows "roundtrips 0 4 (wr_len v mx' label) (rd_len mx label') v"
proof (rule roundtripsI)
  fix b b' assume w: "wr_len v mx' label b = Inr b'"
  then have v: "v \<le> mx" "v \<le> u32_max" "wr_u32 (of_nat v) b = Inr b'"
    using assms by (auto simp: wr_len_def split: if_splits)
  have "unat (of_nat v :: u32) = v"
    using v(2) by (simp add: unsigned_of_nat take_bit_nat_eq_self_iff u32_max_def)
  then have "roundtrips 0 4 (wr_u32 (of_nat v)) (rd_len mx label') v"
    unfolding rd_len_def using v(1) by (intro rt_then [OF rt_u32]) simp
  then show "\<exists>bs. b' = b @ bs \<and> 4 \<le> length bs \<and> decodes 0 (rd_len mx label') bs v"
    using v(3) unfolding roundtrips_def by blast
qed

lemma rt_count:
  assumes "v \<le> u32_max"
  shows "roundtrips 0 4 (wr_u32 (of_nat v)) (rd1 unat (rd_u32 label)) v"
proof -
  have "unat (of_nat v :: u32) = v"
    using assms by (simp add: unsigned_of_nat take_bit_nat_eq_self_iff u32_max_def)
  then show ?thesis by (metis rt_rd1 rt_u32)
qed

lemma rt_target [codec_intro]: "roundtrips 0 4 (wr_target v) rd_target v"
proof (rule roundtripsI)
  fix b b' assume w: "wr_target v b = Inr b'"
  then have v: "v \<le> u32_max" "wr_u32 (of_nat v) b = Inr b'"
    by (auto simp: wr_target_def split: if_splits)
  have "unat (of_nat v :: u32) = v"
    using v(1) by (simp add: unsigned_of_nat take_bit_nat_eq_self_iff u32_max_def)
  then have "roundtrips 0 4 (wr_u32 (of_nat v)) rd_target v"
    unfolding rd_target_def by (metis rt_rd1 rt_u32)
  then show "\<exists>bs. b' = b @ bs \<and> 4 \<le> length bs \<and> decodes 0 rd_target bs v"
    using v(2) unfolding roundtrips_def by blast
qed

lemma rt_string [codec_intro]:
  assumes "utf8_valid s"
  shows "roundtrips 0 4 (wr_string s) (rd_string label) s"
proof -
  have "roundtrips 0 0 (\<lambda>b. Inr (b @ as_bytes s))
      (rd_bind (rd_take (length s) label) (\<lambda>raw.
        case from_utf8 raw of None \<Rightarrow> rd_fail (NotUtf8 label) | Some s \<Rightarrow> rd_return s)) s"
  proof (rule rt_then)
    show "roundtrips 0 0 (\<lambda>b. Inr (b @ as_bytes s)) (rd_take (length s) label) (as_bytes s)"
      by (simp add: wr_appends decodes_take)
  qed (simp add: from_utf8_as_bytes assms)
  then have "roundtrips 0 (4 + 0) (wr_string s) (rd_string label) s"
    unfolding wr_string_def rd_string_def
    by (intro rt_bind [OF rt_len]) (simp_all add: rt_single)
  then show ?thesis by simp
qed

subsection \<open>Interned reads\<close>

lemma rt_interned:
  assumes rt: "roundtrips 0 m w d x"
    and ok: "\<And>r. reader_ok r \<Longrightarrow>
      \<exists>r'. f x r = Inr (y, r') \<and> reader_ok r' \<and> unread r' = unread r"
  shows "roundtrips 0 m w (rd_bind d f) y"
proof -
  have "decodes 0 (f x) [] y"
    by (rule decodesI) (use ok in fastforce)
  then have "roundtrips 0 0 (wr_seq []) (f x) y" by (simp add: roundtrips_def wr_seq.simps)
  then have "roundtrips 0 (m + 0) (wr_seq [w]) (rd_bind d f) y"
    by (rule rt_bind [OF rt]) simp
  then show ?thesis by (simp add: rt_single)
qed

lemma rt_text [codec_intro]:
  assumes "utf8_valid s"
  shows "roundtrips 0 4 (wr_string s) rd_text s"
  unfolding rd_text_def
  by (rule rt_interned [OF rt_string [OF assms]])
    (auto simp: reader_ok_def unread_def split: option.splits)

lemma rt_field [codec_intro]:
  assumes "utf8_valid s" and "field_name_parse s = Inr s"
  shows "roundtrips 0 4 (wr_string s) rd_field s"
  unfolding rd_field_def
  by (rule rt_interned [OF rt_string [OF assms(1)]])
    (use assms(2) in \<open>auto simp: reader_ok_def unread_def split: option.splits\<close>)

lemma intern_type_path_ok:
  assumes "type_path_parse s = Inr s" and "reader_ok r"
  shows "\<exists>r'. intern_type_path s label r = Inr (s, r') \<and> reader_ok r' \<and> unread r' = unread r"
  using assms by (auto simp: intern_type_path_def reader_ok_def unread_def split: option.splits)

lemma rt_type_path [codec_intro]:
  assumes "utf8_valid s" and "type_path_parse s = Inr s"
  shows "roundtrips 0 4 (wr_string s) rd_type_path s"
  unfolding rd_type_path_def
  by (rule rt_interned [OF rt_string [OF assms(1)]]) (rule intern_type_path_ok [OF assms(2)])


subsection \<open>Options and vectors\<close>

lemma rt_optional_string_labels:
  assumes "\<forall>s \<in> set_option v. utf8_valid s"
  shows "roundtrips 0 1 (wr_optional_string v) (rd_bind (rd_boolean label) (\<lambda>flag.
     if flag then rd1 Some (rd_string label') else rd_return None)) v" (is "roundtrips 0 1 _ ?d v")
proof (cases v)
  case None
  have "roundtrips 0 (1 + 0) (wr_seq [wr_boolean False]) ?d None"
    by (intro rt_bind [OF rt_boolean]) (simp_all add: rt_return)
  with None show ?thesis by (simp add: wr_optional_string_def)
next
  case (Some s)
  with assms have "roundtrips 0 4 (wr_seq [wr_string s]) (rd1 Some (rd_string label')) v"
    by (simp add: rt_single rt_rd1 rt_string)
  then have "roundtrips 0 (1 + 4) (wr_seq [wr_boolean True, wr_string s]) ?d v"
    by (intro rt_bind [OF rt_boolean]) simp_all
  then have "roundtrips 0 1 (wr_seq [wr_boolean True, wr_string s]) ?d v"
    by (rule rt_mono) simp
  with Some show ?thesis by (simp add: wr_optional_string_def)
qed

lemma rt_optional_string [codec_intro]:
  assumes "\<forall>s \<in> set_option v. utf8_valid s"
  shows "roundtrips 0 1 (wr_optional_string v) rd_optional_string v"
  unfolding rd_optional_string_def by (rule rt_optional_string_labels [OF assms])

lemma rt_optional_u16 [codec_intro]: "roundtrips 0 1 (wr_optional_u16 v) rd_optional_u16 v"
proof (cases v)
  case None
  have "roundtrips 0 (1 + 0) (wr_seq [wr_boolean False]) rd_optional_u16 None"
    unfolding rd_optional_u16_def by (intro rt_bind [OF rt_boolean]) (simp_all add: rt_return)
  with None show ?thesis by (simp add: wr_optional_u16_def)
next
  case (Some n)
  then have "roundtrips 0 2 (wr_seq [wr_u16 n]) (rd1 Some (rd_u16 ''optional u16'')) v"
    by (simp add: rt_single rt_rd1 rt_u16)
  then have "roundtrips 0 (1 + 2) (wr_seq [wr_boolean True, wr_u16 n]) rd_optional_u16 v"
    unfolding rd_optional_u16_def by (intro rt_bind [OF rt_boolean]) simp_all
  then have "roundtrips 0 1 (wr_seq [wr_boolean True, wr_u16 n]) rd_optional_u16 v"
    by (rule rt_mono) simp
  with Some show ?thesis by (simp add: wr_optional_u16_def)
qed

lemma rt_procedure [codec_intro]:
  "unat p < n \<Longrightarrow> roundtrips 0 4 (wr_u32 p) (rd_procedure n) p"
  unfolding rd_procedure_def
  by (rule rt_interned [OF rt_u32]) (simp add: validate_procedure_def)

lemma rt_optional_procedure [codec_intro]:
  assumes "\<forall>p \<in> set_option v. unat p < n"
  shows "roundtrips 0 1 (wr_optional_procedure v) (rd_optional_procedure n) v"
proof (cases v)
  case None
  have "roundtrips 0 (1 + 0) (wr_seq [wr_boolean False]) (rd_optional_procedure n) None"
    unfolding rd_optional_procedure_def by (intro rt_bind [OF rt_boolean]) (simp_all add: rt_return)
  with None show ?thesis by (simp add: wr_optional_procedure_def)
next
  case (Some p)
  with assms have "roundtrips 0 4 (wr_seq [wr_u32 p]) (rd1 Some (rd_procedure n)) v"
    by (simp add: rt_single rt_rd1 rt_procedure)
  then have "roundtrips 0 (1 + 4) (wr_seq [wr_boolean True, wr_u32 p]) (rd_optional_procedure n) v"
    unfolding rd_optional_procedure_def by (intro rt_bind [OF rt_boolean]) simp_all
  then have "roundtrips 0 1 (wr_seq [wr_boolean True, wr_u32 p]) (rd_optional_procedure n) v"
    by (rule rt_mono) simp
  with Some show ?thesis by (simp add: wr_optional_procedure_def)
qed

text \<open>
  The contract between an element codec and the vectors over it: an element takes at least
  \<open>min_bytes\<close> bytes, which the reader's length check relies on before it allocates.
\<close>

locale element_codec =
  fixes enc :: "'a \<Rightarrow> wr"
    and dec :: "'a rd"
    and valid :: "'a \<Rightarrow> bool"
    and min_bytes :: nat
  assumes element: "valid x \<Longrightarrow> roundtrips 0 min_bytes (enc x) dec x"
    and min_pos: "0 < min_bytes"
begin

lemma elements:
  "list_all valid xs \<Longrightarrow>
   roundtrips 0 (min_bytes * length xs) (wr_seq (map enc xs)) (rd_repeat (length xs) dec) xs"
proof (induction xs)
  case Nil
  show ?case
    by (simp only: list.map list.size(3) mult_0_right rd_repeat.simps rt_return)
next
  case (Cons x xs)
  then have "roundtrips 0 (min_bytes * length xs) (wr_seq (map enc xs)) (rd_repeat (length xs) dec) xs"
    by simp
  then have "roundtrips 0 (min_bytes + min_bytes * length xs) (wr_seq (enc x # map enc xs))
      (rd2 (#) dec (rd_repeat (length xs) dec)) (x # xs)"
    unfolding rd2_def by (intro rt_bind [OF element] rt_rd1) (use Cons.prems in simp_all)
  then show ?case by simp
qed

text \<open>The length prefix read with its look-ahead check, before a continuation \<open>f\<close>.\<close>

lemma length_prefix:
  assumes "n \<le> mx' \<Longrightarrow> n \<le> mx"
  shows "roundtrips (min_bytes * n) 4 (wr_len n mx' label) (rd_len_checked err mx label' min_bytes) n"
proof (rule roundtripsI)
  fix b b' assume "wr_len n mx' label b = Inr b'"
  then obtain bs where bs: "b' = b @ bs" "4 \<le> length bs" "decodes 0 (rd_len mx label') bs n"
    using rt_len [OF assms] by (meson roundtripsE)
  have "decodes (min_bytes * n) (rd_len_checked err mx label' min_bytes) bs n"
  proof (rule decodesI)
    fix r rest
    assume r: "reader_ok r" "unread r = bs @ rest" "min_bytes * n \<le> length rest"
    obtain r' where r': "rd_len mx label' r = Inr (n, r')" "reader_ok r'" "unread r' = rest"
      using bs(3) r(1,2) by (rule decodesE) simp
    have "n \<le> rd_remaining r' div min_bytes"
      using r(3) r'(3) length_unread [OF r'(2)] min_pos
      by (metis div_le_mono nonzero_mult_div_cancel_left not_less_zero)
    then show "\<exists>r'. rd_len_checked err mx label' min_bytes r = Inr (n, r') \<and> reader_ok r' \<and> unread r' = rest"
      using r' by (auto simp: rd_len_checked_def rd_bind_def)
  qed
  then show "\<exists>bs. b' = b @ bs \<and> 4 \<le> length bs \<and>
      decodes (min_bytes * n) (rd_len_checked err mx label' min_bytes) bs n"
    using bs(1,2) by blast
qed

text \<open>A vector whose continuation \<open>f\<close> may check the length before the elements are read.\<close>

lemma vector_checked:
  assumes "list_all valid xs" and "length xs \<le> mx' \<Longrightarrow> length xs \<le> mx"
    and "f (length xs) = rd_repeat (length xs) dec"
  shows "roundtrips 0 4 (wr_seq (wr_len (length xs) mx' label # map enc xs))
     (rd_bind (rd_len_checked err mx label' min_bytes) f) xs"
proof -
  have "roundtrips 0 (4 + min_bytes * length xs) (wr_seq (wr_len (length xs) mx' label # map enc xs))
     (rd_bind (rd_len_checked err mx label' min_bytes) f) xs"
    by (rule rt_bind [OF length_prefix])
      (simp_all add: elements [OF assms(1)] assms(2,3))
  then show ?thesis by (rule rt_mono) simp
qed

lemma vector:
  assumes "list_all valid xs" and "mx' \<le> mx"
  shows "roundtrips 0 4 (wr_seq (wr_len (length xs) mx' label # map enc xs))
     (rd_bind (rd_len_with_min mx label' min_bytes) (\<lambda>n. rd_repeat n dec)) xs"
  unfolding rd_len_with_min_def using assms by (intro vector_checked) simp_all

end

interpretation u16_codec: element_codec wr_u16 "rd_u16 label" "\<lambda>_. True" 2 for label
  by unfold_locales (simp_all add: rt_u16)

interpretation boolean_codec: element_codec wr_boolean "rd_boolean label" "\<lambda>_. True" 1 for label
  by unfold_locales (rule rt_boolean, simp)

interpretation optional_string_codec: element_codec wr_optional_string rd_optional_string
  "\<lambda>v. \<forall>s \<in> set_option v. utf8_valid s" 1
  by unfold_locales (rule rt_optional_string, assumption, simp)

interpretation field_codec: element_codec wr_string rd_field
  "\<lambda>s. utf8_valid s \<and> field_name_parse s = Inr s" 4
  by unfold_locales (simp_all add: rt_field)

interpretation string_codec: element_codec wr_string "rd_string label" utf8_valid 4 for label
  by unfold_locales (simp_all add: rt_string)

lemma rt_u16s [codec_intro]: "roundtrips 0 4 (wr_u16s vs) rd_u16s vs"
  unfolding wr_u16s_def rd_u16s_def by (rule u16_codec.vector) (simp_all add: list_all_iff)

lemma rt_booleans [codec_intro]: "roundtrips 0 4 (wr_booleans vs) rd_booleans vs"
  unfolding wr_booleans_def rd_booleans_def
  by (rule boolean_codec.vector) (simp_all add: list_all_iff)

lemma rt_optional_strings [codec_intro]:
  "list_all (\<lambda>v. \<forall>s \<in> set_option v. utf8_valid s) vs \<Longrightarrow>
   roundtrips 0 4 (wr_optional_strings vs) rd_optional_strings vs"
  unfolding wr_optional_strings_def rd_optional_strings_def
  by (rule optional_string_codec.vector) simp_all

lemma rt_field_vector [codec_intro]:
  "list_all (\<lambda>s. utf8_valid s \<and> field_name_parse s = Inr s) vs \<Longrightarrow>
   roundtrips 0 4 (wr_fields vs) rd_fields vs"
  unfolding wr_fields_def rd_fields_def by (rule field_codec.vector) simp_all

end
