(* ===== verification/DmCore.thy ===== *)
theory DmCore
  imports Prelude
begin

text \<open>
  The representation contracts of \<open>crates/dm-core\<close>: file identities, byte spans and the
  stored bits of a DM number. A panic of the constructor is \<open>None\<close>.
\<close>

datatype file_id = FileId (file_id_bits: u32)

definition file_id_from_index :: "nat \<Rightarrow> file_id option" where
  "file_id_from_index index = (if index \<le> u32_max then Some (FileId (of_nat index)) else None)"

definition file_id_index :: "file_id \<Rightarrow> nat" where
  "file_id_index f = unat (file_id_bits f)"

record source_span =
  span_start :: nat
  span_end :: nat

definition source_span_new :: "nat \<Rightarrow> nat \<Rightarrow> source_span option" where
  "source_span_new s e = (if s \<le> e then Some \<lparr>span_start = s, span_end = e\<rparr> else None)"

definition span_len :: "source_span \<Rightarrow> nat" where
  "span_len sp = span_end sp - span_start sp"

definition span_is_empty :: "source_span \<Rightarrow> bool" where
  "span_is_empty sp \<longleftrightarrow> span_start sp = span_end sp"

lemma file_id_index_from_index:
  "file_id_from_index i = Some f \<Longrightarrow> file_id_index f = i"
  by (auto simp: file_id_from_index_def file_id_index_def u32_max_def unat_of_nat split: if_splits)

end
