(* ===== verification/Instruction.thy ===== *)
theory Instruction
  imports Prelude DmCore
begin

text \<open>
  The portable stack bytecode of \<open>crates/dm-vm/src/bytecode.rs\<close>. The source has one enum of
  137 variants; here they are seven datatypes, one per block of consecutive wire tags, under
  the sum \<open>instruction\<close>. Every variant keeps its payload fields in the source's order: a DM
  number is its bits, \<open>FieldName\<close> and \<open>TypePath\<close> are their spelling, a jump target
  (\<open>usize\<close>) is a natural number.
\<close>

type_synonym procedure_id = u32
type_synonym i8 = "8 word"

datatype compound_operator =
    OpAdd | OpSubtract | OpMultiply | OpDivide | OpRemainder | OpFractionalRemainder
  | OpBitAnd | OpBitOr | OpBitXor | OpShiftLeft | OpShiftRight

text \<open>
  \<open>CompoundAssignmentOperator\<close> and \<open>CompoundListIndexOperator\<close> have the same eleven
  variants; the two enums are two copies of \<open>compound_operator\<close>.
\<close>

datatype compound_assignment_operator = AssignOp compound_operator
datatype compound_list_index_operator = ListOp compound_operator

datatype type_predicate_kind =
    IsNull | IsNum | IsPath | IsList | IsMovable | IsTurf | IsLoc | IsIcon | IsType

datatype list_entry_kind = Positional | Associative

text \<open>Tags 0 to 22: constants, construction, text and output.\<close>

datatype value_instruction =
    PushNull
  | PushNumber u32
  | PushText string
  | PushFile string
  | PushTypePath string
  | AddressLocal u16
  | LoadLocalRaw u16
  | MakeModifiedTypePath "string list"
  | AllocateDatum u16 "string option list"
  | AllocateCurrentDatum u16
  | MakeRegex u8
  | MakeMutableAppearance u16
  | MakeMatrix u8
  | MakeVector u8
  | ReplaceText u8 bool bool
  | CopyText u8 bool
  | StandardBuiltin string u16 "string option list"
  | NativeSrcMethod string u16
  | Output
  | Input
  | ExternalCall u16
  | Animate "string option list" "u16 list"
  | MakeFilter "string option list" "u16 list"

text \<open>Tags 23 to 44: initial values, random numbers, world queries, list construction.\<close>

datatype query_instruction =
    InitialField string
  | InitialDynamicField
  | Block u8
  | Rand u8
  | Roll u8
  | Pick "bool list"
  | Prob
  | Round u8
  | Length
  | Ref
  | GetStep
  | GetStepTowards
  | Range u8
  | TypesOf u8
  | HasCall
  | TypeInstances string
  | TypePredicate type_predicate_kind u8
  | MakeList u16
  | MakeArray u8
  | MakeArgs
  | MakeListEntries "list_entry_kind list"
  | MakeAssociativeListEntries "list_entry_kind list"

text \<open>Tags 45 to 69: list indexing, locals, fields and globals.\<close>

datatype access_instruction =
    IndexList
  | SetListIndex
  | SetListIndexKeep
  | CompoundListIndex compound_list_index_operator
  | CompoundListIndexKeep compound_list_index_operator
  | ListLength
  | PrepareIteration
  | IterationTypeFilter string
  | LoadLocal u16
  | StoreLocal u16
  | LoadStaticLocalOrJump u16 nat
  | InitializeStaticLocal u16
  | LoadSrc
  | StoreSrc
  | LoadUsr
  | StoreUsr
  | LoadCaller
  | LoadField string
  | StoreField string
  | StoreFieldKeep string
  | LoadGlobal string
  | LoadGlobalVars
  | LoadDatumVars
  | LoadInitialGlobal string
  | StoreGlobal string

text \<open>Tags 70 to 85: mutation, the result slot, exceptions, \<open>locate\<close>.\<close>

datatype mutate_instruction =
    MutateLocal u16 i8 bool
  | MutateField string i8 bool
  | MutateGlobal string i8 bool
  | MutateListIndex i8 bool
  | MutateResult i8 bool
  | Duplicate
  | LoadResult
  | StoreResult
  | Pop
  | Crash
  | BeginTry nat nat "u16 option"
  | EndTry
  | Throw
  | Locate u16
  | LocateIn u16
  | CompoundAssignment compound_assignment_operator

text \<open>Tags 86 to 112: the operators, none of which has a payload.\<close>

datatype operator_instruction =
    Add | Subtract | Multiply | Power | Divide | Remainder | FractionalRemainder
  | BitAnd | BitOr | BitXor | ShiftLeft | ShiftRight | BitNot | Negate | Not
  | Equal | NotEqual | Equivalent | NotEquivalent | Compare | Contains
  | Less | LessEqual | Greater | GreaterEqual | And | Or

text \<open>Tags 113 to 124: jumps, calls, return and suspension.\<close>

datatype control_instruction =
    JumpIfNull nat
  | JumpIfFalse nat
  | Jump nat
  | JumpIfArgumentSupplied u16 nat
  | Call procedure_id u16 "string option list"
  | CallCurrent "u16 option"
  | CallParent "procedure_id option" "u16 option"
  | CallDynamic "string option" u16 "string option list" bool
  | ExpandArgumentLists u16 "string option list" "u16 list"
  | Return
  | Spawn nat
  | Sleep

text \<open>Tags 125 to 136: the fused and later forms.\<close>

datatype fused_instruction =
    LogicalOrEmptyListLocal u16
  | LogicalOrEmptyListGlobal string
  | LogicalOrEmptyListField string
  | LogicalOrEmptyListIndex
  | PickExpandedArguments
  | PrepareRhsFirstIndexAssignment
  | LoadDeclaredField string
  | LoadDynamicField
  | StoreDynamicField
  | IndexLocalList u16
  | ListLengthLocal u16
  | NextLocalListIteration u16 u16 u16 nat

datatype instruction =
    ValueInstr value_instruction
  | QueryInstr query_instruction
  | AccessInstr access_instruction
  | MutateInstr mutate_instruction
  | OperatorInstr operator_instruction
  | ControlInstr control_instruction
  | FusedInstr fused_instruction

text \<open>The command-line conversion of a verb parameter.\<close>

datatype verb_parameter_type =
    VptText | VptMessage | VptNumber | VptColor | VptFile | VptAtom u8 | VptAnything
  | VptUnsupported

record program =
  wait_for :: bool
  parameter_count :: nat
  parameter_names :: "string list"
  verb_parameter_types :: "verb_parameter_type list"
  verb_name :: "string option"
  local_count :: nat
  instructions :: "instruction list"
  source_spans :: "source_span list"

text \<open>
  The parts of \<open>Module\<close> that its structural equality compares: \<open>identity\<close>,
  \<open>compact_wordcode\<close> and \<open>semantic_digests\<close> are runtime caches the source excludes from
  equality, and \<open>deferred\<close> bodies are opaque here (type \<open>'d\<close>).
\<close>

record 'd vm_module =
  procedures :: "program list"
  paths :: "string list"
  names :: "string \<rightharpoonup> procedure_id"
  dynamic_names :: "string \<rightharpoonup> procedure_id"
  deferred :: "procedure_id \<rightharpoonup> 'd"
  initializer_call_names :: "((string \<rightharpoonup> procedure_id) \<times> nat) option"
  procedure_types :: "string list"

end
