(* ===== verification/InstructionCodec.thy ===== *)
theory InstructionCodec
  imports CodecIO Instruction
begin

text \<open>
  \<open>encode_instruction\<close> and \<open>decode_instruction\<close> of \<open>module_codec.rs\<close>: one tag byte and
  then the payload fields in order. The two matches over 137 variants are split by blocks of
  consecutive tags, as the datatypes of \<open>Instruction\<close> are, and joined again at the end.
\<close>

section \<open>Operator tags\<close>

fun type_predicate_tag :: "type_predicate_kind \<Rightarrow> u8" where
  "type_predicate_tag IsNull = 0"
| "type_predicate_tag IsNum = 1"
| "type_predicate_tag IsPath = 2"
| "type_predicate_tag IsList = 3"
| "type_predicate_tag IsMovable = 4"
| "type_predicate_tag IsTurf = 5"
| "type_predicate_tag IsLoc = 6"
| "type_predicate_tag IsIcon = 7"
| "type_predicate_tag IsType = 8"

definition decode_type_predicate :: "u8 \<Rightarrow> type_predicate_kind rd" where
  "decode_type_predicate tag =
     (if tag = 0 then rd_return IsNull else if tag = 1 then rd_return IsNum
      else if tag = 2 then rd_return IsPath else if tag = 3 then rd_return IsList
      else if tag = 4 then rd_return IsMovable else if tag = 5 then rd_return IsTurf
      else if tag = 6 then rd_return IsLoc else if tag = 7 then rd_return IsIcon
      else if tag = 8 then rd_return IsType
      else rd_fail (UnknownTag ''type predicate tag'' tag))"

fun compound_operator_tag :: "compound_operator \<Rightarrow> u8" where
  "compound_operator_tag OpAdd = 0"
| "compound_operator_tag OpSubtract = 1"
| "compound_operator_tag OpMultiply = 2"
| "compound_operator_tag OpDivide = 3"
| "compound_operator_tag OpRemainder = 4"
| "compound_operator_tag OpFractionalRemainder = 5"
| "compound_operator_tag OpBitAnd = 6"
| "compound_operator_tag OpBitOr = 7"
| "compound_operator_tag OpBitXor = 8"
| "compound_operator_tag OpShiftLeft = 9"
| "compound_operator_tag OpShiftRight = 10"

definition decode_compound_operator :: "string \<Rightarrow> u8 \<Rightarrow> compound_operator rd" where
  "decode_compound_operator what tag =
     (if tag = 0 then rd_return OpAdd else if tag = 1 then rd_return OpSubtract
      else if tag = 2 then rd_return OpMultiply else if tag = 3 then rd_return OpDivide
      else if tag = 4 then rd_return OpRemainder
      else if tag = 5 then rd_return OpFractionalRemainder
      else if tag = 6 then rd_return OpBitAnd else if tag = 7 then rd_return OpBitOr
      else if tag = 8 then rd_return OpBitXor else if tag = 9 then rd_return OpShiftLeft
      else if tag = 10 then rd_return OpShiftRight
      else rd_fail (UnknownTag what tag))"

definition compound_list_tag :: "compound_list_index_operator \<Rightarrow> u8" where
  "compound_list_tag v = (case v of ListOp op \<Rightarrow> compound_operator_tag op)"

definition decode_compound_list :: "u8 \<Rightarrow> compound_list_index_operator rd" where
  "decode_compound_list tag = rd1 ListOp (decode_compound_operator ''list operator tag'' tag)"

definition compound_assignment_tag :: "compound_assignment_operator \<Rightarrow> u8" where
  "compound_assignment_tag v = (case v of AssignOp op \<Rightarrow> compound_operator_tag op)"

definition decode_compound_assignment :: "u8 \<Rightarrow> compound_assignment_operator rd" where
  "decode_compound_assignment tag =
     rd1 AssignOp (decode_compound_operator ''assignment operator tag'' tag)"

section \<open>List-entry kinds\<close>

definition wr_list_entry_kind :: "list_entry_kind \<Rightarrow> wr" where
  "wr_list_entry_kind k = wr_u8 (case k of Positional \<Rightarrow> 0 | Associative \<Rightarrow> 1)"

definition wr_list_entry_kinds :: "list_entry_kind list \<Rightarrow> wr" where
  "wr_list_entry_kinds vs = wr_seq
     (wr_len (length vs) MAX_VECTOR_ELEMENTS ''list-entry vector length''
       # map wr_list_entry_kind vs)"

definition rd_list_entry_kind :: "list_entry_kind rd" where
  "rd_list_entry_kind = rd_bind (rd_u8 ''list-entry kind'') (\<lambda>tag.
     if tag = 0 then rd_return Positional else if tag = 1 then rd_return Associative
     else rd_fail (UnknownTag ''list-entry kind'' tag))"

definition rd_list_entry_kinds :: "list_entry_kind list rd" where
  "rd_list_entry_kinds =
     rd_bind (rd_len_with_min MAX_VECTOR_ELEMENTS ''list-entry vector length'' 1)
       (\<lambda>n. rd_repeat n rd_list_entry_kind)"

section \<open>Tags 0 to 22\<close>

primrec encode_value_instruction :: "value_instruction \<Rightarrow> wr" where
  "encode_value_instruction PushNull = wr_seq [wr_u8 0]"
| "encode_value_instruction (PushNumber v) = wr_seq [wr_u8 1, wr_u32 v]"
| "encode_value_instruction (PushText v) = wr_seq [wr_u8 2, wr_string v]"
| "encode_value_instruction (PushFile v) = wr_seq [wr_u8 3, wr_string v]"
| "encode_value_instruction (PushTypePath v) = wr_seq [wr_u8 4, wr_string v]"
| "encode_value_instruction (AddressLocal v) = wr_seq [wr_u8 5, wr_u16 v]"
| "encode_value_instruction (LoadLocalRaw v) = wr_seq [wr_u8 6, wr_u16 v]"
| "encode_value_instruction (MakeModifiedTypePath fs) = wr_seq [wr_u8 7, wr_fields fs]"
| "encode_value_instruction (AllocateDatum n ns) =
     wr_seq [wr_u8 8, wr_u16 n, wr_optional_strings ns]"
| "encode_value_instruction (AllocateCurrentDatum n) = wr_seq [wr_u8 9, wr_u16 n]"
| "encode_value_instruction (MakeRegex n) = wr_seq [wr_u8 10, wr_u8 n]"
| "encode_value_instruction (MakeMutableAppearance n) = wr_seq [wr_u8 11, wr_u16 n]"
| "encode_value_instruction (MakeMatrix n) = wr_seq [wr_u8 12, wr_u8 n]"
| "encode_value_instruction (MakeVector n) = wr_seq [wr_u8 13, wr_u8 n]"
| "encode_value_instruction (ReplaceText n exact ci) =
     wr_seq [wr_u8 14, wr_u8 n, wr_boolean exact, wr_boolean ci]"
| "encode_value_instruction (CopyText n ci) = wr_seq [wr_u8 15, wr_u8 n, wr_boolean ci]"
| "encode_value_instruction (StandardBuiltin name n ns) =
     wr_seq [wr_u8 16, wr_string name, wr_u16 n, wr_optional_strings ns]"
| "encode_value_instruction (NativeSrcMethod name n) =
     wr_seq [wr_u8 17, wr_string name, wr_u16 n]"
| "encode_value_instruction Output = wr_seq [wr_u8 18]"
| "encode_value_instruction Input = wr_seq [wr_u8 19]"
| "encode_value_instruction (ExternalCall n) = wr_seq [wr_u8 20, wr_u16 n]"
| "encode_value_instruction (Animate ns is) =
     wr_seq [wr_u8 21, wr_optional_strings ns, wr_u16s is]"
| "encode_value_instruction (MakeFilter ns is) =
     wr_seq [wr_u8 22, wr_optional_strings ns, wr_u16s is]"

definition decode_value_instruction :: "u8 \<Rightarrow> value_instruction rd" where
  "decode_value_instruction tag =
     (if tag = 0 then rd_return PushNull
      else if tag = 1 then rd1 PushNumber (rd_u32 ''number bits'')
      else if tag = 2 then rd1 PushText rd_text
      else if tag = 3 then rd1 PushFile (rd_string ''file constant'')
      else if tag = 4 then rd1 PushTypePath rd_type_path
      else if tag = 5 then rd1 AddressLocal (rd_u16 ''local slot'')
      else if tag = 6 then rd1 LoadLocalRaw (rd_u16 ''local slot'')
      else if tag = 7 then rd1 MakeModifiedTypePath rd_fields
      else if tag = 8 then rd2 AllocateDatum (rd_u16 ''argument count'') rd_optional_strings
      else if tag = 9 then rd1 AllocateCurrentDatum (rd_u16 ''argument count'')
      else if tag = 10 then rd1 MakeRegex (rd_u8 ''argument count'')
      else if tag = 11 then rd1 MakeMutableAppearance (rd_u16 ''argument count'')
      else if tag = 12 then rd1 MakeMatrix (rd_u8 ''argument count'')
      else if tag = 13 then rd1 MakeVector (rd_u8 ''argument count'')
      else if tag = 14 then rd3 ReplaceText (rd_u8 ''argument count'')
        (rd_boolean ''exact flag'') (rd_boolean ''character-index flag'')
      else if tag = 15 then rd2 CopyText (rd_u8 ''argument count'')
        (rd_boolean ''character-index flag'')
      else if tag = 16 then rd3 StandardBuiltin (rd_string ''builtin name'')
        (rd_u16 ''argument count'') rd_optional_strings
      else if tag = 17 then rd2 NativeSrcMethod (rd_string ''method name'')
        (rd_u16 ''argument count'')
      else if tag = 18 then rd_return Output
      else if tag = 19 then rd_return Input
      else if tag = 20 then rd1 ExternalCall (rd_u16 ''argument count'')
      else if tag = 21 then rd2 Animate rd_optional_strings rd_u16s
      else if tag = 22 then rd2 MakeFilter rd_optional_strings rd_u16s
      else rd_fail (UnknownTag ''instruction tag'' tag))"

section \<open>Tags 23 to 44\<close>

primrec encode_query_instruction :: "query_instruction \<Rightarrow> wr" where
  "encode_query_instruction (InitialField v) = wr_seq [wr_u8 23, wr_string v]"
| "encode_query_instruction InitialDynamicField = wr_seq [wr_u8 24]"
| "encode_query_instruction (Block n) = wr_seq [wr_u8 25, wr_u8 n]"
| "encode_query_instruction (Rand n) = wr_seq [wr_u8 26, wr_u8 n]"
| "encode_query_instruction (Roll n) = wr_seq [wr_u8 27, wr_u8 n]"
| "encode_query_instruction (Pick ws) = wr_seq [wr_u8 28, wr_booleans ws]"
| "encode_query_instruction Prob = wr_seq [wr_u8 29]"
| "encode_query_instruction (Round n) = wr_seq [wr_u8 30, wr_u8 n]"
| "encode_query_instruction Length = wr_seq [wr_u8 31]"
| "encode_query_instruction Ref = wr_seq [wr_u8 32]"
| "encode_query_instruction GetStep = wr_seq [wr_u8 33]"
| "encode_query_instruction GetStepTowards = wr_seq [wr_u8 34]"
| "encode_query_instruction (Range n) = wr_seq [wr_u8 35, wr_u8 n]"
| "encode_query_instruction (TypesOf n) = wr_seq [wr_u8 36, wr_u8 n]"
| "encode_query_instruction HasCall = wr_seq [wr_u8 37]"
| "encode_query_instruction (TypeInstances v) = wr_seq [wr_u8 38, wr_string v]"
| "encode_query_instruction (TypePredicate kind n) =
     wr_seq [wr_u8 39, wr_u8 (type_predicate_tag kind), wr_u8 n]"
| "encode_query_instruction (MakeList v) = wr_seq [wr_u8 40, wr_u16 v]"
| "encode_query_instruction (MakeArray v) = wr_seq [wr_u8 41, wr_u8 v]"
| "encode_query_instruction MakeArgs = wr_seq [wr_u8 42]"
| "encode_query_instruction (MakeListEntries vs) = wr_seq [wr_u8 43, wr_list_entry_kinds vs]"
| "encode_query_instruction (MakeAssociativeListEntries vs) =
     wr_seq [wr_u8 44, wr_list_entry_kinds vs]"

definition decode_query_instruction :: "u8 \<Rightarrow> query_instruction rd" where
  "decode_query_instruction tag =
     (if tag = 23 then rd1 InitialField rd_field
      else if tag = 24 then rd_return InitialDynamicField
      else if tag = 25 then rd1 Block (rd_u8 ''argument count'')
      else if tag = 26 then rd1 Rand (rd_u8 ''argument count'')
      else if tag = 27 then rd1 Roll (rd_u8 ''argument count'')
      else if tag = 28 then rd1 Pick rd_booleans
      else if tag = 29 then rd_return Prob
      else if tag = 30 then rd1 Round (rd_u8 ''argument count'')
      else if tag = 31 then rd_return Length
      else if tag = 32 then rd_return Ref
      else if tag = 33 then rd_return GetStep
      else if tag = 34 then rd_return GetStepTowards
      else if tag = 35 then rd1 Range (rd_u8 ''argument count'')
      else if tag = 36 then rd1 TypesOf (rd_u8 ''argument count'')
      else if tag = 37 then rd_return HasCall
      else if tag = 38 then rd1 TypeInstances rd_type_path
      else if tag = 39 then rd2 TypePredicate
        (rd_bind (rd_u8 ''type predicate tag'') decode_type_predicate) (rd_u8 ''argument count'')
      else if tag = 40 then rd1 MakeList (rd_u16 ''list length'')
      else if tag = 41 then rd1 MakeArray (rd_u8 ''array dimension count'')
      else if tag = 42 then rd_return MakeArgs
      else if tag = 43 then rd1 MakeListEntries rd_list_entry_kinds
      else if tag = 44 then rd1 MakeAssociativeListEntries rd_list_entry_kinds
      else rd_fail (UnknownTag ''instruction tag'' tag))"

section \<open>Tags 45 to 69\<close>

primrec encode_access_instruction :: "access_instruction \<Rightarrow> wr" where
  "encode_access_instruction IndexList = wr_seq [wr_u8 45]"
| "encode_access_instruction SetListIndex = wr_seq [wr_u8 46]"
| "encode_access_instruction SetListIndexKeep = wr_seq [wr_u8 47]"
| "encode_access_instruction (CompoundListIndex v) =
     wr_seq [wr_u8 48, wr_u8 (compound_list_tag v)]"
| "encode_access_instruction (CompoundListIndexKeep v) =
     wr_seq [wr_u8 49, wr_u8 (compound_list_tag v)]"
| "encode_access_instruction ListLength = wr_seq [wr_u8 50]"
| "encode_access_instruction PrepareIteration = wr_seq [wr_u8 51]"
| "encode_access_instruction (IterationTypeFilter v) = wr_seq [wr_u8 52, wr_string v]"
| "encode_access_instruction (LoadLocal v) = wr_seq [wr_u8 53, wr_u16 v]"
| "encode_access_instruction (StoreLocal v) = wr_seq [wr_u8 54, wr_u16 v]"
| "encode_access_instruction (LoadStaticLocalOrJump slot t) =
     wr_seq [wr_u8 55, wr_u16 slot, wr_target t]"
| "encode_access_instruction (InitializeStaticLocal v) = wr_seq [wr_u8 56, wr_u16 v]"
| "encode_access_instruction LoadSrc = wr_seq [wr_u8 57]"
| "encode_access_instruction StoreSrc = wr_seq [wr_u8 58]"
| "encode_access_instruction LoadUsr = wr_seq [wr_u8 59]"
| "encode_access_instruction StoreUsr = wr_seq [wr_u8 60]"
| "encode_access_instruction LoadCaller = wr_seq [wr_u8 61]"
| "encode_access_instruction (LoadField v) = wr_seq [wr_u8 62, wr_string v]"
| "encode_access_instruction (StoreField v) = wr_seq [wr_u8 63, wr_string v]"
| "encode_access_instruction (StoreFieldKeep v) = wr_seq [wr_u8 64, wr_string v]"
| "encode_access_instruction (LoadGlobal v) = wr_seq [wr_u8 65, wr_string v]"
| "encode_access_instruction LoadGlobalVars = wr_seq [wr_u8 66]"
| "encode_access_instruction LoadDatumVars = wr_seq [wr_u8 67]"
| "encode_access_instruction (LoadInitialGlobal v) = wr_seq [wr_u8 68, wr_string v]"
| "encode_access_instruction (StoreGlobal v) = wr_seq [wr_u8 69, wr_string v]"

definition decode_access_instruction :: "u8 \<Rightarrow> access_instruction rd" where
  "decode_access_instruction tag =
     (if tag = 45 then rd_return IndexList
      else if tag = 46 then rd_return SetListIndex
      else if tag = 47 then rd_return SetListIndexKeep
      else if tag = 48 then rd1 CompoundListIndex
        (rd_bind (rd_u8 ''list operator tag'') decode_compound_list)
      else if tag = 49 then rd1 CompoundListIndexKeep
        (rd_bind (rd_u8 ''list operator tag'') decode_compound_list)
      else if tag = 50 then rd_return ListLength
      else if tag = 51 then rd_return PrepareIteration
      else if tag = 52 then rd1 IterationTypeFilter rd_type_path
      else if tag = 53 then rd1 LoadLocal (rd_u16 ''local slot'')
      else if tag = 54 then rd1 StoreLocal (rd_u16 ''local slot'')
      else if tag = 55 then rd2 LoadStaticLocalOrJump (rd_u16 ''local slot'') rd_target
      else if tag = 56 then rd1 InitializeStaticLocal (rd_u16 ''local slot'')
      else if tag = 57 then rd_return LoadSrc
      else if tag = 58 then rd_return StoreSrc
      else if tag = 59 then rd_return LoadUsr
      else if tag = 60 then rd_return StoreUsr
      else if tag = 61 then rd_return LoadCaller
      else if tag = 62 then rd1 LoadField rd_field
      else if tag = 63 then rd1 StoreField rd_field
      else if tag = 64 then rd1 StoreFieldKeep rd_field
      else if tag = 65 then rd1 LoadGlobal rd_field
      else if tag = 66 then rd_return LoadGlobalVars
      else if tag = 67 then rd_return LoadDatumVars
      else if tag = 68 then rd1 LoadInitialGlobal rd_field
      else if tag = 69 then rd1 StoreGlobal rd_field
      else rd_fail (UnknownTag ''instruction tag'' tag))"

section \<open>Tags 70 to 85\<close>

primrec encode_mutate_instruction :: "mutate_instruction \<Rightarrow> wr" where
  "encode_mutate_instruction (MutateLocal slot delta prefix) =
     wr_seq [wr_u8 70, wr_u16 slot, wr_i8 delta, wr_boolean prefix]"
| "encode_mutate_instruction (MutateField name delta prefix) =
     wr_seq [wr_u8 71, wr_string name, wr_i8 delta, wr_boolean prefix]"
| "encode_mutate_instruction (MutateGlobal name delta prefix) =
     wr_seq [wr_u8 72, wr_string name, wr_i8 delta, wr_boolean prefix]"
| "encode_mutate_instruction (MutateListIndex delta prefix) =
     wr_seq [wr_u8 73, wr_i8 delta, wr_boolean prefix]"
| "encode_mutate_instruction (MutateResult delta prefix) =
     wr_seq [wr_u8 74, wr_i8 delta, wr_boolean prefix]"
| "encode_mutate_instruction Duplicate = wr_seq [wr_u8 75]"
| "encode_mutate_instruction LoadResult = wr_seq [wr_u8 76]"
| "encode_mutate_instruction StoreResult = wr_seq [wr_u8 77]"
| "encode_mutate_instruction Pop = wr_seq [wr_u8 78]"
| "encode_mutate_instruction Crash = wr_seq [wr_u8 79]"
| "encode_mutate_instruction (BeginTry catch e local) =
     wr_seq [wr_u8 80, wr_target catch, wr_target e, wr_optional_u16 local]"
| "encode_mutate_instruction EndTry = wr_seq [wr_u8 81]"
| "encode_mutate_instruction Throw = wr_seq [wr_u8 82]"
| "encode_mutate_instruction (Locate n) = wr_seq [wr_u8 83, wr_u16 n]"
| "encode_mutate_instruction (LocateIn n) = wr_seq [wr_u8 84, wr_u16 n]"
| "encode_mutate_instruction (CompoundAssignment v) =
     wr_seq [wr_u8 85, wr_u8 (compound_assignment_tag v)]"

definition decode_mutate_instruction :: "u8 \<Rightarrow> mutate_instruction rd" where
  "decode_mutate_instruction tag =
     (if tag = 70 then rd3 MutateLocal (rd_u16 ''local slot'') (rd_i8 ''mutation delta'')
        (rd_boolean ''prefix flag'')
      else if tag = 71 then rd3 MutateField rd_field (rd_i8 ''mutation delta'')
        (rd_boolean ''prefix flag'')
      else if tag = 72 then rd3 MutateGlobal rd_field (rd_i8 ''mutation delta'')
        (rd_boolean ''prefix flag'')
      else if tag = 73 then rd2 MutateListIndex (rd_i8 ''mutation delta'')
        (rd_boolean ''prefix flag'')
      else if tag = 74 then rd2 MutateResult (rd_i8 ''mutation delta'')
        (rd_boolean ''prefix flag'')
      else if tag = 75 then rd_return Duplicate
      else if tag = 76 then rd_return LoadResult
      else if tag = 77 then rd_return StoreResult
      else if tag = 78 then rd_return Pop
      else if tag = 79 then rd_return Crash
      else if tag = 80 then rd3 BeginTry rd_target rd_target rd_optional_u16
      else if tag = 81 then rd_return EndTry
      else if tag = 82 then rd_return Throw
      else if tag = 83 then rd1 Locate (rd_u16 ''argument count'')
      else if tag = 84 then rd1 LocateIn (rd_u16 ''argument count'')
      else if tag = 85 then rd1 CompoundAssignment
        (rd_bind (rd_u8 ''assignment operator tag'') decode_compound_assignment)
      else rd_fail (UnknownTag ''instruction tag'' tag))"

section \<open>Tags 86 to 112\<close>

primrec operator_tag :: "operator_instruction \<Rightarrow> u8" where
  "operator_tag Add = 86"
| "operator_tag Subtract = 87"
| "operator_tag Multiply = 88"
| "operator_tag Power = 89"
| "operator_tag Divide = 90"
| "operator_tag Remainder = 91"
| "operator_tag FractionalRemainder = 92"
| "operator_tag BitAnd = 93"
| "operator_tag BitOr = 94"
| "operator_tag BitXor = 95"
| "operator_tag ShiftLeft = 96"
| "operator_tag ShiftRight = 97"
| "operator_tag BitNot = 98"
| "operator_tag Negate = 99"
| "operator_tag Not = 100"
| "operator_tag Equal = 101"
| "operator_tag NotEqual = 102"
| "operator_tag Equivalent = 103"
| "operator_tag NotEquivalent = 104"
| "operator_tag Compare = 105"
| "operator_tag Contains = 106"
| "operator_tag Less = 107"
| "operator_tag LessEqual = 108"
| "operator_tag Greater = 109"
| "operator_tag GreaterEqual = 110"
| "operator_tag And = 111"
| "operator_tag Or = 112"

definition encode_operator_instruction :: "operator_instruction \<Rightarrow> wr" where
  "encode_operator_instruction i = wr_seq [wr_u8 (operator_tag i)]"

definition decode_operator_instruction :: "u8 \<Rightarrow> operator_instruction rd" where
  "decode_operator_instruction tag =
     (if tag = 86 then rd_return Add
      else if tag = 87 then rd_return Subtract
      else if tag = 88 then rd_return Multiply
      else if tag = 89 then rd_return Power
      else if tag = 90 then rd_return Divide
      else if tag = 91 then rd_return Remainder
      else if tag = 92 then rd_return FractionalRemainder
      else if tag = 93 then rd_return BitAnd
      else if tag = 94 then rd_return BitOr
      else if tag = 95 then rd_return BitXor
      else if tag = 96 then rd_return ShiftLeft
      else if tag = 97 then rd_return ShiftRight
      else if tag = 98 then rd_return BitNot
      else if tag = 99 then rd_return Negate
      else if tag = 100 then rd_return Not
      else if tag = 101 then rd_return Equal
      else if tag = 102 then rd_return NotEqual
      else if tag = 103 then rd_return Equivalent
      else if tag = 104 then rd_return NotEquivalent
      else if tag = 105 then rd_return Compare
      else if tag = 106 then rd_return Contains
      else if tag = 107 then rd_return Less
      else if tag = 108 then rd_return LessEqual
      else if tag = 109 then rd_return Greater
      else if tag = 110 then rd_return GreaterEqual
      else if tag = 111 then rd_return And
      else if tag = 112 then rd_return Or
      else rd_fail (UnknownTag ''instruction tag'' tag))"

section \<open>Tags 113 to 124\<close>

text \<open>A call target is a raw id or, in the semantic digest, a canonical path.\<close>

definition encode_call_parent_target ::
  "procedure_id option \<Rightarrow> procedure_ref_encoding \<Rightarrow> wr" where
  "encode_call_parent_target procedure refs = (case refs of
       RawId \<Rightarrow> wr_optional_procedure procedure
     | SemanticPath ps \<Rightarrow> wr_seq (wr_boolean (procedure \<noteq> None)
         # (case procedure of None \<Rightarrow> [] | Some p \<Rightarrow> [wr_procedure_ref p refs])))"

fun encode_control_instruction ::
  "procedure_ref_encoding \<Rightarrow> control_instruction \<Rightarrow> wr" where
  "encode_control_instruction refs (JumpIfNull t) = wr_seq [wr_u8 113, wr_target t]"
| "encode_control_instruction refs (JumpIfFalse t) = wr_seq [wr_u8 114, wr_target t]"
| "encode_control_instruction refs (Jump t) = wr_seq [wr_u8 115, wr_target t]"
| "encode_control_instruction refs (JumpIfArgumentSupplied parameter t) =
     wr_seq [wr_u8 116, wr_u16 parameter, wr_target t]"
| "encode_control_instruction refs (Call procedure n ns) =
     wr_seq [wr_u8 117, wr_procedure_ref procedure refs, wr_u16 n, wr_optional_strings ns]"
| "encode_control_instruction refs (CallCurrent n) = wr_seq [wr_u8 118, wr_optional_u16 n]"
| "encode_control_instruction refs (CallParent procedure n) =
     wr_seq [wr_u8 119, encode_call_parent_target procedure refs, wr_optional_u16 n]"
| "encode_control_instruction refs (CallDynamic selector n ns null_global) =
     wr_seq [wr_u8 120, wr_optional_string selector, wr_u16 n, wr_optional_strings ns,
       wr_boolean null_global]"
| "encode_control_instruction refs (ExpandArgumentLists n ns is) =
     wr_seq [wr_u8 121, wr_u16 n, wr_optional_strings ns, wr_u16s is]"
| "encode_control_instruction refs Return = wr_seq [wr_u8 122]"
| "encode_control_instruction refs (Spawn entry) = wr_seq [wr_u8 123, wr_target entry]"
| "encode_control_instruction refs Sleep = wr_seq [wr_u8 124]"

definition decode_control_instruction :: "nat \<Rightarrow> u8 \<Rightarrow> control_instruction rd" where
  "decode_control_instruction procedure_count tag =
     (if tag = 113 then rd1 JumpIfNull rd_target
      else if tag = 114 then rd1 JumpIfFalse rd_target
      else if tag = 115 then rd1 Jump rd_target
      else if tag = 116 then rd2 JumpIfArgumentSupplied (rd_u16 ''parameter index'') rd_target
      else if tag = 117 then rd3 Call (rd_procedure procedure_count) (rd_u16 ''argument count'')
        rd_optional_strings
      else if tag = 118 then rd1 CallCurrent rd_optional_u16
      else if tag = 119 then rd2 CallParent (rd_optional_procedure procedure_count) rd_optional_u16
      else if tag = 120 then rd4 CallDynamic rd_optional_string (rd_u16 ''argument count'')
        rd_optional_strings (rd_boolean ''global receiver flag'')
      else if tag = 121 then rd3 ExpandArgumentLists (rd_u16 ''argument count'')
        rd_optional_strings rd_u16s
      else if tag = 122 then rd_return Return
      else if tag = 123 then rd1 Spawn rd_target
      else if tag = 124 then rd_return Sleep
      else rd_fail (UnknownTag ''instruction tag'' tag))"

section \<open>Tags 125 to 136\<close>

primrec encode_fused_instruction :: "fused_instruction \<Rightarrow> wr" where
  "encode_fused_instruction (LogicalOrEmptyListLocal v) = wr_seq [wr_u8 125, wr_u16 v]"
| "encode_fused_instruction (LogicalOrEmptyListGlobal v) = wr_seq [wr_u8 126, wr_string v]"
| "encode_fused_instruction (LogicalOrEmptyListField v) = wr_seq [wr_u8 127, wr_string v]"
| "encode_fused_instruction LogicalOrEmptyListIndex = wr_seq [wr_u8 128]"
| "encode_fused_instruction PickExpandedArguments = wr_seq [wr_u8 129]"
| "encode_fused_instruction PrepareRhsFirstIndexAssignment = wr_seq [wr_u8 130]"
| "encode_fused_instruction (LoadDeclaredField v) = wr_seq [wr_u8 131, wr_string v]"
| "encode_fused_instruction LoadDynamicField = wr_seq [wr_u8 132]"
| "encode_fused_instruction StoreDynamicField = wr_seq [wr_u8 133]"
| "encode_fused_instruction (IndexLocalList v) = wr_seq [wr_u8 134, wr_u16 v]"
| "encode_fused_instruction (ListLengthLocal v) = wr_seq [wr_u8 135, wr_u16 v]"
| "encode_fused_instruction (NextLocalListIteration list_slot index_slot item_slot exit) =
     wr_seq [wr_u8 136, wr_u16 list_slot, wr_u16 index_slot, wr_u16 item_slot, wr_target exit]"

definition decode_fused_instruction :: "u8 \<Rightarrow> fused_instruction rd" where
  "decode_fused_instruction tag =
     (if tag = 125 then rd1 LogicalOrEmptyListLocal (rd_u16 ''local slot'')
      else if tag = 126 then rd1 LogicalOrEmptyListGlobal rd_field
      else if tag = 127 then rd1 LogicalOrEmptyListField rd_field
      else if tag = 128 then rd_return LogicalOrEmptyListIndex
      else if tag = 129 then rd_return PickExpandedArguments
      else if tag = 130 then rd_return PrepareRhsFirstIndexAssignment
      else if tag = 131 then rd1 LoadDeclaredField rd_field
      else if tag = 132 then rd_return LoadDynamicField
      else if tag = 133 then rd_return StoreDynamicField
      else if tag = 134 then rd1 IndexLocalList (rd_u16 ''local slot'')
      else if tag = 135 then rd1 ListLengthLocal (rd_u16 ''local slot'')
      else if tag = 136 then rd4 NextLocalListIteration (rd_u16 ''list local slot'')
        (rd_u16 ''index local slot'') (rd_u16 ''item local slot'') rd_target
      else rd_fail (UnknownTag ''instruction tag'' tag))"

section \<open>The whole match\<close>

fun encode_instruction :: "procedure_ref_encoding \<Rightarrow> instruction \<Rightarrow> wr" where
  "encode_instruction refs (ValueInstr i) = encode_value_instruction i"
| "encode_instruction refs (QueryInstr i) = encode_query_instruction i"
| "encode_instruction refs (AccessInstr i) = encode_access_instruction i"
| "encode_instruction refs (MutateInstr i) = encode_mutate_instruction i"
| "encode_instruction refs (OperatorInstr i) = encode_operator_instruction i"
| "encode_instruction refs (ControlInstr i) = encode_control_instruction refs i"
| "encode_instruction refs (FusedInstr i) = encode_fused_instruction i"

definition decode_by_tag :: "nat \<Rightarrow> u8 \<Rightarrow> instruction rd" where
  "decode_by_tag procedure_count tag =
     (if tag < 23 then rd1 ValueInstr (decode_value_instruction tag)
      else if tag < 45 then rd1 QueryInstr (decode_query_instruction tag)
      else if tag < 70 then rd1 AccessInstr (decode_access_instruction tag)
      else if tag < 86 then rd1 MutateInstr (decode_mutate_instruction tag)
      else if tag < 113 then rd1 OperatorInstr (decode_operator_instruction tag)
      else if tag < 125 then rd1 ControlInstr (decode_control_instruction procedure_count tag)
      else if tag < 137 then rd1 FusedInstr (decode_fused_instruction tag)
      else rd_fail (UnknownTag ''instruction tag'' tag))"

definition decode_instruction :: "nat \<Rightarrow> instruction rd" where
  "decode_instruction procedure_count =
     rd_bind (rd_u8 ''instruction tag'') (decode_by_tag procedure_count)"

end
