(* ===== verification/InstructionLaws.thy ===== *)
theory InstructionLaws
  imports InstructionCodec
begin

text \<open>
  Every instruction whose strings, names and call targets are well formed is read back from
  the bytes it was written to, whatever follows them in the input.
\<close>

section \<open>Well-formed payloads\<close>

text \<open>
  \<open>FieldName\<close> and \<open>TypePath\<close> values exist only as results of their parsers, and every Rust
  string is UTF-8: these conditions hold of every value of the source's types.
\<close>

definition field_ok :: "string \<Rightarrow> bool" where
  "field_ok s \<longleftrightarrow> utf8_valid s \<and> field_name_parse s = Inr s"

definition type_path_ok :: "string \<Rightarrow> bool" where
  "type_path_ok s \<longleftrightarrow> utf8_valid s \<and> type_path_parse s = Inr s"

definition names_ok :: "string option list \<Rightarrow> bool" where
  "names_ok ns \<longleftrightarrow> list_all (\<lambda>v. \<forall>s \<in> set_option v. utf8_valid s) ns"

definition value_instruction_ok :: "value_instruction \<Rightarrow> bool" where
  "value_instruction_ok i = (case i of
       PushText v \<Rightarrow> utf8_valid v | PushFile v \<Rightarrow> utf8_valid v | PushTypePath v \<Rightarrow> type_path_ok v
     | MakeModifiedTypePath fs \<Rightarrow> list_all field_ok fs
     | AllocateDatum n ns \<Rightarrow> names_ok ns
     | StandardBuiltin name n ns \<Rightarrow> utf8_valid name \<and> names_ok ns
     | NativeSrcMethod name n \<Rightarrow> utf8_valid name
     | Animate ns is \<Rightarrow> names_ok ns | MakeFilter ns is \<Rightarrow> names_ok ns
     | _ \<Rightarrow> True)"

definition query_instruction_ok :: "query_instruction \<Rightarrow> bool" where
  "query_instruction_ok i = (case i of
       InitialField v \<Rightarrow> field_ok v | TypeInstances v \<Rightarrow> type_path_ok v | _ \<Rightarrow> True)"

definition access_instruction_ok :: "access_instruction \<Rightarrow> bool" where
  "access_instruction_ok i = (case i of
       IterationTypeFilter v \<Rightarrow> type_path_ok v
     | LoadField v \<Rightarrow> field_ok v | StoreField v \<Rightarrow> field_ok v | StoreFieldKeep v \<Rightarrow> field_ok v
     | LoadGlobal v \<Rightarrow> field_ok v | LoadInitialGlobal v \<Rightarrow> field_ok v | StoreGlobal v \<Rightarrow> field_ok v
     | _ \<Rightarrow> True)"

definition mutate_instruction_ok :: "mutate_instruction \<Rightarrow> bool" where
  "mutate_instruction_ok i = (case i of
       MutateField v d p \<Rightarrow> field_ok v | MutateGlobal v d p \<Rightarrow> field_ok v | _ \<Rightarrow> True)"

definition control_instruction_ok :: "control_instruction \<Rightarrow> bool" where
  "control_instruction_ok i = (case i of
       Call p n ns \<Rightarrow> names_ok ns
     | CallDynamic sel n ns g \<Rightarrow> (\<forall>s \<in> set_option sel. utf8_valid s) \<and> names_ok ns
     | ExpandArgumentLists n ns is \<Rightarrow> names_ok ns
     | _ \<Rightarrow> True)"

definition fused_instruction_ok :: "fused_instruction \<Rightarrow> bool" where
  "fused_instruction_ok i = (case i of
       LogicalOrEmptyListGlobal v \<Rightarrow> field_ok v | LogicalOrEmptyListField v \<Rightarrow> field_ok v
     | LoadDeclaredField v \<Rightarrow> field_ok v | _ \<Rightarrow> True)"

definition instruction_ok :: "instruction \<Rightarrow> bool" where
  "instruction_ok i = (case i of
       ValueInstr j \<Rightarrow> value_instruction_ok j | QueryInstr j \<Rightarrow> query_instruction_ok j
     | AccessInstr j \<Rightarrow> access_instruction_ok j | MutateInstr j \<Rightarrow> mutate_instruction_ok j
     | OperatorInstr j \<Rightarrow> True | ControlInstr j \<Rightarrow> control_instruction_ok j
     | FusedInstr j \<Rightarrow> fused_instruction_ok j)"

text \<open>The procedure ids an instruction calls, and the instruction indexes it may jump to.\<close>

definition call_ids :: "instruction \<Rightarrow> procedure_id list" where
  "call_ids i = (case i of
       ControlInstr (Call p n ns) \<Rightarrow> [p]
     | ControlInstr (CallParent (Some p) n) \<Rightarrow> [p]
     | _ \<Rightarrow> [])"

definition checked_targets :: "instruction \<Rightarrow> nat list" where
  "checked_targets i = (case i of
       AccessInstr (LoadStaticLocalOrJump slot t) \<Rightarrow> [t]
     | ControlInstr (JumpIfNull t) \<Rightarrow> [t] | ControlInstr (JumpIfFalse t) \<Rightarrow> [t]
     | ControlInstr (Jump t) \<Rightarrow> [t] | ControlInstr (JumpIfArgumentSupplied p t) \<Rightarrow> [t]
     | ControlInstr (Spawn t) \<Rightarrow> [t]
     | MutateInstr (BeginTry c e l) \<Rightarrow> [c, e]
     | _ \<Rightarrow> [])"

text \<open>
  Every target an instruction can jump to: those the validator checks, and the exit of the fused
  loop header, which it does not.
\<close>

definition jump_targets :: "instruction \<Rightarrow> nat list" where
  "jump_targets i = checked_targets i
     @ (case i of FusedInstr (NextLocalListIteration l k s exit) \<Rightarrow> [exit] | _ \<Rightarrow> [])"

lemmas payload_ok_defs = field_ok_def type_path_ok_def names_ok_def

section \<open>Tags of the small enums\<close>

lemma rt_type_predicate [codec_intro]:
  "roundtrips 0 1 (wr_u8 (type_predicate_tag k))
     (rd_bind (rd_u8 label) decode_type_predicate) k"
  by (rule rt_then [OF rt_u8]) (cases k; simp add: decode_type_predicate_def)

lemma decode_compound_operator_tag:
  "decode_compound_operator what (compound_operator_tag op) = rd_return op"
  by (cases op) (simp_all add: decode_compound_operator_def)

lemma rd1_return: "rd1 C (rd_return x) = rd_return (C x)"
  by (rule ext) (simp add: rd1_def rd_bind_def rd_return_def)

lemma rt_compound_list [codec_intro]:
  "roundtrips 0 1 (wr_u8 (compound_list_tag v)) (rd_bind (rd_u8 label) decode_compound_list) v"
  by (rule rt_then [OF rt_u8]) (cases v;
    simp add: compound_list_tag_def decode_compound_list_def decode_compound_operator_tag rd1_return)

lemma rt_compound_assignment [codec_intro]:
  "roundtrips 0 1 (wr_u8 (compound_assignment_tag v))
     (rd_bind (rd_u8 label) decode_compound_assignment) v"
  by (rule rt_then [OF rt_u8]) (cases v; simp add: compound_assignment_tag_def
      decode_compound_assignment_def decode_compound_operator_tag rd1_return)

lemma rt_list_entry_kind: "roundtrips 0 1 (wr_list_entry_kind k) rd_list_entry_kind k"
  unfolding wr_list_entry_kind_def rd_list_entry_kind_def
  by (rule rt_then [OF rt_u8]) (cases k; simp)

interpretation list_entry_codec: element_codec wr_list_entry_kind rd_list_entry_kind "\<lambda>_. True" 1
  by unfold_locales (rule rt_list_entry_kind, simp)

lemma rt_list_entry_kinds [codec_intro]:
  "roundtrips 0 4 (wr_list_entry_kinds vs) rd_list_entry_kinds vs"
  unfolding wr_list_entry_kinds_def rd_list_entry_kinds_def
  by (rule list_entry_codec.vector) (simp_all add: list_all_iff)

lemma rt_field_ok [codec_intro]: "field_ok s \<Longrightarrow> roundtrips 0 4 (wr_string s) rd_field s"
  by (simp add: field_ok_def rt_field)

section \<open>Instructions, block by block\<close>

lemma rt_tagged:
  assumes "roundtrips 0 m (wr_seq ws) (decode_by_tag pc t) i"
  shows "roundtrips 0 1 (wr_seq (wr_u8 t # ws)) (decode_instruction pc) i"
proof -
  have "roundtrips 0 (1 + m) (wr_seq (wr_u8 t # ws)) (decode_instruction pc) i"
    unfolding decode_instruction_def by (rule rt_bind [of 0 1 _ _ t], rule rt_u8, rule assms, simp)
  then show ?thesis by (rule rt_mono) simp
qed

lemma rt_value_instruction:
  assumes "value_instruction_ok i"
  shows "roundtrips 0 1 (encode_value_instruction i) (decode_instruction pc) (ValueInstr i)"
  by (insert assms, (cases i; simp only: encode_value_instruction.simps; rule rt_tagged;
      simp add: decode_by_tag_def decode_value_instruction_def; rule rt_rd1;
      (rule rt_return | (rule rt_fields; rule codec_intro))))
    (simp_all add: value_instruction_ok_def payload_ok_defs list_all_iff)

lemma rt_query_instruction:
  assumes "query_instruction_ok i"
  shows "roundtrips 0 1 (encode_query_instruction i) (decode_instruction pc) (QueryInstr i)"
  by (insert assms, (cases i; simp only: encode_query_instruction.simps; rule rt_tagged;
      simp add: decode_by_tag_def decode_query_instruction_def; rule rt_rd1;
      (rule rt_return | (rule rt_fields; rule codec_intro))))
    (simp_all add: query_instruction_ok_def payload_ok_defs)

lemma rt_access_instruction:
  assumes "access_instruction_ok i"
  shows "roundtrips 0 1 (encode_access_instruction i) (decode_instruction pc) (AccessInstr i)"
  by (insert assms, (cases i; simp only: encode_access_instruction.simps; rule rt_tagged;
      simp add: decode_by_tag_def decode_access_instruction_def; rule rt_rd1;
      (rule rt_return | (rule rt_fields; rule codec_intro))))
    (simp_all add: access_instruction_ok_def payload_ok_defs)

lemma rt_mutate_instruction:
  assumes "mutate_instruction_ok i"
  shows "roundtrips 0 1 (encode_mutate_instruction i) (decode_instruction pc) (MutateInstr i)"
  by (insert assms, (cases i; simp only: encode_mutate_instruction.simps; rule rt_tagged;
      simp add: decode_by_tag_def decode_mutate_instruction_def; rule rt_rd1;
      (rule rt_return | (rule rt_fields; rule codec_intro))))
    (simp_all add: mutate_instruction_ok_def payload_ok_defs)

lemma rt_operator_instruction:
  "roundtrips 0 1 (encode_operator_instruction i) (decode_instruction pc) (OperatorInstr i)"
  unfolding encode_operator_instruction_def
  by (cases i; simp only: operator_tag.simps; rule rt_tagged;
      simp add: decode_by_tag_def decode_operator_instruction_def; rule rt_rd1; rule rt_return)

lemma rt_call_target [codec_intro]:
  "unat p < n \<Longrightarrow> roundtrips 0 4 (wr_procedure_ref p RawId) (rd_procedure n) p"
  unfolding wr_procedure_ref_def procedure_ref_encoding.case by (rule rt_procedure)

lemma rt_call_parent_target [codec_intro]:
  "\<forall>p \<in> set_option v. unat p < n \<Longrightarrow>
   roundtrips 0 1 (encode_call_parent_target v RawId) (rd_optional_procedure n) v"
  unfolding encode_call_parent_target_def procedure_ref_encoding.case
  by (rule rt_optional_procedure)

lemma rt_control_instruction:
  assumes "control_instruction_ok i" and "\<forall>p \<in> set (call_ids (ControlInstr i)). unat p < pc"
  shows "roundtrips 0 1 (encode_control_instruction RawId i) (decode_instruction pc) (ControlInstr i)"
  by (insert assms, (cases i; simp only: encode_control_instruction.simps; rule rt_tagged;
      simp add: decode_by_tag_def decode_control_instruction_def; rule rt_rd1;
      (rule rt_return | (rule rt_fields; rule codec_intro))))
    (simp_all add: control_instruction_ok_def payload_ok_defs call_ids_def split: option.splits)

lemma rt_fused_instruction:
  assumes "fused_instruction_ok i"
  shows "roundtrips 0 1 (encode_fused_instruction i) (decode_instruction pc) (FusedInstr i)"
  by (insert assms, (cases i; simp only: encode_fused_instruction.simps; rule rt_tagged;
      simp add: decode_by_tag_def decode_fused_instruction_def; rule rt_rd1;
      (rule rt_return | (rule rt_fields; rule codec_intro))))
    (simp_all add: fused_instruction_ok_def payload_ok_defs)

lemma rt_instruction:
  assumes "instruction_ok i" and "\<forall>p \<in> set (call_ids i). unat p < pc"
  shows "roundtrips 0 1 (encode_instruction RawId i) (decode_instruction pc) i"
  using assms
  by (cases i) (simp_all only: encode_instruction.simps instruction_ok_def instruction.case
      rt_value_instruction rt_query_instruction rt_access_instruction rt_mutate_instruction
      rt_operator_instruction rt_control_instruction rt_fused_instruction)

end
