(* ===== verification/ModuleCodec.thy ===== *)
theory ModuleCodec
  imports InstructionLaws DmCore
begin

text \<open>
  Whole programs and modules of \<open>crates/dm-vm/src/module_codec.rs\<close>: validation, the portable
  artifact written by \<open>encode_portable\<close> and read by \<open>decode_portable\<close>, the name indexes
  rebuilt from the path table, and the semantic digest of a procedure.
\<close>

section \<open>Procedure identities and the dynamic name index\<close>

definition procedure_id_from_index :: "nat \<Rightarrow> codec_error + procedure_id" where
  "procedure_id_from_index index = (if index \<le> u32_max then Inr (of_nat index)
     else Inl (CodecMessage ''module has more than u32::MAX procedures''))"

definition split_once :: "char \<Rightarrow> string \<Rightarrow> string \<times> string option" where
  "split_once c s = (if c \<in> set s
     then (takeWhile (\<lambda>x. x \<noteq> c) s, Some (tl (dropWhile (\<lambda>x. x \<noteq> c) s)))
     else (s, None))"

text \<open>
  One path of \<open>dynamic_name_index\<close>: an engine declaration only fills a vacant entry, a
  project body replaces the earlier one.
\<close>

definition index_path ::
  "string \<Rightarrow> procedure_id \<Rightarrow> (string \<rightharpoonup> procedure_id) \<Rightarrow> (string \<rightharpoonup> procedure_id)" where
  "index_path path procedure index = (case split_once (CHR ''@'') path of (base_path, suffix) \<Rightarrow>
     if suffix = Some ''dream64_builtin'' \<or> suffix = Some ''dream64_native''
     then (if index base_path = None then index(base_path \<mapsto> procedure) else index)
     else index(base_path \<mapsto> procedure))"

fun dynamic_name_loop :: "nat \<Rightarrow> string list \<Rightarrow> (string \<rightharpoonup> procedure_id)
    \<Rightarrow> codec_error + (string \<rightharpoonup> procedure_id)" where
  "dynamic_name_loop position [] index = Inr index"
| "dynamic_name_loop position (path # rest) index =
     res_bind (procedure_id_from_index position) (\<lambda>procedure.
       dynamic_name_loop (Suc position) rest (index_path path procedure index))"

definition dynamic_name_index :: "string list \<Rightarrow> codec_error + (string \<rightharpoonup> procedure_id)" where
  "dynamic_name_index ps = dynamic_name_loop 0 ps Map.empty"

text \<open>The exact index: only paths that start with a slash, and no path twice.\<close>

fun name_loop :: "nat \<Rightarrow> string list \<Rightarrow> (string \<rightharpoonup> procedure_id)
    \<Rightarrow> codec_error + (string \<rightharpoonup> procedure_id)" where
  "name_loop index [] m = Inr m"
| "name_loop index (path # rest) m =
     (if \<not> starts_with path ''/'' then name_loop (Suc index) rest m
      else if m path \<noteq> None then Inl (DuplicateProcedurePath path)
      else name_loop (Suc index) rest (m(path \<mapsto> of_nat index)))"

section \<open>Validation\<close>

definition valid_jump :: "nat \<Rightarrow> nat \<Rightarrow> codec_error + unit" where
  "valid_jump instruction_count target =
     (if instruction_count \<le> target then Inl (JumpTargetOutside target instruction_count) else Inr ())"

definition validate_instruction :: "nat \<Rightarrow> nat \<Rightarrow> instruction \<Rightarrow> codec_error + unit" where
  "validate_instruction procedure_count instruction_count i = (case i of
       AccessInstr (LoadStaticLocalOrJump slot target) \<Rightarrow> valid_jump instruction_count target
     | ControlInstr (JumpIfNull target) \<Rightarrow> valid_jump instruction_count target
     | ControlInstr (JumpIfFalse target) \<Rightarrow> valid_jump instruction_count target
     | ControlInstr (Jump target) \<Rightarrow> valid_jump instruction_count target
     | ControlInstr (JumpIfArgumentSupplied parameter target) \<Rightarrow> valid_jump instruction_count target
     | ControlInstr (Spawn target) \<Rightarrow> valid_jump instruction_count target
     | MutateInstr (BeginTry catch e local) \<Rightarrow>
         res_bind (valid_jump instruction_count catch) (\<lambda>_. valid_jump instruction_count e)
     | ControlInstr (Call procedure n ns) \<Rightarrow> validate_procedure procedure procedure_count
     | ControlInstr (CallParent (Some procedure) n) \<Rightarrow> validate_procedure procedure procedure_count
     | _ \<Rightarrow> Inr ())"

text \<open>A \<open>for\<close> loop that returns the first error.\<close>

fun validate_all :: "('a \<Rightarrow> codec_error + unit) \<Rightarrow> 'a list \<Rightarrow> codec_error + unit" where
  "validate_all f [] = Inr ()"
| "validate_all f (x # xs) = res_bind (f x) (\<lambda>_. validate_all f xs)"

definition validate_span :: "source_span \<Rightarrow> codec_error + unit" where
  "validate_span span =
     (if span_end span < span_start span
      then Inl (CodecMessage ''source span has inverted bounds'')
      else if usize_max < span_start span \<or> usize_max < span_end span
      then Inl (CodecMessage ''source span exceeds format limit'')
      else Inr ())"

definition validate_program :: "program \<Rightarrow> nat \<Rightarrow> codec_error + unit" where
  "validate_program p procedure_count =
     (if MAX_INSTRUCTIONS_PER_PROGRAM < length (instructions p)
      then Inl (CodecMessage ''program exceeds instruction limit'')
      else if length (source_spans p) \<noteq> length (instructions p)
      then Inl (CodecMessage ''instruction and source-span table lengths differ'')
      else if length (parameter_names p) \<noteq> parameter_count p
      then Inl (CodecMessage ''parameter name and parameter count differ'')
      else if length (verb_parameter_types p) \<noteq> parameter_count p
      then Inl (CodecMessage ''verb parameter type and parameter count differ'')
      else if local_count p < parameter_count p
      then Inl (CodecMessage ''parameter count exceeds local slot count'')
      else if u16_max < parameter_count p \<or> u16_max < local_count p
      then Inl (CodecMessage ''program slot count exceeds the u16 VM ABI limit'')
      else res_bind (validate_all validate_span (source_spans p)) (\<lambda>_.
        validate_all (validate_instruction procedure_count (length (instructions p)))
          (instructions p)))"

text \<open>The loop over the procedures, with the running instruction total.\<close>

fun validate_programs ::
  "nat \<Rightarrow> nat \<Rightarrow> string list \<Rightarrow> nat \<Rightarrow> program list \<Rightarrow> codec_error + unit" where
  "validate_programs procedure_count index ps running [] = Inr ()"
| "validate_programs procedure_count index ps running (p # rest) =
     res_bind (map_err (InProcedure index (ps ! index)) (validate_program p procedure_count)) (\<lambda>_.
       let running' = running + length (instructions p) in
       if usize_max < running' then Inl (CodecMessage ''total instruction count overflow'')
       else if MAX_TOTAL_INSTRUCTIONS < running'
       then Inl (CodecMessage ''module exceeds total instruction limit'')
       else validate_programs procedure_count (Suc index) ps running' rest)"

definition validate_module :: "'d vm_module \<Rightarrow> codec_error + unit" where
  "validate_module m =
     (if deferred m \<noteq> Map.empty
      then Inl (CodecMessage ''portable module encoding requires a fully eager module'')
      else if MAX_PROCEDURES < length (procedures m)
      then Inl (CodecMessage ''module exceeds procedure limit'')
      else if length (paths m) \<noteq> length (procedures m)
      then Inl (CodecMessage ''procedure path and program table lengths differ'')
      else if MAX_PROCEDURE_TYPES < length (procedure_types m)
      then Inl (CodecMessage ''module exceeds procedure type limit'')
      else validate_programs (length (procedures m)) 0 (paths m) 0 (procedures m))"

section \<open>Programs\<close>

fun verb_parameter_type_tag :: "verb_parameter_type \<Rightarrow> u8" where
  "verb_parameter_type_tag VptUnsupported = 0"
| "verb_parameter_type_tag VptText = 1"
| "verb_parameter_type_tag VptNumber = 2"
| "verb_parameter_type_tag VptMessage = 3"
| "verb_parameter_type_tag VptColor = 4"
| "verb_parameter_type_tag VptFile = 5"
| "verb_parameter_type_tag VptAnything = 6"
| "verb_parameter_type_tag (VptAtom atoms) = 0x80 OR (atoms AND 0x0f)"

definition rd_verb_parameter_type :: "verb_parameter_type rd" where
  "rd_verb_parameter_type = rd_bind (rd_u8 ''verb parameter type'') (\<lambda>tag.
     if tag = 0 then rd_return VptUnsupported else if tag = 1 then rd_return VptText
     else if tag = 2 then rd_return VptNumber else if tag = 3 then rd_return VptMessage
     else if tag = 4 then rd_return VptColor else if tag = 5 then rd_return VptFile
     else if tag = 6 then rd_return VptAnything
     else if tag AND 0xf0 = 0x80 \<and> tag AND 0x0f \<noteq> 0 then rd_return (VptAtom (tag AND 0x0f))
     else rd_fail (UnknownTag ''verb parameter type tag'' tag))"

definition wr_span :: "source_span \<Rightarrow> wr" where
  "wr_span span = wr_seq [wr_u64 (of_nat (span_start span)), wr_u64 (of_nat (span_end span))]"

text \<open>
  The reader checks the order of the bounds before it calls \<open>SourceSpan::new\<close>, so the
  constructor's assertion cannot fail there.
\<close>

definition rd_span :: "source_span rd" where
  "rd_span = rd_bind (rd_usize64 ''source span start'') (\<lambda>s.
     rd_bind (rd_usize64 ''source span end'') (\<lambda>e.
       if e < s then rd_fail (CodecMessage ''source span has inverted bounds'')
       else (case source_span_new s e of
           None \<Rightarrow> rd_fail (CodecMessage ''panic: source span start exceeds end'')
         | Some span \<Rightarrow> rd_return span)))"

definition encode_program :: "program \<Rightarrow> procedure_ref_encoding \<Rightarrow> wr" where
  "encode_program p procedure_refs = wr_seq
     [wr_boolean (wait_for p),
      wr_u32 (of_nat (parameter_count p)),
      wr_seq (wr_len (length (parameter_names p)) u32_max ''parameter name count''
        # map wr_string (parameter_names p)),
      wr_seq (wr_len (length (verb_parameter_types p)) u32_max ''verb parameter type count''
        # map (\<lambda>t. wr_u8 (verb_parameter_type_tag t)) (verb_parameter_types p)),
      wr_optional_string (verb_name p),
      wr_u32 (of_nat (local_count p)),
      wr_seq (wr_len (length (instructions p)) MAX_INSTRUCTIONS_PER_PROGRAM ''instruction count''
        # map (encode_instruction procedure_refs) (instructions p)),
      wr_seq (wr_len (length (source_spans p)) MAX_INSTRUCTIONS_PER_PROGRAM ''source span count''
        # map wr_span (source_spans p))]"

text \<open>Each table of a program: its length, the check of it, then the items.\<close>

definition rd_counted :: "(nat \<Rightarrow> bool) \<Rightarrow> codec_error \<Rightarrow> 'a rd \<Rightarrow> nat \<Rightarrow> 'a list rd" where
  "rd_counted good err d n = (if good n then rd_repeat n d else rd_fail err)"

definition decode_program :: "nat \<Rightarrow> program rd" where
  "decode_program procedure_count =
     rd_bind (rd_boolean ''wait-for flag'') (\<lambda>wait.
     rd_bind (rd1 unat (rd_u32 ''parameter count'')) (\<lambda>parameters.
     if MAX_VECTOR_ELEMENTS < parameters
     then rd_fail (CodecMessage ''parameter count exceeds limit'')
     else
     rd_bind (rd_bind (rd_len_with_min MAX_VECTOR_ELEMENTS ''parameter name count'' 4)
       (rd_counted (\<lambda>n. n = parameters)
         (CodecMessage ''parameter name and parameter count differ'')
         (rd_string ''parameter name''))) (\<lambda>param_names.
     rd_bind (rd_bind (rd_len_with_min MAX_VECTOR_ELEMENTS ''verb parameter type count'' 1)
       (rd_counted (\<lambda>n. n = parameters)
         (CodecMessage ''verb parameter type and parameter count differ'')
         rd_verb_parameter_type)) (\<lambda>param_types.
     rd_bind (rd_bind (rd_boolean ''verb name presence'') (\<lambda>flag.
       if flag then rd1 Some (rd_string ''verb name'') else rd_return None)) (\<lambda>verb.
     rd_bind (rd1 unat (rd_u32 ''local count'')) (\<lambda>locals.
     if u16_max < locals
     then rd_fail (CodecMessage ''local count exceeds the u16 VM ABI limit'')
     else
     rd_bind (rd_bind (rd_len_with_min MAX_INSTRUCTIONS_PER_PROGRAM ''instruction count'' 1)
       (\<lambda>n. rd_repeat n (decode_instruction procedure_count))) (\<lambda>instrs.
     rd_bind (rd_bind (rd_len_with_min MAX_INSTRUCTIONS_PER_PROGRAM ''source span count'' 16)
       (rd_counted (\<lambda>n. n = length instrs)
         (CodecMessage ''instruction and source-span table lengths differ'') rd_span)) (\<lambda>spans.
     let p = \<lparr>wait_for = wait, parameter_count = parameters, parameter_names = param_names,
       verb_parameter_types = param_types, verb_name = verb, local_count = locals,
       instructions = instrs, source_spans = spans\<rparr> in
     (\<lambda>r. res_bind (validate_program p procedure_count) (\<lambda>_. Inr (p, r)))))))))))"

section \<open>Modules\<close>

definition MAGIC :: "u8 list" where "MAGIC = as_bytes ''DM64MOD'' @ [0]"
definition VERSION :: u16 where "VERSION = 6"

definition encode_portable :: "'d vm_module \<Rightarrow> codec_error + u8 list" where
  "encode_portable m = res_bind (validate_module m) (\<lambda>_.
     res_bind (wr_seq
       [\<lambda>b. Inr (b @ MAGIC), wr_u16 VERSION, wr_u16 0,
        wr_seq (wr_len (length (procedures m)) MAX_PROCEDURES ''procedure count''
          # map wr_string (paths m)),
        wr_seq (wr_len (length (procedure_types m)) MAX_PROCEDURE_TYPES ''procedure type count''
          # map wr_string (procedure_types m)),
        wr_seq (map (\<lambda>p. encode_program p RawId) (procedures m))] []) (\<lambda>b.
     if MAX_ARTIFACT_BYTES < length b
     then Inl (CodecMessage ''encoded module exceeds artifact byte limit'')
     else Inr b))"

definition rd_map_err :: "(codec_error \<Rightarrow> codec_error) \<Rightarrow> 'a rd \<Rightarrow> 'a rd" where
  "rd_map_err h d r = map_err h (d r)"

definition rd_header :: "unit rd" where
  "rd_header =
     rd_bind (rd_take (length MAGIC) ''module header'') (\<lambda>magic.
     if magic \<noteq> MAGIC then rd_fail (CodecMessage ''invalid portable module header'') else
     rd_bind (rd_u16 ''module version'') (\<lambda>version.
     if version \<noteq> VERSION then rd_fail (UnsupportedVersion version) else
     rd_bind (rd_u16 ''reserved header flags'') (\<lambda>flags.
     if flags \<noteq> 0 then rd_fail (CodecMessage ''unknown portable module header flags'')
     else rd_return ())))"

text \<open>\<open>decode_programs pc ps index running\<close> reads one program for each path of \<open>ps\<close>.\<close>

fun decode_programs :: "nat \<Rightarrow> string list \<Rightarrow> nat \<Rightarrow> nat \<Rightarrow> program list rd" where
  "decode_programs procedure_count [] index running = rd_return []"
| "decode_programs procedure_count (path # rest) index running =
     rd_bind (rd_map_err (InProcedure index path) (decode_program procedure_count)) (\<lambda>p.
       let running' = running + length (instructions p) in
       if usize_max < running' then rd_fail (CodecMessage ''total instruction count overflow'')
       else if MAX_TOTAL_INSTRUCTIONS < running'
       then rd_fail (CodecMessage ''module exceeds total instruction limit'')
       else rd1 ((#) p) (decode_programs procedure_count rest (Suc index) running'))"

definition rd_module_tables :: "(string list \<times> string list \<times> program list) rd" where
  "rd_module_tables =
     rd_bind (rd_bind (rd_len_checked (CodecMessage ''truncated procedure path table'')
         MAX_PROCEDURES ''procedure count'' 4)
       (\<lambda>n. rd_repeat n (rd_string ''procedure path''))) (\<lambda>ps.
     rd_bind (rd_bind (rd_len_checked (CodecMessage ''truncated procedure type table'')
         MAX_PROCEDURE_TYPES ''procedure type count'' 4)
       (\<lambda>n. rd_repeat n (rd_bind (rd_string ''procedure type path'')
         (\<lambda>raw. intern_type_path raw ''procedure type path'')))) (\<lambda>ts r.
     if rd_remaining r div 17 < length ps
     then Inl (CodecMessage ''truncated program table'')
     else rd1 (\<lambda>progs. (ps, ts, progs)) (decode_programs (length ps) ps 0 0) r))"

definition decode_portable :: "u8 list \<Rightarrow> codec_error + 'd vm_module" where
  "decode_portable bs =
     (if MAX_ARTIFACT_BYTES < length bs
      then Inl (CodecMessage ''module artifact exceeds byte limit'')
      else res_bind (rd_bind rd_header (\<lambda>_. rd_module_tables) (reader_new bs))
        (\<lambda>((ps, ts, progs), r).
        if \<not> rd_is_empty r then Inl (CodecMessage ''trailing bytes after portable module'')
        else res_bind (name_loop 0 ps Map.empty) (\<lambda>ns.
        res_bind (dynamic_name_index ps) (\<lambda>dns.
        let m = \<lparr>procedures = progs, paths = ps, names = ns, dynamic_names = dns,
          deferred = Map.empty, initializer_call_names = None, procedure_types = ts\<rparr> in
        res_bind (validate_module m) (\<lambda>_. Inr m)))))"

section \<open>Semantic digests\<close>

text \<open>
  \<open>resolve_procedure\<close>: a deferred body is compiled on first use (\<open>compile_deferred\<close>, the
  compiler, is a parameter; its result is cached, which no caller can observe), any other
  id indexes the program table.
\<close>

definition resolve_procedure ::
  "('d \<Rightarrow> string + program) \<Rightarrow> 'd vm_module \<Rightarrow> procedure_id \<Rightarrow> string + program" where
  "resolve_procedure compile_deferred m procedure = (case deferred m procedure of
       Some d \<Rightarrow> compile_deferred d
     | None \<Rightarrow> (case nth_opt (procedures m) (unat procedure) of
           Some p \<Rightarrow> Inr p | None \<Rightarrow> Inl ''invalid procedure''))"

definition semantic_prefix :: "u8 list" where
  "semantic_prefix = as_bytes ''D64-PROC-SEMANTIC'' @ [0, 2]"

definition semantic_bytes ::
  "('d \<Rightarrow> string + program) \<Rightarrow> 'd vm_module \<Rightarrow> procedure_id \<Rightarrow> codec_error + u8 list" where
  "semantic_bytes compile_deferred m procedure =
     res_bind (map_err CodecMessage (resolve_procedure compile_deferred m procedure)) (\<lambda>p.
     case nth_opt (paths m) (unat procedure) of
       None \<Rightarrow> Inl (CodecMessage ''semantic procedure path is missing'')
     | Some path \<Rightarrow>
         let owner = (case nth_opt (procedure_types m) (unat procedure) of
             None \<Rightarrow> '''' | Some t \<Rightarrow> t) in
         wr_seq [\<lambda>b. Inr (b @ semantic_prefix), wr_string path, wr_string owner,
           encode_program (p\<lparr>source_spans := []\<rparr>) (SemanticPath (paths m))] [])"

text \<open>\<open>Sha256::digest\<close> (crate \<open>sha2\<close>) is the parameter \<open>sha256\<close>.\<close>

definition compute_procedure_semantic_digest ::
  "(u8 list \<Rightarrow> u8 list) \<Rightarrow> ('d \<Rightarrow> string + program) \<Rightarrow> 'd vm_module \<Rightarrow> procedure_id
    \<Rightarrow> codec_error + u8 list" where
  "compute_procedure_semantic_digest sha256 compile_deferred m procedure =
     res_bind (semantic_bytes compile_deferred m procedure) (\<lambda>bs. Inr (sha256 bs))"

fun collect_digests ::
  "(procedure_id \<Rightarrow> codec_error + 'b) \<Rightarrow> nat \<Rightarrow> nat \<Rightarrow> codec_error + 'b list" where
  "collect_digests f index 0 = Inr []"
| "collect_digests f index (Suc n) = res_bind (f (of_nat index)) (\<lambda>d.
     res_bind (collect_digests f (Suc index) n) (\<lambda>ds. Inr (d # ds)))"

definition compute_all_procedure_semantic_digests ::
  "(u8 list \<Rightarrow> u8 list) \<Rightarrow> ('d \<Rightarrow> string + program) \<Rightarrow> 'd vm_module
    \<Rightarrow> codec_error + u8 list list" where
  "compute_all_procedure_semantic_digests sha256 compile_deferred m =
     collect_digests (compute_procedure_semantic_digest sha256 compile_deferred m) 0
       (length (procedures m))"

end
