(* ===== verification/ModuleLaws.thy ===== *)
theory ModuleLaws
  imports ModuleCodec
begin

text \<open>
  What the portable format promises: an accepted module is read back exactly, whatever is
  read back passed validation, and the semantic digest does not depend on how procedures
  are numbered.
\<close>

section \<open>Values of the source's types\<close>

text \<open>
  Strings are UTF-8, names and type paths went through their parsers, and an atom mask has
  one of the four documented bits.
\<close>

definition verb_type_ok :: "verb_parameter_type \<Rightarrow> bool" where
  "verb_type_ok t = (case t of VptAtom atoms \<Rightarrow> 0 < atoms \<and> atoms < 16 | _ \<Rightarrow> True)"

definition program_ok :: "program \<Rightarrow> bool" where
  "program_ok p \<longleftrightarrow> list_all utf8_valid (parameter_names p)
     \<and> list_all verb_type_ok (verb_parameter_types p)
     \<and> (\<forall>s \<in> set_option (verb_name p). utf8_valid s)
     \<and> list_all instruction_ok (instructions p)"

definition module_ok :: "'d vm_module \<Rightarrow> bool" where
  "module_ok m \<longleftrightarrow> list_all utf8_valid (paths m) \<and> list_all type_path_ok (procedure_types m)
     \<and> list_all program_ok (procedures m)"

section \<open>Validation\<close>

lemma valid_jump_iff [simp]: "valid_jump n t = Inr () \<longleftrightarrow> t < n"
  by (auto simp: valid_jump_def)

lemma validate_procedure_iff [simp]: "validate_procedure p n = Inr () \<longleftrightarrow> unat p < n"
  by (auto simp: validate_procedure_def)

lemma validate_instruction_iff:
  "validate_instruction pc n i = Inr () \<longleftrightarrow>
     (\<forall>t \<in> set (checked_targets i). t < n) \<and> (\<forall>p \<in> set (call_ids i). unat p < pc)"
  by (auto simp: validate_instruction_def checked_targets_def call_ids_def res_bind_Inr_iff
      split: instruction.splits access_instruction.splits control_instruction.splits
        mutate_instruction.splits option.splits)

lemma validate_all_iff: "validate_all f xs = Inr () \<longleftrightarrow> (\<forall>x \<in> set xs. f x = Inr ())"
  by (induction xs) (auto simp: res_bind_Inr_iff)

lemma validate_span_iff:
  "validate_span sp = Inr () \<longleftrightarrow> span_start sp \<le> span_end sp \<and> span_end sp \<le> usize_max"
  by (auto simp: validate_span_def)

lemma validate_program_iff:
  "validate_program p pc = Inr () \<longleftrightarrow>
     length (instructions p) \<le> MAX_INSTRUCTIONS_PER_PROGRAM
     \<and> length (source_spans p) = length (instructions p)
     \<and> length (parameter_names p) = parameter_count p
     \<and> length (verb_parameter_types p) = parameter_count p
     \<and> parameter_count p \<le> local_count p \<and> local_count p \<le> u16_max
     \<and> (\<forall>sp \<in> set (source_spans p). span_start sp \<le> span_end sp \<and> span_end sp \<le> usize_max)
     \<and> (\<forall>i \<in> set (instructions p). (\<forall>t \<in> set (checked_targets i). t < length (instructions p))
         \<and> (\<forall>q \<in> set (call_ids i). unat q < pc))"
  by (auto simp: validate_program_def res_bind_Inr_iff validate_all_iff validate_instruction_iff
      validate_span_iff)

lemma validate_programs_all:
  "validate_programs pc index ps running progs = Inr () \<Longrightarrow>
   \<forall>p \<in> set progs. validate_program p pc = Inr ()"
  by (induction progs arbitrary: index running)
    (auto simp: res_bind_Inr_iff map_err_Inr_iff Let_def split: if_splits)

lemma validate_module_iff:
  "validate_module m = Inr () \<longleftrightarrow> deferred m = Map.empty \<and> length (procedures m) \<le> MAX_PROCEDURES
     \<and> length (paths m) = length (procedures m) \<and> length (procedure_types m) \<le> MAX_PROCEDURE_TYPES
     \<and> validate_programs (length (procedures m)) 0 (paths m) 0 (procedures m) = Inr ()"
  by (auto simp: validate_module_def)

text \<open>The targets left unchecked are the exits of the fused loop headers.\<close>

lemma jump_targets_cases:
  "t \<in> set (jump_targets i) \<Longrightarrow> t \<in> set (checked_targets i) \<or> (\<exists>l k s. i = FusedInstr (NextLocalListIteration l k s t))"
  by (auto simp: jump_targets_def split: instruction.splits fused_instruction.splits)

fun redirect_exit :: "nat \<Rightarrow> instruction \<Rightarrow> instruction" where
  "redirect_exit t (FusedInstr (NextLocalListIteration l k s e)) = FusedInstr (NextLocalListIteration l k s t)"
| "redirect_exit t i = i"

definition redirect_exits :: "nat \<Rightarrow> 'd vm_module \<Rightarrow> 'd vm_module" where
  "redirect_exits t m = m\<lparr>procedures := map (\<lambda>p. p\<lparr>instructions := map (redirect_exit t) (instructions p)\<rparr>) (procedures m)\<rparr>"

lemma validate_redirected_instruction: "validate_instruction pc n (redirect_exit t i) = validate_instruction pc n i"
  by (cases "(t, i)" rule: redirect_exit.cases) (simp_all add: validate_instruction_def)

lemma validate_all_map: "validate_all f (map g xs) = validate_all (\<lambda>x. f (g x)) xs"
  by (induction xs) simp_all

lemma validate_redirected_program:
  "validate_program (p\<lparr>instructions := map (redirect_exit t) (instructions p)\<rparr>) pc = validate_program p pc"
  by (simp add: validate_program_def validate_all_map validate_redirected_instruction)

lemma validate_redirected_programs:
  "validate_programs pc i ps r (map (\<lambda>p. p\<lparr>instructions := map (redirect_exit t) (instructions p)\<rparr>) progs)
     = validate_programs pc i ps r progs"
  by (induction progs arbitrary: i r) (simp_all add: validate_redirected_program Let_def)

section \<open>Programs\<close>

lemma rt_verb_parameter_type:
  assumes "verb_type_ok t"
  shows "roundtrips 0 1 (wr_u8 (verb_parameter_type_tag t)) rd_verb_parameter_type t"
  unfolding rd_verb_parameter_type_def
proof (rule rt_then [OF rt_u8], cases t)
  case (VptAtom a)
  with assms have "0 < unat a" "unat a < 16"
    by (simp_all add: verb_type_ok_def word_less_nat_alt unat_gt_0)
  then have "unat a \<in> {1,2,3,4,5,6,7,8,9,10,11,12,13,14,15}"
    by (simp only: insert_iff empty_iff) presburger
  then have "a \<in> {1,2,3,4,5,6,7,8,9,10,11,12,13,14,15}"
    by (auto simp: word_unat_eq_iff)
  with VptAtom show "(if verb_parameter_type_tag t = 0 then rd_return VptUnsupported
     else if verb_parameter_type_tag t = 1 then rd_return VptText
     else if verb_parameter_type_tag t = 2 then rd_return VptNumber
     else if verb_parameter_type_tag t = 3 then rd_return VptMessage
     else if verb_parameter_type_tag t = 4 then rd_return VptColor
     else if verb_parameter_type_tag t = 5 then rd_return VptFile
     else if verb_parameter_type_tag t = 6 then rd_return VptAnything
     else if verb_parameter_type_tag t AND 0xf0 = 0x80 \<and> verb_parameter_type_tag t AND 0x0f \<noteq> 0
     then rd_return (VptAtom (verb_parameter_type_tag t AND 0x0f))
     else rd_fail (UnknownTag ''verb parameter type tag'' (verb_parameter_type_tag t))) = rd_return t"
    by auto
qed simp_all

lemma rt_span:
  assumes "span_start sp \<le> span_end sp" and "span_end sp \<le> usize_max"
  shows "roundtrips 0 16 (wr_span sp) rd_span sp"
proof -
  have "span_start sp \<le> usize_max" using assms by simp
  moreover have "source_span_new (span_start sp) (span_end sp) = Some sp"
    using assms(1) by (simp add: source_span_new_def)
  ultimately have "roundtrips 0 (8 + (8 + 0)) (wr_span sp) rd_span sp"
    unfolding wr_span_def rd_span_def using assms
    by - (rule rt_next, rule rt_usize64, simp, rule rt_next, rule rt_usize64, simp,
      simp add: rt_return)
  then show ?thesis by simp
qed

interpretation verb_type_codec: element_codec "\<lambda>t. wr_u8 (verb_parameter_type_tag t)"
  rd_verb_parameter_type verb_type_ok 1
  by unfold_locales (rule rt_verb_parameter_type, assumption, simp)

interpretation span_codec: element_codec wr_span rd_span
  "\<lambda>sp. span_start sp \<le> span_end sp \<and> span_end sp \<le> usize_max" 16
  by unfold_locales (simp_all add: rt_span)

interpretation instruction_codec: element_codec "encode_instruction RawId" "decode_instruction pc"
  "\<lambda>i. instruction_ok i \<and> (\<forall>q \<in> set (call_ids i). unat q < pc)" 1 for pc
  by unfold_locales (rule rt_instruction, simp, simp, simp)

lemma decode_validated:
  "validate_program p pc = Inr () \<Longrightarrow>
   (\<lambda>r. res_bind (validate_program p pc) (\<lambda>_. Inr (p, r))) = rd_return p"
  by (rule ext) (simp add: rd_return_def)

lemma u16_le_vector: "n \<le> u16_max \<Longrightarrow> n \<le> MAX_VECTOR_ELEMENTS \<and> n \<le> u32_max"
  by (simp add: u16_max_def MAX_VECTOR_ELEMENTS_def u32_max_def)

lemma rt_program:
  assumes ok: "program_ok p" and valid: "validate_program p pc = Inr ()"
  shows "roundtrips 0 17 (encode_program p RawId) (decode_program pc) p"
proof -
  note v = valid [unfolded validate_program_iff]
  have counts: "parameter_count p \<le> MAX_VECTOR_ELEMENTS" "parameter_count p \<le> u32_max"
      "local_count p \<le> u32_max"
    using v u16_le_vector [of "parameter_count p"] u16_le_vector [of "local_count p"] by auto
  have p: "\<lparr>wait_for = wait_for p, parameter_count = parameter_count p,
      parameter_names = parameter_names p, verb_parameter_types = verb_parameter_types p,
      verb_name = verb_name p, local_count = local_count p, instructions = instructions p,
      source_spans = source_spans p\<rparr> = p" by simp
  have "roundtrips 0 (1 + (4 + (4 + (4 + (1 + (4 + (4 + (4 + 0)))))))) (encode_program p RawId)
      (decode_program pc) p"
    unfolding encode_program_def decode_program_def rd_len_with_min_def
    apply (rule rt_next, rule rt_boolean)
    apply (rule rt_next, rule rt_count, rule counts)
    apply (subst if_not_P, use counts in simp)
    apply (rule rt_next, rule string_codec.vector_checked)
       apply (use ok v counts in \<open>simp_all add: program_ok_def rd_counted_def\<close>)[3]
    apply (rule rt_next, rule verb_type_codec.vector_checked)
       apply (use ok v counts in \<open>simp_all add: program_ok_def rd_counted_def\<close>)[3]
    apply (rule rt_next, rule rt_optional_string_labels)
     apply (use ok in \<open>simp add: program_ok_def\<close>)
    apply (rule rt_next, rule rt_count, rule counts)
    apply (subst if_not_P, use v in simp)
    apply (rule rt_next, rule instruction_codec.vector_checked)
       apply (use ok v in \<open>simp_all add: program_ok_def list_all_iff\<close>)[3]
    apply (rule rt_next, rule span_codec.vector_checked)
       apply (use v in \<open>simp_all add: rd_counted_def list_all_iff\<close>)[3]
    apply (simp add: Let_def p decode_validated [OF valid] rt_return)
    done
  then show ?thesis by (rule rt_mono) simp
qed

section \<open>Modules\<close>

lemma rt_map_err: "roundtrips k m w d x \<Longrightarrow> roundtrips k m w (rd_map_err h d) x"
  unfolding roundtrips_def decodes_def rd_map_err_def by (metis map_err_simps(2))

lemma rt_programs:
  "list_all program_ok progs \<Longrightarrow> length ps = length progs \<Longrightarrow>
   validate_programs pc index all_paths running progs = Inr () \<Longrightarrow>
   roundtrips 0 (17 * length progs) (wr_seq (map (\<lambda>p. encode_program p RawId) progs))
     (decode_programs pc ps index running) progs"
proof (induction progs arbitrary: ps index running)
  case Nil
  then show ?case by (simp add: rt_return)
next
  case (Cons p progs)
  then obtain path rest where ps: "ps = path # rest" "length rest = length progs"
    by (cases ps) auto
  have v: "validate_program p pc = Inr ()"
      "\<not> usize_max < running + length (instructions p)"
      "\<not> MAX_TOTAL_INSTRUCTIONS < running + length (instructions p)"
      "validate_programs pc (Suc index) all_paths (running + length (instructions p)) progs = Inr ()"
    using Cons.prems(3) by (auto simp: res_bind_Inr_iff map_err_Inr_iff Let_def split: if_splits)
  have one: "roundtrips 0 17 (encode_program p RawId)
      (rd_map_err (InProcedure index path) (decode_program pc)) p"
    using Cons.prems(1) v(1) by (simp add: rt_map_err rt_program)
  have more: "roundtrips 0 (17 * length progs) (wr_seq (map (\<lambda>p. encode_program p RawId) progs))
      (rd1 ((#) p) (decode_programs pc rest (Suc index) (running + length (instructions p)))) (p # progs)"
    using Cons.prems(1) ps(2) v(4) by (intro rt_rd1 Cons.IH) simp_all
  have "roundtrips 0 (17 + 17 * length progs)
      (wr_seq (encode_program p RawId # map (\<lambda>p. encode_program p RawId) progs))
      (decode_programs pc ps index running) (p # progs)"
    unfolding ps decode_programs.simps
    by (rule rt_next [OF one]) (simp only: Let_def v(2,3) if_False more)
  then show ?case by simp
qed

lemma rt_magic:
  "roundtrips 0 0 (\<lambda>b. Inr (b @ MAGIC)) (rd_take (length MAGIC) label) MAGIC"
  by (simp add: wr_appends decodes_take)

lemma rt_header:
  "roundtrips 0 0 (wr_seq [\<lambda>b. Inr (b @ MAGIC), wr_u16 VERSION, wr_u16 0]) rd_header ()"
proof -
  have "roundtrips 0 (0 + (2 + (2 + 0)))
      (wr_seq [\<lambda>b. Inr (b @ MAGIC), wr_u16 VERSION, wr_u16 0]) rd_header ()"
    unfolding rd_header_def
    by (rule rt_next [OF rt_magic], simp only: simp_thms if_False, rule rt_next [OF rt_u16],
        simp only: simp_thms if_False, rule rt_next [OF rt_u16], simp only: simp_thms if_False,
        rule rt_return)
  then show ?thesis by (rule rt_mono) simp
qed

interpretation type_table_codec: element_codec wr_string
  "rd_bind (rd_string label) (\<lambda>raw. intern_type_path raw label)" type_path_ok 4 for label
proof unfold_locales
  fix s assume "type_path_ok s"
  then have s: "utf8_valid s" "type_path_parse s = Inr s" by (simp_all add: type_path_ok_def)
  show "roundtrips 0 4 (wr_string s) (rd_bind (rd_string label)
      (\<lambda>raw. intern_type_path raw label)) s"
    by (rule rt_interned [OF rt_string [OF s(1)]]) (rule intern_type_path_ok [OF s(2)])
qed simp

section \<open>Name indexes\<close>

lemma dynamic_name_loop_append:
  "dynamic_name_loop i (ps @ qs) m =
   res_bind (dynamic_name_loop i ps m) (dynamic_name_loop (i + length ps) qs)"
  by (induction i ps m rule: dynamic_name_loop.induct) (simp_all add: res_bind_assoc)

lemma dynamic_name_loop_total:
  "i + length ps \<le> Suc u32_max \<Longrightarrow> \<exists>m'. dynamic_name_loop i ps m = Inr m'"
  by (induction i ps m rule: dynamic_name_loop.induct) (auto simp: procedure_id_from_index_def)

text \<open>The declarations of a canonical path, and those of them with a project body.\<close>

definition engine_path :: "string \<Rightarrow> bool" where
  "engine_path path \<longleftrightarrow> snd (split_once (CHR ''@'') path) = Some ''dream64_builtin''
     \<or> snd (split_once (CHR ''@'') path) = Some ''dream64_native''"

definition declarations :: "string list \<Rightarrow> string \<Rightarrow> nat list" where
  "declarations ps base = filter (\<lambda>i. fst (split_once (CHR ''@'') (ps ! i)) = base) [0..<length ps]"

definition project_bodies :: "string list \<Rightarrow> string \<Rightarrow> nat list" where
  "project_bodies ps base = filter (\<lambda>i. \<not> engine_path (ps ! i)) (declarations ps base)"

definition effective_index :: "string list \<Rightarrow> string \<Rightarrow> nat option" where
  "effective_index ps base =
     (if project_bodies ps base \<noteq> [] then Some (last (project_bodies ps base))
      else if declarations ps base \<noteq> [] then Some (hd (declarations ps base)) else None)"

lemma declarations_snoc:
  "declarations (ps @ [p]) base = declarations ps base
     @ (if fst (split_once (CHR ''@'') p) = base then [length ps] else [])"
proof -
  have "filter (\<lambda>i. fst (split_once (CHR ''@'') ((ps @ [p]) ! i)) = base) [0..<length ps]
      = declarations ps base"
    unfolding declarations_def by (rule filter_cong) (auto simp: nth_append)
  then show ?thesis by (simp add: declarations_def)
qed

lemma declarations_below: "i \<in> set (declarations ps base) \<Longrightarrow> i < length ps"
  by (simp add: declarations_def)

lemma project_bodies_snoc:
  "project_bodies (ps @ [p]) base = project_bodies ps base
     @ (if fst (split_once (CHR ''@'') p) = base \<and> \<not> engine_path p then [length ps] else [])"
proof -
  have "filter (\<lambda>i. \<not> engine_path ((ps @ [p]) ! i)) (declarations ps base) = project_bodies ps base"
    unfolding project_bodies_def
    by (rule filter_cong) (auto simp: nth_append dest: declarations_below)
  then show ?thesis
    unfolding project_bodies_def [of "ps @ [p]"] declarations_snoc
    by (auto simp del: filter_append simp: filter_append [of _ "declarations ps base"])
qed

lemma project_bodies_none: "declarations ps base = [] \<Longrightarrow> project_bodies ps base = []"
  by (simp add: project_bodies_def)

lemma effective_index_snoc:
  "effective_index (ps @ [p]) base =
     (if fst (split_once (CHR ''@'') p) \<noteq> base then effective_index ps base
      else if engine_path p \<and> effective_index ps base \<noteq> None then effective_index ps base
      else Some (length ps))"
  by (auto simp: effective_index_def declarations_snoc project_bodies_snoc project_bodies_none)

lemma index_path_apply:
  "index_path p d m base =
     (if fst (split_once (CHR ''@'') p) \<noteq> base then m base
      else if engine_path p \<and> m base \<noteq> None then m base else Some d)"
  by (auto simp: index_path_def engine_path_def split: prod.splits)

lemma dynamic_name_index_effective:
  "dynamic_name_index ps = Inr m \<Longrightarrow> m base = map_option of_nat (effective_index ps base)"
  unfolding dynamic_name_index_def
proof (induction ps arbitrary: m rule: rev_induct)
  case Nil
  then show ?case by (auto simp: effective_index_def declarations_def project_bodies_def)
next
  case (snoc p ps)
  then obtain m0 where m0: "dynamic_name_loop 0 ps Map.empty = Inr m0"
      "m = index_path p (of_nat (length ps)) m0"
    by (auto simp: dynamic_name_loop_append res_bind_Inr_iff procedure_id_from_index_def
        split: if_splits)
  with snoc.IH [OF m0(1)] show ?case
    by (auto simp: index_path_apply effective_index_snoc)
qed

definition slash_path :: "string \<Rightarrow> bool" where
  "slash_path p \<longleftrightarrow> starts_with p ''/''"

lemma name_loop_append:
  "name_loop i (ps @ qs) m = res_bind (name_loop i ps m) (name_loop (i + length ps) qs)"
  by (induction ps arbitrary: i m) simp_all

lemma name_loop_total:
  "distinct (filter slash_path ps) \<Longrightarrow> \<forall>p \<in> set (filter slash_path ps). m p = None \<Longrightarrow>
   \<exists>m'. name_loop i ps m = Inr m'"
  by (induction i ps m rule: name_loop.induct) (auto simp: slash_path_def)

lemma ex_nth_snoc:
  "(\<exists>j < length (xs @ [x]). (xs @ [x]) ! j = y \<and> P j) \<longleftrightarrow>
   (\<exists>j < length xs. xs ! j = y \<and> P j) \<or> x = y \<and> P (length xs)"
  by (simp add: Ex_less_Suc nth_append disj_commute cong: conj_cong)

lemma name_loop_lookup:
  "name_loop 0 ps Map.empty = Inr m \<Longrightarrow> distinct (filter slash_path ps) \<and>
   (\<forall>path d. m path = Some d \<longleftrightarrow> slash_path path \<and> (\<exists>j < length ps. ps ! j = path \<and> d = of_nat j))"
proof (induction ps arbitrary: m rule: rev_induct)
  case Nil
  then show ?case by auto
next
  case (snoc p ps)
  then obtain m0 where m0: "name_loop 0 ps Map.empty = Inr m0"
      "name_loop (length ps) [p] m0 = Inr m"
    by (auto simp: name_loop_append res_bind_Inr_iff)
  note IH = snoc.IH [OF m0(1)]
  show ?case
  proof (cases "slash_path p")
    case False
    with m0(2) have "m = m0" by (simp add: slash_path_def)
    with IH False show ?thesis unfolding ex_nth_snoc by auto
  next
    case True
    with m0(2) have m: "m0 p = None" "m = m0(p \<mapsto> of_nat (length ps))"
      by (auto simp: slash_path_def split: if_splits)
    have "p \<notin> set ps"
    proof
      assume "p \<in> set ps"
      then obtain j where "j < length ps" "ps ! j = p" by (auto simp: in_set_conv_nth)
      with IH True have "m0 p = Some (of_nat j)" by blast
      with m(1) show False by simp
    qed
    then have "\<not> (\<exists>j < length ps. ps ! j = p)" by (auto simp: in_set_conv_nth)
    with IH True m(2) \<open>p \<notin> set ps\<close> show ?thesis unfolding ex_nth_snoc by auto
  qed
qed

section \<open>The module round trip\<close>

lemma rt_module_tables:
  assumes ok: "module_ok m" and valid: "validate_module m = Inr ()"
  shows "roundtrips 0 0 (wr_seq
      [wr_seq (wr_len (length (procedures m)) MAX_PROCEDURES ''procedure count''
          # map wr_string (paths m)),
       wr_seq (wr_len (length (procedure_types m)) MAX_PROCEDURE_TYPES ''procedure type count''
          # map wr_string (procedure_types m)),
       wr_seq (map (\<lambda>p. encode_program p RawId) (procedures m))])
     rd_module_tables (paths m, procedure_types m, procedures m)"
proof -
  note v = valid [unfolded validate_module_iff]
  have progs: "roundtrips 0 (17 * length (procedures m))
      (wr_seq [wr_seq (map (\<lambda>p. encode_program p RawId) (procedures m))])
      (rd1 (\<lambda>progs. (paths m, procedure_types m, progs))
         (decode_programs (length (paths m)) (paths m) 0 0))
      (paths m, procedure_types m, procedures m)"
    unfolding rt_single using ok v
    by (intro rt_rd1 rt_programs [where all_paths = "paths m"]) (simp_all add: module_ok_def)
  have lens: "length (procedures m) = length (paths m)" using v by simp
  have "roundtrips 0 (4 + (4 + 17 * length (procedures m))) (wr_seq
      [wr_seq (wr_len (length (procedures m)) MAX_PROCEDURES ''procedure count''
          # map wr_string (paths m)),
       wr_seq (wr_len (length (procedure_types m)) MAX_PROCEDURE_TYPES ''procedure type count''
          # map wr_string (procedure_types m)),
       wr_seq (map (\<lambda>p. encode_program p RawId) (procedures m))])
     rd_module_tables (paths m, procedure_types m, procedures m)"
    unfolding rd_module_tables_def
    apply (rule rt_next, unfold lens, rule string_codec.vector_checked)
       apply (use ok in \<open>simp_all add: module_ok_def\<close>)[3]
    apply (rule rt_next, rule type_table_codec.vector_checked)
       apply (use ok in \<open>simp_all add: module_ok_def\<close>)[3]
    apply (rule rt_guarded, rule progs [unfolded lens])
     apply simp_all
    done
  then show ?thesis by (rule rt_mono) simp
qed

lemma encode_portable_bytes:
  assumes ok: "module_ok m" and enc: "encode_portable m = Inr bs"
  shows "decodes 0 (rd_bind rd_header (\<lambda>_. rd_module_tables)) bs
     (paths m, procedure_types m, procedures m)"
    and "length bs \<le> MAX_ARTIFACT_BYTES" and "validate_module m = Inr ()"
proof -
  show v: "validate_module m = Inr ()" and len: "length bs \<le> MAX_ARTIFACT_BYTES"
    using enc by (auto simp: encode_portable_def res_bind_Inr_iff split: if_splits)
  let ?tables = "[wr_seq (wr_len (length (procedures m)) MAX_PROCEDURES ''procedure count''
          # map wr_string (paths m)),
       wr_seq (wr_len (length (procedure_types m)) MAX_PROCEDURE_TYPES ''procedure type count''
          # map wr_string (procedure_types m)),
       wr_seq (map (\<lambda>p. encode_program p RawId) (procedures m))]"
  let ?header = "[\<lambda>b. Inr (b @ MAGIC), wr_u16 VERSION, wr_u16 0]"
  have "roundtrips 0 (0 + 0) (wr_seq (wr_seq ?header # ?tables))
      (rd_bind rd_header (\<lambda>_. rd_module_tables)) (paths m, procedure_types m, procedures m)"
    by (rule rt_next [OF rt_header rt_module_tables [OF ok v]])
  moreover have "wr_seq (wr_seq ?header # ?tables) [] = Inr bs"
    using enc unfolding wr_seq_nested
    by (auto simp: encode_portable_def res_bind_Inr_iff split: if_splits)
  ultimately obtain bs' where "bs = [] @ bs'"
      "decodes 0 (rd_bind rd_header (\<lambda>_. rd_module_tables)) bs'
        (paths m, procedure_types m, procedures m)"
    by (rule roundtripsE)
  then show "decodes 0 (rd_bind rd_header (\<lambda>_. rd_module_tables)) bs
      (paths m, procedure_types m, procedures m)" by simp
qed

lemma artifact_fits: "length bs \<le> MAX_ARTIFACT_BYTES \<Longrightarrow> length bs \<le> usize_max"
  by (simp add: MAX_ARTIFACT_BYTES_def usize_max_def)

lemma all_read_iff: "reader_ok r \<Longrightarrow> rd_is_empty r \<longleftrightarrow> unread r = []"
  by (auto simp: reader_ok_def rd_is_empty_def unread_def)

lemma encode_portable_indexes:
  assumes "validate_module m = Inr ()" and "distinct (filter slash_path (paths m))"
  obtains ns dns where "name_loop 0 (paths m) Map.empty = Inr ns"
    and "dynamic_name_index (paths m) = Inr dns"
proof -
  have "0 + length (paths m) \<le> Suc u32_max"
    using assms(1) by (simp add: validate_module_iff MAX_PROCEDURES_def u32_max_def)
  then obtain dns where "dynamic_name_index (paths m) = Inr dns"
    using dynamic_name_loop_total [of 0 "paths m" Map.empty] by (auto simp: dynamic_name_index_def)
  moreover obtain ns where "name_loop 0 (paths m) Map.empty = Inr ns"
    using name_loop_total [OF assms(2), of Map.empty 0] by auto
  ultimately show thesis using that by blast
qed

lemma portable_decodes:
  assumes "module_ok m" and "distinct (filter slash_path (paths m))"
    and "encode_portable m = Inr bs"
  shows "\<exists>ns dns. name_loop 0 (paths m) Map.empty = Inr ns \<and> dynamic_name_index (paths m) = Inr dns
    \<and> decode_portable bs
        = Inr (m\<lparr>names := ns, dynamic_names := dns, initializer_call_names := None\<rparr>)"
proof -
  note enc = encode_portable_bytes [OF assms(1,3)]
  obtain ns dns where idx: "name_loop 0 (paths m) Map.empty = Inr ns"
      "dynamic_name_index (paths m) = Inr dns"
    using encode_portable_indexes [OF enc(3) assms(2)] .
  obtain r where r: "rd_bind rd_header (\<lambda>_. rd_module_tables) (reader_new bs)
      = Inr ((paths m, procedure_types m, procedures m), r)" "reader_ok r" "unread r = []"
    using enc(1) reader_new_ok [OF artifact_fits [OF enc(2)]] by (auto elim: decodesE [of _ _ _ _ _ "[]"])
  have d: "deferred m = Map.empty" using enc(3) by (simp add: validate_module_iff)
  let ?m = "m\<lparr>names := ns, dynamic_names := dns, initializer_call_names := None\<rparr>"
  have m: "\<lparr>procedures = procedures m, paths = paths m, names = ns, dynamic_names = dns,
      deferred = Map.empty, initializer_call_names = None, procedure_types = procedure_types m\<rparr> = ?m"
    using d by (cases m) simp
  have "validate_module ?m = Inr ()" using enc(3) by (simp add: validate_module_iff)
  with idx r enc(2) show ?thesis
    by (simp add: decode_portable_def all_read_iff Let_def m not_less)
qed

section \<open>What a decoded module guarantees\<close>

lemma decode_portable_valid:
  assumes "decode_portable bs = Inr m"
  shows "validate_module m = Inr ()" and "name_loop 0 (paths m) Map.empty = Inr (names m)"
    and "dynamic_name_index (paths m) = Inr (dynamic_names m)"
  using assms by (auto simp: decode_portable_def res_bind_Inr_iff Let_def split: if_splits prod.splits)

lemma validate_programs_total:
  "validate_programs pc index ps running progs = Inr () \<Longrightarrow> running \<le> MAX_TOTAL_INSTRUCTIONS \<Longrightarrow>
   running + (\<Sum>p \<leftarrow> progs. length (instructions p)) \<le> MAX_TOTAL_INSTRUCTIONS"
proof (induction progs arbitrary: index running)
  case (Cons p progs)
  then have "validate_programs pc (Suc index) ps (running + length (instructions p)) progs = Inr ()"
      "running + length (instructions p) \<le> MAX_TOTAL_INSTRUCTIONS"
    by (auto simp: res_bind_Inr_iff map_err_Inr_iff Let_def not_less split: if_splits)
  from Cons.IH [OF this] show ?case by simp
qed simp

section \<open>Semantic digests\<close>

text \<open>What a call target contributes to a digest: the canonical path without reopening suffix.\<close>

definition semantic_target :: "string option \<Rightarrow> string option" where
  "semantic_target p = map_option (\<lambda>path.
     if starts_with path ''/'' then hd (split_char (CHR ''@'') path) else path) p"

fun renumber_instruction :: "(procedure_id \<Rightarrow> procedure_id) \<Rightarrow> instruction \<Rightarrow> instruction" where
  "renumber_instruction f (ControlInstr (Call p n ns)) = ControlInstr (Call (f p) n ns)"
| "renumber_instruction f (ControlInstr (CallParent p n)) = ControlInstr (CallParent (map_option f p) n)"
| "renumber_instruction f i = i"

definition renumber_program :: "(procedure_id \<Rightarrow> procedure_id) \<Rightarrow> program \<Rightarrow> program" where
  "renumber_program f p = p\<lparr>instructions := map (renumber_instruction f) (instructions p)\<rparr>"

lemma head_keeps_slash:
  "starts_with p ''/'' \<Longrightarrow> starts_with (hd (split_char (CHR ''@'') p)) ''/''"
  by (cases p) (auto split: list.splits)

lemma wr_semantic_path_target:
  assumes "semantic_target p = semantic_target q"
  shows "wr_semantic_procedure_path p = wr_semantic_procedure_path q"
  using assms head_keeps_slash
  by (cases p; cases q) (auto simp: semantic_target_def wr_semantic_procedure_path_def split: if_splits)

lemma encode_renumbered_instruction:
  assumes "\<forall>q \<in> set (call_ids i).
    semantic_target (nth_opt ps' (unat (f q))) = semantic_target (nth_opt ps (unat q))"
  shows "encode_instruction (SemanticPath ps') (renumber_instruction f i)
    = encode_instruction (SemanticPath ps) i"
proof (cases i)
  case (ControlInstr c)
  have "\<forall>q \<in> set (call_ids i). wr_semantic_procedure_path (nth_opt ps' (unat (f q)))
      = wr_semantic_procedure_path (nth_opt ps (unat q))"
    using assms wr_semantic_path_target by blast
  with ControlInstr show ?thesis
    by (cases c) (auto simp: call_ids_def wr_procedure_ref_def encode_call_parent_target_def
        split: option.splits)
qed simp_all

lemma encode_renumbered_program:
  assumes "\<forall>i \<in> set (instructions p). \<forall>q \<in> set (call_ids i).
    semantic_target (nth_opt ps' (unat (f q))) = semantic_target (nth_opt ps (unat q))"
  shows "encode_program (renumber_program f p\<lparr>source_spans := []\<rparr>) (SemanticPath ps')
    = encode_program (p\<lparr>source_spans := []\<rparr>) (SemanticPath ps)"
proof -
  have "map (encode_instruction (SemanticPath ps')) (map (renumber_instruction f) (instructions p))
      = map (encode_instruction (SemanticPath ps)) (instructions p)"
    using assms by (simp add: encode_renumbered_instruction)
  then show ?thesis by (simp add: encode_program_def renumber_program_def del: map_map)
qed

section \<open>A concrete module\<close>

definition sample_program :: program where
  "sample_program = \<lparr>wait_for = True, parameter_count = 1, parameter_names = [''x''],
     verb_parameter_types = [VptAtom 3], verb_name = Some ''Say'', local_count = 2,
     instructions = [AccessInstr (LoadLocal 0), ControlInstr (JumpIfFalse 4),
       ControlInstr (Call 1 1 [None, Some ''x'']), MutateInstr Pop, ControlInstr Return],
     source_spans = [\<lparr>span_start = 0, span_end = 1\<rparr>, \<lparr>span_start = 1, span_end = 4\<rparr>,
       \<lparr>span_start = 4, span_end = 9\<rparr>, \<lparr>span_start = 9, span_end = 9\<rparr>, \<lparr>span_start = 9, span_end = 300\<rparr>]\<rparr>"

definition sample_module :: "unit vm_module" where
  "sample_module = \<lparr>procedures = [sample_program, sample_program],
     paths = [''/mob/verb/say'', ''/mob/verb/say@reopened''], names = Map.empty,
     dynamic_names = Map.empty, deferred = Map.empty, initializer_call_names = None,
     procedure_types = [''/mob'']\<rparr>"

definition sample_bytes :: "u8 list" where
  "sample_bytes = (case encode_portable sample_module of Inr bs \<Rightarrow> bs | Inl e \<Rightarrow> [])"

lemma sample_encodes: "encode_portable sample_module = Inr sample_bytes"
  unfolding sample_bytes_def by (simp add: sample_module_def sample_program_def
   encode_portable_def validate_module_def validate_program_def validate_instruction_def validate_span_def
   valid_jump_def MAX_PROCEDURES_def MAX_PROCEDURE_TYPES_def MAX_INSTRUCTIONS_PER_PROGRAM_def MAX_TOTAL_INSTRUCTIONS_def usize_max_def u16_max_def validate_procedure_def Let_def
   wr_seq.simps wr_len_def wr_u8_def wr_u16_def wr_u32_def wr_u64_def wr_boolean_def encode_program_def wr_optional_string_def wr_optional_strings_def wr_string_def MAX_STRING_BYTES_def MAX_VECTOR_ELEMENTS_def u32_max_def wr_procedure_ref_def wr_span_def wr_target_def MAX_ARTIFACT_BYTES_def MAGIC_def as_bytes_def)

lemma sample_ok: "module_ok sample_module"
  by (simp add: module_ok_def sample_module_def sample_program_def program_ok_def type_path_ok_def verb_type_ok_def instruction_ok_def access_instruction_ok_def control_instruction_ok_def mutate_instruction_ok_def names_ok_def)
    (intro conjI utf8_valid_ascii; code_simp)

lemma sample_paths_distinct: "distinct (filter slash_path (paths sample_module))"
  by (simp add: sample_module_def slash_path_def)

lemma sample_decodes:
  obtains m where "decode_portable sample_bytes = Inr (m :: unit vm_module)"
    and "procedures m = procedures sample_module" and "paths m = paths sample_module"
  using portable_decodes [OF sample_ok sample_paths_distinct sample_encodes] by fastforce

section \<open>Properties\<close>

text \<open>
  C24. Instruction round trip: each of the 137 instructions, written with raw procedure ids, is
  read back from its bytes whatever follows them, and exactly its bytes are consumed.
\<close>

theorem instruction_roundtrip:
  assumes "instruction_ok i" and "\<forall>p \<in> set (call_ids i). unat p < procedure_count"
    and "encode_instruction RawId i [] = Inr bs" and "length (bs @ rest) \<le> usize_max"
  shows "\<exists>r. decode_instruction procedure_count (reader_new (bs @ rest)) = Inr (i, r)
    \<and> unread r = rest"
proof -
  obtain bs' where "bs = [] @ bs'" "decodes 0 (decode_instruction procedure_count) bs' i"
    using rt_instruction [OF assms(1,2)] assms(3) by (rule roundtripsE)
  with reader_new_ok [OF assms(4)] show ?thesis by (auto elim: decodesE [of _ _ _ _ _ rest])
qed

theorem instruction_roundtrip_witness:
  "\<exists>r. decode_instruction 3 (reader_new ([117, 2, 0, 0, 0, 1, 0, 1, 0, 0, 0, 0] @ [7, 7]))
     = Inr (ControlInstr (Call 2 1 [None]), r) \<and> unread r = [7, 7]"
  by (rule instruction_roundtrip)
    (simp_all add: instruction_ok_def control_instruction_ok_def names_ok_def call_ids_def
      wr_seq.simps wr_u8_def wr_u16_def wr_u32_def wr_procedure_ref_def wr_optional_strings_def
      wr_optional_string_def wr_boolean_def wr_len_def MAX_VECTOR_ELEMENTS_def u32_max_def
      usize_max_def le_bytes_numeral)

text \<open>
  C1. Portable round trip: whatever \<open>encode_portable\<close> writes for a module whose slash paths
  are distinct, \<open>decode_portable\<close> accepts, and it returns the same programs, paths and types;
  the two name indexes are rebuilt from the path table and not read from the artifact.
\<close>

theorem portable_roundtrip:
  assumes "module_ok m" and "distinct (filter slash_path (paths m))"
    and "encode_portable m = Inr bs"
  shows "\<exists>ns dns. name_loop 0 (paths m) Map.empty = Inr ns \<and> dynamic_name_index (paths m) = Inr dns
    \<and> decode_portable bs
        = Inr (m\<lparr>names := ns, dynamic_names := dns, initializer_call_names := None\<rparr>)"
  using portable_decodes [OF assms] .

theorem portable_roundtrip_witness:
  "\<exists>ns dns. name_loop 0 (paths sample_module) Map.empty = Inr ns
    \<and> dynamic_name_index (paths sample_module) = Inr dns
    \<and> decode_portable sample_bytes
        = Inr (sample_module\<lparr>names := ns, dynamic_names := dns, initializer_call_names := None\<rparr>)"
  by (rule portable_roundtrip [OF sample_ok sample_paths_distinct sample_encodes])

text \<open>
  No trailing bytes: an accepted artifact followed by any further byte is rejected.
\<close>

theorem portable_trailing_rejected:
  assumes "module_ok m" and "encode_portable m = Inr bs" and "extra \<noteq> []"
  shows "\<exists>e. (decode_portable (bs @ extra) :: codec_error + 'd vm_module) = Inl e"
proof (cases "length (bs @ extra) \<le> MAX_ARTIFACT_BYTES")
  case True
  obtain x r where "rd_bind rd_header (\<lambda>_. rd_module_tables) (reader_new (bs @ extra)) = Inr (x, r)"
      "reader_ok r" "unread r = extra"
    using encode_portable_bytes(1) [OF assms(1,2)] reader_new_ok [OF artifact_fits [OF True]]
    by (auto elim: decodesE [of _ _ _ _ _ extra])
  then show ?thesis using True assms(3)
    by (cases x) (auto simp: decode_portable_def all_read_iff)
qed (auto simp: decode_portable_def)

theorem portable_trailing_rejected_witness:
  "\<exists>e. (decode_portable (sample_bytes @ [0]) :: codec_error + unit vm_module) = Inl e"
  by (rule portable_trailing_rejected [OF sample_ok sample_encodes]) simp

text \<open>
  C2. Decoder soundness: every program of a decoded module has one span per instruction and at
  most 65535 instructions, calls only procedures of the module and keeps its parameters inside its
  locals, and every target its instructions can jump to is one of its own instructions, with one
  exception: the exit of a \<open>NextLocalListIteration\<close>, which \<open>validate_program\<close> does not look at.
  The whole module stays within the format limits. Nothing is assumed about the input bytes.
\<close>

theorem decode_portable_sound:
  assumes "decode_portable bs = Inr m"
  shows "length (paths m) = length (procedures m)
    \<and> length (procedures m) \<le> MAX_PROCEDURES
    \<and> (\<Sum>p \<leftarrow> procedures m. length (instructions p)) \<le> MAX_TOTAL_INSTRUCTIONS
    \<and> (\<forall>p \<in> set (procedures m).
         length (source_spans p) = length (instructions p)
         \<and> length (instructions p) \<le> 65535
         \<and> length (parameter_names p) = parameter_count p
         \<and> parameter_count p \<le> local_count p \<and> local_count p \<le> 65535
         \<and> (\<forall>sp \<in> set (source_spans p). span_start sp \<le> span_end sp)
         \<and> (\<forall>i \<in> set (instructions p).
              (\<forall>t \<in> set (jump_targets i). t < length (instructions p)
                 \<or> (\<exists>l k s. i = FusedInstr (NextLocalListIteration l k s t)))
              \<and> (\<forall>q \<in> set (call_ids i). unat q < length (procedures m))))"
proof -
  note v = decode_portable_valid(1) [OF assms, unfolded validate_module_iff]
  have progs: "\<forall>p \<in> set (procedures m). validate_program p (length (procedures m)) = Inr ()"
    using v validate_programs_all by blast
  have "(\<Sum>p \<leftarrow> procedures m. length (instructions p)) \<le> MAX_TOTAL_INSTRUCTIONS"
    using v validate_programs_total [of "length (procedures m)" 0 "paths m" 0 "procedures m"] by simp
  moreover have "t < length (instructions p) \<or> (\<exists>l k s. i = FusedInstr (NextLocalListIteration l k s t))"
    if "p \<in> set (procedures m)" "i \<in> set (instructions p)" "t \<in> set (jump_targets i)" for p i t
    using progs that jump_targets_cases unfolding validate_program_iff by blast
  ultimately show ?thesis using v progs
    by (simp add: validate_program_iff MAX_INSTRUCTIONS_PER_PROGRAM_def u16_max_def)
qed

theorem decode_portable_sound_witness:
  "\<exists>m :: unit vm_module. decode_portable sample_bytes = Inr m
    \<and> length (paths m) = length (procedures m)
    \<and> jump_targets (instructions (procedures m ! 0) ! 1) = [4]
    \<and> 4 < length (instructions (procedures m ! 0))"
proof -
  obtain m where m: "decode_portable sample_bytes = Inr (m :: unit vm_module)"
      "procedures m = procedures sample_module"
    by (rule sample_decodes)
  have t: "jump_targets (instructions (procedures m ! 0) ! 1) = [4]"
    unfolding m(2) by (simp add: sample_module_def sample_program_def jump_targets_def checked_targets_def)
  have mem: "procedures m ! 0 \<in> set (procedures m)"
      "instructions (procedures m ! 0) ! 1 \<in> set (instructions (procedures m ! 0))"
    unfolding m(2) by (simp_all add: sample_module_def sample_program_def)
  note sound = decode_portable_sound [OF m(1)]
  have "\<forall>u \<in> set (jump_targets (instructions (procedures m ! 0) ! 1)). u < length (instructions (procedures m ! 0))
      \<or> (\<exists>l k s. instructions (procedures m ! 0) ! 1 = FusedInstr (NextLocalListIteration l k s u))"
    using sound mem by blast
  moreover have "instructions (procedures m ! 0) ! 1 = ControlInstr (JumpIfFalse 4)"
    unfolding m(2) by (simp add: sample_module_def sample_program_def)
  ultimately have "4 < length (instructions (procedures m ! 0))" unfolding t by simp
  with m(1) t conjunct1 [OF sound] show ?thesis by blast
qed

text \<open>
  C0. The exit of a fused loop header is not validated: whatever a module is, moving the exit of every
  \<open>NextLocalListIteration\<close> in it to any target \<open>t\<close>, inside the program or not, leaves the result of
  \<open>validate_module\<close> as it was.
\<close>

theorem iteration_exit_unchecked: "validate_module (redirect_exits t m) = validate_module m"
  by (simp add: validate_module_def redirect_exits_def validate_redirected_programs)

text \<open>
  Exact names: in a decoded module a name resolves to an id exactly when it starts with a
  slash and stands at that index of the path table.
\<close>

theorem decoded_names_exact:
  assumes "decode_portable bs = Inr m"
  shows "names m path = Some d \<longleftrightarrow>
    starts_with path ''/'' \<and> unat d < length (paths m) \<and> paths m ! unat d = path"
proof -
  have len: "length (paths m) \<le> MAX_PROCEDURES"
    using decode_portable_valid(1) [OF assms] by (simp add: validate_module_iff)
  have id: "unat (of_nat j :: u32) = j" if "j < length (paths m)" for j
    using that len by (simp add: unsigned_of_nat take_bit_nat_eq_self_iff MAX_PROCEDURES_def)
  have "names m path = Some d \<longleftrightarrow>
      slash_path path \<and> (\<exists>j < length (paths m). paths m ! j = path \<and> d = of_nat j)"
    using name_loop_lookup [OF decode_portable_valid(2) [OF assms]] by blast
  also have "\<dots> \<longleftrightarrow> slash_path path \<and> unat d < length (paths m) \<and> paths m ! unat d = path"
    using id by (metis word_unat_eq_iff)
  finally show ?thesis by (simp add: slash_path_def)
qed

theorem decoded_names_exact_witness:
  "\<exists>m :: unit vm_module. decode_portable sample_bytes = Inr m
    \<and> names m ''/mob/verb/say@reopened'' = Some 1"
proof -
  obtain m where m: "decode_portable sample_bytes = Inr (m :: unit vm_module)"
      "paths m = paths sample_module"
    by (rule sample_decodes)
  have "names m ''/mob/verb/say@reopened'' = Some 1"
    unfolding decoded_names_exact [OF m(1)] m(2) by (simp add: sample_module_def)
  with m(1) show ?thesis by blast
qed

text \<open>
  Dynamic dispatch: a canonical path resolves to the last project body declared for it,
  and only when it has none to its first engine declaration.
\<close>

theorem decoded_dynamic_names:
  assumes "decode_portable bs = Inr m"
  shows "dynamic_names m base = map_option of_nat (effective_index (paths m) base)"
  using dynamic_name_index_effective [OF decode_portable_valid(3) [OF assms]] .

theorem decoded_dynamic_names_witness:
  "\<exists>m :: unit vm_module. decode_portable sample_bytes = Inr m
    \<and> dynamic_names m ''/mob/verb/say'' = Some 1"
proof -
  obtain m where m: "decode_portable sample_bytes = Inr (m :: unit vm_module)"
      "paths m = paths sample_module"
    by (rule sample_decodes)
  have "dynamic_names m ''/mob/verb/say'' = Some 1"
    unfolding decoded_dynamic_names [OF m(1)] m(2) by (simp add: sample_module_def
      effective_index_def project_bodies_def declarations_def engine_path_def split_once_def)
  with m(1) show ?thesis by blast
qed

text \<open>
  C25. The digest does not see procedure numbering: if a procedure of one module is a procedure
  of another with its call targets renumbered by \<open>f\<close> and other source spans, both have the same
  path and owner, and each call target keeps its canonical path, then the digests agree,
  whatever the hash function.
\<close>

theorem digest_renumbering_invariant:
  assumes "resolve_procedure cd m a = Inr p"
    and "resolve_procedure cd' m' b = Inr ((renumber_program f p)\<lparr>source_spans := spans\<rparr>)"
    and "nth_opt (paths m) (unat a) = nth_opt (paths m') (unat b)"
    and "nth_opt (procedure_types m) (unat a) = nth_opt (procedure_types m') (unat b)"
    and "\<forall>i \<in> set (instructions p). \<forall>q \<in> set (call_ids i).
      semantic_target (nth_opt (paths m') (unat (f q))) = semantic_target (nth_opt (paths m) (unat q))"
  shows "compute_procedure_semantic_digest sha256 cd' m' b
    = compute_procedure_semantic_digest sha256 cd m a"
proof -
  have "semantic_bytes cd' m' b = semantic_bytes cd m a"
    using assms(1-4) encode_renumbered_program [OF assms(5)]
    by (simp add: semantic_bytes_def split: option.split)
  then show ?thesis by (simp add: compute_procedure_semantic_digest_def)
qed

text \<open>The same program in a module where an unrelated procedure comes first.\<close>

definition renumbered_module :: "unit vm_module" where
  "renumbered_module = sample_module\<lparr>
     procedures := [sample_program, renumber_program (\<lambda>p. p + 1) sample_program\<lparr>source_spans := []\<rparr>],
     paths := [''/proc/added'', ''/mob/verb/say'', ''/mob/verb/say@later''],
     procedure_types := [''/obj'', ''/mob'']\<rparr>"

theorem digest_renumbering_invariant_witness:
  "compute_procedure_semantic_digest rev (\<lambda>_. Inl ''deferred'') renumbered_module 1
   = compute_procedure_semantic_digest rev (\<lambda>_. Inl ''deferred'') sample_module 0"
  by (rule digest_renumbering_invariant [where p = sample_program and f = "\<lambda>p. p + 1" and spans = "[]"])
    (simp_all add: resolve_procedure_def renumbered_module_def sample_module_def nth_opt_def
      sample_program_def call_ids_def semantic_target_def)

end
