(* ===== verification/Lexer.thy ===== *)
theory Lexer
  imports DmCore Value
begin

text \<open>
  The first-stage lexer of \<open>crates/dm-lexer/src/lib.rs\<close>. Its state is the source, a byte
  offset, the line-start flag and the tokens so far; each method is a function on that state.
  Every place where the Rust code can panic is explicit: a slice whose bounds are not ordered
  character boundaries, and a \<open>SourceSpan\<close> whose start exceeds its end, are \<open>LexPanic\<close>.
  Only \<open>remaining\<close> is total; the lemmas show that its slice is always legal.
\<close>

section \<open>Tokens\<close>

datatype token_kind =
    LineStart nat nat
  | Newline
  | LineContinuation
  | Identifier string
  | Number string
  | StringLit string
  | RawString string
  | TextBlock string
  | Resource string
  | Punctuation char
  | Operator string

record spanned_token =
  tok_kind :: token_kind
  tok_span :: source_span

datatype lex_failure = LexError string source_span | LexPanic

record lexer =
  lx_source :: string
  lx_offset :: nat
  lx_at_line_start :: bool
  lx_tokens :: "spanned_token list"

type_synonym lexed = "lex_failure + lexer"

section \<open>Characters and slices\<close>

abbreviation tab_char :: char where "tab_char \<equiv> CHR 0x09"
abbreviation nl_char :: char where "nl_char \<equiv> CHR 0x0A"
abbreviation cr_char :: char where "cr_char \<equiv> CHR 0x0D"
abbreviation quote_char :: char where "quote_char \<equiv> CHR 0x22"
abbreviation apostrophe_char :: char where "apostrophe_char \<equiv> CHR 0x27"
abbreviation backslash_char :: char where "backslash_char \<equiv> CHR 0x5C"

definition newline_byte :: "char \<Rightarrow> bool" where
  "newline_byte c \<longleftrightarrow> c = cr_char \<or> c = nl_char"

text \<open>\<open>&source[a..b]\<close>\<close>

definition slice :: "string \<Rightarrow> nat \<Rightarrow> nat \<Rightarrow> string option" where
  "slice s a b = (if a \<le> b \<and> b \<le> length s \<and> char_boundary s a \<and> char_boundary s b
     then Some (take (b - a) (drop a s)) else None)"

text \<open>\<open>str::find\<close> of a string, and \<open>rfind(['\r', '\n'])\<close>.\<close>

fun find_sub :: "string \<Rightarrow> string \<Rightarrow> nat option" where
  "find_sub pat [] = (if pat = [] then Some 0 else None)"
| "find_sub pat (c # s) =
     (if starts_with (c # s) pat then Some 0 else map_option Suc (find_sub pat s))"

fun rfind_newline :: "string \<Rightarrow> nat option" where
  "rfind_newline [] = None"
| "rfind_newline (c # s) = (case rfind_newline s of
       Some i \<Rightarrow> Some (Suc i)
     | None \<Rightarrow> if newline_byte c then Some 0 else None)"

definition remaining :: "lexer \<Rightarrow> string" where
  "remaining st = drop (lx_offset st) (lx_source st)"

text \<open>The next character, as the one to four bytes of its encoding.\<close>

definition current_char :: "lexer \<Rightarrow> string option" where
  "current_char st = (if remaining st = [] then None
     else Some (take (utf8_width (hd (remaining st))) (remaining st)))"

definition advance :: "nat \<Rightarrow> lexer \<Rightarrow> lexer" where
  "advance n st = st\<lparr>lx_offset := lx_offset st + n\<rparr>"

definition advance_char :: "lexer \<Rightarrow> lexer" where
  "advance_char st = (case current_char st of None \<Rightarrow> st | Some c \<Rightarrow> advance (length c) st)"

text \<open>Predicates on a character that only hold of one-byte characters.\<close>

definition char_is :: "(char \<Rightarrow> bool) \<Rightarrow> string \<Rightarrow> bool" where
  "char_is p c = (case c of [b] \<Rightarrow> p b | _ \<Rightarrow> False)"

text \<open>\<open>matches!(self.current_char(), Some(..))\<close>\<close>

definition next_is :: "(char \<Rightarrow> bool) \<Rightarrow> lexer \<Rightarrow> bool" where
  "next_is p st = (case current_char st of Some c \<Rightarrow> char_is p c | None \<Rightarrow> False)"

definition is_hexdigit :: "char \<Rightarrow> bool" where
  "is_hexdigit c \<longleftrightarrow> is_digit c \<or> (65 \<le> byte c \<and> byte c \<le> 70) \<or> (97 \<le> byte c \<and> byte c \<le> 102)"

lemma current_char_moves:
  "current_char st = Some c \<Longrightarrow> lx_offset st < lx_offset (advance_char st)
     \<and> lx_offset st < length (lx_source st) \<and> lx_source (advance_char st) = lx_source st"
  using utf8_width_pos [of "hd (remaining st)"]
  by (auto simp: current_char_def advance_char_def advance_def remaining_def split: if_splits)

lemma advance_simps [simp]:
  "lx_source (advance n st) = lx_source st" "lx_offset (advance n st) = lx_offset st + n"
  "lx_at_line_start (advance n st) = lx_at_line_start st" "lx_tokens (advance n st) = lx_tokens st"
  by (simp_all add: advance_def)

lemma advance_char_simps [simp]:
  "lx_source (advance_char st) = lx_source st"
  "lx_at_line_start (advance_char st) = lx_at_line_start st"
  "lx_tokens (advance_char st) = lx_tokens st"
  by (simp_all add: advance_char_def split: option.splits)

lemma advance_char_mono: "lx_offset st \<le> lx_offset (advance_char st)"
  by (simp add: advance_char_def split: option.splits)

text \<open>The measure of the lexer's loops: the bytes still ahead.\<close>

definition ahead :: "lexer \<Rightarrow> nat" where
  "ahead st = length (lx_source st) - lx_offset st"

lemma current_char_ahead:
  "lx_offset st < length (lx_source st) \<Longrightarrow> \<exists>c. current_char st = Some c"
  by (simp add: current_char_def remaining_def)

lemma ahead_advance_char: "current_char st = Some c \<Longrightarrow> ahead (advance_char st) < ahead st"
  using current_char_moves [of st c] by (auto simp: ahead_def)

lemma advance_char_ahead: "ahead (advance_char st) \<le> ahead st"
  using advance_char_mono [of st] by (simp add: ahead_def)

text \<open>Moving over whole characters, any number of times.\<close>

inductive advances :: "lexer \<Rightarrow> lexer \<Rightarrow> bool" where
  advances_refl: "advances st st"
| advances_step: "advances st st' \<Longrightarrow> advances st (advance_char st')"

lemma advances_trans: "advances b c \<Longrightarrow> advances a b \<Longrightarrow> advances a c"
  by (induction rule: advances.induct) (auto intro: advances.intros)

lemma advances_from:
  "\<exists>c. advances b c \<and> Q c \<Longrightarrow> advances a b \<Longrightarrow> \<exists>c. advances a c \<and> Q c"
  using advances_trans by blast

lemma advances_first: "advances (advance_char a) c \<Longrightarrow> advances a c"
  by (rule advances_trans) (auto intro: advances.intros)

lemma advances_ahead: "advances a b \<Longrightarrow> ahead b \<le> ahead a"
  by (induction rule: advances.induct) (auto intro: le_trans [OF advance_char_ahead])

lemma advances_same:
  "advances a b \<Longrightarrow> lx_source b = lx_source a \<and> lx_at_line_start b = lx_at_line_start a
     \<and> lx_tokens b = lx_tokens a \<and> lx_offset a \<le> lx_offset b"
  by (induction rule: advances.induct) (auto intro: le_trans [OF _ advance_char_mono])

function advance_while :: "(string \<Rightarrow> bool) \<Rightarrow> lexer \<Rightarrow> lexer" where
  "advance_while p st = (case current_char st of
       Some c \<Rightarrow> if p c then advance_while p (advance_char st) else st
     | None \<Rightarrow> st)"
  by pat_completeness auto
termination
  by (relation "measure (\<lambda>(p, st). ahead st)") (simp_all add: ahead_advance_char)

declare advance_while.simps [simp del]

section \<open>Tokens and errors at the current offset\<close>

definition push_range :: "nat \<Rightarrow> token_kind \<Rightarrow> lexer \<Rightarrow> lexed" where
  "push_range start kind st = (case source_span_new start (lx_offset st) of
       None \<Rightarrow> Inl LexPanic
     | Some sp \<Rightarrow> Inr (st\<lparr>lx_tokens := lx_tokens st @ [\<lparr>tok_kind = kind, tok_span = sp\<rparr>]\<rparr>))"

definition push_char :: "token_kind \<Rightarrow> lexer \<Rightarrow> lexed" where
  "push_char kind st = push_range (lx_offset st) kind (advance_char st)"

definition lex_fail :: "string \<Rightarrow> nat \<Rightarrow> nat \<Rightarrow> lex_failure + 'a" where
  "lex_fail msg s e = (case source_span_new s e of
       None \<Rightarrow> Inl LexPanic | Some sp \<Rightarrow> Inl (LexError msg sp))"

text \<open>Pushes a token whose text is a slice of the source.\<close>

definition push_slice :: "nat \<Rightarrow> nat \<Rightarrow> nat \<Rightarrow> (string \<Rightarrow> token_kind) \<Rightarrow> lexer \<Rightarrow> lexed" where
  "push_slice start a b mk st = (case slice (lx_source st) a b of
       None \<Rightarrow> Inl LexPanic | Some text \<Rightarrow> push_range start (mk text) st)"

section \<open>Lines and comments\<close>

function indentation_loop :: "nat \<Rightarrow> nat \<Rightarrow> lexer \<Rightarrow> nat \<times> nat \<times> lexer" where
  "indentation_loop tabs spaces st = (case current_char st of
       Some c \<Rightarrow>
         if c = [tab_char] then indentation_loop (Suc tabs) spaces (advance_char st)
         else if c = '' '' then indentation_loop tabs (Suc spaces) (advance_char st)
         else (tabs, spaces, st)
     | None \<Rightarrow> (tabs, spaces, st))"
  by pat_completeness auto
termination
  by (relation "measure (\<lambda>(t, s, st). ahead st)") (simp_all add: ahead_advance_char)

declare indentation_loop.simps [simp del]

definition lex_indentation :: "lexer \<Rightarrow> lexed" where
  "lex_indentation st = (case indentation_loop 0 0 st of (tabs, spaces, st') \<Rightarrow>
     res_bind (push_range (lx_offset st) (LineStart tabs spaces) st') (\<lambda>st''.
       Inr (st''\<lparr>lx_at_line_start := False\<rparr>)))"

definition lex_newline :: "lexer \<Rightarrow> lexed" where
  "lex_newline st = res_bind
     (push_range (lx_offset st) Newline
       (if starts_with (remaining st) [cr_char, nl_char] then advance 2 st else advance_char st))
     (\<lambda>st'. Inr (st'\<lparr>lx_at_line_start := True\<rparr>))"

definition has_line_continuation :: "lexer \<Rightarrow> bool" where
  "has_line_continuation st \<longleftrightarrow> starts_with (remaining st) [backslash_char, nl_char]
     \<or> starts_with (remaining st) [backslash_char, cr_char, nl_char]"

definition lex_line_continuation :: "lexer \<Rightarrow> lexed" where
  "lex_line_continuation st = res_bind
     (push_range (lx_offset st) LineContinuation
       (advance (if starts_with (remaining st) [backslash_char, cr_char, nl_char] then 3 else 2) st))
     (\<lambda>st'. Inr (st'\<lparr>lx_at_line_start := True\<rparr>))"

definition skip_line_comment :: "lexer \<Rightarrow> lexer" where
  "skip_line_comment st = advance_while (\<lambda>c. \<not> char_is newline_byte c) st"

text \<open>The indentation in front of a block comment's last line, as byte counts.\<close>

fun count_indent :: "nat \<Rightarrow> nat \<Rightarrow> string \<Rightarrow> nat \<times> nat" where
  "count_indent tabs spaces [] = (tabs, spaces)"
| "count_indent tabs spaces (c # s) =
     (if c = tab_char then count_indent (Suc tabs) spaces s
      else if c = CHR '' '' then count_indent tabs (Suc spaces) s
      else (tabs, spaces))"

definition line_begin :: "string \<Rightarrow> nat \<Rightarrow> nat" where
  "line_begin source offset = (case rfind_newline (take offset source) of
       None \<Rightarrow> 0 | Some newline \<Rightarrow> newline + 1)"

definition push_comment_line_start :: "lexer \<Rightarrow> lexed" where
  "push_comment_line_start st = (if lx_at_line_start st
     then (let line_start = line_begin (lx_source st) (lx_offset st);
               (tabs, spaces) = count_indent 0 0 (drop line_start (lx_source st)) in
           res_bind (push_range line_start (LineStart tabs spaces) st) (\<lambda>st'.
             Inr (st'\<lparr>lx_at_line_start := False\<rparr>)))
     else Inr st)"

lemma res_bind_cong [fundef_cong]:
  "r = r' \<Longrightarrow> (\<And>x. r' = Inr x \<Longrightarrow> f x = g x) \<Longrightarrow> res_bind r f = res_bind r' g"
  by (cases r') auto

lemma push_range_Inr:
  "push_range start kind st = Inr st' \<longleftrightarrow> start \<le> lx_offset st \<and>
     st' = st\<lparr>lx_tokens := lx_tokens st @ [\<lparr>tok_kind = kind,
       tok_span = \<lparr>span_start = start, span_end = lx_offset st\<rparr>\<rparr>]\<rparr>"
  by (auto simp: push_range_def source_span_new_def)

lemma advance_while_advances: "advances st (advance_while p st)"
proof (induction p st rule: advance_while.induct)
  case (1 p st)
  show ?case
    by (subst advance_while.simps)
      (use "1.IH" in \<open>auto intro: advances.intros advances_first split: option.splits\<close>)
qed

lemma advance_while_same:
  "lx_source (advance_while p st) = lx_source st
     \<and> lx_at_line_start (advance_while p st) = lx_at_line_start st
     \<and> lx_tokens (advance_while p st) = lx_tokens st
     \<and> lx_offset st \<le> lx_offset (advance_while p st)"
  by (rule advances_same [OF advance_while_advances])

lemma ahead_next: "lx_offset st < length (lx_source st) \<Longrightarrow> ahead (advance_char st) < ahead st"
  using current_char_ahead ahead_advance_char by blast

lemma ahead_newline:
  assumes "lex_newline st = Inr st'" and "lx_offset st < length (lx_source st)"
  shows "ahead st' < ahead st"
  using assms(1) ahead_next [OF assms(2)] assms(2)
  by (auto simp: lex_newline_def res_bind_Inr_iff push_range_Inr ahead_def split: if_splits)

function block_comment_loop :: "nat \<Rightarrow> nat \<Rightarrow> lexer \<Rightarrow> lexed" where
  "block_comment_loop start depth st =
     (if length (lx_source st) \<le> lx_offset st
      then lex_fail ''unterminated block comment'' start (lx_offset st)
      else if starts_with (remaining st) ''//''
      then block_comment_loop start depth (skip_line_comment (advance 2 st))
      else if starts_with (remaining st) ''/*''
      then block_comment_loop start (Suc depth) (advance 2 st)
      else if starts_with (remaining st) ''*/''
      then (if depth - 1 \<noteq> 0 then block_comment_loop start (depth - 1) (advance 2 st)
            else push_comment_line_start (advance 2 st))
      else if next_is newline_byte st
      then res_bind (lex_newline st) (block_comment_loop start depth)
      else block_comment_loop start depth (advance_char st))"
  by pat_completeness auto
termination
proof (relation "measure (\<lambda>(s, d, st). ahead st)")
  show "((start, depth, skip_line_comment (advance 2 st)), start, depth, st)
      \<in> measure (\<lambda>(s, d, st). ahead st)"
    if "\<not> length (lx_source st) \<le> lx_offset st" for start depth st
    using that advance_while_same [where st = "advance 2 st" and p = "\<lambda>c. \<not> char_is newline_byte c"]
    by (auto simp: skip_line_comment_def ahead_def)
  show "((start, depth, st'), start, depth, st) \<in> measure (\<lambda>(s, d, st). ahead st)"
    if "\<not> length (lx_source st) \<le> lx_offset st" "lex_newline st = Inr st'" for start depth st st'
    using that ahead_newline by simp
  show "((start, depth, advance_char st), start, depth, st) \<in> measure (\<lambda>(s, d, st). ahead st)"
    if "\<not> length (lx_source st) \<le> lx_offset st" for start depth st
    using that ahead_next by simp
qed (auto simp: ahead_def)

declare block_comment_loop.simps [simp del]

definition skip_block_comment :: "lexer \<Rightarrow> lexed" where
  "skip_block_comment st = block_comment_loop (lx_offset st) 1 (advance 2 st)"

section \<open>Identifiers and numbers\<close>

text \<open>The loop that \<open>lex_identifier\<close> and \<open>lex_escaped_identifier\<close> share.\<close>

function identifier_loop :: "string \<Rightarrow> lexer \<Rightarrow> string \<times> lexer" where
  "identifier_loop spelling st = (case current_char st of
       None \<Rightarrow> (spelling, st)
     | Some c \<Rightarrow>
         if char_is ident_byte c then identifier_loop (spelling @ c) (advance_char st)
         else if c = [backslash_char] \<and> \<not> has_line_continuation st
         then (case current_char (advance_char st) of
             None \<Rightarrow> (spelling, advance_char st)
           | Some escaped \<Rightarrow>
               identifier_loop (spelling @ escaped) (advance_char (advance_char st)))
         else (spelling, st))"
  by pat_completeness auto
termination
  by (relation "measure (\<lambda>(s, st). ahead st)")
    (auto simp: ahead_advance_char intro: less_trans [OF ahead_advance_char ahead_advance_char])

declare identifier_loop.simps [simp del]

definition lex_identifier :: "lexer \<Rightarrow> lexed" where
  "lex_identifier st = (case identifier_loop '''' st of (spelling, st') \<Rightarrow>
     push_range (lx_offset st) (Identifier spelling) st')"

definition lex_escaped_identifier :: "lexer \<Rightarrow> lexed" where
  "lex_escaped_identifier st = (let st1 = advance_char st in
     case current_char st1 of
       None \<Rightarrow> lex_fail ''escaped identifier is missing a character'' (lx_offset st) (lx_offset st1)
     | Some escaped \<Rightarrow> (case identifier_loop escaped (advance_char st1) of (spelling, st') \<Rightarrow>
         push_range (lx_offset st) (Identifier spelling) st'))"

definition push_number :: "nat \<Rightarrow> lexer \<Rightarrow> lexed" where
  "push_number start st = push_slice start start (lx_offset st) Number st"

definition digit_or_underscore :: "char \<Rightarrow> bool" where
  "digit_or_underscore c \<longleftrightarrow> is_digit c \<or> c = CHR ''_''"

definition at_infinity :: "lexer \<Rightarrow> bool" where
  "at_infinity st \<longleftrightarrow> starts_with (remaining st) ''#INF'' \<or> starts_with (remaining st) ''#IND''"

definition lex_exponent :: "lexer \<Rightarrow> lexer" where
  "lex_exponent st = (if next_is (\<lambda>c. c = CHR ''e'' \<or> c = CHR ''E'') st
     then (let st1 = advance_char st;
               st2 = (if next_is (\<lambda>c. c = CHR ''+'' \<or> c = CHR ''-'') st1 then advance_char st1 else st1)
           in advance_while (char_is digit_or_underscore) st2)
     else st)"

definition lex_number :: "lexer \<Rightarrow> lexed" where
  "lex_number st = (let start = lx_offset st in
     if starts_with (remaining st) ''0x'' \<or> starts_with (remaining st) ''0X''
     then push_number start
       (advance_while (char_is (\<lambda>c. is_hexdigit c \<or> c = CHR ''_'')) (advance 2 st))
     else
       let st1 = advance_while (char_is digit_or_underscore) st in
       if at_infinity st1 then push_number start (advance 4 st1)
       else if next_is (\<lambda>c. c = CHR ''.'') st1
       then (let st2 = advance_char st1 in
         if at_infinity st2 then push_number start (advance 4 st2)
         else push_number start (lex_exponent (advance_while (char_is digit_or_underscore) st2)))
       else push_number start (lex_exponent st1))"

section \<open>Strings\<close>

text \<open>\<open>self.offset = self.source.len()\<close> before an unterminated literal is reported.\<close>

definition fail_at_end :: "string \<Rightarrow> nat \<Rightarrow> lexer \<Rightarrow> lex_failure + 'a" where
  "fail_at_end msg start st = lex_fail msg start (length (lx_source st))"

text \<open>
  \<open>lex_complex_raw_string\<close>: \<open>content_start\<close> lies after the delimiter's own line break and
  \<open>content_end\<close> before the line break that precedes the closing delimiter.
\<close>

definition trim_content_end :: "string \<Rightarrow> nat \<Rightarrow> nat" where
  "trim_content_end source e =
     (if ends_with (take e source) [cr_char, nl_char] then e - 2
      else if ends_with (take e source) [cr_char] \<or> ends_with (take e source) [nl_char] then e - 1
      else e)"

definition skip_one_newline :: "lexer \<Rightarrow> lexer" where
  "skip_one_newline st =
     (if starts_with (remaining st) [cr_char, nl_char] then advance 2 st
      else if next_is newline_byte st then advance_char st else st)"

definition lex_complex_raw_string :: "lexer \<Rightarrow> lexed" where
  "lex_complex_raw_string st = (let start = lx_offset st; st1 = advance 2 st in
     case find_sub '')'' (remaining st1) of
       None \<Rightarrow> fail_at_end ''unterminated raw string delimiter'' start st1
     | Some relative_close \<Rightarrow>
         let delimiter_end = lx_offset st1 + relative_close in
         (case slice (lx_source st1) (lx_offset st1) delimiter_end of
            None \<Rightarrow> Inl LexPanic
          | Some delimiter \<Rightarrow>
              if delimiter = []
              then lex_fail ''raw string delimiter cannot be empty'' start (delimiter_end + 1)
              else
                let st2 = skip_one_newline (st1\<lparr>lx_offset := delimiter_end + 1\<rparr>) in
                (case find_sub delimiter (remaining st2) of
                   None \<Rightarrow> fail_at_end ''unterminated complex raw string'' start st2
                 | Some relative_end \<Rightarrow>
                     push_slice start (lx_offset st2)
                       (trim_content_end (lx_source st2) (lx_offset st2 + relative_end)) RawString
                       (advance (relative_end + length delimiter) st2))))"

function scan_quoted_body :: "string \<Rightarrow> bool \<Rightarrow> nat \<Rightarrow> nat \<Rightarrow> lexer \<Rightarrow> lexed" where
  "scan_quoted_body quote allows_interpolation opened depth st = (case current_char st of
       None \<Rightarrow> lex_fail ''unterminated quoted literal'' opened (lx_offset st)
     | Some current \<Rightarrow>
         if current = [backslash_char]
         then scan_quoted_body quote allows_interpolation opened depth (advance_char (advance_char st))
         else if current = quote \<and> depth = 0 then Inr (advance_char st)
         else if allows_interpolation \<and> current = ''[''
         then scan_quoted_body quote allows_interpolation opened (Suc depth) (advance_char st)
         else if 0 < depth \<and> current = '']''
         then scan_quoted_body quote allows_interpolation opened (depth - 1) (advance_char st)
         else if 0 < depth \<and> current = [quote_char]
         then res_bind (scan_quoted_body [quote_char] True (lx_offset st) 0 (advance_char st))
           (scan_quoted_body quote allows_interpolation opened depth)
         else scan_quoted_body quote allows_interpolation opened depth (advance_char st))"
  by pat_completeness auto

lemma ahead_escaped:
  "current_char st = Some c \<Longrightarrow> ahead (advance_char (advance_char st)) < ahead st"
  using ahead_advance_char [of st c] advance_char_mono [of "advance_char st"]
  by (auto simp: ahead_def)

text \<open>Scanning moves over whole characters, and the last one is the closing quote.\<close>

lemma scan_quoted_body_advances:
  "scan_quoted_body_dom (quote, a, opened, depth, st) \<Longrightarrow>
   scan_quoted_body quote a opened depth st = Inr st' \<Longrightarrow>
   \<exists>st1. advances st st1 \<and> current_char st1 = Some quote \<and> st' = advance_char st1"
proof (induction quote a opened depth st arbitrary: st' rule: scan_quoted_body.pinduct)
  case (1 quote a opened depth st)
  note body = "1.prems" [unfolded scan_quoted_body.psimps [OF "1.hyps"]]
  show ?case
  proof (cases "current_char st")
    case None
    with body show ?thesis by (simp add: lex_fail_def split: option.splits)
  next
    case (Some c)
    have next1: "advances st (advance_char st)" "advances st (advance_char (advance_char st))"
      by (intro advances.intros)+
    consider (escape) "c = [backslash_char]"
      | (close) "c \<noteq> [backslash_char]" "c = quote \<and> depth = 0"
      | (bracket) "c \<noteq> [backslash_char]" "\<not> (c = quote \<and> depth = 0)" "a \<and> c = ''[''"
      | (unbracket) "c \<noteq> [backslash_char]" "\<not> (c = quote \<and> depth = 0)" "\<not> (a \<and> c = ''['')"
          "0 < depth \<and> c = '']''"
      | (nested) "c \<noteq> [backslash_char]" "\<not> (c = quote \<and> depth = 0)" "\<not> (a \<and> c = ''['')"
          "\<not> (0 < depth \<and> c = '']'')" "0 < depth \<and> c = [quote_char]"
      | (other) "c \<noteq> [backslash_char]" "\<not> (c = quote \<and> depth = 0)" "\<not> (a \<and> c = ''['')"
          "\<not> (0 < depth \<and> c = '']'')" "\<not> (0 < depth \<and> c = [quote_char])"
      by blast
    then show ?thesis
    proof cases
      case escape
      show ?thesis
        by (rule advances_from [OF "1.IH"(1) [OF Some escape] next1(2)])
          (use body Some escape in simp)
    next
      case close
      with body Some show ?thesis by (auto intro: advances.intros)
    next
      case bracket
      show ?thesis
        by (rule advances_from [OF "1.IH"(2) [OF Some bracket] next1(1)])
          (use body Some bracket in auto)
    next
      case unbracket
      show ?thesis
        by (rule advances_from [OF "1.IH"(3) [OF Some unbracket] next1(1)])
          (use body Some unbracket in simp)
    next
      case nested
      with body Some obtain st1
        where st1: "scan_quoted_body [quote_char] True (lx_offset st) 0 (advance_char st) = Inr st1"
          "scan_quoted_body quote a opened depth st1 = Inr st'"
        by (auto simp: res_bind_Inr_iff)
      have "advances (advance_char st) st1"
        using "1.IH"(4) [OF Some nested st1(1)] by (auto intro: advances.intros)
      then have "advances st st1" by (rule advances_trans) (rule next1(1))
      with "1.IH"(5) [OF Some nested st1(1) st1(2)] show ?thesis by (rule advances_from)
    next
      case other
      show ?thesis
        by (rule advances_from [OF "1.IH"(6) [OF Some other] next1(1)])
          (use body Some other in simp)
    qed
  qed
qed

lemma scan_quoted_body_ahead:
  "scan_quoted_body_dom (quote, a, opened, depth, st) \<Longrightarrow>
   scan_quoted_body quote a opened depth st = Inr st' \<Longrightarrow> ahead st' \<le> ahead st"
  using scan_quoted_body_advances [of quote a opened depth st st']
  by (auto dest!: advances_ahead intro: le_trans [OF advance_char_ahead])

lemma scan_quoted_body_total: "All scan_quoted_body_dom"
  by (relation "measure (\<lambda>(q, a, opened, d, st). ahead st)")
    (auto simp: ahead_advance_char ahead_escaped dest!: scan_quoted_body_ahead
      intro: le_less_trans [OF _ ahead_advance_char])

termination scan_quoted_body
  by (rule scan_quoted_body_total)

declare scan_quoted_body.simps [simp del]

definition lex_quoted :: "char \<Rightarrow> bool \<Rightarrow> lexer \<Rightarrow> lexed" where
  "lex_quoted quote resource st = (let start = lx_offset st; st1 = advance_char st in
     res_bind (scan_quoted_body [quote] (quote = quote_char) start 0 st1) (\<lambda>st2.
       push_slice start (lx_offset st1) (lx_offset st2 - 1)
         (if resource then Resource else StringLit) st2))"

definition lex_braced_string :: "bool \<Rightarrow> lexer \<Rightarrow> lexed" where
  "lex_braced_string raw st =
     (let start = lx_offset st; st1 = advance (if raw then 2 else 1) st in
      if current_char st1 \<noteq> Some [quote_char]
      then lex_fail ''braced string must begin with a quote'' start (lx_offset st1)
      else let st2 = advance_char st1 in
        (case find_sub [quote_char, CHR ''}''] (remaining st2) of
           None \<Rightarrow> fail_at_end ''unterminated braced string'' start st2
         | Some relative_end \<Rightarrow>
             push_slice start (lx_offset st2) (lx_offset st2 + relative_end)
               (if raw then RawString else TextBlock) (advance (relative_end + 2) st2)))"

text \<open>A raw literal that ends at the next \<open>close\<close>, after a two-byte opening.\<close>

definition lex_raw_until :: "char \<Rightarrow> string \<Rightarrow> lexer \<Rightarrow> lexed" where
  "lex_raw_until close msg st = (let start = lx_offset st; st1 = advance 2 st in
     case find_sub [close] (remaining st1) of
       None \<Rightarrow> fail_at_end msg start st1
     | Some relative_end \<Rightarrow>
         push_slice start (lx_offset st1) (lx_offset st1 + relative_end) RawString
           (advance (relative_end + 1) st1))"

definition lex_at_raw_string :: "lexer \<Rightarrow> lexed" where
  "lex_at_raw_string = lex_raw_until (CHR ''@'') ''unterminated at-delimited raw string''"

definition lex_at_quote_raw_string :: "char \<Rightarrow> lexer \<Rightarrow> lexed" where
  "lex_at_quote_raw_string quote = lex_raw_until quote ''unterminated at-quoted raw string''"

section \<open>Operators and the main loop\<close>

definition OPERATORS :: "string list" where
  "OPERATORS = [
    ''<=>'', ''<<='', ''>>='', ''&&='', ''||='', ''%%='', ''**='', ''...'', ''::'', ''?.'', ''?:'', ''?['', ''=='',
    ''!='', ''<>'', ''<='', ''>='', ''~!'', ''<<'', ''>>'', ''&&'', ''||'', ''++'', ''--'', '':='', ''+='', ''-='',
    ''*='', ''/='', ''%='', ''&='', ''|='', ''^='', ''~='', ''%%'', ''**'', ''..'', ''/'', ''.'', '':'', ''?'', ''='',
    ''+'', ''-'', ''*'', ''%'', ''<'', ''>'', ''!'', ''~'', ''&'', ''|'', ''^'', ''#'', ''@'']"

definition lex_operator :: "lexer \<Rightarrow> lexed" where
  "lex_operator st = (case find (starts_with (remaining st)) OPERATORS of
       None \<Rightarrow> lex_fail ''unrecognized source character'' (lx_offset st) (lx_offset (advance_char st))
     | Some operator \<Rightarrow>
         push_range (lx_offset st) (Operator operator) (advance (length operator) st))"

definition lex_token :: "string \<Rightarrow> lexer \<Rightarrow> lexed" where
  "lex_token current st = (let next_are = starts_with (remaining st) in
     if char_is newline_byte current then lex_newline st
     else if current = [backslash_char] \<and> has_line_continuation st then lex_line_continuation st
     else if current = '' '' \<or> current = [tab_char] then Inr (advance_char st)
     else if current = ''/'' \<and> next_are ''//'' then Inr (skip_line_comment st)
     else if current = ''/'' \<and> next_are ''/*'' then skip_block_comment st
     else if char_is (\<lambda>c. is_alpha c \<or> c = CHR ''_'') current then lex_identifier st
     else if current = [backslash_char] then lex_escaped_identifier st
     else if char_is is_digit current then lex_number st
     else if current = ''@'' \<and> next_are ''@@'' then lex_at_raw_string st
     else if current = ''@'' \<and> next_are ''@('' then lex_complex_raw_string st
     else if current = ''@'' \<and> next_are [CHR ''@'', CHR ''{''] then lex_braced_string True st
     else if current = ''@'' \<and> next_are [CHR ''@'', quote_char]
     then lex_at_quote_raw_string quote_char st
     else if current = ''@'' \<and> next_are [CHR ''@'', apostrophe_char]
     then lex_at_quote_raw_string apostrophe_char st
     else if current = [quote_char] then lex_quoted quote_char False st
     else if current = [apostrophe_char] then lex_quoted apostrophe_char True st
     else if current = ''{'' \<and> next_are [CHR ''{'', quote_char] then lex_braced_string False st
     else if char_is (\<lambda>c. c \<in> set ''()[]{},;'') current then push_char (Punctuation (hd current)) st
     else lex_operator st)"

definition lex_line_prefix :: "lexer \<Rightarrow> lexed" where
  "lex_line_prefix st = (if lx_at_line_start st then lex_indentation st else Inr st)"

text \<open>One round of \<open>run\<close> always moves on, so the loop ends.\<close>

lemma push_range_same:
  "push_range start kind st = Inr st' \<Longrightarrow> lx_source st' = lx_source st \<and> lx_offset st' = lx_offset st"
  by (auto simp: push_range_Inr)

lemma push_slice_same:
  "push_slice start a b mk st = Inr st' \<Longrightarrow>
   lx_source st' = lx_source st \<and> lx_offset st' = lx_offset st"
  by (auto simp: push_slice_def dest: push_range_same split: option.splits)

lemma ahead_advance: "ahead (advance n st) \<le> ahead st"
  by (simp add: ahead_def)

lemma ahead_advance_pos: "lx_offset st < length (lx_source st) \<Longrightarrow> 0 < n \<Longrightarrow> ahead (advance n st) < ahead st"
  by (auto simp: ahead_def)

lemma identifier_loop_advances: "advances st (snd (identifier_loop spelling st))"
proof (induction spelling st rule: identifier_loop.induct)
  case (1 spelling st)
  show ?case
  proof (cases "current_char st")
    case None
    then show ?thesis by (subst identifier_loop.simps) (simp add: advances_refl)
  next
    case (Some c)
    consider "char_is ident_byte c"
      | "\<not> char_is ident_byte c" "c = [backslash_char] \<and> \<not> has_line_continuation st"
      | "\<not> char_is ident_byte c" "\<not> (c = [backslash_char] \<and> \<not> has_line_continuation st)"
      by blast
    then show ?thesis
    proof cases
      case 1
      with "1.IH"(1) [OF Some 1] Some show ?thesis
        by (subst identifier_loop.simps) (simp add: advances_first)
    next
      case 2
      show ?thesis
      proof (cases "current_char (advance_char st)")
        case None
        with 2 Some show ?thesis
          by (subst identifier_loop.simps) (simp add: advances.intros)
      next
        case (Some e)
        note IH = "1.IH"(2) [OF \<open>current_char st = Some c\<close> 2 Some]
        have "advances st (advance_char (advance_char st))" by (intro advances.intros)
        from advances_trans [OF IH this] 2 Some \<open>current_char st = Some c\<close> show ?thesis
          by (subst identifier_loop.simps) simp
      qed
    next
      case 3
      with Some show ?thesis by (subst identifier_loop.simps) (auto simp: advances_refl)
    qed
  qed
qed

lemma indentation_loop_advances: "advances st (snd (snd (indentation_loop tabs spaces st)))"
proof (induction tabs spaces st rule: indentation_loop.induct)
  case (1 tabs spaces st)
  show ?case
    by (subst indentation_loop.simps)
      (use "1.IH" in \<open>auto intro: advances_refl advances_first split: option.splits\<close>)
qed

lemma push_comment_line_start_same:
  "push_comment_line_start st = Inr st' \<Longrightarrow>
   lx_source st' = lx_source st \<and> lx_offset st' = lx_offset st"
  by (auto simp: push_comment_line_start_def res_bind_Inr_iff Let_def
      dest: push_range_same split: if_splits prod.splits)

lemma block_comment_loop_same:
  "block_comment_loop start depth st = Inr st' \<Longrightarrow>
   lx_source st' = lx_source st \<and> lx_offset st \<le> lx_offset st'"
proof (induction start depth st rule: block_comment_loop.induct)
  case (1 start depth st)
  note body = "1.prems" [unfolded block_comment_loop.simps [of start depth st]]
  consider "length (lx_source st) \<le> lx_offset st"
    | (line) "\<not> length (lx_source st) \<le> lx_offset st" "starts_with (remaining st) ''//''"
    | (deeper) "\<not> length (lx_source st) \<le> lx_offset st" "\<not> starts_with (remaining st) ''//''"
        "starts_with (remaining st) ''/*''"
    | (close) "\<not> length (lx_source st) \<le> lx_offset st" "\<not> starts_with (remaining st) ''//''"
        "\<not> starts_with (remaining st) ''/*''" "starts_with (remaining st) ''*/''"
    | (newline) "\<not> length (lx_source st) \<le> lx_offset st" "\<not> starts_with (remaining st) ''//''"
        "\<not> starts_with (remaining st) ''/*''" "\<not> starts_with (remaining st) ''*/''"
        "next_is newline_byte st"
    | (other) "\<not> length (lx_source st) \<le> lx_offset st" "\<not> starts_with (remaining st) ''//''"
        "\<not> starts_with (remaining st) ''/*''" "\<not> starts_with (remaining st) ''*/''"
        "\<not> next_is newline_byte st"
    by blast
  then show ?case
  proof cases
    case 1
    with body show ?thesis by (simp add: lex_fail_def split: option.splits)
  next
    case line
    with body "1.IH"(1) [OF line]
      advance_while_same [where st = "advance 2 st" and p = "\<lambda>c. \<not> char_is newline_byte c"]
    show ?thesis by (simp add: skip_line_comment_def)
  next
    case deeper
    with body "1.IH"(2) [OF deeper] show ?thesis by simp
  next
    case close
    then show ?thesis
      using body "1.IH"(3) [OF close] push_comment_line_start_same [of "advance 2 st" st']
      by (auto split: if_splits)
  next
    case newline
    with body obtain st1 where st1: "lex_newline st = Inr st1" "block_comment_loop start depth st1 = Inr st'"
      by (auto simp: res_bind_Inr_iff)
    from st1(1) have "lx_source st1 = lx_source st \<and> lx_offset st \<le> lx_offset st1"
      using advance_char_mono [of st]
      by (auto simp: lex_newline_def res_bind_Inr_iff push_range_Inr split: if_splits)
    with "1.IH"(4) [OF newline st1] show ?thesis by simp
  next
    case other
    with body "1.IH"(5) [OF other] advance_char_mono [of st] show ?thesis by simp
  qed
qed

definition forward :: "lexer \<Rightarrow> lexer \<Rightarrow> bool" where
  "forward st st' \<longleftrightarrow> lx_source st' = lx_source st \<and> lx_offset st < lx_offset st'"

lemma forward_ahead:
  "forward st st' \<Longrightarrow> lx_offset st < length (lx_source st) \<Longrightarrow> ahead st' < ahead st"
  by (auto simp: forward_def ahead_def)

lemma forward_advance_char: "current_char st = Some c \<Longrightarrow> forward st (advance_char st)"
  using current_char_moves [of st c] by (simp add: forward_def)

lemma forward_advances: "forward st st1 \<Longrightarrow> advances st1 st2 \<Longrightarrow> forward st st2"
  using advances_same [of st1 st2] by (auto simp: forward_def)

lemma forward_push:
  "forward st st1 \<Longrightarrow> push_range start kind st1 = Inr st' \<Longrightarrow> forward st st'"
  "forward st st1 \<Longrightarrow> push_slice start a b mk st1 = Inr st' \<Longrightarrow> forward st st'"
  by (auto simp: forward_def dest: push_range_same push_slice_same)

lemma forward_advance: "0 < n \<Longrightarrow> forward st (advance n st)"
  by (simp add: forward_def)

lemma forward_trans_advance: "forward st st1 \<Longrightarrow> forward st (advance n st1)"
  by (auto simp: forward_def)

lemma forward_advance_while: "forward st st1 \<Longrightarrow> forward st (advance_while p st1)"
  using forward_advances advance_while_advances by blast

lemma forward_advance_char_step: "forward st st1 \<Longrightarrow> forward st (advance_char st1)"
  using forward_advances advances_step [OF advances_refl] by blast

lemmas forward_intros = forward_advance forward_trans_advance forward_advance_while
  forward_advance_char_step forward_advance_char

lemma not_lex_fail [simp]: "lex_fail msg s e \<noteq> Inr x" "fail_at_end msg s st \<noteq> Inr x"
  by (auto simp: lex_fail_def fail_at_end_def split: option.splits)

lemma forward_newline:
  assumes "current_char st = Some c" and "lex_newline st = Inr st'"
  shows "forward st st'"
  using assms(2) current_char_moves [OF assms(1)]
  by (auto simp: lex_newline_def res_bind_Inr_iff push_range_Inr forward_def split: if_splits)

lemma forward_line_continuation: "lex_line_continuation st = Inr st' \<Longrightarrow> forward st st'"
  by (auto simp: lex_line_continuation_def res_bind_Inr_iff push_range_Inr forward_def split: if_splits)

lemma forward_first_step:
  assumes "current_char st = Some c" and "p c"
  shows "forward st (advance_while p st)"
proof -
  have "advance_while p st = advance_while p (advance_char st)"
    using assms by (subst advance_while.simps) simp
  then show ?thesis using forward_advance_while [OF forward_advance_char [OF assms(1)]] by simp
qed

lemma forward_block_comment: "skip_block_comment st = Inr st' \<Longrightarrow> forward st st'"
  using block_comment_loop_same [of "lx_offset st" 1 "advance 2 st" st']
  by (simp add: skip_block_comment_def forward_def)

lemma forward_identifier:
  assumes c: "current_char st = Some c" "char_is ident_byte c" and st': "lex_identifier st = Inr st'"
  shows "forward st st'"
proof -
  have "identifier_loop '''' st = identifier_loop c (advance_char st)"
    using c by (subst identifier_loop.simps) simp
  then have "forward st (snd (identifier_loop '''' st))"
    using forward_advances [OF forward_advance_char [OF c(1)] identifier_loop_advances] by simp
  with st' show ?thesis
    by (auto simp: lex_identifier_def intro: forward_push(1) split: prod.splits)
qed

lemma forward_escaped_identifier:
  assumes c: "current_char st = Some c" and st': "lex_escaped_identifier st = Inr st'"
  shows "forward st st'"
proof -
  obtain escaped where e: "current_char (advance_char st) = Some escaped"
    using st' by (auto simp: lex_escaped_identifier_def Let_def split: option.splits)
  obtain spelling st2 where
    l: "identifier_loop escaped (advance_char (advance_char st)) = (spelling, st2)"
    by fastforce
  have "forward st (snd (identifier_loop escaped (advance_char (advance_char st))))"
    by (rule forward_advances [OF _ identifier_loop_advances])
      (intro forward_advance_char_step forward_advance_char [OF c])
  with st' e l show ?thesis
    by (auto simp: lex_escaped_identifier_def Let_def intro: forward_push(1))
qed

lemma forward_exponent: "forward st st1 \<Longrightarrow> forward st (lex_exponent st1)"
  by (simp add: lex_exponent_def Let_def forward_intros)

lemma forward_number:
  assumes c: "current_char st = Some c" "char_is is_digit c" and st': "lex_number st = Inr st'"
  shows "forward st st'"
proof -
  have "char_is digit_or_underscore c"
    using c(2) by (auto simp: char_is_def digit_or_underscore_def split: list.splits)
  then have "forward st (advance_while (char_is digit_or_underscore) st)"
    by (rule forward_first_step [OF c(1)])
  moreover have "forward st (advance_while p (advance 2 st))" for p
    by (intro forward_advance_while forward_advance) simp
  ultimately show ?thesis
    using st' by (auto simp: lex_number_def Let_def push_number_def
        elim!: forward_push(2) [rotated] intro: forward_exponent forward_intros split: if_splits)
qed

lemma skip_one_newline_same:
  "lx_offset st \<le> lx_offset (skip_one_newline st) \<and> lx_source (skip_one_newline st) = lx_source st"
  using advance_char_mono [of st] by (simp add: skip_one_newline_def)

lemma forward_complex_raw_string:
  assumes "lex_complex_raw_string st = Inr st'"
  shows "forward st st'"
proof -
  define st1 where "st1 = advance 2 st"
  obtain e where "forward st (skip_one_newline (st1\<lparr>lx_offset := lx_offset st1 + e + 1\<rparr>))"
      and st': "\<exists>start a b n. push_slice start a b RawString
        (advance n (skip_one_newline (st1\<lparr>lx_offset := lx_offset st1 + e + 1\<rparr>))) = Inr st'"
  proof -
    obtain e where e: "find_sub '')'' (remaining st1) = Some e"
      using assms by (auto simp: lex_complex_raw_string_def Let_def st1_def split: option.splits)
    have "forward st (skip_one_newline (st1\<lparr>lx_offset := lx_offset st1 + e + 1\<rparr>))"
      using skip_one_newline_same [of "st1\<lparr>lx_offset := lx_offset st1 + e + 1\<rparr>"]
      by (simp add: forward_def st1_def)
    then show thesis
      using that [of e] assms e
      by (auto simp: lex_complex_raw_string_def Let_def st1_def split: option.splits if_splits)
  qed
  then show ?thesis using forward_push(2) forward_trans_advance by blast
qed

lemma forward_raw_until: "lex_raw_until close msg st = Inr st' \<Longrightarrow> forward st st'"
  using forward_trans_advance [OF forward_advance [of 2 st]]
  by (auto simp: lex_raw_until_def Let_def elim!: forward_push(2) [rotated] split: option.splits)

lemma forward_braced_string: "lex_braced_string raw st = Inr st' \<Longrightarrow> forward st st'"
proof -
  have "forward st (advance n (advance_char (advance (if raw then 2 else 1) st)))" for n
    by (intro forward_trans_advance forward_advance_char_step forward_advance) simp
  then show "lex_braced_string raw st = Inr st' \<Longrightarrow> forward st st'"
    by (auto simp: lex_braced_string_def Let_def elim!: forward_push(2) [rotated]
        split: option.splits if_splits)
qed

lemma scan_quoted_body_end:
  assumes "scan_quoted_body quote a opened depth st = Inr st'"
  shows "\<exists>st1. advances st st1 \<and> current_char st1 = Some quote \<and> st' = advance_char st1"
  by (rule scan_quoted_body_advances [OF scan_quoted_body_total [rule_format] assms])

lemma forward_quoted:
  assumes c: "current_char st = Some c" and st': "lex_quoted quote resource st = Inr st'"
  shows "forward st st'"
proof -
  obtain st2 where st2: "scan_quoted_body [quote] (quote = quote_char) (lx_offset st) 0 (advance_char st) = Inr st2"
      "push_slice (lx_offset st) (lx_offset (advance_char st)) (lx_offset st2 - 1)
         (if resource then Resource else StringLit) st2 = Inr st'"
    using st' by (auto simp: lex_quoted_def Let_def res_bind_Inr_iff)
  obtain st1 where "advances (advance_char st) st1" "st2 = advance_char st1"
    using scan_quoted_body_end [OF st2(1)] by blast
  then have "advances (advance_char st) st2" by (simp add: advances_step)
  then show ?thesis
    using forward_advances [OF forward_advance_char [OF c]] st2(2) forward_push(2) by blast
qed

lemma forward_operator: "lex_operator st = Inr st' \<Longrightarrow> forward st st'"
proof -
  have "0 < length op" if "find p OPERATORS = Some op" for p op
  proof -
    have "list_all (\<lambda>s. s \<noteq> []) OPERATORS" by (simp add: OPERATORS_def)
    moreover have "op \<in> set OPERATORS" using that by (auto simp: find_Some_iff)
    ultimately show ?thesis by (auto simp: list_all_iff)
  qed
  then show "lex_operator st = Inr st' \<Longrightarrow> forward st st'"
    by (auto simp: lex_operator_def elim!: forward_push(1) [rotated] intro: forward_advance
        split: option.splits)
qed

lemma ident_start_byte: "char_is (\<lambda>c. is_alpha c \<or> c = CHR ''_'') c \<Longrightarrow> char_is ident_byte c"
  by (auto simp: char_is_def ident_byte_def is_alnum_def split: list.splits)

lemma forward_token:
  assumes c: "current_char st = Some c" and st': "lex_token c st = Inr st'"
  shows "forward st st'"
proof -
  have comment: "forward st (skip_line_comment st)" if "c = ''/''"
    unfolding skip_line_comment_def
    by (rule forward_first_step [OF c]) (simp add: that char_is_def newline_byte_def)
  have char: "push_char k st = Inr st' \<Longrightarrow> forward st st'" for k
    unfolding push_char_def using forward_push(1) [OF forward_advance_char [OF c]] .
  show ?thesis
    using st' comment forward_advance_char [OF c] unfolding lex_token_def Let_def
    by (auto split: if_splits intro: char forward_newline [OF c] forward_line_continuation
        forward_block_comment forward_identifier [OF c ident_start_byte]
        forward_escaped_identifier [OF c] forward_number [OF c] forward_complex_raw_string
        forward_braced_string forward_quoted [OF c] forward_operator
        forward_raw_until [folded lex_at_raw_string_def lex_at_quote_raw_string_def]
        simp: lex_at_raw_string_def lex_at_quote_raw_string_def)
qed

lemma line_prefix_same:
  "lex_line_prefix st = Inr st' \<Longrightarrow> lx_source st' = lx_source st \<and> lx_offset st \<le> lx_offset st'"
  using advances_same [OF indentation_loop_advances [of st 0 0]]
  by (auto simp: lex_line_prefix_def lex_indentation_def res_bind_Inr_iff push_range_Inr
      split: if_splits prod.splits)

function lex_run :: "lexer \<Rightarrow> lex_failure + spanned_token list" where
  "lex_run st =
     (if lx_offset st < length (lx_source st)
      then res_bind (lex_line_prefix st) (\<lambda>st1. case current_char st1 of
          None \<Rightarrow> Inr (lx_tokens st1)
        | Some current \<Rightarrow> res_bind (lex_token current st1) lex_run)
      else Inr (lx_tokens st))"
  by pat_completeness auto
termination
proof (relation "measure ahead")
  show "(st2, st) \<in> measure ahead"
    if "lx_offset st < length (lx_source st)" "lex_line_prefix st = Inr st1"
      "current_char st1 = Some c" "lex_token c st1 = Inr st2" for st st1 c st2
    using forward_ahead [OF forward_token [OF that(3,4)]] current_char_moves [OF that(3)]
      line_prefix_same [OF that(2)] by (auto simp: ahead_def)
qed simp

declare lex_run.simps [simp del]

definition lexer_new :: "string \<Rightarrow> lexer" where
  "lexer_new source =
     \<lparr>lx_source = source, lx_offset = 0, lx_at_line_start = True, lx_tokens = []\<rparr>"

definition lex :: "string \<Rightarrow> lex_failure + spanned_token list" where
  "lex source = lex_run (lexer_new source)"

end
