(* ===== verification/LexerLaws.thy ===== *)
theory LexerLaws
  imports Lexer
begin

text \<open>
  The invariant of the lexer and what it gives of whole runs: every slice the lexer takes is
  legal but one, tokens are ordered and disjoint, and each keeps the spelling of its source.
\<close>

section \<open>Consumed text\<close>

definition text_ok :: "lexer \<Rightarrow> bool" where
  "text_ok st \<longleftrightarrow> utf8_valid (lx_source st) \<and> lx_offset st \<le> length (lx_source st)
     \<and> utf8_valid (remaining st)"

definition consumes :: "lexer \<Rightarrow> string \<Rightarrow> lexer \<Rightarrow> bool" where
  "consumes st piece st' \<longleftrightarrow> lx_source st' = lx_source st
     \<and> lx_offset st' = lx_offset st + length piece \<and> remaining st = piece @ remaining st'
     \<and> utf8_valid piece"

lemma consumes_refl: "consumes st [] st"
  by (simp add: consumes_def)

lemma consumes_trans: "consumes a s b \<Longrightarrow> consumes b t c \<Longrightarrow> consumes a (s @ t) c"
  by (auto simp: consumes_def utf8_valid_append)

lemma consumes_text_ok: "text_ok st \<Longrightarrow> consumes st piece st' \<Longrightarrow> text_ok st'"
  by (auto simp: text_ok_def consumes_def remaining_def utf8_valid_append_right)
    (metis append_Nil2 drop_all length_0_conv length_append length_drop nat_le_linear
      le_add_diff_inverse2 add.commute diff_diff_add diff_is_0_eq' le_add1 append_is_Nil_conv)

lemma consumes_slice:
  "consumes st piece st' \<Longrightarrow>
   take (lx_offset st' - lx_offset st) (drop (lx_offset st) (lx_source st)) = piece"
  by (simp add: consumes_def remaining_def)

lemma consumes_advance:
  assumes "remaining st = p @ r" and "utf8_valid p"
  shows "consumes st p (advance (length p) st)"
proof -
  have "drop (length p + lx_offset st) (lx_source st) = r"
    using assms(1) unfolding remaining_def by (metis append_eq_conv_conj drop_drop)
  then show ?thesis using assms by (simp add: consumes_def remaining_def add.commute)
qed

lemma consumes_starts_with:
  "starts_with (remaining st) p \<Longrightarrow> utf8_valid p \<Longrightarrow> length p = n \<Longrightarrow> consumes st p (advance n st)"
  using consumes_advance by (auto simp: starts_with_iff)

lemma current_char_valid:
  assumes "text_ok st" and "current_char st = Some c"
  shows "utf8_valid c" "c \<noteq> []" "\<exists>r. remaining st = c @ r"
proof -
  have r: "remaining st \<noteq> []" "c = take (utf8_width (hd (remaining st))) (remaining st)"
    using assms(2) by (auto simp: current_char_def split: if_splits)
  show "utf8_valid c" using utf8_valid_first(3) [of "remaining st"] r assms(1) by (simp add: text_ok_def)
  show "c \<noteq> []" using r utf8_width_pos [of "hd (remaining st)"] by simp
  show "\<exists>r. remaining st = c @ r" using r(2) by (metis append_take_drop_id)
qed

lemma consumes_advance_char:
  assumes "text_ok st" and "current_char st = Some c"
  shows "consumes st c (advance_char st)"
proof -
  obtain r where "remaining st = c @ r" using current_char_valid(3) [OF assms] by blast
  from consumes_advance [OF this current_char_valid(1) [OF assms]] assms(2)
  show ?thesis by (simp add: advance_char_def)
qed

lemma advances_consumes: "advances st st' \<Longrightarrow> text_ok st \<Longrightarrow> \<exists>piece. consumes st piece st'"
proof (induction rule: advances.induct)
  case (advances_refl st)
  then show ?case using consumes_refl by blast
next
  case (advances_step st st')
  then obtain piece where piece: "consumes st piece st'" by blast
  show ?case
  proof (cases "current_char st'")
    case None
    then have "advance_char st' = st'" by (simp add: advance_char_def)
    with piece show ?thesis by auto
  next
    case (Some c)
    from consumes_trans [OF piece consumes_advance_char [OF consumes_text_ok [OF advances_step.prems piece] Some]]
    show ?thesis by blast
  qed
qed

lemma text_ok_boundary:
  assumes "text_ok st"
  shows "char_boundary (lx_source st) (lx_offset st)"
proof -
  have "\<not> utf8_cont (lx_source st ! lx_offset st)" if "lx_offset st < length (lx_source st)"
    using utf8_valid_first(4) [of "remaining st"] assms that
    by (simp add: text_ok_def remaining_def hd_drop_conv_nth)
  with assms show ?thesis by (simp add: char_boundary_def text_ok_def)
qed

lemma slice_consumed:
  assumes "text_ok st" and "consumes st piece st'"
  shows "slice (lx_source st) (lx_offset st) (lx_offset st') = Some piece"
  using text_ok_boundary [OF assms(1)] text_ok_boundary [OF consumes_text_ok [OF assms]]
    consumes_slice [OF assms(2)] consumes_text_ok [OF assms] assms(2)
  by (auto simp: slice_def consumes_def text_ok_def)

section \<open>The last line break\<close>

lemma rfind_newline_append:
  "rfind_newline (xs @ ys) = (case rfind_newline ys of
     Some i \<Rightarrow> Some (length xs + i) | None \<Rightarrow> rfind_newline xs)"
  by (induction xs) (auto split: option.splits)

lemma rfind_newline_bound: "rfind_newline s = Some i \<Longrightarrow> i < length s"
  by (induction s arbitrary: i) (auto split: option.splits if_splits)

lemma line_begin_le: "line_begin s o1 \<le> o1"
  using rfind_newline_bound [of "take o1 s"]
  by (auto simp: line_begin_def split: option.splits)

lemma line_begin_mono:
  assumes "o1 \<le> o2"
  shows "line_begin s o1 \<le> line_begin s o2"
proof -
  have t: "take o2 s = take o1 s @ take (o2 - o1) (drop o1 s)"
    using assms by (metis le_add_diff_inverse take_add)
  show ?thesis
    using rfind_newline_bound [of "take o1 s"]
    by (auto simp: line_begin_def t rfind_newline_append split: option.splits)
qed

text \<open>Directly after a line break, the line begins at the offset.\<close>

lemma line_begin_after:
  assumes "consumes st (piece @ [c]) st'" and "newline_byte c" and "lx_offset st \<le> length (lx_source st)"
  shows "line_begin (lx_source st') (lx_offset st') = lx_offset st'"
proof -
  have "take (lx_offset st') (lx_source st') = take (lx_offset st) (lx_source st) @ piece @ [c]"
    using consumes_slice [OF assms(1)] assms(1)
    by (simp add: consumes_def) (metis add_Suc_right add_diff_cancel_left' take_add)
  then show ?thesis
    using assms by (simp add: line_begin_def rfind_newline_append consumes_def)
qed

lemma ends_not_newline:
  assumes "newline_byte c = False" and "take n s = xs @ [c]"
  shows "line_begin s n < n"
  using assms rfind_newline_bound [of xs]
  by (auto simp: line_begin_def rfind_newline_append dest: arg_cong [of _ _ length] split: option.splits)

section \<open>The invariant\<close>

text \<open>
  What the text under a token's span is, by the token's kind. The name of an identifier is its text
  with each escaping backslash dropped.
\<close>

fun identifier_text :: "string \<Rightarrow> string" where
  "identifier_text [] = []"
| "identifier_text (c # r) =
     (if c = backslash_char then (case r of [] \<Rightarrow> [] | d # r \<Rightarrow> d # identifier_text r) else c # identifier_text r)"

text \<open>A content that ends at the first occurrence of what closes it.\<close>

definition up_to :: "string \<Rightarrow> string \<Rightarrow> bool" where
  "up_to close content \<longleftrightarrow> (\<forall>j < length content. \<not> starts_with (drop j (content @ close)) close)"

text \<open>The line break a text starts with, and a text without the line break it ends with.\<close>

definition opening_break :: "string \<Rightarrow> string" where
  "opening_break t = (if starts_with t [cr_char, nl_char] then [cr_char, nl_char]
     else if t \<noteq> [] \<and> newline_byte (hd t) then [hd t] else [])"

definition chop_break :: "string \<Rightarrow> string" where
  "chop_break t = (if ends_with t [cr_char, nl_char] then butlast (butlast t)
     else if ends_with t [cr_char] \<or> ends_with t [nl_char] then butlast t else t)"

text \<open>
  A raw string: \<open>@@\<close>, \<open>@"\<close> or \<open>@'\<close> up to the same character, a braced string after \<open>@\<close>, or a text up to
  a delimiter of its own, without the line breaks next to the delimiters.
\<close>

definition raw_spelled :: "string \<Rightarrow> string \<Rightarrow> bool" where
  "raw_spelled content s \<longleftrightarrow>
     (\<exists>q \<in> {CHR ''@'', quote_char, apostrophe_char}. s = [CHR ''@'', q] @ content @ [q] \<and> up_to [q] content)
     \<or> (s = [CHR ''@'', CHR ''{'', quote_char] @ content @ [quote_char, CHR ''}'']
        \<and> up_to [quote_char, CHR ''}''] content)
     \<or> (\<exists>d nl body. s = ''@('' @ d @ '')'' @ nl @ body @ d \<and> d \<noteq> [] \<and> up_to '')'' d \<and> up_to d body
        \<and> nl = opening_break (nl @ body @ d) \<and> content = chop_break body)"

definition spelled_as :: "token_kind \<Rightarrow> string \<Rightarrow> bool" where
  "spelled_as k s = (case k of
       LineStart tabs spaces \<Rightarrow> count_indent 0 0 s = (tabs, spaces)
     | Newline \<Rightarrow> s \<in> {[cr_char, nl_char], [cr_char], [nl_char]}
     | LineContinuation \<Rightarrow> s \<in> {[backslash_char, nl_char], [backslash_char, cr_char, nl_char]}
     | Identifier name \<Rightarrow> name \<noteq> [] \<and> name = identifier_text s
     | Number n \<Rightarrow> s = n
     | StringLit content \<Rightarrow> s = quote_char # content @ [quote_char]
     | Resource content \<Rightarrow> s = apostrophe_char # content @ [apostrophe_char]
     | RawString content \<Rightarrow> raw_spelled content s
     | TextBlock content \<Rightarrow> s = CHR ''{'' # quote_char # content @ [quote_char, CHR ''}'']
     | Punctuation c \<Rightarrow> s = [c]
     | Operator op \<Rightarrow> s = op)"

definition span_text :: "string \<Rightarrow> source_span \<Rightarrow> string" where
  "span_text source sp = take (span_end sp - span_start sp) (drop (span_start sp) source)"

definition token_ok :: "string \<Rightarrow> nat \<Rightarrow> spanned_token \<Rightarrow> bool" where
  "token_ok source offset t \<longleftrightarrow>
     span_start (tok_span t) \<le> span_end (tok_span t) \<and> span_end (tok_span t) \<le> offset
     \<and> char_boundary source (span_start (tok_span t)) \<and> char_boundary source (span_end (tok_span t))
     \<and> spelled_as (tok_kind t) (span_text source (tok_span t))"

definition in_order :: "spanned_token list \<Rightarrow> bool" where
  "in_order = sorted_wrt (\<lambda>a b. span_end (tok_span a) \<le> span_start (tok_span b))"

text \<open>
  While the line-start flag is set, every token ends on an earlier line: the block comment
  that reports the indentation of its last line relies on it.
\<close>

definition lexer_inv :: "lexer \<Rightarrow> bool" where
  "lexer_inv st \<longleftrightarrow> text_ok st \<and> in_order (lx_tokens st)
     \<and> (\<forall>t \<in> set (lx_tokens st). token_ok (lx_source st) (lx_offset st) t)
     \<and> (lx_at_line_start st \<longrightarrow>
          (\<forall>t \<in> set (lx_tokens st). span_end (tok_span t) \<le> line_begin (lx_source st) (lx_offset st)))"

text \<open>
  The one input on which a slice is illegal: a complex raw string whose closing delimiter
  stands directly after the line break that follows the opening one.
\<close>

definition degenerate_raw :: "string \<Rightarrow> bool" where
  "degenerate_raw source \<longleftrightarrow> (\<exists>before d nl after.
     source = before @ ''@('' @ d @ '')'' @ nl @ d @ after \<and> d \<noteq> []
     \<and> nl \<in> {[cr_char, nl_char], [cr_char], [nl_char]})"

definition outcome_ok :: "string \<Rightarrow> lexed \<Rightarrow> bool" where
  "outcome_ok source r = (case r of
       Inr st' \<Rightarrow> lexer_inv st'
     | Inl (LexError msg sp) \<Rightarrow> span_start sp \<le> span_end sp \<and> span_end sp \<le> length source
     | Inl LexPanic \<Rightarrow> degenerate_raw source)"

lemma inv_text: "lexer_inv st \<Longrightarrow> text_ok st"
  by (simp add: lexer_inv_def)

lemma outcome_fail:
  "s \<le> e \<Longrightarrow> e \<le> length source \<Longrightarrow> outcome_ok source (lex_fail msg s e)"
  by (simp add: outcome_ok_def lex_fail_def source_span_new_def)

lemma outcome_fail_at_end:
  "lexer_inv st \<Longrightarrow> lx_source st1 = lx_source st \<Longrightarrow>
   outcome_ok (lx_source st) (fail_at_end msg (lx_offset st) st1)"
  unfolding fail_at_end_def by (rule outcome_fail) (auto simp: lexer_inv_def text_ok_def)

lemma outcome_Inr: "lexer_inv st \<Longrightarrow> outcome_ok source (Inr st)"
  by (simp add: outcome_ok_def)

lemma outcome_panic: "degenerate_raw source \<Longrightarrow> outcome_ok source (Inl LexPanic)"
  by (simp add: outcome_ok_def)

lemma token_ok_mono: "token_ok s o1 t \<Longrightarrow> o1 \<le> o2 \<Longrightarrow> token_ok s o2 t"
  by (simp add: token_ok_def)

lemma inv_move:
  assumes "lexer_inv st" and "consumes st piece st'" and "lx_tokens st' = lx_tokens st"
    and "lx_at_line_start st' = lx_at_line_start st"
  shows "lexer_inv st'"
proof -
  have le: "lx_offset st \<le> lx_offset st'" "lx_source st' = lx_source st"
    using assms(2) by (simp_all add: consumes_def)
  then show ?thesis
    using assms consumes_text_ok [OF _ assms(2)] line_begin_mono [OF le(1)]
    by (auto simp: lexer_inv_def intro: token_ok_mono order_trans)
qed

lemma inv_advances:
  "lexer_inv st \<Longrightarrow> advances st st' \<Longrightarrow> lexer_inv st'"
  using advances_consumes [of st st'] advances_same [of st st'] inv_move [of st _ st'] inv_text
  by blast

lemma inv_push:
  assumes inv: "lexer_inv st" and c: "consumes st piece st1" and toks: "lx_tokens st1 = lx_tokens st"
    and sp: "spelled_as k piece"
    and f: "f \<Longrightarrow> line_begin (lx_source st1) (lx_offset st1) = lx_offset st1"
  shows "lexer_inv (st1\<lparr>lx_tokens := lx_tokens st1 @ [\<lparr>tok_kind = k,
     tok_span = \<lparr>span_start = lx_offset st, span_end = lx_offset st1\<rparr>\<rparr>], lx_at_line_start := f\<rparr>)"
proof -
  have le: "lx_offset st \<le> lx_offset st1" and src: "lx_source st1 = lx_source st"
    using c by (simp_all add: consumes_def)
  have t: "text_ok st" "text_ok st1" using inv_text [OF inv] consumes_text_ok [OF _ c] by simp_all
  have "token_ok (lx_source st) (lx_offset st1) \<lparr>tok_kind = k,
      tok_span = \<lparr>span_start = lx_offset st, span_end = lx_offset st1\<rparr>\<rparr>"
    using le text_ok_boundary [OF t(1)] text_ok_boundary [OF t(2)] sp consumes_slice [OF c] src
    by (simp add: token_ok_def span_text_def)
  moreover have "\<forall>u \<in> set (lx_tokens st). span_end (tok_span u) \<le> lx_offset st"
    using inv by (simp add: lexer_inv_def token_ok_def)
  ultimately show ?thesis
    using inv t le toks src f
    by (auto simp: lexer_inv_def in_order_def sorted_wrt_append text_ok_def remaining_def
        intro: token_ok_mono order_trans)
qed

lemma outcome_push:
  assumes "lexer_inv st" and "\<not> lx_at_line_start st1" and "consumes st piece st1"
    and "lx_tokens st1 = lx_tokens st" and "spelled_as k piece"
  shows "outcome_ok (lx_source st) (push_range (lx_offset st) k st1)"
proof -
  have "lexer_inv (st1\<lparr>lx_tokens := lx_tokens st1 @ [\<lparr>tok_kind = k,
      tok_span = \<lparr>span_start = lx_offset st, span_end = lx_offset st1\<rparr>\<rparr>],
      lx_at_line_start := False\<rparr>)"
    by (rule inv_push [OF assms(1,3,4,5)]) simp
  moreover have "st1\<lparr>lx_tokens := ts, lx_at_line_start := False\<rparr> = st1\<lparr>lx_tokens := ts\<rparr>" for ts
    using assms(2) by (cases st1) simp
  moreover have "lx_offset st \<le> lx_offset st1" using assms(3) by (simp add: consumes_def)
  ultimately show ?thesis
    by (simp add: push_range_def source_span_new_def outcome_ok_def)
qed

lemma outcome_push_slice:
  assumes "lexer_inv st" and "\<not> lx_at_line_start st1" and "consumes st piece st1"
    and "lx_tokens st1 = lx_tokens st"
    and "slice (lx_source st1) a b = Some content" and "spelled_as (mk content) piece"
  shows "outcome_ok (lx_source st) (push_slice (lx_offset st) a b mk st1)"
  using outcome_push [OF assms(1-4,6)] assms(5) by (simp add: push_slice_def)

lemma outcome_push_flag:
  assumes "lexer_inv st" and "consumes st piece st1" and "lx_tokens st1 = lx_tokens st"
    and "spelled_as k piece"
    and "f \<Longrightarrow> line_begin (lx_source st1) (lx_offset st1) = lx_offset st1"
  shows "outcome_ok source (res_bind (push_range (lx_offset st) k st1)
    (\<lambda>st'. Inr (st'\<lparr>lx_at_line_start := f\<rparr>)))"
proof -
  have "lx_offset st \<le> lx_offset st1" using assms(2) by (simp add: consumes_def)
  with inv_push [OF assms] show ?thesis
    by (simp add: push_range_def source_span_new_def outcome_ok_def)
qed

section \<open>Moves without tokens\<close>

definition reaches :: "lexer \<Rightarrow> lexer \<Rightarrow> bool" where
  "reaches a b \<longleftrightarrow> (text_ok a \<longrightarrow> (\<exists>piece. consumes a piece b) \<and> lx_tokens b = lx_tokens a
     \<and> lx_at_line_start b = lx_at_line_start a)"

lemma reaches_trans: "reaches a b \<Longrightarrow> reaches b c \<Longrightarrow> reaches a c"
  unfolding reaches_def using consumes_trans consumes_text_ok by metis

lemma reaches_refl: "reaches a a"
  unfolding reaches_def using consumes_refl by blast

lemma reaches_advances: "reaches a b \<Longrightarrow> advances b c \<Longrightarrow> reaches a c"
  by (rule reaches_trans) (auto simp: reaches_def dest: advances_same intro: advances_consumes)

lemma reaches_advance_char: "reaches a b \<Longrightarrow> reaches a (advance_char b)"
  by (rule reaches_advances) (auto intro: advances.intros)

lemma reaches_advance_while: "reaches a b \<Longrightarrow> reaches a (advance_while p b)"
  by (rule reaches_advances) (auto intro: advance_while_advances)

lemma reaches_advance:
  "reaches a b \<Longrightarrow> starts_with (remaining b) p \<Longrightarrow> list_all ascii p \<Longrightarrow> length p = n \<Longrightarrow>
   reaches a (advance n b)"
  using consumes_starts_with [of b p n] reaches_trans [of a b "advance n b"]
  by (auto simp: reaches_def utf8_valid_ascii)

lemma reachesE:
  assumes "reaches st st1" and "lexer_inv st"
  obtains piece where "consumes st piece st1" "lx_tokens st1 = lx_tokens st"
    "lx_at_line_start st1 = lx_at_line_start st" "lexer_inv st1" "text_ok st1"
  using assms inv_text [OF assms(2)] inv_move [OF assms(2)] inv_text [of st1]
  unfolding reaches_def by blast

section \<open>Lines and comments\<close>

lemma indentation_loop_counts:
  "indentation_loop tabs spaces st = (tabs', spaces', st') \<Longrightarrow> text_ok st \<Longrightarrow>
   \<exists>piece. consumes st piece st' \<and> count_indent tabs spaces piece = (tabs', spaces')"
proof (induction tabs spaces st rule: indentation_loop.induct)
  case (1 tabs spaces st)
  note body = "1.prems"(1) [unfolded indentation_loop.simps [of tabs spaces st]]
  show ?case
  proof (cases "current_char st")
    case None
    with body show ?thesis by (intro exI [of _ "[]"]) (auto simp: consumes_refl)
  next
    case (Some c)
    note step = consumes_advance_char [OF "1.prems"(2) Some]
    note ok = consumes_text_ok [OF "1.prems"(2) step]
    consider "c = [tab_char]" | "c \<noteq> [tab_char]" "c = '' ''" | "c \<noteq> [tab_char]" "c \<noteq> '' ''" by blast
    then show ?thesis
    proof cases
      case 1
      with body Some obtain piece where "consumes (advance_char st) piece st'"
          "count_indent (Suc tabs) spaces piece = (tabs', spaces')"
        using "1.IH"(1) [OF Some 1 _ ok] by auto
      with consumes_trans [OF step this(1)] 1 show ?thesis
        by (intro exI [of _ "c @ piece"]) simp
    next
      case 2
      with body Some obtain piece where "consumes (advance_char st) piece st'"
          "count_indent tabs (Suc spaces) piece = (tabs', spaces')"
        using "1.IH"(2) [OF Some 2 _ ok] by auto
      with consumes_trans [OF step this(1)] 2 show ?thesis
        by (intro exI [of _ "c @ piece"]) simp
    next
      case 3
      with body Some show ?thesis by (intro exI [of _ "[]"]) (auto simp: consumes_refl)
    qed
  qed
qed

lemma outcome_indentation:
  assumes "lexer_inv st"
  shows "outcome_ok source (lex_indentation st)"
proof -
  obtain tabs spaces st1 where l: "indentation_loop 0 0 st = (tabs, spaces, st1)"
    by (cases "indentation_loop 0 0 st")
  obtain piece where "consumes st piece st1" "count_indent 0 0 piece = (tabs, spaces)"
    using indentation_loop_counts [OF l inv_text [OF assms]] by blast
  moreover have "lx_tokens st1 = lx_tokens st"
    using advances_same [OF indentation_loop_advances [of st 0 0]] l by simp
  ultimately show ?thesis
    unfolding lex_indentation_def l
    by (simp del: res_bind_simps) (rule outcome_push_flag [OF assms], auto simp: spelled_as_def)
qed

lemma outcome_newline:
  assumes inv: "lexer_inv st" and nl: "next_is newline_byte st"
  shows "outcome_ok source (lex_newline st)"
proof -
  obtain b where c: "current_char st = Some [b]" "newline_byte b"
    using nl by (auto simp: next_is_def char_is_def split: option.splits list.splits)
  let ?st1 = "if starts_with (remaining st) [cr_char, nl_char] then advance 2 st else advance_char st"
  have len: "lx_offset st \<le> length (lx_source st)" using inv by (simp add: lexer_inv_def text_ok_def)
  obtain piece d where p: "consumes st (piece @ [d]) ?st1" "newline_byte d"
      "spelled_as Newline (piece @ [d])"
  proof (cases "starts_with (remaining st) [cr_char, nl_char]")
    case True
    then have "consumes st ([cr_char] @ [nl_char]) ?st1"
      using consumes_starts_with [of st "[cr_char, nl_char]" 2]
      by (simp add: utf8_valid_ascii ascii_def byte_def)
    then show thesis using that [of "[cr_char]" nl_char] by (simp add: newline_byte_def spelled_as_def)
  next
    case False
    then have "consumes st ([] @ [b]) ?st1"
      using consumes_advance_char [OF inv_text [OF inv] c(1)] by simp
    then show thesis using that [of "[]" b] c(2) by (auto simp: newline_byte_def spelled_as_def)
  qed
  show ?thesis
    unfolding lex_newline_def
    by (rule outcome_push_flag [OF inv p(1) _ p(3)])
      (simp_all add: line_begin_after [OF p(1,2) len])
qed

lemma outcome_line_continuation:
  assumes inv: "lexer_inv st" and cont: "has_line_continuation st"
  shows "outcome_ok source (lex_line_continuation st)"
proof -
  let ?st1 = "advance (if starts_with (remaining st) [backslash_char, cr_char, nl_char] then 3 else 2) st"
  have len: "lx_offset st \<le> length (lx_source st)" using inv by (simp add: lexer_inv_def text_ok_def)
  obtain piece where p: "consumes st (piece @ [nl_char]) ?st1"
      "spelled_as LineContinuation (piece @ [nl_char])"
  proof (cases "starts_with (remaining st) [backslash_char, cr_char, nl_char]")
    case True
    then have "consumes st ([backslash_char, cr_char] @ [nl_char]) ?st1"
      using consumes_starts_with [of st "[backslash_char, cr_char, nl_char]" 3]
      by (simp add: utf8_valid_ascii ascii_def byte_def)
    then show thesis using that [of "[backslash_char, cr_char]"] by (simp add: spelled_as_def)
  next
    case False
    then have "consumes st ([backslash_char] @ [nl_char]) ?st1"
      using cont consumes_starts_with [of st "[backslash_char, nl_char]" 2]
      by (simp add: has_line_continuation_def utf8_valid_ascii ascii_def byte_def)
    then show thesis using that [of "[backslash_char]"] by (simp add: spelled_as_def)
  qed
  have "newline_byte nl_char" by (simp add: newline_byte_def)
  note after = line_begin_after [OF p(1) this len]
  show ?thesis
    unfolding lex_line_continuation_def
    by (rule outcome_push_flag [OF inv p(1) _ p(2)], simp, rule after)
qed

lemma count_indent_append:
  "\<exists>c \<in> set a. c \<noteq> tab_char \<and> c \<noteq> CHR '' '' \<Longrightarrow>
   count_indent tabs spaces (a @ b) = count_indent tabs spaces a"
  by (induction tabs spaces a rule: count_indent.induct) auto

lemma rfind_newline_at: "rfind_newline s = Some i \<Longrightarrow> newline_byte (s ! i)"
  by (induction s arbitrary: i) (auto split: option.splits if_splits)

lemma newline_ascii: "newline_byte c \<Longrightarrow> ascii c"
  by (auto simp: newline_byte_def ascii_def byte_def)

lemma line_begin_boundary:
  assumes valid: "utf8_valid s"
  shows "char_boundary s (line_begin s n)"
proof (cases "rfind_newline (take n s)")
  case None
  have "\<not> utf8_cont (s ! 0)" if "s \<noteq> []"
    using utf8_valid_first(4) [OF valid that] that by (simp add: hd_conv_nth)
  with None show ?thesis by (auto simp: line_begin_def char_boundary_def)
next
  case (Some i)
  then have i: "i < length s" "newline_byte (s ! i)"
    using rfind_newline_bound [OF Some] rfind_newline_at [OF Some] by simp_all
  have d: "drop i s = s ! i # drop (Suc i) s" using i(1) by (rule Cons_nth_drop_Suc [symmetric])
  have "utf8_valid (take i s @ drop i s)" using valid by simp
  moreover have "\<not> utf8_cont (hd (drop i s))"
    using i by (simp add: hd_drop_conv_nth ascii_not_cont newline_ascii)
  ultimately have "utf8_valid (drop i s)" using utf8_valid_split by blast
  then have v: "utf8_valid (drop (Suc i) s)"
    using i(2) by (simp add: d utf8_valid_ascii_Cons newline_ascii)
  have "\<not> utf8_cont (s ! Suc i)" if "Suc i < length s"
    using utf8_valid_first(4) [OF v] that by (simp add: hd_drop_conv_nth)
  with Some i(1) show ?thesis by (simp add: line_begin_def char_boundary_def)
qed

lemma outcome_comment_line_start:
  assumes inv: "lexer_inv st" and c: "consumes st ''*/'' st1"
    and same: "lx_tokens st1 = lx_tokens st" "lx_at_line_start st1 = lx_at_line_start st"
  shows "outcome_ok source (push_comment_line_start st1)"
proof (cases "lx_at_line_start st1")
  case True
  have inv1: "lexer_inv st1" using inv_move [OF inv c same] .
  define b where "b = line_begin (lx_source st1) (lx_offset st1)"
  have src: "lx_source st1 = lx_source st" "lx_offset st1 = lx_offset st + 2"
    using c by (simp_all add: consumes_def)
  have le: "b \<le> lx_offset st"
  proof -
    have "take (lx_offset st1) (lx_source st1) = take (lx_offset st) (lx_source st) @ ''*/''"
      using consumes_slice [OF c] unfolding src take_add by simp
    moreover have "lx_offset st \<le> length (lx_source st)"
      using inv by (simp add: lexer_inv_def text_ok_def)
    ultimately show ?thesis
      using rfind_newline_bound [of "take (lx_offset st) (lx_source st)"]
      by (auto simp: b_def line_begin_def rfind_newline_append newline_byte_def split: option.splits)
  qed
  define body where "body = take (lx_offset st1 - b) (drop b (lx_source st1))"
  obtain tabs spaces where n: "count_indent 0 0 (drop b (lx_source st1)) = (tabs, spaces)"
    by (cases "count_indent 0 0 (drop b (lx_source st1))")
  have "lx_offset st1 - b = (lx_offset st - b) + 2" using le src(2) by simp
  then have "body = take (lx_offset st - b) (drop b (lx_source st))
      @ take 2 (drop (lx_offset st - b) (drop b (lx_source st)))"
    by (simp only: body_def src(1) take_add)
  moreover have "drop (lx_offset st - b) (drop b (lx_source st)) = drop (lx_offset st) (lx_source st)"
    using le by simp
  moreover have "take 2 (drop (lx_offset st) (lx_source st)) = ''*/''"
    using consumes_slice [OF c] src(2) by simp
  ultimately have split: "body = take (lx_offset st - b) (drop b (lx_source st)) @ ''*/''" by simp
  have "drop b (lx_source st1) = body @ drop (lx_offset st1) (lx_source st1)"
    unfolding body_def using le src
    by (metis append_take_drop_id drop_drop le_add_diff_inverse2 le_add1 le_trans)
  moreover have "count_indent 0 0 (body @ rest) = count_indent 0 0 body" for rest
    by (rule count_indent_append) (simp add: split)
  ultimately have "count_indent 0 0 body = (tabs, spaces)" using n by simp
  then have tok: "token_ok (lx_source st1) (lx_offset st1) \<lparr>tok_kind = LineStart tabs spaces,
      tok_span = \<lparr>span_start = b, span_end = lx_offset st1\<rparr>\<rparr>"
    using le src text_ok_boundary [OF inv_text [OF inv1]] inv_text [OF inv1]
    by (simp add: token_ok_def span_text_def spelled_as_def body_def b_def line_begin_boundary text_ok_def)
  have "\<forall>t \<in> set (lx_tokens st1). span_end (tok_span t) \<le> b"
    using inv1 True by (simp add: lexer_inv_def b_def)
  with tok inv1 have "lexer_inv (st1\<lparr>lx_tokens := lx_tokens st1 @ [\<lparr>tok_kind = LineStart tabs spaces,
      tok_span = \<lparr>span_start = b, span_end = lx_offset st1\<rparr>\<rparr>], lx_at_line_start := False\<rparr>)"
    by (auto simp: lexer_inv_def in_order_def sorted_wrt_append text_ok_def remaining_def)
  then show ?thesis
    using True n le src
    by (simp add: push_comment_line_start_def Let_def push_range_def source_span_new_def outcome_ok_def
        b_def)
next
  case False
  with inv_move [OF inv c same] show ?thesis
    by (simp add: push_comment_line_start_def outcome_Inr)
qed

lemma outcome_block_comment_loop:
  "lexer_inv st \<Longrightarrow> start \<le> lx_offset st \<Longrightarrow> 0 < depth \<Longrightarrow>
   outcome_ok (lx_source st) (block_comment_loop start depth st)"
proof (induction start depth st rule: block_comment_loop.induct)
  case (1 start depth st)
  note inv = "1.prems"(1)
  have st: "text_ok st" using inv_text [OF inv] .
  consider (stop) "length (lx_source st) \<le> lx_offset st"
    | (line) "\<not> length (lx_source st) \<le> lx_offset st" "starts_with (remaining st) ''//''"
    | (deeper) "\<not> length (lx_source st) \<le> lx_offset st" "\<not> starts_with (remaining st) ''//''"
        "starts_with (remaining st) ''/*''"
    | (close) "\<not> length (lx_source st) \<le> lx_offset st" "\<not> starts_with (remaining st) ''//''"
        "\<not> starts_with (remaining st) ''/*''" "starts_with (remaining st) ''*/''"
    | (newline) "\<not> length (lx_source st) \<le> lx_offset st" "\<not> starts_with (remaining st) ''//''"
        "\<not> starts_with (remaining st) ''/*''" "\<not> starts_with (remaining st) ''*/''"
        "next_is newline_byte st"
    | (other) "\<not> length (lx_source st) \<le> lx_offset st" "\<not> starts_with (remaining st) ''//''"
        "\<not> starts_with (remaining st) ''/*''" "\<not> starts_with (remaining st) ''*/''"
        "\<not> next_is newline_byte st"
    by blast
  then show ?case
  proof cases
    case stop
    then show ?thesis
      using "1.prems" by (subst block_comment_loop.simps) (simp add: outcome_fail lexer_inv_def text_ok_def)
  next
    case line
    have "reaches st (skip_line_comment (advance 2 st))"
      unfolding skip_line_comment_def using line(2)
      by (intro reaches_advance_while reaches_advance [of _ _ "''//''"] reaches_refl)
        (simp_all add: ascii_def byte_def)
    then obtain piece where p: "consumes st piece (skip_line_comment (advance 2 st))"
        "lexer_inv (skip_line_comment (advance 2 st))"
      by (rule reachesE [OF _ inv])
    from p(1) have "lx_offset st \<le> lx_offset (skip_line_comment (advance 2 st))"
        "lx_source (skip_line_comment (advance 2 st)) = lx_source st"
      by (simp_all add: consumes_def)
    with "1.IH"(1) [OF line p(2)] "1.prems" line show ?thesis
      by (subst block_comment_loop.simps) simp
  next
    case deeper
    have "reaches st (advance 2 st)"
      using deeper(3) by (intro reaches_advance [of _ _ "''/*''"] reaches_refl) (simp_all add: ascii_def byte_def)
    then have "lexer_inv (advance 2 st)" by (rule reachesE [OF _ inv])
    with "1.IH"(2) [OF deeper] "1.prems" deeper show ?thesis
      by (subst block_comment_loop.simps) simp
  next
    case close
    have c: "consumes st ''*/'' (advance 2 st)"
      using close(4) consumes_starts_with [of st "''*/''" 2] utf8_valid_ascii [of "''*/''"]
      by (simp add: ascii_def byte_def)
    then have inv2: "lexer_inv (advance 2 st)" by (rule inv_move [OF inv]) simp_all
    show ?thesis
      using close "1.IH"(3) [OF close] "1.prems" inv2
        outcome_comment_line_start [OF inv c, of "lx_source st"]
      by (subst block_comment_loop.simps) simp
  next
    case newline
    note nl = outcome_newline [OF inv newline(5), of "lx_source st"]
    show ?thesis
    proof (cases "lex_newline st")
      case (Inl e)
      with newline nl show ?thesis by (subst block_comment_loop.simps) simp
    next
      case (Inr st1)
      then have "lexer_inv st1" using nl by (simp add: outcome_ok_def)
      moreover obtain c where "current_char st = Some c"
        using newline(5) by (auto simp: next_is_def split: option.splits)
      then have "forward st st1" using forward_newline [OF _ Inr] by blast
      ultimately show ?thesis
        using "1.IH"(4) [OF newline Inr] "1.prems" newline Inr
        by (subst block_comment_loop.simps) (simp add: forward_def)
    qed
  next
    case other
    have "lexer_inv (advance_char st)"
      by (rule inv_advances [OF inv]) (intro advances.intros)
    with "1.IH"(5) [OF other] "1.prems" other advance_char_mono [of st] show ?thesis
      by (subst block_comment_loop.simps) simp
  qed
qed

lemma outcome_block_comment:
  assumes inv: "lexer_inv st" and s: "starts_with (remaining st) ''/*''"
  shows "outcome_ok (lx_source st) (skip_block_comment st)"
proof -
  have "reaches st (advance 2 st)"
    using s by (intro reaches_advance [of _ _ "''/*''"] reaches_refl) (simp_all add: ascii_def byte_def)
  then have "lexer_inv (advance 2 st)" by (rule reachesE [OF _ inv])
  from outcome_block_comment_loop [OF this, of "lx_offset st" 1] show ?thesis
    by (simp add: skip_block_comment_def)
qed

section \<open>Identifiers, numbers and operators\<close>

lemma identifier_text_plain: "backslash_char \<notin> set p \<Longrightarrow> identifier_text (p @ u) = p @ identifier_text u"
  by (induction p) auto

lemma identifier_text_escape:
  assumes "text_ok st" "current_char st = Some e"
  shows "identifier_text (backslash_char # e @ u) = e @ identifier_text u"
proof -
  have r: "utf8_valid (remaining st)" "remaining st \<noteq> []" "e = take (utf8_width (hd (remaining st))) (remaining st)"
    using assms by (auto simp: text_ok_def current_char_def split: if_splits)
  obtain t where t: "e = hd (remaining st) # t" "list_all utf8_cont t" using first_character [OF r(1,2)] r(3) by metis
  then have "backslash_char \<notin> set t" by (auto simp: list_all_iff utf8_cont_def byte_def)
  then show ?thesis using t(1) identifier_text_plain [of t u] by simp
qed

lemma identifier_loop_text:
  "identifier_loop spelling st = (spelling', st') \<Longrightarrow> text_ok st \<Longrightarrow>
   \<exists>piece. consumes st piece st' \<and> spelling' = spelling @ identifier_text piece"
proof (induction spelling st rule: identifier_loop.induct)
  case (1 spelling st)
  note body = "1.prems"(1) [unfolded identifier_loop.simps [of spelling st]]
  show ?case
  proof (cases "current_char st")
    case None
    with body show ?thesis by (intro exI [of _ "[]"]) (auto simp: consumes_refl)
  next
    case (Some c)
    note step = consumes_advance_char [OF "1.prems"(2) Some]
    note ok = consumes_text_ok [OF "1.prems"(2) step]
    consider (ident) "char_is ident_byte c"
      | (escape) "\<not> char_is ident_byte c" "c = [backslash_char] \<and> \<not> has_line_continuation st"
      | (stop) "\<not> char_is ident_byte c" "\<not> (c = [backslash_char] \<and> \<not> has_line_continuation st)"
      by blast
    then show ?thesis
    proof cases
      case ident
      with body Some have "identifier_loop (spelling @ c) (advance_char st) = (spelling', st')" by simp
      from "1.IH"(1) [OF Some ident this ok] obtain piece where
        "consumes (advance_char st) piece st'"
        "spelling' = (spelling @ c) @ identifier_text piece" by blast
      moreover have "backslash_char \<notin> set c" using ident by (auto simp: char_is_def ident_byte_def is_alnum_def is_alpha_def is_digit_def byte_def split: list.splits)
      ultimately show ?thesis using consumes_trans [OF step] identifier_text_plain [of c piece]
        by (intro exI [of _ "c @ piece"]) simp
    next
      case escape
      then have st: "consumes st [backslash_char] (advance_char st)" using step by simp
      show ?thesis
      proof (cases "current_char (advance_char st)")
        case None
        with body Some escape st show ?thesis by (intro exI [of _ "[backslash_char]"]) auto
      next
        case (Some e)
        note step2 = consumes_advance_char [OF ok Some]
        from body Some escape \<open>current_char st = Some c\<close>
        have "identifier_loop (spelling @ e) (advance_char (advance_char st)) = (spelling', st')" by simp
        from "1.IH"(2) [OF \<open>current_char st = Some c\<close> escape Some this consumes_text_ok [OF ok step2]]
        obtain piece where p: "consumes (advance_char (advance_char st)) piece st'"
          "spelling' = (spelling @ e) @ identifier_text piece" by blast
        from consumes_trans [OF st consumes_trans [OF step2 p(1)]] p(2) identifier_text_escape [OF ok Some, of piece]
        show ?thesis by (intro exI [of _ "[backslash_char] @ e @ piece"]) simp
      qed
    next
      case stop
      with body Some show ?thesis by (intro exI [of _ "[]"]) (auto simp: consumes_refl)
    qed
  qed
qed

lemma identifier_loop_keeps: "spelling \<noteq> [] \<Longrightarrow> fst (identifier_loop spelling st) \<noteq> []"
proof (induction spelling st rule: identifier_loop.induct)
  case (1 spelling st)
  then show ?case by (subst identifier_loop.simps) (auto split: option.split)
qed

lemma outcome_identifier:
  assumes inv: "lexer_inv st" and f: "\<not> lx_at_line_start st" and c: "current_char st = Some c" "char_is ident_byte c"
  shows "outcome_ok (lx_source st) (lex_identifier st)"
proof -
  obtain spelling st1 where l: "identifier_loop '''' st = (spelling, st1)"
    by (cases "identifier_loop '''' st")
  obtain piece where p: "consumes st piece st1" "spelling = identifier_text piece"
    using identifier_loop_text [OF l inv_text [OF inv]] by auto
  have "lx_tokens st1 = lx_tokens st" "lx_at_line_start st1 = lx_at_line_start st"
    using advances_same [OF identifier_loop_advances [of st "''''"]] l by simp_all
  moreover have "spelling \<noteq> []"
    using l c identifier_loop_keeps [of c "advance_char st"]
    by (subst (asm) identifier_loop.simps) (auto simp: char_is_def split: list.splits)
  ultimately show ?thesis
    using outcome_push [OF inv _ p(1), of "Identifier spelling"] f p(2)
    by (auto simp: lex_identifier_def l spelled_as_def)
qed

lemma outcome_escaped_identifier:
  assumes inv: "lexer_inv st" and f: "\<not> lx_at_line_start st"
    and c: "current_char st = Some [backslash_char]"
  shows "outcome_ok (lx_source st) (lex_escaped_identifier st)"
proof -
  note step = consumes_advance_char [OF inv_text [OF inv] c]
  note ok = consumes_text_ok [OF inv_text [OF inv] step]
  show ?thesis
  proof (cases "current_char (advance_char st)")
    case None
    then show ?thesis
      using ok advance_char_mono [of st]
      by (simp add: lex_escaped_identifier_def Let_def outcome_fail text_ok_def)
  next
    case (Some e)
    note step2 = consumes_advance_char [OF ok Some]
    obtain spelling st1 where l: "identifier_loop e (advance_char (advance_char st)) = (spelling, st1)"
      by (cases "identifier_loop e (advance_char (advance_char st))")
    obtain piece where piece: "consumes (advance_char (advance_char st)) piece st1" "spelling = e @ identifier_text piece"
      using identifier_loop_text [OF l consumes_text_ok [OF ok step2]] by blast
    then have p: "consumes st ([backslash_char] @ e @ piece) st1"
      by (intro consumes_trans [OF step] consumes_trans [OF step2])
    have "lx_tokens st1 = lx_tokens st" "lx_at_line_start st1 = lx_at_line_start st"
      using advances_same [OF identifier_loop_advances [of "advance_char (advance_char st)" e]] l
      by simp_all
    moreover have "e \<noteq> []" using Some by (auto simp: current_char_def utf8_width_def split: if_splits)
    then have "spelling \<noteq> []" using l identifier_loop_keeps [of e "advance_char (advance_char st)"] by simp
    ultimately show ?thesis
      using outcome_push [OF inv _ p, of "Identifier spelling"] f Some identifier_text_escape [OF ok Some, of piece] piece(2)
      by (simp add: lex_escaped_identifier_def Let_def l spelled_as_def)
  qed
qed

lemma outcome_push_number:
  assumes inv: "lexer_inv st" and f: "\<not> lx_at_line_start st" and r: "reaches st st1"
  shows "outcome_ok (lx_source st) (push_number (lx_offset st) st1)"
proof -
  obtain piece where p: "consumes st piece st1" "lx_tokens st1 = lx_tokens st"
      "lx_at_line_start st1 = lx_at_line_start st"
    by (rule reachesE [OF r inv])
  have "slice (lx_source st1) (lx_offset st) (lx_offset st1) = Some piece"
    using slice_consumed [OF inv_text [OF inv] p(1)] p(1) by (simp add: consumes_def)
  with f p show ?thesis
    unfolding push_number_def
    by (intro outcome_push_slice [OF inv _ p(1)]) (simp_all add: spelled_as_def)
qed

lemma reaches_exponent: "reaches st st1 \<Longrightarrow> reaches st (lex_exponent st1)"
  by (simp add: lex_exponent_def Let_def reaches_advance_while reaches_advance_char)

lemma reaches_infinity: "reaches st st1 \<Longrightarrow> at_infinity st1 \<Longrightarrow> reaches st (advance 4 st1)"
  using reaches_advance [of st st1 "''#INF''" 4] reaches_advance [of st st1 "''#IND''" 4]
  by (auto simp: at_infinity_def ascii_def byte_def)

lemma outcome_number:
  assumes "lexer_inv st" and "\<not> lx_at_line_start st"
  shows "outcome_ok (lx_source st) (lex_number st)"
proof -
  note push = outcome_push_number [OF assms]
  have hex: "starts_with (remaining st) ''0x'' \<or> starts_with (remaining st) ''0X''
      \<Longrightarrow> reaches st (advance 2 st)"
    using reaches_advance [OF reaches_refl, of st "''0x''" 2]
      reaches_advance [OF reaches_refl, of st "''0X''" 2]
    by (auto simp: ascii_def byte_def)
  show ?thesis
    unfolding lex_number_def Let_def
    by (simp split: if_split) (intro conjI impI push reaches_advance_while reaches_infinity
        reaches_exponent reaches_advance_char reaches_refl hex; blast)
qed

lemma operators_ascii: "op \<in> set OPERATORS \<Longrightarrow> list_all ascii op"
proof -
  have "list_all (list_all ascii) OPERATORS" by (simp add: OPERATORS_def ascii_def byte_def)
  then show "op \<in> set OPERATORS \<Longrightarrow> list_all ascii op" by (auto simp: list_all_iff)
qed

lemma outcome_operator:
  assumes inv: "lexer_inv st" and f: "\<not> lx_at_line_start st"
  shows "outcome_ok (lx_source st) (lex_operator st)"
proof (cases "find (starts_with (remaining st)) OPERATORS")
  case None
  have "lexer_inv (advance_char st)"
    by (rule inv_advances [OF inv]) (intro advances.intros)
  then show ?thesis
    using None advance_char_mono [of st]
    by (simp add: lex_operator_def outcome_fail lexer_inv_def text_ok_def)
next
  case (Some op)
  then have op: "op \<in> set OPERATORS" "starts_with (remaining st) op"
    by (auto simp: find_Some_iff)
  have "consumes st op (advance (length op) st)"
    using op consumes_starts_with utf8_valid_ascii operators_ascii by blast
  then show ?thesis
    using Some f outcome_push [OF inv, of "advance (length op) st" op "Operator op"]
    by (simp add: lex_operator_def spelled_as_def)
qed

section \<open>Strings\<close>

lemma find_sub_Some: "find_sub pat s = Some i \<Longrightarrow> \<exists>rest. s = take i s @ pat @ rest \<and> i \<le> length s"
proof (induction pat s arbitrary: i rule: find_sub.induct)
  case (1 pat)
  then show ?case by (auto split: if_splits)
next
  case (2 pat c s)
  show ?case
  proof (cases "starts_with (c # s) pat")
    case True
    with 2 show ?thesis by (auto simp: starts_with_iff)
  next
    case False
    with 2 obtain j where "find_sub pat s = Some j" "i = Suc j" by auto
    with "2.IH" [OF False this(1)] show ?thesis by auto
  qed
qed

lemma starts_with_append: "starts_with s p \<Longrightarrow> starts_with (s @ t) p"
  by (auto simp: starts_with_iff)

lemma find_sub_first: "find_sub pat s = Some i \<Longrightarrow> j < i \<Longrightarrow> \<not> starts_with (drop j s) pat"
proof (induction pat s arbitrary: i j rule: find_sub.induct)
  case (2 pat c s)
  then show ?case by (cases j) (auto split: if_splits)
qed (auto split: if_splits)

lemma find_sub_up_to: "find_sub pat (a @ pat @ rest) = Some (length a) \<Longrightarrow> up_to pat a"
  unfolding up_to_def
proof (intro allI impI notI)
  fix j assume f: "find_sub pat (a @ pat @ rest) = Some (length a)" and j: "j < length a"
    and s: "starts_with (drop j (a @ pat)) pat"
  have "drop j (a @ pat @ rest) = drop j (a @ pat) @ rest" using j by simp
  then show False using find_sub_first [OF f j] starts_with_append [OF s, of rest] by simp
qed

lemma advance_advance: "advance m (advance n st) = advance (n + m) st"
  by (simp add: advance_def add.assoc)

lemma find_consumes:
  assumes ok: "text_ok st" and f: "find_sub pat (remaining st) = Some i"
    and pat: "pat \<noteq> []" "utf8_valid pat"
  obtains a where "length a = i" "consumes st a (advance i st)"
    "consumes (advance i st) pat (advance (i + length pat) st)" "up_to pat a"
proof -
  obtain rest where r: "remaining st = take i (remaining st) @ pat @ rest" "i \<le> length (remaining st)"
    using find_sub_Some [OF f] by blast
  define a where "a = take i (remaining st)"
  have ra: "remaining st = a @ pat @ rest" "length a = i"
    using r by (simp_all add: a_def)
  have "utf8_valid (a @ pat @ rest)" using ok ra by (simp add: text_ok_def)
  moreover have "\<not> utf8_cont (hd (pat @ rest))" using utf8_valid_first(4) [OF pat(2,1)] pat(1) by simp
  ultimately have va: "utf8_valid a" using utf8_valid_split by blast
  have c: "consumes st a (advance i st)"
    using consumes_advance [OF ra(1) va] ra(2) by simp
  then have "remaining (advance i st) = pat @ rest" using ra(1) by (simp add: consumes_def)
  from consumes_advance [OF this pat(2)] have "consumes (advance i st) pat (advance (i + length pat) st)"
    by (simp add: advance_advance)
  moreover have "up_to pat a" using f find_sub_up_to [of pat a rest] ra by simp
  ultimately show thesis using c ra(2) that by blast
qed

text \<open>A literal between an opening and a closing piece, with its content sliced out.\<close>

lemma outcome_literal:
  assumes inv: "lexer_inv st" and f: "\<not> lx_at_line_start st"
    and c: "consumes st op st1" "consumes st1 content st2" "consumes st2 close st3"
    and same: "lx_tokens st3 = lx_tokens st" "lx_at_line_start st3 = lx_at_line_start st"
    and sp: "spelled_as (mk content) (op @ content @ close)"
    and ab: "a = lx_offset st1" "b = lx_offset st2"
  shows "outcome_ok (lx_source st) (push_slice (lx_offset st) a b mk st3)"
proof -
  have whole: "consumes st (op @ content @ close) st3"
    by (intro consumes_trans [OF c(1)] consumes_trans [OF c(2)] c(3))
  have "slice (lx_source st3) a b = Some content"
    using slice_consumed [OF consumes_text_ok [OF inv_text [OF inv] c(1)] c(2)] c ab
    by (simp add: consumes_def)
  then show ?thesis
    using outcome_push_slice [of st st3 "op @ content @ close" a b content mk] inv whole same f sp
    by simp
qed

lemma outcome_raw_until:
  assumes inv: "lexer_inv st" and f: "\<not> lx_at_line_start st"
    and s: "starts_with (remaining st) [CHR ''@'', close]" and q: "close \<in> {CHR ''@'', quote_char, apostrophe_char}"
  shows "outcome_ok (lx_source st) (lex_raw_until close msg st)"
proof -
  have "list_all ascii [CHR ''@'', close]" using q by (auto simp: ascii_def byte_def)
  then have c1: "consumes st [CHR ''@'', close] (advance 2 st)"
    using consumes_starts_with [OF s, of 2] utf8_valid_ascii by simp
  note ok = consumes_text_ok [OF inv_text [OF inv] c1]
  show ?thesis
  proof (cases "find_sub [close] (remaining (advance 2 st))")
    case None
    then show ?thesis by (simp add: lex_raw_until_def Let_def outcome_fail_at_end [OF inv])
  next
    case (Some i)
    obtain a where a: "length a = i" "consumes (advance 2 st) a (advance i (advance 2 st))"
        "consumes (advance i (advance 2 st)) [close] (advance (i + length [close]) (advance 2 st))" "up_to [close] a"
      by (rule find_consumes [OF ok Some]) (use q in \<open>auto simp: utf8_valid_ascii ascii_def byte_def\<close>)
    have "spelled_as (RawString a) ([CHR ''@'', close] @ a @ [close])"
      using q a(4) by (auto simp: spelled_as_def raw_spelled_def)
    from outcome_literal [where mk = RawString, OF inv f c1 a(2,3) _ _ this] Some show ?thesis
      by (simp add: lex_raw_until_def Let_def)
  qed
qed

lemma outcome_braced_string:
  assumes inv: "lexer_inv st" and f: "\<not> lx_at_line_start st"
    and s: "starts_with (remaining st) op" "length op = (if raw then 2 else 1)" "list_all ascii op"
    and op: "raw \<Longrightarrow> op = [CHR ''@'', CHR ''{'']" "\<not> raw \<Longrightarrow> op = ''{''"
  shows "outcome_ok (lx_source st) (lex_braced_string raw st)"
proof -
  define st1 where "st1 = advance (if raw then 2 else 1) st"
  have c1: "consumes st op st1"
    unfolding st1_def using consumes_starts_with [OF s(1) utf8_valid_ascii [OF s(3)] s(2)] .
  note ok1 = consumes_text_ok [OF inv_text [OF inv] c1]
  show ?thesis
  proof (cases "current_char st1 = Some [quote_char]")
    case False
    have "lx_offset st \<le> lx_offset st1" "lx_source st1 = lx_source st" using c1 by (simp_all add: consumes_def)
    with False ok1 show ?thesis
      by (simp add: lex_braced_string_def Let_def st1_def [symmetric] outcome_fail text_ok_def)
  next
    case True
    note c2 = consumes_advance_char [OF ok1 True]
    note ok2 = consumes_text_ok [OF ok1 c2]
    show ?thesis
    proof (cases "find_sub [quote_char, CHR ''}''] (remaining (advance_char st1))")
      case None
      with True show ?thesis
        by (simp add: lex_braced_string_def Let_def st1_def outcome_fail_at_end [OF inv])
    next
      case (Some i)
      obtain a where a: "length a = i" "consumes (advance_char st1) a (advance i (advance_char st1))"
          "consumes (advance i (advance_char st1)) [quote_char, CHR ''}'']
             (advance (i + length [quote_char, CHR ''}'']) (advance_char st1))" "up_to [quote_char, CHR ''}''] a"
        by (rule find_consumes [OF ok2 Some]) (simp_all add: utf8_valid_ascii ascii_def byte_def)
      have c12: "consumes st (op @ [quote_char]) (advance_char st1)"
        by (rule consumes_trans [OF c1 c2])
      have sp: "spelled_as ((if raw then RawString else TextBlock) a)
          ((op @ [quote_char]) @ a @ [quote_char, CHR ''}''])"
      proof (cases raw)
        case True
        with op a(4) show ?thesis by (simp add: spelled_as_def raw_spelled_def)
      next
        case False
        with op show ?thesis by (simp add: spelled_as_def)
      qed
      have "lx_tokens st1 = lx_tokens st" "lx_at_line_start st1 = lx_at_line_start st"
        by (simp_all add: st1_def)
      with outcome_literal [where mk = "if raw then RawString else TextBlock", OF inv f c12 a(2,3) _ _ sp] True Some show ?thesis
        by (simp add: lex_braced_string_def Let_def st1_def [symmetric])
    qed
  qed
qed

text \<open>Scanning a quoted body fails only at the end of the source.\<close>

lemma scan_quoted_body_error:
  "scan_quoted_body quote a opened depth st = Inl e \<Longrightarrow> text_ok st \<Longrightarrow> opened \<le> lx_offset st \<Longrightarrow>
   outcome_ok (lx_source st) (Inl e)"
proof (induction quote a opened depth st rule: scan_quoted_body.induct)
  case (1 quote a opened depth st)
  note body = "1.prems"(1) [unfolded scan_quoted_body.simps [of quote a opened depth st]]
  show ?case
  proof (cases "current_char st")
    case None
    with body have "(lex_fail ''unterminated quoted literal'' opened (lx_offset st) :: lexed) = Inl e" by simp
    moreover have "outcome_ok (lx_source st) (lex_fail ''unterminated quoted literal'' opened (lx_offset st))"
      using "1.prems"(2,3) by (intro outcome_fail) (simp_all add: text_ok_def)
    ultimately show ?thesis by (simp only:)
  next
    case (Some c)
    have next1: "text_ok (advance_char st)" "opened \<le> lx_offset (advance_char st)"
        "text_ok (advance_char (advance_char st))" "opened \<le> lx_offset (advance_char (advance_char st))"
    proof -
      have adv: "advances st (advance_char st)" "advances st (advance_char (advance_char st))"
        by (intro advances.intros)+
      show "text_ok (advance_char st)" "text_ok (advance_char (advance_char st))"
        using advances_consumes [OF _ "1.prems"(2)] consumes_text_ok [OF "1.prems"(2)] adv by blast+
      show "opened \<le> lx_offset (advance_char st)" "opened \<le> lx_offset (advance_char (advance_char st))"
        using advances_same [OF adv(1)] advances_same [OF adv(2)] "1.prems"(3) by simp_all
    qed
    consider (escape) "c = [backslash_char]"
      | (close) "c \<noteq> [backslash_char]" "c = quote \<and> depth = 0"
      | (bracket) "c \<noteq> [backslash_char]" "\<not> (c = quote \<and> depth = 0)" "a \<and> c = ''[''"
      | (unbracket) "c \<noteq> [backslash_char]" "\<not> (c = quote \<and> depth = 0)" "\<not> (a \<and> c = ''['')"
          "0 < depth \<and> c = '']''"
      | (nested) "c \<noteq> [backslash_char]" "\<not> (c = quote \<and> depth = 0)" "\<not> (a \<and> c = ''['')"
          "\<not> (0 < depth \<and> c = '']'')" "0 < depth \<and> c = [quote_char]"
      | (other) "c \<noteq> [backslash_char]" "\<not> (c = quote \<and> depth = 0)" "\<not> (a \<and> c = ''['')"
          "\<not> (0 < depth \<and> c = '']'')" "\<not> (0 < depth \<and> c = [quote_char])"
      by blast
    then show ?thesis
    proof cases
      case escape
      with body Some "1.IH"(1) [OF Some escape _ next1(3,4)] show ?thesis by simp
    next
      case close
      with body Some show ?thesis by simp
    next
      case bracket
      with body Some "1.IH"(2) [OF Some bracket _ next1(1,2)] show ?thesis by auto
    next
      case unbracket
      with body Some "1.IH"(3) [OF Some unbracket _ next1(1,2)] show ?thesis by simp
    next
      case nested
      have le: "lx_offset st \<le> lx_offset (advance_char st)" by (rule advance_char_mono)
      show ?thesis
      proof (cases "scan_quoted_body [quote_char] True (lx_offset st) 0 (advance_char st)")
        case (Inl e')
        with "1.IH"(4) [OF Some nested _ next1(1) le] body Some nested show ?thesis by simp
      next
        case (Inr st1)
        obtain st0 where "advances (advance_char st) st0" "st1 = advance_char st0"
          using scan_quoted_body_end [OF Inr] by blast
        then have adv: "advances (advance_char st) st1" by (simp add: advances_step)
        then have "text_ok st1" "opened \<le> lx_offset st1" "lx_source st1 = lx_source st"
          using advances_consumes [OF adv next1(1)] consumes_text_ok [OF next1(1)]
            advances_same [OF adv] next1(2) by auto
        with "1.IH"(5) [OF Some nested Inr] body Some nested Inr show ?thesis by simp
      qed
    next
      case other
      with body Some "1.IH"(6) [OF Some other _ next1(1,2)] show ?thesis by auto
    qed
  qed
qed

lemma outcome_quoted:
  assumes inv: "lexer_inv st" and f: "\<not> lx_at_line_start st"
    and c: "current_char st = Some [q]"
    and q: "q = (if resource then apostrophe_char else quote_char)"
  shows "outcome_ok (lx_source st) (lex_quoted q resource st)"
proof -
  note c1 = consumes_advance_char [OF inv_text [OF inv] c]
  note ok1 = consumes_text_ok [OF inv_text [OF inv] c1]
  show ?thesis
  proof (cases "scan_quoted_body [q] (q = quote_char) (lx_offset st) 0 (advance_char st)")
    case (Inl e)
    with scan_quoted_body_error [OF Inl ok1 advance_char_mono] show ?thesis
      by (simp add: lex_quoted_def Let_def)
  next
    case (Inr st2)
    obtain s1 where s1: "advances (advance_char st) s1" "current_char s1 = Some [q]" "st2 = advance_char s1"
      using scan_quoted_body_end [OF Inr] by blast
    obtain content where c2: "consumes (advance_char st) content s1"
      using advances_consumes [OF s1(1) ok1] by blast
    note c3 = consumes_advance_char [OF consumes_text_ok [OF ok1 c2] s1(2)]
    have "lx_offset st2 - 1 = lx_offset s1" using c3 s1(3) by (simp add: consumes_def)
    moreover have "lx_tokens st2 = lx_tokens st" "lx_at_line_start st2 = lx_at_line_start st"
      using advances_same [OF s1(1)] s1(3) by simp_all
    moreover have "spelled_as ((if resource then Resource else StringLit) content) ([q] @ content @ [q])"
      using q by (simp add: spelled_as_def)
    ultimately show ?thesis
      using outcome_literal [OF inv f c1 c2 c3] Inr s1(3) by (simp add: lex_quoted_def Let_def)
  qed
qed

subsection \<open>Complex raw strings\<close>

abbreviation line_breaks :: "string set" where
  "line_breaks \<equiv> {[cr_char, nl_char], [cr_char], [nl_char]}"

lemma ends_with_append:
  "ends_with (xs @ [a, b]) [c, d] \<longleftrightarrow> a = c \<and> b = d"
  "ends_with (xs @ [a]) [c] \<longleftrightarrow> a = c"
  by (auto simp: ends_with_def)

text \<open>Trimming takes one line break off a content that is not empty.\<close>

lemma trim_content_end_cases:
  assumes t: "take e s = before @ c" "length before + length c = e" and c: "c \<noteq> []"
    and cr: "\<not> (ends_with before [cr_char] \<and> c = [nl_char])"
  shows "\<exists>br. c = chop_break c @ br \<and> trim_content_end s e = length before + length (chop_break c)
    \<and> (br = [] \<or> br \<in> line_breaks)"
proof -
  obtain c1 x where c1: "c = c1 @ [x]" using c by (cases c rule: rev_cases) auto
  consider (crnl) "ends_with (take e s) [cr_char, nl_char]"
    | (one) "\<not> ends_with (take e s) [cr_char, nl_char]"
        "ends_with (take e s) [cr_char] \<or> ends_with (take e s) [nl_char]"
    | (none) "\<not> ends_with (take e s) [cr_char, nl_char]"
        "\<not> (ends_with (take e s) [cr_char] \<or> ends_with (take e s) [nl_char])"
    by blast
  then show ?thesis
  proof cases
    case crnl
    then have x: "x = nl_char" "ends_with (before @ c1) [cr_char]"
      using t(1) c1 by (auto simp: ends_with_iff)
    have "c1 \<noteq> []" using x cr c1 by auto
    then obtain c2 y where c2: "c1 = c2 @ [y]" by (cases c1 rule: rev_cases) auto
    with x have "y = cr_char" using ends_with_append(2) [of "before @ c2" y cr_char] by simp
    then have "chop_break c = c2" using c1 c2 x by (simp add: chop_break_def ends_with_append butlast_append)
    with crnl t c1 c2 x \<open>y = cr_char\<close> show ?thesis
      by (intro exI [of _ "[cr_char, nl_char]"]) (simp add: trim_content_end_def)
  next
    case one
    then have "x = cr_char \<or> x = nl_char"
      using t(1) c1 ends_with_append(2) [of "before @ c1" x] by auto
    moreover have "\<not> ends_with c [cr_char, nl_char]" using one(1) t(1) by (auto simp: ends_with_iff)
    ultimately have "chop_break c = c1" using c1 by (auto simp: chop_break_def ends_with_append)
    with one t c1 \<open>x = cr_char \<or> x = nl_char\<close> show ?thesis
      by (intro exI [of _ "[x]"]) (auto simp: trim_content_end_def)
  next
    case none
    moreover have "chop_break c = c" using none t(1) by (auto simp: chop_break_def ends_with_iff)
    ultimately show ?thesis using t by (intro exI [of _ "[]"]) (auto simp: trim_content_end_def)
  qed
qed

lemma line_break_not_cont: "br \<in> line_breaks \<Longrightarrow> br \<noteq> [] \<and> \<not> utf8_cont (hd br)"
  by (auto simp: utf8_cont_def byte_def)

lemma skip_one_newline_text:
  assumes ok: "text_ok st"
  obtains nl where "consumes st nl (skip_one_newline st)" "nl = [] \<or> nl \<in> line_breaks"
    "nl = [cr_char] \<Longrightarrow> \<not> starts_with (remaining (skip_one_newline st)) [nl_char]"
    "nl = opening_break (remaining st)"
proof -
  consider (crnl) "starts_with (remaining st) [cr_char, nl_char]"
    | (one) "\<not> starts_with (remaining st) [cr_char, nl_char]" "next_is newline_byte st"
    | (none) "\<not> starts_with (remaining st) [cr_char, nl_char]" "\<not> next_is newline_byte st"
    by blast
  then show thesis
  proof cases
    case crnl
    have "list_all ascii [cr_char, nl_char]" by (simp add: ascii_def byte_def)
    then have c: "consumes st [cr_char, nl_char] (advance 2 st)"
      using consumes_starts_with [OF crnl, of 2] utf8_valid_ascii by simp
    moreover have "opening_break (remaining st) = [cr_char, nl_char]" using crnl by (simp add: opening_break_def)
    moreover have "skip_one_newline st = advance 2 st" using crnl by (simp add: skip_one_newline_def)
    ultimately show thesis by (intro that [of "[cr_char, nl_char]"]) simp_all
  next
    case one
    then obtain b where b: "current_char st = Some [b]" "newline_byte b"
      by (auto simp: next_is_def char_is_def split: option.splits list.splits)
    note c = consumes_advance_char [OF ok b(1)]
    have "\<not> starts_with (remaining (advance_char st)) [nl_char]" if "b = cr_char"
      using one(1) c that by (auto simp: consumes_def)
    moreover have "opening_break (remaining st) = [b]" using one(1) b c by (auto simp: opening_break_def consumes_def)
    moreover have "skip_one_newline st = advance_char st" using one by (simp add: skip_one_newline_def)
    ultimately show thesis using c b(2) by (intro that [of "[b]"]) (auto simp: newline_byte_def)
  next
    case none
    moreover have "opening_break (remaining st) = []"
    proof (cases "remaining st")
      case (Cons b r)
      have "utf8_width b = 1" if "newline_byte b" using that by (auto simp: newline_byte_def utf8_width_def byte_def)
      then show ?thesis using none Cons by (auto simp: opening_break_def next_is_def char_is_def current_char_def)
    qed (simp add: opening_break_def)
    moreover have "skip_one_newline st = st" using none by (simp add: skip_one_newline_def)
    ultimately show thesis by (intro that [of "[]"]) (simp_all add: consumes_refl)
  qed
qed

text \<open>The line break a text starts with shows in every prefix that goes beyond it.\<close>

lemma opening_break_prefix: "opening_break (nl @ u @ t) = nl \<Longrightarrow> u \<noteq> [] \<Longrightarrow> opening_break (nl @ u) = nl"
proof -
  assume o: "opening_break (nl @ u @ t) = nl" and u: "u \<noteq> []"
  obtain b v where v: "nl @ u = b # v" using u by (cases "nl @ u") auto
  have w: "nl @ u @ t = b # v @ t" using v by (metis append_Cons append_assoc)
  have "v \<noteq> []" if "starts_with (b # v @ t) [cr_char, nl_char]"
    using o that v w u by (cases nl) (auto simp: opening_break_def)
  then have s: "starts_with (b # v @ t) [cr_char, nl_char] = starts_with (b # v) [cr_char, nl_char]"
    by (cases v) auto
  show ?thesis using o unfolding v w opening_break_def s by (auto simp: newline_byte_def split: if_splits)
qed

lemma take_consumed:
  assumes "consumes st piece st'"
  shows "take (lx_offset st') (lx_source st') = take (lx_offset st) (lx_source st) @ piece"
proof -
  have "lx_offset st' = lx_offset st + length piece" "lx_source st' = lx_source st"
    using assms by (simp_all add: consumes_def)
  then show ?thesis using consumes_slice [OF assms] by (simp only: take_add) simp
qed

lemma outcome_complex_content:
  assumes inv: "lexer_inv st" and f: "\<not> lx_at_line_start st"
    and c1: "consumes st (''@('' @ d @ '')'') sB" and d: "d \<noteq> []"
    and nl: "consumes sB nl st2" "nl = [] \<or> nl \<in> line_breaks"
      "nl = [cr_char] \<Longrightarrow> \<not> starts_with (remaining st2) [nl_char]" "nl = opening_break (remaining sB)"
    and c: "consumes st2 c sC" "consumes sC d sD" and up: "up_to '')'' d" "up_to d c"
    and same: "lx_tokens sD = lx_tokens st" "lx_at_line_start sD = lx_at_line_start st"
  shows "outcome_ok (lx_source st) (push_slice (lx_offset st) (lx_offset st2)
    (trim_content_end (lx_source st2) (lx_offset sC)) RawString sD)"
proof -
  have start: "consumes st ((''@('' @ d @ '')'') @ nl) st2" by (rule consumes_trans [OF c1 nl(1)])
  have whole: "consumes st (((''@('' @ d @ '')'') @ nl) @ c @ d) sD"
    by (rule consumes_trans [OF start consumes_trans [OF c]])
  note ok2 = consumes_text_ok [OF inv_text [OF inv] start]
  have src: "lx_source st2 = lx_source st" "lx_source sC = lx_source st" "lx_source sD = lx_source st"
    using start c by (simp_all add: consumes_def)
  have before: "take (lx_offset st2) (lx_source st)
      = (take (lx_offset st) (lx_source st) @ ''@('' @ d @ '')'') @ nl"
    using take_consumed [OF start] src by simp
  show ?thesis
  proof (cases "c = [] \<and> nl \<noteq> []")
    case True
    with nl(2) have br: "nl \<in> line_breaks" by blast
    have "lx_source st = take (lx_offset st) (lx_source st) @ remaining st"
      by (simp add: remaining_def)
    moreover have "remaining st = ''@('' @ d @ '')'' @ nl @ d @ remaining sD"
      using whole True by (simp add: consumes_def)
    ultimately have "degenerate_raw (lx_source st)"
      unfolding degenerate_raw_def using br d by metis
    moreover have "trim_content_end (lx_source st2) (lx_offset sC) < lx_offset st2"
    proof -
      have "lx_offset sC = lx_offset st2" using c(1) True by (simp add: consumes_def)
      moreover have "ends_with (take (lx_offset st2) (lx_source st)) [cr_char]
          \<or> ends_with (take (lx_offset st2) (lx_source st)) [nl_char]"
        unfolding before using br by (auto simp: ends_with_iff)
      moreover have "2 \<le> lx_offset st2" using start by (simp add: consumes_def)
      ultimately show ?thesis using src by (auto simp: trim_content_end_def)
    qed
    ultimately show ?thesis by (simp add: push_slice_def slice_def outcome_panic)
  next
    case False
    have "\<exists>br. c = chop_break c @ br
        \<and> trim_content_end (lx_source st) (lx_offset sC) = lx_offset st2 + length (chop_break c)
        \<and> (br = [] \<or> br \<in> line_breaks)"
    proof (cases "c = []")
      case True
      with False have "nl = []" by simp
      moreover have "lx_offset sC = lx_offset st2" using c(1) True by (simp add: consumes_def)
      ultimately have "trim_content_end (lx_source st) (lx_offset sC) = lx_offset st2"
        using before by (auto simp: trim_content_end_def ends_with_iff)
      with True show ?thesis by (simp add: chop_break_def ends_with_iff)
    next
      case nonempty: False
      have "\<not> (ends_with (take (lx_offset st2) (lx_source st)) [cr_char] \<and> c = [nl_char])"
      proof
        assume a: "ends_with (take (lx_offset st2) (lx_source st)) [cr_char] \<and> c = [nl_char]"
        then have "nl = [cr_char]" using nl(2) unfolding before by (auto simp: ends_with_iff)
        moreover have "starts_with (remaining st2) [nl_char]"
          using a c(1) by (simp add: consumes_def)
        ultimately show False using nl(3) by simp
      qed
      moreover have "length (take (lx_offset st2) (lx_source st)) = lx_offset st2"
        using ok2 src by (simp add: text_ok_def)
      moreover have "take (lx_offset sC) (lx_source st) = take (lx_offset st2) (lx_source st) @ c"
        using take_consumed [OF c(1)] src by simp
      moreover have "lx_offset sC = lx_offset st2 + length c" using c(1) by (simp add: consumes_def)
      ultimately show ?thesis using trim_content_end_cases [OF _ _ nonempty] by fastforce
    qed
    then obtain c' br where br: "c = c' @ br" "br = [] \<or> br \<in> line_breaks" "c' = chop_break c"
        "trim_content_end (lx_source st) (lx_offset sC) = lx_offset st2 + length c'" by blast
    have "utf8_valid (c' @ br)" using c(1) br(1) by (simp add: consumes_def)
    then have vc: "utf8_valid c'" using utf8_valid_split br(2) line_break_not_cont by blast
    have "remaining st2 = c' @ br @ remaining sC" using c(1) br(1) by (simp add: consumes_def)
    from consumes_advance [OF this vc] slice_consumed [OF ok2]
    have "slice (lx_source st2) (lx_offset st2) (lx_offset st2 + length c') = Some c'" by fastforce
    moreover have "spelled_as (RawString c') (((''@('' @ d @ '')'') @ nl) @ c @ d)"
    proof -
      have "remaining sB = nl @ (c @ d) @ remaining sD" using nl(1) c by (simp add: consumes_def)
      then have "nl = opening_break (nl @ c @ d)" using opening_break_prefix [of nl "c @ d" "remaining sD"] nl(4) d by simp
      then have "raw_spelled c' (''@('' @ d @ '')'' @ nl @ c @ d)"
        unfolding raw_spelled_def using d up br(3) by blast
      then show ?thesis by (simp add: spelled_as_def)
    qed
    ultimately show ?thesis
      using outcome_push_slice [OF inv _ whole same(1), of "lx_offset st2" "lx_offset st2 + length c'" c' RawString]
        f same(2) src br(4) by simp
  qed
qed

lemma set_offset: "lx_offset st + n = e \<Longrightarrow> st\<lparr>lx_offset := e\<rparr> = advance n st"
  by (simp add: advance_def)

lemma skip_one_newline_tokens:
  "lx_tokens (skip_one_newline st) = lx_tokens st
     \<and> lx_at_line_start (skip_one_newline st) = lx_at_line_start st"
  by (simp add: skip_one_newline_def)

lemma outcome_complex_raw_string:
  assumes inv: "lexer_inv st" and f: "\<not> lx_at_line_start st" and s: "starts_with (remaining st) ''@(''"
  shows "outcome_ok (lx_source st) (lex_complex_raw_string st)"
proof -
  define st1 where "st1 = advance 2 st"
  have "list_all ascii ''@(''" by (simp add: ascii_def byte_def)
  then have c1: "consumes st ''@('' st1"
    unfolding st1_def using consumes_starts_with [OF s, of 2] utf8_valid_ascii by simp
  note ok1 = consumes_text_ok [OF inv_text [OF inv] c1]
  show ?thesis
  proof (cases "find_sub '')'' (remaining st1)")
    case None
    then show ?thesis
      by (simp add: lex_complex_raw_string_def Let_def st1_def outcome_fail_at_end [OF inv])
  next
    case (Some i)
    obtain d where d: "length d = i" "consumes st1 d (advance i st1)"
        "consumes (advance i st1) '')'' (advance (i + length '')'') st1)" "up_to '')'' d"
      by (rule find_consumes [OF ok1 Some]) (simp_all add: utf8_valid_ascii ascii_def byte_def)
    define sB where "sB = advance (i + 1) st1"
    have cB: "consumes st (''@('' @ d @ '')'') sB"
      using consumes_trans [OF c1 consumes_trans [OF d(2,3)]] by (simp add: sB_def)
    note okB = consumes_text_ok [OF inv_text [OF inv] cB]
    have sl: "slice (lx_source st1) (lx_offset st1) (lx_offset st1 + i) = Some d"
      using slice_consumed [OF ok1 d(2)] by simp
    have off: "st1\<lparr>lx_offset := lx_offset st1 + i + 1\<rparr> = sB"
      unfolding sB_def by (rule set_offset) simp
    show ?thesis
    proof (cases "d = []")
      case True
      then have "lx_offset st \<le> lx_offset st1 + i + 1" "lx_offset st1 + i + 1 \<le> length (lx_source st)"
        using okB by (simp_all add: st1_def sB_def text_ok_def)
      with True Some sl show ?thesis
        by (simp add: lex_complex_raw_string_def Let_def st1_def [symmetric] outcome_fail)
    next
      case False
      define st2 where "st2 = skip_one_newline sB"
      obtain nl where nl: "consumes sB nl st2" "nl = [] \<or> nl \<in> line_breaks"
          "nl = [cr_char] \<Longrightarrow> \<not> starts_with (remaining st2) [nl_char]" "nl = opening_break (remaining sB)"
        using skip_one_newline_text [OF okB] unfolding st2_def by blast
      note ok2 = consumes_text_ok [OF okB nl(1)]
      have vd: "utf8_valid d" using d(2) by (simp add: consumes_def)
      show ?thesis
      proof (cases "find_sub d (remaining st2)")
        case None
        have "lx_source st2 = lx_source st" using cB nl(1) by (simp add: consumes_def)
        with None Some False sl off show ?thesis
          by (simp add: lex_complex_raw_string_def Let_def st1_def [symmetric] st2_def [symmetric]
              outcome_fail_at_end [OF inv])
      next
        case found: (Some j)
        obtain c where c: "length c = j" "consumes st2 c (advance j st2)"
            "consumes (advance j st2) d (advance (j + length d) st2)" "up_to d c"
          by (rule find_consumes [OF ok2 found False vd])
        have same: "lx_tokens (advance (j + length d) st2) = lx_tokens st"
            "lx_at_line_start (advance (j + length d) st2) = lx_at_line_start st"
          using skip_one_newline_tokens [of sB] by (auto simp: st2_def sB_def st1_def)
        from outcome_complex_content [OF inv f cB False nl c(2,3) d(4) c(4) same]
        show ?thesis
          using Some False sl off found
          by (simp add: lex_complex_raw_string_def Let_def st1_def [symmetric] st2_def [symmetric])
      qed
    qed
  qed
qed

section \<open>The main loop\<close>

lemma current_char_starts:
  "current_char st = Some c \<Longrightarrow> starts_with (remaining st) c"
  by (auto simp: current_char_def starts_with_iff split: if_splits) (metis append_take_drop_id)

lemma outcome_push_char:
  assumes inv: "lexer_inv st" and f: "\<not> lx_at_line_start st" and c: "current_char st = Some [b]"
  shows "outcome_ok (lx_source st) (push_char (Punctuation b) st)"
  unfolding push_char_def
  by (rule outcome_push [OF inv _ consumes_advance_char [OF inv_text [OF inv] c]])
    (simp_all add: f spelled_as_def)

lemma inv_skip_line_comment: "lexer_inv st \<Longrightarrow> lexer_inv (skip_line_comment st)"
  unfolding skip_line_comment_def by (rule inv_advances [OF _ advance_while_advances])

lemma char_is_single: "char_is p c \<Longrightarrow> \<exists>b. c = [b] \<and> p b"
  by (auto simp: char_is_def split: list.splits)

lemma outcome_if:
  "(b \<Longrightarrow> outcome_ok s x) \<Longrightarrow> (\<not> b \<Longrightarrow> outcome_ok s y) \<Longrightarrow> outcome_ok s (if b then x else y)"
  by simp

lemma outcome_token:
  assumes inv: "lexer_inv st" and f: "\<not> lx_at_line_start st" and c: "current_char st = Some c"
  shows "outcome_ok (lx_source st) (lex_token c st)"
proof -
  have nl: "outcome_ok (lx_source st) (lex_newline st)" if "char_is newline_byte c"
    using outcome_newline [OF inv] c that by (simp add: next_is_def)
  have adv: "outcome_ok (lx_source st) (Inr (advance_char st))"
    by (intro outcome_Inr inv_advances [OF inv]) (intro advances.intros)
  have comment: "outcome_ok (lx_source st) (Inr (skip_line_comment st))"
    by (intro outcome_Inr inv_skip_line_comment inv)
  have escaped: "outcome_ok (lx_source st) (lex_escaped_identifier st)" if "c = [backslash_char]"
    using outcome_escaped_identifier [OF inv f] c that by simp
  have at: "outcome_ok (lx_source st) (lex_at_raw_string st)" if "starts_with (remaining st) ''@@''"
    unfolding lex_at_raw_string_def using outcome_raw_until [OF inv f that] by simp
  have atq: "outcome_ok (lx_source st) (lex_at_quote_raw_string q st)"
    if "starts_with (remaining st) [CHR ''@'', q]" "q \<in> {CHR ''@'', quote_char, apostrophe_char}" for q
    unfolding lex_at_quote_raw_string_def using outcome_raw_until [OF inv f that] .
  have braced: "outcome_ok (lx_source st) (lex_braced_string True st)"
    if "starts_with (remaining st) [CHR ''@'', CHR ''{'']"
    by (rule outcome_braced_string [OF inv f that]) (simp_all add: ascii_def byte_def)
  have block: "outcome_ok (lx_source st) (lex_braced_string False st)" if "c = ''{''"
    by (rule outcome_braced_string [OF inv f current_char_starts [OF c [unfolded that]]])
      (simp_all add: ascii_def byte_def)
  have quoted: "outcome_ok (lx_source st) (lex_quoted quote_char False st)" if "c = [quote_char]"
    using outcome_quoted [OF inv f, of quote_char False] c that by simp
  have resource: "outcome_ok (lx_source st) (lex_quoted apostrophe_char True st)"
    if "c = [apostrophe_char]"
    using outcome_quoted [OF inv f, of apostrophe_char True] c that by simp
  have ident: "outcome_ok (lx_source st) (lex_identifier st)" if "char_is (\<lambda>c. is_alpha c \<or> c = CHR ''_'') c"
    by (rule outcome_identifier [OF inv f c]) (use that in \<open>auto simp: char_is_def ident_byte_def is_alnum_def split: list.splits\<close>)
  have punct: "outcome_ok (lx_source st) (push_char (Punctuation (hd c)) st)" if "char_is p c" for p
    using outcome_push_char [OF inv f] c char_is_single [OF that] by auto
  have asc: "quote_char \<in> {CHR ''@'', quote_char, apostrophe_char}" "apostrophe_char \<in> {CHR ''@'', quote_char, apostrophe_char}"
    by simp_all
  show ?thesis
    unfolding lex_token_def Let_def
    by (intro outcome_if nl adv comment escaped block quoted resource
        outcome_line_continuation [OF inv] outcome_block_comment [OF inv] ident
        outcome_number [OF inv f] outcome_operator [OF inv f] at braced
        outcome_complex_raw_string [OF inv f] atq [OF _ asc(1)] atq [OF _ asc(2)])
      (auto intro: punct)
qed

lemma line_prefix_inv:
  assumes "lexer_inv st"
  shows "outcome_ok (lx_source st) (lex_line_prefix st)"
    and "lex_line_prefix st = Inr st1 \<Longrightarrow> \<not> lx_at_line_start st1"
  using outcome_indentation [OF assms] assms
  by (auto simp: lex_line_prefix_def outcome_Inr lex_indentation_def res_bind_Inr_iff
      split: if_splits prod.splits)

definition run_ok :: "string \<Rightarrow> lex_failure + spanned_token list \<Rightarrow> bool" where
  "run_ok source r = (case r of
       Inr toks \<Rightarrow> in_order toks \<and> (\<forall>t \<in> set toks. token_ok source (length source) t)
     | Inl (LexError msg sp) \<Rightarrow> span_start sp \<le> span_end sp \<and> span_end sp \<le> length source
     | Inl LexPanic \<Rightarrow> degenerate_raw source)"

lemma run_tokens: "lexer_inv st \<Longrightarrow> run_ok (lx_source st) (Inr (lx_tokens st))"
  by (auto simp: run_ok_def lexer_inv_def text_ok_def intro: token_ok_mono)

lemma run_failure: "outcome_ok source (Inl e) \<Longrightarrow> run_ok source (Inl e)"
  by (simp add: run_ok_def outcome_ok_def split: lex_failure.splits)

lemma lex_run_ok: "lexer_inv st \<Longrightarrow> run_ok (lx_source st) (lex_run st)"
proof (induction st rule: lex_run.induct)
  case (1 st)
  show ?case
  proof (cases "lx_offset st < length (lx_source st)")
    case True
    note pre = line_prefix_inv [OF "1.prems"]
    show ?thesis
    proof (cases "lex_line_prefix st")
      case (Inl e)
      with pre(1) True show ?thesis by (subst lex_run.simps) (simp add: run_failure)
    next
      case (Inr st1)
      then have st1: "lexer_inv st1" "\<not> lx_at_line_start st1" "lx_source st1 = lx_source st"
        using pre line_prefix_same [OF Inr] by (simp_all add: outcome_ok_def)
      show ?thesis
      proof (cases "current_char st1")
        case None
        with True Inr run_tokens [OF st1(1)] st1(3) show ?thesis by (subst lex_run.simps) simp
      next
        case (Some c)
        note tok = outcome_token [OF st1(1,2) Some]
        show ?thesis
        proof (cases "lex_token c st1")
          case (Inl e)
          with True Inr Some tok st1(3) show ?thesis by (subst lex_run.simps) (simp add: run_failure)
        next
          case moved: (Inr st2)
          then have "lexer_inv st2" "lx_source st2 = lx_source st1"
            using tok forward_token [OF Some moved] by (simp_all add: outcome_ok_def forward_def)
          with "1.IH" [OF True Inr Some moved] True Inr Some moved st1(3) show ?thesis
            by (subst lex_run.simps) simp
        qed
      qed
    qed
  next
    case False
    with run_tokens [OF "1.prems"] show ?thesis by (subst lex_run.simps) simp
  qed
qed

lemma lex_ok: "utf8_valid source \<Longrightarrow> run_ok source (lex source)"
  using lex_run_ok [of "lexer_new source"]
  by (simp add: lex_def lexer_new_def lexer_inv_def text_ok_def remaining_def in_order_def)

section \<open>Operators\<close>

text \<open>No operator of the table is a proper prefix of a later one.\<close>

lemma operators_longest_first:
  "sorted_wrt (\<lambda>a b. \<not> (starts_with b a \<and> length a < length b)) OPERATORS"
  by code_simp

lemma starts_with_both:
  "starts_with s a \<Longrightarrow> starts_with s b \<Longrightarrow> length a \<le> length b \<Longrightarrow> starts_with b a"
  by (auto simp: starts_with_iff) (metis append_eq_append_conv_if append_take_drop_id)

lemma find_first_longest:
  assumes "sorted_wrt (\<lambda>a b. \<not> (starts_with b a \<and> length a < length b)) ops"
    and "find (starts_with s) ops = Some chosen" and "op \<in> set ops" and "starts_with s op"
  shows "length op \<le> length chosen"
  using assms
proof (induction ops)
  case (Cons a ops)
  show ?case
  proof (cases "starts_with s a")
    case True
    with Cons.prems(2) have a: "chosen = a" by simp
    have "\<not> length a < length op" if "op \<in> set ops"
      using Cons.prems(1) that starts_with_both [OF True Cons.prems(4)] by auto
    with a Cons.prems(3) show ?thesis by fastforce
  next
    case False
    with Cons show ?thesis by auto
  qed
qed simp

section \<open>A literal that panics\<close>

lemma find_sub_unique:
  "c \<notin> set a \<Longrightarrow> find_sub [c] (a @ [c] @ rest) = Some (length a)"
  by (induction a) auto

lemma find_sub_here: "starts_with s pat \<Longrightarrow> find_sub pat s = Some 0"
  by (cases s; cases pat) auto

lemma panics_at_content:
  assumes "b < a" shows "push_slice start a b mk st = Inl LexPanic"
  using assms by (simp add: push_slice_def slice_def)

lemma skip_line_break:
  assumes "remaining st = nl @ d @ rest" and "nl \<in> line_breaks" and "d \<noteq> []" and "hd d \<noteq> nl_char"
  shows "skip_one_newline st = advance (length nl) st"
proof -
  obtain x t where d: "d = x # t" "x \<noteq> nl_char" using assms(3,4) by (cases d) auto
  have "current_char st = Some [hd nl]" if "length nl = 1"
    using assms(1,2) that by (auto simp: current_char_def utf8_width_def byte_def)
  with assms(1,2) d show ?thesis
    by (auto simp: skip_one_newline_def next_is_def char_is_def newline_byte_def advance_char_def)
qed

lemma complex_raw_panics:
  assumes ok: "text_ok st" and r: "remaining st = ''@('' @ d @ '')'' @ nl @ d @ rest"
    and d: "utf8_valid d" "d \<noteq> []" "CHR '')'' \<notin> set d" "hd d \<noteq> nl_char" and nl: "nl \<in> line_breaks"
  shows "lex_complex_raw_string st = Inl LexPanic"
proof -
  define st1 where "st1 = advance 2 st"
  have lit: "utf8_valid ''@(''" "utf8_valid '')''" "utf8_valid nl"
    using nl by (auto simp: utf8_valid_ascii ascii_def byte_def)
  have c1: "consumes st ''@('' st1"
    unfolding st1_def using consumes_advance [of st "''@(''"] r lit(1) by (simp add: numeral_2_eq_2)
  then have r1: "remaining st1 = d @ '')'' @ nl @ d @ rest" using r by (simp add: consumes_def)
  have f1: "find_sub '')'' (remaining st1) = Some (length d)"
    unfolding r1 by (rule find_sub_unique [OF d(3)])
  have c2: "consumes st1 d (advance (length d) st1)" using consumes_advance r1 d(1) by blast
  have sl: "slice (lx_source st1) (lx_offset st1) (lx_offset st1 + length d) = Some d"
    using slice_consumed [OF consumes_text_ok [OF ok c1] c2] by simp
  define sB where "sB = advance (length d + 1) st1"
  have "remaining (advance (length d) st1) = '')'' @ nl @ d @ rest"
    using c2 r1 by (simp add: consumes_def)
  from consumes_advance [OF this lit(2)] have cB: "consumes (advance (length d) st1) '')'' sB"
    by (simp add: sB_def advance_advance)
  then have rB: "remaining sB = nl @ d @ rest" using c2 r1 by (simp add: consumes_def)
  have skip: "skip_one_newline sB = advance (length nl) sB"
    by (rule skip_line_break [OF rB nl d(2,4)])
  have c3: "consumes sB nl (advance (length nl) sB)" using consumes_advance rB lit(3) by blast
  then have r2: "remaining (advance (length nl) sB) = d @ rest" using rB by (simp add: consumes_def)
  then have f2: "find_sub d (remaining (advance (length nl) sB)) = Some 0"
    by (intro find_sub_here) (auto simp: starts_with_iff)
  have "consumes st (''@('' @ d @ '')'' @ nl) (advance (length nl) sB)"
    by (intro consumes_trans [OF c1] consumes_trans [OF c2] consumes_trans [OF cB] c3)
  from take_consumed [OF this] nl
  have "ends_with (take (lx_offset (advance (length nl) sB)) (lx_source (advance (length nl) sB))) [cr_char]
      \<or> ends_with (take (lx_offset (advance (length nl) sB)) (lx_source (advance (length nl) sB))) [nl_char]"
    by (auto simp: ends_with_iff)
  moreover have "2 \<le> lx_offset (advance (length nl) sB)" by (simp add: sB_def st1_def)
  ultimately have trim: "trim_content_end (lx_source (advance (length nl) sB))
      (lx_offset (advance (length nl) sB)) < lx_offset (advance (length nl) sB)"
    by (auto simp: trim_content_end_def)
  have off: "st1\<lparr>lx_offset := lx_offset st1 + length d + 1\<rparr> = sB"
    unfolding sB_def by (rule set_offset) simp
  show ?thesis
    using f1 sl d(2) off skip f2 panics_at_content [OF trim]
    by (simp add: lex_complex_raw_string_def Let_def st1_def [symmetric])
qed

lemma lex_at_complex_raw:
  assumes "lex_complex_raw_string ((lexer_new (''@('' @ s))\<lparr>lx_tokens := [\<lparr>tok_kind = LineStart 0 0,
    tok_span = \<lparr>span_start = 0, span_end = 0\<rparr>\<rparr>], lx_at_line_start := False\<rparr>) = Inl e"
  shows "lex (''@('' @ s) = Inl e"
proof -
  let ?st = "lexer_new (''@('' @ s)"
  have c: "current_char ?st = Some ''@''"
    by (simp add: current_char_def remaining_def lexer_new_def utf8_width_def byte_def)
  then have "indentation_loop 0 0 ?st = (0, 0, ?st)"
    by (subst indentation_loop.simps) simp
  then have pre: "lex_line_prefix ?st = Inr (?st\<lparr>lx_tokens := [\<lparr>tok_kind = LineStart 0 0,
      tok_span = \<lparr>span_start = 0, span_end = 0\<rparr>\<rparr>], lx_at_line_start := False\<rparr>)"
    by (simp add: lex_line_prefix_def lex_indentation_def push_range_def source_span_new_def)
      (simp add: lexer_new_def)
  let ?st1 = "?st\<lparr>lx_tokens := [\<lparr>tok_kind = LineStart 0 0,
      tok_span = \<lparr>span_start = 0, span_end = 0\<rparr>\<rparr>], lx_at_line_start := False\<rparr>"
  have c1: "current_char ?st1 = Some ''@''"
    by (simp add: current_char_def remaining_def lexer_new_def utf8_width_def byte_def)
  have "lex_token ''@'' ?st1 = lex_complex_raw_string ?st1"
    by (simp add: lex_token_def Let_def remaining_def lexer_new_def char_is_def newline_byte_def
        is_alpha_def is_digit_def byte_def)
  with assms pre c1 show ?thesis
    unfolding lex_def by (subst lex_run.simps) (simp add: lexer_new_def)
qed

section \<open>Properties\<close>

text \<open>
  C22. Token spans: on success the tokens of a source come in order and do not overlap, and
  each span is an ordered pair of character boundaries of the source.
\<close>

theorem lex_token_spans:
  assumes "utf8_valid source" and "lex source = Inr toks"
  shows "sorted_wrt (\<lambda>a b. span_end (tok_span a) \<le> span_start (tok_span b)) toks
    \<and> (\<forall>t \<in> set toks. span_start (tok_span t) \<le> span_end (tok_span t)
        \<and> span_end (tok_span t) \<le> length source
        \<and> char_boundary source (span_start (tok_span t))
        \<and> char_boundary source (span_end (tok_span t)))"
  using lex_ok [OF assms(1)] assms(2) by (simp add: run_ok_def in_order_def token_ok_def)

theorem lex_token_spans_witness:
  "lex ''<<=2'' = Inr [\<lparr>tok_kind = LineStart 0 0, tok_span = \<lparr>span_start = 0, span_end = 0\<rparr>\<rparr>,
       \<lparr>tok_kind = Operator ''<<='', tok_span = \<lparr>span_start = 0, span_end = 3\<rparr>\<rparr>,
       \<lparr>tok_kind = Number ''2'', tok_span = \<lparr>span_start = 3, span_end = 4\<rparr>\<rparr>]
   \<and> (3::nat) \<le> 3 \<and> char_boundary ''<<=2'' 3"
proof -
  have v: "utf8_valid ''<<=2''" by (rule utf8_valid_ascii) code_simp
  have l: "lex ''<<=2'' = Inr [\<lparr>tok_kind = LineStart 0 0, tok_span = \<lparr>span_start = 0, span_end = 0\<rparr>\<rparr>,
       \<lparr>tok_kind = Operator ''<<='', tok_span = \<lparr>span_start = 0, span_end = 3\<rparr>\<rparr>,
       \<lparr>tok_kind = Number ''2'', tok_span = \<lparr>span_start = 3, span_end = 4\<rparr>\<rparr>]"
    by code_simp
  from lex_token_spans [OF v l] l show ?thesis by simp
qed

text \<open>
  C23. Spelling is preserved: the source text under a token's span is exactly what its kind says. An
  identifier is the text with its escaping backslashes dropped; strings stand between their quotes and
  braces; a raw string is the text up to the first occurrence of what closes it, for a delimited one
  without the line break after its opening and the line break before its closing delimiter; numbers,
  operators and punctuation are the text itself, and a line start counts the tabs and spaces.
\<close>

theorem lex_spelling:
  assumes "utf8_valid source" and "lex source = Inr toks" and "t \<in> set toks"
  shows "spelled_as (tok_kind t) (span_text source (tok_span t))"
  using lex_ok [OF assms(1)] assms(2,3) by (simp add: run_ok_def token_ok_def)

theorem lex_spelling_witness:
  "spelled_as (Number ''0x1F'') (span_text ''(0x1F)'' \<lparr>span_start = 1, span_end = 5\<rparr>)"
proof -
  let ?toks = "[\<lparr>tok_kind = LineStart 0 0, tok_span = \<lparr>span_start = 0, span_end = 0\<rparr>\<rparr>,
       \<lparr>tok_kind = Punctuation CHR ''('', tok_span = \<lparr>span_start = 0, span_end = 1\<rparr>\<rparr>,
       \<lparr>tok_kind = Number ''0x1F'', tok_span = \<lparr>span_start = 1, span_end = 5\<rparr>\<rparr>,
       \<lparr>tok_kind = Punctuation CHR '')'', tok_span = \<lparr>span_start = 5, span_end = 6\<rparr>\<rparr>]"
  have "utf8_valid ''(0x1F)''" by (rule utf8_valid_ascii) code_simp
  moreover have "lex ''(0x1F)'' = Inr ?toks" by code_simp
  ultimately show ?thesis
    using lex_spelling [of "''(0x1F)''" ?toks "\<lparr>tok_kind = Number ''0x1F'',
      tok_span = \<lparr>span_start = 1, span_end = 5\<rparr>\<rparr>"] by simp
qed

text \<open>Error spans: a lexical error points at an ordered range inside the source.\<close>

theorem lex_error_span:
  assumes "utf8_valid source" and "lex source = Inl (LexError msg sp)"
  shows "span_start sp \<le> span_end sp \<and> span_end sp \<le> length source"
  using lex_ok [OF assms(1)] assms(2) by (simp add: run_ok_def)

theorem lex_error_span_witness:
  "lex ''x /* y'' = Inl (LexError ''unterminated block comment'' \<lparr>span_start = 2, span_end = 6\<rparr>)
   \<and> (6::nat) \<le> length ''x /* y''"
proof -
  have v: "utf8_valid ''x /* y''" by (rule utf8_valid_ascii) code_simp
  have e: "lex ''x /* y''
      = Inl (LexError ''unterminated block comment'' \<lparr>span_start = 2, span_end = 6\<rparr>)"
    by code_simp
  from lex_error_span [OF v e] e show ?thesis by simp
qed

text \<open>
  C29. The lexer panics on no other input: if \<open>lex\<close> panics on a valid source, the source holds
  a complex raw string whose closing delimiter directly follows the line break after its
  opening delimiter.
\<close>

theorem lex_panic_only_degenerate:
  assumes "utf8_valid source" and "lex source = Inl LexPanic"
  shows "\<exists>before d nl after. source = before @ ''@('' @ d @ '')'' @ nl @ d @ after \<and> d \<noteq> []
    \<and> nl \<in> {[cr_char, nl_char], [cr_char], [nl_char]}"
  using lex_ok [OF assms(1)] assms(2) by (simp add: run_ok_def degenerate_raw_def)

theorem lex_panic_only_degenerate_witness:
  "lex (''@(X)'' @ [nl_char] @ ''X'') = Inl LexPanic \<and>
   (\<exists>before d nl after. ''@(X)'' @ [nl_char] @ ''X'' = before @ ''@('' @ d @ '')'' @ nl @ d @ after
     \<and> d \<noteq> [] \<and> nl \<in> {[cr_char, nl_char], [cr_char], [nl_char]})"
proof
  have v: "utf8_valid (''@(X)'' @ [nl_char] @ ''X'')" by (rule utf8_valid_ascii) code_simp
  show e: "lex (''@(X)'' @ [nl_char] @ ''X'') = Inl LexPanic" by code_simp
  show "\<exists>before d nl after. ''@(X)'' @ [nl_char] @ ''X'' = before @ ''@('' @ d @ '')'' @ nl @ d @ after
     \<and> d \<noteq> [] \<and> nl \<in> {[cr_char, nl_char], [cr_char], [nl_char]}"
    by (rule lex_panic_only_degenerate [OF v e])
qed

text \<open>
  C30. An empty complex raw string panics: for every delimiter without a closing parenthesis or
  leading line feed, \<open>lex\<close> panics on the literal whose body is one line break.
\<close>

theorem empty_complex_raw_string_panics:
  assumes "utf8_valid d" and "utf8_valid rest" and "d \<noteq> []" and "CHR '')'' \<notin> set d"
    and "hd d \<noteq> nl_char" and "nl \<in> {[cr_char, nl_char], [cr_char], [nl_char]}"
  shows "lex (''@('' @ d @ '')'' @ nl @ d @ rest) = Inl LexPanic"
proof -
  let ?src = "''@('' @ d @ '')'' @ nl @ d @ rest"
  let ?st = "(lexer_new ?src)\<lparr>lx_tokens := [\<lparr>tok_kind = LineStart 0 0,
    tok_span = \<lparr>span_start = 0, span_end = 0\<rparr>\<rparr>], lx_at_line_start := False\<rparr>"
  have "utf8_valid ''@(''" "utf8_valid '')''" "utf8_valid nl"
    using assms(6) by (auto simp: utf8_valid_ascii ascii_def byte_def)
  then have "utf8_valid ?src" using assms(1,2) by (intro utf8_valid_append)
  then have "text_ok ?st" by (simp add: text_ok_def remaining_def lexer_new_def)
  moreover have "remaining ?st = ?src" by (simp add: remaining_def lexer_new_def)
  ultimately have "lex_complex_raw_string ?st = Inl LexPanic"
    using assms(1,3-6) by (rule complex_raw_panics)
  then show ?thesis by (rule lex_at_complex_raw)
qed

theorem empty_complex_raw_string_panics_witness:
  "lex (''@('' @ ''END'' @ '')'' @ [nl_char] @ ''END'' @ '' more'') = Inl LexPanic"
  by (rule empty_complex_raw_string_panics) (simp_all add: utf8_valid_ascii ascii_def byte_def)

text \<open>
  Longest match: of the operators that match at the offset, \<open>lex_operator\<close> takes one of
  greatest length.
\<close>

theorem lex_operator_longest:
  assumes "lex_operator st = Inr st'" and "op \<in> set OPERATORS" and "starts_with (remaining st) op"
  shows "\<exists>chosen sp. lx_tokens st' = lx_tokens st @ [\<lparr>tok_kind = Operator chosen, tok_span = sp\<rparr>]
    \<and> starts_with (remaining st) chosen \<and> length op \<le> length chosen"
proof -
  obtain chosen where c: "find (starts_with (remaining st)) OPERATORS = Some chosen"
      "push_range (lx_offset st) (Operator chosen) (advance (length chosen) st) = Inr st'"
    using assms(1) by (auto simp: lex_operator_def split: option.splits)
  have "length op \<le> length chosen"
    by (rule find_first_longest [OF operators_longest_first c(1) assms(2,3)])
  moreover have "starts_with (remaining st) chosen" using c(1) by (auto simp: find_Some_iff)
  ultimately show ?thesis using c(2) by (auto simp: push_range_Inr)
qed

theorem lex_operator_longest_witness:
  "\<exists>chosen sp. [\<lparr>tok_kind = Operator ''>>='', tok_span = \<lparr>span_start = 0, span_end = 3\<rparr>\<rparr>]
      = [] @ [\<lparr>tok_kind = Operator chosen, tok_span = sp\<rparr>]
    \<and> starts_with ''>>=1'' chosen \<and> length ''>'' \<le> length chosen"
proof -
  have "lex_operator (lexer_new ''>>=1'') = Inr ((lexer_new ''>>=1'')\<lparr>lx_offset := 3,
      lx_tokens := [\<lparr>tok_kind = Operator ''>>='', tok_span = \<lparr>span_start = 0, span_end = 3\<rparr>\<rparr>]\<rparr>)"
    by code_simp
  from lex_operator_longest [OF this, of "''>''"] show ?thesis
    by (simp add: OPERATORS_def remaining_def lexer_new_def)
qed

end
