(* ===== verification/Vec.thy ===== *)
theory Vec
  imports Prelude "HOL-Library.Monad_Syntax"
begin

text \<open>
  Rust vectors as lists, with the panics of the standard library as \<open>None\<close>: an index out
  of range, a removal or insertion outside the vector, an inverted drain. The list and arena
  components thread this option through every operation, so a theorem that an operation
  returns \<open>Some\<close> says that it does not panic.
\<close>

section \<open>Operations\<close>

definition vec_get :: "'a list \<Rightarrow> nat \<Rightarrow> 'a option" where
  "vec_get xs i = (if i < length xs then Some (xs ! i) else None)"

definition vec_set :: "'a list \<Rightarrow> nat \<Rightarrow> 'a \<Rightarrow> 'a list option" where
  "vec_set xs i x = (if i < length xs then Some (xs[i := x]) else None)"

definition delete_at :: "nat \<Rightarrow> 'a list \<Rightarrow> 'a list" where
  "delete_at i xs = take i xs @ drop (Suc i) xs"

definition insert_at :: "nat \<Rightarrow> 'a \<Rightarrow> 'a list \<Rightarrow> 'a list" where
  "insert_at i x xs = take i xs @ x # drop i xs"

definition vec_remove :: "'a list \<Rightarrow> nat \<Rightarrow> ('a \<times> 'a list) option" where
  "vec_remove xs i = (if i < length xs then Some (xs ! i, delete_at i xs) else None)"

definition vec_insert :: "'a list \<Rightarrow> nat \<Rightarrow> 'a \<Rightarrow> 'a list option" where
  "vec_insert xs i x = (if i \<le> length xs then Some (insert_at i x xs) else None)"

definition vec_swap :: "'a list \<Rightarrow> nat \<Rightarrow> nat \<Rightarrow> 'a list option" where
  "vec_swap xs i j = (if i < length xs \<and> j < length xs then Some (xs[i := xs ! j, j := xs ! i])
     else None)"

text \<open>\<open>drain(a..b)\<close>: the drained elements and what is left.\<close>

definition vec_drain :: "'a list \<Rightarrow> nat \<Rightarrow> nat \<Rightarrow> ('a list \<times> 'a list) option" where
  "vec_drain xs a b = (if a \<le> b \<and> b \<le> length xs
     then Some (take (b - a) (drop a xs), take a xs @ drop b xs) else None)"

text \<open>\<open>xs[a..b]\<close>.\<close>

definition vec_slice :: "'a list \<Rightarrow> nat \<Rightarrow> nat \<Rightarrow> 'a list option" where
  "vec_slice xs a b = (if a \<le> b \<and> b \<le> length xs then Some (take (b - a) (drop a xs)) else None)"

text \<open>A loop that rewrites every element and panics where one of the steps panics.\<close>

primrec vec_each :: "('a \<Rightarrow> 'b option) \<Rightarrow> 'a list \<Rightarrow> 'b list option" where
  "vec_each f [] = Some []"
| "vec_each f (x # xs) = do { y \<leftarrow> f x; ys \<leftarrow> vec_each f xs; Some (y # ys) }"

text \<open>\<open>iter().position(p)\<close>: the index of the first element that satisfies \<open>p\<close>.\<close>

primrec vec_position :: "('a \<Rightarrow> bool) \<Rightarrow> 'a list \<Rightarrow> nat option" where
  "vec_position p [] = None"
| "vec_position p (x # xs) = (if p x then Some 0 else map_option Suc (vec_position p xs))"

section \<open>Laws\<close>

lemma bind_Some_iff [simp]: "Option.bind m f = Some y \<longleftrightarrow> (\<exists>x. m = Some x \<and> f x = Some y)"
  by (cases m) auto

lemma vec_get_Some [simp]: "i < length xs \<Longrightarrow> vec_get xs i = Some (xs ! i)"
  by (simp add: vec_get_def)

lemma vec_get_None [simp]: "length xs \<le> i \<Longrightarrow> vec_get xs i = None"
  by (simp add: vec_get_def)

lemma vec_get_iff: "vec_get xs i = Some x \<longleftrightarrow> i < length xs \<and> x = xs ! i"
  by (auto simp: vec_get_def)

lemma vec_set_Some [simp]: "i < length xs \<Longrightarrow> vec_set xs i x = Some (xs[i := x])"
  by (simp add: vec_set_def)

lemma vec_remove_Some [simp]: "i < length xs \<Longrightarrow> vec_remove xs i = Some (xs ! i, delete_at i xs)"
  by (simp add: vec_remove_def)

lemma vec_insert_Some [simp]: "i \<le> length xs \<Longrightarrow> vec_insert xs i x = Some (insert_at i x xs)"
  by (simp add: vec_insert_def)

lemma length_delete_at [simp]: "i < length xs \<Longrightarrow> length (delete_at i xs) = length xs - 1"
  by (simp add: delete_at_def)

lemma length_insert_at [simp]: "i \<le> length xs \<Longrightarrow> length (insert_at i x xs) = Suc (length xs)"
  by (simp add: insert_at_def)

lemma nth_delete_at:
  "i < length xs \<Longrightarrow> j < length xs - 1 \<Longrightarrow>
   delete_at i xs ! j = (if j < i then xs ! j else xs ! Suc j)"
  by (simp add: delete_at_def nth_append)

lemma nth_insert_at:
  "i \<le> length xs \<Longrightarrow> j \<le> length xs \<Longrightarrow>
   insert_at i x xs ! j = (if j < i then xs ! j else if j = i then x else xs ! (j - 1))"
  by (auto simp: insert_at_def nth_append nth_Cons')

lemma map_delete_at [list_view]: "map f (delete_at i xs) = delete_at i (map f xs)"
  by (simp add: delete_at_def take_map drop_map)

lemma map_insert_at [list_view]: "map f (insert_at i x xs) = insert_at i (f x) (map f xs)"
  by (simp add: insert_at_def take_map drop_map)

lemma set_delete_at_subset: "set (delete_at i xs) \<subseteq> set xs"
  by (auto simp: delete_at_def dest: in_set_takeD in_set_dropD)

lemma set_delete_at_distinct:
  assumes "distinct xs" "i < length xs"
  shows "set (delete_at i xs) = set xs - {xs ! i}"
proof -
  have "distinct (take i xs @ xs ! i # drop (Suc i) xs)"
    using assms by (simp add: id_take_nth_drop [symmetric])
  moreover have "set xs = set (take i xs @ xs ! i # drop (Suc i) xs)"
    using assms(2) by (metis id_take_nth_drop)
  ultimately show ?thesis by (auto simp: delete_at_def)
qed

lemma distinct_delete_at: "distinct xs \<Longrightarrow> distinct (delete_at i xs)"
  using set_take_disj_set_drop_if_distinct [of xs i "Suc i"] by (simp add: delete_at_def)

lemma set_insert_at: "i \<le> length xs \<Longrightarrow> set (insert_at i x xs) = insert x (set xs)"
  using append_take_drop_id [of i xs] set_append [of "take i xs" "drop i xs"]
  by (simp add: insert_at_def)

lemma distinct_insert_at:
  "distinct xs \<Longrightarrow> x \<notin> set xs \<Longrightarrow> distinct (insert_at i x xs)"
  using set_take_disj_set_drop_if_distinct [of xs i i]
  by (auto simp: insert_at_def dest: in_set_takeD in_set_dropD)

lemma vec_each_map:
  "(\<And>x. x \<in> set xs \<Longrightarrow> f x = Some (g x)) \<Longrightarrow> vec_each f xs = Some (map g xs)"
  by (induction xs) auto

lemma vec_position_Some_iff:
  "vec_position p xs = Some i \<longleftrightarrow> i < length xs \<and> p (xs ! i) \<and> (\<forall>j < i. \<not> p (xs ! j))"
proof (induction xs arbitrary: i)
  case (Cons x xs)
  then show ?case by (cases i) (auto simp: All_less_Suc2)
qed simp

lemma vec_position_None_iff: "vec_position p xs = None \<longleftrightarrow> (\<forall>x \<in> set xs. \<not> p x)"
  by (induction xs) auto

end
