(* ===== verification/Arena.thy ===== *)
theory Arena
  imports Vec Value
begin

text \<open>
  \<open>Arena\<close> of \<open>crates/dm-value/src/lib.rs\<close>: generational slots in fixed-size chunks, with a free
  list. A handle is a slot index and a generation; removing a value raises the generation of its
  slot, so an old handle no longer resolves, and a slot whose generation cannot rise is retired.
  A panic is \<open>None\<close>; \<open>debug_assert\<close> is left out. The telemetry of \<open>stats\<close> is the record fields.
\<close>

section \<open>Slots and chunks\<close>

record 'a arena_slot =
  slot_generation :: u32
  slot_value :: "'a option"

record 'a arena =
  chunks :: "'a arena_slot list list"
  slot_len :: nat
  free_slots :: "u32 list"
  live :: nat

definition ARENA_CHUNK_SLOTS :: nat where "ARENA_CHUNK_SLOTS = 16 * 1024"

definition arena_new :: "'a arena" where
  "arena_new = \<lparr>chunks = [], slot_len = 0, free_slots = [], live = 0\<rparr>"

definition arena_slot_at :: "'a arena \<Rightarrow> nat \<Rightarrow> 'a arena_slot option" where
  "arena_slot_at a index = do {
     chunk \<leftarrow> vec_get (chunks a) (index div ARENA_CHUNK_SLOTS);
     vec_get chunk (index mod ARENA_CHUNK_SLOTS) }"

text \<open>Writing through \<open>slot_mut\<close>.\<close>

definition arena_slot_write :: "nat \<Rightarrow> 'a arena_slot \<Rightarrow> 'a arena \<Rightarrow> 'a arena option" where
  "arena_slot_write index s a = do {
     chunk \<leftarrow> vec_get (chunks a) (index div ARENA_CHUNK_SLOTS);
     chunk' \<leftarrow> vec_set chunk (index mod ARENA_CHUNK_SLOTS) s;
     cs \<leftarrow> vec_set (chunks a) (index div ARENA_CHUNK_SLOTS) chunk';
     Some (a\<lparr>chunks := cs\<rparr>) }"

text \<open>A new chunk when there is none or the last one is full, then the slot.\<close>

definition push_chunked :: "'s \<Rightarrow> 's list list \<Rightarrow> 's list list" where
  "push_chunked s cs = (let cs' = (if cs = [] \<or> length (last cs) = ARENA_CHUNK_SLOTS
       then cs @ [[]] else cs) in butlast cs' @ [last cs' @ [s]])"

definition push_snapshot_slot :: "u32 \<Rightarrow> 'a option \<Rightarrow> 'a arena \<Rightarrow> 'a arena" where
  "push_snapshot_slot generation v a =
     a\<lparr>chunks := push_chunked \<lparr>slot_generation = generation, slot_value = v\<rparr> (chunks a),
       live := live a + (if v = None then 0 else 1), slot_len := slot_len a + 1\<rparr>"

section \<open>Operations\<close>

definition arena_insert :: "'a \<Rightarrow> 'a arena \<Rightarrow> ((u32 \<times> u32) \<times> 'a arena) option" where
  "arena_insert v a0 = (let a = a0\<lparr>live := live a0 + 1\<rparr> in
     if free_slots a \<noteq> []
     then let index = last (free_slots a); a = a\<lparr>free_slots := butlast (free_slots a)\<rparr> in do {
       s \<leftarrow> arena_slot_at a (unat index);
       a' \<leftarrow> arena_slot_write (unat index) (s\<lparr>slot_value := Some v\<rparr>) a;
       Some ((index, slot_generation s), a') }
     else if u32_max < slot_len a then None
     else Some ((of_nat (slot_len a), 0),
       a\<lparr>chunks := push_chunked \<lparr>slot_generation = 0, slot_value = Some v\<rparr> (chunks a),
         slot_len := slot_len a + 1\<rparr>))"

definition arena_get :: "'a arena \<Rightarrow> u32 \<Rightarrow> u32 \<Rightarrow> 'a option" where
  "arena_get a index generation = do {
     s \<leftarrow> arena_slot_at a (unat index);
     (if slot_generation s = generation then slot_value s else None) }"

text \<open>Mutation through \<open>get_mut\<close>: the value the borrow leaves behind.\<close>

definition arena_modify :: "u32 \<Rightarrow> u32 \<Rightarrow> ('a \<Rightarrow> 'a) \<Rightarrow> 'a arena \<Rightarrow> 'a arena option" where
  "arena_modify index generation f a = do {
     s \<leftarrow> arena_slot_at a (unat index);
     v \<leftarrow> (if slot_generation s = generation then slot_value s else None);
     arena_slot_write (unat index) (s\<lparr>slot_value := Some (f v)\<rparr>) a }"

definition arena_remove :: "u32 \<Rightarrow> u32 \<Rightarrow> 'a arena \<Rightarrow> ('a option \<times> 'a arena) option" where
  "arena_remove index generation a = (case arena_slot_at a (unat index) of
       None \<Rightarrow> Some (None, a)
     | Some s \<Rightarrow>
         if slot_generation s \<noteq> generation then Some (None, a)
         else (case slot_value s of
             None \<Rightarrow> Some (None, a)
           | Some v \<Rightarrow>
               let reusable = slot_generation s \<noteq> 0xFFFFFFFF;
                   s' = s\<lparr>slot_value := None, slot_generation :=
                     (if reusable then slot_generation s + 1 else slot_generation s)\<rparr> in do {
                 a' \<leftarrow> arena_slot_write (unat index) s' a;
                 (if live a' = 0 then None
                  else Some (Some v, a'\<lparr>live := live a' - 1,
                    free_slots := (if reusable then free_slots a' @ [index] else free_slots a')\<rparr>)) }))"

text \<open>The live values with their handles; indexes past \<open>u32::MAX\<close> are skipped.\<close>

definition arena_iter :: "'a arena \<Rightarrow> (u32 \<times> u32 \<times> 'a) list" where
  "arena_iter a = List.map_filter (\<lambda>(index, s).
       if u32_max < index then None
       else map_option (\<lambda>v. (of_nat index, slot_generation s, v)) (slot_value s))
     (concat (map (\<lambda>(chunk_index, chunk).
         map (\<lambda>(offset, s). (chunk_index * ARENA_CHUNK_SLOTS + offset, s))
           (zip [0..<length chunk] chunk))
       (zip [0..<length (chunks a)] (chunks a))))"

definition arena_live_generation :: "'a arena \<Rightarrow> u32 \<Rightarrow> u32 option" where
  "arena_live_generation a index = do {
     s \<leftarrow> arena_slot_at a (unat index);
     map_option (\<lambda>_. slot_generation s) (slot_value s) }"

definition arena_len :: "'a arena \<Rightarrow> nat" where
  "arena_len a = live a"

text \<open>
  One round of the sweep over the slots: a marked slot's value is visited, an unmarked one's is
  removed. The visitor of the collector may panic; it sees the index as well, which stands for
  what it learns from the value's storage beyond the value itself (whether it is shared).
\<close>

definition sweep_slot :: "bool list \<Rightarrow> (nat \<Rightarrow> 'a \<Rightarrow> 'a option) \<Rightarrow> nat \<Rightarrow> nat \<times> 'a arena
    \<Rightarrow> (nat \<times> 'a arena) option" where
  "sweep_slot marked visit index st = (case st of (reclaimed, a) \<Rightarrow> do {
     m \<leftarrow> vec_get marked index;
     (case arena_slot_at a index of
        None \<Rightarrow> Some (reclaimed, a)
      | Some s \<Rightarrow> (case slot_value s of
          None \<Rightarrow> Some (reclaimed, a)
        | Some v \<Rightarrow>
            if m then do {
              v' \<leftarrow> visit index v;
              a' \<leftarrow> arena_slot_write index (s\<lparr>slot_value := Some v'\<rparr>) a;
              Some (reclaimed, a') }
            else if u32_max < index then None
            else do {
              (r, a') \<leftarrow> arena_remove (of_nat index) (slot_generation s) a;
              Some (if r = None then reclaimed else reclaimed + 1, a') })) })"

primrec sweep_slots :: "bool list \<Rightarrow> (nat \<Rightarrow> 'a \<Rightarrow> 'a option) \<Rightarrow> nat list \<Rightarrow> nat \<times> 'a arena
    \<Rightarrow> (nat \<times> 'a arena) option" where
  "sweep_slots marked visit [] st = Some st"
| "sweep_slots marked visit (index # rest) st = do {
     st' \<leftarrow> sweep_slot marked visit index st; sweep_slots marked visit rest st' }"

definition sweep_unmarked_with :: "bool list \<Rightarrow> (nat \<Rightarrow> 'a \<Rightarrow> 'a option) \<Rightarrow> 'a arena \<Rightarrow> (nat \<times> 'a arena) option" where
  "sweep_unmarked_with marked visit a = sweep_slots marked visit [0..<slot_len a] (0, a)"

section \<open>Restoring from a snapshot\<close>

text \<open>The free list must name vacant slots, each once.\<close>

primrec check_free :: "string \<Rightarrow> 'a option list \<Rightarrow> u32 list \<Rightarrow> bool list \<Rightarrow> value_error + bool list" where
  "check_free kind vs [] seen = Inr seen"
| "check_free kind vs (index # rest) seen =
     (if length vs \<le> unat index \<or> seen ! unat index \<or> vs ! unat index \<noteq> None
      then Inl (CorruptHeapSnapshot (kind @ '' free list contains invalid slot '' @ decimal (unat index)))
      else check_free kind vs rest (seen[unat index := True]))"

text \<open>Every vacant slot that is not retired must be on it.\<close>

primrec check_vacant :: "string \<Rightarrow> bool list \<Rightarrow> nat \<Rightarrow> (u32 \<times> 'a option) list \<Rightarrow> value_error + unit" where
  "check_vacant kind seen index [] = Inr ()"
| "check_vacant kind seen index (slot # rest) =
     (if snd slot = None \<and> fst slot \<noteq> 0xFFFFFFFF \<and> \<not> seen ! index
      then Inl (CorruptHeapSnapshot
        (kind @ '' vacant slot '' @ decimal index @ '' is absent from its free list''))
      else check_vacant kind seen (Suc index) rest)"

fun chunked_from :: "nat \<Rightarrow> 's list \<Rightarrow> 's list list" where
  "chunked_from n [] = []"
| "chunked_from n (x # xs) = take (Suc n) (x # xs) # chunked_from n (drop (Suc n) (x # xs))"

definition arena_from_snapshot_slots :: "(u32 \<times> 'a option) list \<Rightarrow> u32 list \<Rightarrow> string
    \<Rightarrow> value_error + 'a arena" where
  "arena_from_snapshot_slots ss free kind =
     res_bind (check_free kind (map snd ss) free (replicate (length ss) False)) (\<lambda>seen.
     res_bind (check_vacant kind seen 0 ss) (\<lambda>_.
       Inr \<lparr>chunks = chunked_from (ARENA_CHUNK_SLOTS - 1)
              (map (\<lambda>(g, v). \<lparr>slot_generation = g, slot_value = v\<rparr>) ss),
            slot_len = length ss, free_slots = free,
            live = length (filter (\<lambda>s. snd s \<noteq> None) ss)\<rparr>))"

text \<open>The same checks on an arena filled slot by slot.\<close>

definition arena_slots :: "'a arena \<Rightarrow> 'a arena_slot list" where
  "arena_slots a = concat (chunks a)"

definition install_snapshot_free :: "u32 list \<Rightarrow> string \<Rightarrow> 'a arena \<Rightarrow> value_error + 'a arena" where
  "install_snapshot_free free kind a =
     (let ss = map (\<lambda>s. (slot_generation s, slot_value s)) (arena_slots a) in
      res_bind (check_free kind (map snd ss) free (replicate (slot_len a) False)) (\<lambda>seen.
      res_bind (check_vacant kind seen 0 ss) (\<lambda>_. Inr (a\<lparr>free_slots := free\<rparr>))))"

end
