(* ===== verification/Datum.thy ===== *)
theory Datum
  imports Vec Value "HOL-Library.AList"
begin

text \<open>
  \<open>Datum\<close> of \<open>crates/dm-value/src/lib.rs\<close>: a type path and the materialised fields, in first
  declaration order. The fields are one vector of pairs, or a vector of values beside a name
  vector shared between datums; from sixteen fields on a hash index from names to positions is
  kept. The cache of layouts compacts a datum when its initialisation ends. \<open>Arc\<close> sharing is by
  value here: copy on write never shows. A panic is \<open>None\<close>.
\<close>

section \<open>Fields\<close>

datatype datum_fields =
    OwnedFields "(string \<times> dm_value) list"
  | SharedFields "string list" "dm_value list"

record datum =
  datum_type :: string
  datum_fields :: datum_fields
  field_index :: "(string \<rightharpoonup> nat) option"

record datum_defaults =
  defaults_type :: string
  defaults_fields :: "(string \<times> dm_value) list"

definition DATUM_FIELD_INDEX_THRESHOLD :: nat where "DATUM_FIELD_INDEX_THRESHOLD = 16"

fun fields_len :: "datum_fields \<Rightarrow> nat" where
  "fields_len (OwnedFields fs) = length fs"
| "fields_len (SharedFields ns vs) = length vs"

fun fields_value :: "nat \<Rightarrow> datum_fields \<Rightarrow> dm_value option" where
  "fields_value i (OwnedFields fs) = map_option snd (vec_get fs i)"
| "fields_value i (SharedFields ns vs) = vec_get vs i"

fun fields_name :: "nat \<Rightarrow> datum_fields \<Rightarrow> string option" where
  "fields_name i (OwnedFields fs) = map_option fst (vec_get fs i)"
| "fields_name i (SharedFields ns vs) = vec_get ns i"

text \<open>A write through \<open>value_mut\<close>.\<close>

fun fields_set_value :: "nat \<Rightarrow> dm_value \<Rightarrow> datum_fields \<Rightarrow> datum_fields option" where
  "fields_set_value i v (OwnedFields fs) = do {
     (n, _) \<leftarrow> vec_get fs i; fs' \<leftarrow> vec_set fs i (n, v); Some (OwnedFields fs') }"
| "fields_set_value i v (SharedFields ns vs) = do {
     vs' \<leftarrow> vec_set vs i v; Some (SharedFields ns vs') }"

fun fields_position :: "string \<Rightarrow> datum_fields \<Rightarrow> nat option" where
  "fields_position name (OwnedFields fs) = vec_position (\<lambda>f. fst f = name) fs"
| "fields_position name (SharedFields ns vs) = vec_position (\<lambda>n. n = name) ns"

fun fields_names :: "datum_fields \<Rightarrow> string list" where
  "fields_names (OwnedFields fs) = map fst fs"
| "fields_names (SharedFields ns vs) = ns"

text \<open>The iterator stops at the first index one of the vectors lacks.\<close>

fun fields_iter :: "datum_fields \<Rightarrow> (string \<times> dm_value) list" where
  "fields_iter (OwnedFields fs) = fs"
| "fields_iter (SharedFields ns vs) = zip ns vs"

fun materialize_owned :: "datum_fields \<Rightarrow> (string \<times> dm_value) list" where
  "materialize_owned (OwnedFields fs) = fs"
| "materialize_owned (SharedFields ns vs) = zip ns vs"

fun share_names :: "string list \<Rightarrow> datum_fields \<Rightarrow> datum_fields" where
  "share_names names (SharedFields ns vs) = SharedFields names vs"
| "share_names names (OwnedFields fs) = SharedFields names (map snd fs)"

definition fields_eq :: "datum_fields \<Rightarrow> datum_fields \<Rightarrow> bool" where
  "fields_eq a b \<longleftrightarrow> fields_len a = fields_len b
     \<and> list_all (\<lambda>((n, v), (m, w)). n = m \<and> semantic_eq v w) (zip (fields_iter a) (fields_iter b))"

definition datum_new :: "string \<Rightarrow> datum" where
  "datum_new path = \<lparr>datum_type = path, datum_fields = OwnedFields [], field_index = None\<rparr>"

definition datum_eq :: "datum \<Rightarrow> datum \<Rightarrow> bool" where
  "datum_eq a b \<longleftrightarrow> datum_type a = datum_type b \<and> fields_eq (datum_fields a) (datum_fields b)"

section \<open>Reading\<close>

definition field_slot :: "string \<Rightarrow> datum \<Rightarrow> nat option" where
  "field_slot name d = (case field_index d of
       Some index \<Rightarrow> index name
     | None \<Rightarrow> fields_position name (datum_fields d))"

text \<open>The outer option is the panic of an index beyond the fields.\<close>

definition field_optional :: "string \<Rightarrow> datum \<Rightarrow> dm_value option option" where
  "field_optional name d = (case field_slot name d of
       None \<Rightarrow> Some None
     | Some i \<Rightarrow> do { v \<leftarrow> fields_value i (datum_fields d); Some (Some v) })"

definition datum_read :: "string \<Rightarrow> datum \<Rightarrow> (value_error + dm_value) option" where
  "datum_read name d = do {
     r \<leftarrow> field_optional name d;
     Some (case r of None \<Rightarrow> Inl (MissingField name) | Some v \<Rightarrow> Inr v) }"

definition field_at_validated_slot :: "nat \<Rightarrow> string \<Rightarrow> datum \<Rightarrow> dm_value option option" where
  "field_at_validated_slot slot name d =
     (if fields_len (datum_fields d) \<le> slot then Some None
      else do {
        n \<leftarrow> fields_name slot (datum_fields d);
        if n = name then do { v \<leftarrow> fields_value slot (datum_fields d); Some (Some v) }
        else Some None })"

section \<open>Writing\<close>

definition layout_index :: "string list \<Rightarrow> (string \<rightharpoonup> nat)" where
  "layout_index names = foldl (\<lambda>m (index, name). m(name \<mapsto> index)) Map.empty (zip [0..<length names] names)"

definition build_field_index :: "datum \<Rightarrow> datum" where
  "build_field_index d = d\<lparr>field_index := Some (layout_index (fields_names (datum_fields d)))\<rparr>"

text \<open>Replacing the first field of the name, or appending one.\<close>

fun set_named_field :: "(string \<times> dm_value) list \<Rightarrow> string \<Rightarrow> dm_value
    \<Rightarrow> dm_value option \<times> (string \<times> dm_value) list" where
  "set_named_field [] name v = (None, [(name, v)])"
| "set_named_field ((n, w) # fs) name v =
     (if n = name then (Some w, (n, v) # fs)
      else let (r, fs') = set_named_field fs name v in (r, (n, w) # fs'))"

definition set_field :: "string \<Rightarrow> dm_value \<Rightarrow> datum \<Rightarrow> (dm_value option \<times> datum) option" where
  "set_field name v d = (case field_index d of
       Some index \<Rightarrow> (case index name of
           Some i \<Rightarrow> do {
             previous \<leftarrow> fields_value i (datum_fields d);
             fs \<leftarrow> fields_set_value i v (datum_fields d);
             Some (Some previous, d\<lparr>datum_fields := fs\<rparr>) }
         | None \<Rightarrow> Some (None, d\<lparr>
             datum_fields := OwnedFields (materialize_owned (datum_fields d) @ [(name, v)]),
             field_index := Some (index(name \<mapsto> fields_len (datum_fields d)))\<rparr>))
     | None \<Rightarrow>
         let (previous, fs) = set_named_field (materialize_owned (datum_fields d)) name v;
             d' = d\<lparr>datum_fields := OwnedFields fs\<rparr>
         in Some (previous,
              if previous = None \<and> length fs = DATUM_FIELD_INDEX_THRESHOLD
              then build_field_index d' else d'))"

definition delete_field :: "string \<Rightarrow> datum \<Rightarrow> (dm_value option \<times> datum) option" where
  "delete_field name d = (case field_slot name d of
       None \<Rightarrow> Some (None, d)
     | Some index \<Rightarrow> do {
         ((_, v), fs) \<leftarrow> vec_remove (materialize_owned (datum_fields d)) index;
         let index_map = map_option (\<lambda>m. m(name := None)) (field_index d);
         Some (Some v, d\<lparr>datum_fields := OwnedFields fs, field_index :=
           (if length fs < DATUM_FIELD_INDEX_THRESHOLD then None
            else map_option (\<lambda>m. foldl (\<lambda>m (offset, f). m(fst f \<mapsto> index + offset)) m
                 (zip [0..<length (drop index fs)] (drop index fs))) index_map)\<rparr>) })"

primrec apply_default_fields :: "(string \<times> dm_value) list \<Rightarrow> datum \<Rightarrow> datum option" where
  "apply_default_fields [] d = Some d"
| "apply_default_fields (f # fs) d = do {
     (_, d') \<leftarrow> set_field (fst f) (snd f) d; apply_default_fields fs d' }"

definition apply_defaults :: "datum_defaults \<Rightarrow> datum \<Rightarrow> datum option" where
  "apply_defaults defaults d = apply_default_fields (defaults_fields defaults) d"

definition datum_iter :: "datum \<Rightarrow> (string \<times> dm_value) list" where
  "datum_iter d = fields_iter (datum_fields d)"

definition defaults_set :: "string \<Rightarrow> dm_value \<Rightarrow> datum_defaults \<Rightarrow> dm_value option \<times> datum_defaults" where
  "defaults_set name v ds = (let (r, fs) = set_named_field (defaults_fields ds) name v
     in (r, ds\<lparr>defaults_fields := fs\<rparr>))"

section \<open>The layout cache\<close>

record cached_layout =
  cached_names :: "string list"
  cached_index :: "(string \<rightharpoonup> nat) option"

record layout_cache =
  by_type :: "string \<rightharpoonup> cached_layout list"
  cache_entries :: nat

definition DATUM_LAYOUT_CACHE_MAX_ENTRIES :: nat where "DATUM_LAYOUT_CACHE_MAX_ENTRIES = 65536"
definition DATUM_LAYOUT_CACHE_MAX_VARIANTS_PER_TYPE :: nat where
  "DATUM_LAYOUT_CACHE_MAX_VARIANTS_PER_TYPE = 8"

definition layout_cache_new :: layout_cache where
  "layout_cache_new = \<lparr>by_type = Map.empty, cache_entries = 0\<rparr>"

fun is_shared :: "datum_fields \<Rightarrow> bool" where
  "is_shared (SharedFields ns vs) = True"
| "is_shared (OwnedFields fs) = False"

definition layout_matches :: "datum \<Rightarrow> cached_layout \<Rightarrow> bool" where
  "layout_matches d layout \<longleftrightarrow> length (cached_names layout) = fields_len (datum_fields d)
     \<and> list_all (\<lambda>(l, r). l = r) (zip (cached_names layout) (fields_names (datum_fields d)))"

definition compact_layout :: "datum \<Rightarrow> layout_cache \<Rightarrow> datum \<times> layout_cache" where
  "compact_layout d cache =
     (if fields_len (datum_fields d) = 0 \<or> is_shared (datum_fields d) then (d, cache)
      else (case Option.bind (by_type cache (datum_type d)) (List.find (layout_matches d)) of
          Some layout \<Rightarrow>
            (d\<lparr>field_index := cached_index layout,
               datum_fields := share_names (cached_names layout) (datum_fields d)\<rparr>, cache)
        | None \<Rightarrow>
            let names = fields_names (datum_fields d);
                layouts = (case by_type cache (datum_type d) of Some ls \<Rightarrow> ls | None \<Rightarrow> []);
                layout = \<lparr>cached_names = names, cached_index = field_index d\<rparr>;
                room = cache_entries cache < DATUM_LAYOUT_CACHE_MAX_ENTRIES
                  \<and> length layouts < DATUM_LAYOUT_CACHE_MAX_VARIANTS_PER_TYPE
            in (d\<lparr>datum_fields := share_names names (datum_fields d)\<rparr>,
                cache\<lparr>by_type := (by_type cache)(datum_type d \<mapsto>
                    if room then layouts @ [layout] else layouts),
                  cache_entries := (if room then cache_entries cache + 1 else cache_entries cache)\<rparr>)))"

text \<open>
  The collector's visit of a retained datum: what is left of \<open>compact_and_measure_for_gc\<close> once
  capacities and telemetry are put aside. The interner hands back an index it has compared name
  by name with the layout, and the names of that layout.
\<close>

definition gc_compact_datum :: "datum \<Rightarrow> datum" where
  "gc_compact_datum d =
     (if field_index d \<noteq> None \<or> fields_len (datum_fields d) \<noteq> 0
      then d\<lparr>datum_fields := share_names (fields_names (datum_fields d)) (datum_fields d)\<rparr>
      else d)"

end
