(* ===== verification/Fenwick.thy ===== *)
theory Fenwick
  imports Vec
begin

text \<open>
  The Fenwick tree of \<open>PositionalRemoveIndex\<close> (\<open>crates/dm-value/src/lib.rs\<close>): how many of
  the original positions before a given one have been removed. \<open>removed_before\<close> walks down
  by clearing the lowest set bit, \<open>mark_removed\<close> walks up by adding it; the laws show that
  the two walks meet in exactly one node, so the tree counts.
\<close>

section \<open>The two walks\<close>

lemma and_minus_one_less: "0 < n \<Longrightarrow> n AND (n - Suc 0) < (n :: nat)"
proof -
  assume "0 < n"
  have "n AND (n - Suc 0) \<le> n - Suc 0"
    by (simp add: and_nat_def nat_le_iff)
  with \<open>0 < n\<close> show ?thesis by linarith
qed

function removed_before_loop :: "nat list \<Rightarrow> nat \<Rightarrow> nat \<Rightarrow> nat option" where
  "removed_before_loop removed tally cursor =
     (if cursor = 0 then Some tally
      else do { r \<leftarrow> vec_get removed cursor;
                removed_before_loop removed (tally + r) (cursor AND (cursor - 1)) })"
  by pat_completeness auto
termination removed_before_loop
  by (relation "measure (\<lambda>(removed, tally, cursor). cursor)") (auto simp: and_minus_one_less)

declare removed_before_loop.simps [simp del]

definition removed_before :: "nat list \<Rightarrow> nat \<Rightarrow> nat option" where
  "removed_before removed original = removed_before_loop removed 0 original"

text \<open>
  \<open>cursor & cursor.wrapping_neg()\<close> on a 64-bit \<open>usize\<close>. At a cursor of zero the loop of
  \<open>mark_removed\<close> would not advance; it starts at \<open>original + 1\<close>.
\<close>

definition lowest_bit :: "nat \<Rightarrow> nat" where
  "lowest_bit cursor = unat ((of_nat cursor :: u64) AND - of_nat cursor)"

partial_function (option) mark_loop :: "nat \<Rightarrow> nat list \<Rightarrow> nat list option" where
  "mark_loop cursor removed =
     (if cursor < length removed
      then mark_loop (cursor + lowest_bit cursor) (removed[cursor := removed ! cursor + 1])
      else Some removed)"

definition mark_removed :: "nat list \<Rightarrow> nat \<Rightarrow> nat list option" where
  "mark_removed removed original = mark_loop (original + 1) removed"

section \<open>The lowest set bit\<close>

fun lowbit :: "nat \<Rightarrow> nat" where
  "lowbit n = (if n = 0 then 0 else if odd n then 1 else 2 * lowbit (n div 2))"

declare lowbit.simps [simp del]

lemma lowbit_0 [simp]: "lowbit 0 = 0" by (simp add: lowbit.simps)
lemma lowbit_odd: "odd n \<Longrightarrow> lowbit n = 1"
  by (subst lowbit.simps) (auto intro: odd_pos)
lemma lowbit_double: "lowbit (2 * n) = 2 * lowbit n"
  by (cases "n = 0") (simp_all add: lowbit.simps [of "2 * n"])

lemma lowbit_pos: "0 < n \<Longrightarrow> 0 < lowbit n"
proof (induction n rule: lowbit.induct)
  case (1 n)
  then show ?case by (cases "odd n") (auto simp: lowbit_odd lowbit_double elim!: evenE)
qed

lemma lowbit_le: "lowbit n \<le> n"
proof (induction n rule: lowbit.induct)
  case (1 n)
  show ?case
  proof (cases "odd n")
    case True
    then show ?thesis by (simp add: lowbit_odd odd_pos Suc_leI)
  next
    case False
    then obtain m where "n = 2 * m" by (auto elim: evenE)
    with 1 False show ?thesis by (cases "n = 0") (auto simp: lowbit_double)
  qed
qed

lemma and_minus_one: "0 < n \<Longrightarrow> n AND (n - 1) = n - lowbit n"
proof (induction n rule: lowbit.induct)
  case (1 n)
  show ?case
  proof (cases "odd n")
    case True
    then have "n AND (n - 1) = 2 * ((n div 2) AND (n div 2))"
      by (subst and_rec) (auto elim!: oddE)
    with True show ?thesis by (auto simp: lowbit_odd elim!: oddE)
  next
    case False
    then obtain m where m: "n = 2 * m" "0 < m" using 1 by (auto elim!: evenE)
    have "(2 * m - Suc 0) div 2 = m - 1" using m by linarith
    then have "n AND (n - 1) = 2 * (m AND (m - 1))"
      using m by (subst and_rec) simp
    also have "\<dots> = 2 * (m - lowbit m)" using 1 False m by simp
    finally show ?thesis by (simp add: m lowbit_double right_diff_distrib')
  qed
qed

lemma lowest_bit_lowbit:
  assumes "0 < n" "n < 2 ^ 64"
  shows "lowest_bit n = lowbit n"
proof -
  let ?w = "of_nat n :: u64"
  have u: "unat ?w = n" using assms(2) by (simp add: unsigned_of_nat take_bit_nat_eq_self)
  have minus: "- ?w = NOT (?w - 1)" by (simp add: minus_eq_not_minus_1)
  have "(?w AND (?w - 1)) + (?w AND NOT (?w - 1)) = ?w"
    by (subst disjunctive_add_eq_or) (auto simp: bit_eq_iff bit_simps)
  then have "?w AND - ?w = ?w - (?w AND (?w - 1))"
    by (simp only: minus) (metis add_diff_cancel_left')
  moreover have one: "1 \<le> ?w" using assms(1) u by (simp add: word_le_nat_alt)
  have v: "unat (?w AND (?w - 1)) = n AND (n - 1)"
    using one u by (simp add: unsigned_and_eq unat_sub)
  moreover have "?w AND (?w - 1) \<le> ?w" by (metis and.commute word_and_le1)
  ultimately have "lowest_bit n = n - (n AND (n - 1))"
    by (simp add: lowest_bit_def unat_sub u v)
  then show ?thesis using and_minus_one [OF assms(1)] lowbit_le [of n] by simp
qed

section \<open>The nodes that cover a position\<close>

text \<open>Node \<open>i\<close> sums the positions \<open>i - lowbit i < j \<le> i\<close>.\<close>

definition covers :: "nat \<Rightarrow> nat \<Rightarrow> bool" where
  "covers i j \<longleftrightarrow> i - lowbit i < j \<and> j \<le> i"

lemma covers_self: "0 < i \<Longrightarrow> covers i i"
  using lowbit_pos [of i] by (simp add: covers_def)

lemma covers_odd: "odd i \<Longrightarrow> covers i j \<longleftrightarrow> j = i"
  by (cases "j = i") (auto simp: covers_def lowbit_odd odd_pos)

lemma covers_double: "0 < i \<Longrightarrow> covers (2 * i) (2 * j) \<longleftrightarrow> covers i j"
  using lowbit_le [of i] by (auto simp: covers_def lowbit_double)

lemma covers_double_odd: "0 < i \<Longrightarrow> covers (2 * i) (2 * j + 1) \<longleftrightarrow> covers i (j + 1)"
  using lowbit_le [of i] lowbit_pos [of i] by (auto simp: covers_def lowbit_double)

text \<open>The walk up visits exactly the nodes that cover its start.\<close>

lemma covers_step:
  assumes "0 < j" "j < i"
  shows "covers i j \<longleftrightarrow> covers i (j + lowbit j)"
  using assms
proof (induction j arbitrary: i rule: lowbit.induct)
  case (1 j)
  show ?case
  proof (cases "odd i")
    case True
    moreover have "j + lowbit j \<noteq> i" if "even j"
    proof -
      from that 1 obtain m where "j = 2 * m" by (auto elim: evenE)
      then have "even (j + lowbit j)" by (simp add: lowbit_double)
      with True show ?thesis by auto
    qed
    ultimately show ?thesis using 1 by (cases "odd j") (auto simp: covers_odd lowbit_odd)
  next
    case False
    then obtain a where a: "i = 2 * a" "0 < a" using 1 by (auto elim!: evenE)
    show ?thesis
    proof (cases "odd j")
      case True
      then obtain b where b: "j = 2 * b + 1" by (auto elim: oddE)
      have "j + lowbit j = 2 * (b + 1)" using True by (simp add: lowbit_odd b)
      then show ?thesis
        by (simp only: a b covers_double_odd covers_double)
    next
      case False
      then obtain b where b: "j = 2 * b" "0 < b" using 1 by (auto elim!: evenE)
      have "j + lowbit j = 2 * (b + lowbit b)" by (simp add: b lowbit_double)
      moreover have "covers a b \<longleftrightarrow> covers a (b + lowbit b)"
        using 1 a b False by simp
      ultimately show ?thesis by (simp only: a b covers_double)
    qed
  qed
qed

lemma mark_loop_covers:
  assumes "0 < j" "length removed < 2 ^ 63"
  shows "\<exists>removed'. mark_loop j removed = Some removed' \<and> length removed' = length removed
    \<and> (\<forall>i < length removed. removed' ! i = removed ! i + of_bool (covers i j))"
  using assms
proof (induction "length removed - j" arbitrary: j removed rule: less_induct)
  case less
  show ?case
  proof (cases "j < length removed")
    case False
    then have "\<forall>i < length removed. \<not> covers i j" by (auto simp: covers_def)
    with False show ?thesis by (subst mark_loop.simps) simp
  next
    case True
    have step: "lowest_bit j = lowbit j" using True less.prems by (intro lowest_bit_lowbit) auto
    let ?r = "removed[j := removed ! j + 1]"
    have "length ?r - (j + lowbit j) < length removed - j"
      using True lowbit_pos [OF less.prems(1)] by simp
    from less.hyps [OF this] obtain r where r: "mark_loop (j + lowbit j) ?r = Some r"
        "length r = length removed"
        "\<forall>i < length removed. r ! i = ?r ! i + of_bool (covers i (j + lowbit j))"
      using less.prems by auto
    have "?r ! i + of_bool (covers i (j + lowbit j)) = removed ! i + of_bool (covers i j)"
      if "i < length removed" for i
    proof (cases i j rule: linorder_cases)
      case less
      then show ?thesis by (simp add: covers_def)
    next
      case equal
      then show ?thesis
        using that less.prems(1) lowbit_pos [of j] by (simp add: covers_self) (simp add: covers_def)
    next
      case greater
      then show ?thesis using covers_step [OF less.prems(1) greater] by simp
    qed
    with r True show ?thesis by (subst mark_loop.simps) (simp add: step)
  qed
qed

section \<open>The tree counts\<close>

text \<open>\<open>tree_counts removed c\<close>: the tree stores \<open>c p\<close> removals of each original position \<open>p\<close>.\<close>

definition tree_counts :: "nat list \<Rightarrow> (nat \<Rightarrow> nat) \<Rightarrow> bool" where
  "tree_counts removed c \<longleftrightarrow> 0 < length removed \<and> length removed < 2 ^ 63 \<and>
     (\<forall>i < length removed. removed ! i = (\<Sum>p \<in> {i - lowbit i..<i}. c p))"

lemma tree_counts_zero:
  "n < 2 ^ 62 \<Longrightarrow> tree_counts (replicate (n + 1) 0) (\<lambda>_. 0)"
  by (simp add: tree_counts_def del: replicate_Suc)

lemma removed_before_loop_sum:
  assumes "tree_counts removed c" and "cursor < length removed"
  shows "removed_before_loop removed t cursor = Some (t + (\<Sum>p < cursor. c p))"
  using assms(2)
proof (induction cursor arbitrary: t rule: less_induct)
  case (less cursor)
  show ?case
  proof (cases "cursor = 0")
    case True
    then show ?thesis by (subst removed_before_loop.simps) simp
  next
    case False
    have and_eq: "cursor AND (cursor - Suc 0) = cursor - lowbit cursor"
      using and_minus_one [of cursor] False by simp
    have lt: "cursor - lowbit cursor < cursor"
      using lowbit_pos [of cursor] lowbit_le [of cursor] False by simp
    have "{..<cursor} = {..<cursor - lowbit cursor} \<union> {cursor - lowbit cursor..<cursor}"
      using lt by auto
    then have "(\<Sum>p < cursor. c p)
        = (\<Sum>p < cursor - lowbit cursor. c p) + (\<Sum>p \<in> {cursor - lowbit cursor..<cursor}. c p)"
      by (metis finite_atLeastLessThan finite_lessThan ivl_disj_int_one(2) sum.union_disjoint)
    then show ?thesis
      using False less assms(1) lt by (subst removed_before_loop.simps)
        (simp add: and_eq tree_counts_def)
  qed
qed

lemma removed_before_sum:
  "tree_counts removed c \<Longrightarrow> p < length removed \<Longrightarrow>
   removed_before removed p = Some (\<Sum>q < p. c q)"
  by (simp add: removed_before_def removed_before_loop_sum)

lemma mark_removed_counts:
  assumes "tree_counts removed c"
  shows "\<exists>removed'. mark_removed removed p = Some removed' \<and> length removed' = length removed
    \<and> tree_counts removed' (c(p := c p + 1))"
proof -
  have bound: "length removed < 2 ^ 63" using assms by (simp add: tree_counts_def)
  obtain r where r: "mark_removed removed p = Some r" "length r = length removed"
      "\<forall>i < length removed. r ! i = removed ! i + of_bool (covers i (p + 1))"
    using mark_loop_covers [of "p + 1" removed] bound by (auto simp: mark_removed_def)
  have "(\<Sum>q \<in> {i - lowbit i..<i}. (c(p := c p + 1)) q)
      = (\<Sum>q \<in> {i - lowbit i..<i}. c q) + of_bool (covers i (p + 1))" for i
  proof -
    have "(c(p := c p + 1)) q = c q + (if q = p then 1 else 0)" for q by simp
    then have "(\<Sum>q \<in> {i - lowbit i..<i}. (c(p := c p + 1)) q)
        = (\<Sum>q \<in> {i - lowbit i..<i}. c q) + (\<Sum>q \<in> {i - lowbit i..<i}. if q = p then 1 else 0)"
      by (simp only: sum.distrib)
    also have "(\<Sum>q \<in> {i - lowbit i..<i}. if q = p then 1 else 0)
        = (of_bool (covers i (p + 1)) :: nat)"
      by (auto simp: covers_def)
    finally show ?thesis .
  qed
  with r assms show ?thesis by (auto simp: tree_counts_def)
qed

section \<open>Removal counters\<close>

text \<open>
  What \<open>remove_last\<close> needs of its counter: how many of the positions before \<open>p\<close> were
  removed, and a way to remove one more. The counter tells where an original position is
  now among the survivors.
\<close>

locale removal_counter =
  fixes before :: "'s \<Rightarrow> nat \<Rightarrow> nat option"
    and mark :: "'s \<Rightarrow> nat \<Rightarrow> 's option"
    and counts :: "'s \<Rightarrow> (nat \<Rightarrow> nat) \<Rightarrow> bool"
    and capacity :: "'s \<Rightarrow> nat"
  assumes before_sum: "counts s c \<Longrightarrow> p < capacity s \<Longrightarrow> before s p = Some (\<Sum>q < p. c q)"
    and mark_counts: "counts s c \<Longrightarrow>
      \<exists>s'. mark s p = Some s' \<and> capacity s' = capacity s \<and> counts s' (c(p := c p + 1))"
begin

definition removes :: "'s \<Rightarrow> nat set \<Rightarrow> bool" where
  "removes s R \<longleftrightarrow> finite R \<and> counts s (\<lambda>p. of_bool (p \<in> R))"

lemma before_card:
  assumes "removes s R" "p < capacity s"
  shows "before s p = Some (card (R \<inter> {..<p}))"
proof -
  have "before s p = Some (\<Sum>q < p. of_bool (q \<in> R))"
    using assms by (auto simp only: removes_def intro!: before_sum)
  then show ?thesis by (simp add: sum.If_cases of_bool_def Int_commute)
qed

lemma mark_removes:
  assumes "removes s R" "p \<notin> R"
  shows "\<exists>s'. mark s p = Some s' \<and> capacity s' = capacity s \<and> removes s' (insert p R)"
proof -
  have "(\<lambda>q. of_bool (q \<in> R))(p := of_bool (p \<in> R) + 1) = (\<lambda>q. of_bool (q \<in> insert p R) :: nat)"
    using assms(2) by auto
  then show ?thesis
    using assms(1) mark_counts [of s "\<lambda>q. of_bool (q \<in> R)" p] by (auto simp: removes_def)
qed

end

interpretation fenwick: removal_counter removed_before mark_removed tree_counts length
proof unfold_locales
  show "removed_before s p = Some (\<Sum>q < p. c q)" if "tree_counts s c" "p < length s" for s c p
    using that by (rule removed_before_sum)
  show "\<exists>s'. mark_removed s p = Some s' \<and> length s' = length s \<and> tree_counts s' (c(p := c p + 1))"
    if "tree_counts s c" for s c p
    using mark_removed_counts [OF that] .
qed

lemma fenwick_fresh: "n < 2 ^ 62 \<Longrightarrow> fenwick.removes (replicate (n + 1) 0) {}"
  using tree_counts_zero [of n] by (simp add: fenwick.removes_def del: replicate_Suc)

section \<open>Where a surviving position is now\<close>

definition survivors :: "nat set \<Rightarrow> nat \<Rightarrow> nat list" where
  "survivors R n = filter (\<lambda>p. p \<notin> R) [0..<n]"

lemma length_survivors: "length (survivors R p) = p - card (R \<inter> {..<p})"
proof -
  have "length (survivors R p) = card ({..<p} - R)"
    by (simp add: survivors_def length_filter_conv_card) (rule arg_cong [of _ _ card], auto)
  also have "\<dots> = p - card (R \<inter> {..<p})"
    by (simp add: card_Diff_subset_Int Int_commute)
  finally show ?thesis .
qed

lemma survivors_split:
  assumes "p < n" "p \<notin> R"
  shows "survivors R n = survivors R p @ p # filter (\<lambda>q. q \<notin> R) [Suc p..<n]"
proof -
  have "[0..<n] = [0..<p] @ p # [Suc p..<n]"
    using assms(1) by (metis less_imp_add_positive upt_add_eq_append upt_conv_Cons zero_le le_add1)
  then show ?thesis using assms(2) by (simp add: survivors_def)
qed

lemma survivors_nth:
  assumes "p < n" "p \<notin> R"
  shows "p - card (R \<inter> {..<p}) < length (survivors R n)"
    and "survivors R n ! (p - card (R \<inter> {..<p})) = p"
  unfolding survivors_split [OF assms] length_survivors [symmetric] by simp_all

lemma survivors_insert:
  assumes "p < n" "p \<notin> R"
  shows "survivors (insert p R) n = delete_at (p - card (R \<inter> {..<p})) (survivors R n)"
proof -
  have p: "survivors (insert p R) p = survivors R p"
    by (auto simp: survivors_def intro!: filter_cong)
  have "filter (\<lambda>q. q \<notin> insert p R) [Suc p..<n] = filter (\<lambda>q. q \<notin> R) [Suc p..<n]"
    by (auto intro!: filter_cong)
  moreover have "survivors (insert p R) n
      = survivors (insert p R) p @ filter (\<lambda>q. q \<notin> insert p R) [Suc p..<n]"
  proof -
    have "[0..<n] = [0..<p] @ p # [Suc p..<n]"
      using assms(1) by (metis less_imp_add_positive upt_add_eq_append upt_conv_Cons zero_le le_add1)
    then show ?thesis by (simp add: survivors_def)
  qed
  ultimately show ?thesis
    by (simp add: survivors_split [OF assms] p delete_at_def length_survivors [symmetric])
qed

end
