(* ===== verification/DmList.thy ===== *)
theory DmList
  imports Fenwick Value
begin

text \<open>
  \<open>DmList\<close> of \<open>crates/dm-value/src/lib.rs\<close>: the ordered mutable list of the DM runtime. One
  insertion order runs over two vectors, the positional values and the associative pairs; on
  top of them sit an index of the associations by hash, an index for repeated removal, and a
  lazily removed prefix. Each method is a function of the storage; \<open>None\<close> is a panic of the
  code, an error is returned with the storage as the code leaves it.

  The shared copy-on-write storage is a value, and an absent storage is the empty one
  (\<open>Deref\<close> reads it as \<open>DmListStorage::default()\<close>). The digest of \<open>DefaultHasher\<close> is
  the parameter \<open>sip\<close>. Lengths are natural numbers; \<open>len\<close> subtracts the prefix, which never
  exceeds the order (an invariant of the laws).
\<close>

section \<open>Storage\<close>

record positional_remove_index =
  pri_positions :: "sem_key \<rightharpoonup> nat list"
  pri_removed :: "nat list"

record dm_list =
  positional :: "dm_value list"
  associative :: "(dm_value \<times> dm_value) list"
  list_order :: "u32 list"
  associative_index :: "(u64 \<rightharpoonup> u32) option"
  positional_remove_index :: "positional_remove_index option"
  prefix_head :: nat

definition dm_list_new :: dm_list where
  "dm_list_new = \<lparr>positional = [], associative = [], list_order = [], associative_index = None,
     positional_remove_index = None, prefix_head = 0\<rparr>"

definition ASSOCIATIVE_INDEX_COLLISION :: u32 where "ASSOCIATIVE_INDEX_COLLISION = 0xFFFFFFFF"
definition ASSOCIATIVE_INDEX_THRESHOLD :: nat where "ASSOCIATIVE_INDEX_THRESHOLD = 8"
definition POSITIONAL_REMOVE_INDEX_THRESHOLD :: nat where "POSITIONAL_REMOVE_INDEX_THRESHOLD = 64"

text \<open>\<open>ListOrder\<close>: an index into one of the two vectors, told apart by the top bit.\<close>

definition ASSOCIATIVE_BIT :: u32 where "ASSOCIATIVE_BIT = push_bit 31 1"

definition order_positional :: "nat \<Rightarrow> u32 option" where
  "order_positional index = (if index \<le> u32_max then Some (of_nat index) else None)"

definition order_associative :: "nat \<Rightarrow> u32 option" where
  "order_associative index =
     (if index \<le> u32_max then Some (of_nat index OR ASSOCIATIVE_BIT) else None)"

definition order_positional_index :: "u32 \<Rightarrow> nat option" where
  "order_positional_index e = (if e AND ASSOCIATIVE_BIT = 0 then Some (unat e) else None)"

definition order_associative_index :: "u32 \<Rightarrow> nat option" where
  "order_associative_index e =
     (if e AND ASSOCIATIVE_BIT \<noteq> 0 then Some (unat (e AND NOT ASSOCIATIVE_BIT)) else None)"

definition usize_sub :: "nat \<Rightarrow> nat \<Rightarrow> nat option" where
  "usize_sub a b = (if b \<le> a then Some (a - b) else None)"

definition checked_boundary :: "nat \<Rightarrow> nat \<Rightarrow> value_error + nat" where
  "checked_boundary index n =
     (if index = 0 then Inl IndexZero
      else if min (n + 1) usize_max < index then Inl (IndexOutOfBounds index n)
      else Inr (index - 1))"

definition checked_index :: "nat \<Rightarrow> nat \<Rightarrow> value_error + nat" where
  "checked_index index n =
     (if index = 0 then Inl IndexZero
      else if n < index then Inl (IndexOutOfBounds index n)
      else Inr (index - 1))"

section \<open>Derived indexes and the lazy prefix\<close>

definition invalidate_positional_remove_index :: "dm_list \<Rightarrow> dm_list" where
  "invalidate_positional_remove_index l = l\<lparr>positional_remove_index := None\<rparr>"

definition materialize_prefix :: "dm_list \<Rightarrow> dm_list option" where
  "materialize_prefix l = (let head = prefix_head l in
     if head = 0 then Some l
     else do {
       (_, values) \<leftarrow> vec_drain (positional l) 0 head;
       (_, entries) \<leftarrow> vec_drain (list_order l) 0 head;
       entries' \<leftarrow> vec_each (\<lambda>e. do {
         index \<leftarrow> order_positional_index e;
         shifted \<leftarrow> usize_sub index head;
         order_positional shifted }) entries;
       Some (l\<lparr>positional := values, list_order := entries', prefix_head := 0\<rparr>) })"

text \<open>One key of \<open>rebuild_associative_index\<close>.\<close>

definition index_key :: "(hash_write list \<Rightarrow> u64) \<Rightarrow> (dm_value \<times> dm_value) list \<Rightarrow> nat \<Rightarrow> dm_value
    \<Rightarrow> (u64 \<rightharpoonup> u32) \<Rightarrow> (u64 \<rightharpoonup> u32) option" where
  "index_key sip entries position key index = (case semantic_hash sip key of
       None \<Rightarrow> Some index
     | Some h \<Rightarrow>
         if u32_max < position then None
         else (case index h of
             None \<Rightarrow> Some (index(h \<mapsto> of_nat position))
           | Some indexed \<Rightarrow>
               if indexed = ASSOCIATIVE_INDEX_COLLISION then Some index
               else do {
                 (candidate, _) \<leftarrow> vec_get entries (unat indexed);
                 Some (if semantic_eq candidate key then index
                       else index(h \<mapsto> ASSOCIATIVE_INDEX_COLLISION)) }))"

primrec index_keys :: "(hash_write list \<Rightarrow> u64) \<Rightarrow> (dm_value \<times> dm_value) list \<Rightarrow> nat
    \<Rightarrow> (dm_value \<times> dm_value) list \<Rightarrow> (u64 \<rightharpoonup> u32) \<Rightarrow> (u64 \<rightharpoonup> u32) option" where
  "index_keys sip entries position [] index = Some index"
| "index_keys sip entries position (kv # rest) index = do {
     index' \<leftarrow> index_key sip entries position (fst kv) index;
     index_keys sip entries (Suc position) rest index' }"

definition rebuild_associative_index :: "(hash_write list \<Rightarrow> u64) \<Rightarrow> dm_list \<Rightarrow> dm_list option" where
  "rebuild_associative_index sip l =
     (if length (associative l) < ASSOCIATIVE_INDEX_THRESHOLD
      then Some (l\<lparr>associative_index := None\<rparr>)
      else do {
        index \<leftarrow> index_keys sip (associative l) 0 (associative l) Map.empty;
        Some (l\<lparr>associative_index := Some index\<rparr>) })"

definition index_last_association :: "(hash_write list \<Rightarrow> u64) \<Rightarrow> dm_list \<Rightarrow> dm_list option" where
  "index_last_association sip l =
     (if length (associative l) = ASSOCIATIVE_INDEX_THRESHOLD then rebuild_associative_index sip l
      else if length (associative l) < ASSOCIATIVE_INDEX_THRESHOLD then Some l
      else let position = length (associative l) - 1; key = fst (associative l ! position) in
        (case semantic_hash sip key of
           None \<Rightarrow> Some l
         | Some h \<Rightarrow>
             if u32_max < position then None
             else (case associative_index l of
                 None \<Rightarrow> Some l
               | Some index \<Rightarrow> (case index h of
                     None \<Rightarrow> Some (l\<lparr>associative_index := Some (index(h \<mapsto> of_nat position))\<rparr>)
                   | Some indexed \<Rightarrow>
                       if indexed = ASSOCIATIVE_INDEX_COLLISION then Some l
                       else do {
                         (candidate, _) \<leftarrow> vec_get (associative l) (unat indexed);
                         Some (if semantic_eq candidate key then l
                               else l\<lparr>associative_index :=
                                 Some (index(h \<mapsto> ASSOCIATIVE_INDEX_COLLISION))\<rparr>) }))))"

definition scan_associations :: "dm_list \<Rightarrow> dm_value \<Rightarrow> nat option" where
  "scan_associations l key = vec_position (\<lambda>kv. semantic_eq (fst kv) key) (associative l)"

definition association_position_for_key ::
    "(hash_write list \<Rightarrow> u64) \<Rightarrow> dm_list \<Rightarrow> dm_value \<Rightarrow> nat option" where
  "association_position_for_key sip l key =
     (case (associative_index l, semantic_hash sip key) of
        (Some index, Some h) \<Rightarrow> (case index h of
            Some position \<Rightarrow>
              if position \<noteq> ASSOCIATIVE_INDEX_COLLISION
              then (case vec_get (associative l) (unat position) of
                  Some kv \<Rightarrow>
                    if semantic_eq (fst kv) key then Some (unat position)
                    else scan_associations l key
                | None \<Rightarrow> scan_associations l key)
              else scan_associations l key
          | None \<Rightarrow> None)
      | _ \<Rightarrow> scan_associations l key)"

section \<open>Reading\<close>

definition list_len :: "dm_list \<Rightarrow> nat" where
  "list_len l = length (list_order l) - prefix_head l"

definition positional_len :: "dm_list \<Rightarrow> nat" where
  "positional_len l = length (positional l) - prefix_head l"

definition associative_len :: "dm_list \<Rightarrow> nat" where
  "associative_len l = length (associative l)"

definition list_is_empty :: "dm_list \<Rightarrow> bool" where
  "list_is_empty l \<longleftrightarrow> list_len l = 0"

text \<open>The value an order entry shows: a positional value, or the key of an association.\<close>

definition entry_value :: "dm_list \<Rightarrow> u32 \<Rightarrow> dm_value option" where
  "entry_value l e = (case order_positional_index e of
       Some position \<Rightarrow> vec_get (positional l) position
     | None \<Rightarrow> do {
         association \<leftarrow> order_associative_index e;
         (key, _) \<leftarrow> vec_get (associative l) association;
         Some key })"

definition list_get :: "dm_list \<Rightarrow> nat \<Rightarrow> (value_error + dm_value) option" where
  "list_get l index = (case checked_index index (list_len l) of
       Inl e \<Rightarrow> Some (Inl e)
     | Inr i \<Rightarrow> do {
         entry \<leftarrow> vec_get (list_order l) (i + prefix_head l);
         v \<leftarrow> entry_value l entry;
         Some (Inr v) })"

definition get_key :: "(hash_write list \<Rightarrow> u64) \<Rightarrow> dm_list \<Rightarrow> dm_value \<Rightarrow> value_error + dm_value" where
  "get_key sip l key = (case association_position_for_key sip l key of
       None \<Rightarrow> Inl MissingKey
     | Some position \<Rightarrow> (case vec_get (associative l) position of
           None \<Rightarrow> Inl MissingKey
         | Some kv \<Rightarrow> Inr (snd kv)))"

definition list_contains :: "(hash_write list \<Rightarrow> u64) \<Rightarrow> dm_list \<Rightarrow> dm_value \<Rightarrow> bool option" where
  "list_contains sip l v =
     (if association_position_for_key sip l v \<noteq> None then Some True
      else do {
        live \<leftarrow> vec_slice (positional l) (prefix_head l) (length (positional l));
        Some (list_ex (\<lambda>candidate. semantic_eq candidate v) live) })"

definition positions :: "dm_list \<Rightarrow> (nat \<times> dm_value) list option" where
  "positions l = do {
     live \<leftarrow> vec_slice (list_order l) (prefix_head l) (length (list_order l));
     values \<leftarrow> vec_each (entry_value l) live;
     Some (zip [1..<length values + 1] values) }"

definition associations :: "dm_list \<Rightarrow> (dm_value \<times> dm_value) list" where
  "associations l = associative l"

primrec find_position_loop :: "dm_list \<Rightarrow> dm_value \<Rightarrow> nat \<Rightarrow> nat \<Rightarrow> (value_error + nat) option" where
  "find_position_loop l v index 0 = Some (Inr 0)"
| "find_position_loop l v index (Suc n) = do {
     r \<leftarrow> list_get l index;
     (case r of
        Inl e \<Rightarrow> Some (Inl e)
      | Inr candidate \<Rightarrow>
          if semantic_eq candidate v then Some (Inr index)
          else find_position_loop l v (Suc index) n) }"

definition find_position :: "dm_list \<Rightarrow> dm_value \<Rightarrow> nat \<Rightarrow> nat \<Rightarrow> (value_error + nat) option" where
  "find_position l v start stop = (case checked_boundary start (list_len l) of
       Inl e \<Rightarrow> Some (Inl e)
     | Inr _ \<Rightarrow> (case checked_boundary stop (list_len l) of
           Inl e \<Rightarrow> Some (Inl e)
         | Inr _ \<Rightarrow>
             if stop \<le> start then Some (Inr 0)
             else find_position_loop l v start (stop - start)))"

section \<open>Writing\<close>

definition list_add :: "dm_value \<Rightarrow> dm_list \<Rightarrow> (nat \<times> dm_list) option" where
  "list_add v l = (let l = invalidate_positional_remove_index l in do {
     entry \<leftarrow> order_positional (length (positional l));
     let l' = l\<lparr>list_order := list_order l @ [entry], positional := positional l @ [v]\<rparr>;
     Some (list_len l', l') })"

definition extend_positional :: "dm_value list \<Rightarrow> dm_list \<Rightarrow> (nat \<times> dm_list) option" where
  "extend_positional vs l = (let l = invalidate_positional_remove_index l;
       first = length (positional l); last = first + length vs in do {
     entries \<leftarrow> vec_each order_positional [first..<last];
     let l' = l\<lparr>positional := positional l @ vs, list_order := list_order l @ entries\<rparr>;
     Some (length (list_order l') - prefix_head l', l') })"

text \<open>
  Removing a vector element moves the later ones down; the order entries that point past it
  follow.
\<close>

definition shift_positional :: "nat \<Rightarrow> u32 list \<Rightarrow> u32 list option" where
  "shift_positional position = vec_each (\<lambda>e. case order_positional_index e of
       Some other \<Rightarrow> if position < other then order_positional (other - 1) else Some e
     | None \<Rightarrow> Some e)"

definition shift_associative :: "nat \<Rightarrow> u32 list \<Rightarrow> u32 list option" where
  "shift_associative association = vec_each (\<lambda>e. case order_associative_index e of
       Some other \<Rightarrow> if association < other then order_associative (other - 1) else Some e
     | None \<Rightarrow> Some e)"

definition list_set :: "(hash_write list \<Rightarrow> u64) \<Rightarrow> nat \<Rightarrow> dm_value \<Rightarrow> dm_list
    \<Rightarrow> ((value_error + dm_value) \<times> dm_list) option" where
  "list_set sip index v l = (case checked_index index (list_len l) of
       Inl e \<Rightarrow> Some (Inl e, l)
     | Inr i \<Rightarrow> (let slot = i + prefix_head l in do {
         entry \<leftarrow> vec_get (list_order l) slot;
         (case order_positional_index entry of
            Some position \<Rightarrow> (let l = invalidate_positional_remove_index l in do {
              previous \<leftarrow> vec_get (positional l) position;
              values \<leftarrow> vec_set (positional l) position v;
              Some (Inr previous, l\<lparr>positional := values\<rparr>) })
          | None \<Rightarrow> (case order_associative_index entry of
              None \<Rightarrow> Some (Inl CorruptListStorage, l)
            | Some association \<Rightarrow> (let l = invalidate_positional_remove_index l in do {
                ((previous, _), pairs) \<leftarrow> vec_remove (associative l) association;
                entries \<leftarrow> shift_associative association (list_order l);
                fresh \<leftarrow> order_positional (length (positional l));
                entries' \<leftarrow> vec_set entries slot fresh;
                l' \<leftarrow> rebuild_associative_index sip
                  (l\<lparr>associative := pairs, positional := positional l @ [v],
                     list_order := entries'\<rparr>);
                Some (Inr previous, l') }))) }))"

definition list_remove :: "(hash_write list \<Rightarrow> u64) \<Rightarrow> nat \<Rightarrow> dm_list
    \<Rightarrow> ((value_error + dm_value) \<times> dm_list) option" where
  "list_remove sip index l0 = do {
     l1 \<leftarrow> materialize_prefix l0;
     let l = invalidate_positional_remove_index l1;
     (case checked_index index (length (list_order l)) of
        Inl e \<Rightarrow> Some (Inl e, l)
      | Inr i \<Rightarrow> do {
          (entry, entries) \<leftarrow> vec_remove (list_order l) i;
          (case order_positional_index entry of
             Some position \<Rightarrow> do {
               entries' \<leftarrow> shift_positional position entries;
               (previous, values) \<leftarrow> vec_remove (positional l) position;
               Some (Inr previous, l\<lparr>list_order := entries', positional := values\<rparr>) }
           | None \<Rightarrow> (case order_associative_index entry of
               None \<Rightarrow> Some (Inl CorruptListStorage, l\<lparr>list_order := entries\<rparr>)
             | Some association \<Rightarrow> do {
                 ((key, _), pairs) \<leftarrow> vec_remove (associative l) association;
                 entries' \<leftarrow> shift_associative association entries;
                 l' \<leftarrow> rebuild_associative_index sip
                   (l\<lparr>list_order := entries', associative := pairs\<rparr>);
                 Some (Inr key, l') })) }) }"

primrec find_equal :: "dm_list \<Rightarrow> dm_value \<Rightarrow> nat \<Rightarrow> u32 list \<Rightarrow> nat option option" where
  "find_equal l v index [] = Some None"
| "find_equal l v index (e # es) = do {
     candidate \<leftarrow> entry_value l e;
     if semantic_eq candidate v then Some (Some index) else find_equal l v (Suc index) es }"

definition list_remove_first :: "(hash_write list \<Rightarrow> u64) \<Rightarrow> dm_value \<Rightarrow> dm_list
    \<Rightarrow> (dm_value option \<times> dm_list) option" where
  "list_remove_first sip v l = do {
     live \<leftarrow> vec_slice (list_order l) (prefix_head l) (length (list_order l));
     found \<leftarrow> find_equal l v 0 live;
     (case found of
        None \<Rightarrow> Some (None, l)
      | Some index \<Rightarrow> do {
          (r, l') \<leftarrow> list_remove sip (index + 1) l;
          Some (case r of Inr x \<Rightarrow> Some x | Inl _ \<Rightarrow> None, l') }) }"

definition list_insert :: "nat \<Rightarrow> dm_value \<Rightarrow> dm_list \<Rightarrow> ((value_error + nat) \<times> dm_list) option" where
  "list_insert index v l0 = do {
     l1 \<leftarrow> materialize_prefix l0;
     (case checked_boundary index (length (list_order l1)) of
        Inl e \<Rightarrow> Some (Inl e, l1)
      | Inr _ \<Rightarrow> (let l = invalidate_positional_remove_index l1 in do {
          entry \<leftarrow> order_positional (length (positional l));
          entries \<leftarrow> vec_insert (list_order l) (index - 1) entry;
          Some (Inr index, l\<lparr>positional := positional l @ [v], list_order := entries\<rparr>) })) }"

definition list_swap :: "nat \<Rightarrow> nat \<Rightarrow> dm_list \<Rightarrow> ((value_error + unit) \<times> dm_list) option" where
  "list_swap first second l0 = do {
     l \<leftarrow> materialize_prefix l0;
     (case checked_index first (length (list_order l)) of
        Inl e \<Rightarrow> Some (Inl e, l)
      | Inr i \<Rightarrow> (case checked_index second (length (list_order l)) of
            Inl e \<Rightarrow> Some (Inl e, l)
          | Inr j \<Rightarrow> (let l = invalidate_positional_remove_index l in do {
              entries \<leftarrow> vec_swap (list_order l) i j;
              Some (Inr (), l\<lparr>list_order := entries\<rparr>) }))) }"

section \<open>Associations\<close>

text \<open>The first order entry that holds a positional value equal to the key, and its position.\<close>

primrec find_positional_key :: "dm_list \<Rightarrow> dm_value \<Rightarrow> nat \<Rightarrow> u32 list \<Rightarrow> (nat \<times> nat) option option" where
  "find_positional_key l key index [] = Some None"
| "find_positional_key l key index (e # es) = (case order_positional_index e of
       None \<Rightarrow> find_positional_key l key (Suc index) es
     | Some position \<Rightarrow> do {
         candidate \<leftarrow> vec_get (positional l) position;
         if semantic_eq candidate key then Some (Some (index, position))
         else find_positional_key l key (Suc index) es })"

definition set_key :: "(hash_write list \<Rightarrow> u64) \<Rightarrow> dm_value \<Rightarrow> dm_value \<Rightarrow> dm_list
    \<Rightarrow> (dm_value option \<times> dm_list) option" where
  "set_key sip key v l0 = do {
     l1 \<leftarrow> materialize_prefix l0;
     let l = invalidate_positional_remove_index l1;
     (case association_position_for_key sip l key of
        Some position \<Rightarrow> do {
          (k, current) \<leftarrow> vec_get (associative l) position;
          pairs \<leftarrow> vec_set (associative l) position (k, v);
          Some (Some current, l\<lparr>associative := pairs\<rparr>) }
      | None \<Rightarrow> do {
          found \<leftarrow> find_positional_key l key 0 (list_order l);
          (case found of
             Some (order_index, position) \<Rightarrow> do {
               (existing_key, values) \<leftarrow> vec_remove (positional l) position;
               entries \<leftarrow> shift_positional position (list_order l);
               fresh \<leftarrow> order_associative (length (associative l));
               entries' \<leftarrow> vec_set entries order_index fresh;
               l' \<leftarrow> index_last_association sip
                 (l\<lparr>positional := values, list_order := entries',
                    associative := associative l @ [(existing_key, v)]\<rparr>);
               Some (None, l') }
           | None \<Rightarrow> do {
               fresh \<leftarrow> order_associative (length (associative l));
               l' \<leftarrow> index_last_association sip
                 (l\<lparr>list_order := list_order l @ [fresh],
                    associative := associative l @ [(key, v)]\<rparr>);
               Some (None, l') }) }) }"

definition remove_key :: "(hash_write list \<Rightarrow> u64) \<Rightarrow> dm_value \<Rightarrow> dm_list
    \<Rightarrow> (dm_value option \<times> dm_list) option" where
  "remove_key sip key l0 = do {
     l1 \<leftarrow> materialize_prefix l0;
     let l = invalidate_positional_remove_index l1;
     (case scan_associations l key of
        None \<Rightarrow> Some (None, l)
      | Some index \<Rightarrow>
          (case vec_position (\<lambda>e. order_associative_index e = Some index) (list_order l) of
             None \<Rightarrow> Some (None, l)
           | Some order_index \<Rightarrow> do {
               ((_, v), pairs) \<leftarrow> vec_remove (associative l) index;
               (_, entries) \<leftarrow> vec_remove (list_order l) order_index;
               entries' \<leftarrow> shift_associative index entries;
               l' \<leftarrow> rebuild_associative_index sip
                 (l\<lparr>associative := pairs, list_order := entries'\<rparr>);
               Some (Some v, l') })) }"

section \<open>Ranges\<close>

primrec copy_entries :: "(hash_write list \<Rightarrow> u64) \<Rightarrow> dm_list \<Rightarrow> dm_list \<Rightarrow> u32 list
    \<Rightarrow> (value_error + dm_list) option" where
  "copy_entries sip l copy [] = Some (Inr copy)"
| "copy_entries sip l copy (e # es) = (case order_positional_index e of
       Some position \<Rightarrow> do {
         v \<leftarrow> vec_get (positional l) position;
         (_, copy') \<leftarrow> list_add v copy;
         copy_entries sip l copy' es }
     | None \<Rightarrow> (case order_associative_index e of
           None \<Rightarrow> Some (Inl CorruptListStorage)
         | Some association \<Rightarrow> (case vec_get (associative l) association of
               None \<Rightarrow> Some (Inl CorruptListStorage)
             | Some (key, v) \<Rightarrow> do {
                 (_, copy') \<leftarrow> set_key sip key v copy;
                 copy_entries sip l copy' es })))"

definition copy_range :: "(hash_write list \<Rightarrow> u64) \<Rightarrow> dm_list \<Rightarrow> nat \<Rightarrow> nat
    \<Rightarrow> (value_error + dm_list) option" where
  "copy_range sip l start stop = (case checked_boundary start (list_len l) of
       Inl e \<Rightarrow> Some (Inl e)
     | Inr _ \<Rightarrow> (case checked_boundary stop (list_len l) of
           Inl e \<Rightarrow> Some (Inl e)
         | Inr _ \<Rightarrow>
             if stop \<le> start then Some (Inr dm_list_new)
             else let offset = prefix_head l in do {
               entries \<leftarrow> vec_slice (list_order l) (offset + start - 1) (offset + stop - 1);
               copy_entries sip l dm_list_new entries }))"

text \<open>Marking the vector elements that the removed order entries point to.\<close>

primrec mark_entries :: "u32 list \<Rightarrow> bool list \<times> bool list \<Rightarrow> value_error + bool list \<times> bool list" where
  "mark_entries [] marks = Inr marks"
| "mark_entries (e # es) marks = (case order_positional_index e of
       Some index \<Rightarrow> (case vec_set (fst marks) index True of
           None \<Rightarrow> Inl CorruptListStorage
         | Some p \<Rightarrow> mark_entries es (p, snd marks))
     | None \<Rightarrow> (case order_associative_index e of
           None \<Rightarrow> Inl CorruptListStorage
         | Some index \<Rightarrow> (case vec_set (snd marks) index True of
               None \<Rightarrow> Inl CorruptListStorage
             | Some a \<Rightarrow> mark_entries es (fst marks, a))))"

text \<open>The new place of each kept element; \<open>usize::MAX\<close> for the removed ones.\<close>

primrec index_remap :: "nat \<Rightarrow> bool list \<Rightarrow> nat list" where
  "index_remap next_index [] = []"
| "index_remap next_index (removed # rest) =
     (if removed then usize_max # index_remap next_index rest
      else next_index # index_remap (next_index + 1) rest)"

definition retained :: "bool list \<Rightarrow> 'a list \<Rightarrow> 'a list" where
  "retained removed xs = map snd (filter (\<lambda>p. \<not> fst p) (zip removed xs))"

text \<open>An order entry is always one of the two kinds, so the \<open>ok_or\<close> of the rewriting loop cannot fire.\<close>

definition remap_entry :: "nat list \<Rightarrow> nat list \<Rightarrow> u32 \<Rightarrow> u32 option" where
  "remap_entry positional_remap associative_remap e = (case order_positional_index e of
       Some index \<Rightarrow> do { i \<leftarrow> vec_get positional_remap index; order_positional i }
     | None \<Rightarrow> do {
         index \<leftarrow> order_associative_index e;
         i \<leftarrow> vec_get associative_remap index;
         order_associative i })"

definition compact_storage :: "bool list \<times> bool list \<Rightarrow> u32 list \<Rightarrow> dm_list \<Rightarrow> dm_list option" where
  "compact_storage marks kept l = do {
     let positional_remap = index_remap 0 (fst marks);
     let associative_remap = index_remap 0 (snd marks);
     entries \<leftarrow> vec_each (remap_entry positional_remap associative_remap) kept;
     Some (l\<lparr>positional := retained (fst marks) (positional l),
             associative := retained (snd marks) (associative l), list_order := entries\<rparr>) }"

definition no_marks :: "dm_list \<Rightarrow> bool list \<times> bool list" where
  "no_marks l = (replicate (length (positional l)) False, replicate (length (associative l)) False)"

definition canonical_order :: "u32 list \<Rightarrow> bool" where
  "canonical_order es \<longleftrightarrow>
     list_all (\<lambda>(index, e). order_positional_index e = Some index) (zip [0..<length es] es)"

definition cut_range :: "(hash_write list \<Rightarrow> u64) \<Rightarrow> nat \<Rightarrow> nat \<Rightarrow> dm_list
    \<Rightarrow> ((value_error + nat) \<times> dm_list) option" where
  "cut_range sip start stop l0 = (let logical_len = list_len l0 in
     case checked_boundary start logical_len of
       Inl e \<Rightarrow> Some (Inl e, l0)
     | Inr _ \<Rightarrow> (case checked_boundary stop logical_len of
         Inl e \<Rightarrow> Some (Inl e, l0)
       | Inr _ \<Rightarrow>
         if stop \<le> start then Some (Inr 0, l0)
         else let cut_count = stop - start in
           if start = 1 \<and> stop = logical_len + 1 then Some (Inr cut_count, dm_list_new)
           else if start = 1 \<and> associative l0 = []
               \<and> (0 < prefix_head l0 \<or> canonical_order (list_order l0))
           then Some (Inr cut_count, (invalidate_positional_remove_index l0)
             \<lparr>prefix_head := prefix_head l0 + cut_count\<rparr>)
           else do {
             l1 \<leftarrow> materialize_prefix l0;
             let l = invalidate_positional_remove_index l1;
             (removed, kept) \<leftarrow> vec_drain (list_order l) (start - 1) (stop - 1);
             (case mark_entries removed (no_marks l) of
                Inl e \<Rightarrow> Some (Inl e, l\<lparr>list_order := kept\<rparr>)
              | Inr marks \<Rightarrow> do {
                  l2 \<leftarrow> compact_storage marks kept l;
                  l3 \<leftarrow> rebuild_associative_index sip l2;
                  Some (Inr cut_count, l3) }) }))"

text \<open>\<open>while len < new_len\<close> adds one null per round.\<close>

primrec resize_grow :: "nat \<Rightarrow> dm_list \<Rightarrow> dm_list option" where
  "resize_grow 0 l = Some l"
| "resize_grow (Suc n) l = do { (_, l') \<leftarrow> list_add VNull l; resize_grow n l' }"

definition list_resize :: "(hash_write list \<Rightarrow> u64) \<Rightarrow> nat \<Rightarrow> dm_list
    \<Rightarrow> ((value_error + unit) \<times> dm_list) option" where
  "list_resize sip new_len l0 = do {
     l \<leftarrow> resize_grow (new_len - list_len l0) l0;
     if new_len < list_len l
     then do {
       (r, l') \<leftarrow> cut_range sip (new_len + 1) (list_len l + 1) l;
       Some (case r of Inl e \<Rightarrow> Inl e | Inr _ \<Rightarrow> Inr (), l') }
     else Some (Inr (), l) }"

section \<open>Removal by value\<close>

text \<open>
  The index of original positions by key; \<open>None\<close> stands for the \<open>?\<close> on a value without a
  key, which the guard of \<open>remove_last\<close> has excluded.
\<close>

primrec key_positions :: "nat \<Rightarrow> dm_value list \<Rightarrow> (sem_key \<rightharpoonup> nat list) \<Rightarrow> (sem_key \<rightharpoonup> nat list) option" where
  "key_positions index [] m = Some m"
| "key_positions index (v # vs) m = do {
     key \<leftarrow> semantic_key v;
     key_positions (Suc index) vs
       (m(key \<mapsto> (case m key of None \<Rightarrow> [] | Some ps \<Rightarrow> ps) @ [index])) }"

definition needs_remove_index :: "dm_list \<Rightarrow> bool" where
  "needs_remove_index l \<longleftrightarrow> positional_remove_index l = None \<and> associative l = []
     \<and> POSITIONAL_REMOVE_INDEX_THRESHOLD \<le> length (positional l)
     \<and> list_all (\<lambda>(index, e). order_positional_index e = Some index
          \<and> semantic_key (positional l ! index) \<noteq> None)
        (zip [0..<length (list_order l)] (list_order l))"

text \<open>The search from the last entry down.\<close>

primrec find_last_equal :: "dm_list \<Rightarrow> dm_value \<Rightarrow> nat \<Rightarrow> nat option option" where
  "find_last_equal l v 0 = Some None"
| "find_last_equal l v (Suc n) = do {
     r \<leftarrow> list_get l (Suc n);
     if (case r of Inr candidate \<Rightarrow> semantic_eq candidate v | Inl _ \<Rightarrow> False)
     then Some (Some (Suc n)) else find_last_equal l v n }"

definition remove_last_scan :: "(hash_write list \<Rightarrow> u64) \<Rightarrow> dm_value \<Rightarrow> dm_list
    \<Rightarrow> (dm_value option \<times> dm_list) option" where
  "remove_last_scan sip v l = do {
     found \<leftarrow> find_last_equal l v (list_len l);
     (case found of
        None \<Rightarrow> Some (None, l)
      | Some index \<Rightarrow> do {
          (r, l') \<leftarrow> list_remove sip index l;
          Some (case r of Inr x \<Rightarrow> Some x | Inl _ \<Rightarrow> None, l') }) }"

definition remove_last_indexed :: "sem_key \<Rightarrow> positional_remove_index \<Rightarrow> dm_list
    \<Rightarrow> (dm_value option \<times> dm_list) option" where
  "remove_last_indexed key index l = (case pri_positions index key of
       None \<Rightarrow> Some (None, l)
     | Some ps \<Rightarrow>
         if ps = [] then Some (None, l)
         else let original = last ps in do {
           before \<leftarrow> removed_before (pri_removed index) original;
           current \<leftarrow> usize_sub original before;
           removed \<leftarrow> mark_removed (pri_removed index) original;
           (v, values) \<leftarrow> vec_remove (positional l) current;
           Some (Some v, l\<lparr>positional := values, list_order := butlast (list_order l),
             positional_remove_index := Some \<lparr>
               pri_positions = (pri_positions index)(key \<mapsto> butlast ps),
               pri_removed = removed\<rparr>\<rparr>) })"

definition remove_last :: "(hash_write list \<Rightarrow> u64) \<Rightarrow> dm_value \<Rightarrow> dm_list
    \<Rightarrow> (dm_value option \<times> dm_list) option" where
  "remove_last sip v l0 = do {
     l1 \<leftarrow> materialize_prefix l0;
     (case (if needs_remove_index l1
            then map_option (\<lambda>ps. l1\<lparr>positional_remove_index := Some \<lparr>pri_positions = ps,
                pri_removed = replicate (length (positional l1) + 1) 0\<rparr>\<rparr>)
              (key_positions 0 (positional l1) Map.empty)
            else Some l1) of
        None \<Rightarrow> Some (None, l1)
      | Some l \<Rightarrow> (case (semantic_key v, positional_remove_index l) of
            (Some key, Some index) \<Rightarrow> remove_last_indexed key index l
          | _ \<Rightarrow> remove_last_scan sip v l)) }"

text \<open>How many entries to remove per key, and per value for the values without a key.\<close>

type_synonym quotas = "(sem_key \<rightharpoonup> nat) \<times> (dm_value \<times> nat) list"

primrec bump_quota :: "dm_value \<Rightarrow> (dm_value \<times> nat) list \<Rightarrow> (dm_value \<times> nat) list" where
  "bump_quota v [] = [(v, 1)]"
| "bump_quota v (q # qs) =
     (if semantic_eq (fst q) v then (fst q, snd q + 1) # qs else q # bump_quota v qs)"

definition add_quota :: "dm_value \<Rightarrow> quotas \<Rightarrow> quotas" where
  "add_quota v q = (case semantic_key v of
       Some key \<Rightarrow> ((fst q)(key \<mapsto> (case fst q key of None \<Rightarrow> 0 | Some n \<Rightarrow> n) + 1), snd q)
     | None \<Rightarrow> (fst q, bump_quota v (snd q)))"

primrec take_fallback :: "dm_value \<Rightarrow> (dm_value \<times> nat) list \<Rightarrow> (dm_value \<times> nat) list option" where
  "take_fallback candidate [] = None"
| "take_fallback candidate (q # qs) =
     (if 0 < snd q \<and> semantic_eq candidate (fst q) then Some ((fst q, snd q - 1) # qs)
      else map_option ((#) q) (take_fallback candidate qs))"

definition take_quota :: "dm_value \<Rightarrow> quotas \<Rightarrow> quotas option" where
  "take_quota candidate q = (case semantic_key candidate of
       Some key \<Rightarrow> (case fst q key of
           None \<Rightarrow> None
         | Some n \<Rightarrow> if n = 0 then None else Some ((fst q)(key \<mapsto> n - 1), snd q))
     | None \<Rightarrow> map_option (Pair (fst q)) (take_fallback candidate (snd q)))"

text \<open>
  The loop over the live order entries from the last one; it returns the flags of the live
  entries, first entry first. An entry without a value ends it with an error.
\<close>

primrec subtract_flags :: "dm_list \<Rightarrow> u32 list \<Rightarrow> quotas \<Rightarrow> bool list \<Rightarrow> value_error + bool list" where
  "subtract_flags l [] q flags = Inr flags"
| "subtract_flags l (e # es) q flags = (case entry_value l e of
       None \<Rightarrow> Inl CorruptListStorage
     | Some candidate \<Rightarrow> (case take_quota candidate q of
           None \<Rightarrow> subtract_flags l es q (False # flags)
         | Some q' \<Rightarrow> subtract_flags l es q' (True # flags)))"

definition subtract_entries :: "(hash_write list \<Rightarrow> u64) \<Rightarrow> dm_value list \<Rightarrow> dm_list
    \<Rightarrow> ((value_error + nat) \<times> dm_list) option" where
  "subtract_entries sip vs l0 =
     (if vs = [] \<or> list_len l0 = 0 then Some (Inr 0, l0)
      else let quotas = fold add_quota vs (Map.empty, []) in
        case subtract_flags l0 (rev (drop (prefix_head l0) (list_order l0))) quotas [] of
          Inl e \<Rightarrow> Some (Inl e, l0)
        | Inr live_flags \<Rightarrow>
            let removed = length (filter id live_flags);
                flags = replicate (prefix_head l0) True @ live_flags;
                l = invalidate_positional_remove_index l0 in
            if removed = 0 then Some (Inr 0, l0)
            else (case mark_entries (map snd (filter fst (zip flags (list_order l)))) (no_marks l) of
                Inl e \<Rightarrow> Some (Inl e, l)
              | Inr marks \<Rightarrow> do {
                  l1 \<leftarrow> compact_storage marks (retained flags (list_order l)) l;
                  l2 \<leftarrow> rebuild_associative_index sip (l1\<lparr>prefix_head := 0\<rparr>);
                  Some (Inr removed, l2) }))"

section \<open>What the collector does to a retained list\<close>

definition GC_LIST_PREFIX_MIN_ENTRIES :: nat where "GC_LIST_PREFIX_MIN_ENTRIES = 1024"
definition GC_LIST_PREFIX_MIN_BYTES :: nat where "GC_LIST_PREFIX_MIN_BYTES = 256 * 1024"
definition GC_LIST_PREFIX_RATIO_DENOMINATOR :: nat where "GC_LIST_PREFIX_RATIO_DENOMINATOR = 4"

definition saturating_mul :: "nat \<Rightarrow> nat \<Rightarrow> nat" where
  "saturating_mul a b = min (a * b) usize_max"

text \<open>\<open>entry_bytes\<close> is the size of a value and an order entry in memory, which the code takes from the compiler.\<close>

definition should_compact_prefix_for_gc :: "nat \<Rightarrow> dm_list \<Rightarrow> bool" where
  "should_compact_prefix_for_gc entry_bytes l = (let head = prefix_head l in
     GC_LIST_PREFIX_MIN_ENTRIES \<le> head
     \<and> (length (positional l) \<le> saturating_mul head GC_LIST_PREFIX_RATIO_DENOMINATOR
        \<or> GC_LIST_PREFIX_MIN_BYTES \<le> saturating_mul head entry_bytes))"

text \<open>
  \<open>compact_and_measure_for_gc\<close> without capacities and telemetry. \<open>shared\<close> says whether the
  storage has another owner: then the live suffix is copied, and the storage of a list that is not
  copied keeps its removal index.
\<close>

definition gc_compact_list :: "nat \<Rightarrow> bool \<Rightarrow> dm_list \<Rightarrow> dm_list option" where
  "gc_compact_list entry_bytes shared l =
     (if should_compact_prefix_for_gc entry_bytes l
      then if shared
        then do {
          values \<leftarrow> vec_slice (positional l) (prefix_head l) (length (positional l));
          entries \<leftarrow> vec_each order_positional [0..<length values];
          Some (dm_list_new\<lparr>positional := values, list_order := entries\<rparr>) }
        else map_option invalidate_positional_remove_index (materialize_prefix l)
      else Some (if shared then l else invalidate_positional_remove_index l))"

end
