(* ===== verification/Heap.thy ===== *)
theory Heap
  imports Arena Datum DmList
begin

text \<open>
  \<open>ValueHeap\<close> of \<open>crates/dm-value/src/lib.rs\<close>: the owner of all datums and lists, two arenas and
  the cache of datum layouts. Each method is a function of the heap; \<open>None\<close> is a panic of the
  code, an \<open>Err\<close> is the left injection. A method that hands out a mutable borrow is modelled with
  the write the caller makes through it.
\<close>

section \<open>State\<close>

record value_heap =
  datum_arena :: "datum arena"
  list_arena :: "dm_list arena"
  datum_layouts :: layout_cache

definition heap_new :: value_heap where
  "heap_new = \<lparr>datum_arena = arena_new, list_arena = arena_new, datum_layouts = layout_cache_new\<rparr>"

definition live_datum_count :: "value_heap \<Rightarrow> nat" where
  "live_datum_count h = arena_len (datum_arena h)"

definition live_list_count :: "value_heap \<Rightarrow> nat" where
  "live_list_count h = arena_len (list_arena h)"

section \<open>Lists\<close>

definition allocate_list :: "value_heap \<Rightarrow> (list_id \<times> value_heap) option" where
  "allocate_list h = do {
     ((index, generation), ls) \<leftarrow> arena_insert dm_list_new (list_arena h);
     Some (ListId index generation, h\<lparr>list_arena := ls\<rparr>) }"

definition heap_list :: "value_heap \<Rightarrow> list_id \<Rightarrow> value_error + dm_list" where
  "heap_list h hid = (case arena_get (list_arena h) (list_index hid) (list_generation hid) of
       None \<Rightarrow> Inl (StaleList hid)
     | Some l \<Rightarrow> Inr l)"

text \<open>A list operation \<open>f\<close> through \<open>list_mut\<close>.\<close>

definition list_update :: "list_id \<Rightarrow> (dm_list \<Rightarrow> ('r \<times> dm_list) option) \<Rightarrow> value_heap
    \<Rightarrow> ((value_error + 'r) \<times> value_heap) option" where
  "list_update hid f h = (case heap_list h hid of
       Inl e \<Rightarrow> Some (Inl e, h)
     | Inr l \<Rightarrow> do {
         (r, l') \<leftarrow> f l;
         ls \<leftarrow> arena_modify (list_index hid) (list_generation hid) (\<lambda>_. l') (list_arena h);
         Some (Inr r, h\<lparr>list_arena := ls\<rparr>) })"

definition destroy_list :: "list_id \<Rightarrow> value_heap \<Rightarrow> ((value_error + dm_list) \<times> value_heap) option" where
  "destroy_list hid h = do {
     (r, ls) \<leftarrow> arena_remove (list_index hid) (list_generation hid) (list_arena h);
     Some (case r of None \<Rightarrow> Inl (StaleList hid) | Some l \<Rightarrow> Inr l, h\<lparr>list_arena := ls\<rparr>) }"

definition copy_list :: "list_id \<Rightarrow> value_heap \<Rightarrow> ((value_error + list_id) \<times> value_heap) option" where
  "copy_list source h = (case heap_list h source of
       Inl e \<Rightarrow> Some (Inl e, h)
     | Inr copy \<Rightarrow> do {
         ((index, generation), ls) \<leftarrow> arena_insert copy (list_arena h);
         Some (Inr (ListId index generation), h\<lparr>list_arena := ls\<rparr>) })"

section \<open>Datums\<close>

definition allocate_datum :: "string \<Rightarrow> value_heap \<Rightarrow> (datum_id \<times> value_heap) option" where
  "allocate_datum path h = do {
     ((index, generation), ds) \<leftarrow> arena_insert (datum_new path) (datum_arena h);
     Some (DatumId index generation, h\<lparr>datum_arena := ds\<rparr>) }"

primrec apply_layers :: "datum_defaults list \<Rightarrow> datum \<Rightarrow> datum option" where
  "apply_layers [] d = Some d"
| "apply_layers (layer # layers) d = do { d' \<leftarrow> apply_defaults layer d; apply_layers layers d' }"

definition allocate_datum_with_defaults :: "string \<Rightarrow> datum_defaults list \<Rightarrow> value_heap
    \<Rightarrow> (datum_id \<times> value_heap) option" where
  "allocate_datum_with_defaults path defaults h = do {
     d \<leftarrow> apply_layers defaults (datum_new path);
     let (d', cache) = compact_layout d (datum_layouts h);
     ((index, generation), ds) \<leftarrow> arena_insert d' (datum_arena h);
     Some (DatumId index generation, h\<lparr>datum_arena := ds, datum_layouts := cache\<rparr>) }"

definition heap_datum :: "value_heap \<Rightarrow> datum_id \<Rightarrow> value_error + datum" where
  "heap_datum h hid = (case arena_get (datum_arena h) (datum_index hid) (datum_generation hid) of
       None \<Rightarrow> Inl (StaleDatum hid)
     | Some d \<Rightarrow> Inr d)"

text \<open>A datum operation \<open>f\<close> through \<open>datum_mut\<close>.\<close>

definition datum_update :: "datum_id \<Rightarrow> (datum \<Rightarrow> ('r \<times> datum) option) \<Rightarrow> value_heap
    \<Rightarrow> ((value_error + 'r) \<times> value_heap) option" where
  "datum_update hid f h = (case heap_datum h hid of
       Inl e \<Rightarrow> Some (Inl e, h)
     | Inr d \<Rightarrow> do {
         (r, d') \<leftarrow> f d;
         ds \<leftarrow> arena_modify (datum_index hid) (datum_generation hid) (\<lambda>_. d') (datum_arena h);
         Some (Inr r, h\<lparr>datum_arena := ds\<rparr>) })"

definition compact_datum_layout :: "datum_id \<Rightarrow> value_heap \<Rightarrow> ((value_error + unit) \<times> value_heap) option" where
  "compact_datum_layout hid h = (case heap_datum h hid of
       Inl e \<Rightarrow> Some (Inl e, h)
     | Inr d \<Rightarrow> (let (d', cache) = compact_layout d (datum_layouts h) in do {
         ds \<leftarrow> arena_modify (datum_index hid) (datum_generation hid) (\<lambda>_. d') (datum_arena h);
         Some (Inr (), h\<lparr>datum_arena := ds, datum_layouts := cache\<rparr>) }))"

definition datum_field :: "value_heap \<Rightarrow> datum_id \<Rightarrow> string \<Rightarrow> (value_error + dm_value) option" where
  "datum_field h hid name = (case heap_datum h hid of Inl e \<Rightarrow> Some (Inl e) | Inr d \<Rightarrow> datum_read name d)"

definition datum_field_optional :: "value_heap \<Rightarrow> datum_id \<Rightarrow> string \<Rightarrow> (value_error + dm_value option) option" where
  "datum_field_optional h hid name = (case heap_datum h hid of
       Inl e \<Rightarrow> Some (Inl e)
     | Inr d \<Rightarrow> map_option Inr (field_optional name d))"

definition set_datum_type_path :: "datum_id \<Rightarrow> string \<Rightarrow> value_heap \<Rightarrow> ((value_error + string) \<times> value_heap) option" where
  "set_datum_type_path hid path = datum_update hid (\<lambda>d. Some (datum_type d, d\<lparr>datum_type := path\<rparr>))"

definition datum_fields_of :: "value_heap \<Rightarrow> datum_id \<Rightarrow> value_error + (string \<times> dm_value) list" where
  "datum_fields_of h hid = res_bind (heap_datum h hid) (\<lambda>d. Inr (datum_iter d))"

definition set_datum_field :: "datum_id \<Rightarrow> string \<Rightarrow> dm_value \<Rightarrow> value_heap
    \<Rightarrow> ((value_error + dm_value option) \<times> value_heap) option" where
  "set_datum_field hid name v = datum_update hid (set_field name v)"

definition delete_datum_field :: "datum_id \<Rightarrow> string \<Rightarrow> value_heap
    \<Rightarrow> ((value_error + dm_value option) \<times> value_heap) option" where
  "delete_datum_field hid name = datum_update hid (delete_field name)"

definition heap_datums :: "value_heap \<Rightarrow> (datum_id \<times> datum) list" where
  "heap_datums h = map (\<lambda>(index, generation, d). (DatumId index generation, d)) (arena_iter (datum_arena h))"

definition datum_id_at_index :: "value_heap \<Rightarrow> u32 \<Rightarrow> datum_id option" where
  "datum_id_at_index h index = map_option (DatumId index) (arena_live_generation (datum_arena h) index)"

definition list_id_at_index :: "value_heap \<Rightarrow> u32 \<Rightarrow> list_id option" where
  "list_id_at_index h index = map_option (ListId index) (arena_live_generation (list_arena h) index)"

definition destroy_datum :: "datum_id \<Rightarrow> value_heap \<Rightarrow> ((value_error + datum) \<times> value_heap) option" where
  "destroy_datum hid h = do {
     (r, ds) \<leftarrow> arena_remove (datum_index hid) (datum_generation hid) (datum_arena h);
     Some (case r of None \<Rightarrow> Inl (StaleDatum hid) | Some d \<Rightarrow> Inr d, h\<lparr>datum_arena := ds\<rparr>) }"

text \<open>Truth; a stale reference is false.\<close>

definition truthy :: "value_heap \<Rightarrow> dm_value \<Rightarrow> value_error + bool" where
  "truthy h v = Inr (case v of
       VNull \<Rightarrow> False
     | VNumber n \<Rightarrow> \<not> f32_is_zero n
     | VText t \<Rightarrow> t \<noteq> []
     | VFile p \<Rightarrow> True
     | VTypePath p \<Rightarrow> True
     | VModifiedTypePath b os \<Rightarrow> True
     | VDatum d \<Rightarrow> \<not> isl (heap_datum h d)
     | VList l \<Rightarrow> \<not> isl (heap_list h l))"

end
