(* ===== verification/HeapSnapshot.thy ===== *)
theory HeapSnapshot
  imports Heap
begin

text \<open>
  Heap images of \<open>crates/dm-value/src/lib.rs\<close>: the pointer-free \<open>ValueHeapSnapshot\<close>, written by
  \<open>snapshot\<close> and read back by \<open>from_snapshot\<close> with every handle kept. Names are checked again on
  the way in, the free lists against the slots; indexes and shared layouts are rebuilt.
\<close>

section \<open>Images\<close>

datatype snapshot_value =
    SnapNull
  | SnapNumber u32
  | SnapText string
  | SnapFile string
  | SnapTypePath string
  | SnapModifiedTypePath string "(string \<times> snapshot_value) list"
  | SnapDatum u32 u32
  | SnapList u32 u32

record snapshot_datum =
  snap_type_path :: string
  snap_fields :: "(string \<times> snapshot_value) list"

datatype snapshot_entry =
    SnapPositional snapshot_value
  | SnapAssociative snapshot_value snapshot_value

record 'a snapshot_slot =
  snap_generation :: u32
  snap_value :: "'a option"

record heap_image =
  snap_datums :: "snapshot_datum snapshot_slot list"
  snap_datum_free :: "u32 list"
  snap_lists :: "snapshot_entry list snapshot_slot list"
  snap_list_free :: "u32 list"

section \<open>Writing\<close>

fun snap_of_value :: "dm_value \<Rightarrow> snapshot_value"
  and snap_of_overrides :: "(string \<times> dm_value) list \<Rightarrow> (string \<times> snapshot_value) list" where
  "snap_of_value VNull = SnapNull"
| "snap_of_value (VNumber n) = SnapNumber n"
| "snap_of_value (VText t) = SnapText t"
| "snap_of_value (VFile p) = SnapFile p"
| "snap_of_value (VTypePath p) = SnapTypePath p"
| "snap_of_value (VModifiedTypePath b os) = SnapModifiedTypePath b (snap_of_overrides os)"
| "snap_of_value (VDatum d) = SnapDatum (datum_index d) (datum_generation d)"
| "snap_of_value (VList l) = SnapList (list_index l) (list_generation l)"
| "snap_of_overrides [] = []"
| "snap_of_overrides ((n, v) # os) = (n, snap_of_value v) # snap_of_overrides os"

definition snap_of_datum :: "datum \<Rightarrow> snapshot_datum" where
  "snap_of_datum d = \<lparr>snap_type_path = datum_type d,
     snap_fields = map (\<lambda>(n, v). (n, snap_of_value v)) (datum_iter d)\<rparr>"

definition snapshot_list_entries :: "dm_list \<Rightarrow> snapshot_entry list option" where
  "snapshot_list_entries l = do {
     live \<leftarrow> vec_slice (list_order l) (prefix_head l) (length (list_order l));
     vec_each (\<lambda>e. case order_positional_index e of
         Some index \<Rightarrow> do { v \<leftarrow> vec_get (positional l) index; Some (SnapPositional (snap_of_value v)) }
       | None \<Rightarrow> do {
           index \<leftarrow> order_associative_index e;
           (key, v) \<leftarrow> vec_get (associative l) index;
           Some (SnapAssociative (snap_of_value key) (snap_of_value v)) }) live }"

text \<open>An optional payload whose conversion may panic.\<close>

definition each_option :: "('a \<Rightarrow> 'b option) \<Rightarrow> 'a option \<Rightarrow> 'b option option" where
  "each_option f v = (case v of None \<Rightarrow> Some None | Some x \<Rightarrow> map_option Some (f x))"

definition snap_slots :: "('a \<Rightarrow> 'b option) \<Rightarrow> 'a arena \<Rightarrow> 'b snapshot_slot list option" where
  "snap_slots f a = vec_each (\<lambda>index. do {
     s \<leftarrow> arena_slot_at a index;
     v \<leftarrow> each_option f (slot_value s);
     Some \<lparr>snap_generation = slot_generation s, snap_value = v\<rparr> }) [0..<slot_len a]"

definition heap_snapshot :: "value_heap \<Rightarrow> heap_image option" where
  "heap_snapshot h = do {
     ds \<leftarrow> snap_slots (\<lambda>d. Some (snap_of_datum d)) (datum_arena h);
     ls \<leftarrow> snap_slots snapshot_list_entries (list_arena h);
     Some \<lparr>snap_datums = ds, snap_datum_free = free_slots (datum_arena h),
       snap_lists = ls, snap_list_free = free_slots (list_arena h)\<rparr> }"

section \<open>Reading\<close>

text \<open>The overrides are converted before the base path is parsed.\<close>

fun snap_into_value :: "snapshot_value \<Rightarrow> value_error + dm_value"
  and snap_into_overrides :: "(string \<times> snapshot_value) list \<Rightarrow> value_error + (string \<times> dm_value) list" where
  "snap_into_value SnapNull = Inr VNull"
| "snap_into_value (SnapNumber n) = Inr (VNumber n)"
| "snap_into_value (SnapText t) = Inr (VText t)"
| "snap_into_value (SnapFile p) = Inr (VFile p)"
| "snap_into_value (SnapTypePath p) = res_bind (type_path_parse p) (\<lambda>p. Inr (VTypePath p))"
| "snap_into_value (SnapModifiedTypePath b os) =
     res_bind (snap_into_overrides os) (\<lambda>os.
     res_bind (type_path_parse b) (\<lambda>b. Inr (VModifiedTypePath b os)))"
| "snap_into_value (SnapDatum i g) = Inr (VDatum (DatumId i g))"
| "snap_into_value (SnapList i g) = Inr (VList (ListId i g))"
| "snap_into_overrides [] = Inr []"
| "snap_into_overrides ((n, v) # os) =
     res_bind (field_name_parse n) (\<lambda>n.
     res_bind (snap_into_value v) (\<lambda>v.
     res_bind (snap_into_overrides os) (\<lambda>os. Inr ((n, v) # os))))"

definition restore_snapshot_datum :: "snapshot_datum \<Rightarrow> value_error + datum" where
  "restore_snapshot_datum sd =
     res_bind (type_path_parse (snap_type_path sd)) (\<lambda>path.
     res_bind (snap_into_overrides (snap_fields sd)) (\<lambda>fs.
       let d = \<lparr>datum_type = path, datum_fields = OwnedFields fs, field_index = None\<rparr> in
       Inr (if DATUM_FIELD_INDEX_THRESHOLD \<le> fields_len (datum_fields d) then build_field_index d else d)))"

text \<open>One round per entry, filling the two vectors and the order.\<close>

primrec restore_entries :: "snapshot_entry list \<Rightarrow> dm_list \<Rightarrow> (value_error + dm_list) option" where
  "restore_entries [] l = Some (Inr l)"
| "restore_entries (e # es) l = (case e of
       SnapPositional v \<Rightarrow> do {
         entry \<leftarrow> order_positional (length (positional l));
         (case snap_into_value v of
            Inl err \<Rightarrow> Some (Inl err)
          | Inr v \<Rightarrow> restore_entries es (l\<lparr>list_order := list_order l @ [entry], positional := positional l @ [v]\<rparr>)) }
     | SnapAssociative k v \<Rightarrow> do {
         entry \<leftarrow> order_associative (length (associative l));
         (case res_bind (snap_into_value k) (\<lambda>k. res_bind (snap_into_value v) (\<lambda>v. Inr (k, v))) of
            Inl err \<Rightarrow> Some (Inl err)
          | Inr kv \<Rightarrow> restore_entries es (l\<lparr>list_order := list_order l @ [entry], associative := associative l @ [kv]\<rparr>)) })"

definition restore_list_entries :: "(hash_write list \<Rightarrow> u64) \<Rightarrow> snapshot_entry list
    \<Rightarrow> (value_error + dm_list) option" where
  "restore_list_entries sip es = (if es = [] then Some (Inr dm_list_new)
     else do {
       r \<leftarrow> restore_entries es dm_list_new;
       (case r of
          Inl e \<Rightarrow> Some (Inl e)
        | Inr l \<Rightarrow> do { l' \<leftarrow> rebuild_associative_index sip l; Some (Inr l') }) })"

text \<open>Collecting results: the first error ends it.\<close>

primrec try_each :: "('a \<Rightarrow> ('e + 'b) option) \<Rightarrow> 'a list \<Rightarrow> ('e + 'b list) option" where
  "try_each f [] = Some (Inr [])"
| "try_each f (x # xs) = do {
     r \<leftarrow> f x;
     (case r of
        Inl e \<Rightarrow> Some (Inl e)
      | Inr y \<Rightarrow> map_option (\<lambda>r. res_bind r (\<lambda>ys. Inr (y # ys))) (try_each f xs)) }"

definition restore_slot :: "('a \<Rightarrow> (value_error + 'b) option) \<Rightarrow> 'a snapshot_slot
    \<Rightarrow> (value_error + u32 \<times> 'b option) option" where
  "restore_slot f s = (case snap_value s of
       None \<Rightarrow> Some (Inr (snap_generation s, None))
     | Some v \<Rightarrow> map_option (\<lambda>r. res_bind r (\<lambda>x. Inr (snap_generation s, Some x))) (f v))"

primrec compact_restored :: "nat list \<Rightarrow> value_heap \<Rightarrow> value_heap option" where
  "compact_restored [] h = Some h"
| "compact_restored (index # rest) h = (case arena_slot_at (datum_arena h) index of
       None \<Rightarrow> compact_restored rest h
     | Some s \<Rightarrow> (case slot_value s of
           None \<Rightarrow> compact_restored rest h
         | Some d \<Rightarrow> (let (d', cache) = compact_layout d (datum_layouts h) in do {
             ds \<leftarrow> arena_slot_write index (s\<lparr>slot_value := Some d'\<rparr>) (datum_arena h);
             compact_restored rest (h\<lparr>datum_arena := ds, datum_layouts := cache\<rparr>) })))"

definition compact_restored_datum_layouts :: "value_heap \<Rightarrow> value_heap option" where
  "compact_restored_datum_layouts h = compact_restored [0..<slot_len (datum_arena h)] h"

definition heap_from_snapshot :: "(hash_write list \<Rightarrow> u64) \<Rightarrow> heap_image
    \<Rightarrow> (value_error + value_heap) option" where
  "heap_from_snapshot sip snap = do {
     datum_slots \<leftarrow> try_each (restore_slot (\<lambda>d. Some (restore_snapshot_datum d))) (snap_datums snap);
     (case datum_slots of
        Inl e \<Rightarrow> Some (Inl e)
      | Inr datum_slots \<Rightarrow> do {
          list_slots \<leftarrow> try_each (restore_slot (restore_list_entries sip)) (snap_lists snap);
          (case list_slots of
             Inl e \<Rightarrow> Some (Inl e)
           | Inr list_slots \<Rightarrow>
               (case res_bind (arena_from_snapshot_slots datum_slots (snap_datum_free snap) ''datum'') (\<lambda>ds.
                     res_bind (arena_from_snapshot_slots list_slots (snap_list_free snap) ''list'') (\<lambda>ls.
                     Inr \<lparr>datum_arena = ds, list_arena = ls, datum_layouts = layout_cache_new\<rparr>)) of
                  Inl e \<Rightarrow> Some (Inl e)
                | Inr h \<Rightarrow> map_option Inr (compact_restored_datum_layouts h))) }) }"

end
