(* ===== verification/HeapContainer.thy ===== *)
theory HeapContainer
  imports HeapSnapshot CodecIO
begin

text \<open>
  The versioned binary container of heap images, \<open>crates/dm-value/src/snapshot.rs\<close>: a writer and a
  reader of the pointer-free image, and the streaming pair that works on the heap itself. The
  destination is a growing byte vector, so a writer is the bytes it appends; the source is a byte
  slice, which implements \<open>Read\<close> by advancing, so a reader takes the bytes left and returns the
  bytes left. Lengths are 64-bit little-endian, other integers 32-bit.
\<close>

section \<open>Limits and errors\<close>

definition HEAP_MAGIC :: "u8 list" where "HEAP_MAGIC = as_bytes ''D64HEAP'' @ [0]"
definition HEAP_VERSION :: u32 where "HEAP_VERSION = 1"
definition MAX_SLOTS :: nat where "MAX_SLOTS = 100000000"
definition MAX_ENTRIES :: nat where "MAX_ENTRIES = 100000000"
definition MAX_HEAP_STRING_BYTES :: nat where "MAX_HEAP_STRING_BYTES = 64 * 1024 * 1024"
definition MAX_VALUE_DEPTH :: nat where "MAX_VALUE_DEPTH = 64"

datatype heap_io_error =
    UnexpectedEof
  | HeapMagicMismatch
  | UnsupportedHeapVersion u32
  | RecordLengthExceeds nat nat
  | HeapStringNotUtf8
  | InvalidDatumPresence u8
  | InvalidListPresence u8
  | InvalidArenaPresence u8
  | InvalidListEntryTag u8
  | InvalidHeapValueTag u8
  | ValueNestingExceeds
  | HeapImageRejected value_error

section \<open>Writing\<close>

definition put_u32 :: "u32 \<Rightarrow> u8 list" where "put_u32 v = le_bytes 4 v"

definition put_len :: "nat \<Rightarrow> u8 list" where "put_len n = le_bytes 8 (of_nat n :: u64)"

definition put_u32_vec :: "u32 list \<Rightarrow> u8 list" where
  "put_u32_vec vs = put_len (length vs) @ concat (map put_u32 vs)"

definition put_string :: "string \<Rightarrow> u8 list" where
  "put_string s = put_len (length s) @ as_bytes s"

fun put_value :: "snapshot_value \<Rightarrow> u8 list"
  and put_overrides :: "(string \<times> snapshot_value) list \<Rightarrow> u8 list" where
  "put_value SnapNull = [0]"
| "put_value (SnapNumber bits) = [1] @ put_u32 bits"
| "put_value (SnapText t) = [2] @ put_string t"
| "put_value (SnapFile p) = [3] @ put_string p"
| "put_value (SnapTypePath p) = [4] @ put_string p"
| "put_value (SnapModifiedTypePath b os) = [5] @ put_string b @ put_len (length os) @ put_overrides os"
| "put_value (SnapDatum i g) = [6] @ put_u32 i @ put_u32 g"
| "put_value (SnapList i g) = [7] @ put_u32 i @ put_u32 g"
| "put_overrides [] = []"
| "put_overrides ((n, v) # os) = put_string n @ put_value v @ put_overrides os"

definition put_datum :: "snapshot_datum \<Rightarrow> u8 list" where
  "put_datum d = put_string (snap_type_path d) @ put_len (length (snap_fields d))
     @ concat (map (\<lambda>(n, v). put_string n @ put_value v) (snap_fields d))"

fun put_entry :: "snapshot_entry \<Rightarrow> u8 list" where
  "put_entry (SnapPositional v) = [0] @ put_value v"
| "put_entry (SnapAssociative k v) = [1] @ put_value k @ put_value v"

definition put_list :: "snapshot_entry list \<Rightarrow> u8 list" where
  "put_list es = put_len (length es) @ concat (map put_entry es)"

definition put_slot :: "('a \<Rightarrow> u8 list) \<Rightarrow> 'a snapshot_slot \<Rightarrow> u8 list" where
  "put_slot f s = put_u32 (snap_generation s) @ [if snap_value s \<noteq> None then 1 else 0]
     @ (case snap_value s of None \<Rightarrow> [] | Some v \<Rightarrow> f v)"

definition put_slots :: "('a \<Rightarrow> u8 list) \<Rightarrow> 'a snapshot_slot list \<Rightarrow> u8 list" where
  "put_slots f ss = put_len (length ss) @ concat (map (put_slot f) ss)"

definition put_image :: "heap_image \<Rightarrow> u8 list" where
  "put_image s = HEAP_MAGIC @ put_u32 HEAP_VERSION @ put_slots put_datum (snap_datums s)
     @ put_u32_vec (snap_datum_free s) @ put_slots put_list (snap_lists s) @ put_u32_vec (snap_list_free s)"

subsection \<open>Writing the heap itself\<close>

fun put_runtime_value :: "dm_value \<Rightarrow> u8 list"
  and put_runtime_overrides :: "(string \<times> dm_value) list \<Rightarrow> u8 list" where
  "put_runtime_value VNull = [0]"
| "put_runtime_value (VNumber n) = [1] @ put_u32 n"
| "put_runtime_value (VText t) = [2] @ put_string t"
| "put_runtime_value (VFile p) = [3] @ put_string p"
| "put_runtime_value (VTypePath p) = [4] @ put_string p"
| "put_runtime_value (VModifiedTypePath b os) =
     [5] @ put_string b @ put_len (length os) @ put_runtime_overrides os"
| "put_runtime_value (VDatum d) = [6] @ put_u32 (datum_index d) @ put_u32 (datum_generation d)"
| "put_runtime_value (VList l) = [7] @ put_u32 (list_index l) @ put_u32 (list_generation l)"
| "put_runtime_overrides [] = []"
| "put_runtime_overrides ((n, v) # os) = put_string n @ put_runtime_value v @ put_runtime_overrides os"

definition put_runtime_list :: "dm_list \<Rightarrow> u8 list option" where
  "put_runtime_list l = do {
     live \<leftarrow> vec_slice (list_order l) (prefix_head l) (length (list_order l));
     bytes \<leftarrow> vec_each (\<lambda>e. case order_positional_index e of
         Some index \<Rightarrow> do { v \<leftarrow> vec_get (positional l) index; Some ([0] @ put_runtime_value v) }
       | None \<Rightarrow> do {
           index \<leftarrow> order_associative_index e;
           (key, v) \<leftarrow> vec_get (associative l) index;
           Some ([1] @ put_runtime_value key @ put_runtime_value v) }) live;
     Some (put_len (length live) @ concat bytes) }"

definition put_runtime_datum :: "datum \<Rightarrow> u8 list" where
  "put_runtime_datum d = put_string (datum_type d) @ put_len (fields_len (datum_fields d))
     @ concat (map (\<lambda>(n, v). put_string n @ put_runtime_value v) (datum_iter d))"

text \<open>The slots of one arena; \<open>None\<close> is the panic of a slot or an entry that is not there.\<close>

definition put_arena :: "('a \<Rightarrow> u8 list option) \<Rightarrow> 'a arena \<Rightarrow> u8 list option" where
  "put_arena f a = do {
     bytes \<leftarrow> vec_each (\<lambda>index. do {
       s \<leftarrow> arena_slot_at a index;
       payload \<leftarrow> (case slot_value s of None \<Rightarrow> Some [] | Some v \<Rightarrow> f v);
       Some (put_u32 (slot_generation s) @ [if slot_value s \<noteq> None then 1 else 0] @ payload) }) [0..<slot_len a];
     Some (put_len (slot_len a) @ concat bytes) }"

definition write_snapshot_to :: "value_heap \<Rightarrow> u8 list option" where
  "write_snapshot_to h = do {
     datums \<leftarrow> put_arena (\<lambda>d. Some (put_runtime_datum d)) (datum_arena h);
     lists \<leftarrow> put_arena put_runtime_list (list_arena h);
     Some (HEAP_MAGIC @ put_u32 HEAP_VERSION @ datums @ put_u32_vec (free_slots (datum_arena h))
       @ lists @ put_u32_vec (free_slots (list_arena h))) }"

section \<open>Reading\<close>

type_synonym 'a get = "u8 list \<Rightarrow> heap_io_error + 'a \<times> u8 list"

definition get_bind :: "heap_io_error + 'a \<times> u8 list \<Rightarrow> ('a \<Rightarrow> 'b get) \<Rightarrow> heap_io_error + 'b \<times> u8 list" where
  "get_bind r f = (case r of Inl e \<Rightarrow> Inl e | Inr (x, bs) \<Rightarrow> f x bs)"

definition read_exact :: "nat \<Rightarrow> u8 list get" where
  "read_exact n bs = (if length bs < n then Inl UnexpectedEof else Inr (take n bs, drop n bs))"

definition get_u8 :: "u8 get" where
  "get_u8 bs = get_bind (read_exact 1 bs) (\<lambda>b bs. Inr (b ! 0, bs))"

definition get_u32 :: "u32 get" where
  "get_u32 bs = get_bind (read_exact 4 bs) (\<lambda>b bs. Inr (from_le b, bs))"

text \<open>\<open>usize::try_from\<close> of a \<open>u64\<close> cannot fail on 64-bit hosts.\<close>

definition get_len :: "nat \<Rightarrow> nat get" where
  "get_len mx bs = get_bind (read_exact 8 bs) (\<lambda>b bs.
     let v = unat (from_le b :: u64) in
     if mx < v then Inl (RecordLengthExceeds v mx) else Inr (v, bs))"

text \<open>\<open>for _ in 0..n\<close>, pushing what one round reads.\<close>

primrec get_repeat :: "'a get \<Rightarrow> nat \<Rightarrow> 'a list get" where
  "get_repeat f 0 bs = Inr ([], bs)"
| "get_repeat f (Suc n) bs = get_bind (f bs) (\<lambda>x bs.
     get_bind (get_repeat f n bs) (\<lambda>xs bs. Inr (x # xs, bs)))"

definition get_u32_vec :: "nat \<Rightarrow> u32 list get" where
  "get_u32_vec mx bs = get_bind (get_len mx bs) (get_repeat get_u32)"

definition get_string :: "string get" where
  "get_string bs = get_bind (get_len MAX_HEAP_STRING_BYTES bs) (\<lambda>n bs.
     get_bind (read_exact n bs) (\<lambda>raw bs.
       case from_utf8 raw of None \<Rightarrow> Inl HeapStringNotUtf8 | Some s \<Rightarrow> Inr (s, bs)))"

text \<open>\<open>read_value\<close> with the rounds of its override loop; the nesting bounds the recursion.\<close>

function get_value :: "nat \<Rightarrow> snapshot_value get"
  and get_overrides :: "nat \<Rightarrow> nat \<Rightarrow> (string \<times> snapshot_value) list get" where
  "get_value depth bs = (if MAX_VALUE_DEPTH < depth then Inl ValueNestingExceeds else
     get_bind (get_u8 bs) (\<lambda>tag bs.
       if tag = 0 then Inr (SnapNull, bs)
       else if tag = 1 then get_bind (get_u32 bs) (\<lambda>n bs. Inr (SnapNumber n, bs))
       else if tag = 2 then get_bind (get_string bs) (\<lambda>t bs. Inr (SnapText t, bs))
       else if tag = 3 then get_bind (get_string bs) (\<lambda>p bs. Inr (SnapFile p, bs))
       else if tag = 4 then get_bind (get_string bs) (\<lambda>p bs. Inr (SnapTypePath p, bs))
       else if tag = 5 then get_bind (get_string bs) (\<lambda>b bs.
         get_bind (get_len MAX_ENTRIES bs) (\<lambda>n bs.
         get_bind (get_overrides n (Suc depth) bs) (\<lambda>os bs. Inr (SnapModifiedTypePath b os, bs))))
       else if tag = 6 then get_bind (get_u32 bs) (\<lambda>i bs.
         get_bind (get_u32 bs) (\<lambda>g bs. Inr (SnapDatum i g, bs)))
       else if tag = 7 then get_bind (get_u32 bs) (\<lambda>i bs.
         get_bind (get_u32 bs) (\<lambda>g bs. Inr (SnapList i g, bs)))
       else Inl (InvalidHeapValueTag tag)))"
| "get_overrides 0 depth bs = Inr ([], bs)"
| "get_overrides (Suc n) depth bs = get_bind (get_string bs) (\<lambda>name bs.
     get_bind (get_value depth bs) (\<lambda>v bs.
     get_bind (get_overrides n depth bs) (\<lambda>os bs. Inr ((name, v) # os, bs))))"
  by pat_completeness auto
termination
  by (relation "inv_image (less_than <*lex*> less_than) (\<lambda>x. case x of
        Inl (depth, bs) \<Rightarrow> (MAX_VALUE_DEPTH + 1 - depth, 0)
      | Inr (n, depth, bs) \<Rightarrow> (MAX_VALUE_DEPTH + 1 - depth, Suc n))") auto

declare get_value.simps [simp del]

definition get_datum :: "snapshot_datum get" where
  "get_datum bs = get_bind (get_string bs) (\<lambda>path bs.
     get_bind (get_len MAX_ENTRIES bs) (\<lambda>n bs.
     get_bind (get_repeat (\<lambda>bs. get_bind (get_string bs) (\<lambda>name bs.
         get_bind (get_value 0 bs) (\<lambda>v bs. Inr ((name, v), bs)))) n bs) (\<lambda>fs bs.
       Inr (\<lparr>snap_type_path = path, snap_fields = fs\<rparr>, bs))))"

definition get_entry :: "snapshot_entry get" where
  "get_entry bs = get_bind (get_u8 bs) (\<lambda>tag bs.
     if tag = 0 then get_bind (get_value 0 bs) (\<lambda>v bs. Inr (SnapPositional v, bs))
     else if tag = 1 then get_bind (get_value 0 bs) (\<lambda>k bs.
       get_bind (get_value 0 bs) (\<lambda>v bs. Inr (SnapAssociative k v, bs)))
     else Inl (InvalidListEntryTag tag))"

definition get_list :: "snapshot_entry list get" where
  "get_list bs = get_bind (get_len MAX_ENTRIES bs) (get_repeat get_entry)"

definition get_slot :: "'a get \<Rightarrow> 'a snapshot_slot get" where
  "get_slot f bs = get_bind (get_u32 bs) (\<lambda>generation bs. get_bind (get_u8 bs) (\<lambda>tag bs.
     if tag = 0 then Inr (\<lparr>snap_generation = generation, snap_value = None\<rparr>, bs)
     else if tag = 1 then get_bind (f bs) (\<lambda>v bs.
       Inr (\<lparr>snap_generation = generation, snap_value = Some v\<rparr>, bs))
     else Inl (InvalidArenaPresence tag)))"

definition get_slots :: "'a get \<Rightarrow> 'a snapshot_slot list get" where
  "get_slots f bs = get_bind (get_len MAX_SLOTS bs) (get_repeat (get_slot f))"

definition get_header :: "unit get" where
  "get_header bs = get_bind (read_exact (length HEAP_MAGIC) bs) (\<lambda>magic bs.
     if magic \<noteq> HEAP_MAGIC then Inl HeapMagicMismatch
     else get_bind (get_u32 bs) (\<lambda>version bs.
       if version \<noteq> HEAP_VERSION then Inl (UnsupportedHeapVersion version) else Inr ((), bs)))"

definition get_image :: "heap_image get" where
  "get_image bs = get_bind (get_header bs) (\<lambda>_ bs.
     get_bind (get_slots get_datum bs) (\<lambda>datums bs.
     get_bind (get_u32_vec MAX_SLOTS bs) (\<lambda>datum_free bs.
     get_bind (get_slots get_list bs) (\<lambda>lists bs.
     get_bind (get_u32_vec MAX_SLOTS bs) (\<lambda>list_free bs.
       Inr (\<lparr>snap_datums = datums, snap_datum_free = datum_free, snap_lists = lists,
              snap_list_free = list_free\<rparr>, bs))))))"

subsection \<open>Loading the heap itself\<close>

text \<open>
  One round of a slot loop: the payload is restored as soon as it is read, and the slot is pushed.
  The outer option is the panic of restoring a list.
\<close>

definition load_slot :: "(u8 \<Rightarrow> heap_io_error) \<Rightarrow> 'a get \<Rightarrow> ('a \<Rightarrow> (value_error + 'b) option)
    \<Rightarrow> 'b arena \<Rightarrow> u8 list \<Rightarrow> (heap_io_error + 'b arena \<times> u8 list) option" where
  "load_slot bad f restore a bs =
     (case get_bind (get_u32 bs) (\<lambda>generation bs. get_bind (get_u8 bs) (\<lambda>tag bs. Inr ((generation, tag), bs))) of
        Inl e \<Rightarrow> Some (Inl e)
      | Inr ((generation, tag), bs) \<Rightarrow>
          if tag = 0 then Some (Inr (push_snapshot_slot generation None a, bs))
          else if tag = 1 then
            (case f bs of
               Inl e \<Rightarrow> Some (Inl e)
             | Inr (v, bs) \<Rightarrow> do {
                 r \<leftarrow> restore v;
                 Some (case r of
                     Inl e \<Rightarrow> Inl (HeapImageRejected e)
                   | Inr x \<Rightarrow> Inr (push_snapshot_slot generation (Some x) a, bs)) })
          else Some (Inl (bad tag)))"

primrec load_slots :: "(u8 \<Rightarrow> heap_io_error) \<Rightarrow> 'a get \<Rightarrow> ('a \<Rightarrow> (value_error + 'b) option)
    \<Rightarrow> nat \<Rightarrow> 'b arena \<Rightarrow> u8 list \<Rightarrow> (heap_io_error + 'b arena \<times> u8 list) option" where
  "load_slots bad f restore 0 a bs = Some (Inr (a, bs))"
| "load_slots bad f restore (Suc n) a bs = do {
     r \<leftarrow> load_slot bad f restore a bs;
     (case r of Inl e \<Rightarrow> Some (Inl e) | Inr (a, bs) \<Rightarrow> load_slots bad f restore n a bs) }"

definition load_arena :: "(u8 \<Rightarrow> heap_io_error) \<Rightarrow> 'a get \<Rightarrow> ('a \<Rightarrow> (value_error + 'b) option) \<Rightarrow> string
    \<Rightarrow> u8 list \<Rightarrow> (heap_io_error + 'b arena \<times> u8 list) option" where
  "load_arena bad f restore kind bs = (case get_len MAX_SLOTS bs of
       Inl e \<Rightarrow> Some (Inl e)
     | Inr (n, bs) \<Rightarrow> do {
         r \<leftarrow> load_slots bad f restore n arena_new bs;
         Some (get_bind r (\<lambda>a bs. get_bind (get_u32_vec MAX_SLOTS bs) (\<lambda>free bs.
           case install_snapshot_free free kind a of
             Inl e \<Rightarrow> Inl (HeapImageRejected e) | Inr a \<Rightarrow> Inr (a, bs)))) })"

definition read_snapshot_from :: "(hash_write list \<Rightarrow> u64) \<Rightarrow> u8 list
    \<Rightarrow> (heap_io_error + value_heap \<times> u8 list) option" where
  "read_snapshot_from sip bs = (case get_header bs of
       Inl e \<Rightarrow> Some (Inl e)
     | Inr (_, bs) \<Rightarrow> do {
         r \<leftarrow> load_arena InvalidDatumPresence get_datum (\<lambda>d. Some (restore_snapshot_datum d)) ''datum'' bs;
         (case r of
            Inl e \<Rightarrow> Some (Inl e)
          | Inr (ds, bs) \<Rightarrow> do {
              r \<leftarrow> load_arena InvalidListPresence get_list (restore_list_entries sip) ''list'' bs;
              (case r of
                 Inl e \<Rightarrow> Some (Inl e)
               | Inr (ls, bs) \<Rightarrow> map_option (\<lambda>h. Inr (h, bs)) (compact_restored_datum_layouts
                   \<lparr>datum_arena = ds, list_arena = ls, datum_layouts = layout_cache_new\<rparr>)) }) })"

end
