(* ===== verification/HeapGc.thy ===== *)
theory HeapGc
  imports Heap
begin

text \<open>
  The collectors of \<open>ValueHeap\<close> (\<open>crates/dm-value/src/lib.rs\<close>): \<open>collect_unreachable_values\<close> marks
  datums and lists from the roots through fields, entries and the overrides of modified type paths,
  then sweeps both arenas; \<open>collect_unreachable_lists\<close> keeps every datum and marks lists only. The
  parallel validation of roots keeps their order and is a filter here. Telemetry is left out.
\<close>

section \<open>Datums and lists\<close>

datatype pending = PendingDatum datum_id | PendingList list_id

record gc_state =
  pending_ids :: "pending list"
  marked_datums :: "bool list"
  marked_lists :: "bool list"

definition enqueue_datum :: "value_heap \<Rightarrow> datum_id \<Rightarrow> gc_state \<Rightarrow> gc_state" where
  "enqueue_datum h d st = (let index = unat (datum_index d) in
     if length (marked_datums st) \<le> index \<or> marked_datums st ! index \<or> isl (heap_datum h d) then st
     else st\<lparr>marked_datums := (marked_datums st)[index := True],
       pending_ids := pending_ids st @ [PendingDatum d]\<rparr>)"

definition enqueue_list :: "value_heap \<Rightarrow> list_id \<Rightarrow> gc_state \<Rightarrow> gc_state" where
  "enqueue_list h l st = (let index = unat (list_index l) in
     if length (marked_lists st) \<le> index \<or> marked_lists st ! index \<or> isl (heap_list h l) then st
     else st\<lparr>marked_lists := (marked_lists st)[index := True],
       pending_ids := pending_ids st @ [PendingList l]\<rparr>)"

fun enqueue_value :: "value_heap \<Rightarrow> dm_value \<Rightarrow> gc_state \<Rightarrow> gc_state"
  and enqueue_overrides :: "value_heap \<Rightarrow> (string \<times> dm_value) list \<Rightarrow> gc_state \<Rightarrow> gc_state" where
  "enqueue_value h (VDatum d) st = enqueue_datum h d st"
| "enqueue_value h (VList l) st = enqueue_list h l st"
| "enqueue_value h (VModifiedTypePath b os) st = enqueue_overrides h os st"
| "enqueue_value h VNull st = st"
| "enqueue_value h (VNumber n) st = st"
| "enqueue_value h (VText t) st = st"
| "enqueue_value h (VFile p) st = st"
| "enqueue_value h (VTypePath p) st = st"
| "enqueue_overrides h [] st = st"
| "enqueue_overrides h ((n, v) # os) st = enqueue_overrides h os (enqueue_value h v st)"

text \<open>What an object holds: the fields of a datum; the shown values of a list, then its associated values.\<close>

definition object_values :: "value_heap \<Rightarrow> pending \<Rightarrow> dm_value list option" where
  "object_values h p = (case p of
       PendingDatum d \<Rightarrow> (case heap_datum h d of Inl e \<Rightarrow> Some [] | Inr o' \<Rightarrow> Some (map snd (datum_iter o')))
     | PendingList l \<Rightarrow> (case heap_list h l of
           Inl e \<Rightarrow> Some []
         | Inr o' \<Rightarrow> do { ps \<leftarrow> positions o'; Some (map snd ps @ map snd (associations o')) }))"

definition scan_object :: "value_heap \<Rightarrow> pending \<Rightarrow> gc_state \<Rightarrow> gc_state option" where
  "scan_object h p st = do {
     vs \<leftarrow> object_values h p;
     Some (fold (enqueue_value h) vs st) }"

text \<open>The unmarked objects weigh two, the pending ones one: every round makes the sum smaller.\<close>

definition gc_weight :: "gc_state \<Rightarrow> nat" where
  "gc_weight st = 2 * length (filter Not (marked_datums st)) + 2 * length (filter Not (marked_lists st))
     + length (pending_ids st)"

lemma unmarked_update:
  "i < length ms \<Longrightarrow> \<not> ms ! i \<Longrightarrow> length (filter Not ms) = Suc (length (filter Not (ms[i := True])))"
  by (induction ms arbitrary: i) (auto split: nat.split simp: less_Suc_eq_0_disj)

lemma enqueue_datum_weight: "gc_weight (enqueue_datum h d st) \<le> gc_weight st"
  using unmarked_update [of "unat (datum_index d)" "marked_datums st"]
  by (auto simp: enqueue_datum_def gc_weight_def Let_def)

lemma enqueue_list_weight: "gc_weight (enqueue_list h l st) \<le> gc_weight st"
  using unmarked_update [of "unat (list_index l)" "marked_lists st"]
  by (auto simp: enqueue_list_def gc_weight_def Let_def)

lemma enqueue_weight:
  "gc_weight (enqueue_value h v st) \<le> gc_weight st"
  "gc_weight (enqueue_overrides h os st) \<le> gc_weight st"
  by (induction h v st and h os st rule: enqueue_value_enqueue_overrides.induct)
    (auto simp: enqueue_datum_weight enqueue_list_weight intro: order_trans)

lemma scan_object_weight: "scan_object h p st = Some st' \<Longrightarrow> gc_weight st' \<le> gc_weight st"
proof -
  have "gc_weight (fold (enqueue_value h) vs st) \<le> gc_weight st" for vs
    by (induction vs arbitrary: st) (auto intro: order_trans enqueue_weight)
  then show "scan_object h p st = Some st' \<Longrightarrow> gc_weight st' \<le> gc_weight st"
    by (auto simp: scan_object_def)
qed

lemma pop_weight:
  "pending_ids st \<noteq> [] \<Longrightarrow>
   gc_weight st = Suc (gc_weight (st\<lparr>pending_ids := butlast (pending_ids st)\<rparr>))"
  by (cases "pending_ids st") (auto simp: gc_weight_def)

text \<open>\<open>while let Some(value) = pending.pop()\<close>.\<close>

function mark_loop :: "value_heap \<Rightarrow> gc_state \<Rightarrow> gc_state option" where
  "mark_loop h st =
     (if pending_ids st = [] then Some st
      else case scan_object h (last (pending_ids st)) (st\<lparr>pending_ids := butlast (pending_ids st)\<rparr>) of
          None \<Rightarrow> None
        | Some st' \<Rightarrow> mark_loop h st')"
  by pat_completeness auto
termination
  by (relation "measure (\<lambda>(h, st). gc_weight st)")
    (auto dest!: scan_object_weight simp: pop_weight less_Suc_eq_le)

declare mark_loop.simps [simp del]

text \<open>The roots, validated first: \<open>marked_datums[index]\<close> panics past the end.\<close>

primrec mark_datum_roots :: "datum_id list \<Rightarrow> gc_state \<Rightarrow> gc_state option" where
  "mark_datum_roots [] st = Some st"
| "mark_datum_roots (d # ds) st = do {
     m \<leftarrow> vec_get (marked_datums st) (unat (datum_index d));
     mark_datum_roots ds (if m then st
       else st\<lparr>marked_datums := (marked_datums st)[unat (datum_index d) := True],
         pending_ids := pending_ids st @ [PendingDatum d]\<rparr>) }"

primrec mark_list_roots :: "list_id list \<Rightarrow> gc_state \<Rightarrow> gc_state option" where
  "mark_list_roots [] st = Some st"
| "mark_list_roots (l # ls) st = do {
     m \<leftarrow> vec_get (marked_lists st) (unat (list_index l));
     mark_list_roots ls (if m then st
       else st\<lparr>marked_lists := (marked_lists st)[unat (list_index l) := True],
         pending_ids := pending_ids st @ [PendingList l]\<rparr>) }"

definition mark_from_ids :: "value_heap \<Rightarrow> datum_id list \<Rightarrow> list_id list \<Rightarrow> gc_state option" where
  "mark_from_ids h datum_roots list_roots = do {
     st \<leftarrow> mark_datum_roots (filter (\<lambda>d. \<not> isl (heap_datum h d)) datum_roots)
       \<lparr>pending_ids = [], marked_datums = replicate (slot_len (datum_arena h)) False,
         marked_lists = replicate (slot_len (list_arena h)) False\<rparr>;
     st' \<leftarrow> mark_list_roots (filter (\<lambda>l. \<not> isl (heap_list h l)) list_roots) st;
     mark_loop h st' }"

text \<open>
  \<open>entry_bytes\<close> is the in-memory size of a list entry and \<open>shared\<close> which list slots share
  their storage with another owner: neither shows in the values of the heap.
\<close>

definition collect_unreachable_values_from_ids :: "nat \<Rightarrow> (nat \<Rightarrow> bool) \<Rightarrow> datum_id list \<Rightarrow> list_id list
    \<Rightarrow> value_heap \<Rightarrow> ((nat \<times> nat) \<times> value_heap) option" where
  "collect_unreachable_values_from_ids entry_bytes shared datum_roots list_roots h = do {
     st \<leftarrow> mark_from_ids h datum_roots list_roots;
     (reclaimed_lists, ls) \<leftarrow> sweep_unmarked_with (marked_lists st)
       (\<lambda>index. gc_compact_list entry_bytes (shared index)) (list_arena h);
     (reclaimed_datums, ds) \<leftarrow> sweep_unmarked_with (marked_datums st)
       (\<lambda>index d. Some (gc_compact_datum d)) (datum_arena h);
     Some ((reclaimed_datums, reclaimed_lists), h\<lparr>datum_arena := ds, list_arena := ls\<rparr>) }"

fun root_ids :: "dm_value \<Rightarrow> datum_id list \<times> list_id list \<Rightarrow> datum_id list \<times> list_id list"
  and override_ids :: "(string \<times> dm_value) list \<Rightarrow> datum_id list \<times> list_id list \<Rightarrow> datum_id list \<times> list_id list" where
  "root_ids (VDatum d) ids = (fst ids @ [d], snd ids)"
| "root_ids (VList l) ids = (fst ids, snd ids @ [l])"
| "root_ids (VModifiedTypePath b os) ids = override_ids os ids"
| "root_ids VNull ids = ids"
| "root_ids (VNumber n) ids = ids"
| "root_ids (VText t) ids = ids"
| "root_ids (VFile p) ids = ids"
| "root_ids (VTypePath p) ids = ids"
| "override_ids [] ids = ids"
| "override_ids ((n, v) # os) ids = override_ids os (root_ids v ids)"

definition collect_unreachable_values :: "nat \<Rightarrow> (nat \<Rightarrow> bool) \<Rightarrow> dm_value list \<Rightarrow> value_heap
    \<Rightarrow> ((nat \<times> nat) \<times> value_heap) option" where
  "collect_unreachable_values entry_bytes shared roots h =
     (let (datum_roots, list_roots) = fold root_ids roots ([], []) in
      collect_unreachable_values_from_ids entry_bytes shared datum_roots list_roots h)"

section \<open>Lists only\<close>

fun enqueue_lists :: "dm_value \<Rightarrow> list_id list \<Rightarrow> list_id list"
  and enqueue_override_lists :: "(string \<times> dm_value) list \<Rightarrow> list_id list \<Rightarrow> list_id list" where
  "enqueue_lists (VList l) ids = ids @ [l]"
| "enqueue_lists (VModifiedTypePath b os) ids = enqueue_override_lists os ids"
| "enqueue_lists VNull ids = ids"
| "enqueue_lists (VNumber n) ids = ids"
| "enqueue_lists (VText t) ids = ids"
| "enqueue_lists (VFile p) ids = ids"
| "enqueue_lists (VTypePath p) ids = ids"
| "enqueue_lists (VDatum d) ids = ids"
| "enqueue_override_lists [] ids = ids"
| "enqueue_override_lists ((n, v) # os) ids = enqueue_override_lists os (enqueue_lists v ids)"

lemma finite_list_ids: "finite (A :: list_id set)"
proof -
  have "A \<subseteq> (\<lambda>(i, g). ListId i g) ` UNIV"
  proof
    fix x :: list_id
    show "x \<in> (\<lambda>(i, g). ListId i g) ` UNIV"
      by (cases x) (auto intro: image_eqI [of _ _ "(list_index x, list_generation x)"])
  qed
  then show ?thesis by (rule finite_subset) simp
qed

function mark_lists_loop :: "value_heap \<Rightarrow> list_id list \<Rightarrow> list_id set \<Rightarrow> list_id set option" where
  "mark_lists_loop h ids marked =
     (if ids = [] then Some marked
      else let l = last ids; rest = butlast ids in
        if l \<in> marked then mark_lists_loop h rest marked
        else case object_values h (PendingList l) of
            None \<Rightarrow> None
          | Some vs \<Rightarrow> mark_lists_loop h (fold enqueue_lists vs rest) (insert l marked))"
  by pat_completeness auto
termination
proof (relation "measures [\<lambda>(h, ids, marked). card (- marked), \<lambda>(h, ids, marked). length ids]", goal_cases)
  case (3 h ids marked l rest vs)
  then have "- insert l marked = - marked - {l}" "l \<in> - marked" by auto
  then show ?case using card_Diff1_less [OF finite_list_ids, of l "- marked"] by simp
qed (auto simp: Let_def)

declare mark_lists_loop.simps [simp del]

primrec remove_lists :: "(u32 \<times> u32) list \<Rightarrow> dm_list arena \<Rightarrow> dm_list arena option" where
  "remove_lists [] ls = Some ls"
| "remove_lists (k # ks) ls = do { (_, ls') \<leftarrow> arena_remove (fst k) (snd k) ls; remove_lists ks ls' }"

definition collect_unreachable_lists :: "dm_value list \<Rightarrow> value_heap \<Rightarrow> (nat \<times> value_heap) option" where
  "collect_unreachable_lists roots h = do {
     marked \<leftarrow> mark_lists_loop h
       (fold enqueue_lists (concat (map (\<lambda>(_, d). map snd (datum_iter d)) (heap_datums h)) @ roots) []) {};
     let unreachable = filter (\<lambda>(index, generation). ListId index generation \<notin> marked)
       (map (\<lambda>(index, generation, _). (index, generation)) (arena_iter (list_arena h)));
     ls \<leftarrow> remove_lists unreachable (list_arena h);
     Some (length unreachable, h\<lparr>list_arena := ls\<rparr>) }"

end
