(* ===== verification/ArenaLaws.thy ===== *)
theory ArenaLaws
  imports Arena
begin

text \<open>
  The laws of the arena: chunking is invisible, handles resolve as a finite map from handles to
  values, and a handle that has been removed never resolves again.
\<close>

section \<open>Chunks as one vector\<close>

fun chunked :: "'s list list \<Rightarrow> bool" where
  "chunked [] = True"
| "chunked [c] = (0 < length c \<and> length c \<le> ARENA_CHUNK_SLOTS)"
| "chunked (c # c' # cs) = (length c = ARENA_CHUNK_SLOTS \<and> chunked (c' # cs))"

lemma chunk_slots_pos [simp]: "0 < ARENA_CHUNK_SLOTS"
  by (simp add: ARENA_CHUNK_SLOTS_def)

lemma chunked_get:
  "chunked cs \<Longrightarrow> Option.bind (vec_get cs (i div ARENA_CHUNK_SLOTS)) (\<lambda>c. vec_get c (i mod ARENA_CHUNK_SLOTS))
    = vec_get (concat cs) i"
proof (induction cs arbitrary: i rule: chunked.induct)
  case (2 c)
  show ?case
  proof (cases "i < ARENA_CHUNK_SLOTS")
    case False
    then have "0 < i div ARENA_CHUNK_SLOTS" by (simp add: div_greater_zero_iff)
    with 2 False show ?thesis by (auto simp: vec_get_def)
  qed (simp add: vec_get_def)
next
  case (3 c c' cs)
  show ?case
  proof (cases "i < ARENA_CHUNK_SLOTS")
    case True
    with 3 show ?thesis by (simp add: vec_get_def nth_append)
  next
    case False
    then have "i div ARENA_CHUNK_SLOTS = Suc ((i - ARENA_CHUNK_SLOTS) div ARENA_CHUNK_SLOTS)"
        "i mod ARENA_CHUNK_SLOTS = (i - ARENA_CHUNK_SLOTS) mod ARENA_CHUNK_SLOTS"
      by (simp_all add: le_div_geq le_mod_geq)
    moreover have "vec_get (c # c' # cs) (Suc k) = vec_get (c' # cs) k" for k by (simp add: vec_get_def)
    moreover have "vec_get (c @ concat (c' # cs)) i = vec_get (concat (c' # cs)) (i - ARENA_CHUNK_SLOTS)"
      using 3(2) False by (auto simp: vec_get_def nth_append)
    ultimately show ?thesis using 3 by simp
  qed
qed (simp add: vec_get_def)

lemma chunked_tail: "chunked (c # c' # cs) \<Longrightarrow> chunked (c' # cs)"
  by simp

lemma chunked_write:
  assumes "chunked cs" "i < length (concat cs)"
  shows "\<exists>c cs'. vec_get cs (i div ARENA_CHUNK_SLOTS) = Some c
    \<and> i mod ARENA_CHUNK_SLOTS < length c
    \<and> vec_set cs (i div ARENA_CHUNK_SLOTS) (c[i mod ARENA_CHUNK_SLOTS := s]) = Some cs'
    \<and> chunked cs' \<and> concat cs' = (concat cs)[i := s]"
  using assms
proof (induction cs arbitrary: i rule: chunked.induct)
  case (2 c)
  then show ?case by (simp add: vec_get_def vec_set_def)
next
  case (3 c c' cs)
  show ?case
  proof (cases "i < ARENA_CHUNK_SLOTS")
    case True
    with 3 show ?thesis by (simp add: vec_get_def vec_set_def list_update_append)
  next
    case False
    let ?i = "i - ARENA_CHUNK_SLOTS"
    have div: "i div ARENA_CHUNK_SLOTS = Suc (?i div ARENA_CHUNK_SLOTS)"
        "i mod ARENA_CHUNK_SLOTS = ?i mod ARENA_CHUNK_SLOTS"
      using False by (simp_all add: le_div_geq le_mod_geq)
    have len: "length c = ARENA_CHUNK_SLOTS" using 3(2) by simp
    have bound: "?i < length (concat (c' # cs))" using 3(3) False len by (simp add: less_diff_conv2)
    obtain d ds where d: "vec_get (c' # cs) (?i div ARENA_CHUNK_SLOTS) = Some d"
        "?i mod ARENA_CHUNK_SLOTS < length d"
        "vec_set (c' # cs) (?i div ARENA_CHUNK_SLOTS) (d[?i mod ARENA_CHUNK_SLOTS := s]) = Some ds"
        "chunked ds" "concat ds = (concat (c' # cs))[?i := s]"
      using 3(1) [OF chunked_tail [OF 3(2)] bound] by auto
    have "ds \<noteq> []" using d(3) by (auto simp: vec_set_def split: if_splits nat.splits)
    then have "chunked (c # ds)" using d(4) len by (cases ds) auto
    moreover have "concat (c # ds) = (concat (c # c' # cs))[i := s]"
      using d(5) False len by (simp add: list_update_append)
    ultimately show ?thesis using d
      by (intro exI [of _ d] exI [of _ "c # ds"]) (auto simp: div vec_get_def vec_set_def split: if_splits)
  qed
qed simp

lemma chunked_last: "chunked cs \<Longrightarrow> cs \<noteq> [] \<Longrightarrow> 0 < length (last cs) \<and> length (last cs) \<le> ARENA_CHUNK_SLOTS"
  by (induction cs rule: chunked.induct) auto

lemma chunked_append_full:
  "chunked cs \<Longrightarrow> cs = [] \<or> length (last cs) = ARENA_CHUNK_SLOTS \<Longrightarrow> chunked (cs @ [[s]])"
  by (induction cs rule: chunked.induct) (auto simp: Suc_leI)

lemma chunked_grow_last:
  "chunked cs \<Longrightarrow> cs \<noteq> [] \<Longrightarrow> length (last cs) < ARENA_CHUNK_SLOTS \<Longrightarrow>
   chunked (butlast cs @ [last cs @ [s]])"
proof (induction cs rule: chunked.induct)
  case (3 c c' cs)
  then have "chunked (butlast (c' # cs) @ [last (c' # cs) @ [s]])" by simp
  then show ?case using 3 by (cases cs) auto
qed auto

lemma push_chunked_spec:
  assumes "chunked cs"
  shows "chunked (push_chunked s cs) \<and> concat (push_chunked s cs) = concat cs @ [s]"
proof (cases "cs = [] \<or> length (last cs) = ARENA_CHUNK_SLOTS")
  case True
  then show ?thesis using chunked_append_full [OF assms True] by (simp add: push_chunked_def Let_def)
next
  case False
  then have "length (last cs) < ARENA_CHUNK_SLOTS" using chunked_last [OF assms] by auto
  moreover have "concat (butlast cs @ [last cs]) = concat cs" using False by simp
  ultimately show ?thesis
    using False chunked_grow_last [OF assms] by (simp add: push_chunked_def Let_def)
qed

lemma chunked_from_spec: "chunked (chunked_from (ARENA_CHUNK_SLOTS - 1) xs) \<and> concat (chunked_from (ARENA_CHUNK_SLOTS - 1) xs) = xs"
proof (induction "ARENA_CHUNK_SLOTS - 1" xs rule: chunked_from.induct)
  case (2 x xs)
  let ?n = "ARENA_CHUNK_SLOTS - 1"
  have n: "Suc ?n = ARENA_CHUNK_SLOTS" by simp
  show ?case
  proof (cases "drop (Suc ?n) (x # xs)")
    case Nil
    then have "length (x # xs) \<le> ARENA_CHUNK_SLOTS" by (metis n drop_eq_Nil)
    with Nil show ?thesis by simp
  next
    case (Cons y ys)
    then have len: "length (take (Suc ?n) (x # xs)) = ARENA_CHUNK_SLOTS"
      by (metis n drop_eq_Nil length_take list.discI min.absorb2 nle_le)
    have "chunked_from ?n (x # xs) = take (Suc ?n) (x # xs) # chunked_from ?n (drop (Suc ?n) (x # xs))"
      by simp
    moreover obtain c cs where c: "chunked_from ?n (drop (Suc ?n) (x # xs)) = c # cs"
      unfolding Cons by simp
    ultimately show ?thesis using 2 len by (metis append_take_drop_id chunked.simps(3) concat.simps(2))
  qed
qed simp

section \<open>The invariant and the flat view\<close>

definition occupied :: "'a arena_slot \<Rightarrow> bool" where
  "occupied s \<longleftrightarrow> slot_value s \<noteq> None"

definition arena_inv :: "'a arena \<Rightarrow> bool" where
  "arena_inv a \<longleftrightarrow> chunked (chunks a) \<and> slot_len a = length (arena_slots a) \<and> slot_len a \<le> 2 ^ 32
     \<and> distinct (free_slots a)
     \<and> (\<forall>f \<in> set (free_slots a). unat f < length (arena_slots a) \<and> \<not> occupied (arena_slots a ! unat f))
     \<and> (\<forall>i < length (arena_slots a). \<not> occupied (arena_slots a ! i) \<longrightarrow>
          slot_generation (arena_slots a ! i) \<noteq> 0xFFFFFFFF \<longrightarrow> of_nat i \<in> set (free_slots a))
     \<and> live a = length (filter occupied (arena_slots a))"

text \<open>What a handle resolves to.\<close>

definition arena_map :: "'a arena \<Rightarrow> (u32 \<times> u32 \<rightharpoonup> 'a)" where
  "arena_map a = (\<lambda>(i, g). arena_get a i g)"

lemma arena_slot_at_flat:
  "chunked (chunks a) \<Longrightarrow> arena_slot_at a i = vec_get (arena_slots a) i"
  by (simp add: arena_slot_at_def arena_slots_def chunked_get)

lemma arena_slot_write_flat:
  assumes "chunked (chunks a)" "i < length (arena_slots a)"
  shows "\<exists>cs. arena_slot_write i s a = Some (a\<lparr>chunks := cs\<rparr>) \<and> chunked cs
    \<and> concat cs = (arena_slots a)[i := s]"
proof -
  obtain c cs where c: "vec_get (chunks a) (i div ARENA_CHUNK_SLOTS) = Some c"
      "i mod ARENA_CHUNK_SLOTS < length c"
      "vec_set (chunks a) (i div ARENA_CHUNK_SLOTS) (c[i mod ARENA_CHUNK_SLOTS := s]) = Some cs"
      "chunked cs" "concat cs = (concat (chunks a))[i := s]"
    using chunked_write assms by (metis arena_slots_def)
  then show ?thesis by (auto simp: arena_slot_write_def arena_slots_def)
qed

lemma arena_get_flat:
  assumes "chunked (chunks a)"
  shows "arena_get a i g = (if unat i < length (arena_slots a) \<and> slot_generation (arena_slots a ! unat i) = g
     then slot_value (arena_slots a ! unat i) else None)"
  by (simp add: arena_get_def arena_slot_at_flat [OF assms] vec_get_def)

lemma arena_map_Some:
  "chunked (chunks a) \<Longrightarrow> arena_map a (i, g) = Some v \<longleftrightarrow> unat i < length (arena_slots a)
     \<and> slot_generation (arena_slots a ! unat i) = g \<and> slot_value (arena_slots a ! unat i) = Some v"
  by (auto simp: arena_map_def arena_get_flat)

lemma unat_inject: "unat (i :: u32) = unat j \<longleftrightarrow> i = j"
  by (simp add: word_unat_eq_iff)

lemma unat_of_index: "n < 2 ^ 32 \<Longrightarrow> unat (of_nat n :: u32) = n"
  by (simp add: unat_of_nat take_bit_eq_mod)

lemma unat_eq_iff_index: "n < 2 ^ 32 \<Longrightarrow> unat (i :: u32) = n \<longleftrightarrow> i = of_nat n"
  by (auto simp: unat_of_index)

lemma count_occupied_update:
  "i < length ss \<Longrightarrow> length (filter occupied (ss[i := s])) + (if occupied (ss ! i) then 1 else 0)
     = length (filter occupied ss) + (if occupied s then 1 else 0)"
proof (induction ss arbitrary: i)
  case (Cons x xs)
  then show ?case by (cases i) auto
qed simp

section \<open>The operations\<close>

lemma arena_invD:
  assumes "arena_inv a"
  shows "chunked (chunks a)" "slot_len a = length (arena_slots a)" "slot_len a \<le> 2 ^ 32"
    "distinct (free_slots a)"
    "\<And>f. f \<in> set (free_slots a) \<Longrightarrow> unat f < length (arena_slots a)"
    "\<And>f. f \<in> set (free_slots a) \<Longrightarrow> \<not> occupied (arena_slots a ! unat f)"
    "live a = length (filter occupied (arena_slots a))"
  using assms by (auto simp: arena_inv_def)

lemma arena_inv_free:
  assumes "arena_inv a" "i < length (arena_slots a)" "\<not> occupied (arena_slots a ! i)"
    "slot_generation (arena_slots a ! i) \<noteq> 0xFFFFFFFF"
  shows "of_nat i \<in> set (free_slots a)"
  using assms by (auto simp: arena_inv_def)

lemma arena_new_inv: "arena_inv arena_new"
  by (simp add: arena_inv_def arena_new_def arena_slots_def)

lemma arena_new_map: "arena_map arena_new = Map.empty"
  by (auto simp: arena_map_def arena_new_def arena_get_def arena_slot_at_def)

lemma arena_slots_chunks [simp]: "arena_slots (a\<lparr>chunks := cs\<rparr>) = concat cs"
  "arena_slots (a\<lparr>slot_len := n\<rparr>) = arena_slots a" "arena_slots (a\<lparr>free_slots := f\<rparr>) = arena_slots a"
  "arena_slots (a\<lparr>live := l\<rparr>) = arena_slots a"
  by (simp_all add: arena_slots_def)

text \<open>Writing one slot: the effect on the handles.\<close>

lemma arena_map_update:
  assumes "chunked (chunks a)" "chunked (chunks b)" "arena_slots b = (arena_slots a)[unat i := s]"
    "unat i < length (arena_slots a)"
  shows "arena_map b (j, g) = (if j = i then (if slot_generation s = g then slot_value s else None)
     else arena_map a (j, g))"
proof (cases "j = i")
  case False
  then have "unat i \<noteq> unat j" by (simp add: unat_inject)
  then show ?thesis
    using assms(3,4) False
    by (simp add: arena_map_def arena_get_flat [OF assms(1)] arena_get_flat [OF assms(2)])
qed (use assms in \<open>simp add: arena_map_def arena_get_flat\<close>)

lemma arena_map_generation:
  assumes "chunked (chunks a)" "arena_map a (i, g) = Some v" "arena_map a (i, g') \<noteq> None"
  shows "g' = g"
  using assms by (auto simp: arena_map_Some [OF assms(1)])

lemma arena_modify_some:
  assumes inv: "arena_inv a" and get: "arena_map a (i, g) = Some v"
  shows "\<exists>a'. arena_modify i g f a = Some a' \<and> arena_inv a'
    \<and> arena_map a' = (arena_map a)((i, g) \<mapsto> f v)
    \<and> map slot_generation (arena_slots a') = map slot_generation (arena_slots a)
    \<and> map occupied (arena_slots a') = map occupied (arena_slots a)
    \<and> free_slots a' = free_slots a"
proof -
  note D = arena_invD [OF inv]
  let ?s = "arena_slots a ! unat i"
  let ?s' = "?s\<lparr>slot_value := Some (f v)\<rparr>"
  have i: "unat i < length (arena_slots a)" "slot_generation ?s = g" "slot_value ?s = Some v"
    using get by (auto simp: arena_map_Some [OF D(1)])
  obtain cs where cs: "arena_slot_write (unat i) ?s' a = Some (a\<lparr>chunks := cs\<rparr>)" "chunked cs"
      "concat cs = (arena_slots a)[unat i := ?s']"
    using arena_slot_write_flat [OF D(1) i(1)] by blast
  let ?a = "a\<lparr>chunks := cs\<rparr>"
  have occ: "occupied ?s" "occupied ?s'" using i by (simp_all add: occupied_def)
  have m: "map slot_generation (arena_slots ?a) = map slot_generation (arena_slots a)"
      "map occupied (arena_slots ?a) = map occupied (arena_slots a)"
    using i occ cs(3) by (auto simp: map_update list_update_same_conv)
  have nth: "occupied (arena_slots ?a ! j) = occupied (arena_slots a ! j)"
      "slot_generation (arena_slots ?a ! j) = slot_generation (arena_slots a ! j)"
    if "j < length (arena_slots a)" for j
    using m that by (metis length_map nth_map)+
  have len: "length (arena_slots ?a) = length (arena_slots a)" using cs(3) by simp
  have live: "length (filter occupied (arena_slots ?a)) = length (filter occupied (arena_slots a))"
    using count_occupied_update [OF i(1), of ?s'] occ cs(3) by simp
  have "arena_inv ?a"
    unfolding arena_inv_def len live
    using inv nth cs(2) by (auto simp: arena_inv_def)
  moreover have "arena_map ?a = (arena_map a)((i, g) \<mapsto> f v)"
  proof
    fix h show "arena_map ?a h = ((arena_map a)((i, g) \<mapsto> f v)) h"
      using arena_map_update [of a ?a i ?s' "fst h" "snd h"] D(1) cs(2,3) i
      by (cases h) (auto simp: arena_map_def arena_get_flat)
  qed
  moreover have "arena_modify i g f a = Some ?a"
    using i cs(1) by (simp add: arena_modify_def arena_slot_at_flat [OF D(1)])
  ultimately show ?thesis using m by auto
qed

lemma arena_modify_none: "arena_map a (i, g) = None \<Longrightarrow> arena_modify i g f a = None"
  by (cases "arena_slot_at a (unat i)") (simp_all add: arena_modify_def arena_map_def arena_get_def)

lemma distinct_butlast_last: "distinct xs \<Longrightarrow> xs \<noteq> [] \<Longrightarrow> set (butlast xs) = set xs - {last xs}"
  by (induction xs rule: rev_induct) auto

text \<open>Insertion: a handle that was not live, bound to the value.\<close>

definition arena_room :: "'a arena \<Rightarrow> bool" where
  "arena_room a \<longleftrightarrow> free_slots a \<noteq> [] \<or> slot_len a < 2 ^ 32"

lemma arena_insert_reuse:
  assumes inv: "arena_inv a" and free: "free_slots a \<noteq> []"
  defines "i \<equiv> last (free_slots a)"
  shows "\<exists>a'. arena_insert v a = Some ((i, slot_generation (arena_slots a ! unat i)), a') \<and> arena_inv a'
    \<and> arena_slots a' = (arena_slots a)[unat i := (arena_slots a ! unat i)\<lparr>slot_value := Some v\<rparr>]
    \<and> free_slots a' = butlast (free_slots a)"
proof -
  note D = arena_invD [OF inv]
  let ?s = "arena_slots a ! unat i"
  let ?s' = "?s\<lparr>slot_value := Some v\<rparr>"
  have mem: "i \<in> set (free_slots a)" using free by (simp add: i_def)
  have i: "unat i < length (arena_slots a)" "\<not> occupied ?s" using D(5,6) [OF mem] .
  let ?b = "a\<lparr>live := live a + 1, free_slots := butlast (free_slots a)\<rparr>"
  have b: "chunked (chunks ?b)" "unat i < length (arena_slots ?b)" "arena_slots ?b = arena_slots a"
    using D(1) i(1) by (simp_all add: arena_slots_def)
  have at: "arena_slot_at ?b (unat i) = Some ?s"
    unfolding arena_slot_at_flat [OF b(1)] b(3) using i(1) by simp
  obtain cs where cs: "arena_slot_write (unat i) ?s' ?b = Some (?b\<lparr>chunks := cs\<rparr>)" "chunked cs"
      "concat cs = (arena_slots a)[unat i := ?s']"
    using arena_slot_write_flat [OF b(1,2)] b(3) by metis
  let ?a = "?b\<lparr>chunks := cs\<rparr>"
  have slots: "arena_slots ?a = (arena_slots a)[unat i := ?s']" using cs(3) by (simp add: arena_slots_def)
  have "arena_insert v a = Some ((i, slot_generation ?s), ?a)"
    using free cs(1) at by (simp add: arena_insert_def Let_def i_def [symmetric])
  moreover have "arena_inv ?a"
  proof -
    have occ: "occupied ?s'" by (simp add: occupied_def)
    have set: "set (butlast (free_slots a)) = set (free_slots a) - {i}"
      using distinct_butlast_last [OF D(4) free] by (simp add: i_def)
    have live: "length (filter occupied (arena_slots ?a)) = live a + 1"
      using count_occupied_update [OF i(1), of ?s'] occ i(2) D(7) slots by simp
    have *: "j \<noteq> unat i \<longrightarrow> (of_nat j :: u32) \<noteq> i" if "j < length (arena_slots a)" for j
      using that D(2,3) unat_of_index [of j] by auto
    have **: "unat f \<noteq> unat i" if "f \<noteq> i" for f using that by (simp add: unat_inject)
    have frees: "unat f < length (arena_slots ?a) \<and> \<not> occupied (arena_slots ?a ! unat f)"
      if "f \<in> set (butlast (free_slots a))" for f
    proof -
      have f: "f \<in> set (free_slots a)" "f \<noteq> i" using that unfolding set by simp_all
      show ?thesis using D(5) [OF f(1)] D(6) [OF f(1)] ** [OF f(2)] unfolding slots by simp
    qed
    have vac: "of_nat j \<in> set (butlast (free_slots a))"
      if "j < length (arena_slots a)" "\<not> occupied (arena_slots ?a ! j)"
        "slot_generation (arena_slots ?a ! j) \<noteq> 0xFFFFFFFF" for j
      using that occ * [OF that(1)] arena_inv_free [OF inv that(1)] unfolding set slots
      by (cases "j = unat i") auto
    show ?thesis
      unfolding arena_inv_def using cs(2) D(2,3,4) live frees vac slots
      by (simp add: distinct_butlast)
  qed
  ultimately show ?thesis using slots by (intro exI [of _ ?a]) simp
qed

lemma arena_insert_grow:
  assumes inv: "arena_inv a" and free: "free_slots a = []" and room: "slot_len a < 2 ^ 32"
  shows "\<exists>a'. arena_insert v a = Some ((of_nat (slot_len a), 0), a') \<and> arena_inv a'
    \<and> arena_slots a' = arena_slots a @ [\<lparr>slot_generation = 0, slot_value = Some v\<rparr>]
    \<and> free_slots a' = []"
proof -
  note D = arena_invD [OF inv]
  let ?s = "\<lparr>slot_generation = 0, slot_value = Some v\<rparr>"
  let ?a = "a\<lparr>live := live a + 1, chunks := push_chunked ?s (chunks a), slot_len := slot_len a + 1\<rparr>"
  have p: "chunked (push_chunked ?s (chunks a))" "concat (push_chunked ?s (chunks a)) = arena_slots a @ [?s]"
    using push_chunked_spec [OF D(1)] by (simp_all add: arena_slots_def)
  have slots: "arena_slots ?a = arena_slots a @ [?s]" using p(2) by (simp add: arena_slots_def)
  have "slot_len a \<le> u32_max" using room by (simp add: u32_max_def)
  then have "arena_insert v a = Some ((of_nat (slot_len a), 0), ?a)"
    using free by (simp add: arena_insert_def Let_def)
  moreover have "arena_inv ?a"
  proof -
    have vac: "False" if "j < length (arena_slots ?a)" "\<not> occupied (arena_slots ?a ! j)"
      "slot_generation (arena_slots ?a ! j) \<noteq> 0xFFFFFFFF" for j
      using that arena_inv_free [OF inv, of j] free D(2) unfolding slots
      by (auto simp: nth_append occupied_def less_Suc_eq split: if_splits)
    have live: "length (filter occupied (arena_slots ?a)) = live a + 1"
      using D(7) unfolding slots by (simp add: occupied_def)
    show ?thesis
      unfolding arena_inv_def using p(1) D(2) room free live vac slots by auto
  qed
  ultimately show ?thesis using slots free by (intro exI [of _ ?a]) simp
qed

lemma arena_insert_some:
  assumes inv: "arena_inv a" and room: "arena_room a"
  shows "\<exists>i g a'. arena_insert v a = Some ((i, g), a') \<and> arena_inv a' \<and> arena_map a (i, g) = None
    \<and> arena_map a' = (arena_map a)((i, g) \<mapsto> v)"
proof (cases "free_slots a = []")
  case False
  note D = arena_invD [OF inv]
  let ?i = "last (free_slots a)"
  obtain a' where a': "arena_insert v a = Some ((?i, slot_generation (arena_slots a ! unat ?i)), a')"
      "arena_inv a'" "arena_slots a' = (arena_slots a)[unat ?i := (arena_slots a ! unat ?i)\<lparr>slot_value := Some v\<rparr>]"
    using arena_insert_reuse [OF inv False] by blast
  have i: "unat ?i < length (arena_slots a)" "\<not> occupied (arena_slots a ! unat ?i)"
    using D(5,6) [of ?i] False by simp_all
  have none: "arena_map a (?i, g) = None" for g
    using i by (simp add: arena_map_def arena_get_flat [OF D(1)] occupied_def)
  have "arena_map a' = (arena_map a)((?i, slot_generation (arena_slots a ! unat ?i)) \<mapsto> v)"
  proof
    fix h show "arena_map a' h = ((arena_map a)((?i, slot_generation (arena_slots a ! unat ?i)) \<mapsto> v)) h"
      using arena_map_update [OF D(1) arena_invD(1) [OF a'(2)] a'(3) i(1), of "fst h" "snd h"] none
      by (cases h) auto
  qed
  then show ?thesis using a'(1,2) none by auto
next
  case True
  note D = arena_invD [OF inv]
  have room: "slot_len a < 2 ^ 32" using room True by (simp add: arena_room_def)
  obtain a' where a': "arena_insert v a = Some ((of_nat (slot_len a), 0), a')" "arena_inv a'"
      "arena_slots a' = arena_slots a @ [\<lparr>slot_generation = 0, slot_value = Some v\<rparr>]"
    using arena_insert_grow [OF inv True room] by blast
  let ?i = "of_nat (slot_len a) :: u32"
  have u: "unat ?i = length (arena_slots a)" using unat_of_index [OF room] D(2) by simp
  have none: "arena_map a (?i, g) = None" for g
    by (simp add: arena_map_def arena_get_flat [OF D(1)] u)
  have "arena_map a' = (arena_map a)((?i, 0) \<mapsto> v)"
  proof
    fix h :: "u32 \<times> u32"
    have "fst h = ?i \<longleftrightarrow> unat (fst h) = length (arena_slots a)" using u by (metis unat_inject)
    then show "arena_map a' h = ((arena_map a)((?i, 0) \<mapsto> v)) h"
      by (cases h) (auto simp: arena_map_def arena_get_flat [OF D(1)] arena_get_flat [OF arena_invD(1) [OF a'(2)]]
          a'(3) nth_append)
  qed
  then show ?thesis using a'(1,2) none by auto
qed

text \<open>Removal: the handle and no other stops resolving.\<close>

lemma arena_remove_none: 
  assumes "arena_map a (i, g) = None"
  shows "arena_remove i g a = Some (None, a)"
proof (cases "arena_slot_at a (unat i)")
  case (Some s)
  with assms have "slot_generation s \<noteq> g \<or> slot_value s = None"
    by (simp add: arena_map_def arena_get_def split: if_splits)
  then show ?thesis using Some by (auto simp: arena_remove_def)
qed (simp add: arena_remove_def)

definition vacated :: "'a arena_slot \<Rightarrow> 'a arena_slot" where
  "vacated s = \<lparr>slot_generation = (if slot_generation s = 0xFFFFFFFF then 0xFFFFFFFF
     else slot_generation s + 1), slot_value = None\<rparr>"

lemma arena_remove_some:
  assumes inv: "arena_inv a" and get: "arena_map a (i, g) = Some v"
  shows "\<exists>a'. arena_remove i g a = Some (Some v, a') \<and> arena_inv a'
    \<and> arena_slots a' = (arena_slots a)[unat i := vacated (arena_slots a ! unat i)]
    \<and> free_slots a' = (if g = 0xFFFFFFFF then free_slots a else free_slots a @ [i])
    \<and> live a = Suc (live a') \<and> slot_len a' = slot_len a"
proof -
  note D = arena_invD [OF inv]
  let ?s = "arena_slots a ! unat i"
  have i: "unat i < length (arena_slots a)" "slot_generation ?s = g" "slot_value ?s = Some v"
    using get by (auto simp: arena_map_Some [OF D(1)])
  obtain cs where cs: "arena_slot_write (unat i) (vacated ?s) a = Some (a\<lparr>chunks := cs\<rparr>)" "chunked cs"
      "concat cs = (arena_slots a)[unat i := vacated ?s]"
    using arena_slot_write_flat [OF D(1) i(1)] by blast
  have occ: "occupied ?s" "\<not> occupied (vacated ?s)" using i(3) by (simp_all add: occupied_def vacated_def)
  let ?f = "if g = 0xFFFFFFFF then free_slots a else free_slots a @ [i]"
  let ?a = "a\<lparr>chunks := cs, live := live a - 1, free_slots := ?f\<rparr>"
  have slots: "arena_slots ?a = (arena_slots a)[unat i := vacated ?s]" using cs(3) by (simp add: arena_slots_def)
  have live: "live a = Suc (length (filter occupied (arena_slots ?a)))"
    using count_occupied_update [OF i(1), of "vacated ?s"] occ D(7) slots by simp
  have nfree: "i \<notin> set (free_slots a)" using D(6) occ by blast
  have vac: "vacated ?s = ?s\<lparr>slot_value := None, slot_generation :=
      (if slot_generation ?s \<noteq> 0xFFFFFFFF then slot_generation ?s + 1 else slot_generation ?s)\<rparr>"
    using i by (simp add: vacated_def)
  have "arena_remove i g a = Some (Some v, ?a)"
    using i cs(1) live unfolding arena_remove_def arena_slot_at_flat [OF D(1)] vac
    by (simp add: Let_def)
  moreover have "arena_inv ?a"
  proof -
    have frees: "unat f < length (arena_slots ?a) \<and> \<not> occupied (arena_slots ?a ! unat f)"
      if "f \<in> set ?f" for f
      using that D(5,6) [of f] occ(2) i(1) unfolding slots
      by (cases "unat f = unat i") (auto simp: unat_inject split: if_splits)
    have vacs: "of_nat j \<in> set ?f" if "j < length (arena_slots a)" "\<not> occupied (arena_slots ?a ! j)"
      "slot_generation (arena_slots ?a ! j) \<noteq> 0xFFFFFFFF" for j
    proof (cases "j = unat i")
      case True
      then have "g \<noteq> 0xFFFFFFFF" using that(3) i(1,2) unfolding slots by (auto simp: vacated_def)
      then show ?thesis using True by simp
    next
      case False
      then show ?thesis using arena_inv_free [OF inv that(1)] that(2,3) unfolding slots by auto
    qed
    show ?thesis
      unfolding arena_inv_def using cs(2) D(2,3,4) live frees vacs slots nfree
      by (simp del: set_append)
  qed
  ultimately show ?thesis using slots live by (intro exI [of _ ?a]) simp
qed

lemma arena_remove_map:
  assumes inv: "arena_inv a" and get: "arena_map a (i, g) = Some v"
    and rem: "arena_remove i g a = Some (r, a')"
  shows "r = Some v \<and> arena_inv a' \<and> arena_map a' = (arena_map a)((i, g) := None)"
proof -
  note D = arena_invD [OF inv]
  have i: "unat i < length (arena_slots a)" "slot_generation (arena_slots a ! unat i) = g"
    using get by (auto simp: arena_map_Some [OF D(1)])
  have a': "r = Some v" "arena_inv a'" "arena_slots a' = (arena_slots a)[unat i := vacated (arena_slots a ! unat i)]"
    using arena_remove_some [OF inv get] rem by auto
  have other: "arena_map a (i, b) = None" if "b \<noteq> g" for b
    using arena_map_generation [OF D(1) get, of b] that by blast
  have "arena_map a' = (arena_map a)((i, g) := None)"
  proof
    fix h show "arena_map a' h = ((arena_map a)((i, g) := None)) h"
      using arena_map_update [OF D(1) arena_invD(1) [OF a'(2)] a'(3) i(1), of "fst h" "snd h"]
        other by (cases h) (auto simp: vacated_def split: if_splits)
  qed
  then show ?thesis using a' by blast
qed

section \<open>Dead handles\<close>

text \<open>A handle that resolves to nothing and never will.\<close>

definition dead :: "'a arena \<Rightarrow> u32 \<times> u32 \<Rightarrow> bool" where
  "dead a = (\<lambda>(i, g). unat i < length (arena_slots a)
     \<and> (g < slot_generation (arena_slots a ! unat i)
        \<or> g = slot_generation (arena_slots a ! unat i) \<and> \<not> occupied (arena_slots a ! unat i)
          \<and> i \<notin> set (free_slots a)))"

lemma dead_unresolved: "arena_inv a \<Longrightarrow> dead a h \<Longrightarrow> arena_map a h = None"
  by (cases h) (auto simp: dead_def arena_map_def arena_get_flat arena_invD(1) occupied_def)

lemma dead_same:
  assumes "dead a h" "map slot_generation (arena_slots a') = map slot_generation (arena_slots a)"
    "map occupied (arena_slots a') = map occupied (arena_slots a)" "free_slots a' = free_slots a"
  shows "dead a' h"
proof -
  have "length (arena_slots a') = length (arena_slots a)" using assms(2) by (metis length_map)
  moreover have "slot_generation (arena_slots a' ! j) = slot_generation (arena_slots a ! j)"
      "occupied (arena_slots a' ! j) = occupied (arena_slots a ! j)" if "j < length (arena_slots a)" for j
    using assms(2,3) that calculation by (metis nth_map)+
  ultimately show ?thesis using assms(1,4) by (auto simp: dead_def)
qed

lemma dead_insert:
  assumes inv: "arena_inv a" and d: "dead a h" and ins: "arena_insert v a = Some (k, a')"
  shows "dead a' h"
proof (cases "free_slots a = []")
  case False
  note D = arena_invD [OF inv]
  let ?i = "last (free_slots a)"
  have a': "arena_slots a' = (arena_slots a)[unat ?i := (arena_slots a ! unat ?i)\<lparr>slot_value := Some v\<rparr>]"
      "free_slots a' = butlast (free_slots a)"
    using arena_insert_reuse [OF inv False, of v] ins by auto
  show ?thesis
    using d False a' in_set_butlastD [of _ "free_slots a"]
    by (cases h; cases "fst h = ?i") (auto simp: dead_def unat_inject nth_list_update)
next
  case True
  have "slot_len a < 2 ^ 32"
    using ins True by (auto simp: arena_insert_def Let_def u32_max_def split: if_splits)
  from arena_insert_grow [OF inv True this, of v] ins
  have "arena_slots a' = arena_slots a @ [\<lparr>slot_generation = 0, slot_value = Some v\<rparr>]" "free_slots a' = []"
    by auto
  then show ?thesis using d True by (cases h) (auto simp: dead_def nth_append)
qed

lemma dead_modify:
  assumes "arena_inv a" "dead a h" "arena_modify i g f a = Some a'"
  shows "dead a' h"
proof (cases "arena_map a (i, g)")
  case None
  then show ?thesis using assms(3) by (simp add: arena_modify_none)
next
  case (Some v)
  from arena_modify_some [OF assms(1) Some, of f] assms(3)
  show ?thesis by (auto intro: dead_same [OF assms(2)])
qed

lemma generation_bump: "(g :: u32) \<noteq> 0xFFFFFFFF \<Longrightarrow> g < g + 1"
proof -
  assume "g \<noteq> 0xFFFFFFFF"
  then have "unat g \<noteq> unat (0xFFFFFFFF :: u32)" by (simp only: unat_inject not_False_eq_True)
  moreover have "unat g < 2 ^ 32" by (rule order_less_le_trans [OF unsigned_less]) simp
  ultimately show ?thesis by (simp add: word_less_nat_alt unat_plus_if')
qed

lemma dead_remove:
  assumes inv: "arena_inv a" and rem: "arena_remove i g a = Some (r, a')"
  shows "(dead a h \<longrightarrow> dead a' h) \<and> (r \<noteq> None \<longrightarrow> dead a' (i, g))"
proof (cases "arena_map a (i, g)")
  case None
  then show ?thesis using arena_remove_none [OF None] rem by simp
next
  case (Some v)
  note D = arena_invD [OF inv]
  let ?s = "arena_slots a ! unat i"
  have i: "unat i < length (arena_slots a)" "slot_generation ?s = g" "occupied ?s"
    using Some by (auto simp: arena_map_Some [OF D(1)] occupied_def)
  have a': "arena_slots a' = (arena_slots a)[unat i := vacated ?s]"
      "free_slots a' = (if g = 0xFFFFFFFF then free_slots a else free_slots a @ [i])"
    using arena_remove_some [OF inv Some] rem by auto
  have gen: "g \<le> slot_generation (vacated ?s)" "g \<noteq> 0xFFFFFFFF \<Longrightarrow> g < slot_generation (vacated ?s)"
    using i(2) generation_bump [of g] by (auto simp: vacated_def)
  have nfree: "i \<notin> set (free_slots a)" using D(6) i(3) by blast
  have "dead a' (i, g)"
    using i(1,2) gen nfree a' by (auto simp: dead_def vacated_def occupied_def)
  moreover have "dead a' h" if "dead a h"
    using that i gen a' by (cases h; cases "fst h = i") (auto simp: dead_def unat_inject nth_list_update)
  ultimately show ?thesis by blast
qed

section \<open>The contract of a handle store\<close>

locale handle_store =
  fixes inv :: "'s \<Rightarrow> bool"
    and lookup :: "'s \<Rightarrow> 'h \<Rightarrow> 'v option"
    and gone :: "'s \<Rightarrow> 'h \<Rightarrow> bool"
    and put :: "'v \<Rightarrow> 's \<Rightarrow> ('h \<times> 's) option"
    and edit :: "'h \<Rightarrow> ('v \<Rightarrow> 'v) \<Rightarrow> 's \<Rightarrow> 's option"
    and drop_handle :: "'h \<Rightarrow> 's \<Rightarrow> ('v option \<times> 's) option"
  assumes gone_unresolved: "inv s \<Longrightarrow> gone s h \<Longrightarrow> lookup s h = None"
    and put_law: "inv s \<Longrightarrow> put v s = Some (h, s') \<Longrightarrow>
      inv s' \<and> lookup s h = None \<and> lookup s' = (lookup s)(h \<mapsto> v) \<and> (gone s k \<longrightarrow> gone s' k)"
    and edit_law: "inv s \<Longrightarrow> lookup s h = Some v \<Longrightarrow> \<exists>s'. edit h f s = Some s' \<and> inv s'
      \<and> lookup s' = (lookup s)(h \<mapsto> f v) \<and> (\<forall>k. gone s k \<longrightarrow> gone s' k)"
    and edit_none: "lookup s h = None \<Longrightarrow> edit h f s = None"
    and drop_law: "inv s \<Longrightarrow> \<exists>s'. drop_handle h s = Some (lookup s h, s') \<and> inv s'
      \<and> lookup s' = (lookup s)(h := None) \<and> (\<forall>k. gone s k \<longrightarrow> gone s' k)
      \<and> (lookup s h \<noteq> None \<longrightarrow> gone s' h)"
begin

lemma put_inv: "inv s \<Longrightarrow> put v s = Some (h, s') \<Longrightarrow> inv s'"
  and put_lookup: "inv s \<Longrightarrow> put v s = Some (h, s') \<Longrightarrow> lookup s' = (lookup s)(h \<mapsto> v)"
  and put_fresh: "inv s \<Longrightarrow> put v s = Some (h, s') \<Longrightarrow> lookup s h = None"
  and put_gone: "inv s \<Longrightarrow> put v s = Some (h, s') \<Longrightarrow> gone s k \<Longrightarrow> gone s' k"
  using put_law by blast+

lemma put_not_gone: "inv s \<Longrightarrow> put v s = Some (h, s') \<Longrightarrow> \<not> gone s h"
  using put_law gone_unresolved by (metis fun_upd_same option.distinct(1))

lemma drop_inv: "inv s \<Longrightarrow> drop_handle h s = Some (r, s') \<Longrightarrow> inv s'"
  and drop_lookup: "inv s \<Longrightarrow> drop_handle h s = Some (r, s') \<Longrightarrow> lookup s' = (lookup s)(h := None)"
  and drop_result: "inv s \<Longrightarrow> drop_handle h s = Some (r, s') \<Longrightarrow> r = lookup s h"
  and drop_gone: "inv s \<Longrightarrow> drop_handle h s = Some (r, s') \<Longrightarrow> gone s k \<Longrightarrow> gone s' k"
  and drop_kills: "inv s \<Longrightarrow> drop_handle h s = Some (r, s') \<Longrightarrow> r \<noteq> None \<Longrightarrow> gone s' h"
  using drop_law [of s h] by auto

lemma edit_spec:
  assumes "inv s" "edit h f s = Some s'"
  shows "inv s' \<and> lookup s' = (lookup s)(h := map_option f (lookup s h)) \<and> (\<forall>k. gone s k \<longrightarrow> gone s' k)"
proof (cases "lookup s h")
  case None
  then show ?thesis using edit_none [of s h f] assms(2) by simp
next
  case (Some v)
  then show ?thesis using edit_law [OF assms(1) Some, of f] assms(2) by auto
qed

text \<open>A handle is never issued twice once it was dropped.\<close>

lemma dropped_not_reissued:
  "inv s \<Longrightarrow> drop_handle h s = Some (Some v, s') \<Longrightarrow> put w s' = Some (k, s'') \<Longrightarrow> k \<noteq> h"
  using drop_inv drop_kills put_not_gone by blast

end

interpretation arena: handle_store arena_inv arena_map dead arena_insert
  "\<lambda>(i, g). arena_modify i g" "\<lambda>(i, g). arena_remove i g"
proof unfold_locales
  fix s :: "'a arena" and v h s' k
  assume s: "arena_inv s" "arena_insert v s = Some (h, s')"
  then have "arena_room s"
    by (auto simp: arena_insert_def arena_room_def Let_def u32_max_def split: if_splits)
  from arena_insert_some [OF s(1) this, of v] s dead_insert [OF s(1) _ s(2), of k]
  show "arena_inv s' \<and> arena_map s h = None \<and> arena_map s' = (arena_map s)(h \<mapsto> v) \<and> (dead s k \<longrightarrow> dead s' k)"
    by auto
next
  fix s :: "'a arena" and h :: "u32 \<times> u32" and v and f :: "'a \<Rightarrow> 'a"
  assume s: "arena_inv s" "arena_map s h = Some v"
  obtain i g where h: "h = (i, g)" by (cases h)
  from arena_modify_some [OF s(1) s(2) [unfolded h], of f] dead_modify [OF s(1), of _ i g f]
  show "\<exists>s'. (case h of (i, g) \<Rightarrow> arena_modify i g) f s = Some s' \<and> arena_inv s' \<and>
      arena_map s' = (arena_map s)(h \<mapsto> f v) \<and> (\<forall>k. dead s k \<longrightarrow> dead s' k)"
    by (auto simp: h)
next
  fix s :: "'a arena" and h :: "u32 \<times> u32"
  assume s: "arena_inv s"
  obtain i g where h: "h = (i, g)" by (cases h)
  show "\<exists>s'. (case h of (i, g) \<Rightarrow> arena_remove i g) s = Some (arena_map s h, s') \<and> arena_inv s' \<and>
      arena_map s' = (arena_map s)(h := None) \<and> (\<forall>k. dead s k \<longrightarrow> dead s' k) \<and> (arena_map s h \<noteq> None \<longrightarrow> dead s' h)"
  proof (cases "arena_map s (i, g)")
    case None
    then show ?thesis using s by (auto simp: h arena_remove_none)
  next
    case (Some v)
    then obtain s' where s': "arena_remove i g s = Some (Some v, s')" using arena_remove_some [OF s] by blast
    show ?thesis
      using arena_remove_map [OF s Some s'] dead_remove [OF s s'] s' Some by (auto simp: h)
  qed
qed (auto simp: dead_unresolved arena_modify_none)

section \<open>Sweeping\<close>

text \<open>One round at index \<open>k\<close>: the flat effect.\<close>

definition swept_slot :: "bool \<Rightarrow> ('a \<Rightarrow> 'a) \<Rightarrow> 'a arena_slot \<Rightarrow> 'a arena_slot" where
  "swept_slot m w s = (if \<not> occupied s then s else if m then s\<lparr>slot_value := map_option w (slot_value s)\<rparr>
     else vacated s)"

lemma index_bound: "arena_inv a \<Longrightarrow> k < length (arena_slots a) \<Longrightarrow> k < 2 ^ 32"
  using arena_invD(2,3) by fastforce

text \<open>Dead handles stay dead, and a handle that stops resolving is dead.\<close>

definition settles :: "'a arena \<Rightarrow> 'a arena \<Rightarrow> bool" where
  "settles a b \<longleftrightarrow> (\<forall>k. dead a k \<longrightarrow> dead b k) \<and> (\<forall>k. arena_map a k \<noteq> None \<longrightarrow> dead b k \<or> arena_map b k \<noteq> None)"

lemma settles_refl: "settles a a"
  by (simp add: settles_def)

lemma settles_trans: "settles a b \<Longrightarrow> settles b c \<Longrightarrow> settles a c"
  unfolding settles_def by blast

lemma sweep_slot_spec:
  assumes inv: "arena_inv a" and k: "k < length (arena_slots a)" "k < length marked"
    and visit: "\<And>v. slot_value (arena_slots a ! k) = Some v \<Longrightarrow> marked ! k \<Longrightarrow> visit k v = Some (w k v)"
  shows "\<exists>r' a'. sweep_slot marked visit k (r, a) = Some (r', a') \<and> arena_inv a'
    \<and> arena_slots a' = (arena_slots a)[k := swept_slot (marked ! k) (w k) (arena_slots a ! k)]
    \<and> r' + live a' = r + live a \<and> settles a a'"
proof (cases "slot_value (arena_slots a ! k)")
  case None
  then have "swept_slot (marked ! k) (w k) (arena_slots a ! k) = arena_slots a ! k"
    by (simp add: swept_slot_def occupied_def)
  then show ?thesis
    using None k inv by (simp add: sweep_slot_def arena_slot_at_flat arena_invD(1) settles_refl)
next
  case (Some v)
  note D = arena_invD [OF inv]
  let ?s = "arena_slots a ! k" and ?i = "of_nat k :: u32"
  have occ: "occupied ?s" using Some by (simp add: occupied_def)
  have u: "unat ?i = k" using unat_of_index index_bound [OF inv k(1)] by blast
  have get: "arena_map a (?i, slot_generation ?s) = Some v"
    using k Some by (simp add: arena_map_Some [OF D(1)] u)
  show ?thesis
  proof (cases "marked ! k")
    case True
    have "arena_modify ?i (slot_generation ?s) (w k) a = arena_slot_write k (?s\<lparr>slot_value := Some (w k v)\<rparr>) a"
      using k Some by (simp add: arena_modify_def arena_slot_at_flat [OF D(1)] u)
    moreover obtain cs where cs: "arena_slot_write k (?s\<lparr>slot_value := Some (w k v)\<rparr>) a = Some (a\<lparr>chunks := cs\<rparr>)"
        "concat cs = (arena_slots a)[k := ?s\<lparr>slot_value := Some (w k v)\<rparr>]"
      using arena_slot_write_flat [OF D(1) k(1)] by blast
    ultimately have "arena_inv (a\<lparr>chunks := cs\<rparr>)" "settles a (a\<lparr>chunks := cs\<rparr>)"
      using arena_modify_some [OF inv get, of "w k"] dead_modify [OF inv, of _ ?i "slot_generation ?s" "w k"]
      by (auto simp: settles_def)
    then show ?thesis
      using cs True k visit [OF Some True] Some occ
      by (auto simp: sweep_slot_def arena_slot_at_flat [OF D(1)] swept_slot_def)
  next
    case False
    obtain a' where a': "arena_remove ?i (slot_generation ?s) a = Some (Some v, a')" "arena_inv a'"
        "arena_slots a' = (arena_slots a)[k := vacated ?s]" "live a = Suc (live a')"
      using arena_remove_some [OF inv get] u by auto
    have "k \<le> u32_max" using index_bound [OF inv k(1)] by (simp add: u32_max_def)
    then have "sweep_slot marked visit k (r, a) = Some (Suc r, a')"
      using False Some k a'(1) by (simp add: sweep_slot_def arena_slot_at_flat [OF D(1)])
    moreover have "settles a a'"
      using dead_remove [OF inv a'(1)] arena_remove_map [OF inv get a'(1)] by (auto simp: settles_def)
    ultimately show ?thesis using a' False occ by (auto simp: swept_slot_def)
  qed
qed

lemma sweep_slots_spec:
  assumes "arena_inv a" "length (arena_slots a) = length marked" "k \<le> length marked"
    "\<And>j v. k \<le> j \<Longrightarrow> j < length marked \<Longrightarrow> slot_value (arena_slots a ! j) = Some v \<Longrightarrow> marked ! j \<Longrightarrow>
       visit j v = Some (w j v)"
  shows "\<exists>r' a'. sweep_slots marked visit [k..<length marked] (r, a) = Some (r', a') \<and> arena_inv a'
    \<and> length (arena_slots a') = length marked
    \<and> (\<forall>j < length marked. arena_slots a' ! j = (if k \<le> j
          then swept_slot (marked ! j) (w j) (arena_slots a ! j) else arena_slots a ! j))
    \<and> r' + live a' = r + live a \<and> settles a a'"
  using assms
proof (induction "length marked - k" arbitrary: k a r)
  case (Suc n)
  then have k: "k < length (arena_slots a)" "k < length marked" by simp_all
  obtain r1 a1 where a1: "sweep_slot marked visit k (r, a) = Some (r1, a1)" "arena_inv a1"
      "arena_slots a1 = (arena_slots a)[k := swept_slot (marked ! k) (w k) (arena_slots a ! k)]"
      "r1 + live a1 = r + live a" "settles a a1"
    using sweep_slot_spec [OF Suc.prems(1) k, of visit w r] Suc.prems(4) k(2) by blast
  have len: "length (arena_slots a1) = length marked" using a1(3) Suc.prems(2) by simp
  have nth: "arena_slots a1 ! j = (if j = k then swept_slot (marked ! k) (w k) (arena_slots a ! k) else arena_slots a ! j)"
    if "j < length marked" for j
    using that k(1) Suc.prems(2) unfolding a1(3) by (simp add: nth_list_update)
  have v: "visit j v = Some (w j v)" if "Suc k \<le> j" "j < length marked" "slot_value (arena_slots a1 ! j) = Some v"
    "marked ! j" for j v
    using that nth [OF that(2)] Suc.prems(4) [of j v] by simp
  have n: "n = length marked - Suc k" "Suc k \<le> length marked" using Suc.hyps(2) by simp_all
  obtain r' a' where a': "sweep_slots marked visit [Suc k..<length marked] (r1, a1) = Some (r', a')" "arena_inv a'"
      "length (arena_slots a') = length marked"
      "\<And>j. j < length marked \<Longrightarrow> arena_slots a' ! j = (if Suc k \<le> j
          then swept_slot (marked ! j) (w j) (arena_slots a1 ! j) else arena_slots a1 ! j)"
      "r' + live a' = r1 + live a1" "settles a1 a'"
    using Suc.hyps(1) [where r = r1, OF n(1) a1(2) len n(2)] v by blast
  have "sweep_slots marked visit [k..<length marked] (r, a) = Some (r', a')"
    using a1(1) a'(1) upt_conv_Cons [OF k(2)] by simp
  moreover have "\<forall>j < length marked. arena_slots a' ! j = (if k \<le> j
          then swept_slot (marked ! j) (w j) (arena_slots a ! j) else arena_slots a ! j)"
    using a'(4) nth by (auto simp: Suc_le_eq)
  moreover have "settles a a'" using a1(5) a'(6) by (rule settles_trans)
  ultimately show ?case using a'(2,3,5) a1(4) by (intro exI [of _ r'] exI [of _ a']) simp
qed (simp add: settles_refl)

lemma sweep_spec:
  assumes inv: "arena_inv a" and len: "length marked = slot_len a"
    and visit: "\<And>i g v. arena_map a (i, g) = Some v \<Longrightarrow> marked ! unat i \<Longrightarrow> visit (unat i) v = Some (w (unat i) v)"
  shows "\<exists>r a'. sweep_unmarked_with marked visit a = Some (r, a') \<and> arena_inv a' \<and> slot_len a' = slot_len a
    \<and> (\<forall>i g. arena_map a' (i, g) = (if unat i < slot_len a \<and> marked ! unat i
          then map_option (w (unat i)) (arena_map a (i, g)) else None))
    \<and> r + arena_len a' = arena_len a \<and> settles a a'"
proof -
  note D = arena_invD [OF inv]
  have l: "length (arena_slots a) = length marked" using len D(2) by simp
  have v: "visit j v = Some (w j v)" if "j < length marked" "slot_value (arena_slots a ! j) = Some v" "marked ! j" for j v
  proof -
    have "unat (of_nat j :: u32) = j" using unat_of_index index_bound [OF inv] that(1) l by metis
    then show ?thesis
      using visit [of "of_nat j" "slot_generation (arena_slots a ! j)" v] that l by (simp add: arena_map_Some [OF D(1)])
  qed
  obtain r a' where a': "sweep_slots marked visit [0..<length marked] (0, a) = Some (r, a')" "arena_inv a'"
      "length (arena_slots a') = length marked"
      "\<And>j. j < length marked \<Longrightarrow> arena_slots a' ! j = swept_slot (marked ! j) (w j) (arena_slots a ! j)"
      "r + live a' = live a" "settles a a'"
    using sweep_slots_spec [OF inv l, of 0 visit w 0] v by auto
  have "arena_map a' (i, g) = (if unat i < slot_len a \<and> marked ! unat i
          then map_option (w (unat i)) (arena_map a (i, g)) else None)" for i g
    using a'(3,4) l len
    by (auto simp: arena_map_def arena_get_flat [OF D(1)] arena_get_flat [OF arena_invD(1) [OF a'(2)]]
        swept_slot_def occupied_def vacated_def split: if_splits)
  then show ?thesis
    using a' len arena_invD(2) [OF a'(2)]
    by (intro exI [of _ r] exI [of _ a']) (simp add: sweep_unmarked_with_def arena_len_def)
qed

section \<open>Restoring\<close>

lemma check_free_ok:
  assumes "length seen = length vs" "distinct free"
    "\<And>f. f \<in> set free \<Longrightarrow> unat f < length vs \<and> \<not> seen ! unat f \<and> vs ! unat f = None"
  shows "\<exists>seen'. check_free kind vs free seen = Inr seen' \<and> length seen' = length vs
    \<and> (\<forall>j < length vs. seen' ! j \<longleftrightarrow> seen ! j \<or> j \<in> unat ` set free)"
  using assms
proof (induction free arbitrary: seen)
  case (Cons f fs)
  have f: "unat f < length vs" "\<not> seen ! unat f" "vs ! unat f = None" using Cons.prems(3) [of f] by simp_all
  have prem: "unat g < length vs \<and> \<not> seen[unat f := True] ! unat g \<and> vs ! unat g = None" if "g \<in> set fs" for g
  proof -
    have "unat f \<noteq> unat g" using that Cons.prems(2) by (auto simp: unat_inject)
    then show ?thesis using Cons.prems(3) [of g] that by simp
  qed
  obtain seen' where "check_free kind vs fs (seen[unat f := True]) = Inr seen'" "length seen' = length vs"
      "\<forall>j < length vs. seen' ! j \<longleftrightarrow> seen[unat f := True] ! j \<or> j \<in> unat ` set fs"
    using Cons.IH [of "seen[unat f := True]"] prem Cons.prems(1,2) by auto
  then show ?case using f Cons.prems(1) by (auto simp: nth_list_update)
qed simp

lemma check_free_inv:
  assumes "check_free kind vs free seen = Inr seen'" "length seen = length vs"
  shows "distinct free \<and> (\<forall>f \<in> set free. unat f < length vs \<and> \<not> seen ! unat f \<and> vs ! unat f = None)"
  using assms
proof (induction free arbitrary: seen)
  case (Cons f fs)
  have f: "unat f < length vs" "\<not> seen ! unat f" "vs ! unat f = None"
    using Cons.prems(1) by (auto split: if_splits)
  have IH: "distinct fs" "\<And>g. g \<in> set fs \<Longrightarrow> unat g < length vs \<and> \<not> seen[unat f := True] ! unat g \<and> vs ! unat g = None"
    using Cons.IH [of "seen[unat f := True]"] Cons.prems f by auto
  have "f \<notin> set fs" using IH(2) [of f] f Cons.prems(2) by auto
  moreover have "\<not> seen ! unat g" if "g \<in> set fs" for g
    using IH(2) [OF that] Cons.prems(2) by (cases "unat g = unat f") auto
  ultimately show ?case using IH f by auto
qed simp

lemma check_vacant_ok_iff:
  "check_vacant kind seen k ss = Inr () \<longleftrightarrow>
   (\<forall>j < length ss. snd (ss ! j) = None \<longrightarrow> fst (ss ! j) \<noteq> 0xFFFFFFFF \<longrightarrow> seen ! (k + j))"
proof (induction ss arbitrary: k)
  case (Cons s ss)
  show ?case using Cons [of "Suc k"] by (auto simp: All_less_Suc2)
qed simp

definition pair_slot :: "u32 \<times> 'a option \<Rightarrow> 'a arena_slot" where
  "pair_slot = (\<lambda>(g, v). \<lparr>slot_generation = g, slot_value = v\<rparr>)"

text \<open>An accepted snapshot is a well-formed arena with exactly the recorded slots.\<close>

lemma arena_from_snapshot_inv:
  assumes ok: "arena_from_snapshot_slots ss free kind = Inr a" and small: "length ss \<le> 2 ^ 32"
  shows "arena_inv a \<and> arena_slots a = map pair_slot ss \<and> free_slots a = free"
proof -
  obtain seen where seen: "check_free kind (map snd ss) free (replicate (length ss) False) = Inr seen"
      and vac: "check_vacant kind seen 0 ss = Inr ()"
      and a: "a = \<lparr>chunks = chunked_from (ARENA_CHUNK_SLOTS - 1) (map pair_slot ss),
            slot_len = length ss, free_slots = free, live = length (filter (\<lambda>s. snd s \<noteq> None) ss)\<rparr>"
    using ok by (auto simp: arena_from_snapshot_slots_def res_bind_def pair_slot_def split: sum.splits)
  have slots: "chunked (chunks a)" "arena_slots a = map pair_slot ss"
    using chunked_from_spec [of "map pair_slot ss"] by (simp_all add: a arena_slots_def)
  have free: "distinct free" "\<And>f. f \<in> set free \<Longrightarrow> unat f < length ss \<and> snd (ss ! unat f) = None"
    using check_free_inv [OF seen] by auto
  have occ: "occupied (pair_slot s) \<longleftrightarrow> snd s \<noteq> None" "slot_generation (pair_slot s) = fst s" for s :: "u32 \<times> 'a option"
    by (simp_all add: occupied_def pair_slot_def split: prod.split)
  obtain seen2 where "check_free kind (map snd ss) free (replicate (length ss) False) = Inr seen2"
      "\<forall>j < length ss. seen2 ! j \<longleftrightarrow> j \<in> unat ` set free"
    using check_free_ok [of "replicate (length ss) False" "map snd ss" free kind] free by auto
  with seen have marks: "seen ! j \<longleftrightarrow> j \<in> unat ` set free" if "j < length ss" for j
    using that by auto
  have "of_nat j \<in> set free" if "j < length ss" "snd (ss ! j) = None" "fst (ss ! j) \<noteq> 0xFFFFFFFF" for j
    using vac marks [OF that(1)] that by (auto simp: check_vacant_ok_iff)
  then have "arena_inv a"
    using slots free small by (simp add: arena_inv_def occ a filter_map o_def)
  then show ?thesis using slots by (simp add: a)
qed

text \<open>What an arena records of itself is accepted, and restores it.\<close>

definition slot_pairs :: "'a arena \<Rightarrow> (u32 \<times> 'a option) list" where
  "slot_pairs a = map (\<lambda>s. (slot_generation s, slot_value s)) (arena_slots a)"

lemma pair_slot_pairs [simp]: "map pair_slot (slot_pairs a) = arena_slots a"
  by (simp add: slot_pairs_def pair_slot_def o_def map_idI)

lemma arena_snapshot_accepts:
  assumes inv: "arena_inv a" and vs: "length ss = slot_len a"
    "\<And>i. i < slot_len a \<Longrightarrow> fst (ss ! i) = slot_generation (arena_slots a ! i)
      \<and> (snd (ss ! i) = None \<longleftrightarrow> \<not> occupied (arena_slots a ! i))"
  shows "\<exists>b. arena_from_snapshot_slots ss (free_slots a) kind = Inr b"
proof -
  note D = arena_invD [OF inv]
  have free: "unat f < length (map snd ss) \<and> \<not> replicate (length ss) False ! unat f \<and> map snd ss ! unat f = None"
    if "f \<in> set (free_slots a)" for f
    using D(5,6) [OF that] vs D(2) by simp
  obtain seen where seen: "check_free kind (map snd ss) (free_slots a) (replicate (length ss) False) = Inr seen"
      "\<forall>j < length ss. seen ! j \<longleftrightarrow> j \<in> unat ` set (free_slots a)"
    using check_free_ok [of "replicate (length ss) False" "map snd ss" "free_slots a" kind] free D(4) by auto
  have "seen ! j" if "j < length ss" "snd (ss ! j) = None" "fst (ss ! j) \<noteq> 0xFFFFFFFF" for j
  proof -
    have j: "j < length (arena_slots a)" "j < slot_len a" using that(1) vs(1) D(2) by simp_all
    have "of_nat j \<in> set (free_slots a)" using arena_inv_free [OF inv j(1)] vs(2) [OF j(2)] that(2,3) by simp
    moreover have "unat (of_nat j :: u32) = j" using unat_of_index index_bound [OF inv j(1)] by blast
    ultimately show ?thesis using seen(2) that(1) by (metis image_eqI)
  qed
  then have "check_vacant kind seen 0 ss = Inr ()" by (simp add: check_vacant_ok_iff)
  then show ?thesis using seen(1) by (simp add: arena_from_snapshot_slots_def res_bind_def)
qed

lemma arena_map_slots:
  "chunked (chunks a) \<Longrightarrow> chunked (chunks b) \<Longrightarrow> arena_slots a = arena_slots b \<Longrightarrow> arena_map a = arena_map b"
  by (rule ext) (auto simp: arena_map_def arena_get_flat)

lemma arena_map_snapshot:
  assumes "arena_inv a" "arena_slots a = map pair_slot ss"
  shows "arena_map a (i, g) = (if unat i < length ss \<and> fst (ss ! unat i) = g then snd (ss ! unat i) else None)"
  using assms by (auto simp: arena_map_def arena_get_flat [OF arena_invD(1)] pair_slot_def split: prod.splits)

section \<open>Iterating\<close>

lemma chunk_enumeration:
  "chunked cs \<Longrightarrow> concat (map (\<lambda>(chunk_index, chunk).
         map (\<lambda>(offset, s). (chunk_index * ARENA_CHUNK_SLOTS + offset, s)) (zip [0..<length chunk] chunk))
       (zip [k..<k + length cs] cs))
   = zip [k * ARENA_CHUNK_SLOTS..<k * ARENA_CHUNK_SLOTS + length (concat cs)] (concat cs)"
proof -
  have shift: "map (\<lambda>(offset, s). (b + offset, s)) (zip [0..<length c] c) = zip [b..<b + length c] c"
    for b and c :: "'s list"
    by (rule nth_equalityI) simp_all
  have cons: "[a..<a + length (x # xs)] = a # [Suc a..<Suc a + length xs]" for a and x :: "'s list" and xs
    using upt_conv_Cons [of a "a + length (x # xs)"] by (simp del: upt_Suc)
  have join: "zip [b..<b + length c] c @ zip [b + length c..<b + length c + length d] d
      = zip [b..<b + length (c @ d)] (c @ d)" for b and c d :: "'s list"
    by (rule nth_equalityI) (auto simp: nth_append)
  show "chunked cs \<Longrightarrow> ?thesis"
  proof (induction cs arbitrary: k rule: chunked.induct)
    case (2 c)
    show ?case unfolding cons by (simp add: shift)
  next
    case (3 c c' cs)
    have len: "length c = ARENA_CHUNK_SLOTS" "Suc k * ARENA_CHUNK_SLOTS = k * ARENA_CHUNK_SLOTS + length c"
      using 3(2) by simp_all
    have "concat (map (\<lambda>(chunk_index, chunk).
           map (\<lambda>(offset, s). (chunk_index * ARENA_CHUNK_SLOTS + offset, s)) (zip [0..<length chunk] chunk))
         (zip [k..<k + length (c # c' # cs)] (c # c' # cs)))
      = zip [k * ARENA_CHUNK_SLOTS..<k * ARENA_CHUNK_SLOTS + length c] c
        @ zip [Suc k * ARENA_CHUNK_SLOTS..<Suc k * ARENA_CHUNK_SLOTS + length (concat (c' # cs))] (concat (c' # cs))"
      unfolding cons [of k c "c' # cs"] using 3(1) [OF chunked_tail [OF 3(2)], of "Suc k"]
      by (simp only: zip_Cons_Cons list.map concat.simps prod.case shift)
    then show ?case unfolding len(2) join by simp
  qed simp
qed

lemma arena_iter_flat:
  "chunked (chunks a) \<Longrightarrow> arena_iter a = List.map_filter (\<lambda>(index, s).
       if u32_max < index then None
       else map_option (\<lambda>v. (of_nat index, slot_generation s, v)) (slot_value s))
     (zip [0..<length (arena_slots a)] (arena_slots a))"
  using chunk_enumeration [of "chunks a" 0] by (simp add: arena_iter_def arena_slots_def)

lemma map_filter_enumerated:
  "y \<in> set (List.map_filter f (zip [0..<length xs] xs)) \<longleftrightarrow> (\<exists>n < length xs. f (n, xs ! n) = Some y)"
  by (force simp: map_filter_def set_zip)

lemma arena_iter_set:
  assumes inv: "arena_inv a"
  shows "(i, g, v) \<in> set (arena_iter a) \<longleftrightarrow> arena_map a (i, g) = Some v"
proof -
  note D = arena_invD [OF inv]
  have "(i, g, v) \<in> set (arena_iter a) \<longleftrightarrow>
      (\<exists>n < length (arena_slots a). i = of_nat n \<and> slot_generation (arena_slots a ! n) = g \<and> slot_value (arena_slots a ! n) = Some v)"
  proof -
    have "\<not> u32_max < n" if "n < length (arena_slots a)" for n
      using index_bound [OF inv that] by (simp add: u32_max_def)
    then show ?thesis
      unfolding arena_iter_flat [OF D(1)] map_filter_enumerated by auto
  qed
  also have "\<dots> \<longleftrightarrow> arena_map a (i, g) = Some v"
    unfolding arena_map_Some [OF D(1)] using unat_of_index index_bound [OF inv]
    by (metis of_nat_unat ucast_id)
  finally show ?thesis .
qed

lemma arena_iter_distinct:
  assumes inv: "arena_inv a"
  shows "distinct (map (\<lambda>(i, g, _). (i, g)) (arena_iter a))"
proof -
  note D = arena_invD [OF inv]
  let ?f = "\<lambda>(index, s). if u32_max < index then None
       else map_option (\<lambda>v. (of_nat index :: u32, slot_generation s, v)) (slot_value s)"
  let ?xs = "filter (\<lambda>p. ?f p \<noteq> None) (zip [0..<length (arena_slots a)] (arena_slots a))"
  have dist: "distinct ?xs" by (simp add: distinct_zipI1)
  have "inj_on (\<lambda>p. case the (?f p) of (i, g, _) \<Rightarrow> (i, g)) (set ?xs)"
  proof (rule inj_onI)
    fix p q assume pq: "p \<in> set ?xs" "q \<in> set ?xs"
      and eq: "(case the (?f p) of (i, g, _) \<Rightarrow> (i, g)) = (case the (?f q) of (i, g, _) \<Rightarrow> (i, g))"
    obtain m s n t where p: "p = (m, s)" and q: "q = (n, t)" by (cases p; cases q)
    have mn: "m < length (arena_slots a)" "s = arena_slots a ! m" "n < length (arena_slots a)" "t = arena_slots a ! n"
      using pq by (auto simp: p q set_zip)
    have "(of_nat m :: u32) = of_nat n" using pq eq by (auto simp: p q split: if_splits)
    then have "m = n" using unat_of_index index_bound [OF inv] mn(1,3) by metis
    then show "p = q" using mn by (simp add: p q)
  qed
  then have "distinct (map (\<lambda>p. case the (?f p) of (i, g, _) \<Rightarrow> (i, g)) ?xs)"
    using dist by (simp add: distinct_map)
  then show ?thesis
    by (simp add: arena_iter_flat [OF D(1)] map_filter_def o_def)
qed

end
