(* ===== verification/DatumLaws.thy ===== *)
theory DatumLaws
  imports Datum
begin

text \<open>
  A datum behaves as an association list in first-declaration order: the index, the shared name
  vector and the layout cache do not show. The list view is \<open>datum_iter\<close>, the reference
  operations are \<open>AList.update\<close> and \<open>AList.delete\<close>.
\<close>

section \<open>The invariant\<close>

definition name_index :: "string list \<Rightarrow> (string \<rightharpoonup> nat)" where
  "name_index names = (\<lambda>n. vec_position (\<lambda>m. m = n) names)"

definition indexed_names :: "string list \<Rightarrow> (string \<rightharpoonup> nat) option \<Rightarrow> bool" where
  "indexed_names names index \<longleftrightarrow> distinct names
     \<and> index = (if length names < DATUM_FIELD_INDEX_THRESHOLD then None else Some (name_index names))"

definition datum_inv :: "datum \<Rightarrow> bool" where
  "datum_inv d \<longleftrightarrow> indexed_names (fields_names (datum_fields d)) (field_index d)
     \<and> length (fields_names (datum_fields d)) = fields_len (datum_fields d)"

lemma fields_names_iter:
  "length (fields_names fs) = fields_len fs \<Longrightarrow> map fst (fields_iter fs) = fields_names fs"
  by (cases fs) simp_all

lemma length_fields_iter:
  "length (fields_names fs) = fields_len fs \<Longrightarrow> length (fields_iter fs) = fields_len fs"
  by (cases fs) simp_all

lemma materialize_owned_iter [simp]: "materialize_owned fs = fields_iter fs"
  by (cases fs) simp_all

lemma datum_invD:
  assumes "datum_inv d"
  shows "distinct (map fst (datum_iter d))" "map fst (datum_iter d) = fields_names (datum_fields d)"
    "length (datum_iter d) = fields_len (datum_fields d)"
    "field_index d = (if length (datum_iter d) < DATUM_FIELD_INDEX_THRESHOLD then None
       else Some (name_index (map fst (datum_iter d))))"
  using assms fields_names_iter [of "datum_fields d"] length_fields_iter [of "datum_fields d"]
  by (auto simp: datum_inv_def indexed_names_def datum_iter_def)

lemma datum_new_inv: "datum_inv (datum_new path)"
  by (simp add: datum_inv_def datum_new_def indexed_names_def DATUM_FIELD_INDEX_THRESHOLD_def)

lemma datum_owned_inv:
  "datum_inv d' \<longleftrightarrow> distinct (map fst fs) \<and> field_index d' = (if length fs < DATUM_FIELD_INDEX_THRESHOLD then None
     else Some (name_index (map fst fs)))" if "datum_fields d' = OwnedFields fs"
  using that by (auto simp: datum_inv_def indexed_names_def)

section \<open>Positions of names\<close>

lemma name_index_Some: "name_index names n = Some i \<Longrightarrow> i < length names \<and> names ! i = n"
  by (auto simp: name_index_def vec_position_Some_iff)

lemma name_index_None: "name_index names n = None \<longleftrightarrow> n \<notin> set names"
  by (auto simp: name_index_def vec_position_None_iff)

lemma name_index_nth: "distinct names \<Longrightarrow> i < length names \<Longrightarrow> name_index names (names ! i) = Some i"
  by (auto simp: name_index_def vec_position_Some_iff nth_eq_iff_index_eq)

lemma name_index_iff:
  "distinct names \<Longrightarrow> name_index names n = Some i \<longleftrightarrow> i < length names \<and> names ! i = n"
  using name_index_Some name_index_nth by blast

lemma name_index_append:
  "n \<notin> set names \<Longrightarrow> name_index (names @ [n]) = (name_index names)(n \<mapsto> length names)"
proof (rule ext)
  fix m assume n: "n \<notin> set names"
  show "name_index (names @ [n]) m = ((name_index names)(n \<mapsto> length names)) m"
    using n unfolding name_index_def by (induction names) (auto simp: o_def)
qed

lemma map_of_position: "map_of fs n = map_option (\<lambda>i. snd (fs ! i)) (name_index (map fst fs) n)"
  unfolding name_index_def by (induction fs) (auto simp: option.map_comp o_def)

lemma map_of_nth_index:
  "name_index (map fst fs) n = Some i \<Longrightarrow> i < length fs \<and> map_of fs n = Some (snd (fs ! i)) \<and> fst (fs ! i) = n"
  using name_index_Some [of "map fst fs" n i] by (auto simp: map_of_position)

text \<open>The loop that builds or repairs an index.\<close>

lemma foldl_index:
  assumes "distinct names"
  shows "foldl (\<lambda>m (offset, n). m(n \<mapsto> k + offset)) m (zip [a..<a + length names] names)
    = (\<lambda>n. case name_index names n of Some i \<Rightarrow> Some (k + a + i) | None \<Rightarrow> m n)"
  using assms
proof (induction names arbitrary: a m)
  case (Cons x xs)
  let ?f = "\<lambda>m (offset, n). m(n \<mapsto> k + offset)"
  have upt: "[a..<a + length (x # xs)] = a # [Suc a..<Suc a + length xs]"
    using upt_conv_Cons [of a "a + length (x # xs)"] by (simp del: upt_Suc)
  have "foldl ?f m (zip [a..<a + length (x # xs)] (x # xs))
      = foldl ?f (m(x \<mapsto> k + a)) (zip [Suc a..<Suc a + length xs] xs)"
    unfolding upt by (simp del: upt_Suc)
  also have "\<dots> = (\<lambda>n. case name_index xs n of Some i \<Rightarrow> Some (k + Suc a + i) | None \<Rightarrow> (m(x \<mapsto> k + a)) n)"
    using Cons.prems by (intro Cons.IH) simp
  finally have step: "foldl ?f m (zip [a..<a + length (x # xs)] (x # xs))
      = (\<lambda>n. case name_index xs n of Some i \<Rightarrow> Some (k + Suc a + i) | None \<Rightarrow> (m(x \<mapsto> k + a)) n)" .
  have "name_index xs x = None" using Cons.prems by (simp add: name_index_None)
  then show ?case unfolding step by (auto simp: name_index_def fun_eq_iff split: option.split)
qed (simp add: name_index_def)

lemma layout_index_correct: "distinct names \<Longrightarrow> layout_index names = name_index names"
  using foldl_index [of names 0 Map.empty 0]
  by (auto simp: layout_index_def fun_eq_iff split: option.split)

section \<open>The operations\<close>

lemma update_nth:
  "name_index (map fst fs) n = Some i \<Longrightarrow> AList.update n v fs = fs[i := (n, v)]"
  unfolding name_index_def by (induction fs arbitrary: i) (auto split: if_splits)

lemma update_fresh: "n \<notin> fst ` set fs \<Longrightarrow> AList.update n v fs = fs @ [(n, v)]"
  by (induction fs) auto

lemma set_named_field_spec: "set_named_field fs n v = (map_of fs n, AList.update n v fs)"
  by (induction fs) auto

text \<open>Updating keeps the names, or adds the new one last.\<close>

lemma keys_update: "map fst (AList.update n v fs) = (if n \<in> set (map fst fs) then map fst fs else map fst fs @ [n])"
  by (induction fs) auto

lemma distinct_keys_update: "distinct (map fst fs) \<Longrightarrow> distinct (map fst (AList.update n v fs))"
  by (simp add: keys_update)

lemma field_slot_spec: "datum_inv d \<Longrightarrow> field_slot n d = name_index (map fst (datum_iter d)) n"
proof -
  assume inv: "datum_inv d"
  have "fields_position n fs = name_index (fields_names fs) n" for fs
    by (cases fs) (simp_all add: name_index_def, induct_tac x1, auto)
  then show ?thesis using datum_invD [OF inv] by (simp add: field_slot_def)
qed

lemma fields_value_iter:
  "length (fields_names fs) = fields_len fs \<Longrightarrow> i < fields_len fs \<Longrightarrow>
   fields_value i fs = Some (snd (fields_iter fs ! i))"
  by (cases fs) simp_all

lemma field_optional_spec:
  assumes "datum_inv d"
  shows "field_optional n d = Some (map_of (datum_iter d) n)"
proof (cases "name_index (map fst (datum_iter d)) n")
  case None
  then show ?thesis using assms by (simp add: field_optional_def field_slot_spec map_of_position)
next
  case (Some i)
  then have "i < fields_len (datum_fields d)" "map_of (datum_iter d) n = Some (snd (datum_iter d ! i))"
    using map_of_nth_index [OF Some] datum_invD [OF assms] by auto
  then show ?thesis
    using assms Some by (simp add: field_optional_def field_slot_spec fields_value_iter datum_inv_def datum_iter_def)
qed

lemma fields_set_value_iter:
  assumes "length (fields_names fs) = fields_len fs" "i < fields_len fs"
  shows "\<exists>fs'. fields_set_value i v fs = Some fs' \<and> fields_names fs' = fields_names fs \<and> fields_len fs' = fields_len fs
    \<and> fields_iter fs' = (fields_iter fs)[i := (fst (fields_iter fs ! i), v)]"
proof (cases fs)
  case (OwnedFields xs)
  then have "i < length xs" using assms by simp
  moreover have "(map fst xs)[i := fst (xs ! i)] = map fst xs" using calculation by (simp add: list_update_same_conv)
  ultimately show ?thesis using OwnedFields by (cases "xs ! i") (auto simp: map_update)
next
  case (SharedFields ns vs)
  then have "zip ns (vs[i := v]) = (zip ns vs)[i := (ns ! i, v)]" using assms
    by (simp add: list_eq_iff_nth_eq nth_list_update)
  then show ?thesis using SharedFields assms by simp
qed

lemma set_field_spec:
  assumes inv: "datum_inv d"
  shows "\<exists>d'. set_field n v d = Some (map_of (datum_iter d) n, d') \<and> datum_inv d'
    \<and> datum_iter d' = AList.update n v (datum_iter d) \<and> datum_type d' = datum_type d"
proof -
  note D = datum_invD [OF inv]
  let ?fs = "datum_iter d"
  have len: "length (fields_names (datum_fields d)) = fields_len (datum_fields d)" using inv by (simp add: datum_inv_def)
  show ?thesis
  proof (cases "length ?fs < DATUM_FIELD_INDEX_THRESHOLD")
    case True
    let ?d = "d\<lparr>datum_fields := OwnedFields (AList.update n v ?fs)\<rparr>"
    let ?build = "map_of ?fs n = None \<and> length (AList.update n v ?fs) = DATUM_FIELD_INDEX_THRESHOLD"
    have idx: "field_index d = None" using D(4) True by simp
    have "set_field n v d = Some (map_of ?fs n, if ?build then build_field_index ?d else ?d)"
      by (simp add: set_field_def idx set_named_field_spec datum_iter_def Let_def)
    moreover have "datum_inv (if ?build then build_field_index ?d else ?d)"
    proof -
      have dist: "distinct (map fst (AList.update n v ?fs))" using D(1) by (rule distinct_keys_update)
      have l: "length (AList.update n v ?fs) = (if map_of ?fs n = None then Suc (length ?fs) else length ?fs)"
        using keys_update [of n v ?fs] by (metis length_append_singleton length_map map_of_eq_None_iff set_map)
      show ?thesis
      proof (cases ?build)
        case b: True
        then show ?thesis
          using dist layout_index_correct [OF dist] by (simp add: build_field_index_def datum_inv_def indexed_names_def)
      next
        case False
        then have "length (AList.update n v ?fs) < DATUM_FIELD_INDEX_THRESHOLD"
          using True l by (auto split: if_splits)
        then show ?thesis using False dist idx by (auto simp: datum_inv_def indexed_names_def)
      qed
    qed
    ultimately show ?thesis by (auto simp: datum_iter_def build_field_index_def)
  next
    case False
    then have idx: "field_index d = Some (name_index (map fst ?fs))" using D(4) by simp
    show ?thesis
    proof (cases "name_index (map fst ?fs) n")
      case (Some i)
      note m = map_of_nth_index [OF Some]
      have i: "i < fields_len (datum_fields d)" using m D(3) by simp
      obtain fs' where fs': "fields_set_value i v (datum_fields d) = Some fs'"
          "fields_names fs' = fields_names (datum_fields d)" "fields_len fs' = fields_len (datum_fields d)"
          "fields_iter fs' = ?fs[i := (n, v)]"
        using fields_set_value_iter [OF len i, of v] m by (auto simp: datum_iter_def)
      have "set_field n v d = Some (map_of ?fs n, d\<lparr>datum_fields := fs'\<rparr>)"
        using idx Some fs'(1) m i len by (simp add: set_field_def fields_value_iter datum_iter_def)
      then show ?thesis
        using fs' inv update_nth [OF Some] by (simp add: datum_inv_def datum_iter_def)
    next
      case None
      then have fresh: "n \<notin> set (map fst ?fs)" by (simp add: name_index_None)
      then have up: "AList.update n v ?fs = ?fs @ [(n, v)]" using update_fresh by fastforce
      let ?d = "d\<lparr>datum_fields := OwnedFields (?fs @ [(n, v)]),
          field_index := Some ((name_index (map fst ?fs))(n \<mapsto> length ?fs))\<rparr>"
      have "set_field n v d = Some (map_of ?fs n, ?d)"
        using idx None D(3) by (simp add: set_field_def map_of_position datum_iter_def)
      moreover have "datum_inv ?d"
        using False D(1) fresh name_index_append [OF fresh] by (simp add: datum_inv_def indexed_names_def)
      ultimately show ?thesis using up by (simp add: datum_iter_def)
    qed
  qed
qed

text \<open>Deletion moves the later fields down; the index follows.\<close>

lemma name_index_join:
  "name_index (xs @ ys) x = (case name_index xs x of Some j \<Rightarrow> Some j
     | None \<Rightarrow> map_option (\<lambda>j. length xs + j) (name_index ys x))"
  unfolding name_index_def
proof (induction xs)
  case Nil
  show ?case by (cases "vec_position (\<lambda>m. m = x) ys") simp_all
next
  case (Cons a xs)
  then show ?case by (cases "vec_position (\<lambda>m. m = x) ys") (simp_all split: option.split)
qed

lemma name_index_delete:
  assumes "distinct names" "i < length names" "n = names ! i"
  shows "(\<lambda>x. case name_index (drop (Suc i) names) x of Some j \<Rightarrow> Some (i + j)
      | None \<Rightarrow> ((name_index names)(n := None)) x) = name_index (delete_at i names)"
proof (rule ext)
  fix x
  define xs ys where "xs = take i names" and "ys = drop (Suc i) names"
  have names: "names = xs @ n # ys" using id_take_nth_drop [OF assms(2)] by (simp add: xs_def ys_def assms(3))
  have i: "length xs = i" using assms(2) by (simp add: xs_def)
  have d: "n \<notin> set xs" "n \<notin> set ys" "set xs \<inter> set ys = {}" using assms(1) by (auto simp: names)
  have del: "delete_at i names = xs @ ys" by (simp add: delete_at_def xs_def ys_def)
  have xs: "name_index xs x = None" if "x \<in> set ys" using d that by (auto simp: name_index_None)
  have n: "name_index xs n = None" "name_index ys n = None" using d by (auto simp: name_index_None)
  have cons: "name_index (n # ys) x = (if x = n then Some 0 else map_option Suc (name_index ys x))" for x
    by (auto simp: name_index_def)
  show "(case name_index ys x of Some j \<Rightarrow> Some (i + j) | None \<Rightarrow> ((name_index names)(n := None)) x)
      = name_index (delete_at i names) x"
  proof (cases "name_index ys x")
    case None
    then show ?thesis unfolding del using n by (auto simp: names name_index_join cons split: option.split)
  next
    case (Some j)
    then have "x \<in> set ys" using name_index_None [of ys x] by (metis option.distinct(1))
    then show ?thesis using Some xs by (simp add: del name_index_join i)
  qed
qed

lemma delete_absent: "n \<notin> fst ` set fs \<Longrightarrow> AList.delete n fs = fs"
  by (induction fs) auto

lemma delete_append: "AList.delete n (xs @ ys) = AList.delete n xs @ AList.delete n ys"
  by (simp add: AList.delete_eq)

lemma delete_nth:
  assumes "distinct (map fst fs)" "name_index (map fst fs) n = Some i"
  shows "AList.delete n fs = delete_at i fs"
proof -
  have i: "i < length fs" "fst (fs ! i) = n" using map_of_nth_index [OF assms(2)] by auto
  define xs ys where "xs = take i fs" and "ys = drop (Suc i) fs"
  have fs: "fs = xs @ fs ! i # ys" using id_take_nth_drop [OF i(1)] by (simp add: xs_def ys_def)
  have "distinct (map fst (xs @ fs ! i # ys))" using assms(1) fs by simp
  then have "n \<notin> fst ` set xs" "n \<notin> fst ` set ys" using i(2) by auto
  then have "AList.delete n (xs @ fs ! i # ys) = xs @ ys"
    using i(2) by (simp add: delete_append delete_absent)
  then show ?thesis using fs by (simp add: delete_at_def xs_def ys_def)
qed

lemma foldl_index_fields:
  "distinct (map fst fs) \<Longrightarrow>
   foldl (\<lambda>m (offset, f). m(fst f \<mapsto> k + offset)) m (zip [0..<length fs] fs)
    = (\<lambda>n. case name_index (map fst fs) n of Some i \<Rightarrow> Some (k + i) | None \<Rightarrow> m n)"
proof -
  assume d: "distinct (map fst fs)"
  have "zip [0..<length fs] (map fst fs) = map (\<lambda>(o', f). (o', fst f)) (zip [0..<length fs] fs)"
    by (simp add: zip_map2)
  moreover have "foldl (\<lambda>m (offset, n). m(n \<mapsto> k + offset)) m (map (\<lambda>(o', f). (o', fst f)) (zip [0..<length fs] fs))
      = foldl (\<lambda>m (offset, f). m(fst f \<mapsto> k + offset)) m (zip [0..<length fs] fs)"
    unfolding foldl_map by (rule foldl_cong) auto
  ultimately show ?thesis using foldl_index [OF d, of k m 0, unfolded add_0_right] by simp
qed

lemma delete_field_spec:
  assumes inv: "datum_inv d"
  shows "\<exists>d'. delete_field n d = Some (map_of (datum_iter d) n, d') \<and> datum_inv d'
    \<and> datum_iter d' = AList.delete n (datum_iter d) \<and> datum_type d' = datum_type d"
proof (cases "name_index (map fst (datum_iter d)) n")
  case None
  then have "AList.delete n (datum_iter d) = datum_iter d"
    by (intro delete_absent) (simp add: name_index_None)
  then show ?thesis using None inv by (simp add: delete_field_def field_slot_spec map_of_position)
next
  case (Some i)
  note D = datum_invD [OF inv]
  let ?fs = "datum_iter d"
  note m = map_of_nth_index [OF Some]
  have del: "AList.delete n ?fs = delete_at i ?fs" using delete_nth [OF D(1) Some] .
  have dist: "distinct (map fst (delete_at i ?fs))" using D(1) by (simp add: map_delete_at distinct_delete_at)
  let ?d = "d\<lparr>datum_fields := OwnedFields (delete_at i ?fs), field_index :=
      (if length (delete_at i ?fs) < DATUM_FIELD_INDEX_THRESHOLD then None
       else Some (name_index (map fst (delete_at i ?fs))))\<rparr>"
  have big: "\<not> length ?fs < DATUM_FIELD_INDEX_THRESHOLD" if "\<not> length (delete_at i ?fs) < DATUM_FIELD_INDEX_THRESHOLD"
    using that m by simp
  have tail: "drop i (delete_at i ?fs) = drop (Suc i) ?fs" using m by (simp add: delete_at_def)
  have "foldl (\<lambda>m (offset, f). m(fst f \<mapsto> i + offset)) ((name_index (map fst ?fs))(n := None))
      (zip [0..<length (drop (Suc i) ?fs)] (drop (Suc i) ?fs)) = name_index (map fst (delete_at i ?fs))"
    using foldl_index_fields [of "drop (Suc i) ?fs" i "(name_index (map fst ?fs))(n := None)"] D(1) m
      name_index_delete [OF D(1), of i n]
    by (simp add: drop_map [symmetric] distinct_drop map_delete_at)
  then have "delete_field n d = Some (map_of ?fs n, ?d)"
    using m D(4) big Some
    by (cases "?fs ! i") (auto simp: delete_field_def field_slot_spec [OF inv] tail datum_iter_def [symmetric] Let_def)
  moreover have "datum_inv ?d" using dist by (simp add: datum_inv_def indexed_names_def)
  moreover have "datum_iter ?d = delete_at i ?fs" by (simp add: datum_iter_def)
  ultimately show ?thesis unfolding del by (intro exI [of _ ?d]) simp
qed

lemma field_at_validated_slot_spec:
  assumes "datum_inv d"
  shows "field_at_validated_slot i n d = Some (if field_slot n d = Some i then map_of (datum_iter d) n else None)"
proof -
  note D = datum_invD [OF assms]
  have name: "fields_name i (datum_fields d) = Some (map fst (datum_iter d) ! i)" if "i < fields_len (datum_fields d)"
    using that assms D(2) by (cases "datum_fields d") (auto simp: datum_inv_def)
  have slot: "field_slot n d = Some i \<longleftrightarrow> i < fields_len (datum_fields d) \<and> map fst (datum_iter d) ! i = n"
    using field_slot_spec [OF assms, of n] name_index_iff [OF D(1), of n i] D(3) by simp
  show ?thesis
  proof (cases "field_slot n d = Some i")
    case True
    then have m: "map_of (datum_iter d) n = Some (snd (datum_iter d ! i))"
      using map_of_nth_index [of "datum_iter d" n i] field_slot_spec [OF assms, of n] by auto
    then show ?thesis using slot True name assms
      by (auto simp: field_at_validated_slot_def fields_value_iter datum_inv_def datum_iter_def)
  next
    case False
    then show ?thesis using slot name by (auto simp: field_at_validated_slot_def)
  qed
qed

section \<open>Defaults, layouts and the collector\<close>

lemma apply_default_fields_spec:
  assumes "datum_inv d"
  shows "\<exists>d'. apply_default_fields fs d = Some d' \<and> datum_inv d' \<and> datum_type d' = datum_type d
    \<and> datum_iter d' = foldl (\<lambda>al (n, v). AList.update n v al) (datum_iter d) fs"
  using assms
proof (induction fs arbitrary: d)
  case (Cons f fs)
  obtain d1 where d1: "set_field (fst f) (snd f) d = Some (map_of (datum_iter d) (fst f), d1)" "datum_inv d1"
      "datum_iter d1 = AList.update (fst f) (snd f) (datum_iter d)" "datum_type d1 = datum_type d"
    using set_field_spec [OF Cons.prems] by blast
  from Cons.IH [OF d1(2)] show ?case using d1 by (auto simp: split_beta)
qed simp

definition cache_inv :: "layout_cache \<Rightarrow> bool" where
  "cache_inv c \<longleftrightarrow> cache_entries c \<le> DATUM_LAYOUT_CACHE_MAX_ENTRIES
     \<and> (\<forall>t ls. by_type c t = Some ls \<longrightarrow> length ls \<le> DATUM_LAYOUT_CACHE_MAX_VARIANTS_PER_TYPE
          \<and> (\<forall>l \<in> set ls. indexed_names (cached_names l) (cached_index l)))"

lemma layout_cache_new_inv: "cache_inv layout_cache_new"
  by (simp add: cache_inv_def layout_cache_new_def)

lemma share_names_iter:
  "length (fields_names fs) = fields_len fs \<Longrightarrow> fields_iter (share_names (fields_names fs) fs) = fields_iter fs"
  "fields_names (share_names ns fs) = ns" "fields_len (share_names ns fs) = fields_len fs"
  by (cases fs; simp add: zip_map_fst_snd)+

lemma share_own_names:
  assumes "datum_inv d"
  shows "datum_inv (d\<lparr>datum_fields := share_names (fields_names (datum_fields d)) (datum_fields d)\<rparr>)"
    "datum_iter (d\<lparr>datum_fields := share_names (fields_names (datum_fields d)) (datum_fields d)\<rparr>) = datum_iter d"
  using assms by (simp_all add: datum_inv_def datum_iter_def share_names_iter)

lemma layout_matches_names:
  "datum_inv d \<Longrightarrow> layout_matches d l \<Longrightarrow> cached_names l = fields_names (datum_fields d)"
  by (auto simp: layout_matches_def datum_inv_def list_all_length list_eq_iff_nth_eq)

lemma compact_layout_spec:
  assumes d: "datum_inv d" and c: "cache_inv c" and cd: "compact_layout d c = (d', c')"
  shows "datum_inv d' \<and> cache_inv c' \<and> datum_iter d' = datum_iter d \<and> datum_type d' = datum_type d"
proof (cases "fields_len (datum_fields d) = 0 \<or> is_shared (datum_fields d)")
  case True
  then show ?thesis using assms by (simp add: compact_layout_def)
next
  case False
  have names: "indexed_names (fields_names (datum_fields d)) (field_index d)" using d by (simp add: datum_inv_def)
  show ?thesis
  proof (cases "Option.bind (by_type c (datum_type d)) (List.find (layout_matches d))")
    case (Some l)
    then obtain ls where ls: "by_type c (datum_type d) = Some ls" "l \<in> set ls" "layout_matches d l"
      by (auto simp: find_Some_iff)
    have l: "cached_names l = fields_names (datum_fields d)" using layout_matches_names [OF d ls(3)] .
    have "cached_index l = field_index d"
      using c ls(1,2) names by (auto simp: cache_inv_def indexed_names_def l)
    then show ?thesis
      using cd False Some l c share_own_names [OF d] by (auto simp: compact_layout_def)
  next
    case None
    define ls0 where "ls0 = (case by_type c (datum_type d) of Some ls \<Rightarrow> ls | None \<Rightarrow> [])"
    have ls: "length ls0 \<le> DATUM_LAYOUT_CACHE_MAX_VARIANTS_PER_TYPE"
        "\<forall>l \<in> set ls0. indexed_names (cached_names l) (cached_index l)"
      unfolding ls0_def using c by (cases "by_type c (datum_type d)"; simp add: cache_inv_def)+
    have d': "d' = d\<lparr>datum_fields := share_names (fields_names (datum_fields d)) (datum_fields d)\<rparr>"
      using cd False None by (auto simp: compact_layout_def Let_def)
    have "cache_inv c'"
      using cd False None c ls names
      by (auto simp: compact_layout_def Let_def cache_inv_def ls0_def [symmetric] split: if_splits)
    then show ?thesis using d' share_own_names [OF d] by simp
  qed
qed

lemma gc_compact_datum_spec:
  "datum_inv d \<Longrightarrow> datum_inv (gc_compact_datum d) \<and> datum_iter (gc_compact_datum d) = datum_iter d
     \<and> datum_type (gc_compact_datum d) = datum_type d"
  using share_own_names [of d] by (simp add: gc_compact_datum_def)

end
