(* ===== verification/DmListLaws.thy ===== *)
theory DmListLaws
  imports DmList
begin

text \<open>
  The laws of \<open>DmList\<close>. A list is read as its sequence of entries, each a value with the
  associated value if it has one. \<open>list_inv\<close> is the storage invariant: the order lists every
  element of the two vectors once, the lazy prefix and the removal index only sit on purely
  positional lists, the keys are pairwise different, and the hash index finds every key that
  has a hash.
\<close>

section \<open>Order entries as slots\<close>

datatype slot = Pos nat | Asc nat

definition slot_of :: "u32 \<Rightarrow> slot" where
  "slot_of e = (if e AND ASSOCIATIVE_BIT = 0 then Pos (unat e)
     else Asc (unat (e AND NOT ASSOCIATIVE_BIT)))"

fun slot_index :: "slot \<Rightarrow> nat" where
  "slot_index (Pos i) = i"
| "slot_index (Asc i) = i"

lemma positional_index_iff [simp]: "order_positional_index e = Some i \<longleftrightarrow> slot_of e = Pos i"
  by (auto simp: order_positional_index_def slot_of_def)

lemma associative_index_iff [simp]: "order_associative_index e = Some i \<longleftrightarrow> slot_of e = Asc i"
  by (auto simp: order_associative_index_def slot_of_def)

lemma order_positional_index_slot:
  "order_positional_index e = (case slot_of e of Pos i \<Rightarrow> Some i | Asc i \<Rightarrow> None)"
  by (auto simp: order_positional_index_def slot_of_def)

lemma order_associative_index_slot:
  "order_associative_index e = (case slot_of e of Pos i \<Rightarrow> None | Asc i \<Rightarrow> Some i)"
  by (auto simp: order_associative_index_def slot_of_def)

lemma associative_bit: "ASSOCIATIVE_BIT = 2 ^ 31"
  by (simp add: ASSOCIATIVE_BIT_def)

lemma bit_clear_iff: "e AND ASSOCIATIVE_BIT = 0 \<longleftrightarrow> \<not> bit e 31"
  unfolding associative_bit by (rule and_exp_eq_0_iff_not_bit)

lemma bit_associative_bit: "bit ASSOCIATIVE_BIT n \<longleftrightarrow> n = 31"
  unfolding associative_bit by (auto simp only: bit_exp_iff possible_bit_word) (simp_all)

lemma small_not_bit: "i < 2147483648 \<Longrightarrow> \<not> bit (of_nat i :: u32) 31"
proof -
  assume "i < 2147483648"
  then have "\<not> bit i 31" by (simp add: bit_iff_odd)
  then show ?thesis by (simp add: bit_of_nat_iff)
qed

lemma unat_small: "i < 2147483648 \<Longrightarrow> unat (of_nat i :: u32) = i"
  by (simp add: unsigned_of_nat take_bit_nat_eq_self)

lemma order_positional_small:
  "i < 2147483648 \<Longrightarrow> \<exists>e. order_positional i = Some e \<and> slot_of e = Pos i"
  by (simp add: order_positional_def u32_max_def slot_of_def bit_clear_iff small_not_bit unat_small)

lemma order_associative_small:
  assumes "i < 2147483648"
  shows "\<exists>e. order_associative i = Some e \<and> slot_of e = Asc i"
proof -
  let ?e = "of_nat i OR ASSOCIATIVE_BIT :: u32"
  have "bit ?e 31" by (simp add: bit_or_iff bit_associative_bit)
  moreover have "?e AND NOT ASSOCIATIVE_BIT = of_nat i"
    using small_not_bit [OF assms]
    by (auto simp: bit_and_iff bit_or_iff bit_not_iff bit_associative_bit intro!: bit_word_eqI)
  ultimately show ?thesis
    using assms by (simp add: order_associative_def u32_max_def slot_of_def bit_clear_iff unat_small)
qed

section \<open>Sequences of slots\<close>

abbreviation slots :: "dm_list \<Rightarrow> slot list" where "slots l \<equiv> map slot_of (list_order l)"

definition slots_ok :: "nat \<Rightarrow> nat \<Rightarrow> slot list \<Rightarrow> bool" where
  "slots_ok np na ss \<longleftrightarrow> distinct ss \<and> set ss = Pos ` {..<np} \<union> Asc ` {..<na}"

lemma slots_ok_length: "slots_ok np na ss \<Longrightarrow> length ss = np + na"
proof -
  assume ss: "slots_ok np na ss"
  then have "length ss = card (Pos ` {..<np} \<union> Asc ` {..<na})"
    by (metis slots_ok_def distinct_card)
  also have "\<dots> = card (Pos ` {..<np}) + card (Asc ` {..<na})"
    by (rule card_Un_disjoint) auto
  also have "\<dots> = np + na" by (simp add: card_image inj_on_def)
  finally show ?thesis .
qed

lemma slots_ok_Pos: "slots_ok np na ss \<Longrightarrow> Pos i \<in> set ss \<longleftrightarrow> i < np"
  by (auto simp: slots_ok_def)

lemma slots_ok_Asc: "slots_ok np na ss \<Longrightarrow> Asc i \<in> set ss \<longleftrightarrow> i < na"
  by (auto simp: slots_ok_def)

fun drop_pos :: "nat \<Rightarrow> slot \<Rightarrow> slot" where
  "drop_pos p (Pos i) = Pos (if p < i then i - 1 else i)"
| "drop_pos p (Asc i) = Asc i"

fun drop_asc :: "nat \<Rightarrow> slot \<Rightarrow> slot" where
  "drop_asc a (Pos i) = Pos i"
| "drop_asc a (Asc i) = Asc (if a < i then i - 1 else i)"

lemma less_image_drop: "(p :: nat) < n \<Longrightarrow> (\<lambda>i. if p < i then i - 1 else i) ` ({..<n} - {p}) = {..<n - 1}"
proof (intro set_eqI iffI)
  fix j assume "p < n" "j \<in> {..<n - 1}"
  then show "j \<in> (\<lambda>i. if p < i then i - 1 else i) ` ({..<n} - {p})"
    by (intro image_eqI [where x = "if j < p then j else j + 1"]) auto
qed auto

lemma drop_pos_ok:
  assumes "slots_ok np na ss" "Pos p \<in> set ss"
    and "distinct ss'" "set ss' = set ss - {Pos p}"
  shows "slots_ok (np - 1) na (map (drop_pos p) ss')"
proof -
  have p: "p < np" using assms(1,2) by (simp add: slots_ok_Pos)
  have s: "set ss' = Pos ` ({..<np} - {p}) \<union> Asc ` {..<na}"
    using assms(1,4) by (auto simp: slots_ok_def)
  have "inj_on (drop_pos p) (set ss')"
    unfolding s by (auto simp: inj_on_def split: if_splits)
  moreover have "drop_pos p ` set ss' = Pos ` {..<np - 1} \<union> Asc ` {..<na}"
    unfolding s image_Un less_image_drop [OF p, symmetric] image_image by auto
  ultimately show ?thesis using assms(3) by (simp add: slots_ok_def distinct_map)
qed

lemma drop_asc_ok:
  assumes "slots_ok np na ss" "Asc a \<in> set ss"
    and "distinct ss'" "set ss' = set ss - {Asc a}"
  shows "slots_ok np (na - 1) (map (drop_asc a) ss')"
proof -
  have a: "a < na" using assms(1,2) by (simp add: slots_ok_Asc)
  have s: "set ss' = Pos ` {..<np} \<union> Asc ` ({..<na} - {a})"
    using assms(1,4) by (auto simp: slots_ok_def)
  have "inj_on (drop_asc a) (set ss')"
    unfolding s by (auto simp: inj_on_def split: if_splits)
  moreover have "drop_asc a ` set ss' = Pos ` {..<np} \<union> Asc ` {..<na - 1}"
    unfolding s image_Un less_image_drop [OF a, symmetric] image_image by auto
  ultimately show ?thesis using assms(3) by (simp add: slots_ok_def distinct_map)
qed

section \<open>The entries a list shows\<close>

type_synonym entry = "dm_value \<times> dm_value option"

fun show_slot :: "dm_value list \<Rightarrow> (dm_value \<times> dm_value) list \<Rightarrow> slot \<Rightarrow> entry" where
  "show_slot ps as (Pos i) = (ps ! i, None)"
| "show_slot ps as (Asc i) = (fst (as ! i), Some (snd (as ! i)))"

definition entries :: "dm_list \<Rightarrow> entry list" where
  "entries l = map (show_slot (positional l) (associative l)) (drop (prefix_head l) (slots l))"

lemma show_slot_drop_pos:
  assumes "p < length ps" "s \<noteq> Pos p" "s \<in> Pos ` {..<length ps} \<union> Asc ` A"
  shows "show_slot (delete_at p ps) as (drop_pos p s) = show_slot ps as s"
proof (cases s)
  case (Pos i)
  then have "i < length ps" "i \<noteq> p" using assms by auto
  with Pos assms(1) show ?thesis by (auto simp: nth_delete_at)
qed simp

lemma show_slot_drop_asc:
  assumes "a < length as" "s \<noteq> Asc a" "s \<in> Pos ` P \<union> Asc ` {..<length as}"
  shows "show_slot ps (delete_at a as) (drop_asc a s) = show_slot ps as s"
proof (cases s)
  case (Asc i)
  then have "i < length as" "i \<noteq> a" using assms by auto
  with Asc assms(1) show ?thesis by (auto simp: nth_delete_at)
qed simp

lemma show_slot_snoc:
  "s \<in> Pos ` {..<length ps} \<union> Asc ` {..<length as} \<Longrightarrow> show_slot (ps @ qs) as s = show_slot ps as s"
  "s \<in> Pos ` {..<length ps} \<union> Asc ` {..<length as} \<Longrightarrow> show_slot ps (as @ bs) s = show_slot ps as s"
  by (auto simp: nth_append)

section \<open>Rewriting loops\<close>

lemma vec_each_slots:
  assumes "\<And>e. e \<in> set es \<Longrightarrow> \<exists>e'. f e = Some e' \<and> slot_of e' = g (slot_of e)"
  shows "\<exists>es'. vec_each f es = Some es' \<and> map slot_of es' = map g (map slot_of es)"
  using assms
proof (induction es)
  case (Cons e es)
  obtain e' where "f e = Some e'" "slot_of e' = g (slot_of e)" using Cons.prems [of e] by auto
  moreover obtain es' where "vec_each f es = Some es'" "map slot_of es' = map g (map slot_of es)"
    using Cons.IH Cons.prems by auto
  ultimately show ?case by auto
qed simp

definition small_slots :: "u32 list \<Rightarrow> bool" where
  "small_slots es \<longleftrightarrow> (\<forall>e \<in> set es. slot_index (slot_of e) < 2147483648)"

lemma shift_positional_slots:
  assumes "small_slots es"
  shows "\<exists>es'. shift_positional p es = Some es' \<and> map slot_of es' = map (drop_pos p) (map slot_of es)"
  unfolding shift_positional_def
proof (rule vec_each_slots)
  fix e assume "e \<in> set es"
  with assms have "slot_index (slot_of e) < 2147483648" by (simp add: small_slots_def)
  then show "\<exists>e'. (case order_positional_index e of
       Some other \<Rightarrow> if p < other then order_positional (other - 1) else Some e
     | None \<Rightarrow> Some e) = Some e' \<and> slot_of e' = drop_pos p (slot_of e)"
    using order_positional_small [of "slot_index (slot_of e) - 1"]
    by (cases "slot_of e") (auto simp: order_positional_index_slot)
qed

lemma shift_associative_slots:
  assumes "small_slots es"
  shows "\<exists>es'. shift_associative a es = Some es' \<and> map slot_of es' = map (drop_asc a) (map slot_of es)"
  unfolding shift_associative_def
proof (rule vec_each_slots)
  fix e assume "e \<in> set es"
  with assms have "slot_index (slot_of e) < 2147483648" by (simp add: small_slots_def)
  then show "\<exists>e'. (case order_associative_index e of
       Some other \<Rightarrow> if a < other then order_associative (other - 1) else Some e
     | None \<Rightarrow> Some e) = Some e' \<and> slot_of e' = drop_asc a (slot_of e)"
    using order_associative_small [of "slot_index (slot_of e) - 1"]
    by (cases "slot_of e") (auto simp: order_associative_index_slot)
qed

section \<open>The association index\<close>

definition keys_distinct :: "(dm_value \<times> dm_value) list \<Rightarrow> bool" where
  "keys_distinct as \<longleftrightarrow> (\<forall>i < length as. \<forall>j < length as.
     semantic_eq (fst (as ! i)) (fst (as ! j)) \<longrightarrow> i = j)"

text \<open>\<open>indexed sip as n index\<close>: the index finds the first \<open>n\<close> keys, or sends them to a scan.\<close>

definition indexed :: "(hash_write list \<Rightarrow> u64) \<Rightarrow> (dm_value \<times> dm_value) list \<Rightarrow> nat
    \<Rightarrow> (u64 \<rightharpoonup> u32) \<Rightarrow> bool" where
  "indexed sip as n index \<longleftrightarrow>
     (\<forall>h w. index h = Some w \<longrightarrow> w \<noteq> ASSOCIATIVE_INDEX_COLLISION \<longrightarrow> unat w < n)
   \<and> (\<forall>p < n. \<forall>h. semantic_hash sip (fst (as ! p)) = Some h \<longrightarrow>
        (\<exists>w. index h = Some w \<and> (w = ASSOCIATIVE_INDEX_COLLISION
           \<or> semantic_eq (fst (as ! unat w)) (fst (as ! p)))))"

definition index_ok :: "(hash_write list \<Rightarrow> u64) \<Rightarrow> (dm_value \<times> dm_value) list
    \<Rightarrow> (u64 \<rightharpoonup> u32) option \<Rightarrow> bool" where
  "index_ok sip as io \<longleftrightarrow> (case io of
       None \<Rightarrow> length as < ASSOCIATIVE_INDEX_THRESHOLD
     | Some index \<Rightarrow> ASSOCIATIVE_INDEX_THRESHOLD \<le> length as \<and> indexed sip as (length as) index)"

lemma semantic_eq_refl_hash: "semantic_hash sip v = Some h \<Longrightarrow> semantic_eq v v"
  using semantic_hash_None_iff [of sip v] semantic_eq_key [of v] by (cases "semantic_key v") auto

text \<open>Putting one more key into the index, as both indexing loops do.\<close>

lemma index_insert:
  assumes "indexed sip as n index" "n < length as" "n < 2147483648"
    and h: "semantic_hash sip (fst (as ! n)) = Some h"
  shows "indexed sip as (Suc n) (case index h of
      None \<Rightarrow> index(h \<mapsto> of_nat n)
    | Some w \<Rightarrow>
        if w = ASSOCIATIVE_INDEX_COLLISION \<or> semantic_eq (fst (as ! unat w)) (fst (as ! n)) then index
        else index(h \<mapsto> ASSOCIATIVE_INDEX_COLLISION))"
    (is "indexed sip as (Suc n) ?index")
proof -
  have small: "unat (of_nat n :: u32) = n" using assms(3) by (rule unat_small)
  have old: "\<exists>w. index g = Some w \<and> (w = ASSOCIATIVE_INDEX_COLLISION
      \<or> semantic_eq (fst (as ! unat w)) (fst (as ! p)))"
    if "p < n" "semantic_hash sip (fst (as ! p)) = Some g" for p g
    using assms(1) that by (simp add: indexed_def)
  have "unat w < Suc n" if "?index g = Some w" "w \<noteq> ASSOCIATIVE_INDEX_COLLISION" for g w
    using that assms(1) small
    by (auto simp: indexed_def less_Suc_eq split: option.splits if_splits)
  moreover have "\<exists>w. ?index g = Some w \<and> (w = ASSOCIATIVE_INDEX_COLLISION
      \<or> semantic_eq (fst (as ! unat w)) (fst (as ! p)))"
    if p: "p < Suc n" "semantic_hash sip (fst (as ! p)) = Some g" for p g
  proof (cases "p = n")
    case True
    then have "g = h" using p h by simp
    then show ?thesis
      using True small semantic_eq_refl_hash [OF h] by (cases "index h") auto
  next
    case False
    then show ?thesis
      using old [of p g] p by (cases "index h") auto
  qed
  ultimately show ?thesis by (simp add: indexed_def)
qed

lemma indexed_skip:
  assumes "indexed sip as n index" "semantic_hash sip (fst (as ! n)) = None"
  shows "indexed sip as (Suc n) index"
  using assms by (auto simp: indexed_def less_Suc_eq)

lemma index_key_indexed:
  assumes "indexed sip as n index" "n < length as" "n < 2147483648"
  shows "\<exists>index'. index_key sip as n (fst (as ! n)) index = Some index' \<and> indexed sip as (Suc n) index'"
proof (cases "semantic_hash sip (fst (as ! n))")
  case None
  then show ?thesis using indexed_skip [OF assms(1)] by (simp add: index_key_def)
next
  case (Some h)
  have get: "vec_get as (unat w) = Some (as ! unat w)"
    if "index h = Some w" "w \<noteq> ASSOCIATIVE_INDEX_COLLISION" for w
    using that assms(1,2) less_trans [of "unat w" n "length as"] by (simp add: indexed_def)
  show ?thesis
    using index_insert [OF assms Some] Some assms(3) get
    by (cases "index h") (auto simp: index_key_def u32_max_def split: prod.splits if_splits)
qed

lemma index_keys_indexed:
  assumes "length as \<le> 2147483648" "rest = drop n as" "n \<le> length as" "indexed sip as n index"
  shows "\<exists>index'. index_keys sip as n rest index = Some index' \<and> indexed sip as (length as) index'"
  using assms(2-)
proof (induction rest arbitrary: n index)
  case (Cons kv rest)
  have n: "n < length as" using Cons.prems(1) by (metis drop_eq_Nil linorder_not_less list.distinct(1))
  have kv: "kv = as ! n" "rest = drop (Suc n) as"
    using Cons.prems(1) n by (metis Cons_nth_drop_Suc list.inject)+
  obtain index' where i: "index_key sip as n (fst kv) index = Some index'" "indexed sip as (Suc n) index'"
    using index_key_indexed [OF Cons.prems(3) n] n assms(1) unfolding kv by auto
  show ?case using Cons.IH [OF kv(2) _ i(2)] n i(1) by simp
qed simp

lemma indexed_empty: "indexed sip as 0 Map.empty"
  by (simp add: indexed_def)

lemma rebuild_index_ok:
  assumes "length (associative l) \<le> 2147483648"
  shows "\<exists>io. rebuild_associative_index sip l = Some (l\<lparr>associative_index := io\<rparr>)
    \<and> index_ok sip (associative l) io"
proof (cases "length (associative l) < ASSOCIATIVE_INDEX_THRESHOLD")
  case True
  then show ?thesis by (intro exI [of _ None]) (simp add: rebuild_associative_index_def index_ok_def)
next
  case False
  obtain index where "index_keys sip (associative l) 0 (associative l) Map.empty = Some index"
      "indexed sip (associative l) (length (associative l)) index"
    using index_keys_indexed [OF assms, of "associative l" 0 sip Map.empty] indexed_empty by auto
  with False show ?thesis
    by (intro exI [of _ "Some index"]) (simp add: rebuild_associative_index_def index_ok_def)
qed

lemma indexed_append: "n \<le> length as \<Longrightarrow> indexed sip as n index \<Longrightarrow> indexed sip (as @ bs) n index"
  unfolding indexed_def
  by (smt (verit, best) nth_append order_less_le_trans)

lemma index_last_ok:
  assumes as: "associative l = as @ [kv]" and "length as < 2147483648"
    and ok: "index_ok sip as (associative_index l)"
  shows "\<exists>io. index_last_association sip l = Some (l\<lparr>associative_index := io\<rparr>)
    \<and> index_ok sip (associative l) io"
proof (cases "length (associative l) \<le> ASSOCIATIVE_INDEX_THRESHOLD")
  case True
  show ?thesis
  proof (cases "length (associative l) = ASSOCIATIVE_INDEX_THRESHOLD")
    case True
    then show ?thesis using rebuild_index_ok [of l sip] as assms(2)
      by (simp add: index_last_association_def)
  next
    case False
    with True have lt: "length (associative l) < ASSOCIATIVE_INDEX_THRESHOLD" by simp
    then have "associative_index l = None" using ok as by (auto simp: index_ok_def split: option.splits)
    with lt show ?thesis
      by (intro exI [of _ None]) (simp add: index_last_association_def index_ok_def)
  qed
next
  case False
  then obtain index where index: "associative_index l = Some index" "indexed sip as (length as) index"
    using ok as by (auto simp: index_ok_def split: option.splits)
  have old: "indexed sip (associative l) (length as) index"
    using indexed_append [OF _ index(2), of "[kv]"] by (simp add: as)
  have n: "length as < length (associative l)" by (simp add: as)
  show ?thesis
  proof (cases "semantic_hash sip (fst kv)")
    case None
    then have "indexed sip (associative l) (Suc (length as)) index"
      using indexed_skip [OF old] by (simp add: as)
    with None False index(1) show ?thesis
      by (intro exI [of _ "Some index"]) (simp add: index_last_association_def index_ok_def as Let_def)
  next
    case (Some h)
    then have h: "semantic_hash sip (fst (associative l ! length as)) = Some h" by (simp add: as)
    have get: "vec_get (associative l) (unat w) = Some (associative l ! unat w)"
      if "index h = Some w" "w \<noteq> ASSOCIATIVE_INDEX_COLLISION" for w
      using that old n less_trans [of "unat w" "length as" "length (associative l)"]
      by (simp add: indexed_def)
    let ?index = "case index h of
        None \<Rightarrow> index(h \<mapsto> of_nat (length as))
      | Some w \<Rightarrow>
          if w = ASSOCIATIVE_INDEX_COLLISION
            \<or> semantic_eq (fst (associative l ! unat w)) (fst (associative l ! length as)) then index
          else index(h \<mapsto> ASSOCIATIVE_INDEX_COLLISION)"
    have "indexed sip (associative l) (Suc (length as)) ?index"
      by (rule index_insert [OF old n assms(2) h])
    moreover have "index_last_association sip l = Some (l\<lparr>associative_index := Some ?index\<rparr>)"
      using False h index(1) assms(2) get
      by (cases "index h")
        (auto simp: index_last_association_def as Let_def u32_max_def split: prod.splits)
    ultimately show ?thesis
      using False by (intro exI [of _ "Some ?index"]) (simp add: index_ok_def as)
  qed
qed

text \<open>The indexed lookup is the linear scan.\<close>

lemma association_position_scan:
  assumes "keys_distinct (associative l)" "index_ok sip (associative l) (associative_index l)"
  shows "association_position_for_key sip l key = scan_associations l key"
proof (cases "associative_index l")
  case None
  then show ?thesis by (simp add: association_position_for_key_def)
next
  case (Some index)
  show ?thesis
  proof (cases "semantic_hash sip key")
    case None
    then show ?thesis by (simp add: association_position_for_key_def Some)
  next
    case hash: (Some h)
    have found: "\<exists>w. index h = Some w" if "i < length (associative l)"
        "semantic_eq (fst (associative l ! i)) key" for i
    proof -
      have "semantic_hash sip (fst (associative l ! i)) = Some h"
        using that(2) hash by (metis semantic_eq_sym(1) semantic_eq_hash)
      then show ?thesis using assms(2) that(1) by (fastforce simp: Some index_ok_def indexed_def)
    qed
    have only: "scan_associations l key = Some i"
      if i: "i < length (associative l)" "semantic_eq (fst (associative l ! i)) key" for i
    proof -
      have "j = i" if "j < length (associative l)" "semantic_eq (fst (associative l ! j)) key" for j
        using that i assms(1)
        by (metis keys_distinct_def semantic_eq_sym(1) semantic_eq_trans(1))
      then have "\<not> semantic_eq (fst (associative l ! j)) key" if "j < i" for j
        using that i(1) by (metis less_irrefl less_trans)
      with i show ?thesis by (simp add: scan_associations_def vec_position_Some_iff)
    qed
    show ?thesis
    proof (cases "index h")
      case None
      then have "scan_associations l key = None"
        using found by (fastforce simp: scan_associations_def vec_position_None_iff in_set_conv_nth)
      with None show ?thesis by (simp add: association_position_for_key_def Some hash)
    next
      case w: (Some w)
      show ?thesis
        using only [of "unat w"]
        by (auto simp: association_position_for_key_def Some hash w vec_get_iff split: option.splits)
    qed
  qed
qed

end
