(* ===== verification/DmListOps.thy ===== *)
theory DmListOps
  imports DmListLaws
begin

text \<open>
  Every operation of \<open>DmList\<close> keeps the storage invariant, does not panic within the size
  limits, and acts on the entry sequence as the specification functions here say.
\<close>

section \<open>The storage invariant\<close>

definition max_entries :: nat where "max_entries = 2147483648"

definition storage_ok :: "(hash_write list \<Rightarrow> u64) \<Rightarrow> dm_list \<Rightarrow> bool" where
  "storage_ok sip l \<longleftrightarrow>
     length (list_order l) \<le> max_entries
   \<and> slots_ok (length (positional l)) (length (associative l)) (slots l)
   \<and> keys_distinct (associative l)
   \<and> index_ok sip (associative l) (associative_index l)"

definition purely_positional :: "dm_list \<Rightarrow> bool" where
  "purely_positional l \<longleftrightarrow> associative l = [] \<and> slots l = map Pos [0..<length (positional l)]"

definition prefix_ok :: "dm_list \<Rightarrow> bool" where
  "prefix_ok l \<longleftrightarrow> prefix_head l \<le> length (list_order l)
     \<and> (prefix_head l = 0 \<or> purely_positional l)"

text \<open>
  The removal index remembers the values \<open>orig\<close> the list held when the index was built and
  the original positions \<open>R\<close> removed since; per key it keeps the surviving positions.
\<close>

definition remembers :: "positional_remove_index \<Rightarrow> dm_value list \<Rightarrow> nat set \<Rightarrow> dm_value list \<Rightarrow> bool" where
  "remembers ix orig R now \<longleftrightarrow>
     now = map ((!) orig) (survivors R (length orig))
   \<and> R \<subseteq> {..<length orig} \<and> length orig \<le> max_entries
   \<and> length (pri_removed ix) = length orig + 1 \<and> fenwick.removes (pri_removed ix) R
   \<and> (\<forall>v \<in> set orig. semantic_key v \<noteq> None)
   \<and> (\<forall>key. (case pri_positions ix key of None \<Rightarrow> [] | Some ps \<Rightarrow> ps)
        = filter (\<lambda>p. semantic_key (orig ! p) = Some key) (survivors R (length orig)))"

definition removal_ok :: "dm_list \<Rightarrow> bool" where
  "removal_ok l \<longleftrightarrow> (case positional_remove_index l of
       None \<Rightarrow> True
     | Some ix \<Rightarrow> prefix_head l = 0 \<and> purely_positional l
         \<and> (\<exists>orig R. remembers ix orig R (positional l)))"

definition list_inv :: "(hash_write list \<Rightarrow> u64) \<Rightarrow> dm_list \<Rightarrow> bool" where
  "list_inv sip l \<longleftrightarrow> storage_ok sip l \<and> prefix_ok l \<and> removal_ok l"

text \<open>A list without prefix and without removal index: what the writing operations work on.\<close>

definition plain :: "(hash_write list \<Rightarrow> u64) \<Rightarrow> dm_list \<Rightarrow> bool" where
  "plain sip l \<longleftrightarrow> storage_ok sip l \<and> prefix_head l = 0 \<and> positional_remove_index l = None"

lemma plain_inv: "plain sip l \<Longrightarrow> list_inv sip l"
  by (simp add: plain_def list_inv_def prefix_ok_def removal_ok_def)

lemma list_inv_new: "list_inv sip dm_list_new" "entries dm_list_new = []"
  by (auto simp: list_inv_def storage_ok_def prefix_ok_def removal_ok_def dm_list_new_def
      slots_ok_def keys_distinct_def index_ok_def ASSOCIATIVE_INDEX_THRESHOLD_def entries_def)

lemma storage_ok_lengths:
  assumes "storage_ok sip l"
  shows "length (list_order l) = length (positional l) + length (associative l)"
    and "length (positional l) \<le> max_entries" "length (associative l) \<le> max_entries"
  using assms slots_ok_length [of "length (positional l)" "length (associative l)" "slots l"]
  by (auto simp: storage_ok_def)

lemma storage_ok_small: "storage_ok sip l \<Longrightarrow> small_slots (list_order l)"
proof (unfold small_slots_def, intro ballI)
  fix e assume l: "storage_ok sip l" and "e \<in> set (list_order l)"
  then have "slot_of e \<in> Pos ` {..<length (positional l)} \<union> Asc ` {..<length (associative l)}"
    by (auto simp: storage_ok_def slots_ok_def)
  with storage_ok_lengths [OF l] show "slot_index (slot_of e) < 2147483648"
    by (auto simp: max_entries_def)
qed

lemma small_slots_subset: "small_slots es \<Longrightarrow> set es' \<subseteq> set es \<Longrightarrow> small_slots es'"
  by (auto simp: small_slots_def)

lemma list_inv_len: "list_inv sip l \<Longrightarrow> list_len l = length (entries l)"
  by (simp add: entries_def list_len_def)

text \<open>An order entry of a well-formed list shows its value without a panic.\<close>

lemma slot_shown:
  assumes "storage_ok sip l" "i < length (list_order l)"
  shows "(\<exists>p < length (positional l). slot_of (list_order l ! i) = Pos p)
       \<or> (\<exists>a < length (associative l). slot_of (list_order l ! i) = Asc a)"
proof -
  have "slot_of (list_order l ! i) \<in> set (slots l)" using assms(2) by simp
  then show ?thesis using assms(1) by (auto simp: storage_ok_def slots_ok_def)
qed

lemma entry_value_shown:
  assumes "storage_ok sip l" "i < length (list_order l)"
  shows "entry_value l (list_order l ! i)
    = Some (fst (show_slot (positional l) (associative l) (slot_of (list_order l ! i))))"
  using slot_shown [OF assms]
  by (auto simp: entry_value_def order_positional_index_slot order_associative_index_slot
      split: prod.splits)

lemma nth_entries:
  "prefix_head l \<le> length (list_order l) \<Longrightarrow> i < length (entries l) \<Longrightarrow>
   entries l ! i = show_slot (positional l) (associative l) (slot_of (list_order l ! (prefix_head l + i)))"
  by (simp add: entries_def)

section \<open>Reading operations\<close>

definition spec_get :: "nat \<Rightarrow> entry list \<Rightarrow> value_error + dm_value" where
  "spec_get index es = (case checked_index index (length es) of
       Inl e \<Rightarrow> Inl e | Inr i \<Rightarrow> Inr (fst (es ! i)))"

lemma checked_index_Inr_iff:
  "checked_index index n = Inr i \<longleftrightarrow> index = Suc i \<and> i < n"
  by (auto simp: checked_index_def)

lemma checked_index_cases:
  obtains e where "checked_index index n = Inl e"
  | i where "checked_index index n = Inr i" "index = Suc i" "i < n"
  by (cases "checked_index index n") (auto simp: checked_index_Inr_iff)

lemma list_get_spec:
  assumes "list_inv sip l"
  shows "list_get l index = Some (spec_get index (entries l))"
proof (cases rule: checked_index_cases [of index "list_len l"])
  case (1 e)
  then show ?thesis by (simp add: list_get_def spec_get_def list_inv_len [OF assms])
next
  case (2 i)
  have inv: "storage_ok sip l" "prefix_head l \<le> length (list_order l)"
    using assms by (simp_all add: list_inv_def prefix_ok_def)
  have i: "i + prefix_head l < length (list_order l)" using 2 by (simp add: list_len_def)
  then show ?thesis
    using 2 inv nth_entries [OF inv(2), of i]
    by (simp add: list_get_def spec_get_def list_inv_len [OF assms, symmetric] add.commute
        entry_value_shown [OF inv(1)])
qed

section \<open>Preparing a write\<close>

lemma map_Pos_upt_shift: "map Pos [0..<n - h] = map (\<lambda>s. Pos (slot_index s - h)) (drop h (map Pos [0..<n]))"
  by (rule nth_equalityI) auto

lemma materialize_spec:
  assumes "list_inv sip l"
  shows "\<exists>l'. materialize_prefix l = Some l' \<and> list_inv sip l' \<and> prefix_head l' = 0
    \<and> entries l' = entries l \<and> length (list_order l') \<le> length (list_order l)
    \<and> associative l' = associative l"
proof (cases "prefix_head l = 0")
  case True
  with assms show ?thesis by (simp add: materialize_prefix_def)
next
  case False
  let ?h = "prefix_head l" and ?P = "positional l"
  have ok: "storage_ok sip l" "purely_positional l" "?h \<le> length (list_order l)" "removal_ok l"
    using assms False by (auto simp: list_inv_def prefix_ok_def)
  have A: "associative l = []" and S: "slots l = map Pos [0..<length ?P]"
    using ok(2) by (simp_all add: purely_positional_def)
  have len: "length (list_order l) = length ?P" using storage_ok_lengths(1) [OF ok(1)] A by simp
  have no_ix: "positional_remove_index l = None"
    using ok(4) False by (auto simp: removal_ok_def split: option.splits)
  have "\<exists>es. vec_each (\<lambda>e. do {
         index \<leftarrow> order_positional_index e;
         shifted \<leftarrow> usize_sub index ?h;
         order_positional shifted }) (drop ?h (list_order l)) = Some es
      \<and> map slot_of es = map (\<lambda>s. Pos (slot_index s - ?h)) (map slot_of (drop ?h (list_order l)))"
  proof (rule vec_each_slots)
    fix e assume "e \<in> set (drop ?h (list_order l))"
    then have "slot_of e \<in> set (drop ?h (map Pos [0..<length ?P]))"
      by (metis S drop_map image_eqI list.set_map)
    then obtain i where i: "slot_of e = Pos i" "?h \<le> i" "i < length ?P"
      by (auto simp: drop_map)
    then show "\<exists>e'. do {
         index \<leftarrow> order_positional_index e;
         shifted \<leftarrow> usize_sub index ?h;
         order_positional shifted } = Some e' \<and> slot_of e' = Pos (slot_index (slot_of e) - ?h)"
      using order_positional_small [of "i - ?h"] storage_ok_lengths(2) [OF ok(1)]
      by (auto simp: order_positional_index_slot usize_sub_def max_entries_def)
  qed
  then obtain es where es: "vec_each (\<lambda>e. do {
         index \<leftarrow> order_positional_index e;
         shifted \<leftarrow> usize_sub index ?h;
         order_positional shifted }) (drop ?h (list_order l)) = Some es"
      "map slot_of es = map Pos [0..<length ?P - ?h]"
    unfolding drop_map [symmetric] S map_Pos_upt_shift by blast
  let ?l = "l\<lparr>positional := drop ?h ?P, list_order := es, prefix_head := 0\<rparr>"
  have "materialize_prefix l = Some ?l"
    using False ok(3) es(1) by (simp add: materialize_prefix_def vec_drain_def len)
  moreover have "length es = length ?P - ?h"
    using arg_cong [OF es(2), of length] by simp
  moreover have "list_inv sip ?l"
    using ok(1) es(2) A no_ix \<open>length es = _\<close> len
    by (auto simp: list_inv_def storage_ok_def prefix_ok_def removal_ok_def slots_ok_def
        distinct_map inj_on_def)
  moreover have "entries ?l = entries l"
    unfolding entries_def by (rule nth_equalityI) (auto simp: es(2) S A len ok(3))
  ultimately show ?thesis using len by auto
qed

lemma prepare_spec:
  assumes "list_inv sip l"
  shows "\<exists>l'. materialize_prefix l = Some l' \<and> plain sip (invalidate_positional_remove_index l')
    \<and> entries (invalidate_positional_remove_index l') = entries l
    \<and> length (list_order (invalidate_positional_remove_index l')) \<le> length (list_order l)
    \<and> list_inv sip l' \<and> entries l' = entries l \<and> prefix_head l' = 0"
  using materialize_spec [OF assms]
  by (auto simp: plain_def invalidate_positional_remove_index_def list_inv_def storage_ok_def
      entries_def)

lemma plain_entries: "plain sip l \<Longrightarrow> entries l = map (show_slot (positional l) (associative l)) (slots l)"
  by (simp add: entries_def plain_def)

lemma plain_length: "plain sip l \<Longrightarrow> length (list_order l) = length (entries l)"
  by (simp add: plain_entries)

lemma plain_slots: "plain sip l \<Longrightarrow> slots_ok (length (positional l)) (length (associative l)) (slots l)"
  by (simp add: plain_def storage_ok_def)

lemma shown_in_range:
  "slots_ok np na ss \<Longrightarrow> s \<in> set ss \<Longrightarrow> s \<in> Pos ` {..<np} \<union> Asc ` {..<na}"
  by (auto simp: slots_ok_def)

section \<open>Appending\<close>

lemma slots_ok_append:
  "slots_ok np na ss \<Longrightarrow> slots_ok (np + k) na (ss @ map Pos [np..<np + k])"
proof -
  have "{..<np + k} = {..<np} \<union> {np..<np + k}" by auto
  then show "slots_ok np na ss \<Longrightarrow> slots_ok (np + k) na (ss @ map Pos [np..<np + k])"
    by (auto simp: slots_ok_def distinct_map inj_on_def image_Un)
qed

lemma vec_each_order_positional:
  assumes "\<forall>i \<in> set ns. i < max_entries"
  shows "\<exists>es. vec_each order_positional ns = Some es \<and> map slot_of es = map Pos ns"
  using assms
proof (induction ns)
  case (Cons n ns)
  then show ?case using order_positional_small [of n] by (auto simp: max_entries_def)
qed simp

lemma extend_spec:
  assumes "list_inv sip l" "length (list_order l) + length vs \<le> max_entries"
  shows "\<exists>l'. extend_positional vs l = Some (length (entries l) + length vs, l') \<and> list_inv sip l'
    \<and> entries l' = entries l @ map (\<lambda>v. (v, None)) vs
    \<and> length (list_order l') = length (list_order l) + length vs"
proof -
  have ok: "storage_ok sip l" "prefix_ok l" using assms(1) by (simp_all add: list_inv_def)
  note len = storage_ok_lengths [OF ok(1)]
  let ?np = "length (positional l)"
  have "\<forall>i \<in> set [?np..<?np + length vs]. i < max_entries" using assms(2) len(1) by auto
  from vec_each_order_positional [OF this] obtain es
    where es: "vec_each order_positional [?np..<?np + length vs] = Some es"
      "map slot_of es = map Pos [?np..<?np + length vs]" by blast
  let ?l = "l\<lparr>positional_remove_index := None, positional := positional l @ vs,
    list_order := list_order l @ es\<rparr>"
  have es_len: "length es = length vs" using arg_cong [OF es(2), of length] by simp
  have head: "prefix_head l \<le> length (list_order l)" using ok(2) by (simp add: prefix_ok_def)
  have "extend_positional vs l = Some (length (entries l) + length vs, ?l)"
    using es(1) es_len head
    by (simp add: extend_positional_def invalidate_positional_remove_index_def Let_def entries_def)
  moreover have "slots_ok (?np + length vs) (length (associative l)) (slots ?l)"
    using slots_ok_append [of ?np "length (associative l)" "slots l" "length vs"] ok(1) es(2)
    by (simp add: storage_ok_def)
  then have "storage_ok sip ?l" using ok(1) assms(2) es_len by (simp add: storage_ok_def)
  moreover have "prefix_ok ?l"
  proof -
    have "purely_positional ?l" if "purely_positional l"
      using that es(2) upt_add_eq_append [of 0 ?np "length vs"]
      by (simp add: purely_positional_def)
    then show ?thesis using ok(2) by (auto simp: prefix_ok_def)
  qed
  moreover have "entries ?l = entries l @ map (\<lambda>v. (v, None)) vs"
  proof -
    have "show_slot (positional l @ vs) (associative l) s = show_slot (positional l) (associative l) s"
      if "s \<in> set (drop (prefix_head l) (slots l))" for s
      using that ok(1) shown_in_range [of _ _ "slots l" s]
      by (intro show_slot_snoc(1)) (auto simp only: storage_ok_def dest: in_set_dropD)
    moreover have "map (show_slot (positional l @ vs) (associative l)) (map Pos [?np..<?np + length vs])
        = map (\<lambda>v. (v, None)) vs"
      by (rule nth_equalityI) (auto simp: nth_append)
    ultimately show ?thesis using head by (simp add: entries_def es(2))
  qed
  ultimately show ?thesis using es_len by (auto simp: list_inv_def removal_ok_def)
qed

lemma list_add_extend: "list_add v l = extend_positional [v] l"
  by (cases l) (simp add: list_add_def extend_positional_def Let_def list_len_def
      invalidate_positional_remove_index_def)

section \<open>Overwriting\<close>

lemma show_update_pos:
  assumes "distinct ss" "k < length ss" "ss ! k = Pos p" "p < length ps"
  shows "map (show_slot (ps[p := v]) as) ss = (map (show_slot ps as) ss)[k := (v, None)]"
proof (rule nth_equalityI)
  fix i assume "i < length (map (show_slot (ps[p := v]) as) ss)"
  then have i: "i < length ss" by simp
  show "map (show_slot (ps[p := v]) as) ss ! i = (map (show_slot ps as) ss)[k := (v, None)] ! i"
  proof (cases "i = k")
    case False
    then have "ss ! i \<noteq> Pos p" using assms(1-3) i by (metis nth_eq_iff_index_eq)
    then show ?thesis using i False by (cases "ss ! i") (auto simp: nth_list_update)
  qed (use assms i in simp)
qed simp

lemma show_update_asc:
  assumes "distinct ss" "k < length ss" "ss ! k = Asc a" "a < length as"
  shows "map (show_slot ps (as[a := (x, v)])) ss = (map (show_slot ps as) ss)[k := (x, Some v)]"
proof (rule nth_equalityI)
  fix i assume "i < length (map (show_slot ps (as[a := (x, v)])) ss)"
  then have i: "i < length ss" by simp
  show "map (show_slot ps (as[a := (x, v)])) ss ! i = (map (show_slot ps as) ss)[k := (x, Some v)] ! i"
  proof (cases "i = k")
    case False
    then have "ss ! i \<noteq> Asc a" using assms(1-3) i by (metis nth_eq_iff_index_eq)
    then show ?thesis using i False by (cases "ss ! i") (auto simp: nth_list_update)
  qed (use assms i in simp)
qed simp

lemma update_insert_delete: "k < length xs \<Longrightarrow> xs[k := x] = insert_at k x (delete_at k xs)"
  by (simp add: insert_at_def delete_at_def upd_conv_take_nth_drop)

lemma slots_ok_insert_pos:
  "slots_ok np na ss \<Longrightarrow> k \<le> length ss \<Longrightarrow> slots_ok (Suc np) na (insert_at k (Pos np) ss)"
  unfolding slots_ok_def
  by (auto simp: set_insert_at lessThan_Suc intro!: distinct_insert_at)

lemma slots_ok_insert_asc:
  "slots_ok np na ss \<Longrightarrow> k \<le> length ss \<Longrightarrow> slots_ok np (Suc na) (insert_at k (Asc na) ss)"
  unfolding slots_ok_def
  by (auto simp: set_insert_at lessThan_Suc intro!: distinct_insert_at)

lemma slots_ok_delete_pos:
  assumes "slots_ok np na ss" "k < length ss" "ss ! k = Pos p"
  shows "slots_ok (np - 1) na (map (drop_pos p) (delete_at k ss))"
  using assms nth_mem [OF assms(2)]
  by (intro drop_pos_ok) (auto simp: slots_ok_def set_delete_at_distinct distinct_delete_at)

lemma slots_ok_delete_asc:
  assumes "slots_ok np na ss" "k < length ss" "ss ! k = Asc a"
  shows "slots_ok np (na - 1) (map (drop_asc a) (delete_at k ss))"
  using assms nth_mem [OF assms(2)]
  by (intro drop_asc_ok) (auto simp: slots_ok_def set_delete_at_distinct distinct_delete_at)

lemma show_delete_pos:
  assumes "slots_ok (length ps) (length as) ss" "k < length ss" "ss ! k = Pos p"
  shows "map (show_slot (delete_at p ps) as) (map (drop_pos p) (delete_at k ss))
    = delete_at k (map (show_slot ps as) ss)"
proof -
  have p: "p < length ps" using slots_ok_Pos [OF assms(1)] nth_mem [OF assms(2)] assms(3) by simp
  have "show_slot (delete_at p ps) as (drop_pos p s) = show_slot ps as s"
    if "s \<in> set (delete_at k ss)" for s
    using that assms set_delete_at_distinct [of ss k]
    by (intro show_slot_drop_pos [OF p]) (auto simp: slots_ok_def)
  then show ?thesis by (simp add: map_delete_at [symmetric])
qed

lemma show_delete_asc:
  assumes "slots_ok (length ps) (length as) ss" "k < length ss" "ss ! k = Asc a"
  shows "map (show_slot ps (delete_at a as)) (map (drop_asc a) (delete_at k ss))
    = delete_at k (map (show_slot ps as) ss)"
proof -
  have a: "a < length as" using slots_ok_Asc [OF assms(1)] nth_mem [OF assms(2)] assms(3) by simp
  have "show_slot ps (delete_at a as) (drop_asc a s) = show_slot ps as s"
    if "s \<in> set (delete_at k ss)" for s
    using that assms set_delete_at_distinct [of ss k]
    by (intro show_slot_drop_asc [OF a]) (auto simp: slots_ok_def)
  then show ?thesis by (simp add: map_delete_at [symmetric])
qed

lemma keys_distinct_delete:
  assumes "keys_distinct as" "a < length as"
  shows "keys_distinct (delete_at a as)"
  unfolding keys_distinct_def
proof (intro allI impI)
  fix i j assume ij: "i < length (delete_at a as)" "j < length (delete_at a as)"
    and eq: "semantic_eq (fst (delete_at a as ! i)) (fst (delete_at a as ! j))"
  define up where "up = (\<lambda>i. if i < a then i else Suc i)"
  have up: "delete_at a as ! n = as ! up n" "up n < length as" if "n < length (delete_at a as)" for n
    using that assms(2) by (auto simp: nth_delete_at up_def)
  have "up i = up j"
    using assms(1) up(2) [OF ij(1)] up(2) [OF ij(2)] eq
    unfolding keys_distinct_def up(1) [OF ij(1)] up(1) [OF ij(2)] by blast
  then show "i = j" by (auto simp: up_def split: if_splits)
qed

section \<open>What each operation does to the entries\<close>

definition spec_set :: "nat \<Rightarrow> dm_value \<Rightarrow> entry list \<Rightarrow> (value_error + dm_value) \<times> entry list" where
  "spec_set index v es = (case checked_index index (length es) of
       Inl e \<Rightarrow> (Inl e, es) | Inr i \<Rightarrow> (Inr (fst (es ! i)), es[i := (v, None)]))"

definition spec_remove :: "nat \<Rightarrow> entry list \<Rightarrow> (value_error + dm_value) \<times> entry list" where
  "spec_remove index es = (case checked_index index (length es) of
       Inl e \<Rightarrow> (Inl e, es) | Inr i \<Rightarrow> (Inr (fst (es ! i)), delete_at i es))"

definition spec_insert :: "nat \<Rightarrow> dm_value \<Rightarrow> entry list \<Rightarrow> (value_error + nat) \<times> entry list" where
  "spec_insert index v es = (case checked_boundary index (length es) of
       Inl e \<Rightarrow> (Inl e, es) | Inr i \<Rightarrow> (Inr index, insert_at i (v, None) es))"

definition spec_swap :: "nat \<Rightarrow> nat \<Rightarrow> entry list \<Rightarrow> (value_error + unit) \<times> entry list" where
  "spec_swap first second es = (case checked_index first (length es) of
       Inl e \<Rightarrow> (Inl e, es)
     | Inr i \<Rightarrow> (case checked_index second (length es) of
         Inl e \<Rightarrow> (Inl e, es) | Inr j \<Rightarrow> (Inr (), es[i := es ! j, j := es ! i])))"

text \<open>
  \<open>performs sip l m spec n\<close>: the run \<open>m\<close> of an operation on \<open>l\<close> does not panic, returns what
  the specification returns, leaves a well-formed list with the entries of the specification,
  and grows the storage by at most \<open>n\<close> entries.
\<close>

definition performs :: "(hash_write list \<Rightarrow> u64) \<Rightarrow> dm_list \<Rightarrow> ('r \<times> dm_list) option
    \<Rightarrow> 'r \<times> entry list \<Rightarrow> nat \<Rightarrow> bool" where
  "performs sip l m spec n \<longleftrightarrow> (\<exists>l'. m = Some (fst spec, l') \<and> list_inv sip l'
     \<and> entries l' = snd spec \<and> length (list_order l') \<le> length (list_order l) + n)"

lemma performsI:
  "m = Some (r, l') \<Longrightarrow> list_inv sip l' \<Longrightarrow> entries l' = es \<Longrightarrow>
   length (list_order l') \<le> length (list_order l) + n \<Longrightarrow> performs sip l m (r, es) n"
  by (simp add: performs_def)

lemma plain_rebuild:
  assumes "length (list_order l) \<le> max_entries"
    and "slots_ok (length (positional l)) (length (associative l)) (slots l)"
    and "keys_distinct (associative l)"
    and "prefix_head l = 0" "positional_remove_index l = None"
  shows "\<exists>l'. rebuild_associative_index sip l = Some l' \<and> plain sip l' \<and> entries l' = entries l
    \<and> length (list_order l') = length (list_order l)"
proof -
  have "length (associative l) \<le> 2147483648"
    using slots_ok_length [OF assms(2)] assms(1) by (simp add: max_entries_def)
  from rebuild_index_ok [OF this] obtain io where
    "rebuild_associative_index sip l = Some (l\<lparr>associative_index := io\<rparr>)"
    "index_ok sip (associative l) io" by blast
  with assms show ?thesis by (auto simp: plain_def storage_ok_def entries_def)
qed

lemma list_set_spec:
  assumes inv: "list_inv sip l"
  shows "performs sip l (list_set sip index v l) (spec_set index v (entries l)) 0"
proof (cases rule: checked_index_cases [of index "list_len l"])
  case (1 e)
  with inv show ?thesis
    by (simp add: performs_def list_set_def spec_set_def list_inv_len [OF inv, symmetric])
next
  case (2 i)
  have ok: "storage_ok sip l" "prefix_ok l" "prefix_head l \<le> length (list_order l)"
    using inv by (auto simp: list_inv_def prefix_ok_def)
  let ?k = "i + prefix_head l"
  have k: "?k < length (list_order l)" using 2 by (simp add: list_len_def)
  have show_k: "entries l ! i = show_slot (positional l) (associative l) (slot_of (list_order l ! ?k))"
    using nth_entries [OF ok(3), of i] 2 list_inv_len [OF inv] by (simp add: add.commute)
  have dist: "distinct (slots l)" using ok(1) by (simp add: storage_ok_def slots_ok_def)
  have spec: "spec_set index v (entries l) = (Inr (fst (entries l ! i)), (entries l)[i := (v, None)])"
    using 2 by (simp add: spec_set_def list_inv_len [OF inv])
  from slot_shown [OF ok(1) k] show ?thesis
  proof
    assume "\<exists>p < length (positional l). slot_of (list_order l ! ?k) = Pos p"
    then obtain p where p: "p < length (positional l)" "slot_of (list_order l ! ?k) = Pos p" by blast
    let ?l = "l\<lparr>positional_remove_index := None, positional := (positional l)[p := v]\<rparr>"
    have "list_set sip index v l = Some (Inr (fst (entries l ! i)), ?l)"
      using 2 k p show_k
      by (simp add: list_set_def Let_def order_positional_index_slot invalidate_positional_remove_index_def)
    moreover have "list_inv sip ?l"
      using ok(1,2) by (simp add: list_inv_def storage_ok_def prefix_ok_def purely_positional_def removal_ok_def)
    moreover have "entries ?l = (entries l)[i := (v, None)]"
      using show_update_pos [OF dist, of ?k p] k p
      by (simp add: entries_def drop_map [symmetric] drop_update_swap)
    ultimately show ?thesis by (simp add: spec performs_def)
  next
    assume "\<exists>a < length (associative l). slot_of (list_order l ! ?k) = Asc a"
    then obtain a where a: "a < length (associative l)" "slot_of (list_order l ! ?k) = Asc a" by blast
    then have h: "prefix_head l = 0" using ok(2) by (auto simp: prefix_ok_def purely_positional_def)
    let ?P = "positional l" and ?A = "associative l" and ?S = "slots l"
    have so: "slots_ok (length ?P) (length ?A) ?S" using ok(1) by (simp add: storage_ok_def)
    have pl: "length ?P < max_entries"
      using storage_ok_lengths(1) [OF ok(1)] ok(1) a(1) by (simp add: storage_ok_def)
    obtain es where es: "shift_associative a (list_order l) = Some es" "map slot_of es = map (drop_asc a) ?S"
      using shift_associative_slots [OF storage_ok_small [OF ok(1)]] by blast
    then have es_len: "length es = length (list_order l)" by (metis length_map)
    obtain fresh where fresh: "order_positional (length ?P) = Some fresh" "slot_of fresh = Pos (length ?P)"
      using order_positional_small [of "length ?P"] pl by (auto simp: max_entries_def)
    let ?m = "l\<lparr>positional_remove_index := None, associative := delete_at a ?A,
      positional := ?P @ [v], list_order := es[i := fresh]\<rparr>"
    have S: "slots ?m = insert_at i (Pos (length ?P)) (map (drop_asc a) (delete_at i ?S))"
      using k h es_len
      by (simp add: map_insert_at map_delete_at fresh(2) es(2) update_insert_delete)
    have Ak: "?S ! i = Asc a" using a(2) k h by simp
    have so': "slots_ok (Suc (length ?P)) (length ?A - 1) (slots ?m)"
      unfolding S using k h
      by (intro slots_ok_insert_pos slots_ok_delete_asc [OF so _ Ak]) auto
    obtain l' where l': "rebuild_associative_index sip ?m = Some l'" "plain sip l'"
        "entries l' = entries ?m" "length (list_order l') = length (list_order ?m)"
      using plain_rebuild [of ?m sip] so' a(1) ok(1) h es_len keys_distinct_delete [of ?A a]
      by (auto simp: storage_ok_def)
    have "entries ?m = (entries l)[i := (v, None)]"
    proof -
      let ?D = "delete_at i ?S"
      have "map (show_slot (?P @ [v]) (delete_at a ?A)) (map (drop_asc a) ?D)
          = map (show_slot ?P (delete_at a ?A)) (map (drop_asc a) ?D)"
        using slots_ok_delete_asc [OF so _ Ak] k h a(1)
        by (intro map_cong refl show_slot_snoc(1)) (auto simp: slots_ok_def)
      also have "\<dots> = delete_at i (map (show_slot ?P ?A) ?S)"
        using k h by (intro show_delete_asc [OF so _ Ak]) simp
      finally have kept: "map (show_slot (?P @ [v]) (delete_at a ?A)) (map (drop_asc a) ?D)
          = delete_at i (map (show_slot ?P ?A) ?S)" .
      have "entries ?m = map (show_slot (?P @ [v]) (delete_at a ?A)) (slots ?m)"
        using h by (simp add: entries_def)
      also have "\<dots> = insert_at i (v, None) (delete_at i (map (show_slot ?P ?A) ?S))"
        unfolding S map_insert_at kept by simp
      also have "\<dots> = (entries l)[i := (v, None)]"
        using k h by (simp add: entries_def update_insert_delete)
      finally show ?thesis .
    qed
    moreover have "list_set sip index v l = Some (Inr (fst (entries l ! i)), l')"
      using 2 k h a es(1) fresh(1) show_k l'(1) es_len
      by (cases "?A ! a") (simp add: list_set_def Let_def order_positional_index_slot
          order_associative_index_slot invalidate_positional_remove_index_def)
    ultimately show ?thesis using l' es_len by (simp add: spec performs_def plain_inv)
  qed
qed

lemma plain_storage: "plain sip l \<Longrightarrow> storage_ok sip l"
  by (simp add: plain_def)

lemma plain_nth: "plain sip l \<Longrightarrow> i < length (list_order l) \<Longrightarrow>
    entries l ! i = show_slot (positional l) (associative l) (slot_of (list_order l ! i))"
  by (simp add: plain_entries)

text \<open>Deleting the order entry \<open>i\<close> together with the vector element it points to.\<close>

lemma delete_positional:
  assumes l: "plain sip l" and i: "i < length (list_order l)" and p: "slot_of (list_order l ! i) = Pos p"
  shows "\<exists>es. shift_positional p (delete_at i (list_order l)) = Some es
    \<and> p < length (positional l)
    \<and> map slot_of es = map (drop_pos p) (delete_at i (slots l))
    \<and> plain sip (l\<lparr>list_order := es, positional := delete_at p (positional l)\<rparr>)
    \<and> entries (l\<lparr>list_order := es, positional := delete_at p (positional l)\<rparr>) = delete_at i (entries l)"
proof -
  have pl: "p < length (positional l)" using slot_shown [OF plain_storage [OF l] i] p by auto
  have "small_slots (delete_at i (list_order l))"
    using storage_ok_small [OF plain_storage [OF l]] set_delete_at_subset by (rule small_slots_subset)
  from shift_positional_slots [OF this, of p] obtain es
    where es: "shift_positional p (delete_at i (list_order l)) = Some es"
      "map slot_of es = map (drop_pos p) (delete_at i (slots l))"
    by (auto simp: map_delete_at)
  let ?l = "l\<lparr>list_order := es, positional := delete_at p (positional l)\<rparr>"
  have Si: "i < length (slots l)" "slots l ! i = Pos p" using i p by simp_all
  have es_len: "length es = length (list_order l) - 1"
    using arg_cong [OF es(2), of length] i by simp
  have "plain sip ?l"
    using l slots_ok_delete_pos [OF plain_slots [OF l] Si] es(2) es_len pl
    by (auto simp: plain_def storage_ok_def)
  moreover have "entries ?l = delete_at i (entries l)"
    using show_delete_pos [OF plain_slots [OF l] Si] l
    by (simp add: entries_def plain_def es(2) del: map_map)
  ultimately show ?thesis using es pl by blast
qed

lemma delete_associative:
  assumes l: "plain sip l" and i: "i < length (list_order l)" and a: "slot_of (list_order l ! i) = Asc a"
  shows "\<exists>es l'. shift_associative a (delete_at i (list_order l)) = Some es
    \<and> a < length (associative l)
    \<and> rebuild_associative_index sip
        (l\<lparr>list_order := es, associative := delete_at a (associative l)\<rparr>) = Some l'
    \<and> plain sip l' \<and> entries l' = delete_at i (entries l)
    \<and> length (list_order l') \<le> length (list_order l)"
proof -
  have al: "a < length (associative l)" using slot_shown [OF plain_storage [OF l] i] a by auto
  have "small_slots (delete_at i (list_order l))"
    using storage_ok_small [OF plain_storage [OF l]] set_delete_at_subset by (rule small_slots_subset)
  from shift_associative_slots [OF this, of a] obtain es
    where es: "shift_associative a (delete_at i (list_order l)) = Some es"
      "map slot_of es = map (drop_asc a) (delete_at i (slots l))"
    by (auto simp: map_delete_at)
  let ?l = "l\<lparr>list_order := es, associative := delete_at a (associative l)\<rparr>"
  have Si: "i < length (slots l)" "slots l ! i = Asc a" using i a by simp_all
  have es_len: "length es = length (list_order l) - 1"
    using arg_cong [OF es(2), of length] i by simp
  have "slots_ok (length (positional l)) (length (associative l) - 1) (slots ?l)"
    using slots_ok_delete_asc [OF plain_slots [OF l] Si] es(2) by simp
  moreover have "length es \<le> max_entries"
    using l es_len unfolding plain_def storage_ok_def by linarith
  ultimately obtain l' where l': "rebuild_associative_index sip ?l = Some l'" "plain sip l'"
      "entries l' = entries ?l" "length (list_order l') = length es"
    using plain_rebuild [of ?l sip] l es_len al keys_distinct_delete [of "associative l" a]
    unfolding plain_def [of sip l] storage_ok_def [of sip l] by auto
  moreover have "entries ?l = delete_at i (entries l)"
    using show_delete_asc [OF plain_slots [OF l] Si] l
    by (simp add: entries_def plain_def es(2) del: map_map)
  ultimately show ?thesis using es al es_len by (metis diff_le_self)
qed

lemma list_remove_spec:
  assumes inv: "list_inv sip l"
  shows "performs sip l (list_remove sip index l) (spec_remove index (entries l)) 0"
proof -
  obtain l1 where l1: "materialize_prefix l = Some l1" "plain sip (invalidate_positional_remove_index l1)"
      "entries (invalidate_positional_remove_index l1) = entries l"
      "length (list_order (invalidate_positional_remove_index l1)) \<le> length (list_order l)"
    using prepare_spec [OF inv] by blast
  define m where "m = invalidate_positional_remove_index l1"
  note m = l1 [folded m_def]
  have len: "length (list_order m) = length (entries l)" using plain_length [OF m(2)] m(3) by simp
  show ?thesis
  proof (cases rule: checked_index_cases [of index "length (list_order m)"])
    case (1 e)
    then show ?thesis using m
      by (simp add: performs_def list_remove_def spec_remove_def len m_def [symmetric] Let_def plain_inv)
  next
    case (2 i)
    have spec: "spec_remove index (entries l) = (Inr (fst (entries l ! i)), delete_at i (entries l))"
      using 2 len by (simp add: spec_remove_def)
    have nth: "entries l ! i = show_slot (positional m) (associative m) (slot_of (list_order m ! i))"
      using plain_nth [OF m(2) 2(3)] m(3) by simp
    show ?thesis
    proof (cases "slot_of (list_order m ! i)")
      case (Pos p)
      from delete_positional [OF m(2) 2(3) Pos] obtain es where
        es: "shift_positional p (delete_at i (list_order m)) = Some es" "p < length (positional m)"
          "map slot_of es = map (drop_pos p) (delete_at i (slots m))"
          "plain sip (m\<lparr>list_order := es, positional := delete_at p (positional m)\<rparr>)"
          "entries (m\<lparr>list_order := es, positional := delete_at p (positional m)\<rparr>)
            = delete_at i (entries m)" by blast
      have "length es \<le> length (list_order l)"
        using arg_cong [OF es(3), of length] 2(3) m(4) by simp
      moreover have "list_remove sip index l = Some (Inr (fst (entries l ! i)),
          m\<lparr>list_order := es, positional := delete_at p (positional m)\<rparr>)"
        using 2 m(1) es nth Pos
        by (simp add: list_remove_def m_def [symmetric] Let_def order_positional_index_slot)
      ultimately show ?thesis using es plain_inv [OF es(4)] m(3)
        by (simp add: spec performs_def)
    next
      case (Asc a)
      from delete_associative [OF m(2) 2(3) Asc] obtain es l' where
        es: "shift_associative a (delete_at i (list_order m)) = Some es" "a < length (associative m)"
          "rebuild_associative_index sip
            (m\<lparr>list_order := es, associative := delete_at a (associative m)\<rparr>) = Some l'"
          "plain sip l'" "entries l' = delete_at i (entries m)"
          "length (list_order l') \<le> length (list_order m)" by blast
      have "list_remove sip index l = Some (Inr (fst (entries l ! i)), l')"
        using 2 m(1) es nth Asc
        by (cases "associative m ! a") (simp add: list_remove_def m_def [symmetric] Let_def
            order_positional_index_slot order_associative_index_slot)
      then show ?thesis using es plain_inv [OF es(4)] m(3,4) by (simp add: spec performs_def)
    qed
  qed
qed

lemma checked_boundary_Inr_iff:
  "n < usize_max \<Longrightarrow> checked_boundary index n = Inr i \<longleftrightarrow> index = Suc i \<and> i \<le> n"
  by (auto simp: checked_boundary_def)

lemma checked_boundary_cases:
  assumes "n < usize_max"
  obtains e where "checked_boundary index n = Inl e"
  | i where "checked_boundary index n = Inr i" "index = Suc i" "i \<le> n"
  using assms by (cases "checked_boundary index n") (auto simp: checked_boundary_Inr_iff)

lemma plain_insert_positional:
  assumes l: "plain sip l" and room: "length (list_order l) < max_entries" and i: "i \<le> length (list_order l)"
  shows "\<exists>e. order_positional (length (positional l)) = Some e
    \<and> plain sip (l\<lparr>positional := positional l @ [v], list_order := insert_at i e (list_order l)\<rparr>)
    \<and> entries (l\<lparr>positional := positional l @ [v], list_order := insert_at i e (list_order l)\<rparr>)
      = insert_at i (v, None) (entries l)"
proof -
  have "length (positional l) < max_entries"
    using room storage_ok_lengths(1) [OF plain_storage [OF l]] by simp
  then obtain e where e: "order_positional (length (positional l)) = Some e"
      "slot_of e = Pos (length (positional l))"
    using order_positional_small by (auto simp: max_entries_def)
  let ?l = "l\<lparr>positional := positional l @ [v], list_order := insert_at i e (list_order l)\<rparr>"
  have "plain sip ?l"
    using l e(2) room i slots_ok_insert_pos [OF plain_slots [OF l], of i]
    by (simp add: plain_def storage_ok_def map_insert_at)
  moreover have "entries ?l = insert_at i (v, None) (entries l)"
  proof -
    have "map (show_slot (positional l @ [v]) (associative l)) (slots l)
        = map (show_slot (positional l) (associative l)) (slots l)"
      using plain_slots [OF l] by (intro map_cong refl show_slot_snoc(1)) (auto simp: slots_ok_def)
    then show ?thesis
      using l e(2) unfolding plain_entries [OF l]
      by (simp add: entries_def plain_def map_insert_at del: map_map map_eq_conv)
  qed
  ultimately show ?thesis using e(1) by blast
qed

lemma list_insert_spec:
  assumes inv: "list_inv sip l" and room: "length (list_order l) < max_entries"
  shows "performs sip l (list_insert index v l) (spec_insert index v (entries l)) 1"
proof -
  obtain l1 where l1: "materialize_prefix l = Some l1" "plain sip (invalidate_positional_remove_index l1)"
      "entries (invalidate_positional_remove_index l1) = entries l"
      "length (list_order (invalidate_positional_remove_index l1)) \<le> length (list_order l)"
      "list_inv sip l1" "entries l1 = entries l"
    using prepare_spec [OF inv] by blast
  define m where "m = invalidate_positional_remove_index l1"
  note m = l1 [folded m_def]
  have len: "length (list_order m) = length (entries l)" using plain_length [OF m(2)] m(3) by simp
  have len1: "list_order l1 = list_order m" by (simp add: m_def invalidate_positional_remove_index_def)
  have n: "length (entries l) < usize_max" using len room m(4) by (simp add: max_entries_def usize_max_def)
  show ?thesis
  proof (cases rule: checked_boundary_cases [OF n, of index])
    case (1 e)
    then show ?thesis using m len len1 by (simp add: performs_def list_insert_def spec_insert_def)
  next
    case (2 i)
    have "length (list_order m) < max_entries" using room m(4) by simp
    from plain_insert_positional [OF m(2) this, of i v] obtain e where
      e: "order_positional (length (positional m)) = Some e"
        "plain sip (m\<lparr>positional := positional m @ [v], list_order := insert_at i e (list_order m)\<rparr>)"
        "entries (m\<lparr>positional := positional m @ [v], list_order := insert_at i e (list_order m)\<rparr>)
          = insert_at i (v, None) (entries m)" using 2 len by auto
    have "list_insert index v l = Some (Inr index,
        m\<lparr>positional := positional m @ [v], list_order := insert_at i e (list_order m)\<rparr>)"
      using 2 m(1) e len len1 by (simp add: list_insert_def m_def [symmetric] Let_def)
    then show ?thesis using 2 e m(3,4) len plain_inv [OF e(2)]
      by (simp add: performs_def spec_insert_def)
  qed
qed

lemma list_swap_spec:
  assumes inv: "list_inv sip l"
  shows "performs sip l (list_swap first second l) (spec_swap first second (entries l)) 0"
proof -
  obtain l1 where l1: "materialize_prefix l = Some l1" "plain sip (invalidate_positional_remove_index l1)"
      "entries (invalidate_positional_remove_index l1) = entries l"
      "length (list_order (invalidate_positional_remove_index l1)) \<le> length (list_order l)"
      "list_inv sip l1" "entries l1 = entries l"
    using prepare_spec [OF inv] by blast
  define m where "m = invalidate_positional_remove_index l1"
  note m = l1 [folded m_def]
  have len: "length (list_order m) = length (entries l)" using plain_length [OF m(2)] m(3) by simp
  have len1: "list_order l1 = list_order m" by (simp add: m_def invalidate_positional_remove_index_def)
  show ?thesis
  proof (cases rule: checked_index_cases [of first "length (entries l)"])
    case (1 e)
    then show ?thesis using m len len1 by (simp add: performs_def list_swap_def spec_swap_def)
  next
    case i: (2 i)
    show ?thesis
    proof (cases rule: checked_index_cases [of second "length (entries l)"])
      case (1 e)
      then show ?thesis using i m len len1 by (simp add: performs_def list_swap_def spec_swap_def)
    next
      case j: (2 j)
      let ?es = "(list_order m)[i := list_order m ! j, j := list_order m ! i]"
      let ?l = "m\<lparr>list_order := ?es\<rparr>"
      have ij: "i < length (slots m)" "j < length (slots m)" using i j len by simp_all
      have S: "slots ?l = (slots m)[i := slots m ! j, j := slots m ! i]"
        using ij by (simp add: map_update)
      have "plain sip ?l"
        using m(2) distinct_swap [of i "slots m" j] set_swap [of i "slots m" j] ij
        unfolding plain_def storage_ok_def slots_ok_def S by simp
      moreover have "entries ?l = (entries l)[i := entries l ! j, j := entries l ! i]"
        using m(2) m(3) [symmetric] ij by (simp add: entries_def plain_def S map_update)
      moreover have "list_swap first second l = Some (Inr (), ?l)"
        using i j m(1) len len1
        by (simp add: list_swap_def m_def [symmetric] Let_def vec_swap_def)
      ultimately show ?thesis using i j m(4)
        by (simp add: performs_def spec_swap_def plain_inv)
    qed
  qed
qed

end
