(* ===== verification/DmListKeys.thy ===== *)
theory DmListKeys
  imports DmListOps
begin

text \<open>
  The associative side of \<open>DmList\<close>: lookup, insertion and removal by key, and the searches
  by value, as operations on the entry sequence.
\<close>

section \<open>Where a key is among the entries\<close>

definition assoc_match :: "dm_value \<Rightarrow> entry \<Rightarrow> bool" where
  "assoc_match key e \<longleftrightarrow> snd e \<noteq> None \<and> semantic_eq (fst e) key"

definition plain_match :: "dm_value \<Rightarrow> entry \<Rightarrow> bool" where
  "plain_match key e \<longleftrightarrow> snd e = None \<and> semantic_eq (fst e) key"

definition value_match :: "dm_value \<Rightarrow> entry \<Rightarrow> bool" where
  "value_match v e \<longleftrightarrow> semantic_eq (fst e) v"

definition spec_get_key :: "dm_value \<Rightarrow> entry list \<Rightarrow> value_error + dm_value" where
  "spec_get_key key es = (case vec_position (assoc_match key) es of
       None \<Rightarrow> Inl MissingKey | Some i \<Rightarrow> Inr (the (snd (es ! i))))"

definition spec_set_key :: "dm_value \<Rightarrow> dm_value \<Rightarrow> entry list \<Rightarrow> dm_value option \<times> entry list" where
  "spec_set_key key v es = (case vec_position (assoc_match key) es of
       Some i \<Rightarrow> (snd (es ! i), es[i := (fst (es ! i), Some v)])
     | None \<Rightarrow> (case vec_position (plain_match key) es of
         Some i \<Rightarrow> (None, es[i := (fst (es ! i), Some v)])
       | None \<Rightarrow> (None, es @ [(key, Some v)])))"

definition spec_remove_key :: "dm_value \<Rightarrow> entry list \<Rightarrow> dm_value option \<times> entry list" where
  "spec_remove_key key es = (case vec_position (assoc_match key) es of
       None \<Rightarrow> (None, es) | Some i \<Rightarrow> (snd (es ! i), delete_at i es))"

lemma vec_position_unique:
  "i < length xs \<Longrightarrow> P (xs ! i) \<Longrightarrow> (\<And>j. j < length xs \<Longrightarrow> P (xs ! j) \<Longrightarrow> j = i) \<Longrightarrow>
   vec_position P xs = Some i"
  unfolding vec_position_Some_iff by (metis less_irrefl less_trans)

lemma scan_Some:
  assumes ok: "storage_ok sip l" and a: "scan_associations l key = Some a"
  shows "a < length (associative l) \<and> semantic_eq (fst (associative l ! a)) key
    \<and> (\<exists>i < length (list_order l). slot_of (list_order l ! i) = Asc a
        \<and> vec_position (assoc_match key) (map (show_slot (positional l) (associative l)) (slots l)) = Some i
        \<and> vec_position (\<lambda>e. order_associative_index e = Some a) (list_order l) = Some i)"
proof -
  let ?es = "map (show_slot (positional l) (associative l)) (slots l)"
  have al: "a < length (associative l)" "semantic_eq (fst (associative l ! a)) key"
    using a by (auto simp: scan_associations_def vec_position_Some_iff)
  have so: "slots_ok (length (positional l)) (length (associative l)) (slots l)"
    using ok by (simp add: storage_ok_def)
  have "Asc a \<in> set (slots l)" using slots_ok_Asc [OF so] al by simp
  then obtain i where i: "i < length (list_order l)" "slot_of (list_order l ! i) = Asc a"
    by (auto simp: in_set_conv_nth)
  have one: "j = i" if "j < length (list_order l)" "slot_of (list_order l ! j) = Asc a" for j
    using that i so by (metis length_map nth_eq_iff_index_eq nth_map slots_ok_def)
  have "vec_position (assoc_match key) ?es = Some i"
  proof (rule vec_position_unique)
    show "assoc_match key (?es ! i)" using i al by (simp add: assoc_match_def)
    fix j assume j: "j < length ?es" "assoc_match key (?es ! j)"
    then obtain b where b: "slot_of (list_order l ! j) = Asc b" "b < length (associative l)"
      using slot_shown [OF ok, of j] by (auto simp: assoc_match_def)
    then have "semantic_eq (fst (associative l ! b)) key" using j by (simp add: assoc_match_def)
    then have "semantic_eq (fst (associative l ! b)) (fst (associative l ! a))"
      by (rule semantic_eq_trans(1) [OF _ semantic_eq_sym(1) [OF al(2)]])
    then have "b = a" using al(1) b(2) ok unfolding storage_ok_def keys_distinct_def by blast
    then show "j = i" using one b(1) j(1) by simp
  qed (use i in simp)
  moreover have "vec_position (\<lambda>e. order_associative_index e = Some a) (list_order l) = Some i"
  proof (rule vec_position_unique)
    fix j assume "j < length (list_order l)" "order_associative_index (list_order l ! j) = Some a"
    then show "j = i" by (intro one) simp_all
  qed (use i in simp_all)
  ultimately show ?thesis using al i by blast
qed

lemma scan_None:
  assumes ok: "storage_ok sip l" and n: "scan_associations l key = None"
  shows "vec_position (assoc_match key) (map (show_slot (positional l) (associative l)) (slots l)) = None"
proof -
  have no: "\<not> semantic_eq (fst (associative l ! a)) key" if "a < length (associative l)" for a
    using n that by (simp add: scan_associations_def vec_position_None_iff)
  have "\<not> assoc_match key (show_slot (positional l) (associative l) (slot_of e))"
    if e: "e \<in> set (list_order l)" for e
  proof -
    obtain i where "i < length (list_order l)" "e = list_order l ! i" using e by (auto simp: in_set_conv_nth)
    with slot_shown [OF ok this(1)] no show ?thesis by (auto simp: assoc_match_def)
  qed
  then show ?thesis by (simp add: vec_position_None_iff)
qed

lemma entries_prefix_free:
  assumes "list_inv sip l" "associative l \<noteq> []"
  shows "entries l = map (show_slot (positional l) (associative l)) (slots l)"
  using assms by (auto simp: entries_def list_inv_def prefix_ok_def purely_positional_def)

lemma no_assoc_match:
  assumes "list_inv sip l" "associative l = []"
  shows "vec_position (assoc_match key) (entries l) = None"
proof -
  have "snd e = None" if "e \<in> set (entries l)" for e
  proof -
    from that obtain s where "s \<in> set (slots l)" "e = show_slot (positional l) [] s"
      using assms(2) by (auto simp: entries_def dest: in_set_dropD)
    moreover have "set (slots l) \<subseteq> Pos ` {..<length (positional l)}"
      using assms by (auto simp: list_inv_def storage_ok_def slots_ok_def)
    ultimately show ?thesis by auto
  qed
  then show ?thesis by (simp add: vec_position_None_iff assoc_match_def)
qed

lemma association_position_entries:
  assumes inv: "list_inv sip l"
  shows "case association_position_for_key sip l key of
      None \<Rightarrow> vec_position (assoc_match key) (entries l) = None
    | Some a \<Rightarrow> a < length (associative l)
        \<and> (\<exists>i < length (entries l). vec_position (assoc_match key) (entries l) = Some i
            \<and> entries l ! i = (fst (associative l ! a), Some (snd (associative l ! a))))"
proof (cases "associative l = []")
  case True
  have "scan_associations l key = None" by (simp add: scan_associations_def True)
  moreover have "association_position_for_key sip l key = scan_associations l key"
    using inv by (intro association_position_scan) (simp_all add: list_inv_def storage_ok_def)
  ultimately show ?thesis using no_assoc_match [OF inv True] by simp
next
  case False
  have ok: "storage_ok sip l" using inv by (simp add: list_inv_def)
  have scan: "association_position_for_key sip l key = scan_associations l key"
    using ok by (intro association_position_scan) (simp_all add: storage_ok_def)
  note es = entries_prefix_free [OF inv False]
  show ?thesis
  proof (cases "scan_associations l key")
    case None
    then show ?thesis using scan_None [OF ok None] by (simp add: scan es)
  next
    case (Some a)
    from scan_Some [OF ok Some] show ?thesis by (auto simp: scan Some es)
  qed
qed

lemma get_key_spec:
  assumes inv: "list_inv sip l"
  shows "get_key sip l key = spec_get_key key (entries l)"
  using association_position_entries [OF inv, of key]
  by (auto simp: get_key_def spec_get_key_def split: option.splits)

section \<open>Setting and removing keys\<close>

lemma find_positional_key_spec:
  assumes ok: "storage_ok sip l" and es: "es = drop n (list_order l)" "n \<le> length (list_order l)"
  shows "\<exists>r. find_positional_key l key n es = Some r
    \<and> (case r of
         None \<Rightarrow> vec_position (plain_match key)
           (map (show_slot (positional l) (associative l)) (map slot_of es)) = None
       | Some (i, p) \<Rightarrow> n \<le> i \<and> i < length (list_order l) \<and> slot_of (list_order l ! i) = Pos p
           \<and> vec_position (plain_match key)
             (map (show_slot (positional l) (associative l)) (map slot_of es)) = Some (i - n))"
  using es
proof (induction es arbitrary: n)
  case (Cons e es)
  have n: "n < length (list_order l)" using Cons.prems by (metis drop_eq_Nil linorder_not_less list.distinct(1))
  have e: "e = list_order l ! n" "es = drop (Suc n) (list_order l)"
    using Cons.prems(1) n by (metis Cons_nth_drop_Suc list.inject)+
  obtain r where r: "find_positional_key l key (Suc n) es = Some r"
      "case r of
         None \<Rightarrow> vec_position (plain_match key)
           (map (show_slot (positional l) (associative l)) (map slot_of es)) = None
       | Some (i, p) \<Rightarrow> Suc n \<le> i \<and> i < length (list_order l) \<and> slot_of (list_order l ! i) = Pos p
           \<and> vec_position (plain_match key)
             (map (show_slot (positional l) (associative l)) (map slot_of es)) = Some (i - Suc n)"
    using Cons.IH [OF e(2)] n by auto
  show ?case
  proof (cases "slot_of e")
    case (Pos p)
    then have p: "p < length (positional l)" using slot_shown [OF ok n] by (simp add: e(1))
    show ?thesis
    proof (cases "semantic_eq (positional l ! p) key")
      case True
      then show ?thesis using Pos p n e(1)
        by (intro exI [of _ "Some (n, p)"]) (simp add: order_positional_index_slot plain_match_def)
    next
      case False
      then show ?thesis using Pos p r
        by (intro exI [of _ r])
          (auto simp: order_positional_index_slot plain_match_def Suc_diff_Suc split: option.splits)
    qed
  next
    case (Asc a)
    then show ?thesis using r
      by (intro exI [of _ r])
        (auto simp: order_positional_index_slot plain_match_def Suc_diff_Suc split: option.splits)
  qed
qed simp

lemma keys_distinct_snoc:
  assumes "keys_distinct as" "\<And>i. i < length as \<Longrightarrow> \<not> semantic_eq (fst (as ! i)) k"
  shows "keys_distinct (as @ [(k, v)])"
  unfolding keys_distinct_def
proof (intro allI impI)
  fix i j assume "i < length (as @ [(k, v)])" "j < length (as @ [(k, v)])"
    "semantic_eq (fst ((as @ [(k, v)]) ! i)) (fst ((as @ [(k, v)]) ! j))"
  then show "i = j"
    using assms semantic_eq_sym(1) [of k]
    by (cases "i < length as"; cases "j < length as") (auto simp: nth_append keys_distinct_def less_Suc_eq)
qed

text \<open>Appending a new association whose order entry goes to place \<open>i\<close>.\<close>

lemma plain_append_association:
  assumes so: "slots_ok (length (positional l)) (length (associative l)) (slots l)"
    and old: "keys_distinct (associative l)" "index_ok sip (associative l) (associative_index l)"
      "prefix_head l = 0" "positional_remove_index l = None"
    and room: "length (list_order l) < max_entries" and i: "i \<le> length (list_order l)"
    and new: "\<And>a. a < length (associative l) \<Longrightarrow> \<not> semantic_eq (fst (associative l ! a)) k"
  shows "\<exists>e l'. order_associative (length (associative l)) = Some e
    \<and> index_last_association sip (l\<lparr>list_order := insert_at i e (list_order l),
        associative := associative l @ [(k, v)]\<rparr>) = Some l'
    \<and> plain sip l' \<and> entries l' = insert_at i (k, Some v) (entries l)
    \<and> length (list_order l') = length (list_order l) + 1"
proof -
  have al: "length (associative l) < 2147483648"
    using room slots_ok_length [OF so] by (simp add: max_entries_def)
  obtain e where e: "order_associative (length (associative l)) = Some e"
      "slot_of e = Asc (length (associative l))"
    using order_associative_small [OF al] by blast
  let ?l = "l\<lparr>list_order := insert_at i e (list_order l), associative := associative l @ [(k, v)]\<rparr>"
  obtain io where io: "index_last_association sip ?l = Some (?l\<lparr>associative_index := io\<rparr>)"
      "index_ok sip (associative ?l) io"
    using index_last_ok [of ?l "associative l" "(k, v)" sip] old(2) al by auto
  let ?r = "?l\<lparr>associative_index := io\<rparr>"
  have "plain sip ?r"
    using slots_ok_insert_asc [OF so, of i] keys_distinct_snoc [OF old(1) new, of v] io(2) old room i e(2)
    by (simp add: plain_def storage_ok_def map_insert_at)
  moreover have "entries ?r = insert_at i (k, Some v) (entries l)"
  proof -
    have "map (show_slot (positional l) (associative l @ [(k, v)])) (slots l)
        = map (show_slot (positional l) (associative l)) (slots l)"
      using so by (intro map_cong refl show_slot_snoc(2)) (auto simp: slots_ok_def)
    then show ?thesis
      using old(3) e(2) by (simp add: entries_def map_insert_at del: map_map map_eq_conv)
  qed
  ultimately show ?thesis using e(1) io(1) i by auto
qed

lemma index_ok_keys: "map fst as = map fst bs \<Longrightarrow> index_ok sip as io \<longleftrightarrow> index_ok sip bs io"
proof -
  assume m: "map fst as = map fst bs"
  then have len: "length as = length bs" by (rule map_eq_imp_length_eq)
  have nth: "fst (as ! i) = fst (bs ! i)" if "i < length bs" for i
    using that len m by (metis nth_map)
  have w: "unat w < length bs" if "indexed sip cs (length bs) index" "index h = Some w"
      "w \<noteq> ASSOCIATIVE_INDEX_COLLISION" for cs index h w
    using that by (simp add: indexed_def)
  have "indexed sip as (length bs) index \<longleftrightarrow> indexed sip bs (length bs) index" for index
  proof
    assume i: "indexed sip as (length bs) index"
    show "indexed sip bs (length bs) index"
      using i w [OF i] nth unfolding indexed_def by (metis (no_types, lifting))
  next
    assume i: "indexed sip bs (length bs) index"
    show "indexed sip as (length bs) index"
      using i w [OF i] nth unfolding indexed_def by (metis (no_types, lifting))
  qed
  then show ?thesis by (simp add: index_ok_def len split: option.splits)
qed

lemma keys_distinct_keys: "map fst as = map fst bs \<Longrightarrow> keys_distinct as \<Longrightarrow> keys_distinct bs"
proof -
  assume m: "map fst as = map fst bs" and d: "keys_distinct as"
  have "fst (bs ! i) = fst (as ! i)" if "i < length bs" for i
    using that m by (metis map_eq_imp_length_eq nth_map)
  with d show ?thesis using map_eq_imp_length_eq [OF m] by (simp add: keys_distinct_def)
qed

lemma plain_assoc_new:
  assumes "plain sip l" "vec_position (assoc_match key) (entries l) = None" "a < length (associative l)"
  shows "\<not> semantic_eq (fst (associative l ! a)) key"
proof -
  have "Asc a \<in> set (slots l)" using slots_ok_Asc [OF plain_slots [OF assms(1)]] assms(3) by simp
  then have "show_slot (positional l) (associative l) (Asc a) \<in> set (entries l)"
    unfolding plain_entries [OF assms(1)] by (metis image_eqI list.set_map)
  then have "\<not> assoc_match key (show_slot (positional l) (associative l) (Asc a))"
    using assms(2) by (simp only: vec_position_None_iff) blast
  then show ?thesis by (simp add: assoc_match_def)
qed

lemma update_insert_map: "i < length xs \<Longrightarrow> f (xs ! i) = y \<Longrightarrow>
    (map f xs)[i := x] = insert_at i x (map f (delete_at i xs))"
  by (simp add: update_insert_delete map_delete_at)

lemma slot_of_inj: "slot_of e = slot_of e' \<Longrightarrow> e = e'"
proof (rule bit_word_eqI)
  fix n assume eq: "slot_of e = slot_of e'"
  show "bit e n = bit e' n"
  proof (cases "bit e 31")
    case True
    with eq have "e AND NOT ASSOCIATIVE_BIT = e' AND NOT ASSOCIATIVE_BIT" "bit e' 31"
      by (auto simp: slot_of_def bit_clear_iff split: if_splits dest: unsigned_word_eqI)
    then have "bit (e AND NOT ASSOCIATIVE_BIT) n = bit (e' AND NOT ASSOCIATIVE_BIT) n" "bit e' 31"
      by simp_all
    with True show ?thesis
      by (cases "n = 31") (auto simp: bit_and_iff bit_not_iff bit_associative_bit dest: bit_imp_le_length)
  next
    case False
    with eq have "e = e'"
      by (auto simp: slot_of_def bit_clear_iff split: if_splits dest: unsigned_word_eqI)
    then show ?thesis by simp
  qed
qed

lemma map_slot_of_inj: "map slot_of es = map slot_of es' \<Longrightarrow> es = es'"
  by (metis list.inj_map_strong slot_of_inj)

lemma set_key_spec:
  assumes inv: "list_inv sip l" and room: "length (list_order l) < max_entries"
  shows "performs sip l (set_key sip key v l) (spec_set_key key v (entries l)) 1"
proof -
  obtain l1 where l1: "materialize_prefix l = Some l1" "plain sip (invalidate_positional_remove_index l1)"
      "entries (invalidate_positional_remove_index l1) = entries l"
      "length (list_order (invalidate_positional_remove_index l1)) \<le> length (list_order l)"
    using prepare_spec [OF inv] by blast
  define m where "m = invalidate_positional_remove_index l1"
  note m = l1 [folded m_def]
  note pm = plain_entries [OF m(2)]
  have sm: "storage_ok sip m" "prefix_head m = 0" "positional_remove_index m = None"
    using m(2) by (simp_all add: plain_def)
  have room_m: "length (list_order m) < max_entries" using room m(4) by simp
  note assoc = association_position_entries [OF plain_inv [OF m(2)], of key]
  show ?thesis
  proof (cases "association_position_for_key sip m key")
    case (Some a)
    from scan_Some [OF sm(1), of key a] obtain i where
      i: "a < length (associative m)" "i < length (list_order m)" "slot_of (list_order m ! i) = Asc a"
        "vec_position (assoc_match key) (entries m) = Some i"
      using Some sm association_position_scan [of m sip key] by (auto simp: storage_ok_def pm)
    obtain x w where xw: "associative m ! a = (x, w)" by (cases "associative m ! a")
    let ?l = "m\<lparr>associative := (associative m)[a := (x, v)]\<rparr>"
    have keys: "map fst (associative m) = map fst ((associative m)[a := (x, v)])"
      using i(1) xw by (metis fst_conv list_update_id map_update nth_map)
    have "plain sip ?l"
      using m(2) keys_distinct_keys [OF keys] index_ok_keys [OF keys]
      by (simp add: plain_def storage_ok_def)
    moreover have "entries ?l = (entries m)[i := (x, Some v)]"
      using show_update_asc [of "slots m" i a "associative m" "positional m" x v] i plain_slots [OF m(2)] sm(2)
      by (simp add: entries_def slots_ok_def)
    moreover have nth: "entries m ! i = (x, Some w)" using plain_nth [OF m(2) i(2)] i(3) xw by simp
    moreover have "set_key sip key v l = Some (Some w, ?l)"
      using m(1) Some i(1) xw by (simp add: set_key_def m_def [symmetric] Let_def)
    ultimately show ?thesis using i(4) m(3,4) plain_inv [of sip ?l]
      by (simp add: performs_def spec_set_key_def)
  next
    case None
    with assoc have none: "vec_position (assoc_match key) (entries m) = None" by simp
    note new = plain_assoc_new [OF m(2) none]
    obtain r where r: "find_positional_key m key 0 (list_order m) = Some r"
      "case r of None \<Rightarrow> vec_position (plain_match key) (entries m) = None
       | Some (i, p) \<Rightarrow> i < length (list_order m) \<and> slot_of (list_order m ! i) = Pos p
           \<and> vec_position (plain_match key) (entries m) = Some i"
      using find_positional_key_spec [OF sm(1), of "list_order m" 0 key] unfolding pm
      by (auto split: option.splits)
    show ?thesis
    proof (cases r)
      case None
      have ix: "keys_distinct (associative m)" "index_ok sip (associative m) (associative_index m)"
        using sm(1) by (simp_all add: storage_ok_def)
      from plain_append_association [where v = v, OF plain_slots [OF m(2)] ix sm(2,3) room_m le_refl new]
      obtain e l' where e: "order_associative (length (associative m)) = Some e"
          "index_last_association sip (m\<lparr>list_order := list_order m @ [e],
            associative := associative m @ [(key, v)]\<rparr>) = Some l'"
          "plain sip l'" "entries l' = entries m @ [(key, Some v)]"
          "length (list_order l') = length (list_order m) + 1"
        using plain_length [OF m(2)] by (auto simp: insert_at_def)
      have "set_key sip key v l = Some (None, l')"
        using m(1) \<open>association_position_for_key sip m key = None\<close> r(1) e None
        by (simp add: set_key_def m_def [symmetric] Let_def)
      then show ?thesis using e r(2) None none m(3,4) plain_inv [OF e(3)]
        by (simp add: performs_def spec_set_key_def)
    next
      case (Some ip)
      obtain i p where ip: "ip = (i, p)" by (cases ip)
      with Some r have i: "i < length (list_order m)" "slot_of (list_order m ! i) = Pos p"
          "vec_position (plain_match key) (entries m) = Some i" by auto
      from delete_positional [OF m(2) i(1,2)] obtain ds where
        ds: "p < length (positional m)" "map slot_of ds = map (drop_pos p) (delete_at i (slots m))"
          "plain sip (m\<lparr>list_order := ds, positional := delete_at p (positional m)\<rparr>)"
          "entries (m\<lparr>list_order := ds, positional := delete_at p (positional m)\<rparr>) = delete_at i (entries m)"
        by blast
      let ?d = "m\<lparr>list_order := ds, positional := delete_at p (positional m)\<rparr>"
      obtain es where es: "shift_positional p (list_order m) = Some es"
          "map slot_of es = map (drop_pos p) (slots m)"
        using shift_positional_slots [OF storage_ok_small [OF sm(1)]] by blast
      have es_len: "length es = length (list_order m)" by (metis es(2) length_map)
      have ds_len: "length ds = length (list_order m) - 1"
        using arg_cong [OF ds(2), of length] i(1) by simp
      let ?k = "positional m ! p"
      have k: "entries m ! i = (?k, None)" using plain_nth [OF m(2) i(1)] i(2) by simp
      then have key: "semantic_eq ?k key" using i(3) by (auto simp: vec_position_Some_iff plain_match_def)
      have new': "\<not> semantic_eq (fst (associative ?d ! a)) ?k" if "a < length (associative ?d)" for a
        using new [of a] that semantic_eq_trans(1) [OF _ key] by auto
      have room_d: "length (list_order ?d) < max_entries" using room_m ds_len by simp
      have i_le: "i \<le> length (list_order ?d)" using i(1) ds_len by simp
      have ix: "keys_distinct (associative ?d)" "index_ok sip (associative ?d) (associative_index ?d)"
          "prefix_head ?d = 0" "positional_remove_index ?d = None"
        using ds(3) by (simp_all add: plain_def storage_ok_def)
      from plain_append_association [where v = v, OF plain_slots [OF ds(3)] ix room_d i_le new']
      obtain e l' where e: "order_associative (length (associative m)) = Some e"
          "index_last_association sip (?d\<lparr>list_order := insert_at i e ds,
            associative := associative m @ [(?k, v)]\<rparr>) = Some l'"
          "plain sip l'" "entries l' = insert_at i (?k, Some v) (delete_at i (entries m))"
          "length (list_order l') = length (list_order ?d) + 1"
        using ds(4) by auto
      have "map slot_of (es[i := e]) = map slot_of (insert_at i e ds)"
        using i(1) es_len
        by (simp add: update_insert_delete map_insert_at map_delete_at es(2) ds(2) del: map_map)
      then have "es[i := e] = insert_at i e ds" by (rule map_slot_of_inj)
      moreover have "entries l' = (entries m)[i := (?k, Some v)]"
        using e(4) i(1) plain_length [OF m(2)] by (simp add: update_insert_delete)
      ultimately have "set_key sip key v l = Some (None, l')"
        using m(1) None r(1) e ds es(1) Some ip es_len i(1)
        by (simp add: set_key_def m_def [symmetric] Let_def)
      then show ?thesis
        using e i(1,3) none m(3,4) k plain_inv [OF e(3)] ds_len \<open>entries l' = (entries m)[i := (?k, Some v)]\<close>
        by (simp add: performs_def spec_set_key_def)
    qed
  qed
qed

lemma remove_key_spec:
  assumes inv: "list_inv sip l"
  shows "performs sip l (remove_key sip key l) (spec_remove_key key (entries l)) 0"
proof -
  obtain l1 where l1: "materialize_prefix l = Some l1" "plain sip (invalidate_positional_remove_index l1)"
      "entries (invalidate_positional_remove_index l1) = entries l"
      "length (list_order (invalidate_positional_remove_index l1)) \<le> length (list_order l)"
    using prepare_spec [OF inv] by blast
  define m where "m = invalidate_positional_remove_index l1"
  note m = l1 [folded m_def]
  note pm = plain_entries [OF m(2)]
  have sm: "storage_ok sip m" using m(2) by (simp add: plain_def)
  show ?thesis
  proof (cases "scan_associations m key")
    case None
    then show ?thesis using m scan_None [OF sm None] plain_inv [OF m(2)]
      by (simp add: performs_def remove_key_def spec_remove_key_def m_def [symmetric] Let_def pm)
  next
    case (Some a)
    from scan_Some [OF sm Some] obtain i where
      i: "a < length (associative m)" "i < length (list_order m)" "slot_of (list_order m ! i) = Asc a"
        "vec_position (assoc_match key) (entries m) = Some i"
        "vec_position (\<lambda>e. order_associative_index e = Some a) (list_order m) = Some i"
      by (auto simp: pm)
    obtain x w where xw: "associative m ! a = (x, w)" by (cases "associative m ! a")
    have nth: "entries m ! i = (x, Some w)" using plain_nth [OF m(2) i(2)] i(3) xw by simp
    from delete_associative [OF m(2) i(2,3)] obtain es l' where
      es: "shift_associative a (delete_at i (list_order m)) = Some es"
        "rebuild_associative_index sip
          (m\<lparr>list_order := es, associative := delete_at a (associative m)\<rparr>) = Some l'"
        "plain sip l'" "entries l' = delete_at i (entries m)"
        "length (list_order l') \<le> length (list_order m)" by blast
    have swap: "m\<lparr>associative := as, list_order := es\<rparr> = m\<lparr>list_order := es, associative := as\<rparr>" for as
      by simp
    have "remove_key sip key l = Some (Some w, l')"
      using m(1) Some i(1,2,5) es(1,2) xw
      by (simp add: remove_key_def m_def [symmetric] Let_def swap del: associative_index_iff)
    then show ?thesis using es i(4) nth m(3,4) plain_inv [OF es(3)]
      by (simp add: performs_def spec_remove_key_def)
  qed
qed

section \<open>Searching by value\<close>

lemma list_contains_spec:
  assumes inv: "list_inv sip l"
  shows "list_contains sip l v = Some (list_ex (value_match v) (entries l))"
proof (cases "association_position_for_key sip l v")
  case (Some a)
  then obtain i where "vec_position (assoc_match v) (entries l) = Some i" "i < length (entries l)"
    using association_position_entries [OF inv, of v] by auto
  then have "value_match v (entries l ! i)"
    by (auto simp: vec_position_Some_iff assoc_match_def value_match_def)
  then have "list_ex (value_match v) (entries l)" using \<open>i < _\<close> by (auto simp: list_ex_length)
  with Some show ?thesis by (simp add: list_contains_def)
next
  case None
  have ok: "storage_ok sip l" "prefix_head l \<le> length (list_order l)" "prefix_ok l"
    using inv by (auto simp: list_inv_def prefix_ok_def)
  have so: "slots_ok (length (positional l)) (length (associative l)) (slots l)"
    using ok(1) by (simp add: storage_ok_def)
  have no: "vec_position (assoc_match v) (entries l) = None"
    using association_position_entries [OF inv, of v] None by simp
  have head: "prefix_head l \<le> length (positional l)"
    using ok storage_ok_lengths(1) [OF ok(1)] by (auto simp: prefix_ok_def purely_positional_def)
  have live: "set (drop (prefix_head l) (positional l))
      = (\<lambda>p. positional l ! p) ` {p. Pos p \<in> set (drop (prefix_head l) (slots l))}"
  proof (cases "prefix_head l = 0")
    case True
    then show ?thesis using slots_ok_Pos [OF so] by (auto simp: set_conv_nth)
  next
    case False
    then have "slots l = map Pos [0..<length (positional l)]"
      using ok(3) by (simp add: prefix_ok_def purely_positional_def)
    then have "{p. Pos p \<in> set (drop (prefix_head l) (slots l))} = {prefix_head l..<length (positional l)}"
      by (auto simp: drop_map)
    moreover have "set (drop (prefix_head l) (positional l))
        = (!) (positional l) ` {prefix_head l..<length (positional l)}"
    proof -
      have "drop (prefix_head l) (positional l)
          = map ((!) (positional l)) [prefix_head l..<length (positional l)]"
        by (rule nth_equalityI) auto
      then show ?thesis by (metis image_set set_upt)
    qed
    ultimately show ?thesis by simp
  qed
  have "list_ex (\<lambda>candidate. semantic_eq candidate v) (drop (prefix_head l) (positional l))
      \<longleftrightarrow> list_ex (value_match v) (entries l)"
  proof
    assume "list_ex (\<lambda>candidate. semantic_eq candidate v) (drop (prefix_head l) (positional l))"
    then obtain p where "Pos p \<in> set (drop (prefix_head l) (slots l))" "semantic_eq (positional l ! p) v"
      using live by (auto simp: list_ex_iff)
    then have "show_slot (positional l) (associative l) (Pos p) \<in> set (entries l)"
        "value_match v (show_slot (positional l) (associative l) (Pos p))"
      unfolding entries_def by (auto simp: value_match_def intro: rev_image_eqI)
    then show "list_ex (value_match v) (entries l)" unfolding list_ex_iff by blast
  next
    assume "list_ex (value_match v) (entries l)"
    then obtain e where e: "e \<in> set (entries l)" "value_match v e" by (auto simp: list_ex_iff)
    then obtain s where s: "s \<in> set (drop (prefix_head l) (slots l))"
        "e = show_slot (positional l) (associative l) s"
      by (auto simp: entries_def)
    have "\<not> assoc_match v e" using no e(1) by (simp add: vec_position_None_iff)
    then obtain p where "s = Pos p" using e(2) s(2)
      by (cases s) (auto simp: assoc_match_def value_match_def)
    then show "list_ex (\<lambda>candidate. semantic_eq candidate v) (drop (prefix_head l) (positional l))"
      using live e(2) s by (auto simp: list_ex_iff value_match_def)
  qed
  then show ?thesis using None head by (simp add: list_contains_def vec_slice_def)
qed

definition spec_remove_first :: "dm_value \<Rightarrow> entry list \<Rightarrow> dm_value option \<times> entry list" where
  "spec_remove_first v es = (case vec_position (value_match v) es of
       None \<Rightarrow> (None, es) | Some i \<Rightarrow> (Some (fst (es ! i)), delete_at i es))"

lemma find_equal_spec:
  assumes "storage_ok sip l" "es = drop n (list_order l)"
  shows "find_equal l v k es = Some (map_option ((+) k) (vec_position (value_match v)
    (map (show_slot (positional l) (associative l)) (map slot_of es))))"
  using assms(2)
proof (induction es arbitrary: n k)
  case (Cons e es)
  have n: "n < length (list_order l)" using Cons.prems by (metis drop_eq_Nil linorder_not_less list.distinct(1))
  have e: "e = list_order l ! n" "es = drop (Suc n) (list_order l)"
    using Cons.prems(1) n by (metis Cons_nth_drop_Suc list.inject)+
  show ?case
    using Cons.IH [OF e(2)] entry_value_shown [OF assms(1) n]
    by (auto simp: e(1) value_match_def option.map_comp comp_def)
qed simp

lemma list_remove_first_spec:
  assumes inv: "list_inv sip l"
  shows "performs sip l (list_remove_first sip v l) (spec_remove_first v (entries l)) 0"
proof -
  have ok: "storage_ok sip l" "prefix_head l \<le> length (list_order l)"
    using inv by (auto simp: list_inv_def prefix_ok_def)
  have "map_option ((+) 0) x = x" for x :: "nat option" by (cases x) simp_all
  then have found: "find_equal l v 0 (drop (prefix_head l) (list_order l))
      = Some (vec_position (value_match v) (entries l))"
    using find_equal_spec [OF ok(1) refl, of v 0 "prefix_head l"]
    by (simp add: entries_def drop_map [symmetric] del: map_map)
  show ?thesis
  proof (cases "vec_position (value_match v) (entries l)")
    case None
    with inv show ?thesis
      by (simp add: performs_def list_remove_first_def spec_remove_first_def vec_slice_def ok found)
  next
    case (Some i)
    then have "i < length (entries l)" by (simp add: vec_position_Some_iff)
    then have "spec_remove (i + 1) (entries l) = (Inr (fst (entries l ! i)), delete_at i (entries l))"
      by (simp add: spec_remove_def checked_index_def)
    with list_remove_spec [OF inv, of "i + 1"] show ?thesis
      by (auto simp: performs_def list_remove_first_def spec_remove_first_def vec_slice_def ok found Some)
  qed
qed

definition spec_find_position :: "dm_value \<Rightarrow> nat \<Rightarrow> nat \<Rightarrow> entry list \<Rightarrow> value_error + nat" where
  "spec_find_position v start stop es = (case checked_boundary start (length es) of
       Inl e \<Rightarrow> Inl e
     | Inr _ \<Rightarrow> (case checked_boundary stop (length es) of
         Inl e \<Rightarrow> Inl e
       | Inr _ \<Rightarrow> Inr (case vec_position (value_match v) (take (stop - start) (drop (start - 1) es)) of
           None \<Rightarrow> 0 | Some i \<Rightarrow> start + i)))"

lemma find_position_loop_spec:
  assumes inv: "list_inv sip l" and "i + n \<le> length (entries l)"
  shows "find_position_loop l v (Suc i) n
    = Some (Inr (case vec_position (value_match v) (take n (drop i (entries l))) of
        None \<Rightarrow> 0 | Some k \<Rightarrow> Suc i + k))"
  using assms(2)
proof (induction n arbitrary: i)
  case (Suc n)
  then have i: "i < length (entries l)" by simp
  then have "take (Suc n) (drop i (entries l)) = entries l ! i # take n (drop (Suc i) (entries l))"
    by (simp add: Cons_nth_drop_Suc [symmetric])
  moreover have "list_get l (Suc i) = Some (Inr (fst (entries l ! i)))"
    using i by (simp add: list_get_spec [OF inv] spec_get_def checked_index_def)
  ultimately show ?case using Suc
    by (auto simp: value_match_def split: option.splits)
qed simp

lemma find_position_spec:
  assumes inv: "list_inv sip l"
  shows "find_position l v start stop = Some (spec_find_position v start stop (entries l))"
proof -
  have "length (entries l) < usize_max"
    using inv list_inv_len [OF inv]
    by (auto simp: list_inv_def storage_ok_def list_len_def max_entries_def usize_max_def)
  note b = checked_boundary_Inr_iff [OF this]
  show ?thesis
  proof (cases "checked_boundary start (length (entries l))")
    case start: (Inr i)
    show ?thesis
    proof (cases "checked_boundary stop (length (entries l))")
      case (Inr j)
      with start have "start = Suc i" "stop = Suc j" "j \<le> length (entries l)" by (simp_all add: b)
      then show ?thesis using start Inr find_position_loop_spec [OF inv, of i "j - i" v]
        by (simp add: find_position_def spec_find_position_def list_inv_len [OF inv])
    qed (simp add: find_position_def spec_find_position_def list_inv_len [OF inv] start)
  qed (simp add: find_position_def spec_find_position_def list_inv_len [OF inv])
qed

end
