(* ===== verification/DmListRanges.thy ===== *)
theory DmListRanges
  imports DmListKeys
begin

text \<open>
  The bulk operations of \<open>DmList\<close>: cutting and copying ranges, resizing, and removal by value,
  one at a time through the Fenwick index or many at once through quotas.
\<close>

section \<open>Compaction\<close>

definition kept_rank :: "bool list \<Rightarrow> nat \<Rightarrow> nat" where
  "kept_rank flags i = length (filter Not (take i flags))"

lemma kept_rank_Cons: "kept_rank (f # fs) (Suc i) = (if f then 0 else 1) + kept_rank fs i"
  by (simp add: kept_rank_def)

lemma length_index_remap [simp]: "length (index_remap k flags) = length flags"
  by (induction flags arbitrary: k) auto

lemma nth_index_remap:
  "i < length flags \<Longrightarrow> \<not> flags ! i \<Longrightarrow> index_remap k flags ! i = k + kept_rank flags i"
proof (induction flags arbitrary: k i)
  case (Cons f fs)
  then show ?case by (cases i) (auto simp: kept_rank_Cons, simp add: kept_rank_def)
qed simp

lemma retained_Cons:
  "retained (f # fs) (x # xs) = (if f then retained fs xs else x # retained fs xs)"
  by (simp add: retained_def)

lemma retained_Nil [simp]: "retained [] xs = []" "retained fs [] = []"
  by (simp_all add: retained_def)

lemma length_retained: "length flags = length xs \<Longrightarrow> length (retained flags xs) = length (filter Not flags)"
  by (induction flags xs rule: list_induct2) (auto simp: retained_Cons)

lemma nth_retained:
  "length flags = length xs \<Longrightarrow> i < length flags \<Longrightarrow> \<not> flags ! i \<Longrightarrow>
   kept_rank flags i < length (retained flags xs) \<and> retained flags xs ! kept_rank flags i = xs ! i"
proof (induction flags xs arbitrary: i rule: list_induct2)
  case (Cons f fs x xs)
  then show ?case by (cases i) (auto simp: retained_Cons kept_rank_Cons, simp_all add: kept_rank_def)
qed simp

lemma kept_rank_image:
  "kept_rank flags ` {i. i < length flags \<and> \<not> flags ! i} = {..<length (filter Not flags)}"
proof (induction flags)
  case (Cons f fs)
  have "{i. i < length (f # fs) \<and> \<not> (f # fs) ! i}
      = (if f then {} else {0}) \<union> Suc ` {i. i < length fs \<and> \<not> fs ! i}"
    (is "?l = ?r")
  proof (rule set_eqI)
    fix i show "i \<in> ?l \<longleftrightarrow> i \<in> ?r" by (cases i) auto
  qed
  then have "kept_rank (f # fs) ` {i. i < length (f # fs) \<and> \<not> (f # fs) ! i}
      = (if f then {} else {0}) \<union> (\<lambda>i. (if f then 0 else 1) + kept_rank fs i) ` {i. i < length fs \<and> \<not> fs ! i}"
    by (simp add: image_Un image_image kept_rank_Cons) (simp add: kept_rank_def)
  also have "(\<lambda>i. (if f then 0 else 1) + kept_rank fs i) ` {i. i < length fs \<and> \<not> fs ! i}
      = (\<lambda>n. (if f then 0 else 1) + n) ` {..<length (filter Not fs)}"
    unfolding Cons.IH [symmetric] by (simp add: image_image)
  finally show ?case by (cases f) (simp_all add: lessThan_Suc_eq_insert_0)
qed simp

lemma kept_rank_inj: "inj_on (kept_rank flags) {i. i < length flags \<and> \<not> flags ! i}"
proof (rule inj_on_inverseI)
  fix i assume "i \<in> {i. i < length flags \<and> \<not> flags ! i}"
  then show "retained flags [0..<length flags] ! kept_rank flags i = i"
    using nth_retained [of flags "[0..<length flags]" i] by simp
qed

fun remap_slot :: "bool list \<times> bool list \<Rightarrow> slot \<Rightarrow> slot" where
  "remap_slot marks (Pos i) = Pos (kept_rank (fst marks) i)"
| "remap_slot marks (Asc i) = Asc (kept_rank (snd marks) i)"

definition kept_slots :: "bool list \<times> bool list \<Rightarrow> slot set" where
  "kept_slots marks = Pos ` {i. i < length (fst marks) \<and> \<not> fst marks ! i}
     \<union> Asc ` {i. i < length (snd marks) \<and> \<not> snd marks ! i}"

lemma kept_slots_diff:
  assumes "\<forall>i < length p. p ! i \<longleftrightarrow> Pos i \<in> Q" "\<forall>i < length a. a ! i \<longleftrightarrow> Asc i \<in> Q"
  shows "kept_slots (p, a) = Pos ` {..<length p} \<union> Asc ` {..<length a} - Q"
  using assms by (auto simp: kept_slots_def)

lemma keys_distinct_retained:
  assumes "keys_distinct as" "length flags = length as"
  shows "keys_distinct (retained flags as)"
  unfolding keys_distinct_def
proof (intro allI impI)
  fix i j assume "i < length (retained flags as)" "j < length (retained flags as)"
    and eq: "semantic_eq (fst (retained flags as ! i)) (fst (retained flags as ! j))"
  then have "i \<in> kept_rank flags ` {i. i < length flags \<and> \<not> flags ! i}"
      "j \<in> kept_rank flags ` {i. i < length flags \<and> \<not> flags ! i}"
    using length_retained [OF assms(2)] by (simp_all add: kept_rank_image)
  then obtain i' j' where ij: "i' < length flags" "\<not> flags ! i'" "i = kept_rank flags i'"
      "j' < length flags" "\<not> flags ! j'" "j = kept_rank flags j'" by blast
  then have "retained flags as ! i = as ! i'" "retained flags as ! j = as ! j'"
    using nth_retained [OF assms(2)] by auto
  with eq have "semantic_eq (fst (as ! i')) (fst (as ! j'))" by simp
  then have "i' = j'" using assms(1) ij(1,4) unfolding assms(2) keys_distinct_def by blast
  then show "i = j" using ij by simp
qed

lemma compact_spec:
  assumes ok: "storage_ok sip l"
    and marks: "length (fst marks) = length (positional l)" "length (snd marks) = length (associative l)"
    and kept: "distinct (map slot_of kept)" "set (map slot_of kept) = kept_slots marks"
  shows "\<exists>es. compact_storage marks kept l = Some (l\<lparr>positional := retained (fst marks) (positional l),
        associative := retained (snd marks) (associative l), list_order := es\<rparr>)
    \<and> slots_ok (length (retained (fst marks) (positional l)))
        (length (retained (snd marks) (associative l))) (map slot_of es)
    \<and> length es = length kept
    \<and> map (show_slot (retained (fst marks) (positional l)) (retained (snd marks) (associative l)))
        (map slot_of es)
      = map (show_slot (positional l) (associative l)) (map slot_of kept)"
proof -
  let ?P = "retained (fst marks) (positional l)" and ?A = "retained (snd marks) (associative l)"
  have lens: "length ?P \<le> max_entries" "length ?A \<le> max_entries"
    using storage_ok_lengths [OF ok] length_retained [OF marks(1)] length_retained [OF marks(2)]
      length_filter_le [of Not "fst marks"] length_filter_le [of Not "snd marks"] marks by auto
  have small: "kept_rank (fst marks) i < 2147483648" if "i < length (fst marks)" "\<not> fst marks ! i" for i
    using nth_retained [OF marks(1) that] lens(1) by (simp add: max_entries_def)
  have small': "kept_rank (snd marks) i < 2147483648" if "i < length (snd marks)" "\<not> snd marks ! i" for i
    using nth_retained [OF marks(2) that] lens(2) by (simp add: max_entries_def)
  have "\<exists>es. vec_each (remap_entry (index_remap 0 (fst marks)) (index_remap 0 (snd marks))) kept = Some es
      \<and> map slot_of es = map (remap_slot marks) (map slot_of kept)"
  proof (rule vec_each_slots)
    fix e assume "e \<in> set kept"
    then have "slot_of e \<in> kept_slots marks" using kept(2) by auto
    then show "\<exists>e'. remap_entry (index_remap 0 (fst marks)) (index_remap 0 (snd marks)) e = Some e'
        \<and> slot_of e' = remap_slot marks (slot_of e)"
      using order_positional_small [OF small] order_associative_small [OF small']
      by (auto simp: kept_slots_def remap_entry_def order_positional_index_slot
          order_associative_index_slot nth_index_remap)
  qed
  then obtain es where es: "vec_each (remap_entry (index_remap 0 (fst marks)) (index_remap 0 (snd marks))) kept
        = Some es" "map slot_of es = map (remap_slot marks) (map slot_of kept)" by blast
  have "inj_on (remap_slot marks) (kept_slots marks)"
    using kept_rank_inj [of "fst marks"] kept_rank_inj [of "snd marks"]
    by (auto simp: inj_on_def kept_slots_def)
  then have "distinct (map slot_of es)" unfolding es(2) distinct_map [of "remap_slot marks"]
    using kept by simp
  moreover have "set (map slot_of es) = Pos ` {..<length ?P} \<union> Asc ` {..<length ?A}"
  proof -
    have "set (map slot_of es) = remap_slot marks ` kept_slots marks"
      unfolding es(2) kept(2) [symmetric] by (simp add: image_image)
    also have "\<dots> = Pos ` kept_rank (fst marks) ` {i. i < length (fst marks) \<and> \<not> fst marks ! i}
        \<union> Asc ` kept_rank (snd marks) ` {i. i < length (snd marks) \<and> \<not> snd marks ! i}"
      by (simp add: kept_slots_def image_Un image_image)
    finally show ?thesis
      by (simp only: kept_rank_image length_retained [OF marks(1)] length_retained [OF marks(2)])
  qed
  moreover have "show_slot ?P ?A (remap_slot marks s) = show_slot (positional l) (associative l) s"
    if "s \<in> kept_slots marks" for s
    using that nth_retained [OF marks(1)] nth_retained [OF marks(2)] by (auto simp: kept_slots_def)
  then have "map (show_slot ?P ?A) (map slot_of es) = map (show_slot (positional l) (associative l)) (map slot_of kept)"
    unfolding es(2) kept(2) [symmetric] by simp
  moreover have "length es = length kept" by (metis es(2) length_map)
  ultimately show ?thesis using es(1) by (auto simp: compact_storage_def slots_ok_def Let_def)
qed

lemma mark_entries_spec:
  assumes "\<forall>e \<in> set es. slot_of e \<in> Pos ` {..<length p} \<union> Asc ` {..<length a}"
  shows "\<exists>p' a'. mark_entries es (p, a) = Inr (p', a') \<and> length p' = length p \<and> length a' = length a
    \<and> (\<forall>i < length p. p' ! i \<longleftrightarrow> p ! i \<or> Pos i \<in> set (map slot_of es))
    \<and> (\<forall>i < length a. a' ! i \<longleftrightarrow> a ! i \<or> Asc i \<in> set (map slot_of es))"
  using assms
proof (induction es arbitrary: p a)
  case (Cons e es)
  show ?case
  proof (cases "slot_of e")
    case (Pos i)
    then have i: "i < length p" using Cons.prems by auto
    from Cons.prems have "\<forall>e \<in> set es. slot_of e \<in> Pos ` {..<length (p[i := True])} \<union> Asc ` {..<length a}" by simp
    from Cons.IH [OF this] obtain p' a' where r: "mark_entries es (p[i := True], a) = Inr (p', a')"
        "length p' = length p" "length a' = length a"
        "\<forall>j < length p. p' ! j \<longleftrightarrow> p[i := True] ! j \<or> Pos j \<in> set (map slot_of es)"
        "\<forall>j < length a. a' ! j \<longleftrightarrow> a ! j \<or> Asc j \<in> set (map slot_of es)" by auto
    then show ?thesis using Pos i
      by (intro exI [of _ p'] exI [of _ a']) (auto simp: order_positional_index_slot nth_list_update)
  next
    case (Asc i)
    then have i: "i < length a" using Cons.prems by auto
    from Cons.prems have "\<forall>e \<in> set es. slot_of e \<in> Pos ` {..<length p} \<union> Asc ` {..<length (a[i := True])}" by simp
    from Cons.IH [OF this] obtain p' a' where r: "mark_entries es (p, a[i := True]) = Inr (p', a')"
        "length p' = length p" "length a' = length a"
        "\<forall>j < length p. p' ! j \<longleftrightarrow> p ! j \<or> Pos j \<in> set (map slot_of es)"
        "\<forall>j < length a. a' ! j \<longleftrightarrow> a[i := True] ! j \<or> Asc j \<in> set (map slot_of es)" by auto
    then show ?thesis using Asc i
      by (intro exI [of _ p'] exI [of _ a'])
        (auto simp: order_positional_index_slot order_associative_index_slot nth_list_update)
  qed
qed simp

text \<open>Marking the removed entries and compacting onto the kept ones.\<close>

lemma mark_compact_rebuild:
  assumes ok: "storage_ok sip l" "positional_remove_index l = None"
    and split: "set removed \<union> set kept = set (list_order l)" "set removed \<inter> set kept = {}" "distinct kept"
    and len: "length kept \<le> length (list_order l)"
  shows "\<exists>marks l2 l3. mark_entries removed (no_marks l) = Inr marks
    \<and> compact_storage marks kept l = Some l2
    \<and> rebuild_associative_index sip (l2\<lparr>prefix_head := 0\<rparr>) = Some l3
    \<and> prefix_head l2 = prefix_head l
    \<and> plain sip l3 \<and> length (list_order l3) = length kept
    \<and> entries l3 = map (show_slot (positional l) (associative l)) (map slot_of kept)"
proof -
  have so: "slots_ok (length (positional l)) (length (associative l)) (slots l)"
    using ok(1) by (simp add: storage_ok_def)
  have range: "slot_of e \<in> Pos ` {..<length (positional l)} \<union> Asc ` {..<length (associative l)}"
    if "e \<in> set (list_order l)" for e
    using that so by (auto simp: slots_ok_def)
  have inj: "inj_on slot_of (set (list_order l))"
    using slot_of_inj by (auto intro: inj_onI)
  obtain p a where m: "mark_entries removed (no_marks l) = Inr (p, a)" "length p = length (positional l)"
      "length a = length (associative l)"
      "\<forall>i < length p. p ! i \<longleftrightarrow> Pos i \<in> set (map slot_of removed)"
      "\<forall>i < length a. a ! i \<longleftrightarrow> Asc i \<in> set (map slot_of removed)"
  proof -
    have "\<forall>e \<in> set removed. slot_of e \<in> Pos ` {..<length (fst (no_marks l))}
        \<union> Asc ` {..<length (snd (no_marks l))}"
      using range split(1) by (auto simp: no_marks_def)
    from mark_entries_spec [OF this] that show ?thesis by (auto simp: no_marks_def)
  qed
  have disj: "slot_of ` set kept = set (slots l) - slot_of ` set removed"
    using split inj slot_of_inj by (auto simp: set_eq_iff)
  have "set (map slot_of kept) = kept_slots (p, a)"
    using disj so m(2,3) kept_slots_diff [of p "slot_of ` set removed" a] m(4,5)
    by (simp add: slots_ok_def)
  moreover have "distinct (map slot_of kept)"
    using split(3) slot_of_inj by (auto simp: distinct_map intro: inj_onI)
  ultimately obtain es where es:
      "compact_storage (p, a) kept l = Some (l\<lparr>positional := retained p (positional l),
        associative := retained a (associative l), list_order := es\<rparr>)"
      "slots_ok (length (retained p (positional l))) (length (retained a (associative l))) (map slot_of es)"
      "length es = length kept"
      "map (show_slot (retained p (positional l)) (retained a (associative l))) (map slot_of es)
        = map (show_slot (positional l) (associative l)) (map slot_of kept)"
    using compact_spec [OF ok(1), of "(p, a)" kept] m(2,3) by auto
  let ?l2 = "l\<lparr>positional := retained p (positional l), associative := retained a (associative l), list_order := es\<rparr>"
  have "keys_distinct (retained a (associative l))"
    using ok(1) m(3) by (intro keys_distinct_retained) (simp_all add: storage_ok_def)
  then obtain l3 where "rebuild_associative_index sip (?l2\<lparr>prefix_head := 0\<rparr>) = Some l3" "plain sip l3"
      "entries l3 = entries (?l2\<lparr>prefix_head := 0\<rparr>)" "length (list_order l3) = length es"
    using plain_rebuild [of "?l2\<lparr>prefix_head := 0\<rparr>" sip] es(2,3) ok len by (auto simp: storage_ok_def)
  moreover have "entries (?l2\<lparr>prefix_head := 0\<rparr>) = map (show_slot (positional l) (associative l)) (map slot_of kept)"
    using es(4) by (simp add: entries_def)
  ultimately show ?thesis using m(1) es(1,3) by (intro exI conjI) (assumption | simp)+
qed

section \<open>Cutting\<close>

definition spec_cut :: "nat \<Rightarrow> nat \<Rightarrow> entry list \<Rightarrow> (value_error + nat) \<times> entry list" where
  "spec_cut start stop es = (case checked_boundary start (length es) of
       Inl e \<Rightarrow> (Inl e, es)
     | Inr _ \<Rightarrow> (case checked_boundary stop (length es) of
         Inl e \<Rightarrow> (Inl e, es)
       | Inr _ \<Rightarrow>
           if stop \<le> start then (Inr 0, es)
           else (Inr (stop - start), take (start - 1) es @ drop (stop - 1) es)))"

lemma canonical_positional:
  assumes ok: "storage_ok sip l" and "associative l = []" "canonical_order (list_order l)"
  shows "purely_positional l"
proof -
  have "slot_of (list_order l ! i) = Pos i" if "i < length (list_order l)" for i
    using assms(3) that by (auto simp: canonical_order_def list_all_length)
  then have "slots l = map Pos [0..<length (list_order l)]" by (intro nth_equalityI) auto
  then show ?thesis using storage_ok_lengths(1) [OF ok] assms(2) by (simp add: purely_positional_def)
qed

lemma list_inv_bound: "list_inv sip l \<Longrightarrow> length (entries l) < usize_max"
  using list_inv_len [of sip l]
  by (auto simp: list_inv_def storage_ok_def list_len_def max_entries_def usize_max_def)

lemma cut_split:
  assumes "a < b" "b \<le> length xs" "distinct xs"
  shows "set (take (b - a) (drop a xs)) \<union> set (take a xs @ drop b xs) = set xs"
    and "set (take (b - a) (drop a xs)) \<inter> set (take a xs @ drop b xs) = {}"
    and "distinct (take a xs @ drop b xs)"
    and "length (take a xs @ drop b xs) \<le> length xs"
proof -
  have "drop a xs = take (b - a) (drop a xs) @ drop b xs"
    using assms(1) by (metis append_take_drop_id drop_drop le_add_diff_inverse2 less_imp_le)
  then have xs: "xs = take a xs @ take (b - a) (drop a xs) @ drop b xs"
    by (metis append_take_drop_id)
  show "set (take (b - a) (drop a xs)) \<union> set (take a xs @ drop b xs) = set xs"
    using arg_cong [OF xs, of set] by auto
  have "distinct (take a xs @ take (b - a) (drop a xs) @ drop b xs)" using assms(3) xs by simp
  then show "set (take (b - a) (drop a xs)) \<inter> set (take a xs @ drop b xs) = {}"
      "distinct (take a xs @ drop b xs)" by auto
  show "length (take a xs @ drop b xs) \<le> length xs" using assms(1,2) by simp
qed

lemma cut_range_spec:
  assumes inv: "list_inv sip l"
  shows "performs sip l (cut_range sip start stop l) (spec_cut start stop (entries l)) 0"
proof -
  let ?n = "length (entries l)"
  note len = list_inv_len [OF inv] and b = checked_boundary_Inr_iff [OF list_inv_bound [OF inv]]
  have self: "performs sip l (Some (r, l)) (r, entries l) 0" for r :: "value_error + nat"
    using inv by (simp add: performs_def)
  show ?thesis
  proof (cases "checked_boundary start ?n")
    case (Inl e)
    then show ?thesis using self by (simp add: cut_range_def spec_cut_def len Let_def)
  next
    case start: (Inr i)
    show ?thesis
    proof (cases "checked_boundary stop ?n")
      case (Inl e)
      then show ?thesis using self start by (simp add: cut_range_def spec_cut_def len Let_def)
    next
      case stop: (Inr j)
      have ij: "start = Suc i" "stop = Suc j" "j \<le> ?n" using start stop by (simp_all add: b)
      show ?thesis
      proof (cases "j \<le> i")
        case True
        then show ?thesis using self start stop ij by (simp add: cut_range_def spec_cut_def len Let_def)
      next
        case False
        have spec: "spec_cut start stop (entries l) = (Inr (j - i), take i (entries l) @ drop j (entries l))"
          using start stop False ij by (simp add: spec_cut_def)
        consider (all) "i = 0" "j = ?n"
          | (head) "\<not> (i = 0 \<and> j = ?n)" "i = 0" "associative l = []"
              "0 < prefix_head l \<or> canonical_order (list_order l)"
          | (mid) "\<not> (i = 0 \<and> j = ?n)" "\<not> (i = 0 \<and> associative l = []
              \<and> (0 < prefix_head l \<or> canonical_order (list_order l)))" by blast
        then show ?thesis
        proof cases
          case all
          then have "cut_range sip start stop l = Some (Inr (j - i), dm_list_new)"
            using start stop ij False by (simp add: cut_range_def len Let_def)
          then show ?thesis using all list_inv_new
            by (simp add: spec performs_def) (simp add: dm_list_new_def)
        next
          case head
          have ok: "storage_ok sip l" "prefix_ok l" "prefix_head l \<le> length (list_order l)"
            using inv by (auto simp: list_inv_def prefix_ok_def)
          have pp: "purely_positional l"
            using head ok canonical_positional [OF ok(1)] by (auto simp: prefix_ok_def)
          let ?l = "(invalidate_positional_remove_index l)\<lparr>prefix_head := prefix_head l + j\<rparr>"
          have "list_inv sip ?l"
            using ok pp ij(3) len
            by (auto simp: list_inv_def storage_ok_def prefix_ok_def removal_ok_def purely_positional_def
                invalidate_positional_remove_index_def list_len_def)
          moreover have "entries ?l = drop j (entries l)"
            by (simp add: entries_def invalidate_positional_remove_index_def drop_map [symmetric] add.commute)
          moreover have "cut_range sip start stop l = Some (Inr j, ?l)"
            using head start stop ij False by (auto simp: cut_range_def len Let_def)
          ultimately show ?thesis using head
            by (simp add: spec performs_def invalidate_positional_remove_index_def)
        next
          case mid
          obtain l1 where l1: "materialize_prefix l = Some l1"
              "plain sip (invalidate_positional_remove_index l1)"
              "entries (invalidate_positional_remove_index l1) = entries l"
              "length (list_order (invalidate_positional_remove_index l1)) \<le> length (list_order l)"
            using prepare_spec [OF inv] by blast
          define m where "m = invalidate_positional_remove_index l1"
          note m = l1 [folded m_def]
          let ?o = "list_order m"
          have mo: "length ?o = ?n" using plain_length [OF m(2)] m(3) by simp
          have dist: "distinct ?o"
            using plain_slots [OF m(2)] by (simp add: slots_ok_def distinct_map)
          have ji: "i < j" "j \<le> length ?o" using False ij mo by simp_all
          let ?removed = "take (j - i) (drop i ?o)" and ?kept = "take i ?o @ drop j ?o"
          note split = cut_split [OF ji dist]
          have m0: "storage_ok sip m" "positional_remove_index m = None" "prefix_head m = 0"
            using m(2) by (simp_all add: plain_def)
          from mark_compact_rebuild [OF m0(1,2) split] obtain marks l2 l3 where
            r: "mark_entries ?removed (no_marks m) = Inr marks" "compact_storage marks ?kept m = Some l2"
              "rebuild_associative_index sip (l2\<lparr>prefix_head := 0\<rparr>) = Some l3"
              "prefix_head l2 = prefix_head m" "plain sip l3" "length (list_order l3) = length ?kept"
              "entries l3 = map (show_slot (positional m) (associative m)) (map slot_of ?kept)" by blast
          have "l2\<lparr>prefix_head := 0\<rparr> = l2" using r(4) m0(3) by simp
          then have "cut_range sip start stop l = Some (Inr (j - i), l3)"
            using start stop ij False mid m(1) r ji
            by (simp add: cut_range_def len Let_def vec_drain_def m_def [symmetric]
                del: One_nat_def) auto
          moreover have "entries l3 = take i (entries l) @ drop j (entries l)"
            using r(7) plain_entries [OF m(2)] m(3) by (simp add: take_map drop_map)
          ultimately show ?thesis using r(5,6) plain_inv [OF r(5)] m(4) ji
            by (simp add: spec performs_def)
        qed
      qed
    qed
  qed
qed

section \<open>Resizing\<close>

definition spec_resize :: "nat \<Rightarrow> entry list \<Rightarrow> entry list" where
  "spec_resize n es = take n es @ replicate (n - length es) (VNull, None)"

lemma resize_grow_spec:
  assumes "list_inv sip l" "length (list_order l) + n \<le> max_entries"
  shows "\<exists>l'. resize_grow n l = Some l' \<and> list_inv sip l'
    \<and> entries l' = entries l @ replicate n (VNull, None)
    \<and> length (list_order l') = length (list_order l) + n"
  using assms
proof (induction n arbitrary: l)
  case (Suc n)
  obtain l1 where l1: "list_add VNull l = Some (length (entries l) + 1, l1)" "list_inv sip l1"
      "entries l1 = entries l @ [(VNull, None)]" "length (list_order l1) = length (list_order l) + 1"
    using extend_spec [OF Suc.prems(1), of "[VNull]"] Suc.prems(2) by (auto simp: list_add_extend)
  with Suc.IH [OF l1(2)] Suc.prems(2) show ?case by auto
qed simp

lemma list_resize_spec:
  assumes inv: "list_inv sip l" and room: "length (list_order l) + n \<le> max_entries"
  shows "performs sip l (list_resize sip n l) (Inr (), spec_resize n (entries l)) n"
proof -
  let ?k = "n - length (entries l)"
  obtain l1 where l1: "resize_grow ?k l = Some l1" "list_inv sip l1"
      "entries l1 = entries l @ replicate ?k (VNull, None)"
      "length (list_order l1) = length (list_order l) + ?k"
    using resize_grow_spec [OF inv, of ?k] room diff_le_self [of n "length (entries l)"]
    by (meson add_left_mono order_trans)
  have len1: "list_len l1 = length (entries l1)" by (rule list_inv_len [OF l1(2)])
  show ?thesis
  proof (cases "n < length (entries l)")
    case False
    then show ?thesis using l1 len1
      by (auto simp: performs_def list_resize_def spec_resize_def list_inv_len [OF inv])
  next
    case True
    have "checked_boundary (n + 1) (length (entries l1)) = Inr n"
        "checked_boundary (length (entries l1) + 1) (length (entries l1)) = Inr (length (entries l1))"
      using True l1(3) list_inv_bound [OF l1(2)] by (simp_all add: checked_boundary_def)
    then have "spec_cut (n + 1) (length (entries l1) + 1) (entries l1)
        = (Inr (length (entries l1) - n), take n (entries l))"
      using True l1(3) by (simp add: spec_cut_def)
    with cut_range_spec [OF l1(2), of "n + 1" "length (entries l1) + 1"] True l1 len1
    show ?thesis
      by (auto simp: performs_def list_resize_def spec_resize_def list_inv_len [OF inv])
  qed
qed

end
