(* ===== verification/DmListRemoval.thy ===== *)
theory DmListRemoval
  imports DmListRanges
begin

text \<open>
  Removal by value: \<open>remove_last\<close> by scan and through the Fenwick index removes the same
  entry, and \<open>subtract_entries\<close> with its quotas is the repeated \<open>remove_last\<close>.
\<close>

section \<open>The last entry with a value\<close>

definition spec_remove_last :: "dm_value \<Rightarrow> entry list \<Rightarrow> dm_value option \<times> entry list" where
  "spec_remove_last v es = (case vec_position (value_match v) (rev es) of
       None \<Rightarrow> (None, es)
     | Some i \<Rightarrow> (Some (fst (es ! (length es - Suc i))), delete_at (length es - Suc i) es))"

lemma spec_remove_last_none:
  "(\<And>e. e \<in> set es \<Longrightarrow> \<not> value_match v e) \<Longrightarrow> spec_remove_last v es = (None, es)"
  by (simp add: spec_remove_last_def vec_position_None_iff [THEN iffD2])

lemma vec_position_append:
  "vec_position p (xs @ ys) = (case vec_position p xs of
     Some i \<Rightarrow> Some i | None \<Rightarrow> map_option ((+) (length xs)) (vec_position p ys))"
  by (induction xs; cases "vec_position p ys") (auto split: option.splits)

lemma spec_remove_last_split:
  assumes "value_match v e" "\<And>e'. e' \<in> set zs \<Longrightarrow> \<not> value_match v e'"
  shows "spec_remove_last v (ys @ e # zs) = (Some (fst e), ys @ zs)"
proof -
  have none: "vec_position (value_match v) (rev zs) = None"
    using assms(2) by (simp add: vec_position_None_iff)
  then have "vec_position (value_match v) (rev (ys @ e # zs)) = Some (length zs)"
    using assms(1) by (simp add: vec_position_append)
  then show ?thesis by (simp add: spec_remove_last_def delete_at_def)
qed

section \<open>By scan\<close>

lemma find_last_equal_spec:
  assumes inv: "list_inv sip l" and "n \<le> length (entries l)"
  shows "find_last_equal l v n = Some (map_option (\<lambda>i. n - i)
    (vec_position (value_match v) (rev (take n (entries l)))))"
  using assms(2)
proof (induction n)
  case (Suc n)
  have "list_get l (Suc n) = Some (Inr (fst (entries l ! n)))"
    using Suc.prems by (simp add: list_get_spec [OF inv] spec_get_def checked_index_def)
  moreover have "rev (take (Suc n) (entries l)) = entries l ! n # rev (take n (entries l))"
    using Suc.prems by (simp add: take_Suc_conv_app_nth)
  ultimately show ?case using Suc
    by (auto simp: value_match_def option.map_comp comp_def)
qed simp

lemma remove_last_scan_spec:
  assumes inv: "list_inv sip l"
  shows "performs sip l (remove_last_scan sip v l) (spec_remove_last v (entries l)) 0"
proof (cases "vec_position (value_match v) (rev (entries l))")
  case None
  then show ?thesis using inv find_last_equal_spec [OF inv le_refl, of v]
    by (simp add: performs_def remove_last_scan_def spec_remove_last_def list_inv_len [OF inv])
next
  case (Some i)
  let ?n = "length (entries l)"
  have i: "i < ?n" using Some by (simp add: vec_position_Some_iff)
  then have "spec_remove (?n - i) (entries l) = (Inr (fst (entries l ! (?n - Suc i))), delete_at (?n - Suc i) (entries l))"
    by (simp add: spec_remove_def checked_index_def)
  with list_remove_spec [OF inv, of "?n - i"] show ?thesis
    using find_last_equal_spec [OF inv le_refl, of v]
    by (auto simp: performs_def remove_last_scan_def spec_remove_last_def list_inv_len [OF inv] Some)
qed

section \<open>Through the index\<close>

lemma filter_last_split:
  assumes "filter P xs \<noteq> []"
  shows "\<exists>ys zs. xs = ys @ last (filter P xs) # zs \<and> P (last (filter P xs))
    \<and> (\<forall>z \<in> set zs. \<not> P z) \<and> butlast (filter P xs) = filter P ys"
proof -
  have "\<exists>x \<in> set xs. P x" using assms by (auto simp: filter_empty_conv)
  then obtain ys x zs where s: "xs = ys @ x # zs" "P x" "\<forall>z \<in> set zs. \<not> P z"
    using split_list_last_prop [of xs P] by blast
  then have "filter P xs = filter P ys @ [x]" by simp
  with s show ?thesis by (metis butlast_snoc last_snoc)
qed

lemma map_Pos_butlast: "butlast (map Pos [0..<n]) = map Pos [0..<n - 1]"
  by (cases n) simp_all

lemma remembers_not_found:
  assumes ix: "remembers ix orig R now" and key: "semantic_key v = Some key"
    and none: "(case pri_positions ix key of None \<Rightarrow> [] | Some ps \<Rightarrow> ps) = []"
  shows "spec_remove_last v (map (\<lambda>x. (x, None)) now) = (None, map (\<lambda>x. (x, None)) now)"
proof (rule spec_remove_last_none)
  fix e assume "e \<in> set (map (\<lambda>x. (x, None :: dm_value option)) now)"
  then obtain p where p: "p \<in> set (survivors R (length orig))" "fst e = orig ! p"
    using ix by (auto simp: remembers_def)
  have "filter (\<lambda>p. semantic_key (orig ! p) = Some key) (survivors R (length orig)) = []"
    using ix none by (simp add: remembers_def)
  then have "semantic_key (orig ! p) \<noteq> Some key" using p(1) by (auto simp: filter_empty_conv)
  then show "\<not> value_match v e"
    using p(2) semantic_eq_key [OF key, of "fst e"] semantic_eq_sym(1) by (auto simp: value_match_def)
qed

lemma remembers_remove:
  assumes ix: "remembers ix orig R now" and key: "semantic_key v = Some key"
    and ps: "pri_positions ix key = Some ps" "ps \<noteq> []"
  shows "\<exists>before removed ys x zs.
      removed_before (pri_removed ix) (last ps) = Some before
    \<and> usize_sub (last ps) before = Some (length ys)
    \<and> mark_removed (pri_removed ix) (last ps) = Some removed
    \<and> now = ys @ x # zs \<and> semantic_eq x v \<and> (\<forall>z \<in> set zs. \<not> semantic_eq z v)
    \<and> remembers \<lparr>pri_positions = (pri_positions ix)(key \<mapsto> butlast ps), pri_removed = removed\<rparr>
        orig (insert (last ps) R) (ys @ zs)"
proof -
  let ?S = "survivors R (length orig)" and ?P = "\<lambda>p. semantic_key (orig ! p) = Some key"
  let ?o = "last ps" and ?n = "length orig"
  note r = ix [unfolded remembers_def]
  have f: "ps = filter ?P ?S" using r ps(1) by (metis option.simps(5))
  then obtain ys zs where s: "?S = ys @ ?o # zs" "?P ?o" "\<forall>z \<in> set zs. \<not> ?P z" "butlast ps = filter ?P ys"
    using filter_last_split [of ?P ?S] ps(2) by metis
  have "?o \<in> set ?S" by (subst s(1)) simp
  then have o: "?o < ?n" "?o \<notin> R" by (auto simp: survivors_def)
  let ?c = "card (R \<inter> {..<?o})"
  have cle: "?c \<le> ?o" using card_mono [of "{..<?o}" "R \<inter> {..<?o}"] by simp
  have before: "removed_before (pri_removed ix) ?o = Some ?c"
    using fenwick.before_card [of "pri_removed ix" R ?o] r o by simp
  obtain removed where m: "mark_removed (pri_removed ix) ?o = Some removed"
      "length removed = length (pri_removed ix)" "fenwick.removes removed (insert ?o R)"
    using fenwick.mark_removes [of "pri_removed ix" R ?o] r o by auto
  have at: "?o - ?c < length ?S" "?S ! (?o - ?c) = ?o" using survivors_nth [OF o] by simp_all
  have "distinct ?S" by (simp add: survivors_def)
  moreover have "length ys < length ?S" "?S ! length ys = ?o" by (subst s(1), simp)+
  ultimately have pos: "?o - ?c = length ys"
    using at nth_eq_iff_index_eq [of ?S "?o - ?c" "length ys"] by simp
  have del: "survivors (insert ?o R) ?n = ys @ zs"
    using survivors_insert [OF o] s(1) pos by (simp add: delete_at_def)
  have eqv: "semantic_eq (orig ! p) v \<longleftrightarrow> ?P p" for p
    using semantic_eq_key [OF key, of "orig ! p"] semantic_eq_sym(1) by blast
  have other: "filter (\<lambda>p. semantic_key (orig ! p) = Some k) (ys @ zs)
      = filter (\<lambda>p. semantic_key (orig ! p) = Some k) ?S" if "k \<noteq> key" for k
    using s(2) that by (simp add: s(1))
  have "filter ?P (ys @ zs) = butlast ps" using s(3,4) by simp
  then have "remembers \<lparr>pri_positions = (pri_positions ix)(key \<mapsto> butlast ps), pri_removed = removed\<rparr>
      orig (insert ?o R) (map ((!) orig) (ys @ zs))"
    using r m o other unfolding remembers_def del by auto
  moreover have "now = map ((!) orig) ys @ orig ! ?o # map ((!) orig) zs" using r by (simp add: s(1))
  moreover have "\<forall>z \<in> set (map ((!) orig) zs). \<not> semantic_eq z v" using s(3) by (auto simp: eqv)
  moreover have "semantic_eq (orig ! ?o) v" using s(2) by (simp add: eqv)
  ultimately show ?thesis using before m(1) pos cle
    by (intro exI [of _ ?c] exI [of _ removed] exI [of _ "map ((!) orig) ys"] exI [of _ "orig ! ?o"]
        exI [of _ "map ((!) orig) zs"]) (simp add: usize_sub_def)
qed

lemma purely_positional_entries:
  "purely_positional l \<Longrightarrow> prefix_head l = 0 \<Longrightarrow> entries l = map (\<lambda>x. (x, None)) (positional l)"
  by (rule nth_equalityI) (simp_all add: entries_def purely_positional_def)

lemma remove_last_indexed_spec:
  assumes inv: "list_inv sip l" and ix: "positional_remove_index l = Some ix"
    and key: "semantic_key v = Some key"
  shows "performs sip l (remove_last_indexed key ix l) (spec_remove_last v (entries l)) 0"
proof -
  obtain orig R where r: "remembers ix orig R (positional l)" and pp: "purely_positional l" "prefix_head l = 0"
    using inv ix by (auto simp: list_inv_def removal_ok_def)
  note es = purely_positional_entries [OF pp]
  show ?thesis
  proof (cases "(case pri_positions ix key of None \<Rightarrow> [] | Some ps \<Rightarrow> ps) = []")
    case True
    then have "remove_last_indexed key ix l = Some (None, l)"
      by (auto simp: remove_last_indexed_def split: option.splits)
    then show ?thesis using inv remembers_not_found [OF r key True] by (simp add: es performs_def)
  next
    case False
    then obtain ps where ps: "pri_positions ix key = Some ps" "ps \<noteq> []" by (auto split: option.splits)
    from remembers_remove [OF r key ps] obtain before removed ys x zs where
      s: "removed_before (pri_removed ix) (last ps) = Some before"
        "usize_sub (last ps) before = Some (length ys)"
        "mark_removed (pri_removed ix) (last ps) = Some removed"
        "positional l = ys @ x # zs" "semantic_eq x v" "\<forall>z \<in> set zs. \<not> semantic_eq z v"
        "remembers \<lparr>pri_positions = (pri_positions ix)(key \<mapsto> butlast ps), pri_removed = removed\<rparr>
          orig (insert (last ps) R) (ys @ zs)" by blast
    let ?ix = "\<lparr>pri_positions = (pri_positions ix)(key \<mapsto> butlast ps), pri_removed = removed\<rparr>"
    let ?l = "l\<lparr>positional := ys @ zs, list_order := butlast (list_order l), positional_remove_index := Some ?ix\<rparr>"
    have run: "remove_last_indexed key ix l = Some (Some x, ?l)"
      using ps s(1-4) by (simp add: remove_last_indexed_def Let_def vec_remove_def delete_at_def)
    have S: "slots ?l = map Pos [0..<length (ys @ zs)]"
      using pp(1) s(4) by (simp add: map_butlast purely_positional_def map_Pos_butlast)
    have ok: "storage_ok sip l" using inv by (simp add: list_inv_def)
    have "slots_ok (length (ys @ zs)) 0 (slots ?l)"
      unfolding S by (auto simp: slots_ok_def distinct_map inj_on_def)
    moreover have "length (butlast (list_order l)) \<le> max_entries"
      using ok unfolding storage_ok_def length_butlast by linarith
    ultimately have "storage_ok sip ?l"
      using ok pp(1) by (simp add: storage_ok_def purely_positional_def)
    moreover have pp': "purely_positional ?l" using S pp(1) by (simp add: purely_positional_def)
    ultimately have "list_inv sip ?l"
      using s(7) pp(2) by (auto simp: list_inv_def prefix_ok_def removal_ok_def)
    moreover have "entries ?l = map (\<lambda>x. (x, None)) (ys @ zs)"
      using purely_positional_entries [OF pp'] pp(2) by simp
    moreover have "spec_remove_last v (entries l) = (Some x, map (\<lambda>x. (x, None)) (ys @ zs))"
    proof -
      have "\<not> value_match v e" if "e \<in> set (map (\<lambda>x. (x, None)) zs)" for e
        using that s(6) by (auto simp: value_match_def)
      then show ?thesis
        using spec_remove_last_split [of v "(x, None)" "map (\<lambda>x. (x, None)) zs" "map (\<lambda>x. (x, None)) ys"] s(5)
        by (simp add: es s(4) value_match_def)
    qed
    ultimately show ?thesis using run by (simp add: performs_def)
  qed
qed

lemma key_positions_spec:
  assumes "\<forall>v \<in> set vs. semantic_key v \<noteq> None"
  shows "\<exists>m'. key_positions n vs m = Some m' \<and> (\<forall>k. (case m' k of None \<Rightarrow> [] | Some ps \<Rightarrow> ps)
    = (case m k of None \<Rightarrow> [] | Some ps \<Rightarrow> ps)
      @ filter (\<lambda>p. semantic_key (vs ! (p - n)) = Some k) [n..<n + length vs])"
  using assms
proof (induction vs arbitrary: n m)
  case (Cons v vs)
  obtain key where key: "semantic_key v = Some key" using Cons.prems by auto
  let ?m = "m(key \<mapsto> (case m key of None \<Rightarrow> [] | Some ps \<Rightarrow> ps) @ [n])"
  obtain m' where m': "key_positions (Suc n) vs ?m = Some m'"
      "\<And>k. (case m' k of None \<Rightarrow> [] | Some ps \<Rightarrow> ps) = (case ?m k of None \<Rightarrow> [] | Some ps \<Rightarrow> ps)
        @ filter (\<lambda>p. semantic_key (vs ! (p - Suc n)) = Some k) [Suc n..<Suc n + length vs]"
  proof -
    have "\<forall>v \<in> set vs. semantic_key v \<noteq> None" using Cons.prems by simp
    from Cons.IH [OF this, of "Suc n" ?m] that show ?thesis by blast
  qed
  have tail: "filter (\<lambda>p. semantic_key ((v # vs) ! (p - n)) = Some k) [Suc n..<Suc n + length vs]
      = filter (\<lambda>p. semantic_key (vs ! (p - Suc n)) = Some k) [Suc n..<Suc n + length vs]" for k
    by (rule filter_cong) (auto simp: nth_Cons' simp flip: diff_Suc_eq_diff_pred)
  have "[n..<n + length (v # vs)] = n # [Suc n..<Suc n + length vs]"
    using upt_conv_Cons [of n "n + length (v # vs)"] by (simp del: upt_Suc)
  then have "(case m' k of None \<Rightarrow> [] | Some ps \<Rightarrow> ps) = (case m k of None \<Rightarrow> [] | Some ps \<Rightarrow> ps)
      @ filter (\<lambda>p. semantic_key ((v # vs) ! (p - n)) = Some k) [n..<n + length (v # vs)]" for k
    unfolding m'(2) tail [symmetric] using key by (cases "k = key") (simp_all del: upt_Suc)
  then show ?case using m'(1) key by simp
qed simp

lemma remove_last_spec:
  assumes inv: "list_inv sip l"
  shows "performs sip l (remove_last sip v l) (spec_remove_last v (entries l)) 0"
proof -
  obtain m where m: "materialize_prefix l = Some m" "list_inv sip m" "prefix_head m = 0"
      "entries m = entries l" "length (list_order m) \<le> length (list_order l)"
    using materialize_spec [OF inv] by blast
  define built where "built = (if needs_remove_index m
      then map_option (\<lambda>ps. m\<lparr>positional_remove_index := Some \<lparr>pri_positions = ps,
          pri_removed = replicate (length (positional m) + 1) 0\<rparr>\<rparr>)
        (key_positions 0 (positional m) Map.empty)
      else Some m)"
  have "\<exists>m'. built = Some m' \<and> list_inv sip m' \<and> entries m' = entries m \<and> list_order m' = list_order m"
  proof (cases "needs_remove_index m")
    case True
    have ok: "storage_ok sip m" "associative m = []" using m(2) True
      by (simp_all add: list_inv_def needs_remove_index_def)
    have n: "length (list_order m) = length (positional m)" using storage_ok_lengths(1) [OF ok(1)] ok(2) by simp
    have canon: "slot_of (list_order m ! i) = Pos i" "semantic_key (positional m ! i) \<noteq> None"
      if "i < length (positional m)" for i
      using True that n by (auto simp: needs_remove_index_def list_all_length)
    then have keys: "\<forall>v \<in> set (positional m). semantic_key v \<noteq> None" by (metis in_set_conv_nth)
    obtain ps where ps: "key_positions 0 (positional m) Map.empty = Some ps"
        "\<forall>k. (case ps k of None \<Rightarrow> [] | Some ps \<Rightarrow> ps)
          = filter (\<lambda>p. semantic_key (positional m ! p) = Some k) [0..<length (positional m)]"
      using key_positions_spec [OF keys, of 0 Map.empty] by auto
    have "slots m = map Pos [0..<length (positional m)]"
      by (rule nth_equalityI) (use n canon(1) in simp_all)
    then have pp: "purely_positional m" using ok(2) by (simp add: purely_positional_def)
    let ?ix = "\<lparr>pri_positions = ps, pri_removed = replicate (length (positional m) + 1) 0\<rparr>"
    have small: "length (positional m) \<le> max_entries" using storage_ok_lengths(2) [OF ok(1)] .
    then have fresh: "fenwick.removes (replicate (length (positional m) + 1) 0) {}"
      by (intro fenwick_fresh) (simp add: max_entries_def)
    have "remembers ?ix (positional m) {} (positional m)"
      using ps(2) keys small fresh by (simp add: remembers_def survivors_def map_nth del: replicate_Suc)
    then have "list_inv sip (m\<lparr>positional_remove_index := Some ?ix\<rparr>)"
      using m(2,3) pp
      by (auto simp: list_inv_def storage_ok_def prefix_ok_def removal_ok_def purely_positional_def)
    then show ?thesis using True ps(1) by (simp add: built_def entries_def)
  qed (use m in \<open>simp add: built_def\<close>)
  then obtain m' where m': "built = Some m'" "list_inv sip m'" "entries m' = entries l"
      "list_order m' = list_order m" using m(4) by auto
  have run: "remove_last sip v l = (case (semantic_key v, positional_remove_index m') of
        (Some key, Some index) \<Rightarrow> remove_last_indexed key index m'
      | _ \<Rightarrow> remove_last_scan sip v m')"
    using m(1) m'(1) by (simp add: remove_last_def built_def [symmetric])
  have "performs sip m' (remove_last sip v l) (spec_remove_last v (entries m')) 0"
  proof (cases "semantic_key v")
    case None
    then show ?thesis using remove_last_scan_spec [OF m'(2)] by (simp add: run)
  next
    case (Some key)
    then show ?thesis
      using remove_last_scan_spec [OF m'(2)] remove_last_indexed_spec [OF m'(2) _ Some]
      by (cases "positional_remove_index m'") (simp_all add: run)
  qed
  then show ?thesis using m(5) m'(3,4) by (auto simp: performs_def)
qed

section \<open>Quotas\<close>

text \<open>How many entries with the value \<open>w\<close> the quotas still ask for.\<close>

definition fallback_count :: "dm_value \<Rightarrow> (dm_value \<times> nat) list \<Rightarrow> nat" where
  "fallback_count w qs = sum_list (map snd (filter (\<lambda>q. semantic_eq w (fst q)) qs))"

definition quota_count :: "quotas \<Rightarrow> dm_value \<Rightarrow> nat" where
  "quota_count q w = (case semantic_key w of
       Some key \<Rightarrow> (case fst q key of None \<Rightarrow> 0 | Some n \<Rightarrow> n)
     | None \<Rightarrow> fallback_count w (snd q))"

lemma fallback_bump:
  "fallback_count w (bump_quota v qs) = fallback_count w qs + of_bool (semantic_eq w v)"
proof (induction qs)
  case (Cons q qs)
  have "semantic_eq w (fst q) \<longleftrightarrow> semantic_eq w v" if "semantic_eq (fst q) v"
    using that semantic_eq_trans(1) semantic_eq_sym(1) by blast
  with Cons show ?case by (auto simp: fallback_count_def)
qed (simp add: fallback_count_def)

lemma add_quota_count:
  "quota_count (add_quota v q) w = quota_count q w + of_bool (semantic_eq w v)"
proof (cases "semantic_key w")
  case None
  show ?thesis
  proof (cases "semantic_key v")
    case (Some key)
    then have "\<not> semantic_eq w v" using semantic_eq_key_None [OF None] by fastforce
    with None Some show ?thesis by (simp add: quota_count_def add_quota_def)
  qed (simp add: quota_count_def add_quota_def None fallback_bump)
next
  case (Some k)
  then have "semantic_eq w v \<longleftrightarrow> semantic_key v = Some k" by (rule semantic_eq_key)
  with Some show ?thesis
    by (cases "semantic_key v") (auto simp: quota_count_def add_quota_def split: option.splits)
qed

lemma take_fallback_count:
  "case take_fallback c qs of
     None \<Rightarrow> fallback_count c qs = 0
   | Some qs' \<Rightarrow> 0 < fallback_count c qs
       \<and> (\<forall>w. fallback_count w qs' = fallback_count w qs - of_bool (semantic_eq w c))"
proof (induction qs)
  case (Cons q qs)
  show ?case
  proof (cases "0 < snd q \<and> semantic_eq c (fst q)")
    case True
    have "semantic_eq w (fst q) \<longleftrightarrow> semantic_eq w c" for w
      using True semantic_eq_trans(1) semantic_eq_sym(1) by blast
    with True show ?thesis by (auto simp: fallback_count_def)
  next
    case False
    show ?thesis
    proof (cases "take_fallback c qs")
      case None
      with Cons False show ?thesis by (auto simp: fallback_count_def)
    next
      case (Some qs')
      have w: "fallback_count w (q # qs') = fallback_count w (q # qs) - of_bool (semantic_eq w c)" for w
      proof -
        have "fallback_count w qs' = fallback_count w qs - of_bool (semantic_eq w c)"
          using Cons Some by simp
        moreover have "0 < fallback_count w qs" if "semantic_eq w c"
        proof -
          have "semantic_eq w (fst p) \<longleftrightarrow> semantic_eq c (fst p)" for p :: "dm_value \<times> nat"
            using that semantic_eq_trans(1) semantic_eq_sym(1) by blast
          then have "fallback_count w qs = fallback_count c qs" by (simp add: fallback_count_def)
          then show ?thesis using Cons Some by simp
        qed
        ultimately show ?thesis by (cases "semantic_eq w c") (auto simp: fallback_count_def)
      qed
      have "0 < fallback_count c (q # qs)" using Cons Some by (simp add: fallback_count_def)
      with w False Some show ?thesis by auto
    qed
  qed
qed (simp add: fallback_count_def)

lemma take_quota_count:
  "case take_quota c q of
     None \<Rightarrow> quota_count q c = 0
   | Some q' \<Rightarrow> 0 < quota_count q c
       \<and> (\<forall>w. quota_count q' w = quota_count q w - of_bool (semantic_eq w c))"
proof (cases "semantic_key c")
  case None
  have other: "\<not> semantic_eq w c" if "semantic_key w = Some k" for w k
    using that None semantic_eq_key by fastforce
  show ?thesis
    using take_fallback_count [of c "snd q"] None
    by (auto simp: take_quota_def quota_count_def other split: option.splits)
next
  case (Some k)
  have other: "semantic_eq w c \<longleftrightarrow> semantic_key w = Some k" for w
    using semantic_eq_key [OF Some, of w] semantic_eq_sym(1) by blast
  show ?thesis
    by (auto simp: take_quota_def quota_count_def Some other split: option.splits)
qed

text \<open>One pass over the values, dropping those the counts ask for.\<close>

primrec quota_pass :: "(dm_value \<Rightarrow> nat) \<Rightarrow> entry list \<Rightarrow> entry list" where
  "quota_pass c [] = []"
| "quota_pass c (e # es) = (if 0 < c (fst e)
     then quota_pass (\<lambda>w. c w - of_bool (semantic_eq w (fst e))) es
     else e # quota_pass c es)"

definition drop_first :: "dm_value \<Rightarrow> entry list \<Rightarrow> entry list" where
  "drop_first v es = (case vec_position (value_match v) es of None \<Rightarrow> es | Some i \<Rightarrow> delete_at i es)"

lemma drop_first_Cons: "drop_first v (e # es) = (if value_match v e then es else e # drop_first v es)"
  by (auto simp: drop_first_def delete_at_def split: option.splits)

definition class_counts :: "(dm_value \<Rightarrow> nat) \<Rightarrow> bool" where
  "class_counts c \<longleftrightarrow> (\<forall>w w'. semantic_eq w w' \<longrightarrow> c w = c w')"

lemma semantic_eq_class: "semantic_eq w w' \<Longrightarrow> semantic_eq w v \<longleftrightarrow> semantic_eq w' v"
  using semantic_eq_sym(1) [of w w'] semantic_eq_trans(1) [of w w' v] semantic_eq_trans(1) [of w' w v]
  by blast

lemma class_counts_less: "class_counts c \<Longrightarrow> class_counts (\<lambda>w. c w - of_bool (semantic_eq w v))"
  by (auto simp: class_counts_def semantic_eq_class)

lemma class_counts_more: "class_counts c \<Longrightarrow> class_counts (\<lambda>w. c w + of_bool (semantic_eq w v))"
  by (auto simp: class_counts_def semantic_eq_class)

lemma quota_pass_more:
  assumes "class_counts c"
  shows "quota_pass (\<lambda>w. c w + of_bool (semantic_eq w v)) es = drop_first v (quota_pass c es)"
  using assms
proof (induction es arbitrary: c)
  case (Cons e es)
  show ?case
  proof (cases "0 < c (fst e)")
    case True
    have "c w + of_bool (semantic_eq w v) - of_bool (semantic_eq w (fst e))
        = c w - of_bool (semantic_eq w (fst e)) + of_bool (semantic_eq w v)" for w
    proof (cases "semantic_eq w (fst e)")
      case eq: True
      then have "c w = c (fst e)" using Cons.prems by (simp add: class_counts_def)
      with True show ?thesis by simp
    qed simp
    then show ?thesis using Cons.IH [OF class_counts_less [OF Cons.prems], of "fst e"] True by simp
  next
    case False
    show ?thesis
    proof (cases "semantic_eq (fst e) v")
      case True
      have "semantic_eq w v \<longleftrightarrow> semantic_eq w (fst e)" for w
        using True semantic_eq_trans(1) semantic_eq_sym(1) by blast
      then show ?thesis using True False by (simp add: drop_first_Cons value_match_def)
    next
      case False': False
      then show ?thesis using False Cons.IH [OF Cons.prems] by (simp add: drop_first_Cons value_match_def)
    qed
  qed
qed (simp add: drop_first_def)

lemma quota_pass_none: "quota_pass (\<lambda>_. 0) es = es"
  by (induction es) simp_all

lemma class_counts_quota: "class_counts (quota_count q)"
  unfolding class_counts_def
proof (intro allI impI)
  fix w w' assume eq: "semantic_eq w w'"
  show "quota_count q w = quota_count q w'"
  proof (cases "semantic_key w")
    case None
    then have "semantic_key w' = None" using eq semantic_eq_key_None by blast
    moreover have "semantic_eq w (fst p) \<longleftrightarrow> semantic_eq w' (fst p)" for p :: "dm_value \<times> nat"
      using eq semantic_eq_trans(1) semantic_eq_sym(1) by blast
    ultimately show ?thesis using None by (simp add: quota_count_def fallback_count_def)
  next
    case (Some k)
    with eq have "semantic_key w' = Some k" using semantic_eq_key by blast
    with Some show ?thesis by (simp add: quota_count_def)
  qed
qed

lemma quota_pass_fold:
  "quota_pass (quota_count (fold add_quota vs q)) es
    = fold drop_first vs (quota_pass (quota_count q) es)"
proof (induction vs arbitrary: q)
  case (Cons v vs)
  have "quota_count (add_quota v q) = (\<lambda>w. quota_count q w + of_bool (semantic_eq w v))"
    by (rule ext) (rule add_quota_count)
  then show ?case using Cons [of "add_quota v q"] quota_pass_more [OF class_counts_quota] by simp
qed simp

lemma spec_remove_last_drop: "snd (spec_remove_last v es) = rev (drop_first v (rev es))"
proof (cases "vec_position (value_match v) (rev es)")
  case (Some i)
  then have "i < length es" by (simp add: vec_position_Some_iff)
  then have "delete_at (length es - Suc i) es = rev (delete_at i (rev es))"
    by (simp add: delete_at_def rev_take rev_drop Suc_diff_Suc)
  with Some show ?thesis by (simp add: spec_remove_last_def drop_first_def)
qed (simp add: spec_remove_last_def drop_first_def)

section \<open>Subtraction\<close>

definition spec_subtract :: "dm_value list \<Rightarrow> entry list \<Rightarrow> (value_error + nat) \<times> entry list" where
  "spec_subtract vs es = (let es' = fold (\<lambda>v es. snd (spec_remove_last v es)) vs es in
     (Inr (length es - length es'), es'))"

primrec quota_flags :: "quotas \<Rightarrow> dm_value list \<Rightarrow> bool list" where
  "quota_flags q [] = []"
| "quota_flags q (v # vs) = (case take_quota v q of
       None \<Rightarrow> False # quota_flags q vs | Some q' \<Rightarrow> True # quota_flags q' vs)"

lemma length_quota_flags [simp]: "length (quota_flags q vs) = length vs"
  by (induction vs arbitrary: q) (auto split: option.splits)

lemma subtract_flags_quota:
  assumes "\<And>e. e \<in> set es \<Longrightarrow> entry_value l e = Some (f e)"
  shows "subtract_flags l es q flags = Inr (rev (quota_flags q (map f es)) @ flags)"
  using assms by (induction es arbitrary: q flags) (auto split: option.splits)

lemma retained_quota:
  "retained (quota_flags q (map fst es)) es = quota_pass (quota_count q) es"
proof (induction es arbitrary: q)
  case (Cons e es)
  have eq: "quota_count q' = (\<lambda>w. quota_count q w - of_bool (semantic_eq w (fst e)))"
    if "take_quota (fst e) q = Some q'" for q'
    using take_quota_count [where c = "fst e" and q = q] that by auto
  show ?case
    using Cons take_quota_count [where c = "fst e" and q = q] eq
    by (auto simp: retained_Cons split: option.splits)
qed simp

lemma fold_drop_first_rev:
  "fold drop_first vs (rev es) = rev (fold (\<lambda>v es. snd (spec_remove_last v es)) vs es)"
proof (induction vs arbitrary: es)
  case (Cons v vs)
  show ?case using Cons [of "snd (spec_remove_last v es)"] by (simp add: spec_remove_last_drop)
qed simp

lemma quota_count_empty: "quota_count (Map.empty, []) = (\<lambda>_. 0)"
  by (rule ext) (simp add: quota_count_def fallback_count_def split: option.splits)

lemma retained_rev: "length flags = length xs \<Longrightarrow> retained (rev flags) (rev xs) = rev (retained flags xs)"
  by (simp add: retained_def zip_rev rev_map rev_filter)

lemma retained_append:
  "length flags = length xs \<Longrightarrow> retained (flags @ flags') (xs @ ys) = retained flags xs @ retained flags' ys"
  by (simp add: retained_def)

lemma retained_replicate: "length xs = n \<Longrightarrow> retained (replicate n True) xs = []"
  by (induction xs arbitrary: n) (auto simp: retained_Cons)

lemma map_retained: "map f (retained flags xs) = retained flags (map f xs)"
  by (simp add: retained_def zip_map2 filter_map comp_def case_prod_unfold)

lemma retained_count: "length flags = length xs \<Longrightarrow> length (filter id flags) = length xs - length (retained flags xs)"
  using sum_length_filter_compl [of id flags] by (simp add: length_retained comp_def id_def)

lemma retained_all: "length flags = length xs \<Longrightarrow> filter id flags = [] \<Longrightarrow> retained flags xs = xs"
  by (induction flags xs rule: list_induct2) (auto simp: retained_Cons split: if_splits)

lemma flags_split:
  assumes "length flags = length xs" "distinct xs"
  shows "set (map snd (filter fst (zip flags xs))) \<union> set (retained flags xs) = set xs"
    and "set (map snd (filter fst (zip flags xs))) \<inter> set (retained flags xs) = {}"
    and "distinct (retained flags xs)"
    and "length (retained flags xs) \<le> length xs"
proof -
  show "set (map snd (filter fst (zip flags xs))) \<union> set (retained flags xs) = set xs"
    using assms(1) by (induction flags xs rule: list_induct2) (auto simp: retained_Cons)
  have sub: "set (map snd (filter fst (zip flags xs))) \<subseteq> set xs" "set (retained flags xs) \<subseteq> set xs"
    if "length flags = length xs" for flags and xs :: "'a list"
    using that by (induction flags xs rule: list_induct2) (auto simp: retained_Cons)
  show "set (map snd (filter fst (zip flags xs))) \<inter> set (retained flags xs) = {}"
    using assms
  proof (induction flags xs rule: list_induct2)
    case (Cons f fs x xs)
    then show ?case using sub [OF Cons.hyps] by (auto simp: retained_Cons)
  qed simp
  show "distinct (retained flags xs)"
    using assms
  proof (induction flags xs rule: list_induct2)
    case (Cons f fs x xs)
    then show ?case using sub(2) [OF Cons.hyps] by (auto simp: retained_Cons)
  qed simp
  show "length (retained flags xs) \<le> length xs"
    using assms(1) by (simp add: length_retained length_filter_le [of Not flags, simplified assms(1)])
qed

lemma subtract_entries_spec:
  assumes inv: "list_inv sip l"
  shows "performs sip l (subtract_entries sip vs l) (spec_subtract vs (entries l)) 0"
proof (cases "vs = [] \<or> entries l = []")
  case True
  have "fold (\<lambda>v es. snd (spec_remove_last v es)) vs [] = []"
    by (induction vs) (simp_all add: spec_remove_last_def)
  then have "spec_subtract vs (entries l) = (Inr 0, entries l)"
    using True by (auto simp: spec_subtract_def)
  moreover have "subtract_entries sip vs l = Some (Inr 0, l)"
    using True by (auto simp: subtract_entries_def list_inv_len [OF inv])
  ultimately show ?thesis using inv by (simp add: performs_def)
next
  case False
  have ok: "storage_ok sip l" "prefix_head l \<le> length (list_order l)"
    using inv by (auto simp: list_inv_def prefix_ok_def)
  define q where "q = fold add_quota vs (Map.empty, [])"
  define live where "live = drop (prefix_head l) (list_order l)"
  define val where "val = (\<lambda>e. fst (show_slot (positional l) (associative l) (slot_of e)))"
  define fs where "fs = rev (quota_flags q (map fst (rev (entries l))))"
  have shown: "map (show_slot (positional l) (associative l)) (map slot_of live) = entries l"
    by (simp add: live_def entries_def drop_map [symmetric] del: map_map)
  have len: "length live = length (entries l)" using arg_cong [OF shown, of length] by simp
  have "entry_value l e = Some (val e)" if "e \<in> set (rev live)" for e
  proof -
    from that obtain i where "i < length (list_order l)" "e = list_order l ! i"
      by (metis in_set_conv_nth in_set_dropD live_def set_rev)
    then show ?thesis using entry_value_shown [OF ok(1)] by (simp add: val_def)
  qed
  moreover have "map val (rev live) = map fst (rev (entries l))"
    unfolding shown [symmetric] by (simp add: val_def rev_map)
  ultimately have flags: "subtract_flags l (rev live) q [] = Inr fs"
    using subtract_flags_quota [of "rev live" l val q "[]"] by (simp add: fs_def)
  have fs_len: "length fs = length (entries l)" by (simp add: fs_def)
  have kept: "retained fs (entries l) = fold (\<lambda>v es. snd (spec_remove_last v es)) vs (entries l)"
  proof -
    have "retained fs (entries l) = rev (quota_pass (quota_count q) (rev (entries l)))"
      using retained_rev [of "quota_flags q (map fst (rev (entries l)))" "rev (entries l)"]
      by (simp add: fs_def retained_quota)
    also have "\<dots> = rev (fold drop_first vs (rev (entries l)))"
      unfolding q_def quota_pass_fold quota_count_empty quota_pass_none ..
    finally show ?thesis by (simp add: fold_drop_first_rev)
  qed
  have spec: "spec_subtract vs (entries l) = (Inr (length (filter id fs)), retained fs (entries l))"
    by (simp add: spec_subtract_def Let_def kept [symmetric] retained_count [OF fs_len])
  define m where "m = invalidate_positional_remove_index l"
  define flags where "flags = replicate (prefix_head l) True @ fs"
  have run: "subtract_entries sip vs l = (if length (filter id fs) = 0 then Some (Inr 0, l)
      else (case mark_entries (map snd (filter fst (zip flags (list_order m)))) (no_marks m) of
          Inl e \<Rightarrow> Some (Inl e, m)
        | Inr marks \<Rightarrow> do {
            l1 \<leftarrow> compact_storage marks (retained flags (list_order m)) m;
            l2 \<leftarrow> rebuild_associative_index sip (l1\<lparr>prefix_head := 0\<rparr>);
            Some (Inr (length (filter id fs)), l2) }))"
    using False flags
    by (simp add: subtract_entries_def list_inv_len [OF inv] q_def [symmetric] live_def [symmetric]
        m_def [symmetric] flags_def [symmetric] Let_def)
  show ?thesis
  proof (cases "filter id fs = []")
    case True
    then show ?thesis using inv by (simp add: run spec performs_def retained_all [OF fs_len])
  next
    case nonempty: False
    have order: "list_order m = take (prefix_head l) (list_order l) @ live"
      by (simp add: m_def invalidate_positional_remove_index_def live_def)
    have fl: "length flags = length (list_order m)" using ok(2) fs_len len by (simp add: flags_def order)
    have kept_order: "retained flags (list_order m) = retained fs live"
      using ok(2) retained_append [of "replicate (prefix_head l) True" "take (prefix_head l) (list_order l)" fs live]
        retained_replicate [of "take (prefix_head l) (list_order l)" "prefix_head l"]
      by (simp add: flags_def order)
    have mok: "storage_ok sip m" "positional_remove_index m = None"
      using ok(1) by (simp_all add: m_def invalidate_positional_remove_index_def storage_ok_def)
    have "distinct (list_order m)" using mok(1) by (simp add: storage_ok_def slots_ok_def distinct_map)
    note split = flags_split [OF fl this]
    from mark_compact_rebuild [OF mok split] obtain marks l2 l3 where
      r: "mark_entries (map snd (filter fst (zip flags (list_order m)))) (no_marks m) = Inr marks"
        "compact_storage marks (retained flags (list_order m)) m = Some l2"
        "rebuild_associative_index sip (l2\<lparr>prefix_head := 0\<rparr>) = Some l3"
        "plain sip l3" "length (list_order l3) = length (retained flags (list_order m))"
        "entries l3 = map (show_slot (positional m) (associative m)) (map slot_of (retained flags (list_order m)))"
      by blast
    have "entries l3 = retained fs (entries l)"
      using r(6) shown unfolding kept_order map_retained
      by (simp add: m_def invalidate_positional_remove_index_def)
    moreover have "length (list_order l3) \<le> length (list_order l)"
      using r(5) split(4) by (simp add: m_def invalidate_positional_remove_index_def)
    ultimately show ?thesis using r nonempty plain_inv [OF r(4)]
      by (simp add: run spec performs_def)
  qed
qed

section \<open>Copying a range\<close>

text \<open>Copying replays the entries on a new list: \<open>add\<close> for a value, \<open>set_key\<close> for an association.\<close>

definition spec_copy_entry :: "entry \<Rightarrow> entry list \<Rightarrow> entry list" where
  "spec_copy_entry e es = (case snd e of None \<Rightarrow> es @ [e] | Some v \<Rightarrow> snd (spec_set_key (fst e) v es))"

definition spec_copy_range :: "nat \<Rightarrow> nat \<Rightarrow> entry list \<Rightarrow> value_error + entry list" where
  "spec_copy_range start stop es = (case checked_boundary start (length es) of
       Inl e \<Rightarrow> Inl e
     | Inr _ \<Rightarrow> (case checked_boundary stop (length es) of
         Inl e \<Rightarrow> Inl e
       | Inr _ \<Rightarrow> Inr (fold spec_copy_entry (take (stop - start) (drop (start - 1) es)) [])))"

lemma copy_entries_spec:
  assumes ok: "storage_ok sip l" and es: "set es \<subseteq> set (list_order l)"
    and copy: "list_inv sip copy" "length (list_order copy) + length es \<le> max_entries"
  shows "\<exists>copy'. copy_entries sip l copy es = Some (Inr copy') \<and> list_inv sip copy'
    \<and> entries copy' = fold spec_copy_entry
        (map (show_slot (positional l) (associative l)) (map slot_of es)) (entries copy)"
  using es copy
proof (induction es arbitrary: copy)
  case (Cons e es)
  obtain i where i: "i < length (list_order l)" "e = list_order l ! i"
    using Cons.prems(1) by (auto simp: in_set_conv_nth)
  have sub: "set es \<subseteq> set (list_order l)" using Cons.prems(1) by simp
  show ?case
  proof (cases "slot_of e")
    case (Pos p)
    then have p: "p < length (positional l)" using slot_shown [OF ok i(1)] i(2) by auto
    obtain c where c: "list_add (positional l ! p) copy = Some (length (entries copy) + 1, c)" "list_inv sip c"
        "entries c = entries copy @ [(positional l ! p, None)]"
        "length (list_order c) = length (list_order copy) + 1"
      using extend_spec [OF Cons.prems(2), of "[positional l ! p]"] Cons.prems(3) by (auto simp: list_add_extend)
    with Cons.IH [OF sub c(2)] Cons.prems(3) Pos p show ?thesis
      by (auto simp: order_positional_index_slot spec_copy_entry_def)
  next
    case (Asc a)
    then have a: "a < length (associative l)" using slot_shown [OF ok i(1)] i(2) by auto
    obtain k v where kv: "associative l ! a = (k, v)" by (cases "associative l ! a")
    have "length (list_order copy) < max_entries" using Cons.prems(3) by simp
    from set_key_spec [OF Cons.prems(2) this, of k v] obtain r c where
      c: "set_key sip k v copy = Some (r, c)" "list_inv sip c" "entries c = snd (spec_set_key k v (entries copy))"
        "length (list_order c) \<le> length (list_order copy) + 1" by (auto simp: performs_def)
    have "length (list_order c) + length es \<le> max_entries" using c(4) Cons.prems(3) by simp
    from Cons.IH [OF sub c(2) this] Asc a kv c show ?thesis
      by (auto simp: order_positional_index_slot order_associative_index_slot spec_copy_entry_def)
  qed
qed simp

lemma copy_range_spec:
  assumes inv: "list_inv sip l"
  shows "case copy_range sip l start stop of
      None \<Rightarrow> False
    | Some (Inl e) \<Rightarrow> spec_copy_range start stop (entries l) = Inl e
    | Some (Inr copy) \<Rightarrow> list_inv sip copy \<and> spec_copy_range start stop (entries l) = Inr (entries copy)"
proof -
  note b = checked_boundary_Inr_iff [OF list_inv_bound [OF inv]]
  have ok: "storage_ok sip l" "prefix_head l \<le> length (list_order l)"
    using inv by (auto simp: list_inv_def prefix_ok_def)
  show ?thesis
  proof (cases "checked_boundary start (length (entries l))")
    case (Inl e)
    then show ?thesis by (simp add: copy_range_def spec_copy_range_def list_inv_len [OF inv])
  next
    case start: (Inr i)
    show ?thesis
    proof (cases "checked_boundary stop (length (entries l))")
      case (Inl e)
      then show ?thesis using start by (simp add: copy_range_def spec_copy_range_def list_inv_len [OF inv])
    next
      case stop: (Inr j)
      have ij: "start = Suc i" "stop = Suc j" "i \<le> length (entries l)" "j \<le> length (entries l)"
        using start stop by (simp_all add: b)
      show ?thesis
      proof (cases "j \<le> i")
        case True
        then show ?thesis using start stop ij list_inv_new
          by (simp add: copy_range_def spec_copy_range_def list_inv_len [OF inv])
      next
        case False
        let ?h = "prefix_head l"
        let ?es = "take (j - i) (drop (?h + i) (list_order l))"
        have len: "length (entries l) = length (list_order l) - ?h"
          using list_inv_len [OF inv] by (simp add: list_len_def)
        have slice: "vec_slice (list_order l) (?h + start - 1) (?h + stop - 1) = Some ?es"
          using ij False ok(2) len by (simp add: vec_slice_def)
        have "set ?es \<subseteq> set (list_order l)" by (auto dest: in_set_takeD in_set_dropD)
        moreover have "length (list_order dm_list_new) + length ?es \<le> max_entries"
          using ok(1) unfolding storage_ok_def dm_list_new_def by simp linarith
        ultimately obtain copy where c: "copy_entries sip l dm_list_new ?es = Some (Inr copy)" "list_inv sip copy"
            "entries copy = fold spec_copy_entry
              (map (show_slot (positional l) (associative l)) (map slot_of ?es)) (entries dm_list_new)"
          using copy_entries_spec [OF ok(1) _ list_inv_new(1)] by blast
        have "map (show_slot (positional l) (associative l)) (map slot_of ?es) = take (j - i) (drop i (entries l))"
          by (simp add: entries_def take_map drop_map add.commute)
        with c start stop ij False slice show ?thesis
          by (simp add: copy_range_def spec_copy_range_def list_inv_len [OF inv] list_inv_new(2) Let_def)
      qed
    qed
  qed
qed

end
