(* ===== verification/DmListProps.thy ===== *)
theory DmListProps
  imports DmListRemoval
begin

text \<open>
  The contract of \<open>DmList\<close>: run by any sequence of its operations from the empty list, it
  behaves as the plain sequence of entries, and its fast paths agree with the slow ones.
\<close>

section \<open>Simulations\<close>

text \<open>
  A stored representation that carries out the operations of a specification, as long as the
  growth of the operations fits its capacity.
\<close>

locale bounded_simulation =
  fixes step :: "'op \<Rightarrow> 's \<Rightarrow> ('r \<times> 's) option"
    and spec :: "'op \<Rightarrow> 'a \<Rightarrow> 'r \<times> 'a"
    and inv :: "'s \<Rightarrow> bool" and view :: "'s \<Rightarrow> 'a"
    and used :: "'s \<Rightarrow> nat" and growth :: "'op \<Rightarrow> nat" and capacity :: nat
  assumes step_spec: "inv s \<Longrightarrow> used s + growth op \<le> capacity \<Longrightarrow>
      \<exists>s'. step op s = Some (fst (spec op (view s)), s') \<and> inv s'
        \<and> view s' = snd (spec op (view s)) \<and> used s' \<le> used s + growth op"
begin

primrec run :: "'op list \<Rightarrow> 's \<Rightarrow> ('r list \<times> 's) option" where
  "run [] s = Some ([], s)"
| "run (op # ops) s = do { (r, s') \<leftarrow> step op s; (rs, t) \<leftarrow> run ops s'; Some (r # rs, t) }"

primrec spec_run :: "'op list \<Rightarrow> 'a \<Rightarrow> 'r list \<times> 'a" where
  "spec_run [] a = ([], a)"
| "spec_run (op # ops) a = (let (r, a') = spec op a; (rs, b) = spec_run ops a' in (r # rs, b))"

lemma run_simulates:
  assumes "inv s" "used s + sum_list (map growth ops) \<le> capacity"
  shows "\<exists>t. run ops s = Some (fst (spec_run ops (view s)), t) \<and> inv t
    \<and> view t = snd (spec_run ops (view s))"
  using assms
proof (induction ops arbitrary: s)
  case (Cons op ops)
  obtain s' where s': "step op s = Some (fst (spec op (view s)), s')" "inv s'"
      "view s' = snd (spec op (view s))" "used s' \<le> used s + growth op"
    using step_spec [of s op] Cons.prems by auto
  with Cons.IH [of s'] Cons.prems show ?case by (auto simp: split_beta)
qed simp

end

section \<open>Operations of a list\<close>

datatype list_op =
    AddOp dm_value
  | ExtendOp "dm_value list"
  | SetOp nat dm_value
  | RemoveOp nat
  | RemoveFirstOp dm_value
  | InsertOp nat dm_value
  | CutOp nat nat
  | RemoveLastOp dm_value
  | SubtractOp "dm_value list"
  | SwapOp nat nat
  | ResizeOp nat
  | SetKeyOp dm_value dm_value
  | RemoveKeyOp dm_value

datatype list_result =
    LengthResult nat
  | ValueResult "value_error + dm_value"
  | OptionResult "dm_value option"
  | CountResult "value_error + nat"
  | UnitResult "value_error + unit"

definition returns :: "('r \<Rightarrow> list_result) \<Rightarrow> ('r \<times> 's) option \<Rightarrow> (list_result \<times> 's) option" where
  "returns f m = map_option (\<lambda>(r, s). (f r, s)) m"

fun apply_op :: "(hash_write list \<Rightarrow> u64) \<Rightarrow> list_op \<Rightarrow> dm_list \<Rightarrow> (list_result \<times> dm_list) option" where
  "apply_op sip (AddOp v) l = returns LengthResult (list_add v l)"
| "apply_op sip (ExtendOp vs) l = returns LengthResult (extend_positional vs l)"
| "apply_op sip (SetOp i v) l = returns ValueResult (list_set sip i v l)"
| "apply_op sip (RemoveOp i) l = returns ValueResult (list_remove sip i l)"
| "apply_op sip (RemoveFirstOp v) l = returns OptionResult (list_remove_first sip v l)"
| "apply_op sip (InsertOp i v) l = returns CountResult (list_insert i v l)"
| "apply_op sip (CutOp i j) l = returns CountResult (cut_range sip i j l)"
| "apply_op sip (RemoveLastOp v) l = returns OptionResult (remove_last sip v l)"
| "apply_op sip (SubtractOp vs) l = returns CountResult (subtract_entries sip vs l)"
| "apply_op sip (SwapOp i j) l = returns UnitResult (list_swap i j l)"
| "apply_op sip (ResizeOp n) l = returns UnitResult (list_resize sip n l)"
| "apply_op sip (SetKeyOp k v) l = returns OptionResult (set_key sip k v l)"
| "apply_op sip (RemoveKeyOp k) l = returns OptionResult (remove_key sip k l)"

fun spec_op :: "list_op \<Rightarrow> entry list \<Rightarrow> list_result \<times> entry list" where
  "spec_op (AddOp v) es = (LengthResult (length es + 1), es @ [(v, None)])"
| "spec_op (ExtendOp vs) es = (LengthResult (length es + length vs), es @ map (\<lambda>v. (v, None)) vs)"
| "spec_op (SetOp i v) es = map_prod ValueResult id (spec_set i v es)"
| "spec_op (RemoveOp i) es = map_prod ValueResult id (spec_remove i es)"
| "spec_op (RemoveFirstOp v) es = map_prod OptionResult id (spec_remove_first v es)"
| "spec_op (InsertOp i v) es = map_prod CountResult id (spec_insert i v es)"
| "spec_op (CutOp i j) es = map_prod CountResult id (spec_cut i j es)"
| "spec_op (RemoveLastOp v) es = map_prod OptionResult id (spec_remove_last v es)"
| "spec_op (SubtractOp vs) es = map_prod CountResult id (spec_subtract vs es)"
| "spec_op (SwapOp i j) es = map_prod UnitResult id (spec_swap i j es)"
| "spec_op (ResizeOp n) es = (UnitResult (Inr ()), spec_resize n es)"
| "spec_op (SetKeyOp k v) es = map_prod OptionResult id (spec_set_key k v es)"
| "spec_op (RemoveKeyOp k) es = map_prod OptionResult id (spec_remove_key k es)"

fun op_growth :: "list_op \<Rightarrow> nat" where
  "op_growth (AddOp v) = 1"
| "op_growth (ExtendOp vs) = length vs"
| "op_growth (InsertOp i v) = 1"
| "op_growth (ResizeOp n) = n"
| "op_growth (SetKeyOp k v) = 1"
| "op_growth op = 0"

lemma performs_returns:
  "performs sip l m (r, es) n \<Longrightarrow> performs sip l (returns f m) (f r, es) n"
  by (auto simp: performs_def returns_def)

lemma performs_map_prod:
  "performs sip l m spec n \<Longrightarrow> performs sip l (returns f m) (map_prod f id spec) n"
  by (cases spec) (auto simp: performs_def returns_def)

lemma extend_performs:
  "list_inv sip l \<Longrightarrow> length (list_order l) + length vs \<le> max_entries \<Longrightarrow>
   performs sip l (extend_positional vs l)
     (length (entries l) + length vs, entries l @ map (\<lambda>v. (v, None)) vs) (length vs)"
  using extend_spec [of sip l vs] by (auto simp: performs_def)

lemmas op_performs = list_set_spec list_remove_spec list_remove_first_spec list_insert_spec cut_range_spec
  remove_last_spec subtract_entries_spec list_swap_spec list_resize_spec set_key_spec remove_key_spec

lemma apply_op_performs:
  assumes inv: "list_inv sip l" and room: "length (list_order l) + op_growth op \<le> max_entries"
  shows "performs sip l (apply_op sip op l) (spec_op op (entries l)) (op_growth op)"
proof (cases op)
  case (AddOp v)
  with performs_returns [OF extend_performs [OF inv, of "[v]"], of LengthResult] room
  show ?thesis by (simp add: list_add_extend)
next
  case (ExtendOp vs)
  with performs_returns [OF extend_performs [OF inv, of vs], of LengthResult] room
  show ?thesis by simp
next
  case (ResizeOp n)
  with performs_returns [OF list_resize_spec [OF inv, of n], of UnitResult] room
  show ?thesis by simp
next
  case (InsertOp i v)
  with performs_map_prod [OF list_insert_spec [OF inv, of i v], of CountResult] room
  show ?thesis by simp
next
  case (SetKeyOp k v)
  with performs_map_prod [OF set_key_spec [OF inv, of k v], of OptionResult] room
  show ?thesis by simp
qed (use inv room in \<open>auto intro!: performs_map_prod op_performs\<close>)

interpretation dm: bounded_simulation "apply_op sip" spec_op "list_inv sip" entries
    "\<lambda>l. length (list_order l)" op_growth max_entries for sip
  using apply_op_performs by unfold_locales (simp add: performs_def)

text \<open>Running a sequence of operations, collecting what they return.\<close>

primrec run_ops :: "(hash_write list \<Rightarrow> u64) \<Rightarrow> list_op list \<Rightarrow> dm_list \<Rightarrow> (list_result list \<times> dm_list) option" where
  "run_ops sip [] l = Some ([], l)"
| "run_ops sip (op # ops) l = do {
     (r, l') \<leftarrow> apply_op sip op l; (rs, l'') \<leftarrow> run_ops sip ops l'; Some (r # rs, l'') }"

primrec spec_run_ops :: "list_op list \<Rightarrow> entry list \<Rightarrow> list_result list \<times> entry list" where
  "spec_run_ops [] es = ([], es)"
| "spec_run_ops (op # ops) es = (let (r, es') = spec_op op es; (rs, es'') = spec_run_ops ops es' in
     (r # rs, es''))"

lemma run_ops_run: "run_ops sip ops l = dm.run sip ops l"
  by (induction ops arbitrary: l) simp_all

lemma spec_run_ops_run: "spec_run_ops ops es = dm.spec_run ops es"
  by (induction ops arbitrary: es) simp_all


section \<open>Properties\<close>

text \<open>
  C3. Started empty, a \<open>DmList\<close> run by any sequence of its writing operations, of at most
  \<open>2^31\<close> entries in all, never panics, returns what the plain sequence of entries returns, and
  ends with the entries of that sequence: vectors, order, lazy prefix and indexes are invisible.
\<close>

theorem dm_list_refines_entries:
  assumes "sum_list (map op_growth ops) \<le> max_entries"
  shows "\<exists>l. run_ops sip ops dm_list_new = Some (fst (spec_run_ops ops []), l)
    \<and> entries l = snd (spec_run_ops ops [])"
proof -
  have "length (list_order dm_list_new) + sum_list (map op_growth ops) \<le> max_entries"
    using assms by (simp add: dm_list_new_def)
  from dm.run_simulates [OF list_inv_new(1) this] show ?thesis
    by (auto simp: run_ops_run spec_run_ops_run list_inv_new(2))
qed

theorem dm_list_refines_entries_witness:
  "\<exists>l. run_ops (\<lambda>_. 0)
      [AddOp (VText ''a''), SetKeyOp (VText ''k'') VNull, SetKeyOp (VText ''a'') (VText ''x''),
       InsertOp 1 (VText ''b''), CutOp 1 2, RemoveLastOp (VText ''k'')] dm_list_new
    = Some ([LengthResult 1, OptionResult None, OptionResult None, CountResult (Inr 1),
        CountResult (Inr 1), OptionResult (Some (VText ''k''))], l)
    \<and> entries l = [(VText ''a'', Some (VText ''x''))]"
proof -
  let ?ops = "[AddOp (VText ''a''), SetKeyOp (VText ''k'') VNull, SetKeyOp (VText ''a'') (VText ''x''),
    InsertOp 1 (VText ''b''), CutOp 1 2, RemoveLastOp (VText ''k'')]"
  have "spec_run_ops ?ops [] = ([LengthResult 1, OptionResult None, OptionResult None,
      CountResult (Inr 1), CountResult (Inr 1), OptionResult (Some (VText ''k''))],
      [(VText ''a'', Some (VText ''x''))])"
    by (simp add: spec_set_key_def assoc_match_def plain_match_def spec_insert_def spec_cut_def
        spec_remove_last_def value_match_def checked_boundary_def insert_at_def delete_at_def usize_max_def)
  with dm_list_refines_entries [of ?ops "\<lambda>_. 0"] show ?thesis by (simp add: max_entries_def)
qed

section \<open>Lists that occur\<close>

text \<open>A list some sequence of operations has built, within the size limit.\<close>

definition built_by :: "(hash_write list \<Rightarrow> u64) \<Rightarrow> list_op list \<Rightarrow> dm_list \<Rightarrow> bool" where
  "built_by sip ops l \<longleftrightarrow> sum_list (map op_growth ops) \<le> max_entries
     \<and> map_option snd (run_ops sip ops dm_list_new) = Some l"

lemma run_new_inv:
  assumes "sum_list (map op_growth ops) \<le> max_entries"
  shows "\<exists>l. run_ops sip ops dm_list_new = Some (fst (spec_run_ops ops []), l) \<and> list_inv sip l
    \<and> entries l = snd (spec_run_ops ops [])"
proof -
  have "length (list_order dm_list_new) + sum_list (map op_growth ops) \<le> max_entries"
    using assms by (simp add: dm_list_new_def)
  from dm.run_simulates [OF list_inv_new(1) this] show ?thesis
    by (auto simp: run_ops_run spec_run_ops_run list_inv_new(2))
qed

lemma built_inv: "built_by sip ops l \<Longrightarrow> list_inv sip l"
  using run_new_inv [of ops sip] by (auto simp: built_by_def)

lemma built_entries: "built_by sip ops l \<Longrightarrow> entries l = snd (spec_run_ops ops [])"
  using run_new_inv [of ops sip] by (auto simp: built_by_def)

lemma built_exists: "sum_list (map op_growth ops) \<le> max_entries \<Longrightarrow> \<exists>l. built_by sip ops l"
  using run_new_inv [of ops sip] by (auto simp: built_by_def)

lemma run_ops_append:
  "run_ops sip (ops @ ops') l = do { (rs, l') \<leftarrow> run_ops sip ops l;
     (rs', l'') \<leftarrow> run_ops sip ops' l'; Some (rs @ rs', l'') }"
proof (induction ops arbitrary: l)
  case Nil
  then show ?case by (cases "run_ops sip ops' l") auto
next
  case (Cons op ops)
  then show ?case
    by (cases "apply_op sip op l") (auto split: prod.splits simp: bind_assoc split_beta)
qed

text \<open>
  C26. On every list its operations build, the reading operations see the entry sequence:
  \<open>len\<close> is its length, \<open>get\<close> its values with the index errors, \<open>find_position\<close> the first
  equal value of a range, \<open>contains\<close> and \<open>get_key\<close> the matching entries; none panics.
\<close>

theorem dm_list_reads:
  assumes "built_by sip ops l"
  shows "list_len l = length (entries l)
    \<and> list_get l index = Some (spec_get index (entries l))
    \<and> find_position l v start stop = Some (spec_find_position v start stop (entries l))
    \<and> list_contains sip l v = Some (list_ex (value_match v) (entries l))
    \<and> get_key sip l v = spec_get_key v (entries l)"
  using built_inv [OF assms]
  by (simp add: list_inv_len list_get_spec find_position_spec list_contains_spec get_key_spec)

theorem dm_list_reads_witness:
  "\<exists>l. built_by (\<lambda>_. 7) [ExtendOp [VNull, VText ''a'', VText ''b''], CutOp 1 2, SetKeyOp (VText ''b'') VNull] l
    \<and> list_len l = 2 \<and> list_get l 2 = Some (Inr (VText ''b''))
    \<and> find_position l (VText ''b'') 1 3 = Some (Inr 2)
    \<and> list_contains (\<lambda>_. 7) l VNull = Some False
    \<and> get_key (\<lambda>_. 7) l (VText ''b'') = Inr VNull"
proof -
  let ?ops = "[ExtendOp [VNull, VText ''a'', VText ''b''], CutOp 1 2, SetKeyOp (VText ''b'') VNull]"
  obtain l where l: "built_by (\<lambda>_. 7) ?ops l"
    using built_exists [of ?ops "\<lambda>_. 7"] by (auto simp: max_entries_def)
  have es: "entries l = [(VText ''a'', None), (VText ''b'', Some VNull)]"
    using built_entries [OF l]
    by (simp add: spec_set_key_def assoc_match_def plain_match_def spec_cut_def checked_boundary_def usize_max_def)
  show ?thesis
    using dm_list_reads [OF l, of 2 "VText ''b''" 1 3] dm_list_reads [OF l, of 1 VNull 1 3] l
    by (intro exI [of _ l])
      (simp add: es spec_get_def checked_index_def spec_find_position_def checked_boundary_def
        value_match_def spec_get_key_def assoc_match_def usize_max_def numeral_2_eq_2 numeral_3_eq_3)
qed

section \<open>Keys\<close>

lemma vec_position_update_other:
  "i < length xs \<Longrightarrow> \<not> p (xs ! i) \<Longrightarrow> \<not> p y \<Longrightarrow> vec_position p (xs[i := y]) = vec_position p xs"
  by (induction xs arbitrary: i) (auto split: nat.splits)

lemma spec_get_key_match:
  "vec_position (assoc_match k) es = Some i \<Longrightarrow> spec_get_key k es = Inr (the (snd (es ! i)))"
  by (simp add: spec_get_key_def)

lemma spec_set_get_same:
  assumes "semantic_eq k k"
  shows "spec_get_key k (snd (spec_set_key k v es)) = Inr v"
proof -
  have at: "spec_get_key k (es[i := (x, Some v)]) = Inr v"
    if "vec_position (assoc_match k) es \<in> {None, Some i}" "i < length es" "semantic_eq x k" for i x
  proof -
    have "\<not> assoc_match k (es ! j)" if "j < i" for j
      using \<open>vec_position (assoc_match k) es \<in> {None, Some i}\<close> that \<open>i < length es\<close>
      by (auto simp: vec_position_Some_iff vec_position_None_iff)
    then have "vec_position (assoc_match k) (es[i := (x, Some v)]) = Some i"
      using that by (simp add: vec_position_Some_iff assoc_match_def)
    then show ?thesis using that by (simp add: spec_get_key_match)
  qed
  show ?thesis
  proof (cases "vec_position (assoc_match k) es")
    case (Some i)
    then have "i < length es" "semantic_eq (fst (es ! i)) k"
      by (auto simp: vec_position_Some_iff assoc_match_def)
    with at [of i] Some show ?thesis by (simp add: spec_set_key_def)
  next
    case none: None
    show ?thesis
    proof (cases "vec_position (plain_match k) es")
      case (Some i)
      then have "i < length es" "semantic_eq (fst (es ! i)) k"
        by (auto simp: vec_position_Some_iff plain_match_def)
      with at [of i] Some none show ?thesis by (simp add: spec_set_key_def)
    next
      case None
      have "vec_position (assoc_match k) (es @ [(k, Some v)]) = Some (length es)"
        using none assms by (simp add: vec_position_append assoc_match_def)
      with none None show ?thesis by (simp add: spec_set_key_def spec_get_key_match)
    qed
  qed
qed

lemma spec_set_get_other:
  assumes "\<not> semantic_eq k k'"
  shows "spec_get_key k' (snd (spec_set_key k v es)) = spec_get_key k' es"
proof -
  have no: "\<not> semantic_eq x k'" if "semantic_eq x k" for x
    using that assms semantic_eq_class by blast
  have upd: "spec_get_key k' (es[i := (fst (es ! i), Some v)]) = spec_get_key k' es"
    if "i < length es" "semantic_eq (fst (es ! i)) k" for i
  proof -
    have pos: "vec_position (assoc_match k') (es[i := (fst (es ! i), Some v)]) = vec_position (assoc_match k') es"
      using that no by (intro vec_position_update_other) (auto simp: assoc_match_def)
    have "j \<noteq> i" if "vec_position (assoc_match k') es = Some j" for j
      using that no \<open>semantic_eq (fst (es ! i)) k\<close> by (auto simp: vec_position_Some_iff assoc_match_def)
    then have "es[i := (fst (es ! i), Some v)] ! j = es ! j" if "vec_position (assoc_match k') es = Some j" for j
      using that by (metis nth_list_update_neq)
    then show ?thesis by (simp add: spec_get_key_def pos split: option.splits)
  qed
  show ?thesis
  proof (cases "vec_position (assoc_match k) es")
    case (Some i)
    then have "i < length es" "semantic_eq (fst (es ! i)) k"
      by (auto simp: vec_position_Some_iff assoc_match_def)
    then show ?thesis using upd Some by (simp add: spec_set_key_def)
  next
    case none: None
    show ?thesis
    proof (cases "vec_position (plain_match k) es")
      case (Some i)
      then have "i < length es" "semantic_eq (fst (es ! i)) k"
        by (auto simp: vec_position_Some_iff plain_match_def)
      then show ?thesis using upd Some none by (simp add: spec_set_key_def)
    next
      case None
      have "spec_get_key k' (es @ [(k, Some v)]) = spec_get_key k' es"
      proof (cases "vec_position (assoc_match k') es")
        case (Some j)
        then have "j < length es" by (simp add: vec_position_Some_iff)
        with Some show ?thesis by (simp add: spec_get_key_def vec_position_append nth_append)
      qed (use assms in \<open>simp add: spec_get_key_def vec_position_append assoc_match_def\<close>)
      with none None show ?thesis by (simp add: spec_set_key_def)
    qed
  qed
qed

lemma built_room:
  assumes "built_by sip ops l" "sum_list (map op_growth ops) < max_entries"
  shows "length (list_order l) < max_entries"
proof -
  have "length (list_order l') \<le> length (list_order l) + sum_list (map op_growth ops)"
    if "list_inv sip l" "length (list_order l) + sum_list (map op_growth ops) \<le> max_entries"
      "map_option snd (run_ops sip ops l) = Some l'" for l l' ops
    using that
  proof (induction ops arbitrary: l)
    case (Cons op ops)
    from apply_op_performs [of sip l op] Cons.prems obtain r m where
      "apply_op sip op l = Some (r, m)" "list_inv sip m" "length (list_order m) \<le> length (list_order l) + op_growth op"
      by (auto simp: performs_def)
    with Cons.IH [of m] Cons.prems show ?case by (cases "run_ops sip ops m") auto
  qed simp
  from this [OF list_inv_new(1), of ops l] assms show ?thesis
    by (simp add: built_by_def dm_list_new_def)
qed

text \<open>
  C27. \<open>set_key\<close> and \<open>get_key\<close> are a map up to semantic equality: after \<open>set_key k v\<close> a lookup
  of \<open>k\<close> gives \<open>v\<close>, unless \<open>k\<close> differs from itself as NaN does, and every key that is not
  equal to \<open>k\<close> finds what it found before, whether the key was new, associated or positional.
\<close>

theorem set_key_get_key:
  assumes "built_by sip ops l" and "sum_list (map op_growth ops) < max_entries"
    and "semantic_eq k k" and "\<not> semantic_eq k k'"
  shows "\<exists>r l'. set_key sip k v l = Some (r, l')
    \<and> get_key sip l' k = Inr v \<and> get_key sip l' k' = get_key sip l k'"
proof -
  note inv = built_inv [OF assms(1)]
  from set_key_spec [OF inv built_room [OF assms(1,2)], of k v] obtain r l' where
    "set_key sip k v l = Some (r, l')" "list_inv sip l'" "entries l' = snd (spec_set_key k v (entries l))"
    by (auto simp: performs_def)
  then show ?thesis
    using spec_set_get_same [OF assms(3)] spec_set_get_other [OF assms(4)]
    by (simp add: get_key_spec inv)
qed

theorem set_key_get_key_witness:
  "\<exists>l r l'. built_by (\<lambda>_. 7) [AddOp (VText ''a''), SetKeyOp (VText ''b'') (VText ''x'')] l
    \<and> set_key (\<lambda>_. 7) (VText ''a'') VNull l = Some (r, l')
    \<and> get_key (\<lambda>_. 7) l' (VText ''a'') = Inr VNull
    \<and> get_key (\<lambda>_. 7) l' (VText ''b'') = Inr (VText ''x'')"
proof -
  let ?ops = "[AddOp (VText ''a''), SetKeyOp (VText ''b'') (VText ''x'')]"
  obtain l where l: "built_by (\<lambda>_. 7) ?ops l"
    using built_exists [of ?ops "\<lambda>_. 7"] by (auto simp: max_entries_def)
  have "get_key (\<lambda>_. 7) l (VText ''b'') = Inr (VText ''x'')"
    using built_entries [OF l]
    by (simp add: get_key_spec [OF built_inv [OF l]] spec_set_key_def spec_get_key_def assoc_match_def plain_match_def)
  then show ?thesis
    using set_key_get_key [OF l, of "VText ''a''" "VText ''b''" VNull] l by (auto simp: max_entries_def)
qed

section \<open>Fast paths\<close>

text \<open>
  C28. \<open>remove_last\<close> agrees with the plain backward scan on every list, whether it builds the
  Fenwick index, uses one built before or scans itself: same returned value, same entries.
\<close>

theorem remove_last_is_scan:
  assumes "built_by sip ops l"
  shows "\<exists>r l1 l2. remove_last sip v l = Some (r, l1) \<and> remove_last_scan sip v l = Some (r, l2)
    \<and> entries l1 = entries l2"
  using remove_last_spec [OF built_inv [OF assms], of v] remove_last_scan_spec [OF built_inv [OF assms], of v]
  by (auto simp: performs_def)

theorem remove_last_is_scan_witness:
  "\<exists>l r l1 l2. built_by (\<lambda>_. 0) [ExtendOp (replicate 70 VNull), RemoveLastOp VNull] l
    \<and> remove_last (\<lambda>_. 0) VNull l = Some (r, l1) \<and> remove_last_scan (\<lambda>_. 0) VNull l = Some (r, l2)
    \<and> entries l1 = entries l2"
proof -
  obtain l where l: "built_by (\<lambda>_. 0) [ExtendOp (replicate 70 VNull), RemoveLastOp VNull] l"
    using built_exists [of "[ExtendOp (replicate 70 VNull), RemoveLastOp VNull]" "\<lambda>_. 0"]
    by (auto simp: max_entries_def)
  with remove_last_is_scan [OF l, of VNull] show ?thesis by blast
qed

text \<open>
  The hash index of the associations never changes an answer: whatever the hasher
  returns, collisions included, the indexed lookup is the linear scan for an equal key.
\<close>

theorem association_index_is_scan:
  assumes "built_by sip ops l"
  shows "association_position_for_key sip l key = scan_associations l key"
  using built_inv [OF assms]
  by (intro association_position_scan) (simp_all add: list_inv_def storage_ok_def)

theorem association_index_is_scan_witness:
  "\<exists>l. built_by (\<lambda>_. 0) (map (\<lambda>n. SetKeyOp (VNumber (of_nat n)) VNull) [0..<9]) l
    \<and> association_position_for_key (\<lambda>_. 0) l (VNumber 5) = scan_associations l (VNumber 5)"
proof -
  let ?ops = "map (\<lambda>n. SetKeyOp (VNumber (of_nat n)) VNull) [0..<9]"
  have "sum_list (map op_growth ?ops) = 9"
    by (simp add: upt_rec numeral_2_eq_2)
  then obtain l where l: "built_by (\<lambda>_. 0) ?ops l"
    using built_exists [of ?ops "\<lambda>_. 0"] by (auto simp: max_entries_def)
  with association_index_is_scan [OF l] show ?thesis by blast
qed

text \<open>
  C31. \<open>subtract_entries\<close> is repeated \<open>remove_last\<close>: one pass with quotas removes the same
  entries as removing the last match of each value in turn, and counts them.
\<close>

theorem subtract_is_repeated_remove_last:
  assumes "built_by sip ops l"
  shows "\<exists>n l1 rs l2. subtract_entries sip vs l = Some (Inr n, l1)
    \<and> run_ops sip (map RemoveLastOp vs) l = Some (rs, l2)
    \<and> entries l1 = entries l2 \<and> n + length (entries l2) = length (entries l)"
proof -
  note inv = built_inv [OF assms]
  have run: "\<exists>rs l2. run_ops sip (map RemoveLastOp vs) l = Some (rs, l2) \<and> list_inv sip l2
      \<and> entries l2 = fold (\<lambda>v es. snd (spec_remove_last v es)) vs (entries l)" if "list_inv sip l" for l
    using that
  proof (induction vs arbitrary: l)
    case (Cons v vs)
    from remove_last_spec [OF Cons.prems, of v] obtain r m where
      "remove_last sip v l = Some (r, m)" "list_inv sip m" "entries m = snd (spec_remove_last v (entries l))"
      by (auto simp: performs_def)
    with Cons.IH [of m] show ?case by (auto simp: returns_def)
  qed simp
  have le: "length (fold (\<lambda>v es. snd (spec_remove_last v es)) vs es) \<le> length es" for es :: "entry list"
  proof (induction vs arbitrary: es)
    case (Cons v vs)
    have "length (snd (spec_remove_last v es)) \<le> length es"
      by (auto simp: spec_remove_last_def vec_position_Some_iff split: option.splits)
    with Cons [of "snd (spec_remove_last v es)"] show ?case by simp
  qed simp
  from subtract_entries_spec [OF inv, of vs] obtain l1 where
    "subtract_entries sip vs l = Some (fst (spec_subtract vs (entries l)), l1)"
    "entries l1 = snd (spec_subtract vs (entries l))" by (auto simp: performs_def)
  with run [OF inv] le [of "entries l"] show ?thesis by (fastforce simp: spec_subtract_def Let_def)
qed

theorem subtract_is_repeated_remove_last_witness:
  "\<exists>l n l1 rs l2. built_by (\<lambda>_. 0) [ExtendOp [VNull, VText ''a'', VNull]] l
    \<and> subtract_entries (\<lambda>_. 0) [VNull, VNull, VNull] l = Some (Inr n, l1)
    \<and> run_ops (\<lambda>_. 0) (map RemoveLastOp [VNull, VNull, VNull]) l = Some (rs, l2)
    \<and> entries l1 = entries l2 \<and> n + length (entries l2) = 3"
proof -
  obtain l where l: "built_by (\<lambda>_. 0) [ExtendOp [VNull, VText ''a'', VNull]] l"
    using built_exists [of "[ExtendOp [VNull, VText ''a'', VNull]]" "\<lambda>_. 0"] by (auto simp: max_entries_def)
  then have "length (entries l) = 3" using built_entries [OF l] by simp
  with subtract_is_repeated_remove_last [OF l, of "[VNull, VNull, VNull]"] l show ?thesis
    by metis
qed

section \<open>Copying\<close>

lemma copy_entries_exact:
  assumes "\<And>i j. i < j \<Longrightarrow> j < length es \<Longrightarrow> snd (es ! j) \<noteq> None \<Longrightarrow> \<not> semantic_eq (fst (es ! i)) (fst (es ! j))"
  shows "fold spec_copy_entry es [] = es"
  using assms
proof (induction es rule: rev_induct)
  case (snoc e es)
  have "fold spec_copy_entry es [] = es"
  proof (rule snoc.IH)
    fix i j assume "i < j" "j < length es" "snd (es ! j) \<noteq> None"
    then show "\<not> semantic_eq (fst (es ! i)) (fst (es ! j))"
      using snoc.prems [of i j] by (simp add: nth_append)
  qed
  moreover have "spec_copy_entry e es = es @ [e]"
  proof (cases "snd e")
    case (Some v)
    have "\<not> semantic_eq (fst x) (fst e)" if "x \<in> set es" for x
      using that snoc.prems [of _ "length es"] Some by (auto simp: in_set_conv_nth nth_append)
    then have "vec_position (assoc_match (fst e)) es = None" "vec_position (plain_match (fst e)) es = None"
      by (auto simp: vec_position_None_iff assoc_match_def plain_match_def)
    then show ?thesis using Some by (cases e) (simp add: spec_copy_entry_def spec_set_key_def)
  qed (simp add: spec_copy_entry_def)
  ultimately show ?case by simp
qed simp

text \<open>
  \<open>copy_range\<close> copies the entries of the range, associations included, whenever no value
  of the range stands before an association with an equal key.
\<close>

theorem copy_range_exact:
  assumes "built_by sip ops l" and "0 < start" "start \<le> stop" "stop \<le> length (entries l) + 1"
    and "\<forall>i < stop - 1. \<forall>j < stop - 1. start - 1 \<le> i \<longrightarrow> i < j \<longrightarrow> snd (entries l ! j) \<noteq> None
      \<longrightarrow> \<not> semantic_eq (fst (entries l ! i)) (fst (entries l ! j))"
  shows "\<exists>copy. copy_range sip l start stop = Some (Inr copy)
    \<and> entries copy = take (stop - start) (drop (start - 1) (entries l))"
proof -
  let ?es = "take (stop - start) (drop (start - 1) (entries l))"
  note inv = built_inv [OF assms(1)]
  have "fold spec_copy_entry ?es [] = ?es"
  proof (rule copy_entries_exact)
    fix i j assume "i < j" "j < length ?es" "snd (?es ! j) \<noteq> None"
    then show "\<not> semantic_eq (fst (?es ! i)) (fst (?es ! j))"
      using assms(2-4) assms(5) [rule_format, of "start - 1 + i" "start - 1 + j"] by simp
  qed
  moreover have "checked_boundary start (length (entries l)) = Inr (start - 1)"
      "checked_boundary stop (length (entries l)) = Inr (stop - 1)"
    using assms(2-4) list_inv_bound [OF inv] by (auto simp: checked_boundary_def)
  ultimately have "spec_copy_range start stop (entries l) = Inr ?es" by (simp add: spec_copy_range_def)
  with copy_range_spec [OF inv, of start stop] show ?thesis
    by (auto split: option.splits sum.splits)
qed

theorem copy_range_exact_witness:
  "\<exists>l copy. built_by (\<lambda>_. 0) [SetKeyOp (VText ''a'') VNull, AddOp (VText ''a'')] l
    \<and> copy_range (\<lambda>_. 0) l 1 3 = Some (Inr copy)
    \<and> entries copy = [(VText ''a'', Some VNull), (VText ''a'', None)]"
proof -
  obtain l where l: "built_by (\<lambda>_. 0) [SetKeyOp (VText ''a'') VNull, AddOp (VText ''a'')] l"
    using built_exists [of "[SetKeyOp (VText ''a'') VNull, AddOp (VText ''a'')]" "\<lambda>_. 0"]
    by (auto simp: max_entries_def)
  have es: "entries l = [(VText ''a'', Some VNull), (VText ''a'', None)]"
    using built_entries [OF l] by (simp add: spec_set_key_def)
  have "\<exists>copy. copy_range (\<lambda>_. 0) l 1 3 = Some (Inr copy)
      \<and> entries copy = take (3 - 1) (drop (1 - 1) (entries l))"
    by (rule copy_range_exact [OF l]) (auto simp: es less_Suc_eq numeral_2_eq_2 numeral_3_eq_3)
  with l es show ?thesis by (auto simp: numeral_2_eq_2)
qed

lemma spec_set_key_length:
  "length (snd (spec_set_key k v es)) \<le> Suc (length es)"
  "e \<in> set es \<Longrightarrow> semantic_eq (fst e) k \<Longrightarrow> length (snd (spec_set_key k v es)) = length es"
proof -
  show "length (snd (spec_set_key k v es)) \<le> Suc (length es)" by (simp add: spec_set_key_def split: option.split)
  assume e: "e \<in> set es" "semantic_eq (fst e) k"
  then obtain i where "i < length es" "es ! i = e" by (auto simp: in_set_conv_nth)
  then have "vec_position (assoc_match k) es \<noteq> None \<or> vec_position (plain_match k) es \<noteq> None"
    using e(2) by (cases "snd e") (auto simp: vec_position_None_iff assoc_match_def plain_match_def dest: nth_mem)
  then show "length (snd (spec_set_key k v es)) = length es" by (auto simp: spec_set_key_def split: option.split)
qed

lemma spec_copy_entry_length: "length (spec_copy_entry e es) \<le> Suc (length es)"
  using spec_set_key_length(1) by (simp add: spec_copy_entry_def split: option.split)

lemma spec_copy_entry_keys: "fst ` set es \<subseteq> fst ` set (spec_copy_entry e es)"
proof -
  have "fst ` set es \<subseteq> fst ` set (es[i := (fst (es ! i), x)])" for i x
  proof
    fix k assume "k \<in> fst ` set es"
    then obtain j where "j < length es" "k = fst (es ! j)" by (auto simp: in_set_conv_nth)
    then have "k = fst (es[i := (fst (es ! i), x)] ! j)" "j < length (es[i := (fst (es ! i), x)])"
      by (cases "j = i"; simp)+
    then show "k \<in> fst ` set (es[i := (fst (es ! i), x)])" by (metis image_eqI nth_mem)
  qed
  then show ?thesis by (auto simp: spec_copy_entry_def spec_set_key_def split: option.split)
qed

lemma copied_length: "length (fold spec_copy_entry es acc) \<le> length acc + length es"
proof (induction es arbitrary: acc)
  case (Cons e es)
  show ?case using Cons [of "spec_copy_entry e acc"] spec_copy_entry_length [of e acc] by simp
qed simp

lemma copied_keys: "fst ` set acc \<subseteq> fst ` set (fold spec_copy_entry es acc)"
proof (induction es arbitrary: acc)
  case (Cons e es)
  show ?case using Cons [of "spec_copy_entry e acc"] spec_copy_entry_keys [of acc e] by auto
qed simp

lemma copied_drops:
  assumes "es = xs @ (k, None) # ys @ (k', Some v) # zs" "semantic_eq k k'"
  shows "length (fold spec_copy_entry es []) < length es"
proof -
  let ?a = "fold spec_copy_entry (xs @ (k, None) # ys) []"
  have "(k, None) \<in> set (spec_copy_entry (k, None) (fold spec_copy_entry xs []))" by (simp add: spec_copy_entry_def)
  then have "k \<in> fst ` set (spec_copy_entry (k, None) (fold spec_copy_entry xs []))" by force
  then have "k \<in> fst ` set ?a" using copied_keys [of _ ys] by auto
  then obtain e where "e \<in> set ?a" "fst e = k" by auto
  then have "length (spec_copy_entry (k', Some v) ?a) = length ?a"
    using spec_set_key_length(2) [of e ?a k' v] assms(2) by (simp add: spec_copy_entry_def)
  then show ?thesis using copied_length [of zs "spec_copy_entry (k', Some v) ?a"] copied_length [of "xs @ (k, None) # ys" "[]"]
    assms(1) by simp
qed

text \<open>
  C32. \<open>copy_range\<close> loses entries: in any list, when the copied range holds a positional value before
  an association with an equal key, the copy is shorter than the range, because the copy's \<open>set_key\<close>
  turns the value copied before into the association.
\<close>

theorem copy_range_drops_duplicate:
  assumes "built_by sip ops l" and "0 < start" "start \<le> stop" "stop \<le> length (entries l) + 1"
    and "take (stop - start) (drop (start - 1) (entries l)) = xs @ (k, None) # ys @ (k', Some v) # zs"
    and "semantic_eq k k'"
  shows "\<exists>copy. copy_range sip l start stop = Some (Inr copy) \<and> length (entries copy) < stop - start"
proof -
  let ?es = "take (stop - start) (drop (start - 1) (entries l))"
  note inv = built_inv [OF assms(1)]
  have "checked_boundary start (length (entries l)) = Inr (start - 1)"
      "checked_boundary stop (length (entries l)) = Inr (stop - 1)"
    using assms(2-4) list_inv_bound [OF inv] by (auto simp: checked_boundary_def)
  then have "spec_copy_range start stop (entries l) = Inr (fold spec_copy_entry ?es [])" by (simp add: spec_copy_range_def)
  moreover have "length ?es = stop - start" using assms(2-4) by simp
  ultimately show ?thesis using copied_drops [OF assms(5,6)] copy_range_spec [OF inv, of start stop]
    by (auto split: option.splits sum.splits)
qed

theorem copy_range_drops_duplicate_witness:
  "\<exists>l copy. built_by (\<lambda>_. 0) [SetKeyOp (VText ''a'') VNull, InsertOp 1 (VText ''a'')] l
    \<and> length (entries l) = 2 \<and> copy_range (\<lambda>_. 0) l 1 3 = Some (Inr copy) \<and> length (entries copy) < 3 - 1"
proof -
  let ?ops = "[SetKeyOp (VText ''a'') VNull, InsertOp 1 (VText ''a'')]"
  obtain l where l: "built_by (\<lambda>_. 0) ?ops l"
    using built_exists [of ?ops "\<lambda>_. 0"] by (auto simp: max_entries_def)
  have es: "entries l = [(VText ''a'', None), (VText ''a'', Some VNull)]"
    using built_entries [OF l]
    by (simp add: spec_set_key_def spec_insert_def checked_boundary_def insert_at_def usize_max_def)
  have "\<exists>copy. copy_range (\<lambda>_. 0) l 1 3 = Some (Inr copy) \<and> length (entries copy) < 3 - 1"
    by (rule copy_range_drops_duplicate [OF l, where xs = "[]" and k = "VText ''a''" and ys = "[]" and k' = "VText ''a''" and v = VNull and zs = "[]"])
      (simp_all add: es numeral_2_eq_2)
  then show ?thesis using l es by auto
qed

section \<open>Order entries and the removal counter\<close>

text \<open>
  Below \<open>2^31\<close> a \<open>ListOrder\<close> entry is the vector and the index it was made from.
\<close>

theorem list_order_roundtrip:
  assumes "index < 2147483648"
  shows "\<exists>p a. order_positional index = Some p \<and> order_associative index = Some a
    \<and> order_positional_index p = Some index \<and> order_associative_index p = None
    \<and> order_associative_index a = Some index \<and> order_positional_index a = None"
  using order_positional_small [OF assms] order_associative_small [OF assms]
  by (auto simp: order_associative_index_slot order_positional_index_slot)

theorem list_order_roundtrip_witness:
  "\<exists>p a. order_positional 2147483647 = Some p \<and> order_associative 2147483647 = Some a
    \<and> order_positional_index p = Some 2147483647 \<and> order_associative_index p = None
    \<and> order_associative_index a = Some 2147483647 \<and> order_positional_index a = None"
  using list_order_roundtrip [of 2147483647] by simp

lemma high_index_or:
  assumes "j < 2147483648"
  shows "(of_nat (j + 2147483648) :: u32) = of_nat j OR ASSOCIATIVE_BIT"
proof -
  have "(of_nat j :: u32) AND ASSOCIATIVE_BIT = 0"
    using small_not_bit [OF assms] by (auto simp: bit_and_iff bit_associative_bit intro!: bit_word_eqI)
  then have "of_nat j + ASSOCIATIVE_BIT = (of_nat j OR ASSOCIATIVE_BIT :: u32)" by (rule disjunctive_add_eq_or)
  then show ?thesis by (simp add: ASSOCIATIVE_BIT_def)
qed

text \<open>
  C33. \<open>ListOrder::positional\<close> checks its index against \<open>2^32\<close>, not against the \<open>2^31\<close> its
  message names: every index from \<open>2^31\<close> on is accepted and reads back as the association \<open>2^31\<close>
  places before it, and not as a positional index.
\<close>

theorem list_order_wraps:
  assumes "2147483648 \<le> index" and "index < 4294967296"
  shows "\<exists>e. order_positional index = Some e \<and> order_positional_index e = None
    \<and> order_associative_index e = Some (index - 2147483648) \<and> order_associative (index - 2147483648) = Some e"
proof -
  obtain j where j: "index = j + 2147483648" "j < 2147483648"
    using assms by (intro that [of "index - 2147483648"]) simp_all
  obtain e where e: "order_associative j = Some e" "slot_of e = Asc j" using order_associative_small [OF j(2)] by blast
  then have "e = of_nat index" using high_index_or [OF j(2)] j(1) by (simp add: order_associative_def split: if_splits)
  moreover have "index \<le> u32_max" using assms(2) by (simp add: u32_max_def)
  ultimately show ?thesis using e j(1)
    by (simp add: order_positional_def order_associative_index_slot order_positional_index_slot)
qed

theorem list_order_wraps_witness:
  "\<exists>e. order_positional 4294967295 = Some e \<and> order_associative_index e = Some 2147483647
    \<and> order_associative 2147483647 = Some e"
  using list_order_wraps [of 4294967295] by auto

primrec mark_all :: "nat list \<Rightarrow> nat list \<Rightarrow> nat list option" where
  "mark_all [] tree = Some tree"
| "mark_all (m # ms) tree = do { tree' \<leftarrow> mark_removed tree m; mark_all ms tree' }"

lemma mark_all_counts:
  assumes "tree_counts tree c"
  shows "\<exists>tree'. mark_all ms tree = Some tree' \<and> length tree' = length tree
    \<and> tree_counts tree' (\<lambda>p. c p + count_list ms p)"
  using assms
proof (induction ms arbitrary: tree c)
  case (Cons m ms)
  obtain t where t: "mark_removed tree m = Some t" "length t = length tree" "tree_counts t (c(m := c m + 1))"
    using fenwick.mark_counts [OF Cons.prems] by blast
  have "(\<lambda>p. (c(m := c m + 1)) p + count_list ms p) = (\<lambda>p. c p + count_list (m # ms) p)" by auto
  with Cons.IH [OF t(3)] t(1,2) show ?case by simp
qed simp

text \<open>
  The Fenwick tree counts: after any sequence of removals in a tree for \<open>n\<close> positions,
  \<open>removed_before p\<close> is the number of removals below \<open>p\<close>, and neither walk leaves the tree.
\<close>

theorem fenwick_removed_before:
  assumes "n < 2 ^ 62" and "p \<le> n"
  shows "Option.bind (mark_all ms (replicate (n + 1) 0)) (\<lambda>tree. removed_before tree p)
    = Some (length (filter (\<lambda>m. m < p) ms))"
proof -
  obtain tree where tree: "mark_all ms (replicate (n + 1) 0) = Some tree" "length tree = n + 1"
      "tree_counts tree (\<lambda>p. count_list ms p)"
    using mark_all_counts [OF tree_counts_zero [OF assms(1)], of ms] by auto
  have "(\<Sum>q < p. count_list ms q) = length (filter (\<lambda>m. m < p) ms)"
  proof (induction ms)
    case (Cons m ms)
    have "(\<Sum>q < p. count_list (m # ms) q) = (\<Sum>q < p. count_list ms q + (if q = m then 1 else 0))"
      by (rule sum.cong) auto
    with Cons show ?case by (simp add: sum.distrib)
  qed simp
  then show ?thesis using fenwick.before_sum [OF tree(3), of p] tree(1,2) assms(2) by simp
qed

theorem fenwick_removed_before_witness:
  "Option.bind (mark_all [4, 0, 6, 2] (replicate (7 + 1) 0)) (\<lambda>tree. removed_before tree 5) = Some 3"
  using fenwick_removed_before [of 7 5 "[4, 0, 6, 2]"] by (simp add: numeral_3_eq_3)

end
