(* ===== verification/HeapLaws.thy ===== *)
theory HeapLaws
  imports HeapGc ArenaLaws DatumLaws DmListProps
begin

text \<open>
  The heap as two finite maps: every operation of \<open>ValueHeap\<close> reads and writes the view that sends
  a datum handle to its type and ordered fields and a list handle to its entries. The collectors
  restrict the view to what the roots reach.
\<close>

section \<open>Reading a whole list\<close>

lemma vec_each_Some:
  "length ys = length xs \<Longrightarrow> (\<And>i. i < length xs \<Longrightarrow> f (xs ! i) = Some (ys ! i)) \<Longrightarrow> vec_each f xs = Some ys"
proof (induction xs arbitrary: ys)
  case (Cons x xs)
  then obtain y ys' where ys: "ys = y # ys'" by (cases ys) auto
  have "f x = Some y" using Cons.prems(2) [of 0] by (simp add: ys)
  moreover have "vec_each f xs = Some ys'"
  proof (rule Cons.IH)
    show "length ys' = length xs" using Cons.prems(1) by (simp add: ys)
    show "f (xs ! i) = Some (ys' ! i)" if "i < length xs" for i
      using Cons.prems(2) [of "Suc i"] that by (simp add: ys)
  qed
  ultimately show ?case by (simp add: ys)
qed simp

lemma live_slice:
  "list_inv sip l \<Longrightarrow> vec_slice (list_order l) (prefix_head l) (length (list_order l))
     = Some (drop (prefix_head l) (list_order l))"
  by (simp add: vec_slice_def list_inv_def prefix_ok_def)

lemma positions_spec:
  assumes "list_inv sip l"
  shows "\<exists>ps. positions l = Some ps \<and> map snd ps = map fst (entries l)"
proof -
  have inv: "storage_ok sip l" "prefix_head l \<le> length (list_order l)"
    using assms by (simp_all add: list_inv_def prefix_ok_def)
  have "vec_each (entry_value l) (drop (prefix_head l) (list_order l)) = Some (map fst (entries l))"
    by (rule vec_each_Some) (use inv in \<open>simp_all add: entries_def entry_value_shown\<close>)
  then show ?thesis by (simp add: positions_def live_slice [OF assms] del: upt_Suc)
qed

lemma associations_spec:
  assumes "list_inv sip l"
  shows "set (associations l) = {(k, v). (k, Some v) \<in> set (entries l)}"
proof -
  have inv: "storage_ok sip l" "prefix_ok l" using assms by (simp_all add: list_inv_def)
  show ?thesis
  proof (cases "associative l = []")
    case True
    then have "\<forall>s \<in> set (slots l). \<exists>p. s = Pos p" using inv(1) by (auto simp: storage_ok_def slots_ok_def)
    then have "\<forall>e \<in> set (entries l). snd e = None"
      by (fastforce simp: entries_def dest: in_set_dropD)
    then show ?thesis using True by (auto simp: associations_def)
  next
    case False
    then have "prefix_head l = 0" using inv(2) by (auto simp: prefix_ok_def purely_positional_def)
    then have "set (entries l) = show_slot (positional l) (associative l) `
        (Pos ` {..<length (positional l)} \<union> Asc ` {..<length (associative l)})"
      using inv(1) unfolding entries_def storage_ok_def slots_ok_def drop_0
      by (metis drop_0 list.set_map)
    then have "(k, Some v) \<in> set (entries l) \<longleftrightarrow>
        (\<exists>i < length (associative l). k = fst (associative l ! i) \<and> v = snd (associative l ! i))" for k v
      unfolding image_Un image_image by auto
    moreover have "(k, v) \<in> set (associative l) \<longleftrightarrow>
        (\<exists>i < length (associative l). k = fst (associative l ! i) \<and> v = snd (associative l ! i))" for k v
      by (auto simp: in_set_conv_nth prod_eq_iff)
    ultimately show ?thesis by (auto simp: associations_def)
  qed
qed

section \<open>The collector's visit of a list\<close>

lemma invalidate_inv:
  "list_inv sip l \<Longrightarrow> list_inv sip (invalidate_positional_remove_index l)
     \<and> entries (invalidate_positional_remove_index l) = entries l"
  by (simp add: list_inv_def storage_ok_def prefix_ok_def purely_positional_def removal_ok_def entries_def
      invalidate_positional_remove_index_def)

lemma gc_compact_list_spec:
  assumes inv: "list_inv sip l"
  shows "\<exists>l'. gc_compact_list entry_bytes shared l = Some l' \<and> list_inv sip l' \<and> entries l' = entries l"
proof (cases "should_compact_prefix_for_gc entry_bytes l")
  case False
  then show ?thesis using inv invalidate_inv [OF inv] by (simp add: gc_compact_list_def)
next
  case compact: True
  show ?thesis
  proof (cases shared)
    case False
    then show ?thesis
      using compact materialize_spec [OF inv] invalidate_inv by (auto simp: gc_compact_list_def)
  next
    case True
    let ?h = "prefix_head l" and ?P = "positional l"
    have "?h \<noteq> 0" using compact
      by (auto simp: should_compact_prefix_for_gc_def GC_LIST_PREFIX_MIN_ENTRIES_def Let_def)
    then have ok: "storage_ok sip l" "purely_positional l" "?h \<le> length (list_order l)"
      using inv by (auto simp: list_inv_def prefix_ok_def)
    have A: "associative l = []" and S: "slots l = map Pos [0..<length ?P]"
      using ok(2) by (simp_all add: purely_positional_def)
    have len: "length (list_order l) = length ?P" using storage_ok_lengths(1) [OF ok(1)] A by simp
    obtain es where es: "vec_each order_positional [0..<length (drop ?h ?P)] = Some es"
        "map slot_of es = map Pos [0..<length (drop ?h ?P)]"
      using vec_each_order_positional [of "[0..<length (drop ?h ?P)]"] storage_ok_lengths(2) [OF ok(1)]
      by fastforce
    let ?l = "dm_list_new\<lparr>positional := drop ?h ?P, list_order := es\<rparr>"
    have es_len: "length es = length ?P - ?h" using arg_cong [OF es(2), of length] by simp
    have "gc_compact_list entry_bytes shared l = Some ?l"
      using True compact es(1) ok(3) len by (simp add: gc_compact_list_def vec_slice_def)
    moreover have "list_inv sip ?l"
      using ok(1) es(2) es_len len
      by (auto simp: list_inv_def storage_ok_def prefix_ok_def removal_ok_def slots_ok_def dm_list_new_def
          keys_distinct_def index_ok_def ASSOCIATIVE_INDEX_THRESHOLD_def distinct_map inj_on_def)
    moreover have "entries ?l = entries l"
      unfolding entries_def by (rule nth_equalityI) (auto simp: es(2) S A len ok(3) dm_list_new_def)
    ultimately show ?thesis by blast
  qed
qed

section \<open>The heap as two maps\<close>

type_synonym datum_view = "string \<times> (string \<times> dm_value) list"
type_synonym heap_view = "(datum_id \<rightharpoonup> datum_view) \<times> (list_id \<rightharpoonup> entry list)"

definition show_datum :: "datum \<Rightarrow> datum_view" where
  "show_datum d = (datum_type d, datum_iter d)"

definition datum_key :: "datum_id \<Rightarrow> u32 \<times> u32" where
  "datum_key d = (datum_index d, datum_generation d)"

definition list_key :: "list_id \<Rightarrow> u32 \<times> u32" where
  "list_key l = (list_index l, list_generation l)"

definition datums_of :: "value_heap \<Rightarrow> (datum_id \<rightharpoonup> datum_view)" where
  "datums_of h = (\<lambda>d. map_option show_datum (arena_map (datum_arena h) (datum_key d)))"

definition lists_of :: "value_heap \<Rightarrow> (list_id \<rightharpoonup> entry list)" where
  "lists_of h = (\<lambda>l. map_option entries (arena_map (list_arena h) (list_key l)))"

definition view_of :: "value_heap \<Rightarrow> heap_view" where
  "view_of h = (datums_of h, lists_of h)"

definition all_live :: "('a \<Rightarrow> bool) \<Rightarrow> 'a arena \<Rightarrow> bool" where
  "all_live P a \<longleftrightarrow> (\<forall>k v. arena_map a k = Some v \<longrightarrow> P v)"

definition heap_inv :: "(hash_write list \<Rightarrow> u64) \<Rightarrow> value_heap \<Rightarrow> bool" where
  "heap_inv sip h \<longleftrightarrow> arena_inv (datum_arena h) \<and> arena_inv (list_arena h) \<and> cache_inv (datum_layouts h)
     \<and> all_live datum_inv (datum_arena h) \<and> all_live (list_inv sip) (list_arena h)"

lemma heap_invD:
  assumes "heap_inv sip h"
  shows "arena_inv (datum_arena h)" "arena_inv (list_arena h)" "cache_inv (datum_layouts h)"
    "all_live datum_inv (datum_arena h)" "all_live (list_inv sip) (list_arena h)"
  using assms by (simp_all add: heap_inv_def)

lemma datum_key_eq [simp]: "datum_key d = datum_key e \<longleftrightarrow> d = e"
  by (cases d; cases e) (simp add: datum_key_def)

lemma list_key_eq [simp]: "list_key d = list_key e \<longleftrightarrow> d = e"
  by (cases d; cases e) (simp add: list_key_def)

lemma datum_key_DatumId [simp]: "datum_key (DatumId i g) = (i, g)"
  and list_key_ListId [simp]: "list_key (ListId i g) = (i, g)"
  by (simp_all add: datum_key_def list_key_def)

lemma key_DatumId_iff: "datum_key d = (i, g) \<longleftrightarrow> d = DatumId i g"
  and key_ListId_iff: "list_key l = (i, g) \<longleftrightarrow> l = ListId i g"
  by (cases d; simp add: datum_key_def) (cases l; simp add: list_key_def)

lemma heap_datum_map:
  "heap_datum h d = (case arena_map (datum_arena h) (datum_key d) of None \<Rightarrow> Inl (StaleDatum d) | Some o' \<Rightarrow> Inr o')"
  by (simp add: heap_datum_def arena_map_def datum_key_def)

lemma heap_list_map:
  "heap_list h l = (case arena_map (list_arena h) (list_key l) of None \<Rightarrow> Inl (StaleList l) | Some o' \<Rightarrow> Inr o')"
  by (simp add: heap_list_def arena_map_def list_key_def)

lemma heap_datum_Inr: "heap_datum h d = Inr o' \<longleftrightarrow> arena_map (datum_arena h) (datum_key d) = Some o'"
  by (simp add: heap_datum_map split: option.split)

lemma heap_list_Inr: "heap_list h l = Inr o' \<longleftrightarrow> arena_map (list_arena h) (list_key l) = Some o'"
  by (simp add: heap_list_map split: option.split)

lemma all_liveD: "all_live P a \<Longrightarrow> arena_map a k = Some v \<Longrightarrow> P v"
  unfolding all_live_def by blast

lemma all_live_upd: "all_live P a \<Longrightarrow> P v \<Longrightarrow> arena_map b = (arena_map a)(k \<mapsto> v) \<Longrightarrow> all_live P b"
  by (simp add: all_live_def)

lemma all_live_drop: "all_live P a \<Longrightarrow> arena_map b = (arena_map a)(k := None) \<Longrightarrow> all_live P b"
  by (simp add: all_live_def)

lemma datums_of_upd:
  "arena_map ds = (arena_map (datum_arena h))(datum_key d \<mapsto> o') \<Longrightarrow>
   datums_of (h\<lparr>datum_arena := ds\<rparr>) = (datums_of h)(d \<mapsto> show_datum o')"
  by (rule ext) (simp add: datums_of_def)

lemma lists_of_upd:
  "arena_map ls = (arena_map (list_arena h))(list_key l \<mapsto> o') \<Longrightarrow>
   lists_of (h\<lparr>list_arena := ls\<rparr>) = (lists_of h)(l \<mapsto> entries o')"
  by (rule ext) (simp add: lists_of_def)

lemma datums_of_drop:
  "arena_map ds = (arena_map (datum_arena h))(datum_key d := None) \<Longrightarrow>
   datums_of (h\<lparr>datum_arena := ds\<rparr>) = (datums_of h)(d := None)"
  by (rule ext) (simp add: datums_of_def)

lemma lists_of_drop:
  "arena_map ls = (arena_map (list_arena h))(list_key l := None) \<Longrightarrow>
   lists_of (h\<lparr>list_arena := ls\<rparr>) = (lists_of h)(l := None)"
  by (rule ext) (simp add: lists_of_def)

lemma views_other [simp]:
  "datums_of (h\<lparr>list_arena := ls\<rparr>) = datums_of h" "lists_of (h\<lparr>datum_arena := ds\<rparr>) = lists_of h"
  "datums_of (h\<lparr>datum_layouts := c\<rparr>) = datums_of h" "lists_of (h\<lparr>datum_layouts := c\<rparr>) = lists_of h"
  by (simp_all add: datums_of_def lists_of_def)

lemma datums_of_Some: "datums_of h d = Some x \<longleftrightarrow>
    (\<exists>o'. arena_map (datum_arena h) (datum_key d) = Some o' \<and> x = show_datum o')"
  by (auto simp: datums_of_def)

lemma lists_of_Some: "lists_of h l = Some x \<longleftrightarrow>
    (\<exists>o'. arena_map (list_arena h) (list_key l) = Some o' \<and> x = entries o')"
  by (auto simp: lists_of_def)

lemma heap_new_inv: "heap_inv sip heap_new" "view_of heap_new = (Map.empty, Map.empty)"
  by (auto simp: heap_inv_def heap_new_def arena_new_inv layout_cache_new_inv all_live_def arena_new_map
      view_of_def datums_of_def lists_of_def)

section \<open>Handles that will never resolve again\<close>

fun heap_dead :: "value_heap \<Rightarrow> pending \<Rightarrow> bool" where
  "heap_dead h (PendingDatum d) = dead (datum_arena h) (datum_key d)"
| "heap_dead h (PendingList l) = dead (list_arena h) (list_key l)"

text \<open>What every operation keeps: the invariant, and dead handles dead.\<close>

definition heap_kept :: "(hash_write list \<Rightarrow> u64) \<Rightarrow> value_heap \<Rightarrow> value_heap \<Rightarrow> bool" where
  "heap_kept sip h h' \<longleftrightarrow> heap_inv sip h' \<and> (\<forall>p. heap_dead h p \<longrightarrow> heap_dead h' p)"

lemma heap_kept_datums:
  assumes "heap_inv sip h" "arena_inv ds" "all_live datum_inv ds" "\<forall>k. dead (datum_arena h) k \<longrightarrow> dead ds k"
    "cache_inv c"
  shows "heap_kept sip h (h\<lparr>datum_arena := ds, datum_layouts := c\<rparr>)"
proof -
  have "heap_dead h p \<longrightarrow> heap_dead (h\<lparr>datum_arena := ds, datum_layouts := c\<rparr>) p" for p
    using assms(4) by (cases p) (auto simp del: split_paired_All)
  then show ?thesis using assms(1,2,3,5) by (simp add: heap_kept_def heap_inv_def)
qed

lemma heap_kept_datum_arena:
  assumes "heap_inv sip h" "arena_inv ds" "all_live datum_inv ds" "\<forall>k. dead (datum_arena h) k \<longrightarrow> dead ds k"
  shows "heap_kept sip h (h\<lparr>datum_arena := ds\<rparr>)"
  using heap_kept_datums [OF assms heap_invD(3) [OF assms(1)]] by simp

lemma heap_kept_list_arena:
  assumes "heap_inv sip h" "arena_inv ls" "all_live (list_inv sip) ls" "\<forall>k. dead (list_arena h) k \<longrightarrow> dead ls k"
  shows "heap_kept sip h (h\<lparr>list_arena := ls\<rparr>)"
proof -
  have "heap_dead h p \<longrightarrow> heap_dead (h\<lparr>list_arena := ls\<rparr>) p" for p
    using assms(4) by (cases p) (auto simp del: split_paired_All)
  then show ?thesis using assms(1,2,3) by (simp add: heap_kept_def heap_inv_def)
qed

section \<open>Reads and writes through a handle\<close>

lemma list_write:
  assumes inv: "heap_inv sip h" and o': "arena_map (list_arena h) (list_key l) = Some x" "list_inv sip y"
  shows "\<exists>ls. arena_modify (list_index l) (list_generation l) (\<lambda>_. y) (list_arena h) = Some ls
    \<and> heap_kept sip h (h\<lparr>list_arena := ls\<rparr>)
    \<and> view_of (h\<lparr>list_arena := ls\<rparr>) = (datums_of h, (lists_of h)(l \<mapsto> entries y))"
proof -
  obtain ls where ls: "arena_modify (list_index l) (list_generation l) (\<lambda>_. y) (list_arena h) = Some ls"
      "arena_inv ls" "arena_map ls = (arena_map (list_arena h))(list_key l \<mapsto> y)"
      "\<forall>k. dead (list_arena h) k \<longrightarrow> dead ls k"
    using arena.edit_law [OF heap_invD(2) [OF inv] o'(1), of "\<lambda>_. y"] unfolding list_key_def prod.case by blast
  moreover have "all_live (list_inv sip) ls" using all_live_upd [OF heap_invD(5) [OF inv] o'(2) ls(3)] .
  ultimately show ?thesis
    using heap_kept_list_arena [OF inv] lists_of_upd [OF ls(3)] by (intro exI [of _ ls]) (simp add: view_of_def)
qed

lemma datum_write:
  assumes inv: "heap_inv sip h" and o': "arena_map (datum_arena h) (datum_key d) = Some x" "datum_inv y"
    and c: "cache_inv c"
  shows "\<exists>ds. arena_modify (datum_index d) (datum_generation d) (\<lambda>_. y) (datum_arena h) = Some ds
    \<and> heap_kept sip h (h\<lparr>datum_arena := ds, datum_layouts := c\<rparr>)
    \<and> heap_kept sip h (h\<lparr>datum_arena := ds\<rparr>)
    \<and> datums_of (h\<lparr>datum_arena := ds\<rparr>) = (datums_of h)(d \<mapsto> show_datum y)"
proof -
  obtain ds where ds: "arena_modify (datum_index d) (datum_generation d) (\<lambda>_. y) (datum_arena h) = Some ds"
      "arena_inv ds" "arena_map ds = (arena_map (datum_arena h))(datum_key d \<mapsto> y)"
      "\<forall>k. dead (datum_arena h) k \<longrightarrow> dead ds k"
    using arena.edit_law [OF heap_invD(1) [OF inv] o'(1), of "\<lambda>_. y"] unfolding datum_key_def prod.case by blast
  moreover have "all_live datum_inv ds" using all_live_upd [OF heap_invD(4) [OF inv] o'(2) ds(3)] .
  ultimately show ?thesis
    using heap_kept_datums [OF inv _ _ _ c] heap_kept_datum_arena [OF inv] datums_of_upd [OF ds(3)]
    by (intro exI [of _ ds]) simp
qed

lemma list_insert_arena:
  assumes inv: "heap_inv sip h" and room: "arena_room (list_arena h)" and y: "list_inv sip y"
  shows "\<exists>i g ls. arena_insert y (list_arena h) = Some ((i, g), ls)
    \<and> heap_kept sip h (h\<lparr>list_arena := ls\<rparr>) \<and> lists_of h (ListId i g) = None
    \<and> view_of (h\<lparr>list_arena := ls\<rparr>) = (datums_of h, (lists_of h)(ListId i g \<mapsto> entries y))"
proof -
  obtain i g ls where ls: "arena_insert y (list_arena h) = Some ((i, g), ls)" "arena_inv ls"
      "arena_map (list_arena h) (i, g) = None" "arena_map ls = (arena_map (list_arena h))((i, g) \<mapsto> y)"
    using arena_insert_some [OF heap_invD(2) [OF inv] room] by blast
  have m: "arena_map ls = (arena_map (list_arena h))(list_key (ListId i g) \<mapsto> y)" using ls(4) by simp
  have "\<forall>k. dead (list_arena h) k \<longrightarrow> dead ls k"
    using arena.put_gone [OF heap_invD(2) [OF inv] ls(1)] by blast
  then have "heap_kept sip h (h\<lparr>list_arena := ls\<rparr>)"
    using heap_kept_list_arena [OF inv ls(2) all_live_upd [OF heap_invD(5) [OF inv] y ls(4)]] by blast
  then show ?thesis
    using ls(1,3) lists_of_upd [OF m] by (intro exI [of _ i] exI [of _ g] exI [of _ ls]) (simp add: view_of_def lists_of_def)
qed

lemma datum_insert_arena:
  assumes inv: "heap_inv sip h" and room: "arena_room (datum_arena h)" and y: "datum_inv y" and c: "cache_inv c"
  shows "\<exists>i g ds. arena_insert y (datum_arena h) = Some ((i, g), ds)
    \<and> heap_kept sip h (h\<lparr>datum_arena := ds, datum_layouts := c\<rparr>) \<and> heap_kept sip h (h\<lparr>datum_arena := ds\<rparr>)
    \<and> datums_of h (DatumId i g) = None
    \<and> datums_of (h\<lparr>datum_arena := ds\<rparr>) = (datums_of h)(DatumId i g \<mapsto> show_datum y)"
proof -
  obtain i g ds where ds: "arena_insert y (datum_arena h) = Some ((i, g), ds)" "arena_inv ds"
      "arena_map (datum_arena h) (i, g) = None" "arena_map ds = (arena_map (datum_arena h))((i, g) \<mapsto> y)"
    using arena_insert_some [OF heap_invD(1) [OF inv] room] by blast
  have m: "arena_map ds = (arena_map (datum_arena h))(datum_key (DatumId i g) \<mapsto> y)" using ds(4) by simp
  have dead: "\<forall>k. dead (datum_arena h) k \<longrightarrow> dead ds k"
    using arena.put_gone [OF heap_invD(1) [OF inv] ds(1)] by blast
  note live = all_live_upd [OF heap_invD(4) [OF inv] y ds(4)]
  show ?thesis
    using ds(1,3) datums_of_upd [OF m] heap_kept_datums [OF inv ds(2) live dead c]
      heap_kept_datum_arena [OF inv ds(2) live dead]
    by (intro exI [of _ i] exI [of _ g] exI [of _ ds]) (simp add: datums_of_def)
qed

text \<open>Destruction.\<close>

lemma list_remove_arena:
  assumes inv: "heap_inv sip h"
  shows "\<exists>ls. arena_remove (list_index l) (list_generation l) (list_arena h) =
      Some (arena_map (list_arena h) (list_key l), ls)
    \<and> heap_kept sip h (h\<lparr>list_arena := ls\<rparr>)
    \<and> view_of (h\<lparr>list_arena := ls\<rparr>) = (datums_of h, (lists_of h)(l := None))
    \<and> (lists_of h l \<noteq> None \<longrightarrow> heap_dead (h\<lparr>list_arena := ls\<rparr>) (PendingList l))"
proof -
  obtain ls where ls: "arena_remove (list_index l) (list_generation l) (list_arena h) =
        Some (arena_map (list_arena h) (list_key l), ls)"
      "arena_inv ls" "arena_map ls = (arena_map (list_arena h))(list_key l := None)"
      "\<forall>k. dead (list_arena h) k \<longrightarrow> dead ls k"
      "arena_map (list_arena h) (list_key l) \<noteq> None \<longrightarrow> dead ls (list_key l)"
    using arena.drop_law [OF heap_invD(2) [OF inv], of "list_key l"] unfolding list_key_def prod.case by blast
  have "heap_kept sip h (h\<lparr>list_arena := ls\<rparr>)"
    using heap_kept_list_arena [OF inv ls(2) all_live_drop [OF heap_invD(5) [OF inv] ls(3)] ls(4)] .
  then show ?thesis
    using ls(1,5) lists_of_drop [OF ls(3)] by (intro exI [of _ ls]) (simp add: view_of_def lists_of_def)
qed

lemma datum_remove_arena:
  assumes inv: "heap_inv sip h"
  shows "\<exists>ds. arena_remove (datum_index d) (datum_generation d) (datum_arena h) =
      Some (arena_map (datum_arena h) (datum_key d), ds)
    \<and> heap_kept sip h (h\<lparr>datum_arena := ds\<rparr>)
    \<and> view_of (h\<lparr>datum_arena := ds\<rparr>) = ((datums_of h)(d := None), lists_of h)
    \<and> (datums_of h d \<noteq> None \<longrightarrow> heap_dead (h\<lparr>datum_arena := ds\<rparr>) (PendingDatum d))"
proof -
  obtain ds where ds: "arena_remove (datum_index d) (datum_generation d) (datum_arena h) =
        Some (arena_map (datum_arena h) (datum_key d), ds)"
      "arena_inv ds" "arena_map ds = (arena_map (datum_arena h))(datum_key d := None)"
      "\<forall>k. dead (datum_arena h) k \<longrightarrow> dead ds k"
      "arena_map (datum_arena h) (datum_key d) \<noteq> None \<longrightarrow> dead ds (datum_key d)"
    using arena.drop_law [OF heap_invD(1) [OF inv], of "datum_key d"] unfolding datum_key_def prod.case by blast
  have "heap_kept sip h (h\<lparr>datum_arena := ds\<rparr>)"
    using heap_kept_datum_arena [OF inv ds(2) all_live_drop [OF heap_invD(4) [OF inv] ds(3)] ds(4)] .
  then show ?thesis
    using ds(1,5) datums_of_drop [OF ds(3)] by (intro exI [of _ ds]) (simp add: view_of_def datums_of_def)
qed

section \<open>Operations\<close>

text \<open>A datum operation that carries out a change of the fields.\<close>

lemma datum_update_spec:
  assumes inv: "heap_inv sip h"
    and f: "\<And>x. datum_inv x \<Longrightarrow> \<exists>y. f x = Some (r x, y) \<and> datum_inv y \<and> show_datum y = g (show_datum x)"
  shows "\<exists>h'. datum_update d f h = Some (case arena_map (datum_arena h) (datum_key d) of
        None \<Rightarrow> Inl (StaleDatum d) | Some x \<Rightarrow> Inr (r x), h')
    \<and> heap_kept sip h h' \<and> view_of h' = ((datums_of h)(d := map_option g (datums_of h d)), lists_of h)"
proof (cases "arena_map (datum_arena h) (datum_key d)")
  case None
  then have "datums_of h d = None" by (simp add: datums_of_def)
  moreover have "heap_kept sip h h" using inv by (simp add: heap_kept_def)
  ultimately show ?thesis using None
    by (simp add: datum_update_def heap_datum_map view_of_def fun_upd_idem)
next
  case (Some x)
  have x: "datum_inv x" using all_liveD [OF heap_invD(4) [OF inv] Some] .
  obtain y where y: "f x = Some (r x, y)" "datum_inv y" "show_datum y = g (show_datum x)" using f [OF x] by blast
  obtain ds where "arena_modify (datum_index d) (datum_generation d) (\<lambda>_. y) (datum_arena h) = Some ds"
      "heap_kept sip h (h\<lparr>datum_arena := ds\<rparr>)"
      "datums_of (h\<lparr>datum_arena := ds\<rparr>) = (datums_of h)(d \<mapsto> show_datum y)"
    using datum_write [OF inv Some y(2) heap_invD(3) [OF inv]] by blast
  then show ?thesis
    using Some y by (intro exI [of _ "h\<lparr>datum_arena := ds\<rparr>"])
      (simp add: datum_update_def heap_datum_map view_of_def datums_of_def)
qed

lemma apply_layers_spec:
  "datum_inv d \<Longrightarrow> \<exists>d'. apply_layers layers d = Some d' \<and> datum_inv d' \<and> datum_type d' = datum_type d
    \<and> datum_iter d' = foldl (\<lambda>al (n, v). AList.update n v al) (datum_iter d) (concat (map defaults_fields layers))"
proof (induction layers arbitrary: d)
  case (Cons layer layers)
  obtain d1 where d1: "apply_defaults layer d = Some d1" "datum_inv d1" "datum_type d1 = datum_type d"
      "datum_iter d1 = foldl (\<lambda>al (n, v). AList.update n v al) (datum_iter d) (defaults_fields layer)"
    using apply_default_fields_spec [OF Cons.prems] unfolding apply_defaults_def by blast
  from Cons.IH [OF d1(2)] show ?case using d1 by auto
qed simp

end
