(* ===== verification/HeapGcLaws.thy ===== *)
theory HeapGcLaws
  imports HeapLaws
begin

text \<open>
  Exactness of the collectors: the marked objects are those the roots reach, so a sweep keeps
  exactly them.
\<close>

section \<open>Reachability over the view\<close>

fun value_refs :: "dm_value \<Rightarrow> pending set"
  and override_refs :: "(string \<times> dm_value) list \<Rightarrow> pending set" where
  "value_refs (VDatum d) = {PendingDatum d}"
| "value_refs (VList l) = {PendingList l}"
| "value_refs (VModifiedTypePath b os) = override_refs os"
| "value_refs VNull = {}"
| "value_refs (VNumber n) = {}"
| "value_refs (VText t) = {}"
| "value_refs (VFile p) = {}"
| "value_refs (VTypePath p) = {}"
| "override_refs [] = {}"
| "override_refs ((n, v) # os) = value_refs v \<union> override_refs os"

definition values_refs :: "dm_value list \<Rightarrow> pending set" where
  "values_refs vs = (\<Union>v \<in> set vs. value_refs v)"

lemma values_refs_simps [simp]:
  "values_refs [] = {}" "values_refs (v # vs) = value_refs v \<union> values_refs vs"
  "values_refs (vs @ ws) = values_refs vs \<union> values_refs ws"
  by (auto simp: values_refs_def)

text \<open>What a field list and a list of entries refer to.\<close>

definition entry_values :: "entry list \<Rightarrow> dm_value list" where
  "entry_values es = map fst es @ List.map_filter snd es"

fun object_refs :: "heap_view \<Rightarrow> pending \<Rightarrow> pending set" where
  "object_refs (D, L) (PendingDatum d) = (case D d of None \<Rightarrow> {} | Some (t, fs) \<Rightarrow> values_refs (map snd fs))"
| "object_refs (D, L) (PendingList l) = (case L l of None \<Rightarrow> {} | Some es \<Rightarrow> values_refs (entry_values es))"

fun in_view :: "heap_view \<Rightarrow> pending \<Rightarrow> bool" where
  "in_view (D, L) (PendingDatum d) \<longleftrightarrow> D d \<noteq> None"
| "in_view (D, L) (PendingList l) \<longleftrightarrow> L l \<noteq> None"

inductive_set reached :: "heap_view \<Rightarrow> pending set \<Rightarrow> pending set"
  for V :: heap_view and R :: "pending set" where
  root: "p \<in> R \<Longrightarrow> in_view V p \<Longrightarrow> p \<in> reached V R"
| step: "p \<in> reached V R \<Longrightarrow> q \<in> object_refs V p \<Longrightarrow> in_view V q \<Longrightarrow> q \<in> reached V R"

lemma reached_least:
  assumes "\<And>p. p \<in> R \<Longrightarrow> in_view V p \<Longrightarrow> p \<in> M"
    and "\<And>p q. p \<in> M \<Longrightarrow> q \<in> object_refs V p \<Longrightarrow> in_view V q \<Longrightarrow> q \<in> M"
  shows "reached V R \<subseteq> M"
proof
  fix p assume "p \<in> reached V R"
  then show "p \<in> M" by induction (use assms in blast)+
qed

section \<open>Marks\<close>

fun marked_in :: "gc_state \<Rightarrow> pending \<Rightarrow> bool" where
  "marked_in st (PendingDatum d) \<longleftrightarrow> unat (datum_index d) < length (marked_datums st)
     \<and> marked_datums st ! unat (datum_index d)"
| "marked_in st (PendingList l) \<longleftrightarrow> unat (list_index l) < length (marked_lists st)
     \<and> marked_lists st ! unat (list_index l)"

lemma marked_in_pending [simp]: "marked_in (st\<lparr>pending_ids := ps\<rparr>) p = marked_in st p"
  by (cases p) simp_all

definition marked_set :: "value_heap \<Rightarrow> gc_state \<Rightarrow> pending set" where
  "marked_set h st = {p. in_view (view_of h) p \<and> marked_in st p}"

definition sized :: "value_heap \<Rightarrow> gc_state \<Rightarrow> bool" where
  "sized h st \<longleftrightarrow> length (marked_datums st) = slot_len (datum_arena h)
     \<and> length (marked_lists st) = slot_len (list_arena h)"

text \<open>The marks grow by exactly \<open>N\<close>, and what is new is pending.\<close>

definition gc_grows :: "value_heap \<Rightarrow> pending set \<Rightarrow> gc_state \<Rightarrow> gc_state \<Rightarrow> bool" where
  "gc_grows h N st st' \<longleftrightarrow> (sized h st \<longrightarrow> sized h st' \<and> marked_set h st' = marked_set h st \<union> {p \<in> N. in_view (view_of h) p}
     \<and> set (pending_ids st') = set (pending_ids st) \<union> (marked_set h st' - marked_set h st))"

lemma gc_grows_refl: "gc_grows h {} st st"
  by (auto simp: gc_grows_def)

lemma gc_grows_trans: "gc_grows h N st st' \<Longrightarrow> gc_grows h M st' st'' \<Longrightarrow> gc_grows h (N \<union> M) st st''"
  by (auto simp: gc_grows_def)

lemma in_view_datum: "in_view (view_of h) (PendingDatum d) \<longleftrightarrow> \<not> isl (heap_datum h d)"
  by (auto simp: view_of_def datums_of_def heap_datum_map split: option.split)

lemma in_view_list: "in_view (view_of h) (PendingList l) \<longleftrightarrow> \<not> isl (heap_list h l)"
  by (auto simp: view_of_def lists_of_def heap_list_map split: option.split)

lemma live_datum_index:
  assumes inv: "heap_inv sip h" and v: "in_view (view_of h) (PendingDatum d)"
  shows "unat (datum_index d) < slot_len (datum_arena h)"
    "in_view (view_of h) (PendingDatum e) \<Longrightarrow> datum_index e = datum_index d \<Longrightarrow> e = d"
proof -
  note D = arena_invD [OF heap_invD(1) [OF inv]]
  obtain x where x: "arena_map (datum_arena h) (datum_index d, datum_generation d) = Some x"
    using v by (auto simp: view_of_def datums_of_def datum_key_def)
  then show "unat (datum_index d) < slot_len (datum_arena h)" using D(1,2) by (simp add: arena_map_Some)
  show "e = d" if "in_view (view_of h) (PendingDatum e)" "datum_index e = datum_index d"
    using that arena_map_generation [OF D(1) x, of "datum_generation e"]
    by (cases d; cases e) (auto simp: view_of_def datums_of_def datum_key_def)
qed

lemma live_list_index:
  assumes inv: "heap_inv sip h" and v: "in_view (view_of h) (PendingList l)"
  shows "unat (list_index l) < slot_len (list_arena h)"
    "in_view (view_of h) (PendingList m) \<Longrightarrow> list_index m = list_index l \<Longrightarrow> m = l"
proof -
  note D = arena_invD [OF heap_invD(2) [OF inv]]
  obtain x where x: "arena_map (list_arena h) (list_index l, list_generation l) = Some x"
    using v by (auto simp: view_of_def lists_of_def list_key_def)
  then show "unat (list_index l) < slot_len (list_arena h)" using D(1,2) by (simp add: arena_map_Some)
  show "m = l" if "in_view (view_of h) (PendingList m)" "list_index m = list_index l"
    using that arena_map_generation [OF D(1) x, of "list_generation m"]
    by (cases l; cases m) (auto simp: view_of_def lists_of_def list_key_def)
qed

text \<open>Setting the mark of one live object.\<close>

lemma mark_datum_grows:
  assumes inv: "heap_inv sip h" and v: "in_view (view_of h) (PendingDatum d)"
    and new: "\<not> marked_datums st ! unat (datum_index d)"
  shows "gc_grows h {PendingDatum d} st (st\<lparr>marked_datums := (marked_datums st)[unat (datum_index d) := True],
    pending_ids := pending_ids st @ [PendingDatum d]\<rparr>)"
proof -
  let ?st = "st\<lparr>marked_datums := (marked_datums st)[unat (datum_index d) := True],
    pending_ids := pending_ids st @ [PendingDatum d]\<rparr>"
  have "marked_set h ?st = insert (PendingDatum d) (marked_set h st)" "PendingDatum d \<notin> marked_set h st"
    if s: "sized h st"
  proof -
    have len: "unat (datum_index d) < length (marked_datums st)"
      using live_datum_index(1) [OF inv v] s by (simp add: sized_def)
    show "PendingDatum d \<notin> marked_set h st" using new by (simp add: marked_set_def)
    have "in_view (view_of h) p \<and> marked_in ?st p \<longleftrightarrow> p = PendingDatum d \<or> in_view (view_of h) p \<and> marked_in st p" for p
    proof (cases p)
      case (PendingDatum e)
      then show ?thesis
        using v len live_datum_index(2) [OF inv v, of e] new
        by (cases "datum_index e = datum_index d") (auto simp: nth_list_update unat_inject)
    qed simp
    then show "marked_set h ?st = insert (PendingDatum d) (marked_set h st)"
      by (auto simp: marked_set_def)
  qed
  then show ?thesis using v by (auto simp: gc_grows_def sized_def)
qed

lemma mark_list_grows:
  assumes inv: "heap_inv sip h" and v: "in_view (view_of h) (PendingList l)"
    and new: "\<not> marked_lists st ! unat (list_index l)"
  shows "gc_grows h {PendingList l} st (st\<lparr>marked_lists := (marked_lists st)[unat (list_index l) := True],
    pending_ids := pending_ids st @ [PendingList l]\<rparr>)"
proof -
  let ?st = "st\<lparr>marked_lists := (marked_lists st)[unat (list_index l) := True],
    pending_ids := pending_ids st @ [PendingList l]\<rparr>"
  have "marked_set h ?st = insert (PendingList l) (marked_set h st)" "PendingList l \<notin> marked_set h st"
    if s: "sized h st"
  proof -
    have len: "unat (list_index l) < length (marked_lists st)"
      using live_list_index(1) [OF inv v] s by (simp add: sized_def)
    show "PendingList l \<notin> marked_set h st" using new by (simp add: marked_set_def)
    have "in_view (view_of h) p \<and> marked_in ?st p \<longleftrightarrow> p = PendingList l \<or> in_view (view_of h) p \<and> marked_in st p" for p
    proof (cases p)
      case (PendingList m)
      then show ?thesis
        using v len live_list_index(2) [OF inv v, of m] new
        by (cases "list_index m = list_index l") (auto simp: nth_list_update unat_inject)
    qed simp
    then show "marked_set h ?st = insert (PendingList l) (marked_set h st)"
      by (auto simp: marked_set_def)
  qed
  then show ?thesis using v by (auto simp: gc_grows_def sized_def)
qed

lemma enqueue_datum_grows: "heap_inv sip h \<Longrightarrow> gc_grows h {PendingDatum d} st (enqueue_datum h d st)"
proof (cases "in_view (view_of h) (PendingDatum d)")
  case True
  assume inv: "heap_inv sip h"
  show ?thesis
  proof (cases "length (marked_datums st) \<le> unat (datum_index d) \<or> marked_datums st ! unat (datum_index d)")
    case skip: True
    then have "sized h st \<longrightarrow> PendingDatum d \<in> marked_set h st"
      using True live_datum_index(1) [OF inv True] by (auto simp: marked_set_def sized_def)
    then show ?thesis using skip by (auto simp: gc_grows_def enqueue_datum_def Let_def)
  next
    case False
    then show ?thesis using True mark_datum_grows [OF inv True, of st] by (auto simp: enqueue_datum_def in_view_datum)
  qed
qed (auto simp: gc_grows_def enqueue_datum_def in_view_datum)

lemma enqueue_list_grows: "heap_inv sip h \<Longrightarrow> gc_grows h {PendingList l} st (enqueue_list h l st)"
proof (cases "in_view (view_of h) (PendingList l)")
  case True
  assume inv: "heap_inv sip h"
  show ?thesis
  proof (cases "length (marked_lists st) \<le> unat (list_index l) \<or> marked_lists st ! unat (list_index l)")
    case skip: True
    then have "sized h st \<longrightarrow> PendingList l \<in> marked_set h st"
      using True live_list_index(1) [OF inv True] by (auto simp: marked_set_def sized_def)
    then show ?thesis using skip by (auto simp: gc_grows_def enqueue_list_def Let_def)
  next
    case False
    then show ?thesis using True mark_list_grows [OF inv True, of st] by (auto simp: enqueue_list_def in_view_list)
  qed
qed (auto simp: gc_grows_def enqueue_list_def in_view_list)

lemma enqueue_grows:
  assumes "heap_inv sip h"
  shows "gc_grows h (value_refs v) st (enqueue_value h v st)"
    "gc_grows h (override_refs os) st (enqueue_overrides h os st)"
  using assms
  by (induction h v st and h os st rule: enqueue_value_enqueue_overrides.induct)
    (auto intro: gc_grows_refl gc_grows_trans enqueue_datum_grows enqueue_list_grows)

lemma scan_values_grows:
  "heap_inv sip h \<Longrightarrow> gc_grows h (values_refs vs) st (fold (enqueue_value h) vs st)"
  by (induction vs arbitrary: st) (auto intro: gc_grows_refl gc_grows_trans enqueue_grows)

lemma values_refs_mono: "set vs = set ws \<Longrightarrow> values_refs vs = values_refs ws"
  by (simp add: values_refs_def)

lemma object_values_refs:
  assumes inv: "heap_inv sip h"
  shows "\<exists>vs. object_values h p = Some vs \<and> values_refs vs = object_refs (view_of h) p"
proof (cases p)
  case (PendingDatum d)
  then show ?thesis
    by (auto simp: object_values_def view_of_def datums_of_def heap_datum_map show_datum_def split: option.split)
next
  case (PendingList l)
  show ?thesis
  proof (cases "arena_map (list_arena h) (list_key l)")
    case None
    then show ?thesis using PendingList by (simp add: object_values_def view_of_def lists_of_def heap_list_map)
  next
    case (Some x)
    have x: "list_inv sip x" using all_liveD [OF heap_invD(5) [OF inv] Some] .
    obtain ps where ps: "positions x = Some ps" "map snd ps = map fst (entries x)" using positions_spec [OF x] by blast
    have "set (map snd (associations x)) = snd ` {(k, v). (k, Some v) \<in> set (entries x)}"
      using associations_spec [OF x] by simp
    also have "\<dots> = {v. \<exists>k. (k, Some v) \<in> set (entries x)}" by force
    also have "\<dots> = set (List.map_filter snd (entries x))"
      by (force simp: map_filter_def)
    finally have "values_refs (map snd ps @ map snd (associations x)) = values_refs (entry_values (entries x))"
      unfolding entry_values_def ps(2) by (intro values_refs_mono) (simp only: set_append)
    then show ?thesis
      using PendingList Some ps(1) by (simp add: object_values_def view_of_def lists_of_def heap_list_map)
  qed
qed

section \<open>The mark loop\<close>

text \<open>Everything marked is reached, and what a marked object refers to is marked unless it waits.\<close>

definition gc_invariant :: "value_heap \<Rightarrow> pending set \<Rightarrow> gc_state \<Rightarrow> bool" where
  "gc_invariant h R st \<longleftrightarrow> sized h st \<and> set (pending_ids st) \<subseteq> marked_set h st
     \<and> marked_set h st \<subseteq> reached (view_of h) R
     \<and> {p \<in> R. in_view (view_of h) p} \<subseteq> marked_set h st
     \<and> (\<forall>p \<in> marked_set h st - set (pending_ids st). \<forall>q \<in> object_refs (view_of h) p.
          in_view (view_of h) q \<longrightarrow> q \<in> marked_set h st)"

lemma set_butlast_last: "xs \<noteq> [] \<Longrightarrow> set xs = insert (last xs) (set (butlast xs))"
  by (induction xs) auto

lemma mark_loop_spec:
  assumes "heap_inv sip h" "gc_invariant h R st"
  shows "\<exists>st'. mark_loop h st = Some st' \<and> sized h st' \<and> marked_set h st' = reached (view_of h) R"
  using assms
proof (induction h st rule: mark_loop.induct)
  case (1 h st)
  have I: "sized h st" "set (pending_ids st) \<subseteq> marked_set h st" "marked_set h st \<subseteq> reached (view_of h) R"
      "{p \<in> R. in_view (view_of h) p} \<subseteq> marked_set h st"
    and closed: "\<And>p q. p \<in> marked_set h st \<Longrightarrow> p \<notin> set (pending_ids st) \<Longrightarrow> q \<in> object_refs (view_of h) p \<Longrightarrow>
      in_view (view_of h) q \<Longrightarrow> q \<in> marked_set h st"
    using "1.prems"(2) unfolding gc_invariant_def by blast+
  show ?case
  proof (cases "pending_ids st = []")
    case True
    have "reached (view_of h) R \<subseteq> marked_set h st"
    proof (rule reached_least)
      show "p \<in> marked_set h st" if "p \<in> R" "in_view (view_of h) p" for p using I(4) that by blast
      show "q \<in> marked_set h st" if "p \<in> marked_set h st" "q \<in> object_refs (view_of h) p" "in_view (view_of h) q" for p q
        using closed [OF that(1) _ that(2,3)] True by simp
    qed
    then show ?thesis using True I(1,3) by (simp add: mark_loop.simps [of h st] subset_antisym)
  next
    case False
    let ?p = "last (pending_ids st)" and ?st = "st\<lparr>pending_ids := butlast (pending_ids st)\<rparr>"
    obtain vs where vs: "object_values h ?p = Some vs" "values_refs vs = object_refs (view_of h) ?p"
      using object_values_refs [OF "1.prems"(1)] by blast
    let ?st' = "fold (enqueue_value h) vs ?st"
    have scan: "scan_object h ?p ?st = Some ?st'" using vs(1) by (simp add: scan_object_def)
    have same: "marked_set h ?st = marked_set h st" "sized h ?st"
      using I(1) by (simp_all add: marked_set_def sized_def)
    have split: "set (pending_ids st) = insert ?p (set (butlast (pending_ids st)))"
      using False by (rule set_butlast_last)
    have p: "?p \<in> marked_set h st" "?p \<in> reached (view_of h) R" using I(2,3) split by blast+
    have grow: "sized h ?st'" "marked_set h ?st' = marked_set h st \<union> {q \<in> object_refs (view_of h) ?p. in_view (view_of h) q}"
        "set (pending_ids ?st') = set (butlast (pending_ids st)) \<union> (marked_set h ?st' - marked_set h st)"
      using scan_values_grows [OF "1.prems"(1), of vs ?st] same by (auto simp: gc_grows_def vs(2))
    have "gc_invariant h R ?st'"
      unfolding gc_invariant_def
    proof (intro conjI ballI impI)
      show "sized h ?st'" by (rule grow)
      show "set (pending_ids ?st') \<subseteq> marked_set h ?st'" using I(2) split unfolding grow(3) grow(2) by blast
      show "marked_set h ?st' \<subseteq> reached (view_of h) R"
        using I(3) reached.step [OF p(2)] unfolding grow(2) by blast
      show "{q \<in> R. in_view (view_of h) q} \<subseteq> marked_set h ?st'" using I(4) unfolding grow(2) by blast
      show "q \<in> marked_set h ?st'" if "o' \<in> marked_set h ?st' - set (pending_ids ?st')"
        "q \<in> object_refs (view_of h) o'" "in_view (view_of h) q" for o' q
      proof (cases "o' = ?p")
        case True
        then show ?thesis using that(2,3) unfolding grow(2) by blast
      next
        case other: False
        have "o' \<in> marked_set h st" "o' \<notin> set (butlast (pending_ids st))"
          using that(1) unfolding grow(3) by blast+
        then have "q \<in> marked_set h st" using closed [OF _ _ that(2,3)] other split by blast
        then show ?thesis unfolding grow(2) by blast
      qed
    qed
    from "1.IH" [OF False scan "1.prems"(1) this]
    show ?thesis using False scan by (simp add: mark_loop.simps [of h st])
  qed
qed

section \<open>Roots\<close>

lemma mark_datum_roots_grows:
  assumes inv: "heap_inv sip h" and ds: "\<forall>d \<in> set ds. \<not> isl (heap_datum h d)"
  shows "sized h st \<Longrightarrow> \<exists>st'. mark_datum_roots ds st = Some st' \<and> gc_grows h (PendingDatum ` set ds) st st'"
  using ds
proof (induction ds arbitrary: st)
  case (Cons d ds)
  have v: "in_view (view_of h) (PendingDatum d)" using Cons.prems(2) by (simp add: in_view_datum)
  have i: "unat (datum_index d) < length (marked_datums st)"
    using live_datum_index(1) [OF inv v] Cons.prems(1) by (simp add: sized_def)
  let ?st = "if marked_datums st ! unat (datum_index d) then st
       else st\<lparr>marked_datums := (marked_datums st)[unat (datum_index d) := True],
         pending_ids := pending_ids st @ [PendingDatum d]\<rparr>"
  have "gc_grows h {PendingDatum d} st ?st"
    using mark_datum_grows [OF inv v, of st] i v by (auto simp: gc_grows_def marked_set_def)
  moreover have "sized h ?st" using Cons.prems(1) by (simp add: sized_def)
  then obtain st' where "mark_datum_roots ds ?st = Some st'" "gc_grows h (PendingDatum ` set ds) ?st st'"
    using Cons.IH [of ?st] Cons.prems(2) by auto
  ultimately show ?case using i gc_grows_trans by fastforce
qed (auto intro: gc_grows_refl)

lemma mark_list_roots_grows:
  assumes inv: "heap_inv sip h" and ls: "\<forall>l \<in> set ls. \<not> isl (heap_list h l)"
  shows "sized h st \<Longrightarrow> \<exists>st'. mark_list_roots ls st = Some st' \<and> gc_grows h (PendingList ` set ls) st st'"
  using ls
proof (induction ls arbitrary: st)
  case (Cons l ls)
  have v: "in_view (view_of h) (PendingList l)" using Cons.prems(2) by (simp add: in_view_list)
  have i: "unat (list_index l) < length (marked_lists st)"
    using live_list_index(1) [OF inv v] Cons.prems(1) by (simp add: sized_def)
  let ?st = "if marked_lists st ! unat (list_index l) then st
       else st\<lparr>marked_lists := (marked_lists st)[unat (list_index l) := True],
         pending_ids := pending_ids st @ [PendingList l]\<rparr>"
  have "gc_grows h {PendingList l} st ?st"
    using mark_list_grows [OF inv v, of st] i v by (auto simp: gc_grows_def marked_set_def)
  moreover have "sized h ?st" using Cons.prems(1) by (simp add: sized_def)
  then obtain st' where "mark_list_roots ls ?st = Some st'" "gc_grows h (PendingList ` set ls) ?st st'"
    using Cons.IH [of ?st] Cons.prems(2) by auto
  ultimately show ?case using i gc_grows_trans by fastforce
qed (auto intro: gc_grows_refl)

lemma mark_from_ids_spec:
  assumes inv: "heap_inv sip h"
  shows "\<exists>st. mark_from_ids h dr lr = Some st \<and> sized h st
    \<and> marked_set h st = reached (view_of h) (PendingDatum ` set dr \<union> PendingList ` set lr)"
proof -
  let ?R = "PendingDatum ` set dr \<union> PendingList ` set lr"
  let ?dr = "filter (\<lambda>d. \<not> isl (heap_datum h d)) dr" and ?lr = "filter (\<lambda>l. \<not> isl (heap_list h l)) lr"
  let ?st0 = "\<lparr>pending_ids = [], marked_datums = replicate (slot_len (datum_arena h)) False,
      marked_lists = replicate (slot_len (list_arena h)) False\<rparr>"
  have s0: "sized h ?st0" by (simp add: sized_def)
  have "\<not> marked_in ?st0 p" for p by (cases p) simp_all
  then have m0: "marked_set h ?st0 = {}" by (simp add: marked_set_def)
  obtain st1 where st1: "mark_datum_roots ?dr ?st0 = Some st1" "gc_grows h (PendingDatum ` set ?dr) ?st0 st1"
    using mark_datum_roots_grows [OF inv, of ?dr ?st0] s0 by auto
  then have s1: "sized h st1" using s0 by (simp add: gc_grows_def)
  obtain st2 where st2: "mark_list_roots ?lr st1 = Some st2" "gc_grows h (PendingList ` set ?lr) st1 st2"
    using mark_list_roots_grows [OF inv, of ?lr st1] s1 by auto
  have live: "{p \<in> PendingDatum ` set ?dr \<union> PendingList ` set ?lr. in_view (view_of h) p} = {p \<in> ?R. in_view (view_of h) p}"
    by (auto simp: in_view_datum in_view_list)
  have "sized h st2" "marked_set h st2 = {p \<in> ?R. in_view (view_of h) p}"
      "set (pending_ids st2) = {p \<in> ?R. in_view (view_of h) p}"
    using gc_grows_trans [OF st1(2) st2(2)] s0 m0 live by (simp_all add: gc_grows_def)
  then have "gc_invariant h ?R st2" by (auto simp: gc_invariant_def intro: reached.root)
  from mark_loop_spec [OF inv this] show ?thesis using st1(1) st2(1) by (simp add: mark_from_ids_def)
qed

section \<open>The collection\<close>

definition restrict_view :: "pending set \<Rightarrow> heap_view \<Rightarrow> heap_view" where
  "restrict_view A V = (fst V |` {d. PendingDatum d \<in> A}, snd V |` {l. PendingList l \<in> A})"

definition unreached_dead :: "value_heap \<Rightarrow> value_heap \<Rightarrow> bool" where
  "unreached_dead h h' \<longleftrightarrow> (\<forall>p. in_view (view_of h) p \<longrightarrow> \<not> in_view (view_of h') p \<longrightarrow> heap_dead h' p)"

lemma restrict_map_cong: "(\<And>x. x \<in> A \<Longrightarrow> m x = m' x) \<Longrightarrow> m |` A = m' |` A"
  by (auto simp: restrict_map_def)

lemma collect_from_ids_spec:
  assumes inv: "heap_inv sip h"
  shows "\<exists>rd rl h'. collect_unreachable_values_from_ids eb shared dr lr h = Some ((rd, rl), h')
    \<and> heap_kept sip h h' \<and> unreached_dead h h'
    \<and> view_of h' = restrict_view (reached (view_of h) (PendingDatum ` set dr \<union> PendingList ` set lr)) (view_of h)
    \<and> rd + live_datum_count h' = live_datum_count h \<and> rl + live_list_count h' = live_list_count h"
proof -
  let ?A = "reached (view_of h) (PendingDatum ` set dr \<union> PendingList ` set lr)"
  note D = heap_invD [OF inv]
  obtain st where st: "mark_from_ids h dr lr = Some st" "sized h st" "marked_set h st = ?A"
    using mark_from_ids_spec [OF inv] by blast
  let ?wl = "\<lambda>i l. the (gc_compact_list eb (shared i) l)"
  have wl: "gc_compact_list eb (shared i) l = Some (?wl i l)" "list_inv sip (?wl i l)" "entries (?wl i l) = entries l"
    if "list_inv sip l" for i l
    using gc_compact_list_spec [OF that, of eb "shared i"] by auto
  have lens: "length (marked_lists st) = slot_len (list_arena h)" "length (marked_datums st) = slot_len (datum_arena h)"
    using st(2) by (simp_all add: sized_def)
  have visit: "gc_compact_list eb (shared (unat i)) l = Some (?wl (unat i) l)"
    if "arena_map (list_arena h) (i, g) = Some l" for i g l
    using wl(1) [OF all_liveD [OF D(5) that]] .
  obtain rl ls where ls: "sweep_unmarked_with (marked_lists st) (\<lambda>i. gc_compact_list eb (shared i)) (list_arena h) = Some (rl, ls)"
      "arena_inv ls" "\<And>i g. arena_map ls (i, g) = (if unat i < slot_len (list_arena h) \<and> marked_lists st ! unat i
          then map_option (?wl (unat i)) (arena_map (list_arena h) (i, g)) else None)"
      "rl + arena_len ls = arena_len (list_arena h)" "settles (list_arena h) ls"
    using sweep_spec [OF D(2) lens(1), of "\<lambda>i. gc_compact_list eb (shared i)" ?wl] visit by blast
  obtain rd ds where ds: "sweep_unmarked_with (marked_datums st) (\<lambda>i d. Some (gc_compact_datum d)) (datum_arena h) = Some (rd, ds)"
      "arena_inv ds" "\<And>i g. arena_map ds (i, g) = (if unat i < slot_len (datum_arena h) \<and> marked_datums st ! unat i
          then map_option gc_compact_datum (arena_map (datum_arena h) (i, g)) else None)"
      "rd + arena_len ds = arena_len (datum_arena h)" "settles (datum_arena h) ds"
    using sweep_spec [OF D(1) lens(2), of "\<lambda>i d. Some (gc_compact_datum d)" "\<lambda>i. gc_compact_datum"] by auto
  let ?h = "h\<lparr>datum_arena := ds, list_arena := ls\<rparr>"
  have l_all: "all_live (list_inv sip) ls"
    unfolding all_live_def by (auto simp: ls(3) split: if_splits dest!: all_liveD [OF D(5)] intro: wl(2))
  have d_all: "all_live datum_inv ds"
    unfolding all_live_def by (auto simp: ds(3) split: if_splits dest!: all_liveD [OF D(4)] simp: gc_compact_datum_spec)
  have "heap_dead h p \<longrightarrow> heap_dead ?h p" for p
    using ls(5) ds(5) by (cases p) (auto simp: settles_def simp del: split_paired_All)
  then have kept: "heap_kept sip h ?h" using ls(2) ds(2) l_all d_all D(3) by (simp add: heap_kept_def heap_inv_def)
  have lists: "lists_of ?h l = (if PendingList l \<in> ?A then lists_of h l else None)" for l
  proof (cases "arena_map (list_arena h) (list_key l)")
    case None
    then show ?thesis by (simp add: lists_of_def list_key_def ls(3))
  next
    case (Some x)
    have "PendingList l \<in> ?A \<longleftrightarrow> marked_in st (PendingList l)"
      using Some unfolding st(3) [symmetric] marked_set_def by (simp add: view_of_def lists_of_def)
    then show ?thesis
      using Some wl(3) [OF all_liveD [OF D(5) Some]] by (simp add: lists_of_def list_key_def ls(3) lens)
  qed
  have datums: "datums_of ?h d = (if PendingDatum d \<in> ?A then datums_of h d else None)" for d
  proof (cases "arena_map (datum_arena h) (datum_key d)")
    case None
    then show ?thesis by (simp add: datums_of_def datum_key_def ds(3))
  next
    case (Some x)
    have "PendingDatum d \<in> ?A \<longleftrightarrow> marked_in st (PendingDatum d)"
      using Some unfolding st(3) [symmetric] marked_set_def by (simp add: view_of_def datums_of_def)
    then show ?thesis
      using Some gc_compact_datum_spec [OF all_liveD [OF D(4) Some]]
      by (simp add: datums_of_def datum_key_def ds(3) lens show_datum_def)
  qed
  have "datums_of ?h = datums_of h |` {d. PendingDatum d \<in> ?A}" "lists_of ?h = lists_of h |` {l. PendingList l \<in> ?A}"
    unfolding restrict_map_def by (rule ext, simp only: datums lists mem_Collect_eq)+
  then have "view_of ?h = restrict_view ?A (view_of h)"
    unfolding view_of_def restrict_view_def fst_conv snd_conv by (simp only: view_of_def)
  moreover have "unreached_dead h ?h"
    unfolding unreached_dead_def
  proof (intro allI impI)
    fix p assume "in_view (view_of h) p" "\<not> in_view (view_of ?h) p"
    then show "heap_dead ?h p"
      using ls(5) ds(5)
      by (cases p) (auto simp: settles_def view_of_def datums_of_def lists_of_def simp del: split_paired_All)
  qed
  ultimately show ?thesis
    using st(1) ls(1,4) ds(1,4) kept
    by (intro exI [of _ rd] exI [of _ rl] exI [of _ ?h])
      (simp add: collect_unreachable_values_from_ids_def live_datum_count_def live_list_count_def)
qed

section \<open>Roots as values\<close>

lemma root_ids_refs:
  "PendingDatum ` set (fst (root_ids v ids)) \<union> PendingList ` set (snd (root_ids v ids))
     = PendingDatum ` set (fst ids) \<union> PendingList ` set (snd ids) \<union> value_refs v"
  "PendingDatum ` set (fst (override_ids os ids)) \<union> PendingList ` set (snd (override_ids os ids))
     = PendingDatum ` set (fst ids) \<union> PendingList ` set (snd ids) \<union> override_refs os"
  by (induction v ids and os ids rule: root_ids_override_ids.induct) auto

lemma fold_root_ids_refs:
  "PendingDatum ` set (fst (fold root_ids vs ids)) \<union> PendingList ` set (snd (fold root_ids vs ids))
     = PendingDatum ` set (fst ids) \<union> PendingList ` set (snd ids) \<union> values_refs vs"
proof (induction vs arbitrary: ids)
  case (Cons v vs)
  show ?case unfolding fold_simps Cons root_ids_refs values_refs_simps by blast
qed simp

lemma collect_values_spec:
  assumes inv: "heap_inv sip h"
  shows "\<exists>rd rl h'. collect_unreachable_values eb shared roots h = Some ((rd, rl), h')
    \<and> heap_kept sip h h' \<and> unreached_dead h h'
    \<and> view_of h' = restrict_view (reached (view_of h) (values_refs roots)) (view_of h)
    \<and> rd + live_datum_count h' = live_datum_count h \<and> rl + live_list_count h' = live_list_count h"
proof -
  obtain dr lr where ids: "fold root_ids roots ([], []) = (dr, lr)" by (cases "fold root_ids roots ([], [])")
  have "PendingDatum ` set dr \<union> PendingList ` set lr = values_refs roots"
    using fold_root_ids_refs [of roots "([], [])"] by (simp add: ids)
  with collect_from_ids_spec [OF inv, of eb shared dr lr] show ?thesis
    by (simp add: collect_unreachable_values_def ids)
qed

section \<open>Collecting lists only\<close>

lemma enqueue_lists_set:
  "set (enqueue_lists v ids) = set ids \<union> {l. PendingList l \<in> value_refs v}"
  "set (enqueue_override_lists os ids) = set ids \<union> {l. PendingList l \<in> override_refs os}"
  by (induction v ids and os ids rule: enqueue_lists_enqueue_override_lists.induct) auto

lemma fold_enqueue_lists_set:
  "set (fold enqueue_lists vs ids) = set ids \<union> {l. PendingList l \<in> values_refs vs}"
  by (induction vs arbitrary: ids) (auto simp: enqueue_lists_set)

text \<open>
  Seen lists: marked or pending. Marked lists refer to seen ones only, and every live seen list is
  reached.
\<close>

definition seen_invariant :: "value_heap \<Rightarrow> pending set \<Rightarrow> list_id list \<Rightarrow> list_id set \<Rightarrow> bool" where
  "seen_invariant h R ids marked \<longleftrightarrow>
     (\<forall>l. PendingList l \<in> R \<longrightarrow> l \<in> marked \<union> set ids)
   \<and> (\<forall>l \<in> marked. \<forall>m. PendingList m \<in> object_refs (view_of h) (PendingList l) \<longrightarrow> m \<in> marked \<union> set ids)
   \<and> (\<forall>l \<in> marked \<union> set ids. in_view (view_of h) (PendingList l) \<longrightarrow> PendingList l \<in> reached (view_of h) R)"

lemma mark_lists_loop_spec:
  assumes "heap_inv sip h" "seen_invariant h R ids marked"
  shows "\<exists>marked'. mark_lists_loop h ids marked = Some marked' \<and> seen_invariant h R [] marked'"
  using assms
proof (induction h ids marked rule: mark_lists_loop.induct)
  case (1 h ids marked)
  show ?case
  proof (cases "ids = []")
    case True
    then show ?thesis using "1.prems"(2) by (simp add: mark_lists_loop.simps [of h "[]"])
  next
    case ids: False
    let ?l = "last ids" and ?rest = "butlast ids"
    have set: "set ids = insert ?l (set ?rest)" using ids by (rule set_butlast_last)
    show ?thesis
    proof (cases "?l \<in> marked")
      case True
      then have "marked \<union> set ids = marked \<union> set ?rest" unfolding set by blast
      then have "seen_invariant h R ?rest marked" using "1.prems"(2) by (simp add: seen_invariant_def)
      from "1.IH"(1) [OF ids refl refl True "1.prems"(1) this]
      show ?thesis using ids True by (simp add: mark_lists_loop.simps [of h ids])
    next
      case False
      obtain vs where vs: "object_values h (PendingList ?l) = Some vs"
          "values_refs vs = object_refs (view_of h) (PendingList ?l)"
        using object_values_refs [OF "1.prems"(1)] by blast
      let ?refs = "{m. PendingList m \<in> object_refs (view_of h) (PendingList ?l)}"
      have seen: "insert ?l marked \<union> set (fold enqueue_lists vs ?rest) = marked \<union> set ids \<union> ?refs"
        unfolding fold_enqueue_lists_set set vs(2) by blast
      have reach: "PendingList m \<in> reached (view_of h) R" if "m \<in> ?refs" "in_view (view_of h) (PendingList m)" for m
      proof -
        have "in_view (view_of h) (PendingList ?l)"
        proof (rule ccontr)
          assume "\<not> in_view (view_of h) (PendingList ?l)"
          then have "object_refs (view_of h) (PendingList ?l) = {}" by (simp add: view_of_def)
          then show False using that(1) by blast
        qed
        then have "PendingList ?l \<in> reached (view_of h) R"
          using "1.prems"(2) set unfolding seen_invariant_def by blast
        then show ?thesis using that reached.step by blast
      qed
      have "seen_invariant h R (fold enqueue_lists vs ?rest) (insert ?l marked)"
        using "1.prems"(2) reach unfolding seen_invariant_def seen by blast
      from "1.IH"(2) [OF ids refl refl False vs(1) "1.prems"(1) this]
      show ?thesis using ids False vs(1) by (simp add: mark_lists_loop.simps [of h ids])
    qed
  qed
qed

lemma reached_expand:
  assumes "\<And>p. p \<in> S \<Longrightarrow> in_view V p \<Longrightarrow> p \<in> reached V R"
  shows "reached V (R \<union> S) = reached V R"
proof
  show "reached V (R \<union> S) \<subseteq> reached V R"
    by (rule reached_least) (use assms reached.root reached.step in blast)+
  show "reached V R \<subseteq> reached V (R \<union> S)"
    by (rule reached_least) (use reached.root reached.step in blast)+
qed

lemma remove_lists_spec:
  assumes "arena_inv a" "distinct ks" "\<forall>k \<in> set ks. arena_map a k \<noteq> None"
  shows "\<exists>b. remove_lists ks a = Some b \<and> arena_inv b \<and> arena_map b = arena_map a |` (- set ks)
    \<and> live a = length ks + live b \<and> settles a b"
  using assms
proof (induction ks arbitrary: a)
  case (Cons k ks)
  obtain i g where k: "k = (i, g)" by (cases k)
  obtain v where v: "arena_map a (i, g) = Some v" using Cons.prems(3) k by auto
  obtain b where b: "arena_remove i g a = Some (Some v, b)" "live a = Suc (live b)"
    using arena_remove_some [OF Cons.prems(1) v] by blast
  note m = arena_remove_map [OF Cons.prems(1) v b(1)]
  have "settles a b" using dead_remove [OF Cons.prems(1) b(1)] m by (auto simp: settles_def)
  have live: "\<forall>k' \<in> set ks. arena_map b k' \<noteq> None"
    using Cons.prems(2,3) m unfolding k by auto
  have "distinct ks" "arena_inv b" using Cons.prems(2) m by simp_all
  then obtain c where c: "remove_lists ks b = Some c" "arena_inv c" "arena_map c = arena_map b |` (- set ks)"
      "live b = length ks + live c" "settles b c"
    using Cons.IH [of b] live by blast
  have "arena_map c = arena_map a |` (- set (k # ks))"
    unfolding c(3) using m k by (auto simp: restrict_map_def fun_eq_iff)
  moreover have "settles a c" using settles_trans [OF \<open>settles a b\<close> c(5)] .
  ultimately show ?case using b c by (simp add: k)
qed (simp add: settles_refl restrict_map_def)

text \<open>Every live datum is a root.\<close>

definition list_roots :: "heap_view \<Rightarrow> dm_value list \<Rightarrow> pending set" where
  "list_roots V roots = PendingDatum ` dom (fst V) \<union> values_refs roots"

lemma collect_lists_spec:
  assumes inv: "heap_inv sip h"
  shows "\<exists>n h'. collect_unreachable_lists roots h = Some (n, h')
    \<and> heap_kept sip h h' \<and> unreached_dead h h'
    \<and> view_of h' = restrict_view (reached (view_of h) (list_roots (view_of h) roots)) (view_of h)
    \<and> n + live_list_count h' = live_list_count h"
proof -
  let ?V = "view_of h" and ?R = "list_roots (view_of h) roots"
  note D = heap_invD [OF inv]
  let ?fields = "concat (map (\<lambda>(_, d). map snd (datum_iter d)) (heap_datums h))"
  have fields: "PendingList l \<in> values_refs ?fields \<longleftrightarrow> (\<exists>d. PendingList l \<in> object_refs ?V (PendingDatum d))" for l
  proof -
    have "set (heap_datums h) = {(d, x). arena_map (datum_arena h) (datum_key d) = Some x}"
      using arena_iter_set [OF D(1)] by (force simp: heap_datums_def datum_key_def)
    then show ?thesis
      by (fastforce simp: values_refs_def view_of_def datums_of_def show_datum_def split: option.splits)
  qed
  have datum_reached: "PendingDatum d \<in> reached ?V ?R" if "object_refs ?V (PendingDatum d) \<noteq> {}" for d
  proof -
    have "fst ?V d \<noteq> None" using that by (auto simp: view_of_def split: option.splits)
    then have "PendingDatum d \<in> ?R" "in_view ?V (PendingDatum d)"
      by (auto simp: list_roots_def view_of_def)
    then show ?thesis by (rule reached.root)
  qed
  let ?ids = "fold enqueue_lists (?fields @ roots) []"
  have ids: "l \<in> set ?ids \<longleftrightarrow> (\<exists>d. PendingList l \<in> object_refs ?V (PendingDatum d)) \<or> PendingList l \<in> values_refs roots" for l
    unfolding fold_enqueue_lists_set by (simp add: fields)
  let ?S = "{p. \<exists>d. p \<in> object_refs ?V (PendingDatum d)}"
  have expand: "reached ?V (?R \<union> ?S) = reached ?V ?R"
    by (rule reached_expand) (use datum_reached reached.step in blast)
  have "PendingList l \<in> ?R \<union> ?S \<longleftrightarrow> l \<in> set ?ids" for l
    unfolding ids list_roots_def by auto
  then have "seen_invariant h (?R \<union> ?S) ?ids {}"
    unfolding seen_invariant_def by (blast intro: reached.root)
  then obtain marked where marked: "mark_lists_loop h ?ids {} = Some marked" "seen_invariant h (?R \<union> ?S) [] marked"
    using mark_lists_loop_spec [OF inv] by blast
  note M = marked(2) [unfolded seen_invariant_def expand]
  let ?all = "map (\<lambda>(i, g, _). (i, g)) (arena_iter (list_arena h))"
  let ?un = "filter (\<lambda>(i, g). ListId i g \<notin> marked) ?all"
  have un: "set ?un = {(i, g). arena_map (list_arena h) (i, g) \<noteq> None \<and> ListId i g \<notin> marked}"
    using arena_iter_set [OF D(2)] by (force simp: image_iff)
  have "distinct ?un" using arena_iter_distinct [OF D(2)] by (rule distinct_filter)
  moreover have "\<forall>k \<in> set ?un. arena_map (list_arena h) k \<noteq> None" unfolding un by auto
  ultimately obtain ls where ls: "remove_lists ?un (list_arena h) = Some ls" "arena_inv ls"
      "arena_map ls = arena_map (list_arena h) |` (- set ?un)" "live (list_arena h) = length ?un + live ls"
      "settles (list_arena h) ls"
    using remove_lists_spec [OF D(2)] by blast
  let ?h = "h\<lparr>list_arena := ls\<rparr>"
  have marks: "l \<in> marked \<longleftrightarrow> PendingList l \<in> reached ?V ?R" if "in_view ?V (PendingList l)" for l
  proof
    show "PendingList l \<in> reached ?V ?R" if "l \<in> marked"
      using M that \<open>in_view ?V (PendingList l)\<close> by blast
    let ?M = "{p. case p of PendingDatum d \<Rightarrow> in_view ?V p | PendingList m \<Rightarrow> m \<in> marked}"
    have "reached ?V ?R \<subseteq> ?M"
    proof (rule reached_least)
      show "p \<in> ?M" if "p \<in> ?R" "in_view ?V p" for p
        using that M by (cases p) auto
      show "q \<in> ?M" if "p \<in> ?M" "q \<in> object_refs ?V p" "in_view ?V q" for p q
      proof (cases q)
        case (PendingList m)
        show ?thesis
        proof (cases p)
          case (PendingDatum d)
          then have "PendingList m \<in> ?R \<union> ?S" using that(2) PendingList by blast
          then have "m \<in> marked \<union> set []" using M by blast
          then show ?thesis using PendingList by simp
        next
          case (PendingList l)
          then show ?thesis using that \<open>q = PendingList m\<close> M by auto
        qed
      qed (use that in auto)
    qed
    then show "l \<in> marked" if "PendingList l \<in> reached ?V ?R" using that by auto
  qed
  have view: "lists_of ?h l = (if PendingList l \<in> reached ?V ?R then lists_of h l else None)" for l
  proof (cases "arena_map (list_arena h) (list_key l)")
    case None
    then show ?thesis by (simp add: lists_of_def ls(3) restrict_map_def)
  next
    case (Some x)
    have "arena_map ls (list_key l) = (if l \<in> marked then arena_map (list_arena h) (list_key l) else None)"
      unfolding ls(3) restrict_map_def un using Some by (cases l) auto
    moreover have "in_view ?V (PendingList l)" using Some by (simp add: view_of_def lists_of_def)
    ultimately show ?thesis using marks by (simp add: lists_of_def)
  qed
  have "heap_dead h p \<longrightarrow> heap_dead ?h p" for p
    using ls(5) by (cases p) (auto simp: settles_def simp del: split_paired_All)
  moreover have "all_live (list_inv sip) ls"
    using D(5) unfolding all_live_def ls(3) restrict_map_def by auto
  ultimately have kept: "heap_kept sip h ?h" using ls(2) D by (simp add: heap_kept_def heap_inv_def)
  have "datums_of ?h d = (if PendingDatum d \<in> reached ?V ?R then datums_of h d else None)" for d
  proof (cases "datums_of h d")
    case (Some x)
    then have "PendingDatum d \<in> ?R" "in_view ?V (PendingDatum d)" by (auto simp: list_roots_def view_of_def)
    then show ?thesis using reached.root by simp
  qed simp
  then have "datums_of ?h = datums_of h |` {d. PendingDatum d \<in> reached ?V ?R}"
    unfolding restrict_map_def by (intro ext) (simp only: mem_Collect_eq)
  moreover have "lists_of ?h = lists_of h |` {l. PendingList l \<in> reached ?V ?R}"
    unfolding restrict_map_def by (rule ext, simp only: view mem_Collect_eq)
  ultimately have "view_of ?h = restrict_view (reached ?V ?R) ?V"
    unfolding restrict_view_def by (simp only: view_of_def fst_conv snd_conv)
  moreover have "unreached_dead h ?h"
    unfolding unreached_dead_def
  proof (intro allI impI)
    fix p assume "in_view (view_of h) p" "\<not> in_view (view_of ?h) p"
    then show "heap_dead ?h p"
      using ls(5) by (cases p) (auto simp: settles_def view_of_def lists_of_def simp del: split_paired_All)
  qed
  moreover have "collect_unreachable_lists roots h = Some (length ?un, ?h)"
    using marked(1) ls(1) by (simp add: collect_unreachable_lists_def)
  ultimately show ?thesis
    using kept ls(4) by (intro exI [of _ "length ?un"] exI [of _ ?h]) (simp add: live_list_count_def arena_len_def)
qed

end
