(* ===== verification/HeapProps.thy ===== *)
theory HeapProps
  imports HeapGcLaws
begin

text \<open>
  The contract of \<open>ValueHeap\<close>: every operation acts on the pair of maps that the heap stands for
  as its specification says, without a panic while there is room, and a handle that was destroyed
  or collected never resolves again.
\<close>

section \<open>Operations and their results\<close>

datatype heap_op =
    NewList
  | UpdateList list_id list_op
  | DestroyList list_id
  | CopyList list_id
  | NewDatum string
  | NewDatumWithDefaults string "datum_defaults list"
  | SetType datum_id string
  | SetField datum_id string dm_value
  | DeleteField datum_id string
  | CompactLayout datum_id
  | DestroyDatum datum_id
  | CollectValues nat "nat \<Rightarrow> bool" "dm_value list"
  | CollectLists "dm_value list"

datatype heap_result =
    NewListResult list_id
  | ListResult "value_error + list_result"
  | OldList "value_error + entry list"
  | CopyResult "value_error + list_id"
  | NewDatumResult datum_id
  | TypeResult "value_error + string"
  | FieldResult "value_error + dm_value option"
  | LayoutResult "value_error + unit"
  | OldDatum "value_error + datum_view"
  | Reclaimed nat nat
  | ReclaimedLists nat

definition gives :: "('r \<Rightarrow> heap_result) \<Rightarrow> ('r \<times> value_heap) option \<Rightarrow> (heap_result \<times> value_heap) option" where
  "gives f m = map_option (\<lambda>(r, h). (f r, h)) m"

fun run_heap_op :: "(hash_write list \<Rightarrow> u64) \<Rightarrow> heap_op \<Rightarrow> value_heap \<Rightarrow> (heap_result \<times> value_heap) option" where
  "run_heap_op sip NewList h = gives NewListResult (allocate_list h)"
| "run_heap_op sip (UpdateList l op) h = gives ListResult (list_update l (apply_op sip op) h)"
| "run_heap_op sip (DestroyList l) h = gives (\<lambda>r. OldList (res_bind r (\<lambda>x. Inr (entries x)))) (destroy_list l h)"
| "run_heap_op sip (CopyList l) h = gives CopyResult (copy_list l h)"
| "run_heap_op sip (NewDatum path) h = gives NewDatumResult (allocate_datum path h)"
| "run_heap_op sip (NewDatumWithDefaults path layers) h =
     gives NewDatumResult (allocate_datum_with_defaults path layers h)"
| "run_heap_op sip (SetType d path) h = gives TypeResult (set_datum_type_path d path h)"
| "run_heap_op sip (SetField d n v) h = gives FieldResult (set_datum_field d n v h)"
| "run_heap_op sip (DeleteField d n) h = gives FieldResult (delete_datum_field d n h)"
| "run_heap_op sip (CompactLayout d) h = gives LayoutResult (compact_datum_layout d h)"
| "run_heap_op sip (DestroyDatum d) h = gives (\<lambda>r. OldDatum (res_bind r (\<lambda>x. Inr (show_datum x)))) (destroy_datum d h)"
| "run_heap_op sip (CollectValues entry_bytes shared roots) h =
     gives (\<lambda>(d, l). Reclaimed d l) (collect_unreachable_values entry_bytes shared roots h)"
| "run_heap_op sip (CollectLists roots) h = gives ReclaimedLists (collect_unreachable_lists roots h)"

section \<open>The specification\<close>

definition default_fields :: "datum_defaults list \<Rightarrow> (string \<times> dm_value) list" where
  "default_fields layers = foldl (\<lambda>al (n, v). AList.update n v al) [] (concat (map defaults_fields layers))"

text \<open>Changing a live datum; a stale one is an error and changes nothing.\<close>

definition spec_datum :: "datum_id \<Rightarrow> (datum_view \<Rightarrow> 'r \<times> datum_view) \<Rightarrow> (value_error + 'r \<Rightarrow> heap_result)
    \<Rightarrow> heap_view \<Rightarrow> heap_result \<times> heap_view" where
  "spec_datum d f g V = (case fst V d of
       None \<Rightarrow> (g (Inl (StaleDatum d)), V)
     | Some x \<Rightarrow> (g (Inr (fst (f x))), ((fst V)(d \<mapsto> snd (f x)), snd V)))"

fun heap_spec :: "heap_op \<Rightarrow> heap_view \<Rightarrow> heap_result \<Rightarrow> heap_view \<Rightarrow> bool" where
  "heap_spec NewList V r W \<longleftrightarrow>
     (\<exists>l. snd V l = None \<and> r = NewListResult l \<and> W = (fst V, (snd V)(l \<mapsto> [])))"
| "heap_spec (UpdateList l op) V r W \<longleftrightarrow> (case snd V l of
       None \<Rightarrow> r = ListResult (Inl (StaleList l)) \<and> W = V
     | Some es \<Rightarrow> r = ListResult (Inr (fst (spec_op op es))) \<and> W = (fst V, (snd V)(l \<mapsto> snd (spec_op op es))))"
| "heap_spec (DestroyList l) V r W \<longleftrightarrow>
     r = OldList (case snd V l of None \<Rightarrow> Inl (StaleList l) | Some es \<Rightarrow> Inr es) \<and> W = (fst V, (snd V)(l := None))"
| "heap_spec (CopyList l) V r W \<longleftrightarrow> (case snd V l of
       None \<Rightarrow> r = CopyResult (Inl (StaleList l)) \<and> W = V
     | Some es \<Rightarrow> \<exists>m. snd V m = None \<and> r = CopyResult (Inr m) \<and> W = (fst V, (snd V)(m \<mapsto> es)))"
| "heap_spec (NewDatum path) V r W \<longleftrightarrow>
     (\<exists>d. fst V d = None \<and> r = NewDatumResult d \<and> W = ((fst V)(d \<mapsto> (path, [])), snd V))"
| "heap_spec (NewDatumWithDefaults path layers) V r W \<longleftrightarrow>
     (\<exists>d. fst V d = None \<and> r = NewDatumResult d \<and> W = ((fst V)(d \<mapsto> (path, default_fields layers)), snd V))"
| "heap_spec (SetType d path) V r W \<longleftrightarrow> (r, W) = spec_datum d (\<lambda>(t, fs). (t, path, fs)) TypeResult V"
| "heap_spec (SetField d n v) V r W \<longleftrightarrow>
     (r, W) = spec_datum d (\<lambda>(t, fs). (map_of fs n, t, AList.update n v fs)) FieldResult V"
| "heap_spec (DeleteField d n) V r W \<longleftrightarrow>
     (r, W) = spec_datum d (\<lambda>(t, fs). (map_of fs n, t, AList.delete n fs)) FieldResult V"
| "heap_spec (CompactLayout d) V r W \<longleftrightarrow> (r, W) = spec_datum d (\<lambda>x. ((), x)) LayoutResult V"
| "heap_spec (DestroyDatum d) V r W \<longleftrightarrow>
     r = OldDatum (case fst V d of None \<Rightarrow> Inl (StaleDatum d) | Some x \<Rightarrow> Inr x) \<and> W = ((fst V)(d := None), snd V)"
| "heap_spec (CollectValues entry_bytes shared roots) V r W \<longleftrightarrow>
     W = restrict_view (reached V (values_refs roots)) V \<and> (\<exists>d l. r = Reclaimed d l)"
| "heap_spec (CollectLists roots) V r W \<longleftrightarrow>
     W = restrict_view (reached V (list_roots V roots)) V \<and> (\<exists>n. r = ReclaimedLists n)"

text \<open>Room for what the operation adds.\<close>

fun heap_room :: "heap_op \<Rightarrow> value_heap \<Rightarrow> bool" where
  "heap_room NewList h = arena_room (list_arena h)"
| "heap_room (CopyList l) h = arena_room (list_arena h)"
| "heap_room (NewDatum path) h = arena_room (datum_arena h)"
| "heap_room (NewDatumWithDefaults path layers) h = arena_room (datum_arena h)"
| "heap_room (UpdateList l op) h = (case heap_list h l of
       Inl e \<Rightarrow> True | Inr x \<Rightarrow> length (list_order x) + op_growth op \<le> max_entries)"
| "heap_room op h = True"

text \<open>What one operation is to establish.\<close>

definition obeys :: "(hash_write list \<Rightarrow> u64) \<Rightarrow> heap_op \<Rightarrow> value_heap \<Rightarrow> bool" where
  "obeys sip op h \<longleftrightarrow> (\<exists>r h'. run_heap_op sip op h = Some (r, h') \<and> heap_kept sip h h'
     \<and> heap_spec op (view_of h) r (view_of h'))"

section \<open>Each operation obeys\<close>

lemma heap_kept_refl: "heap_inv sip h \<Longrightarrow> heap_kept sip h h"
  by (simp add: heap_kept_def)

lemma view_parts [simp]: "fst (view_of h) = datums_of h" "snd (view_of h) = lists_of h"
  by (simp_all add: view_of_def)

lemma new_list_obeys:
  assumes inv: "heap_inv sip h" and room: "arena_room (list_arena h)"
  shows "obeys sip NewList h"
proof -
  from list_insert_arena [OF inv room list_inv_new(1)] obtain i g ls where
    "arena_insert dm_list_new (list_arena h) = Some ((i, g), ls)" "heap_kept sip h (h\<lparr>list_arena := ls\<rparr>)"
    "lists_of h (ListId i g) = None"
    "view_of (h\<lparr>list_arena := ls\<rparr>) = (datums_of h, (lists_of h)(ListId i g \<mapsto> entries dm_list_new))"
    by blast
  then show ?thesis
    by (auto simp: obeys_def allocate_list_def gives_def list_inv_new(2))
qed

lemma copy_list_obeys:
  assumes inv: "heap_inv sip h" and room: "arena_room (list_arena h)"
  shows "obeys sip (CopyList l) h"
proof (cases "arena_map (list_arena h) (list_key l)")
  case None
  then have "lists_of h l = None" by (simp add: lists_of_def)
  then show ?thesis using None heap_kept_refl [OF inv]
    by (auto simp: obeys_def copy_list_def gives_def heap_list_map)
next
  case (Some x)
  from list_insert_arena [OF inv room all_liveD [OF heap_invD(5) [OF inv] Some]] obtain i g ls where
    "arena_insert x (list_arena h) = Some ((i, g), ls)" "heap_kept sip h (h\<lparr>list_arena := ls\<rparr>)"
    "lists_of h (ListId i g) = None"
    "view_of (h\<lparr>list_arena := ls\<rparr>) = (datums_of h, (lists_of h)(ListId i g \<mapsto> entries x))"
    by blast
  moreover have "lists_of h l = Some (entries x)" using Some by (simp add: lists_of_def)
  ultimately show ?thesis using Some by (auto simp: obeys_def copy_list_def gives_def heap_list_map)
qed

lemma update_list_obeys:
  assumes inv: "heap_inv sip h" and room: "heap_room (UpdateList l op) h"
  shows "obeys sip (UpdateList l op) h"
proof (cases "arena_map (list_arena h) (list_key l)")
  case None
  then have "lists_of h l = None" by (simp add: lists_of_def)
  then show ?thesis using None heap_kept_refl [OF inv]
    by (auto simp: obeys_def list_update_def gives_def heap_list_map)
next
  case (Some x)
  have x: "list_inv sip x" using all_liveD [OF heap_invD(5) [OF inv] Some] .
  have "length (list_order x) + op_growth op \<le> max_entries" using room Some by (simp add: heap_list_map)
  from dm.step_spec [OF x this] obtain y where y: "apply_op sip op x = Some (fst (spec_op op (entries x)), y)"
      "list_inv sip y" "entries y = snd (spec_op op (entries x))"
    by blast
  obtain ls where "arena_modify (list_index l) (list_generation l) (\<lambda>_. y) (list_arena h) = Some ls"
      "heap_kept sip h (h\<lparr>list_arena := ls\<rparr>)"
      "view_of (h\<lparr>list_arena := ls\<rparr>) = (datums_of h, (lists_of h)(l \<mapsto> entries y))"
    using list_write [OF inv Some y(2)] by blast
  moreover have "lists_of h l = Some (entries x)" using Some by (simp add: lists_of_def)
  ultimately show ?thesis using Some y
    by (auto simp: obeys_def list_update_def gives_def heap_list_map)
qed

lemma destroy_list_obeys:
  assumes inv: "heap_inv sip h" shows "obeys sip (DestroyList l) h"
  using list_remove_arena [OF inv, of l]
  by (cases "arena_map (list_arena h) (list_key l)")
    (auto simp: obeys_def destroy_list_def gives_def lists_of_def res_bind_def)

lemma destroy_datum_obeys:
  assumes inv: "heap_inv sip h" shows "obeys sip (DestroyDatum d) h"
  using datum_remove_arena [OF inv, of d]
  by (cases "arena_map (datum_arena h) (datum_key d)")
    (auto simp: obeys_def destroy_datum_def gives_def datums_of_def res_bind_def)

lemma new_datum_obeys:
  assumes inv: "heap_inv sip h" and room: "arena_room (datum_arena h)"
  shows "obeys sip (NewDatum path) h"
proof -
  from datum_insert_arena [OF inv room datum_new_inv [of path] heap_invD(3) [OF inv]] obtain i g ds where
    "arena_insert (datum_new path) (datum_arena h) = Some ((i, g), ds)" "heap_kept sip h (h\<lparr>datum_arena := ds\<rparr>)"
    "datums_of h (DatumId i g) = None"
    "datums_of (h\<lparr>datum_arena := ds\<rparr>) = (datums_of h)(DatumId i g \<mapsto> show_datum (datum_new path))"
    by blast
  moreover have "show_datum (datum_new path) = (path, [])" by (simp add: show_datum_def datum_new_def datum_iter_def)
  ultimately show ?thesis
    by (auto simp: obeys_def allocate_datum_def gives_def view_of_def)
qed

lemma new_datum_with_defaults_obeys:
  assumes inv: "heap_inv sip h" and room: "arena_room (datum_arena h)"
  shows "obeys sip (NewDatumWithDefaults path layers) h"
proof -
  obtain d where d: "apply_layers layers (datum_new path) = Some d" "datum_inv d" "datum_type d = path"
      "datum_iter d = default_fields layers"
    using apply_layers_spec [OF datum_new_inv [of path], of layers]
    by (auto simp: default_fields_def datum_new_def datum_iter_def)
  obtain d' c where c: "compact_layout d (datum_layouts h) = (d', c)" by (cases "compact_layout d (datum_layouts h)")
  note s = compact_layout_spec [OF d(2) heap_invD(3) [OF inv] c]
  from datum_insert_arena [OF inv room, of d' c] s obtain i g ds where
    "arena_insert d' (datum_arena h) = Some ((i, g), ds)" "heap_kept sip h (h\<lparr>datum_arena := ds, datum_layouts := c\<rparr>)"
    "datums_of h (DatumId i g) = None"
    "datums_of (h\<lparr>datum_arena := ds\<rparr>) = (datums_of h)(DatumId i g \<mapsto> show_datum d')"
    by blast
  moreover have "show_datum d' = (path, default_fields layers)" using s d by (simp add: show_datum_def)
  ultimately show ?thesis using d(1) c
    by (auto simp: obeys_def allocate_datum_with_defaults_def gives_def view_of_def)
qed

text \<open>The operations on a datum's fields, through \<open>datum_update\<close>.\<close>

lemma datum_op_obeys:
  assumes inv: "heap_inv sip h"
    and f: "\<And>x. datum_inv x \<Longrightarrow> \<exists>y. f x = Some (fst (g (show_datum x)), y) \<and> datum_inv y
      \<and> show_datum y = snd (g (show_datum x))"
  shows "\<exists>r h'. gives k (datum_update d f h) = Some (r, h') \<and> heap_kept sip h h'
    \<and> (r, view_of h') = spec_datum d g k (view_of h)"
proof -
  obtain h' where h': "datum_update d f h = Some (case arena_map (datum_arena h) (datum_key d) of
        None \<Rightarrow> Inl (StaleDatum d) | Some x \<Rightarrow> Inr (fst (g (show_datum x))), h')"
      "heap_kept sip h h'" "view_of h' = ((datums_of h)(d := map_option (\<lambda>x. snd (g x)) (datums_of h d)), lists_of h)"
    using datum_update_spec [OF inv, of f "\<lambda>x. fst (g (show_datum x))" "\<lambda>x. snd (g x)"] f by blast
  show ?thesis
  proof (cases "arena_map (datum_arena h) (datum_key d)")
    case None
    then have n: "datums_of h d = None" by (simp add: datums_of_def)
    then have "view_of h' = view_of h" using h'(3) by (simp add: view_of_def fun_upd_idem)
    then show ?thesis using None n h'(1,2) by (simp add: gives_def spec_datum_def)
  next
    case (Some x)
    then have "datums_of h d = Some (show_datum x)" by (simp add: datums_of_def)
    then show ?thesis using Some h' by (simp add: gives_def spec_datum_def)
  qed
qed

lemma set_type_obeys: "heap_inv sip h \<Longrightarrow> obeys sip (SetType d path) h"
  unfolding obeys_def run_heap_op.simps heap_spec.simps set_datum_type_path_def
  by (rule datum_op_obeys) (auto simp: show_datum_def datum_inv_def datum_iter_def)

lemma set_field_obeys: "heap_inv sip h \<Longrightarrow> obeys sip (SetField d n v) h"
  unfolding obeys_def run_heap_op.simps heap_spec.simps set_datum_field_def
  by (rule datum_op_obeys) (use set_field_spec in \<open>fastforce simp: show_datum_def\<close>)+

lemma delete_field_obeys: "heap_inv sip h \<Longrightarrow> obeys sip (DeleteField d n) h"
  unfolding obeys_def run_heap_op.simps heap_spec.simps delete_datum_field_def
  by (rule datum_op_obeys) (use delete_field_spec in \<open>fastforce simp: show_datum_def\<close>)+

lemma compact_layout_obeys:
  assumes inv: "heap_inv sip h" shows "obeys sip (CompactLayout d) h"
proof (cases "arena_map (datum_arena h) (datum_key d)")
  case None
  then have "datums_of h d = None" by (simp add: datums_of_def)
  then show ?thesis using None heap_kept_refl [OF inv]
    by (simp add: obeys_def compact_datum_layout_def gives_def heap_datum_map spec_datum_def)
next
  case (Some x)
  have x: "datum_inv x" using all_liveD [OF heap_invD(4) [OF inv] Some] .
  obtain y c where c: "compact_layout x (datum_layouts h) = (y, c)" by (cases "compact_layout x (datum_layouts h)")
  note s = compact_layout_spec [OF x heap_invD(3) [OF inv] c]
  obtain ds where "arena_modify (datum_index d) (datum_generation d) (\<lambda>_. y) (datum_arena h) = Some ds"
      "heap_kept sip h (h\<lparr>datum_arena := ds, datum_layouts := c\<rparr>)"
      "datums_of (h\<lparr>datum_arena := ds\<rparr>) = (datums_of h)(d \<mapsto> show_datum y)"
    using datum_write [OF inv Some, of y c] s by blast
  moreover have "datums_of h d = Some (show_datum x)" using Some by (simp add: datums_of_def)
  moreover have "show_datum y = show_datum x" using s by (simp add: show_datum_def)
  ultimately show ?thesis using Some c
    by (simp add: obeys_def compact_datum_layout_def gives_def heap_datum_map spec_datum_def view_of_def)
qed

lemma collect_values_obeys: "heap_inv sip h \<Longrightarrow> obeys sip (CollectValues entry_bytes shared roots) h"
  using collect_values_spec [of sip h entry_bytes shared roots] by (fastforce simp: obeys_def gives_def)

lemma collect_lists_obeys: "heap_inv sip h \<Longrightarrow> obeys sip (CollectLists roots) h"
  using collect_lists_spec [of sip h roots] by (fastforce simp: obeys_def gives_def)

lemma heap_op_obeys: "heap_inv sip h \<Longrightarrow> heap_room op h \<Longrightarrow> obeys sip op h"
  by (cases op) (simp_all add: new_list_obeys update_list_obeys destroy_list_obeys copy_list_obeys
      new_datum_obeys new_datum_with_defaults_obeys set_type_obeys set_field_obeys delete_field_obeys
      compact_layout_obeys destroy_datum_obeys collect_values_obeys collect_lists_obeys del: heap_room.simps(5))

section \<open>Runs\<close>

primrec run_heap_ops :: "(hash_write list \<Rightarrow> u64) \<Rightarrow> heap_op list \<Rightarrow> value_heap
    \<Rightarrow> (heap_result list \<times> value_heap) option" where
  "run_heap_ops sip [] h = Some ([], h)"
| "run_heap_ops sip (op # ops) h = do {
     (r, h') \<leftarrow> run_heap_op sip op h; (rs, h'') \<leftarrow> run_heap_ops sip ops h'; Some (r # rs, h'') }"

primrec heap_fits :: "(hash_write list \<Rightarrow> u64) \<Rightarrow> heap_op list \<Rightarrow> value_heap \<Rightarrow> bool" where
  "heap_fits sip [] h = True"
| "heap_fits sip (op # ops) h = (heap_room op h \<and> (case run_heap_op sip op h of
       None \<Rightarrow> True | Some (r, h') \<Rightarrow> heap_fits sip ops h'))"

inductive spec_run :: "heap_op list \<Rightarrow> heap_view \<Rightarrow> heap_result list \<Rightarrow> heap_view \<Rightarrow> bool" where
  stop: "spec_run [] V [] V"
| step: "heap_spec op V r W \<Longrightarrow> spec_run ops W rs X \<Longrightarrow> spec_run (op # ops) V (r # rs) X"

inductive_cases spec_run_NilE [elim]: "spec_run [] V rs W"
inductive_cases spec_run_ConsE [elim]: "spec_run (op # ops) V rs W"

lemma run_heap_ops_kept:
  assumes "heap_inv sip h" "heap_fits sip ops h"
  shows "\<exists>rs h'. run_heap_ops sip ops h = Some (rs, h') \<and> heap_kept sip h h'
    \<and> spec_run ops (view_of h) rs (view_of h')"
  using assms
proof (induction ops arbitrary: h)
  case (Cons op ops)
  obtain r h1 where h1: "run_heap_op sip op h = Some (r, h1)" "heap_kept sip h h1"
      "heap_spec op (view_of h) r (view_of h1)"
    using heap_op_obeys [of sip h op] Cons.prems by (auto simp: obeys_def)
  have "heap_inv sip h1" "heap_fits sip ops h1" using h1 Cons.prems(2) by (simp_all add: heap_kept_def)
  from Cons.IH [OF this] obtain rs h2 where "run_heap_ops sip ops h1 = Some (rs, h2)" "heap_kept sip h1 h2"
      "spec_run ops (view_of h1) rs (view_of h2)"
    by blast
  then show ?case using h1 by (auto simp: heap_kept_def intro: spec_run.step)
qed (auto intro: heap_kept_refl spec_run.stop)

lemma dead_not_in_view: "heap_inv sip h \<Longrightarrow> heap_dead h p \<Longrightarrow> \<not> in_view (view_of h) p"
  using dead_unresolved [of "datum_arena h"] dead_unresolved [of "list_arena h"]
  by (cases p) (auto simp: view_of_def datums_of_def lists_of_def heap_inv_def)

lemma dead_stays_unresolved:
  assumes "heap_inv sip h" "heap_dead h p" "heap_fits sip ops h" "run_heap_ops sip ops h = Some (rs, h')"
  shows "\<not> in_view (view_of h') p"
proof -
  have "heap_kept sip h h'" using run_heap_ops_kept [OF assms(1,3)] assms(4) by auto
  then show ?thesis using assms(2) dead_not_in_view unfolding heap_kept_def by blast
qed

end
