(* ===== verification/HeapSnapshotLaws.thy ===== *)
theory HeapSnapshotLaws
  imports HeapSnapshot HeapProps
begin

text \<open>
  A heap image restores the heap: every handle resolves to the same datum or list, and the slots
  and free lists are those of the original, so later allocations issue the same handles.
\<close>

section \<open>Values\<close>

text \<open>The names inside a value are canonical, as \<open>TypePath\<close> and \<open>FieldName\<close> keep them.\<close>

fun value_ok :: "dm_value \<Rightarrow> bool"
  and overrides_ok :: "(string \<times> dm_value) list \<Rightarrow> bool" where
  "value_ok (VTypePath p) \<longleftrightarrow> type_path_parse p = Inr p"
| "value_ok (VModifiedTypePath b os) \<longleftrightarrow> type_path_parse b = Inr b \<and> overrides_ok os"
| "value_ok VNull \<longleftrightarrow> True"
| "value_ok (VNumber n) \<longleftrightarrow> True"
| "value_ok (VText t) \<longleftrightarrow> True"
| "value_ok (VFile p) \<longleftrightarrow> True"
| "value_ok (VDatum d) \<longleftrightarrow> True"
| "value_ok (VList l) \<longleftrightarrow> True"
| "overrides_ok [] \<longleftrightarrow> True"
| "overrides_ok ((n, v) # os) \<longleftrightarrow> field_name_parse n = Inr n \<and> value_ok v \<and> overrides_ok os"

lemma snap_value_round:
  "value_ok v \<Longrightarrow> snap_into_value (snap_of_value v) = Inr v"
  "overrides_ok os \<Longrightarrow> snap_into_overrides (snap_of_overrides os) = Inr os"
  by (induction v and os rule: value_ok_overrides_ok.induct) (simp_all add: res_bind_def)

section \<open>Datums\<close>

definition datum_ok :: "datum_view \<Rightarrow> bool" where
  "datum_ok x \<longleftrightarrow> type_path_parse (fst x) = Inr (fst x) \<and> overrides_ok (snd x)"

lemma snap_of_overrides_map: "map (\<lambda>(n, v). (n, snap_of_value v)) os = snap_of_overrides os"
  by (induction os) auto

lemma restore_datum_spec:
  assumes inv: "datum_inv d" and ok: "datum_ok (show_datum d)"
  shows "\<exists>d'. restore_snapshot_datum (snap_of_datum d) = Inr d' \<and> datum_inv d' \<and> show_datum d' = show_datum d"
proof -
  note D = datum_invD [OF inv]
  let ?d = "\<lparr>datum_type = datum_type d, datum_fields = OwnedFields (datum_iter d), field_index = None\<rparr>"
  let ?d' = "if DATUM_FIELD_INDEX_THRESHOLD \<le> length (datum_iter d) then build_field_index ?d else ?d"
  have "restore_snapshot_datum (snap_of_datum d) = Inr ?d'"
    using ok snap_value_round(2) [of "datum_iter d"]
    by (simp add: restore_snapshot_datum_def snap_of_datum_def datum_ok_def show_datum_def res_bind_def
        snap_of_overrides_map Let_def)
  moreover have "datum_inv ?d'"
    using D(1) layout_index_correct [OF D(1)] by (auto simp: datum_inv_def indexed_names_def build_field_index_def)
  moreover have "show_datum ?d' = show_datum d" by (simp add: show_datum_def datum_iter_def build_field_index_def)
  ultimately show ?thesis by blast
qed

section \<open>Lists\<close>

fun snap_entry :: "entry \<Rightarrow> snapshot_entry" where
  "snap_entry (v, None) = SnapPositional (snap_of_value v)"
| "snap_entry (k, Some v) = SnapAssociative (snap_of_value k) (snap_of_value v)"

fun entry_ok :: "entry \<Rightarrow> bool" where
  "entry_ok (k, v) \<longleftrightarrow> value_ok k \<and> (case v of None \<Rightarrow> True | Some w \<Rightarrow> value_ok w)"

lemma snapshot_entries_spec:
  assumes inv: "list_inv sip l"
  shows "snapshot_list_entries l = Some (map snap_entry (entries l))"
proof -
  have ok: "storage_ok sip l" "prefix_head l \<le> length (list_order l)"
    using inv by (simp_all add: list_inv_def prefix_ok_def)
  let ?f = "\<lambda>e. case order_positional_index e of
         Some index \<Rightarrow> do { v \<leftarrow> vec_get (positional l) index; Some (SnapPositional (snap_of_value v)) }
       | None \<Rightarrow> do {
           index \<leftarrow> order_associative_index e;
           (key, v) \<leftarrow> vec_get (associative l) index;
           Some (SnapAssociative (snap_of_value key) (snap_of_value v)) }"
  have "vec_each ?f (drop (prefix_head l) (list_order l)) = Some (map snap_entry (entries l))"
  proof (rule vec_each_Some)
    fix i assume i: "i < length (drop (prefix_head l) (list_order l))"
    then have "prefix_head l + i < length (list_order l)" by simp
    then show "?f (drop (prefix_head l) (list_order l) ! i) = Some (map snap_entry (entries l) ! i)"
      using slot_shown [OF ok(1) \<open>prefix_head l + i < length (list_order l)\<close>] i
      by (elim disjE exE conjE)
        (simp_all add: entries_def order_positional_index_slot order_associative_index_slot split_beta)
  qed (simp add: entries_def)
  then show ?thesis unfolding snapshot_list_entries_def live_slice [OF inv] by simp
qed

text \<open>A list under construction: no prefix and no index yet.\<close>

definition building :: "dm_list \<Rightarrow> bool" where
  "building l \<longleftrightarrow> prefix_head l = 0 \<and> associative_index l = None \<and> positional_remove_index l = None
     \<and> slots_ok (length (positional l)) (length (associative l)) (slots l)"

lemma building_entries: "building l \<Longrightarrow> entries l = map (show_slot (positional l) (associative l)) (slots l)"
  by (simp add: building_def entries_def)

lemma building_length: "building l \<Longrightarrow> length (list_order l) = length (positional l) + length (associative l)"
  using slots_ok_length [of _ _ "slots l"] by (simp add: building_def)

lemma build_positional:
  fixes v
  assumes b: "building l" and e: "slot_of e = Pos (length (positional l))"
  defines "l' \<equiv> l\<lparr>list_order := list_order l @ [e], positional := positional l @ [v]\<rparr>"
  shows "building l' \<and> entries l' = entries l @ [(v, None)]"
proof
  have ok: "slots_ok (length (positional l)) (length (associative l)) (slots l)" using b by (simp add: building_def)
  show b': "building l'"
    using b slots_ok_append [OF ok, of 1] e by (simp add: building_def l'_def)
  have "map (show_slot (positional l @ [v]) (associative l)) (slots l) = map (show_slot (positional l) (associative l)) (slots l)"
    by (rule map_cong [OF refl], rule show_slot_snoc(1)) (use shown_in_range [OF ok] in blast)
  then show "entries l' = entries l @ [(v, None)]"
    unfolding building_entries [OF b] building_entries [OF b'] by (simp add: l'_def e)
qed

lemma build_associative:
  fixes k v
  assumes b: "building l" and e: "slot_of e = Asc (length (associative l))"
  defines "l' \<equiv> l\<lparr>list_order := list_order l @ [e], associative := associative l @ [(k, v)]\<rparr>"
  shows "building l' \<and> entries l' = entries l @ [(k, Some v)]"
proof
  have ok: "slots_ok (length (positional l)) (length (associative l)) (slots l)" using b by (simp add: building_def)
  show b': "building l'"
    using b ok e by (auto simp: building_def l'_def slots_ok_def lessThan_Suc)
  have "map (show_slot (positional l) (associative l @ [(k, v)])) (slots l) = map (show_slot (positional l) (associative l)) (slots l)"
    by (rule map_cong [OF refl], rule show_slot_snoc(2)) (use shown_in_range [OF ok] in blast)
  then show "entries l' = entries l @ [(k, Some v)]"
    unfolding building_entries [OF b] building_entries [OF b'] by (simp add: l'_def e)
qed

definition entry_pairs :: "entry list \<Rightarrow> (dm_value \<times> dm_value) list" where
  "entry_pairs es = List.map_filter (\<lambda>(k, v). map_option (Pair k) v) es"

lemma entry_pairs_simps [simp]:
  "entry_pairs [] = []" "entry_pairs ((k, None) # es) = entry_pairs es"
  "entry_pairs ((k, Some v) # es) = (k, v) # entry_pairs es"
  by (simp_all add: entry_pairs_def map_filter_simps)

lemma restore_entries_spec:
  assumes "building l" "length (list_order l) + length es \<le> max_entries" "\<forall>e \<in> set es. entry_ok e"
  shows "\<exists>l'. restore_entries (map snap_entry es) l = Some (Inr l') \<and> building l' \<and> entries l' = entries l @ es
    \<and> associative l' = associative l @ entry_pairs es \<and> length (list_order l') = length (list_order l) + length es"
  using assms
proof (induction es arbitrary: l)
  case (Cons e es)
  obtain k w where kw: "e = (k, w)" by (cases e)
  have len: "length (positional l) < 2147483648" "length (associative l) < 2147483648"
    using building_length [OF Cons.prems(1)] Cons.prems(2) by (simp_all add: max_entries_def)
  have k: "snap_into_value (snap_of_value k) = Inr k" using Cons.prems(3) kw by (simp add: snap_value_round)
  show ?case
  proof (cases w)
    case None
    obtain x where x: "order_positional (length (positional l)) = Some x" "slot_of x = Pos (length (positional l))"
      using order_positional_small [OF len(1)] by blast
    let ?l = "l\<lparr>list_order := list_order l @ [x], positional := positional l @ [k]\<rparr>"
    have b: "building ?l" "entries ?l = entries l @ [(k, None)]"
      using build_positional [OF Cons.prems(1) x(2), of k] by simp_all
    from Cons.IH [OF b(1)] Cons.prems show ?thesis
      using x(1) k b(2) by (auto simp: kw None)
  next
    case (Some v)
    obtain x where x: "order_associative (length (associative l)) = Some x" "slot_of x = Asc (length (associative l))"
      using order_associative_small [OF len(2)] by blast
    let ?l = "l\<lparr>list_order := list_order l @ [x], associative := associative l @ [(k, v)]\<rparr>"
    have b: "building ?l" "entries ?l = entries l @ [(k, Some v)]"
      using build_associative [OF Cons.prems(1) x(2), of k v] by simp_all
    have v: "snap_into_value (snap_of_value v) = Inr v" using Cons.prems(3) kw Some by (simp add: snap_value_round)
    from Cons.IH [OF b(1)] Cons.prems show ?thesis
      using x(1) k v b(2) by (auto simp: kw Some res_bind_def)
  qed
qed simp

text \<open>The pairs in entry order are the stored pairs, permuted.\<close>

primrec asc_indices :: "slot list \<Rightarrow> nat list" where
  "asc_indices [] = []"
| "asc_indices (s # ss) = (case s of Asc i \<Rightarrow> i # asc_indices ss | Pos i \<Rightarrow> asc_indices ss)"

lemma asc_indices_set: "i \<in> set (asc_indices ss) \<longleftrightarrow> Asc i \<in> set ss"
  by (induction ss) (auto split: slot.split)

lemma asc_indices_distinct: "distinct ss \<Longrightarrow> distinct (asc_indices ss)"
  by (induction ss) (auto simp: asc_indices_set split: slot.split)

lemma entry_pairs_slots: "entry_pairs (map (show_slot ps as) ss) = map ((!) as) (asc_indices ss)"
  by (induction ss) (auto split: slot.split)

lemma keys_distinct_permuted:
  assumes "keys_distinct as" "distinct js" "\<forall>j \<in> set js. j < length as"
  shows "keys_distinct (map ((!) as) js)"
  unfolding keys_distinct_def
proof (intro allI impI)
  fix i j assume ij: "i < length (map ((!) as) js)" "j < length (map ((!) as) js)"
    and eq: "semantic_eq (fst (map ((!) as) js ! i)) (fst (map ((!) as) js ! j))"
  have "js ! i < length as" "js ! j < length as" using assms(3) ij by simp_all
  then have "js ! i = js ! j" using assms(1) ij eq unfolding keys_distinct_def by simp
  then show "i = j" using assms(2) ij by (simp add: nth_eq_iff_index_eq)
qed

lemma entry_pairs_distinct:
  assumes inv: "list_inv sip l"
  shows "keys_distinct (entry_pairs (entries l))" "length (entries l) \<le> max_entries"
proof -
  have ok: "storage_ok sip l" using inv by (simp add: list_inv_def)
  let ?ss = "drop (prefix_head l) (slots l)"
  have "distinct ?ss" "set ?ss \<subseteq> Pos ` {..<length (positional l)} \<union> Asc ` {..<length (associative l)}"
    using ok set_drop_subset [of "prefix_head l" "slots l"] by (auto simp: storage_ok_def slots_ok_def distinct_drop)
  then have "distinct (asc_indices ?ss)" "\<forall>j \<in> set (asc_indices ?ss). j < length (associative l)"
    by (auto simp: asc_indices_distinct asc_indices_set)
  then show "keys_distinct (entry_pairs (entries l))"
    unfolding entries_def entry_pairs_slots using ok by (intro keys_distinct_permuted) (simp_all add: storage_ok_def)
  show "length (entries l) \<le> max_entries" using ok unfolding entries_def storage_ok_def by auto
qed

lemma restore_list_spec:
  assumes inv: "list_inv sip l" and ok: "\<forall>e \<in> set (entries l). entry_ok e"
  shows "\<exists>l'. restore_list_entries sip (map snap_entry (entries l)) = Some (Inr l')
    \<and> list_inv sip l' \<and> entries l' = entries l"
proof (cases "entries l = []")
  case True
  then show ?thesis by (simp add: restore_list_entries_def list_inv_new)
next
  case False
  have b: "building dm_list_new" by (simp add: building_def dm_list_new_def slots_ok_def)
  have len: "length (list_order dm_list_new) + length (entries l) \<le> max_entries"
    using entry_pairs_distinct(2) [OF inv] by (simp add: dm_list_new_def)
  obtain l' where l': "restore_entries (map snap_entry (entries l)) dm_list_new = Some (Inr l')" "building l'"
      "entries l' = entries l" "associative l' = entry_pairs (entries l)" "length (list_order l') = length (entries l)"
    using restore_entries_spec [OF b len ok] by (auto simp: list_inv_new(2)) (auto simp: dm_list_new_def)
  have small: "length (associative l') \<le> 2147483648"
    using building_length [OF l'(2)] l'(5) entry_pairs_distinct(2) [OF inv] by (simp add: max_entries_def)
  obtain io where io: "rebuild_associative_index sip l' = Some (l'\<lparr>associative_index := io\<rparr>)"
      "index_ok sip (associative l') io"
    using rebuild_index_ok [OF small] by blast
  have "list_inv sip (l'\<lparr>associative_index := io\<rparr>)"
    using l' io(2) entry_pairs_distinct [OF inv]
    by (simp add: list_inv_def storage_ok_def prefix_ok_def removal_ok_def building_def)
  moreover have "entries (l'\<lparr>associative_index := io\<rparr>) = entries l" using l'(3) by (simp add: entries_def)
  ultimately show ?thesis using l'(1) io(1) False by (simp add: restore_list_entries_def)
qed

section \<open>Arenas\<close>

definition same_handles :: "'a arena \<Rightarrow> 'b arena \<Rightarrow> bool" where
  "same_handles a b \<longleftrightarrow> map slot_generation (arena_slots a) = map slot_generation (arena_slots b)
     \<and> free_slots a = free_slots b"

lemma try_each_map:
  "(\<And>x. x \<in> set xs \<Longrightarrow> f (w x) = Some (Inr (g x))) \<Longrightarrow> try_each f (map w xs) = Some (Inr (map g xs))"
  by (induction xs) (simp_all add: res_bind_def)

lemma slot_values_live:
  assumes inv: "arena_inv a" and s: "s \<in> set (arena_slots a)" "slot_value s = Some v"
  shows "\<exists>k. arena_map a k = Some v"
proof -
  obtain n where n: "n < length (arena_slots a)" "s = arena_slots a ! n" using s(1) by (auto simp: in_set_conv_nth)
  then have "arena_map a (of_nat n, slot_generation s) = Some v"
    using s(2) unat_of_index [OF index_bound [OF inv n(1)]] by (simp add: arena_map_Some [OF arena_invD(1) [OF inv]])
  then show ?thesis ..
qed

text \<open>Writing every value out and reading it back: \<open>p\<close> is what is written, \<open>r\<close> what comes back.\<close>

lemma arena_round_trip:
  assumes inv: "arena_inv a"
    and trip: "\<And>key v. arena_map a key = Some v \<Longrightarrow> f v = Some (p v) \<and> k (p v) = Some (Inr (r v))"
  shows "\<exists>ss vs b. snap_slots f a = Some ss \<and> try_each (restore_slot k) ss = Some (Inr vs)
    \<and> arena_from_snapshot_slots vs (free_slots a) kind = Inr b \<and> arena_inv b \<and> same_handles b a
    \<and> (\<forall>key. arena_map b key = map_option r (arena_map a key))"
proof -
  note D = arena_invD [OF inv]
  let ?snap = "\<lambda>s. \<lparr>snap_generation = slot_generation s, snap_value = map_option p (slot_value s)\<rparr>"
  let ?reread = "\<lambda>s. (slot_generation s, map_option r (slot_value s))"
  have live: "f v = Some (p v) \<and> k (p v) = Some (Inr (r v))" if "s \<in> set (arena_slots a)" "slot_value s = Some v" for s v
    using slot_values_live [OF inv that] trip by blast
  have written: "snap_slots f a = Some (map ?snap (arena_slots a))"
    unfolding snap_slots_def D(2)
  proof (rule vec_each_Some)
    fix i assume "i < length [0..<length (arena_slots a)]"
    then have i: "i < length (arena_slots a)" by simp
    show "do { s \<leftarrow> arena_slot_at a ([0..<length (arena_slots a)] ! i);
        v \<leftarrow> each_option f (slot_value s);
        Some \<lparr>snap_generation = slot_generation s, snap_value = v\<rparr> } = Some (map ?snap (arena_slots a) ! i)"
      using i live [OF nth_mem [OF i]]
      by (cases "slot_value (arena_slots a ! i)") (simp_all add: arena_slot_at_flat [OF D(1)] each_option_def)
  qed simp
  have "restore_slot k (?snap s) = Some (Inr (?reread s))" if "s \<in> set (arena_slots a)" for s
    using live [OF that] by (cases "slot_value s") (simp_all add: restore_slot_def res_bind_def)
  then have read: "try_each (restore_slot k) (map ?snap (arena_slots a)) = Some (Inr (map ?reread (arena_slots a)))"
    by (rule try_each_map)
  obtain b where b: "arena_from_snapshot_slots (map ?reread (arena_slots a)) (free_slots a) kind = Inr b"
    using arena_snapshot_accepts [OF inv, of "map ?reread (arena_slots a)" kind] D(2) by (auto simp: occupied_def)
  have "length (map ?reread (arena_slots a)) \<le> 2 ^ 32" using D(2,3) by simp
  from arena_from_snapshot_inv [OF b this]
  have b': "arena_inv b" "arena_slots b = map pair_slot (map ?reread (arena_slots a))" "free_slots b = free_slots a"
    by simp_all
  have "same_handles b a" using b'(2,3) by (simp add: same_handles_def pair_slot_def)
  moreover have "arena_map b key = map_option r (arena_map a key)" for key
    using b'(2) by (cases key) (auto simp: arena_map_def arena_get_flat [OF arena_invD(1) [OF b'(1)]]
        arena_get_flat [OF D(1)] pair_slot_def)
  ultimately show ?thesis using written read b b'(1) by blast
qed

section \<open>Compacting the restored datums\<close>

text \<open>One live slot written in place.\<close>

lemma arena_write_live:
  assumes inv: "arena_inv a" and k: "k < length (arena_slots a)" "slot_value (arena_slots a ! k) = Some v"
  shows "\<exists>b key. arena_slot_write k ((arena_slots a ! k)\<lparr>slot_value := Some w\<rparr>) a = Some b \<and> arena_inv b
    \<and> arena_map a key = Some v \<and> arena_map b = (arena_map a)(key \<mapsto> w) \<and> same_handles b a"
proof -
  note D = arena_invD [OF inv]
  let ?i = "of_nat k :: u32" and ?g = "slot_generation (arena_slots a ! k)"
  have u: "unat ?i = k" using unat_of_index index_bound [OF inv k(1)] by blast
  have get: "arena_map a (?i, ?g) = Some v" using k by (simp add: arena_map_Some [OF D(1)] u)
  have "arena_modify ?i ?g (\<lambda>_. w) a = arena_slot_write k ((arena_slots a ! k)\<lparr>slot_value := Some w\<rparr>) a"
    using k by (simp add: arena_modify_def arena_slot_at_flat [OF D(1)] u)
  then show ?thesis using arena_modify_some [OF inv get, of "\<lambda>_. w"] get by (auto simp: same_handles_def)
qed

lemma same_handles_trans: "same_handles a b \<Longrightarrow> same_handles b c \<Longrightarrow> same_handles a c"
  by (simp add: same_handles_def)

lemma compact_restored_spec:
  assumes "heap_inv sip h"
  shows "\<exists>h'. compact_restored ks h = Some h' \<and> heap_inv sip h' \<and> view_of h' = view_of h
    \<and> same_handles (datum_arena h') (datum_arena h) \<and> list_arena h' = list_arena h"
  using assms
proof (induction ks arbitrary: h)
  case (Cons k ks)
  note D = heap_invD [OF Cons.prems]
  show ?case
  proof (cases "k < length (arena_slots (datum_arena h)) \<and> slot_value (arena_slots (datum_arena h) ! k) \<noteq> None")
    case False
    then have "compact_restored (k # ks) h = compact_restored ks h"
      by (auto simp: arena_slot_at_flat [OF arena_invD(1) [OF D(1)]] vec_get_def split: option.split)
    then show ?thesis using Cons.IH [OF Cons.prems] by simp
  next
    case True
    then obtain d where k: "k < length (arena_slots (datum_arena h))" "slot_value (arena_slots (datum_arena h) ! k) = Some d"
      by auto
    obtain d' c where c: "compact_layout d (datum_layouts h) = (d', c)" by (cases "compact_layout d (datum_layouts h)")
    obtain b key where b: "arena_slot_write k ((arena_slots (datum_arena h) ! k)\<lparr>slot_value := Some d'\<rparr>) (datum_arena h) = Some b"
        "arena_inv b" "arena_map (datum_arena h) key = Some d" "arena_map b = (arena_map (datum_arena h))(key \<mapsto> d')"
        "same_handles b (datum_arena h)"
      using arena_write_live [OF D(1) k] by blast
    note s = compact_layout_spec [OF all_liveD [OF D(4) b(3)] D(3) c]
    let ?h = "h\<lparr>datum_arena := b, datum_layouts := c\<rparr>"
    have live: "all_live datum_inv b" using all_live_upd [OF D(4) _ b(4)] s by blast
    have "heap_inv sip ?h" using D b(2) live s by (simp add: heap_inv_def)
    moreover have "show_datum d' = show_datum d" using s by (simp add: show_datum_def)
    then have "datums_of ?h = datums_of h"
      by (intro ext) (simp add: datums_of_def b(3,4))
    then have "view_of ?h = view_of h" by (simp add: view_of_def lists_of_def)
    moreover have "compact_restored (k # ks) h = compact_restored ks ?h"
      using k b(1) c by (simp add: arena_slot_at_flat [OF arena_invD(1) [OF D(1)]])
    ultimately show ?thesis
      using Cons.IH [of ?h] same_handles_trans [OF _ b(5)] by auto
  qed
qed (simp add: same_handles_def)

section \<open>The whole heap\<close>

definition names_ok :: "heap_view \<Rightarrow> bool" where
  "names_ok V \<longleftrightarrow> (\<forall>d x. fst V d = Some x \<longrightarrow> datum_ok x) \<and> (\<forall>l es. snd V l = Some es \<longrightarrow> (\<forall>e \<in> set es. entry_ok e))"

lemma live_datum_shown: "arena_map (datum_arena h) k = Some d \<Longrightarrow> \<exists>key. datums_of h key = Some (show_datum d)"
  by (cases k) (auto simp: datums_of_def intro: exI [of _ "DatumId (fst k) (snd k)"])

lemma live_list_shown: "arena_map (list_arena h) k = Some l \<Longrightarrow> \<exists>key. lists_of h key = Some (entries l)"
  by (cases k) (auto simp: lists_of_def intro: exI [of _ "ListId (fst k) (snd k)"])

lemma snapshot_round_trip:
  assumes inv: "heap_inv sip h" and ok: "names_ok (view_of h)"
  shows "\<exists>s h'. heap_snapshot h = Some s \<and> heap_from_snapshot sip s = Some (Inr h') \<and> heap_inv sip h'
    \<and> view_of h' = view_of h \<and> same_handles (datum_arena h') (datum_arena h)
    \<and> same_handles (list_arena h') (list_arena h)"
proof -
  note D = heap_invD [OF inv]
  define rd where "rd d = projr (restore_snapshot_datum (snap_of_datum d))" for d
  have rd: "restore_snapshot_datum (snap_of_datum d) = Inr (rd d) \<and> datum_inv (rd d) \<and> show_datum (rd d) = show_datum d"
    if "arena_map (datum_arena h) key = Some d" for key d
  proof -
    have "datum_ok (show_datum d)"
      using live_datum_shown [OF that] ok unfolding names_ok_def view_parts by blast
    then show ?thesis using restore_datum_spec [OF all_liveD [OF D(4) that]] by (auto simp: rd_def)
  qed
  define rl where "rl l = projr (the (restore_list_entries sip (map snap_entry (entries l))))" for l
  have rl: "restore_list_entries sip (map snap_entry (entries l)) = Some (Inr (rl l)) \<and> list_inv sip (rl l)
      \<and> entries (rl l) = entries l" if "arena_map (list_arena h) key = Some l" for key l
  proof -
    have "\<forall>e \<in> set (entries l). entry_ok e"
      using live_list_shown [OF that] ok unfolding names_ok_def view_parts by blast
    then show ?thesis using restore_list_spec [OF all_liveD [OF D(5) that]] by (auto simp: rl_def)
  qed
  obtain sd vd ds where ds: "snap_slots (\<lambda>d. Some (snap_of_datum d)) (datum_arena h) = Some sd"
      "try_each (restore_slot (\<lambda>d. Some (restore_snapshot_datum d))) sd = Some (Inr vd)"
      "arena_from_snapshot_slots vd (free_slots (datum_arena h)) ''datum'' = Inr ds" "arena_inv ds"
      "same_handles ds (datum_arena h)" "\<And>key. arena_map ds key = map_option rd (arena_map (datum_arena h) key)"
    using arena_round_trip [OF D(1), of "\<lambda>d. Some (snap_of_datum d)" snap_of_datum
        "\<lambda>d. Some (restore_snapshot_datum d)" rd "''datum''"] rd by auto
  obtain sl vl ls where ls: "snap_slots snapshot_list_entries (list_arena h) = Some sl"
      "try_each (restore_slot (restore_list_entries sip)) sl = Some (Inr vl)"
      "arena_from_snapshot_slots vl (free_slots (list_arena h)) ''list'' = Inr ls" "arena_inv ls"
      "same_handles ls (list_arena h)" "\<And>key. arena_map ls key = map_option rl (arena_map (list_arena h) key)"
    using arena_round_trip [OF D(2), of snapshot_list_entries "\<lambda>l. map snap_entry (entries l)"
        "restore_list_entries sip" rl "''list''"] rl snapshot_entries_spec [OF all_liveD [OF D(5)]] by auto
  let ?h = "\<lparr>datum_arena = ds, list_arena = ls, datum_layouts = layout_cache_new\<rparr>"
  have "all_live datum_inv ds" "all_live (list_inv sip) ls"
    using rd rl by (auto simp: all_live_def ds(6) ls(6))
  then have hinv: "heap_inv sip ?h" using ds(4) ls(4) by (simp add: heap_inv_def layout_cache_new_inv)
  have view: "view_of ?h = view_of h"
  proof -
    have "datums_of ?h d = datums_of h d" for d
      using rd by (cases "arena_map (datum_arena h) (datum_key d)") (auto simp: datums_of_def ds(6))
    moreover have "lists_of ?h l = lists_of h l" for l
      using rl by (cases "arena_map (list_arena h) (list_key l)") (auto simp: lists_of_def ls(6))
    ultimately show ?thesis by (simp add: view_of_def fun_eq_iff)
  qed
  obtain h' where h': "compact_restored_datum_layouts ?h = Some h'" "heap_inv sip h'" "view_of h' = view_of ?h"
      "same_handles (datum_arena h') ds" "list_arena h' = ls"
    using compact_restored_spec [OF hinv] by (auto simp: compact_restored_datum_layouts_def)
  let ?s = "\<lparr>snap_datums = sd, snap_datum_free = free_slots (datum_arena h),
       snap_lists = sl, snap_list_free = free_slots (list_arena h)\<rparr>"
  have "heap_snapshot h = Some ?s" using ds(1) ls(1) by (simp add: heap_snapshot_def)
  moreover have "heap_from_snapshot sip ?s = Some (Inr h')"
    using ds(2,3) ls(2,3) h'(1) by (simp add: heap_from_snapshot_def res_bind_def)
  ultimately show ?thesis
    using h' view ls(5) same_handles_trans [OF h'(4) ds(5)] by auto
qed

end
