(* ===== verification/HeapContainerLaws.thy ===== *)
theory HeapContainerLaws
  imports HeapContainer HeapSnapshotLaws
begin

text \<open>
  The container of heap images: what is written is read back, with the limits of the reader as the
  only exception; the streaming writer writes the image; the streaming loader accepts what reading
  an image and restoring it accepts.
\<close>

section \<open>Primitives\<close>

named_theorems get_put \<open>reading what was just written\<close>

lemma get_bind_simps [simp]:
  "get_bind (Inl e) f = Inl e" "get_bind (Inr (x, bs)) f = f x bs"
  by (simp_all add: get_bind_def)

lemma get_bind_Inr_iff:
  "get_bind r f = Inr y \<longleftrightarrow> (\<exists>x bs. r = Inr (x, bs) \<and> f x bs = Inr y)"
  by (cases r) auto

lemma read_exact_append: "length bs = n \<Longrightarrow> read_exact n (bs @ rest) = Inr (bs, rest)"
  by (auto simp: read_exact_def)

lemma get_u8_Cons [get_put]: "get_u8 (b # bs) = Inr (b, bs)"
  by (simp add: get_u8_def read_exact_def)

lemma get_u32_put [get_put]: "get_u32 (put_u32 v @ bs) = Inr (v, bs)"
  by (simp add: get_u32_def put_u32_def read_exact_append from_le_exact)

lemma get_len_put [get_put]:
  assumes "n \<le> mx" "mx \<le> usize_max"
  shows "get_len mx (put_len n @ bs) = Inr (n, bs)"
proof -
  have "unat (of_nat n :: u64) = n"
    using assms by (simp add: unsigned_of_nat take_bit_nat_eq_self_iff usize_max_def)
  then show ?thesis using assms(1) by (simp add: get_len_def put_len_def read_exact_append from_le_exact)
qed

lemma limits [simp]: "MAX_SLOTS \<le> usize_max" "MAX_ENTRIES \<le> usize_max" "MAX_HEAP_STRING_BYTES \<le> usize_max"
  by (simp_all add: MAX_SLOTS_def MAX_ENTRIES_def MAX_HEAP_STRING_BYTES_def usize_max_def)

text \<open>A string the reader accepts; Rust strings are valid UTF-8.\<close>

definition string_fits :: "string \<Rightarrow> bool" where
  "string_fits s \<longleftrightarrow> utf8_valid s \<and> length s \<le> MAX_HEAP_STRING_BYTES"

lemma get_string_put [get_put]: "string_fits s \<Longrightarrow> get_string (put_string s @ bs) = Inr (s, bs)"
  by (simp add: get_string_def put_string_def string_fits_def get_put read_exact_append from_utf8_as_bytes)

lemma get_repeat_put:
  "(\<And>x bs. x \<in> set xs \<Longrightarrow> f (p x @ bs) = Inr (x, bs)) \<Longrightarrow>
   get_repeat f (length xs) (concat (map p xs) @ bs) = Inr (xs, bs)"
  by (induction xs arbitrary: bs) simp_all

lemma get_u32_vec_put [get_put]:
  "length vs \<le> mx \<Longrightarrow> mx \<le> usize_max \<Longrightarrow> get_u32_vec mx (put_u32_vec vs @ bs) = Inr (vs, bs)"
  by (simp add: get_u32_vec_def put_u32_vec_def get_put get_repeat_put)

section \<open>Values\<close>

text \<open>Nesting of modified type paths: what the recursion of the reader counts.\<close>

fun nesting :: "snapshot_value \<Rightarrow> nat"
  and override_nesting :: "(string \<times> snapshot_value) list \<Rightarrow> nat" where
  "nesting (SnapModifiedTypePath b os) = override_nesting os"
| "nesting SnapNull = 0"
| "nesting (SnapNumber n) = 0"
| "nesting (SnapText t) = 0"
| "nesting (SnapFile p) = 0"
| "nesting (SnapTypePath p) = 0"
| "nesting (SnapDatum i g) = 0"
| "nesting (SnapList i g) = 0"
| "override_nesting [] = 0"
| "override_nesting ((n, v) # os) = max (Suc (nesting v)) (override_nesting os)"

fun lengths_fit :: "snapshot_value \<Rightarrow> bool"
  and override_lengths_fit :: "(string \<times> snapshot_value) list \<Rightarrow> bool" where
  "lengths_fit (SnapModifiedTypePath b os) \<longleftrightarrow>
     string_fits b \<and> length os \<le> MAX_ENTRIES \<and> override_lengths_fit os"
| "lengths_fit SnapNull \<longleftrightarrow> True"
| "lengths_fit (SnapNumber n) \<longleftrightarrow> True"
| "lengths_fit (SnapText t) \<longleftrightarrow> string_fits t"
| "lengths_fit (SnapFile p) \<longleftrightarrow> string_fits p"
| "lengths_fit (SnapTypePath p) \<longleftrightarrow> string_fits p"
| "lengths_fit (SnapDatum i g) \<longleftrightarrow> True"
| "lengths_fit (SnapList i g) \<longleftrightarrow> True"
| "override_lengths_fit [] \<longleftrightarrow> True"
| "override_lengths_fit ((n, v) # os) \<longleftrightarrow> string_fits n \<and> lengths_fit v \<and> override_lengths_fit os"

text \<open>The reader's answer on a written value, both sides of its nesting limit.\<close>

lemma get_value_put:
  "lengths_fit v \<Longrightarrow> get_value depth (put_value v @ bs) =
     (if depth + nesting v \<le> MAX_VALUE_DEPTH then Inr (v, bs) else Inl ValueNestingExceeds)"
  "override_lengths_fit os \<Longrightarrow> get_overrides (length os) depth (put_overrides os @ bs) =
     (if os = [] \<or> depth + override_nesting os \<le> Suc MAX_VALUE_DEPTH then Inr (os, bs)
      else Inl ValueNestingExceeds)"
proof (induction v and os arbitrary: depth bs and depth bs rule: put_value_put_overrides.induct)
  case (6 b os)
  then show ?case
    by (cases os) (auto simp: get_value.simps [of depth] get_put)
next
  case (10 n v os)
  then show ?case by (cases os) (auto simp: get_put)
qed (auto simp: get_value.simps get_put)

definition value_fits :: "snapshot_value \<Rightarrow> bool" where
  "value_fits v \<longleftrightarrow> lengths_fit v \<and> nesting v \<le> MAX_VALUE_DEPTH"

lemma get_value_fits [get_put]: "value_fits v \<Longrightarrow> get_value 0 (put_value v @ bs) = Inr (v, bs)"
  by (simp add: value_fits_def get_value_put)

section \<open>Images\<close>

definition datum_fits :: "snapshot_datum \<Rightarrow> bool" where
  "datum_fits d \<longleftrightarrow> string_fits (snap_type_path d) \<and> length (snap_fields d) \<le> MAX_ENTRIES
     \<and> list_all (\<lambda>(n, v). string_fits n \<and> value_fits v) (snap_fields d)"

fun entry_fits :: "snapshot_entry \<Rightarrow> bool" where
  "entry_fits (SnapPositional v) \<longleftrightarrow> value_fits v"
| "entry_fits (SnapAssociative k v) \<longleftrightarrow> value_fits k \<and> value_fits v"

definition list_fits :: "snapshot_entry list \<Rightarrow> bool" where
  "list_fits es \<longleftrightarrow> length es \<le> MAX_ENTRIES \<and> list_all entry_fits es"

definition slots_fit :: "('a \<Rightarrow> bool) \<Rightarrow> 'a snapshot_slot list \<Rightarrow> bool" where
  "slots_fit f ss \<longleftrightarrow> length ss \<le> MAX_SLOTS \<and> (\<forall>s \<in> set ss. \<forall>x \<in> set_option (snap_value s). f x)"

definition image_fits :: "heap_image \<Rightarrow> bool" where
  "image_fits s \<longleftrightarrow> slots_fit datum_fits (snap_datums s) \<and> slots_fit list_fits (snap_lists s)
     \<and> length (snap_datum_free s) \<le> MAX_SLOTS \<and> length (snap_list_free s) \<le> MAX_SLOTS"

lemma get_datum_put: "datum_fits d \<Longrightarrow> get_datum (put_datum d @ bs) = Inr (d, bs)"
  using get_repeat_put [of "snap_fields d" "\<lambda>bs. get_bind (get_string bs) (\<lambda>name bs.
      get_bind (get_value 0 bs) (\<lambda>v bs. Inr ((name, v), bs)))" "\<lambda>(n, v). put_string n @ put_value v" bs]
  by (simp add: get_datum_def put_datum_def datum_fits_def get_put list_all_iff split_beta)

lemma get_entry_put: "entry_fits e \<Longrightarrow> get_entry (put_entry e @ bs) = Inr (e, bs)"
  by (cases e) (simp_all add: get_entry_def get_put)

lemma get_list_put: "list_fits es \<Longrightarrow> get_list (put_list es @ bs) = Inr (es, bs)"
  by (simp add: get_list_def put_list_def list_fits_def get_put get_repeat_put get_entry_put list_all_iff)

lemma get_slot_put:
  "(\<And>x bs. snap_value s = Some x \<Longrightarrow> f (p x @ bs) = Inr (x, bs)) \<Longrightarrow>
   get_slot f (put_slot p s @ bs) = Inr (s, bs)"
  by (cases "snap_value s") (simp_all add: get_slot_def put_slot_def get_put)

lemma get_slots_put:
  assumes "slots_fit ok ss" "\<And>x bs. ok x \<Longrightarrow> f (p x @ bs) = Inr (x, bs)"
  shows "get_slots f (put_slots p ss @ bs) = Inr (ss, bs)"
proof -
  have "get_repeat (get_slot f) (length ss) (concat (map (put_slot p) ss) @ bs) = Inr (ss, bs)"
  proof (rule get_repeat_put)
    fix s bs assume "s \<in> set ss"
    then have "snap_value s = Some x \<Longrightarrow> ok x" for x using assms(1) by (auto simp: slots_fit_def)
    then show "get_slot f (put_slot p s @ bs) = Inr (s, bs)" using assms(2) by (intro get_slot_put) auto
  qed
  then show ?thesis using assms(1) by (simp add: get_slots_def put_slots_def get_put slots_fit_def)
qed

lemma get_header_put: "get_header (HEAP_MAGIC @ put_u32 HEAP_VERSION @ bs) = Inr ((), bs)"
  by (simp add: get_header_def read_exact_append get_put)

lemma get_image_put: "image_fits s \<Longrightarrow> get_image (put_image s @ bs) = Inr (s, bs)"
  by (simp add: get_image_def put_image_def image_fits_def get_put get_header_put
      get_slots_put [of datum_fits _ get_datum put_datum] get_slots_put [of list_fits _ get_list put_list]
      get_datum_put get_list_put)

section \<open>The streaming writer\<close>

lemma put_runtime_value_snap:
  "put_runtime_value v = put_value (snap_of_value v)"
  "put_runtime_overrides os = put_overrides (snap_of_overrides os) \<and> length (snap_of_overrides os) = length os"
  by (induction v and os rule: put_runtime_value_put_runtime_overrides.induct) simp_all

lemma put_runtime_datum_snap: "datum_inv d \<Longrightarrow> put_runtime_datum d = put_datum (snap_of_datum d)"
  using datum_invD(3) [of d]
  by (simp add: put_runtime_datum_def put_datum_def snap_of_datum_def put_runtime_value_snap case_prod_unfold comp_def)

lemma vec_each_map_option:
  "(\<And>x. f x = map_option p (g x)) \<Longrightarrow> vec_each f xs = map_option (map p) (vec_each g xs)"
proof (induction xs)
  case (Cons x xs)
  then show ?case by (cases "g x"; cases "vec_each g xs") simp_all
qed simp

lemma vec_each_length: "vec_each f xs = Some ys \<Longrightarrow> length ys = length xs"
  by (induction xs arbitrary: ys) auto

lemma put_runtime_list_snap: "put_runtime_list l = map_option put_list (snapshot_list_entries l)"
proof (cases "vec_slice (list_order l) (prefix_head l) (length (list_order l))")
  case None
  then show ?thesis by (simp add: put_runtime_list_def snapshot_list_entries_def)
next
  case (Some live)
  let ?g = "\<lambda>e. case order_positional_index e of
         Some index \<Rightarrow> do { v \<leftarrow> vec_get (positional l) index; Some (SnapPositional (snap_of_value v)) }
       | None \<Rightarrow> do {
           index \<leftarrow> order_associative_index e;
           (key, v) \<leftarrow> vec_get (associative l) index;
           Some (SnapAssociative (snap_of_value key) (snap_of_value v)) }"
  let ?f = "\<lambda>e. case order_positional_index e of
         Some index \<Rightarrow> do { v \<leftarrow> vec_get (positional l) index; Some ([0] @ put_runtime_value v) }
       | None \<Rightarrow> do {
           index \<leftarrow> order_associative_index e;
           (key, v) \<leftarrow> vec_get (associative l) index;
           Some ([1] @ put_runtime_value key @ put_runtime_value v) }"
  have "?f e = map_option put_entry (?g e)" for e
  proof (cases "order_positional_index e")
    case None
    then show ?thesis
    proof (cases "order_associative_index e")
      case (Some index)
      then show ?thesis unfolding None Some option.case Option.bind.bind_lunit
        by (cases "vec_get (associative l) index") (simp_all add: split_beta put_runtime_value_snap)
    next
      case inner: None
      then show ?thesis unfolding None inner by simp
    qed
  next
    case (Some index)
    then show ?thesis unfolding Some option.case
      by (cases "vec_get (positional l) index") (simp_all add: put_runtime_value_snap)
  qed
  then have each: "vec_each ?f live = map_option (map put_entry) (vec_each ?g live)"
    by (rule vec_each_map_option)
  have snap: "snapshot_list_entries l = vec_each ?g live"
    unfolding snapshot_list_entries_def Some by simp
  have "put_runtime_list l = Option.bind (vec_each ?f live) (\<lambda>bytes. Some (put_len (length live) @ concat bytes))"
    unfolding put_runtime_list_def Some by simp
  then show ?thesis unfolding each snap
    using vec_each_length [of ?g live] by (cases "vec_each ?g live") (simp_all add: put_list_def)
qed

text \<open>One arena: the bytes are those of its image's slots.\<close>

lemma put_arena_snap:
  assumes inv: "arena_inv a"
    and w: "\<And>key v. arena_map a key = Some v \<Longrightarrow> g v = Some (w v) \<and> f v = Some (p (w v))"
  shows "\<exists>ss. snap_slots g a = Some ss \<and> put_arena f a = Some (put_slots p ss)"
proof -
  note D = arena_invD [OF inv]
  let ?snap = "\<lambda>s. \<lparr>snap_generation = slot_generation s, snap_value = map_option w (slot_value s)\<rparr>"
  have live: "g v = Some (w v) \<and> f v = Some (p (w v))" if "s \<in> set (arena_slots a)" "slot_value s = Some v" for s v
    using slot_values_live [OF inv that] w by blast
  have "snap_slots g a = Some (map ?snap (arena_slots a))"
    unfolding snap_slots_def D(2)
  proof (rule vec_each_Some)
    fix i assume "i < length [0..<length (arena_slots a)]"
    then have i: "i < length (arena_slots a)" by simp
    show "do { s \<leftarrow> arena_slot_at a ([0..<length (arena_slots a)] ! i);
        v \<leftarrow> each_option g (slot_value s);
        Some \<lparr>snap_generation = slot_generation s, snap_value = v\<rparr> } = Some (map ?snap (arena_slots a) ! i)"
      using i live [OF nth_mem [OF i]]
      by (cases "slot_value (arena_slots a ! i)") (simp_all add: arena_slot_at_flat [OF D(1)] each_option_def)
  qed simp
  moreover have "vec_each (\<lambda>index. do {
       s \<leftarrow> arena_slot_at a index;
       payload \<leftarrow> (case slot_value s of None \<Rightarrow> Some [] | Some v \<Rightarrow> f v);
       Some (put_u32 (slot_generation s) @ [if slot_value s \<noteq> None then 1 else 0] @ payload) }) [0..<slot_len a]
    = Some (map (put_slot p) (map ?snap (arena_slots a)))"
    unfolding D(2)
  proof (rule vec_each_Some)
    fix i assume "i < length [0..<length (arena_slots a)]"
    then have i: "i < length (arena_slots a)" by simp
    show "do { s \<leftarrow> arena_slot_at a ([0..<length (arena_slots a)] ! i);
        payload \<leftarrow> (case slot_value s of None \<Rightarrow> Some [] | Some v \<Rightarrow> f v);
        Some (put_u32 (slot_generation s) @ [if slot_value s \<noteq> None then 1 else 0] @ payload) }
      = Some (map (put_slot p) (map ?snap (arena_slots a)) ! i)"
      using i live [OF nth_mem [OF i]]
      by (cases "slot_value (arena_slots a ! i)") (simp_all add: arena_slot_at_flat [OF D(1)] put_slot_def)
  qed simp
  ultimately show ?thesis by (simp add: put_arena_def put_slots_def D(2))
qed

lemma write_snapshot_is_image:
  assumes "heap_inv sip h"
  shows "\<exists>s. heap_snapshot h = Some s \<and> write_snapshot_to h = Some (put_image s)"
proof -
  note D = heap_invD [OF assms]
  obtain sd where sd: "snap_slots (\<lambda>d. Some (snap_of_datum d)) (datum_arena h) = Some sd"
      "put_arena (\<lambda>d. Some (put_runtime_datum d)) (datum_arena h) = Some (put_slots put_datum sd)"
    using put_arena_snap [OF D(1), of "\<lambda>d. Some (snap_of_datum d)" snap_of_datum
        "\<lambda>d. Some (put_runtime_datum d)" put_datum] put_runtime_datum_snap all_liveD [OF D(4)] by auto
  obtain sl where sl: "snap_slots snapshot_list_entries (list_arena h) = Some sl"
      "put_arena put_runtime_list (list_arena h) = Some (put_slots put_list sl)"
    using put_arena_snap [OF D(2), of snapshot_list_entries "\<lambda>l. map snap_entry (entries l)"
        put_runtime_list put_list] snapshot_entries_spec [OF all_liveD [OF D(5)]]
    by (auto simp: put_runtime_list_snap)
  show ?thesis using sd sl by (simp add: heap_snapshot_def write_snapshot_to_def put_image_def)
qed

end
