(* ===== verification/HeapTheorems.thy ===== *)
theory HeapTheorems
  imports HeapSnapshotLaws
begin

text \<open>
  What \<open>ValueHeap\<close> promises its clients, over whole runs of operations from a well-formed heap:
  refinement of the two-map specification, exact collection, stale handles, images.
\<close>

section \<open>A handle that stops resolving\<close>

lemma same_dom_in_view:
  "dom (fst V) \<subseteq> dom (fst W) \<Longrightarrow> dom (snd V) \<subseteq> dom (snd W) \<Longrightarrow> in_view V p \<Longrightarrow> in_view W p"
  by (cases V; cases W; cases p) auto

lemma spec_datum_dom: "(r, W) = spec_datum d f g V \<Longrightarrow> dom (fst V) \<subseteq> dom (fst W) \<and> snd W = snd V"
  by (auto simp: spec_datum_def split: option.splits)

fun removes_handles :: "heap_op \<Rightarrow> bool" where
  "removes_handles (DestroyList l) = True"
| "removes_handles (DestroyDatum d) = True"
| "removes_handles (CollectValues entry_bytes shared roots) = True"
| "removes_handles (CollectLists roots) = True"
| "removes_handles op = False"

lemma spec_keeps_handles:
  assumes "\<not> removes_handles op" "heap_spec op V r W" "in_view V p"
  shows "in_view W p"
proof -
  have "dom (fst V) \<subseteq> dom (fst W) \<and> dom (snd V) \<subseteq> dom (snd W)"
    using assms(1,2) by (cases op) (auto split: option.splits dest!: spec_datum_dom)
  then show ?thesis using same_dom_in_view assms(3) by blast
qed

lemma vanished_dead:
  assumes inv: "heap_inv sip h" and room: "heap_room op h" and op: "run_heap_op sip op h = Some (r, h1)"
    and p: "in_view (view_of h) p" "\<not> in_view (view_of h1) p"
  shows "heap_dead h1 p"
proof (cases "removes_handles op")
  case False
  then show ?thesis
    using heap_op_obeys [OF inv room] op p spec_keeps_handles [OF False, of "view_of h" r "view_of h1" p]
    by (auto simp: obeys_def)
next
  case True
  then show ?thesis
  proof (cases op)
    case (DestroyList l)
    obtain ls where ls: "h1 = h\<lparr>list_arena := ls\<rparr>" "view_of h1 = (datums_of h, (lists_of h)(l := None))"
        "lists_of h l \<noteq> None \<longrightarrow> heap_dead h1 (PendingList l)"
      using list_remove_arena [OF inv, of l] op DestroyList by (auto simp: gives_def destroy_list_def)
    then show ?thesis using p by (cases p) (auto simp: view_of_def split: if_splits)
  next
    case (DestroyDatum d)
    obtain ds where ds: "h1 = h\<lparr>datum_arena := ds\<rparr>" "view_of h1 = ((datums_of h)(d := None), lists_of h)"
        "datums_of h d \<noteq> None \<longrightarrow> heap_dead h1 (PendingDatum d)"
      using datum_remove_arena [OF inv, of d] op DestroyDatum by (auto simp: gives_def destroy_datum_def)
    then show ?thesis using p by (cases p) (auto simp: view_of_def split: if_splits)
  next
    case (CollectValues entry_bytes shared roots)
    then show ?thesis
      using collect_values_spec [OF inv, of entry_bytes shared roots] op p by (auto simp: gives_def unreached_dead_def)
  next
    case (CollectLists roots)
    then show ?thesis
      using collect_lists_spec [OF inv, of roots] op p by (auto simp: gives_def unreached_dead_def)
  qed simp_all
qed

section \<open>Properties\<close>

text \<open>
  C4. Refinement: from a well-formed heap, a run of heap operations that stays within the
  capacity of the arenas and the lists never panics, keeps the heap well-formed, and returns what
  the specification on the two maps from handles to datums and to lists allows, step by step.
\<close>

theorem heap_run_refines:
  assumes "heap_inv sip h" "heap_fits sip ops h"
  shows "\<exists>rs h'. run_heap_ops sip ops h = Some (rs, h') \<and> heap_inv sip h'
    \<and> spec_run ops (view_of h) rs (view_of h')"
  using run_heap_ops_kept [OF assms] by (auto simp: heap_kept_def)

definition sample_ops :: "heap_op list" where
  "sample_ops = [NewList, NewDatum ''/obj'', SetField (DatumId 0 0) ''items'' (VList (ListId 0 0)), NewList]"

lemmas sample_simps = sample_ops_def gives_def allocate_list_def allocate_datum_def arena_insert_def heap_new_def
  arena_new_def push_chunked_def Let_def u32_max_def arena_room_def set_datum_field_def datum_update_def
  heap_datum_def arena_get_def arena_slot_at_def set_field_def datum_new_def arena_modify_def arena_slot_write_def
  vec_get_def vec_set_def ARENA_CHUNK_SLOTS_def DATUM_FIELD_INDEX_THRESHOLD_def

theorem heap_run_refines_witness:
  "\<exists>rs h'. run_heap_ops (\<lambda>_. 0) sample_ops heap_new = Some (rs, h') \<and> heap_inv (\<lambda>_. 0) h'
    \<and> spec_run sample_ops (view_of heap_new) rs (view_of h')"
  by (rule heap_run_refines [OF heap_new_inv(1)]) (simp add: sample_simps)

text \<open>
  C5. Exactness of the collector: \<open>collect_unreachable_values\<close> terminates without a panic, and the
  handles that resolve afterwards are those reachable from the roots through fields, list entries,
  associated values and overrides, with their contents unchanged; the counts it returns are the
  numbers of datums and lists that are gone.
\<close>

theorem collection_exact:
  assumes "heap_inv sip h"
  shows "\<exists>rd rl h'. collect_unreachable_values entry_bytes shared roots h = Some ((rd, rl), h')
    \<and> heap_inv sip h'
    \<and> view_of h' = restrict_view (reached (view_of h) (values_refs roots)) (view_of h)
    \<and> rd + live_datum_count h' = live_datum_count h \<and> rl + live_list_count h' = live_list_count h"
  using collect_values_spec [OF assms, of entry_bytes shared roots] by (auto simp: heap_kept_def)

lemma sample_heap: "\<exists>rs h. run_heap_ops (\<lambda>_. 0) sample_ops heap_new = Some (rs, h) \<and> heap_inv (\<lambda>_. 0) h"
  using run_heap_ops_kept [OF heap_new_inv(1), of "\<lambda>_. 0" sample_ops]
  by (auto simp: heap_kept_def sample_simps)

theorem collection_exact_witness:
  "\<exists>rs h rd rl h'. run_heap_ops (\<lambda>_. 0) sample_ops heap_new = Some (rs, h)
    \<and> collect_unreachable_values 32 (\<lambda>_. False) [VDatum (DatumId 0 0)] h = Some ((rd, rl), h')
    \<and> view_of h' = restrict_view (reached (view_of h) (values_refs [VDatum (DatumId 0 0)])) (view_of h)"
proof -
  obtain rs h where h: "run_heap_ops (\<lambda>_. 0) sample_ops heap_new = Some (rs, h)" "heap_inv (\<lambda>_. 0) h"
    using sample_heap by blast
  then show ?thesis using collection_exact [OF h(2), of 32 "\<lambda>_. False" "[VDatum (DatumId 0 0)]"] by blast
qed

text \<open>
  C34. The list collector keeps every datum and exactly the lists that a live datum's fields or the
  roots reach, again without a panic and with the right count.
\<close>

theorem list_collection_exact:
  assumes "heap_inv sip h"
  shows "\<exists>n h'. collect_unreachable_lists roots h = Some (n, h') \<and> heap_inv sip h'
    \<and> fst (view_of h') = fst (view_of h)
    \<and> (\<forall>l. snd (view_of h') l = (if PendingList l \<in> reached (view_of h) (list_roots (view_of h) roots)
        then snd (view_of h) l else None))
    \<and> n + live_list_count h' = live_list_count h"
proof -
  obtain n h' where h': "collect_unreachable_lists roots h = Some (n, h')" "heap_inv sip h'"
      "view_of h' = restrict_view (reached (view_of h) (list_roots (view_of h) roots)) (view_of h)"
      "n + live_list_count h' = live_list_count h"
    using collect_lists_spec [OF assms, of roots] by (auto simp: heap_kept_def)
  have parts: "datums_of h' = datums_of h |` {d. PendingDatum d \<in> reached (view_of h) (list_roots (view_of h) roots)}"
      "lists_of h' = lists_of h |` {l. PendingList l \<in> reached (view_of h) (list_roots (view_of h) roots)}"
    using arg_cong [OF h'(3), of fst] arg_cong [OF h'(3), of snd] by (simp_all add: restrict_view_def)
  have "datums_of h' d = datums_of h d" for d
  proof (cases "datums_of h d")
    case (Some x)
    then have "PendingDatum d \<in> list_roots (view_of h) roots" "in_view (view_of h) (PendingDatum d)"
      by (auto simp: list_roots_def view_of_def)
    then show ?thesis using reached.root by (simp add: parts(1) restrict_map_def)
  qed (simp add: parts(1) restrict_map_def)
  then have "datums_of h' = datums_of h" by blast
  then show ?thesis
    using h'(1,2,4) parts(2) by (intro exI [of _ n] exI [of _ h']) (simp add: restrict_map_def)
qed

theorem list_collection_exact_witness:
  "\<exists>rs h n h'. run_heap_ops (\<lambda>_. 0) sample_ops heap_new = Some (rs, h)
    \<and> collect_unreachable_lists [] h = Some (n, h') \<and> fst (view_of h') = fst (view_of h)"
proof -
  obtain rs h where h: "run_heap_ops (\<lambda>_. 0) sample_ops heap_new = Some (rs, h)" "heap_inv (\<lambda>_. 0) h"
    using sample_heap by blast
  then show ?thesis using list_collection_exact [OF h(2), of "[]"] by blast
qed

text \<open>
  C8. Stale handles stay stale: a handle that some operation made unresolvable (destruction or a
  collection) resolves to nothing after any further run, whatever is allocated in its slot.
\<close>

theorem stale_forever:
  assumes "heap_inv sip h" "heap_room op h" "run_heap_op sip op h = Some (r, h1)"
    and "in_view (view_of h) p" "\<not> in_view (view_of h1) p"
    and "heap_fits sip ops h1" "run_heap_ops sip ops h1 = Some (rs, h2)"
  shows "\<not> in_view (view_of h2) p"
proof -
  have "heap_inv sip h1"
    using heap_op_obeys [OF assms(1,2)] assms(3) by (auto simp: obeys_def heap_kept_def)
  then show ?thesis
    using dead_stays_unresolved vanished_dead [OF assms(1-5)] assms(6,7) by blast
qed

definition one_list :: "u32 \<Rightarrow> value_heap" where
  "one_list g = heap_new\<lparr>list_arena := \<lparr>chunks = [[\<lparr>slot_generation = g, slot_value = Some dm_list_new\<rparr>]],
     slot_len = 1, free_slots = [], live = 1\<rparr>\<rparr>"

definition no_list :: "u32 \<Rightarrow> value_heap" where
  "no_list g = heap_new\<lparr>list_arena := \<lparr>chunks = [[\<lparr>slot_generation = g, slot_value = None\<rparr>]],
     slot_len = 1, free_slots = [0], live = 0\<rparr>\<rparr>"

lemma list_run_sample: "run_heap_op (\<lambda>_. 0) NewList heap_new = Some (NewListResult (ListId 0 0), one_list 0)"
  by (simp add: sample_simps one_list_def)

lemma destroy_run_sample:
  "run_heap_op (\<lambda>_. 0) (DestroyList (ListId 0 0)) (one_list 0) = Some (OldList (Inr []), no_list 1)"
  by (simp add: sample_simps one_list_def no_list_def destroy_list_def arena_remove_def res_bind_def)
    (simp add: list_inv_new(2) [unfolded dm_list_new_def] dm_list_new_def)

theorem stale_forever_witness:
  "\<exists>h2. run_heap_op (\<lambda>_. 0) (DestroyList (ListId 0 0)) (one_list 0) = Some (OldList (Inr []), no_list 1)
    \<and> in_view (view_of (one_list 0)) (PendingList (ListId 0 0))
    \<and> run_heap_ops (\<lambda>_. 0) [NewList] (no_list 1) = Some ([NewListResult (ListId 0 1)], h2)
    \<and> \<not> in_view (view_of h2) (PendingList (ListId 0 0))"
proof -
  have "heap_room NewList heap_new" by (simp add: sample_simps)
  then have inv: "heap_inv (\<lambda>_. 0) (one_list 0)"
    using heap_op_obeys [OF heap_new_inv(1)] list_run_sample by (fastforce simp: obeys_def heap_kept_def)
  have was: "in_view (view_of (one_list 0)) (PendingList (ListId 0 0))"
    and gone: "\<not> in_view (view_of (no_list 1)) (PendingList (ListId 0 0))"
    by (simp_all add: view_of_def lists_of_def arena_map_def sample_simps one_list_def no_list_def)
  have run: "run_heap_ops (\<lambda>_. 0) [NewList] (no_list 1) = Some ([NewListResult (ListId 0 1)], one_list 1)"
    by (simp add: sample_simps no_list_def one_list_def)
  have fits: "heap_fits (\<lambda>_. 0) [NewList] (no_list 1)" by (simp add: sample_simps no_list_def)
  have "\<not> in_view (view_of (one_list 1)) (PendingList (ListId 0 0))"
    by (rule stale_forever [OF inv _ destroy_run_sample was gone fits run]) simp
  then show ?thesis using was run destroy_run_sample by blast
qed

lemma same_handles_insert:
  assumes a: "arena_inv a" and b: "arena_inv b" and s: "same_handles a b"
  shows "map_option fst (arena_insert v a) = map_option fst (arena_insert w b)"
proof (cases "free_slots a = []")
  case True
  have "slot_len a = slot_len b"
    using s arena_invD(2) [OF a] arena_invD(2) [OF b] unfolding same_handles_def by (metis length_map)
  then show ?thesis using True s by (simp add: arena_insert_def same_handles_def Let_def)
next
  case False
  then have f: "free_slots b \<noteq> []" "last (free_slots b) = last (free_slots a)" using s by (simp_all add: same_handles_def)
  let ?n = "unat (last (free_slots a))"
  have n: "?n < length (arena_slots a)" "?n < length (arena_slots b)"
    using arena_invD(5) [OF a last_in_set [OF False]] arena_invD(5) [OF b last_in_set [OF f(1)]] f(2) by simp_all
  have "slot_generation (arena_slots a ! ?n) = slot_generation (arena_slots b ! ?n)"
    using s n unfolding same_handles_def by (metis nth_map)
  then show ?thesis using arena_insert_reuse [OF a False, of v] arena_insert_reuse [OF b f(1), of w] f(2) by auto
qed

lemma allocate_list_handles:
  "map_option fst (arena_insert dm_list_new (list_arena h')) = map_option fst (arena_insert dm_list_new (list_arena h)) \<Longrightarrow>
   map_option fst (allocate_list h') = map_option fst (allocate_list h)"
  by (cases "arena_insert dm_list_new (list_arena h')"; cases "arena_insert dm_list_new (list_arena h)")
    (auto simp: allocate_list_def)

lemma allocate_datum_handles:
  "map_option fst (arena_insert (datum_new path) (datum_arena h')) = map_option fst (arena_insert (datum_new path) (datum_arena h)) \<Longrightarrow>
   map_option fst (allocate_datum path h') = map_option fst (allocate_datum path h)"
  by (cases "arena_insert (datum_new path) (datum_arena h')"; cases "arena_insert (datum_new path) (datum_arena h)")
    (auto simp: allocate_datum_def)

lemma same_next_handles:
  assumes "heap_inv sip h" "heap_inv sip h'"
    and "same_handles (datum_arena h') (datum_arena h)" "same_handles (list_arena h') (list_arena h)"
  shows "map_option fst (allocate_list h') = map_option fst (allocate_list h)
    \<and> map_option fst (allocate_datum path h') = map_option fst (allocate_datum path h)"
  using same_handles_insert [OF heap_invD(2) [OF assms(2)] heap_invD(2) [OF assms(1)] assms(4)]
    same_handles_insert [OF heap_invD(1) [OF assms(2)] heap_invD(1) [OF assms(1)] assms(3)]
  by (blast intro: allocate_list_handles allocate_datum_handles)

text \<open>The heap after \<open>sample_ops\<close>: a datum with a field that holds a list, and a second list.\<close>

definition sample_world :: value_heap where
  "sample_world = \<lparr>
     datum_arena = \<lparr>chunks = [[\<lparr>slot_generation = 0, slot_value = Some \<lparr>datum_type = ''/obj'',
         datum_fields = OwnedFields [(''items'', VList (ListId 0 0))], field_index = None\<rparr>\<rparr>]],
       slot_len = 1, free_slots = [], live = 1\<rparr>,
     list_arena = \<lparr>chunks = [[\<lparr>slot_generation = 0, slot_value = Some dm_list_new\<rparr>,
         \<lparr>slot_generation = 0, slot_value = Some dm_list_new\<rparr>]], slot_len = 2, free_slots = [], live = 2\<rparr>,
     datum_layouts = layout_cache_new\<rparr>"

lemma sample_world_run: "\<exists>rs. run_heap_ops (\<lambda>_. 0) sample_ops heap_new = Some (rs, sample_world)"
  by (simp add: sample_simps sample_world_def)

lemma sample_world_inv: "heap_inv (\<lambda>_. 0) sample_world"
  using run_heap_ops_kept [OF heap_new_inv(1), of "\<lambda>_. 0" sample_ops] sample_world_run
  by (auto simp: heap_kept_def sample_simps)

lemma sample_world_view:
  "view_of sample_world = ([DatumId 0 0 \<mapsto> (''/obj'', [(''items'', VList (ListId 0 0))])],
     [ListId 0 0 \<mapsto> [], ListId 1 0 \<mapsto> []])"
proof -
  have "datums_of sample_world d = [DatumId 0 0 \<mapsto> (''/obj'', [(''items'', VList (ListId 0 0))])] d" for d
    by (cases d) (auto simp: datums_of_def arena_map_def datum_key_def sample_simps sample_world_def show_datum_def
        datum_iter_def unat_eq_0)
  moreover have "lists_of sample_world l = [ListId 0 0 \<mapsto> [], ListId 1 0 \<mapsto> []] l" for l
  proof (cases l)
    case (ListId i g)
    have "unat i < 2 \<longleftrightarrow> i = 0 \<or> i = 1"
    proof -
      have "unat i < 2 \<longleftrightarrow> unat i = unat (0 :: u32) \<or> unat i = unat (1 :: u32)" by auto
      then show ?thesis unfolding unat_inject by blast
    qed
    then show ?thesis using ListId
      by (auto simp: lists_of_def arena_map_def list_key_def sample_simps sample_world_def list_inv_new(2))
  qed
  ultimately show ?thesis by (simp add: view_of_def fun_eq_iff)
qed

lemma sample_world_names: "names_ok (view_of sample_world)"
  unfolding sample_world_view by (simp add: names_ok_def) code_simp

lemma sample_world_snapshot:
  "heap_snapshot sample_world = Some \<lparr>
     snap_datums = [\<lparr>snap_generation = 0, snap_value = Some \<lparr>snap_type_path = ''/obj'',
       snap_fields = [(''items'', SnapList 0 0)]\<rparr>\<rparr>], snap_datum_free = [],
     snap_lists = [\<lparr>snap_generation = 0, snap_value = Some []\<rparr>, \<lparr>snap_generation = 0, snap_value = Some []\<rparr>],
     snap_list_free = []\<rparr>"
  by (simp add: heap_snapshot_def snap_slots_def each_option_def sample_simps sample_world_def snap_of_datum_def
      datum_iter_def snapshot_list_entries_def dm_list_new_def vec_slice_def upt_rec)

text \<open>
  C9. Heap images: the image of a well-formed heap whose names are canonical is accepted by
  \<open>from_snapshot\<close>, and the restored heap resolves every handle to the same datum or list and
  issues the same handle at the next allocation.
\<close>

theorem snapshot_restores:
  assumes "heap_inv sip h" "names_ok (view_of h)"
  shows "\<exists>s h'. heap_snapshot h = Some s \<and> heap_from_snapshot sip s = Some (Inr h') \<and> heap_inv sip h'
    \<and> view_of h' = view_of h
    \<and> map_option fst (allocate_list h') = map_option fst (allocate_list h)
    \<and> map_option fst (allocate_datum path h') = map_option fst (allocate_datum path h)"
proof -
  obtain s h' where h': "heap_snapshot h = Some s" "heap_from_snapshot sip s = Some (Inr h')" "heap_inv sip h'"
      "view_of h' = view_of h" "same_handles (datum_arena h') (datum_arena h)" "same_handles (list_arena h') (list_arena h)"
    using snapshot_round_trip [OF assms] by blast
  show ?thesis using h' same_next_handles [OF assms(1) h'(3,5,6)] by blast
qed

theorem snapshot_restores_witness:
  "\<exists>s h'. heap_snapshot sample_world = Some s \<and> heap_from_snapshot (\<lambda>_. 0) s = Some (Inr h')
    \<and> view_of h' = view_of sample_world"
  using snapshot_restores [OF sample_world_inv sample_world_names] by blast

section \<open>A gap in the validation of images\<close>

text \<open>
  C35. A slot is retired when its generation cannot rise; the runtime never puts it on the free list.
  The validation of an image does not know this: in any accepted image the slot that its free list
  names last may as well be a retired one, generation \<open>u32::MAX\<close>. The image is accepted and the next
  allocation issues again the handle with which the slot was retired.
\<close>

theorem retired_slot_reissued:
  assumes "arena_from_snapshot_slots ss (free @ [i]) kind = Inr a" and "length ss \<le> 2 ^ 32"
  shows "\<exists>b b'. arena_from_snapshot_slots (ss[unat i := (0xFFFFFFFF, None)]) (free @ [i]) kind = Inr b
    \<and> arena_insert v b = Some ((i, 0xFFFFFFFF), b') \<and> arena_get b' i 0xFFFFFFFF = Some v"
proof -
  let ?changed = "ss[unat i := (0xFFFFFFFF, None)]"
  obtain seen where seen: "check_free kind (map snd ss) (free @ [i]) (replicate (length ss) False) = Inr seen"
    "check_vacant kind seen 0 ss = Inr ()"
    using assms(1) by (auto simp: arena_from_snapshot_slots_def res_bind_def split: sum.splits)
  have i: "unat i < length ss" "snd (ss ! unat i) = None" using check_free_inv [OF seen(1)] by (simp, force)
  have vs: "map snd ?changed = map snd ss" using i by (simp add: map_update list_update_same_conv)
  have "check_vacant kind seen 0 ?changed = Inr ()"
    using seen(2) i(1) unfolding check_vacant_ok_iff by (simp add: nth_list_update)
  then obtain b where b: "arena_from_snapshot_slots ?changed (free @ [i]) kind = Inr b"
    using seen(1) vs by (auto simp: arena_from_snapshot_slots_def res_bind_def)
  have B: "arena_inv b" "arena_slots b = map pair_slot ?changed" "free_slots b = free @ [i]"
    using arena_from_snapshot_inv [OF b] assms(2) by simp_all
  have g: "arena_slots b ! unat i = \<lparr>slot_generation = 0xFFFFFFFF, slot_value = None\<rparr>"
    using B(2) i(1) by (simp add: pair_slot_def)
  obtain b' where b': "arena_insert v b = Some ((i, 0xFFFFFFFF), b')" "arena_inv b'"
    "arena_slots b' = (arena_slots b)[unat i := (arena_slots b ! unat i)\<lparr>slot_value := Some v\<rparr>]"
    using arena_insert_reuse [OF B(1), of v] B(3) g by auto
  have "arena_get b' i 0xFFFFFFFF = Some v"
    using arena_invD(1) [OF b'(2)] b'(3) g i(1) B(2) by (simp add: arena_get_def arena_slot_at_flat vec_get_def)
  then show ?thesis using b b'(1) by blast
qed

theorem retired_slot_reissued_witness:
  "\<exists>b b'. arena_from_snapshot_slots [(7, Some ()), (0xFFFFFFFF, None)] [1] ''list'' = Inr b
    \<and> arena_insert () b = Some ((1, 0xFFFFFFFF), b') \<and> arena_get b' 1 0xFFFFFFFF = Some ()"
proof -
  obtain a where "arena_from_snapshot_slots [(7, Some ()), (3, None)] ([] @ [1]) ''list'' = Inr a"
    by (simp add: arena_from_snapshot_slots_def res_bind_def)
  from retired_slot_reissued [OF this, of "()"] show ?thesis by simp
qed

end
