(* ===== verification/HeapContainerProps.thy ===== *)
theory HeapContainerProps
  imports HeapContainerLaws HeapTheorems
begin

text \<open>
  The streaming loader against the two-step one, and the properties of the container: the round
  trip from a heap to bytes and back to the same handles.
\<close>

section \<open>Arenas filled slot by slot\<close>

lemma chunked_nonempty: "chunked (c # cs) \<Longrightarrow> c \<noteq> []"
  by (cases cs) (auto simp: ARENA_CHUNK_SLOTS_def)

lemma chunked_unique: "chunked cs \<Longrightarrow> chunked ds \<Longrightarrow> concat cs = concat ds \<Longrightarrow> cs = ds"
proof (induction cs arbitrary: ds)
  case Nil
  then show ?case using chunked_nonempty by (cases ds) auto
next
  case (Cons c cs)
  then obtain d ds' where d: "ds = d # ds'" using chunked_nonempty by (cases ds) auto
  have "c = take ARENA_CHUNK_SLOTS (concat (c # cs))" "d = take ARENA_CHUNK_SLOTS (concat (d # ds'))"
    using Cons(2,3) d by (cases cs; cases ds'; simp)+
  then have cd: "c = d" using Cons(4) d by metis
  have "chunked cs" "chunked ds'" using Cons(2,3) d by (cases cs; cases ds'; simp)+
  then show ?case using Cons(1) [of ds'] Cons(4) d cd by simp
qed

abbreviation push_pairs :: "(u32 \<times> 'a option) list \<Rightarrow> 'a arena \<Rightarrow> 'a arena" where
  "push_pairs ps \<equiv> fold (\<lambda>(g, v). push_snapshot_slot g v) ps"

lemma push_pairs_spec:
  "chunked (chunks a) \<Longrightarrow> chunked (chunks (push_pairs ps a))
     \<and> arena_slots (push_pairs ps a) = arena_slots a @ map pair_slot ps
     \<and> slot_len (push_pairs ps a) = slot_len a + length ps
     \<and> free_slots (push_pairs ps a) = free_slots a
     \<and> live (push_pairs ps a) = live a + length (filter (\<lambda>s. snd s \<noteq> None) ps)"
proof (induction ps arbitrary: a)
  case (Cons p ps)
  have "chunked (chunks (push_snapshot_slot (fst p) (snd p) a))
      \<and> arena_slots (push_snapshot_slot (fst p) (snd p) a) = arena_slots a @ [pair_slot p]"
    using push_chunked_spec [OF Cons(2)]
    by (simp add: push_snapshot_slot_def arena_slots_def pair_slot_def split_beta)
  then show ?case using Cons(1) [of "push_snapshot_slot (fst p) (snd p) a"]
    by (auto simp: split_beta push_snapshot_slot_def)
qed simp

lemma arena_eqI:
  "chunks a = chunks b \<Longrightarrow> slot_len a = slot_len b \<Longrightarrow> free_slots a = free_slots b \<Longrightarrow> live a = live b \<Longrightarrow> a = (b :: 'a arena)"
  by (cases a; cases b) simp

lemma install_pushed:
  "install_snapshot_free free kind (push_pairs ps arena_new) = arena_from_snapshot_slots ps free kind"
proof -
  let ?a = "push_pairs ps arena_new"
  have a: "chunked (chunks ?a)" "arena_slots ?a = map pair_slot ps" "slot_len ?a = length ps"
      "live ?a = length (filter (\<lambda>s. snd s \<noteq> None) ps)"
    using push_pairs_spec [of arena_new ps] by (simp_all add: arena_new_def arena_slots_def)
  have pairs: "map (\<lambda>s. (slot_generation s, slot_value s)) (arena_slots ?a) = ps"
    unfolding a(2) by (simp add: pair_slot_def comp_def split_beta)
  have "map (\<lambda>(g, v). \<lparr>slot_generation = g, slot_value = v\<rparr>) ps = map pair_slot ps"
    by (simp add: pair_slot_def)
  then have "chunks ?a = chunked_from (ARENA_CHUNK_SLOTS - 1) (map (\<lambda>(g, v). \<lparr>slot_generation = g, slot_value = v\<rparr>) ps)"
    using chunked_unique [OF a(1)] chunked_from_spec a(2) unfolding arena_slots_def by metis
  then have "?a\<lparr>free_slots := free\<rparr> = \<lparr>chunks = chunked_from (ARENA_CHUNK_SLOTS - 1)
        (map (\<lambda>(g, v). \<lparr>slot_generation = g, slot_value = v\<rparr>) ps),
      slot_len = length ps, free_slots = free, live = length (filter (\<lambda>s. snd s \<noteq> None) ps)\<rparr>"
    by (intro arena_eqI) (simp_all add: a(3,4))
  then show ?thesis
    unfolding install_snapshot_free_def arena_from_snapshot_slots_def Let_def pairs a(3) by simp
qed

section \<open>The loader\<close>

lemma then_ok_iff:
  "(case r of Inl e \<Rightarrow> Some (Inl e) | Inr x \<Rightarrow> g x) = Some (Inr y) \<longleftrightarrow> (\<exists>x. r = Inr x \<and> g x = Some (Inr y))"
  by (cases r) auto

lemma rejected_iff:
  "(case r of Inl e \<Rightarrow> Inl (c e) | Inr x \<Rightarrow> Inr (g x)) = Inr y \<longleftrightarrow> (\<exists>x. r = Inr x \<and> g x = y)"
  by (cases r) auto

lemma try_each_Cons_iff:
  "try_each f (x # xs) = Some (Inr ys) \<longleftrightarrow>
     (\<exists>y zs. f x = Some (Inr y) \<and> try_each f xs = Some (Inr zs) \<and> ys = y # zs)"
proof (cases "f x")
  case (Some r)
  then show ?thesis by (cases r; cases "try_each f xs") (auto simp: res_bind_Inr_iff)
qed simp

lemma load_slot_iff:
  "load_slot bad f restore a bs = Some (Inr (b, rest)) \<longleftrightarrow>
     (\<exists>s p. get_slot f bs = Inr (s, rest) \<and> restore_slot restore s = Some (Inr p)
        \<and> b = push_snapshot_slot (fst p) (snd p) a)"
proof (cases "get_u32 bs")
  case (Inr x)
  obtain g bs1 where x: "x = (g, bs1)" by fastforce
  show ?thesis
  proof (cases "get_u8 bs1")
    case r2: (Inr y)
    obtain tag bs2 where y: "y = (tag, bs2)" by fastforce
    consider "tag = 0" | "tag = 1" | "tag \<noteq> 0" "tag \<noteq> 1" by blast
    then show ?thesis
    proof cases
      case 2
      show ?thesis
      proof (cases "f bs2")
        case (Inr z)
        obtain v bs3 where "z = (v, bs3)" by fastforce
        moreover obtain r where "restore v = None \<or> restore v = Some r" by (cases "restore v") auto
        ultimately show ?thesis using Inr r2 y 2 \<open>get_u32 bs = Inr x\<close> x
          by (cases r) (auto simp: load_slot_def get_slot_def restore_slot_def res_bind_def)
      qed (use Inr r2 y 2 x in \<open>auto simp: load_slot_def get_slot_def\<close>)
    qed (use Inr r2 y x in \<open>auto simp: load_slot_def get_slot_def restore_slot_def\<close>)
  qed (use Inr x in \<open>auto simp: load_slot_def get_slot_def\<close>)
qed (auto simp: load_slot_def get_slot_def)

lemma load_slots_iff:
  "load_slots bad f restore n a bs = Some (Inr (b, rest)) \<longleftrightarrow>
     (\<exists>ss ps. get_repeat (get_slot f) n bs = Inr (ss, rest) \<and> try_each (restore_slot restore) ss = Some (Inr ps)
        \<and> b = push_pairs ps a)"
proof (induction n arbitrary: a bs)
  case 0
  then show ?case by auto
next
  case (Suc n)
  have "load_slots bad f restore (Suc n) a bs = Some (Inr (b, rest)) \<longleftrightarrow>
      (\<exists>a1 bs1. load_slot bad f restore a bs = Some (Inr (a1, bs1))
        \<and> load_slots bad f restore n a1 bs1 = Some (Inr (b, rest)))"
    by (auto simp: then_ok_iff)
  also have "\<dots> \<longleftrightarrow> (\<exists>ss ps. get_repeat (get_slot f) (Suc n) bs = Inr (ss, rest)
      \<and> try_each (restore_slot restore) ss = Some (Inr ps) \<and> b = push_pairs ps a)" (is "?l \<longleftrightarrow> ?r")
  proof
    assume ?l
    then obtain s p bs1 ss ps where "get_slot f bs = Inr (s, bs1)" "restore_slot restore s = Some (Inr p)"
        "get_repeat (get_slot f) n bs1 = Inr (ss, rest)" "try_each (restore_slot restore) ss = Some (Inr ps)"
        "b = push_pairs ps (push_snapshot_slot (fst p) (snd p) a)"
      unfolding load_slot_iff Suc by blast
    then show ?r by (intro exI [of _ "s # ss"] exI [of _ "p # ps"]) (simp add: try_each_Cons_iff split_beta del: try_each.simps)
  next
    assume ?r
    then obtain ss ps where r: "get_repeat (get_slot f) (Suc n) bs = Inr (ss, rest)"
        "try_each (restore_slot restore) ss = Some (Inr ps)" "b = push_pairs ps a" by blast
    from r(1) obtain s bs1 ss' where s: "get_slot f bs = Inr (s, bs1)" "get_repeat (get_slot f) n bs1 = Inr (ss', rest)"
        "ss = s # ss'" by (auto simp: get_bind_Inr_iff)
    from r(2) obtain p ps' where "restore_slot restore s = Some (Inr p)"
        "try_each (restore_slot restore) ss' = Some (Inr ps')" "ps = p # ps'"
      unfolding s(3) try_each_Cons_iff by blast
    then show ?l unfolding load_slot_iff Suc using s r(3) by (cases p) auto
  qed
  finally show ?case .
qed

lemma load_arena_iff:
  "load_arena bad f restore kind bs = Some (Inr (b, rest)) \<longleftrightarrow>
     (\<exists>ss bs1 free ps. get_slots f bs = Inr (ss, bs1) \<and> get_u32_vec MAX_SLOTS bs1 = Inr (free, rest)
        \<and> try_each (restore_slot restore) ss = Some (Inr ps) \<and> arena_from_snapshot_slots ps free kind = Inr b)"
  (is "?l \<longleftrightarrow> ?r")
proof (cases "get_len MAX_SLOTS bs")
  case (Inr x)
  obtain n bs0 where x: "x = (n, bs0)" by fastforce
  have "?l \<longleftrightarrow> (\<exists>a bs1 free. load_slots bad f restore n arena_new bs0 = Some (Inr (a, bs1))
      \<and> get_u32_vec MAX_SLOTS bs1 = Inr (free, rest) \<and> install_snapshot_free free kind a = Inr b)"
    using Inr x by (auto simp: load_arena_def get_bind_Inr_iff rejected_iff)
  also have "\<dots> \<longleftrightarrow> ?r"
    unfolding load_slots_iff get_slots_def Inr x get_bind_simps by (auto simp: install_pushed)
  finally show ?thesis .
qed (auto simp: load_arena_def get_slots_def)

lemma read_snapshot_iff:
  "read_snapshot_from sip bs = Some (Inr (h, rest)) \<longleftrightarrow>
     (\<exists>s. get_image bs = Inr (s, rest) \<and> heap_from_snapshot sip s = Some (Inr h))"
proof (cases "get_header bs")
  case (Inr x)
  obtain bs0 where x: "x = ((), bs0)" by (cases x) simp
  show ?thesis (is "?l \<longleftrightarrow> ?r")
  proof
    assume ?l
    then obtain ds bs2 ls where
        ds: "load_arena InvalidDatumPresence get_datum (\<lambda>d. Some (restore_snapshot_datum d)) ''datum'' bs0 = Some (Inr (ds, bs2))"
      and ls: "load_arena InvalidListPresence get_list (restore_list_entries sip) ''list'' bs2 = Some (Inr (ls, rest))"
      and h: "compact_restored_datum_layouts \<lparr>datum_arena = ds, list_arena = ls, datum_layouts = layout_cache_new\<rparr> = Some h"
      using Inr x by (auto simp: read_snapshot_from_def then_ok_iff)
    obtain sd bs1 fd pd where d: "get_slots get_datum bs0 = Inr (sd, bs1)" "get_u32_vec MAX_SLOTS bs1 = Inr (fd, bs2)"
        "try_each (restore_slot (\<lambda>d. Some (restore_snapshot_datum d))) sd = Some (Inr pd)"
        "arena_from_snapshot_slots pd fd ''datum'' = Inr ds"
      using ds unfolding load_arena_iff by blast
    obtain sl bs3 fl pl where l: "get_slots get_list bs2 = Inr (sl, bs3)" "get_u32_vec MAX_SLOTS bs3 = Inr (fl, rest)"
        "try_each (restore_slot (restore_list_entries sip)) sl = Some (Inr pl)"
        "arena_from_snapshot_slots pl fl ''list'' = Inr ls"
      using ls unfolding load_arena_iff by blast
    have "get_image bs = Inr (\<lparr>snap_datums = sd, snap_datum_free = fd, snap_lists = sl, snap_list_free = fl\<rparr>, rest)"
      using Inr x d(1,2) l(1,2) by (simp add: get_image_def)
    then show ?r using d(3,4) l(3,4) h by (auto simp: heap_from_snapshot_def res_bind_def)
  next
    assume ?r
    then obtain s where s: "get_image bs = Inr (s, rest)" "heap_from_snapshot sip s = Some (Inr h)" by blast
    from s(1) obtain bs1 bs2 bs3 where i: "get_slots get_datum bs0 = Inr (snap_datums s, bs1)"
        "get_u32_vec MAX_SLOTS bs1 = Inr (snap_datum_free s, bs2)" "get_slots get_list bs2 = Inr (snap_lists s, bs3)"
        "get_u32_vec MAX_SLOTS bs3 = Inr (snap_list_free s, rest)"
      using Inr x by (auto simp: get_image_def get_bind_Inr_iff)
    from s(2) obtain pd pl ds ls where
        p: "try_each (restore_slot (\<lambda>d. Some (restore_snapshot_datum d))) (snap_datums s) = Some (Inr pd)"
          "try_each (restore_slot (restore_list_entries sip)) (snap_lists s) = Some (Inr pl)"
          "arena_from_snapshot_slots pd (snap_datum_free s) ''datum'' = Inr ds"
          "arena_from_snapshot_slots pl (snap_list_free s) ''list'' = Inr ls"
          "compact_restored_datum_layouts \<lparr>datum_arena = ds, list_arena = ls, datum_layouts = layout_cache_new\<rparr> = Some h"
      by (auto simp: heap_from_snapshot_def then_ok_iff res_bind_Inr_iff)
    have "load_arena InvalidDatumPresence get_datum (\<lambda>d. Some (restore_snapshot_datum d)) ''datum'' bs0 = Some (Inr (ds, bs2))"
      unfolding load_arena_iff using i(1,2) p(1,3) by blast
    moreover have "load_arena InvalidListPresence get_list (restore_list_entries sip) ''list'' bs2 = Some (Inr (ls, rest))"
      unfolding load_arena_iff using i(3,4) p(2,4) by blast
    ultimately show ?l using Inr x p(5) by (simp add: read_snapshot_from_def)
  qed
qed (simp add: read_snapshot_from_def get_image_def)

section \<open>Properties\<close>

text \<open>
  C11. Loading: for any bytes, the streaming loader \<open>read_snapshot_from\<close> yields a heap exactly when
  the section reads as an image that \<open>from_snapshot\<close> accepts, and it is the same heap with the same
  bytes left over.
\<close>

theorem streaming_loader_agrees:
  "read_snapshot_from sip bs = Some (Inr (h, rest)) \<longleftrightarrow>
     (\<exists>s. get_image bs = Inr (s, rest) \<and> heap_from_snapshot sip s = Some (Inr h))"
  by (rule read_snapshot_iff)

text \<open>
  C10. A ready-world section: the bytes \<open>write_snapshot_to\<close> streams from a well-formed heap whose image is
  within the limits of the reader (\<open>image_fits\<close>: the numbers of slots, fields, entries and overrides and the
  lengths of strings, and modified type paths nested at most 64 deep) are those of its image, and \<open>read_snapshot_from\<close> turns them, whatever follows,
  into a heap in which every handle resolves to the same datum or list and the next handles to be
  issued are the same.
\<close>

theorem container_restores:
  assumes "heap_inv sip h" "names_ok (view_of h)" "\<And>s. heap_snapshot h = Some s \<Longrightarrow> image_fits s"
  shows "\<exists>s h'. heap_snapshot h = Some s \<and> write_snapshot_to h = Some (put_image s)
    \<and> (\<forall>rest. read_snapshot_from sip (put_image s @ rest) = Some (Inr (h', rest)))
    \<and> heap_inv sip h' \<and> view_of h' = view_of h
    \<and> map_option fst (allocate_list h') = map_option fst (allocate_list h)
    \<and> map_option fst (allocate_datum path h') = map_option fst (allocate_datum path h)"
proof -
  obtain s where s: "heap_snapshot h = Some s" "write_snapshot_to h = Some (put_image s)"
    using write_snapshot_is_image [OF assms(1)] by blast
  obtain s' h' where h': "heap_snapshot h = Some s'" "heap_from_snapshot sip s' = Some (Inr h')" "heap_inv sip h'"
      "view_of h' = view_of h" "same_handles (datum_arena h') (datum_arena h)" "same_handles (list_arena h') (list_arena h)"
    using snapshot_round_trip [OF assms(1,2)] by blast
  have "read_snapshot_from sip (put_image s @ rest) = Some (Inr (h', rest))" for rest
    unfolding read_snapshot_iff using get_image_put [OF assms(3) [OF s(1)]] h'(1,2) s(1) by auto
  then show ?thesis using s h' same_next_handles [OF assms(1) h'(3,5,6)] by blast
qed

theorem container_restores_witness:
  "\<exists>s h'. heap_snapshot sample_world = Some s
    \<and> read_snapshot_from (\<lambda>_. 0) (put_image s @ [7]) = Some (Inr (h', [7]))
    \<and> view_of h' = view_of sample_world"
proof -
  have "utf8_valid ''/obj''" "utf8_valid ''items''" by code_simp+
  then have "image_fits s" if "heap_snapshot sample_world = Some s" for s
    using that by (auto simp: sample_world_snapshot image_fits_def slots_fit_def datum_fits_def list_fits_def
        value_fits_def string_fits_def MAX_SLOTS_def MAX_ENTRIES_def MAX_HEAP_STRING_BYTES_def MAX_VALUE_DEPTH_def)
  from container_restores [OF sample_world_inv sample_world_names this] show ?thesis by blast
qed

text \<open>
  C36. The nesting limit is only on the reading side: a value whose strings and counts fit is written
  at any nesting of modified type paths, and reading it back gives the value up to nesting 64 and
  an error beyond.
\<close>

theorem value_nesting_limit:
  assumes "lengths_fit v"
  shows "get_value 0 (put_value v @ bs) =
    (if nesting v \<le> MAX_VALUE_DEPTH then Inr (v, bs) else Inl ValueNestingExceeds)"
  using get_value_put(1) [OF assms, of 0 bs] by simp

primrec nested_path :: "nat \<Rightarrow> snapshot_value" where
  "nested_path 0 = SnapNull"
| "nested_path (Suc n) = SnapModifiedTypePath ''/a'' [(''b'', nested_path n)]"

lemma nested_path_fits: "lengths_fit (nested_path n) \<and> nesting (nested_path n) = n"
proof (induction n)
  case (Suc n)
  have "utf8_valid ''/a''" "utf8_valid ''b''" by code_simp+
  with Suc show ?case by (simp add: string_fits_def MAX_HEAP_STRING_BYTES_def MAX_ENTRIES_def)
qed simp

theorem value_nesting_limit_witness:
  "get_value 0 (put_value (nested_path 64)) = Inr (nested_path 64, [])
    \<and> get_value 0 (put_value (nested_path 65)) = Inl ValueNestingExceeds"
  using value_nesting_limit [of "nested_path 64" "[]"] value_nesting_limit [of "nested_path 65" "[]"]
    nested_path_fits [of 64] nested_path_fits [of 65] by (simp add: MAX_VALUE_DEPTH_def del: nested_path.simps)

end
