(* ===== verification/Wordcode.thy ===== *)
theory Wordcode
  imports ModuleCodec
begin

text \<open>
  The compact wordcode of \<open>crates/dm-vm/src/compact_wordcode.rs\<close>: one 32-bit dispatch word per
  instruction (a selector byte and a 24-bit operand), a string pool and a procedure directory,
  built from a module, encoded, decoded, validated against the module, and the selectors the
  interpreter executes without looking at the rich instruction. An error is its message.
\<close>

section \<open>Constants\<close>

definition CW_MAGIC :: "u8 list" where "CW_MAGIC = as_bytes ''DM64CWC'' @ [0]"
definition CW_VERSION :: u16 where "CW_VERSION = 1"
definition HEADER_BYTES :: nat where "HEADER_BYTES = 24"
definition PROCEDURE_BYTES :: nat where "PROCEDURE_BYTES = 24"
definition CW_MAX_STRINGS :: nat where "CW_MAX_STRINGS = 16777216"
definition CW_MAX_PROCEDURES :: nat where "CW_MAX_PROCEDURES = 1000000"
definition CW_MAX_WORDS :: nat where "CW_MAX_WORDS = 500000000"
definition CW_MAX_STRING_BYTES :: nat where "CW_MAX_STRING_BYTES = 64 * 1024 * 1024"
definition CW_MAX_TOTAL_STRING_BYTES :: nat where "CW_MAX_TOTAL_STRING_BYTES = 1024 * 1024 * 1024"
definition PAYLOAD_MASK :: u32 where "PAYLOAD_MASK = 0x00ffffff"

definition OP_ESCAPE :: u8 where "OP_ESCAPE = 0"
definition OP_PUSH_NULL :: u8 where "OP_PUSH_NULL = 1"
definition OP_ADDRESS_LOCAL :: u8 where "OP_ADDRESS_LOCAL = 2"
definition OP_LOAD_LOCAL_RAW :: u8 where "OP_LOAD_LOCAL_RAW = 3"
definition OP_LOAD_LOCAL :: u8 where "OP_LOAD_LOCAL = 4"
definition OP_STORE_LOCAL :: u8 where "OP_STORE_LOCAL = 5"
definition OP_INITIALIZE_STATIC_LOCAL :: u8 where "OP_INITIALIZE_STATIC_LOCAL = 6"
definition OP_LOAD_SRC :: u8 where "OP_LOAD_SRC = 7"
definition OP_STORE_SRC :: u8 where "OP_STORE_SRC = 8"
definition OP_LOAD_USR :: u8 where "OP_LOAD_USR = 9"
definition OP_STORE_USR :: u8 where "OP_STORE_USR = 10"
definition OP_LOAD_CALLER :: u8 where "OP_LOAD_CALLER = 11"
definition OP_LOAD_RESULT :: u8 where "OP_LOAD_RESULT = 12"
definition OP_STORE_RESULT :: u8 where "OP_STORE_RESULT = 13"
definition OP_POP :: u8 where "OP_POP = 14"
definition OP_DUPLICATE :: u8 where "OP_DUPLICATE = 15"
definition OP_LOAD_FIELD :: u8 where "OP_LOAD_FIELD = 16"
definition OP_LOAD_DECLARED_FIELD :: u8 where "OP_LOAD_DECLARED_FIELD = 17"
definition OP_STORE_FIELD :: u8 where "OP_STORE_FIELD = 18"
definition OP_STORE_FIELD_KEEP :: u8 where "OP_STORE_FIELD_KEEP = 19"
definition OP_LOAD_GLOBAL :: u8 where "OP_LOAD_GLOBAL = 20"
definition OP_LOAD_INITIAL_GLOBAL :: u8 where "OP_LOAD_INITIAL_GLOBAL = 21"
definition OP_STORE_GLOBAL :: u8 where "OP_STORE_GLOBAL = 22"
definition OP_INITIAL_FIELD :: u8 where "OP_INITIAL_FIELD = 23"
definition OP_LOGICAL_OR_GLOBAL :: u8 where "OP_LOGICAL_OR_GLOBAL = 24"
definition OP_LOGICAL_OR_FIELD :: u8 where "OP_LOGICAL_OR_FIELD = 25"
definition OP_TYPE_INSTANCES :: u8 where "OP_TYPE_INSTANCES = 26"
definition OP_ITERATION_TYPE_FILTER :: u8 where "OP_ITERATION_TYPE_FILTER = 27"
definition OP_MAKE_LIST :: u8 where "OP_MAKE_LIST = 28"
definition OP_MAKE_ARRAY :: u8 where "OP_MAKE_ARRAY = 29"
definition OP_MAKE_ARGS :: u8 where "OP_MAKE_ARGS = 30"
definition OP_INDEX_LIST :: u8 where "OP_INDEX_LIST = 31"
definition OP_SET_LIST_INDEX :: u8 where "OP_SET_LIST_INDEX = 32"
definition OP_SET_LIST_INDEX_KEEP :: u8 where "OP_SET_LIST_INDEX_KEEP = 33"
definition OP_LIST_LENGTH :: u8 where "OP_LIST_LENGTH = 34"
definition OP_PREPARE_ITERATION :: u8 where "OP_PREPARE_ITERATION = 35"
definition OP_INDEX_LOCAL_LIST :: u8 where "OP_INDEX_LOCAL_LIST = 36"
definition OP_LIST_LENGTH_LOCAL :: u8 where "OP_LIST_LENGTH_LOCAL = 37"
definition OP_LOGICAL_OR_LOCAL :: u8 where "OP_LOGICAL_OR_LOCAL = 38"
definition OP_LOGICAL_OR_INDEX :: u8 where "OP_LOGICAL_OR_INDEX = 39"
definition OP_PREPARE_RHS_INDEX :: u8 where "OP_PREPARE_RHS_INDEX = 40"
definition OP_LOAD_DYNAMIC_FIELD :: u8 where "OP_LOAD_DYNAMIC_FIELD = 41"
definition OP_STORE_DYNAMIC_FIELD :: u8 where "OP_STORE_DYNAMIC_FIELD = 42"
definition OP_LOAD_GLOBAL_VARS :: u8 where "OP_LOAD_GLOBAL_VARS = 43"
definition OP_LOAD_DATUM_VARS :: u8 where "OP_LOAD_DATUM_VARS = 44"
definition OP_ADD :: u8 where "OP_ADD = 45"
definition OP_SUBTRACT :: u8 where "OP_SUBTRACT = 46"
definition OP_MULTIPLY :: u8 where "OP_MULTIPLY = 47"
definition OP_POWER :: u8 where "OP_POWER = 48"
definition OP_DIVIDE :: u8 where "OP_DIVIDE = 49"
definition OP_REMAINDER :: u8 where "OP_REMAINDER = 50"
definition OP_FRACTIONAL_REMAINDER :: u8 where "OP_FRACTIONAL_REMAINDER = 51"
definition OP_BIT_AND :: u8 where "OP_BIT_AND = 52"
definition OP_BIT_OR :: u8 where "OP_BIT_OR = 53"
definition OP_BIT_XOR :: u8 where "OP_BIT_XOR = 54"
definition OP_SHIFT_LEFT :: u8 where "OP_SHIFT_LEFT = 55"
definition OP_SHIFT_RIGHT :: u8 where "OP_SHIFT_RIGHT = 56"
definition OP_BIT_NOT :: u8 where "OP_BIT_NOT = 57"
definition OP_NEGATE :: u8 where "OP_NEGATE = 58"
definition OP_NOT :: u8 where "OP_NOT = 59"
definition OP_EQUAL :: u8 where "OP_EQUAL = 60"
definition OP_NOT_EQUAL :: u8 where "OP_NOT_EQUAL = 61"
definition OP_EQUIVALENT :: u8 where "OP_EQUIVALENT = 62"
definition OP_NOT_EQUIVALENT :: u8 where "OP_NOT_EQUIVALENT = 63"
definition OP_COMPARE :: u8 where "OP_COMPARE = 64"
definition OP_CONTAINS :: u8 where "OP_CONTAINS = 65"
definition OP_LESS :: u8 where "OP_LESS = 66"
definition OP_LESS_EQUAL :: u8 where "OP_LESS_EQUAL = 67"
definition OP_GREATER :: u8 where "OP_GREATER = 68"
definition OP_GREATER_EQUAL :: u8 where "OP_GREATER_EQUAL = 69"
definition OP_AND :: u8 where "OP_AND = 70"
definition OP_OR :: u8 where "OP_OR = 71"
definition OP_JUMP_IF_NULL :: u8 where "OP_JUMP_IF_NULL = 72"
definition OP_JUMP_IF_FALSE :: u8 where "OP_JUMP_IF_FALSE = 73"
definition OP_JUMP :: u8 where "OP_JUMP = 74"
definition OP_CALL :: u8 where "OP_CALL = 75"
definition OP_RETURN :: u8 where "OP_RETURN = 76"
definition OP_SPAWN :: u8 where "OP_SPAWN = 77"
definition OP_SLEEP :: u8 where "OP_SLEEP = 78"
definition OP_END_TRY :: u8 where "OP_END_TRY = 79"
definition OP_THROW :: u8 where "OP_THROW = 80"
definition OP_CRASH :: u8 where "OP_CRASH = 81"
definition OP_OUTPUT :: u8 where "OP_OUTPUT = 82"
definition OP_INPUT :: u8 where "OP_INPUT = 83"
definition OP_LENGTH :: u8 where "OP_LENGTH = 84"
definition OP_REF :: u8 where "OP_REF = 85"
definition OP_PROB :: u8 where "OP_PROB = 86"

lemmas op_defs =
  OP_ESCAPE_def OP_PUSH_NULL_def OP_ADDRESS_LOCAL_def OP_LOAD_LOCAL_RAW_def OP_LOAD_LOCAL_def
  OP_STORE_LOCAL_def OP_INITIALIZE_STATIC_LOCAL_def OP_LOAD_SRC_def OP_STORE_SRC_def
  OP_LOAD_USR_def OP_STORE_USR_def OP_LOAD_CALLER_def OP_LOAD_RESULT_def OP_STORE_RESULT_def
  OP_POP_def OP_DUPLICATE_def OP_LOAD_FIELD_def OP_LOAD_DECLARED_FIELD_def OP_STORE_FIELD_def
  OP_STORE_FIELD_KEEP_def OP_LOAD_GLOBAL_def OP_LOAD_INITIAL_GLOBAL_def OP_STORE_GLOBAL_def
  OP_INITIAL_FIELD_def OP_LOGICAL_OR_GLOBAL_def OP_LOGICAL_OR_FIELD_def OP_TYPE_INSTANCES_def
  OP_ITERATION_TYPE_FILTER_def OP_MAKE_LIST_def OP_MAKE_ARRAY_def OP_MAKE_ARGS_def
  OP_INDEX_LIST_def OP_SET_LIST_INDEX_def OP_SET_LIST_INDEX_KEEP_def OP_LIST_LENGTH_def
  OP_PREPARE_ITERATION_def OP_INDEX_LOCAL_LIST_def OP_LIST_LENGTH_LOCAL_def
  OP_LOGICAL_OR_LOCAL_def OP_LOGICAL_OR_INDEX_def OP_PREPARE_RHS_INDEX_def
  OP_LOAD_DYNAMIC_FIELD_def OP_STORE_DYNAMIC_FIELD_def OP_LOAD_GLOBAL_VARS_def
  OP_LOAD_DATUM_VARS_def OP_ADD_def OP_SUBTRACT_def OP_MULTIPLY_def OP_POWER_def OP_DIVIDE_def
  OP_REMAINDER_def OP_FRACTIONAL_REMAINDER_def OP_BIT_AND_def OP_BIT_OR_def OP_BIT_XOR_def
  OP_SHIFT_LEFT_def OP_SHIFT_RIGHT_def OP_BIT_NOT_def OP_NEGATE_def OP_NOT_def OP_EQUAL_def
  OP_NOT_EQUAL_def OP_EQUIVALENT_def OP_NOT_EQUIVALENT_def OP_COMPARE_def OP_CONTAINS_def
  OP_LESS_def OP_LESS_EQUAL_def OP_GREATER_def OP_GREATER_EQUAL_def OP_AND_def OP_OR_def
  OP_JUMP_IF_NULL_def OP_JUMP_IF_FALSE_def OP_JUMP_def OP_CALL_def OP_RETURN_def OP_SPAWN_def
  OP_SLEEP_def OP_END_TRY_def OP_THROW_def OP_CRASH_def OP_OUTPUT_def OP_INPUT_def
  OP_LENGTH_def OP_REF_def OP_PROB_def

section \<open>Images\<close>

type_synonym cw_error = string

record compact_record =
  path_id :: u32
  word_offset :: u32
  instruction_count :: u32
  record_local_count :: u32
  record_parameter_count :: u32
  record_flags :: u32

record wordcode_image =
  cw_strings :: "string list"
  cw_procedures :: "compact_record list"
  cw_words :: "u32 list"

datatype compact_fast_instruction =
    FastPushNull | FastLoadSrc | FastStoreSrc | FastLoadUsr | FastStoreUsr
  | FastLoadResult | FastStoreResult | FastPop | FastDuplicate

section \<open>Dispatch words\<close>

definition pack :: "u8 \<Rightarrow> u32 \<Rightarrow> u32" where
  "pack opcode operand = push_bit 24 (ucast opcode) OR (operand AND PAYLOAD_MASK)"

definition pack_checked_u32 :: "u8 \<Rightarrow> u32 \<Rightarrow> cw_error + u32" where
  "pack_checked_u32 opcode operand =
     (if PAYLOAD_MASK < operand then Inr (pack OP_ESCAPE 0) else Inr (pack opcode operand))"

definition pack_checked :: "u8 \<Rightarrow> nat \<Rightarrow> cw_error + u32" where
  "pack_checked opcode operand = (if u32_max < operand then Inl ''compact operand exceeds u32''
     else pack_checked_u32 opcode (of_nat operand))"

definition cw_selector :: "u32 \<Rightarrow> u8" where
  "cw_selector word = ucast (drop_bit 24 word)"

definition cw_operand :: "u32 \<Rightarrow> u32" where
  "cw_operand word = word AND PAYLOAD_MASK"

definition fast_instruction :: "u32 \<Rightarrow> compact_fast_instruction option" where
  "fast_instruction word = (let s = cw_selector word in
     if s = OP_PUSH_NULL then Some FastPushNull
     else if s = OP_LOAD_SRC then Some FastLoadSrc
     else if s = OP_STORE_SRC then Some FastStoreSrc
     else if s = OP_LOAD_USR then Some FastLoadUsr
     else if s = OP_STORE_USR then Some FastStoreUsr
     else if s = OP_LOAD_RESULT then Some FastLoadResult
     else if s = OP_STORE_RESULT then Some FastStoreResult
     else if s = OP_POP then Some FastPop
     else if s = OP_DUPLICATE then Some FastDuplicate
     else None)"

text \<open>
  What each branch of \<open>selector_word_with\<close> calls: \<open>unit\<close>, \<open>numeric\<close> with a number, or \<open>field\<close> with a
  name, and the opcode. The table has one part per block of the instruction datatype.
\<close>

datatype operand = UnitOperand | NumericOperand nat | FieldOperand string

definition value_selector :: "value_instruction \<Rightarrow> u8 \<times> operand" where
  "value_selector i = (case i of
       PushNull \<Rightarrow> (OP_PUSH_NULL, UnitOperand)
     | AddressLocal k \<Rightarrow> (OP_ADDRESS_LOCAL, NumericOperand (unat k))
     | LoadLocalRaw k \<Rightarrow> (OP_LOAD_LOCAL_RAW, NumericOperand (unat k))
     | Output \<Rightarrow> (OP_OUTPUT, UnitOperand)
     | Input \<Rightarrow> (OP_INPUT, UnitOperand)
     | _ \<Rightarrow> (OP_ESCAPE, UnitOperand))"

definition query_selector :: "query_instruction \<Rightarrow> u8 \<times> operand" where
  "query_selector i = (case i of
       InitialField n \<Rightarrow> (OP_INITIAL_FIELD, FieldOperand n)
     | TypeInstances n \<Rightarrow> (OP_TYPE_INSTANCES, FieldOperand n)
     | MakeList k \<Rightarrow> (OP_MAKE_LIST, NumericOperand (unat k))
     | MakeArray k \<Rightarrow> (OP_MAKE_ARRAY, NumericOperand (unat k))
     | MakeArgs \<Rightarrow> (OP_MAKE_ARGS, UnitOperand)
     | Length \<Rightarrow> (OP_LENGTH, UnitOperand)
     | Ref \<Rightarrow> (OP_REF, UnitOperand)
     | Prob \<Rightarrow> (OP_PROB, UnitOperand)
     | _ \<Rightarrow> (OP_ESCAPE, UnitOperand))"

definition access_selector :: "access_instruction \<Rightarrow> u8 \<times> operand" where
  "access_selector i = (case i of
       LoadLocal k \<Rightarrow> (OP_LOAD_LOCAL, NumericOperand (unat k))
     | StoreLocal k \<Rightarrow> (OP_STORE_LOCAL, NumericOperand (unat k))
     | InitializeStaticLocal k \<Rightarrow> (OP_INITIALIZE_STATIC_LOCAL, NumericOperand (unat k))
     | LoadSrc \<Rightarrow> (OP_LOAD_SRC, UnitOperand)
     | StoreSrc \<Rightarrow> (OP_STORE_SRC, UnitOperand)
     | LoadUsr \<Rightarrow> (OP_LOAD_USR, UnitOperand)
     | StoreUsr \<Rightarrow> (OP_STORE_USR, UnitOperand)
     | LoadCaller \<Rightarrow> (OP_LOAD_CALLER, UnitOperand)
     | LoadField n \<Rightarrow> (OP_LOAD_FIELD, FieldOperand n)
     | StoreField n \<Rightarrow> (OP_STORE_FIELD, FieldOperand n)
     | StoreFieldKeep n \<Rightarrow> (OP_STORE_FIELD_KEEP, FieldOperand n)
     | LoadGlobal n \<Rightarrow> (OP_LOAD_GLOBAL, FieldOperand n)
     | LoadInitialGlobal n \<Rightarrow> (OP_LOAD_INITIAL_GLOBAL, FieldOperand n)
     | StoreGlobal n \<Rightarrow> (OP_STORE_GLOBAL, FieldOperand n)
     | IterationTypeFilter n \<Rightarrow> (OP_ITERATION_TYPE_FILTER, FieldOperand n)
     | IndexList \<Rightarrow> (OP_INDEX_LIST, UnitOperand)
     | SetListIndex \<Rightarrow> (OP_SET_LIST_INDEX, UnitOperand)
     | SetListIndexKeep \<Rightarrow> (OP_SET_LIST_INDEX_KEEP, UnitOperand)
     | ListLength \<Rightarrow> (OP_LIST_LENGTH, UnitOperand)
     | PrepareIteration \<Rightarrow> (OP_PREPARE_ITERATION, UnitOperand)
     | LoadGlobalVars \<Rightarrow> (OP_LOAD_GLOBAL_VARS, UnitOperand)
     | LoadDatumVars \<Rightarrow> (OP_LOAD_DATUM_VARS, UnitOperand)
     | _ \<Rightarrow> (OP_ESCAPE, UnitOperand))"

definition mutate_selector :: "mutate_instruction \<Rightarrow> u8 \<times> operand" where
  "mutate_selector i = (case i of
       LoadResult \<Rightarrow> (OP_LOAD_RESULT, UnitOperand)
     | StoreResult \<Rightarrow> (OP_STORE_RESULT, UnitOperand)
     | Pop \<Rightarrow> (OP_POP, UnitOperand)
     | Duplicate \<Rightarrow> (OP_DUPLICATE, UnitOperand)
     | EndTry \<Rightarrow> (OP_END_TRY, UnitOperand)
     | Throw \<Rightarrow> (OP_THROW, UnitOperand)
     | Crash \<Rightarrow> (OP_CRASH, UnitOperand)
     | _ \<Rightarrow> (OP_ESCAPE, UnitOperand))"

definition operator_selector :: "operator_instruction \<Rightarrow> u8 \<times> operand" where
  "operator_selector i = (case i of
       Add \<Rightarrow> (OP_ADD, UnitOperand)
     | Subtract \<Rightarrow> (OP_SUBTRACT, UnitOperand)
     | Multiply \<Rightarrow> (OP_MULTIPLY, UnitOperand)
     | Power \<Rightarrow> (OP_POWER, UnitOperand)
     | Divide \<Rightarrow> (OP_DIVIDE, UnitOperand)
     | Remainder \<Rightarrow> (OP_REMAINDER, UnitOperand)
     | FractionalRemainder \<Rightarrow> (OP_FRACTIONAL_REMAINDER, UnitOperand)
     | BitAnd \<Rightarrow> (OP_BIT_AND, UnitOperand)
     | BitOr \<Rightarrow> (OP_BIT_OR, UnitOperand)
     | BitXor \<Rightarrow> (OP_BIT_XOR, UnitOperand)
     | ShiftLeft \<Rightarrow> (OP_SHIFT_LEFT, UnitOperand)
     | ShiftRight \<Rightarrow> (OP_SHIFT_RIGHT, UnitOperand)
     | BitNot \<Rightarrow> (OP_BIT_NOT, UnitOperand)
     | Negate \<Rightarrow> (OP_NEGATE, UnitOperand)
     | Not \<Rightarrow> (OP_NOT, UnitOperand)
     | Equal \<Rightarrow> (OP_EQUAL, UnitOperand)
     | NotEqual \<Rightarrow> (OP_NOT_EQUAL, UnitOperand)
     | Equivalent \<Rightarrow> (OP_EQUIVALENT, UnitOperand)
     | NotEquivalent \<Rightarrow> (OP_NOT_EQUIVALENT, UnitOperand)
     | Compare \<Rightarrow> (OP_COMPARE, UnitOperand)
     | Contains \<Rightarrow> (OP_CONTAINS, UnitOperand)
     | Less \<Rightarrow> (OP_LESS, UnitOperand)
     | LessEqual \<Rightarrow> (OP_LESS_EQUAL, UnitOperand)
     | Greater \<Rightarrow> (OP_GREATER, UnitOperand)
     | GreaterEqual \<Rightarrow> (OP_GREATER_EQUAL, UnitOperand)
     | And \<Rightarrow> (OP_AND, UnitOperand)
     | Or \<Rightarrow> (OP_OR, UnitOperand))"

definition control_selector :: "control_instruction \<Rightarrow> u8 \<times> operand" where
  "control_selector i = (case i of
       JumpIfNull t \<Rightarrow> (OP_JUMP_IF_NULL, NumericOperand t)
     | JumpIfFalse t \<Rightarrow> (OP_JUMP_IF_FALSE, NumericOperand t)
     | Jump t \<Rightarrow> (OP_JUMP, NumericOperand t)
     | Call procedure _ _ \<Rightarrow> (OP_CALL, NumericOperand (unat procedure))
     | Return \<Rightarrow> (OP_RETURN, UnitOperand)
     | Spawn t \<Rightarrow> (OP_SPAWN, NumericOperand t)
     | Sleep \<Rightarrow> (OP_SLEEP, UnitOperand)
     | _ \<Rightarrow> (OP_ESCAPE, UnitOperand))"

definition fused_selector :: "fused_instruction \<Rightarrow> u8 \<times> operand" where
  "fused_selector i = (case i of
       LoadDeclaredField n \<Rightarrow> (OP_LOAD_DECLARED_FIELD, FieldOperand n)
     | LogicalOrEmptyListGlobal n \<Rightarrow> (OP_LOGICAL_OR_GLOBAL, FieldOperand n)
     | LogicalOrEmptyListField n \<Rightarrow> (OP_LOGICAL_OR_FIELD, FieldOperand n)
     | IndexLocalList k \<Rightarrow> (OP_INDEX_LOCAL_LIST, NumericOperand (unat k))
     | ListLengthLocal k \<Rightarrow> (OP_LIST_LENGTH_LOCAL, NumericOperand (unat k))
     | LogicalOrEmptyListLocal k \<Rightarrow> (OP_LOGICAL_OR_LOCAL, NumericOperand (unat k))
     | LogicalOrEmptyListIndex \<Rightarrow> (OP_LOGICAL_OR_INDEX, UnitOperand)
     | PrepareRhsFirstIndexAssignment \<Rightarrow> (OP_PREPARE_RHS_INDEX, UnitOperand)
     | LoadDynamicField \<Rightarrow> (OP_LOAD_DYNAMIC_FIELD, UnitOperand)
     | StoreDynamicField \<Rightarrow> (OP_STORE_DYNAMIC_FIELD, UnitOperand)
     | _ \<Rightarrow> (OP_ESCAPE, UnitOperand))"

definition instruction_selector :: "instruction \<Rightarrow> u8 \<times> operand" where
  "instruction_selector i = (case i of
       ValueInstr v \<Rightarrow> value_selector v
     | QueryInstr v \<Rightarrow> query_selector v
     | AccessInstr v \<Rightarrow> access_selector v
     | MutateInstr v \<Rightarrow> mutate_selector v
     | OperatorInstr v \<Rightarrow> operator_selector v
     | ControlInstr v \<Rightarrow> control_selector v
     | FusedInstr v \<Rightarrow> fused_selector v)"

text \<open>\<open>string_id\<close> is the closure that interns or looks up a name; it may change its state.\<close>

definition selector_word_with :: "(string \<Rightarrow> 's \<Rightarrow> cw_error + u32 \<times> 's) \<Rightarrow> instruction \<Rightarrow> 's
    \<Rightarrow> cw_error + u32 \<times> 's" where
  "selector_word_with string_id i st = (case instruction_selector i of
       (opcode, UnitOperand) \<Rightarrow> Inr (pack opcode 0, st)
     | (opcode, NumericOperand n) \<Rightarrow> res_bind (pack_checked opcode n) (\<lambda>w. Inr (w, st))
     | (opcode, FieldOperand name) \<Rightarrow> res_bind (string_id name st) (\<lambda>(n, st).
         res_bind (pack_checked_u32 opcode n) (\<lambda>w. Inr (w, st))))"

section \<open>The string pool\<close>

type_synonym string_pool = "string list \<times> (string \<rightharpoonup> u32)"

definition intern_string :: "string \<Rightarrow> string_pool \<Rightarrow> cw_error + u32 \<times> string_pool" where
  "intern_string v st = (case st of (strings, ids) \<Rightarrow> (case ids v of
       Some n \<Rightarrow> Inr (n, st)
     | None \<Rightarrow>
         if CW_MAX_STRING_BYTES < length v \<or> CW_MAX_STRINGS \<le> length strings
         then Inl ''compact string pool exceeds limit''
         else if u32_max < length strings then Inl ''compact string id exceeds u32''
         else let n = of_nat (length strings) in Inr (n, (strings @ [v], ids(v \<mapsto> n)))))"

definition selector_word :: "instruction \<Rightarrow> string_pool \<Rightarrow> cw_error + u32 \<times> string_pool" where
  "selector_word = selector_word_with intern_string"

definition selector_word_from_ids :: "(string \<rightharpoonup> u32) \<Rightarrow> instruction \<Rightarrow> cw_error + u32" where
  "selector_word_from_ids ids i = res_bind (selector_word_with (\<lambda>v st. case ids v of
       None \<Rightarrow> Inl ''compact operand string is missing'' | Some n \<Rightarrow> Inr (n, st)) i ()) (\<lambda>(w, st). Inr w)"

section \<open>Validation\<close>

fun check_strings :: "string list \<Rightarrow> nat \<Rightarrow> string set \<Rightarrow> cw_error + unit" where
  "check_strings [] acc seen = Inr ()"
| "check_strings (s # ss) acc seen =
     (if CW_MAX_STRING_BYTES < length s then Inl ''compact string exceeds byte limit''
      else if usize_max < acc + length s then Inl ''string byte count overflow''
      else if CW_MAX_TOTAL_STRING_BYTES < acc + length s then Inl ''compact string table exceeds byte limit''
      else if s \<in> seen then Inl ''compact string table contains a duplicate''
      else check_strings ss (acc + length s) (insert s seen))"

fun check_records :: "nat \<Rightarrow> nat \<Rightarrow> compact_record list \<Rightarrow> nat \<Rightarrow> cw_error + nat" where
  "check_records string_count word_count [] expected = Inr expected"
| "check_records string_count word_count (r # rs) expected =
     (if string_count \<le> unat (path_id r) then Inl ''compact path id is invalid''
      else if record_flags r AND NOT 1 \<noteq> 0 then Inl ''compact procedure has unknown flags''
      else if record_local_count r < record_parameter_count r
        then Inl ''compact parameter count exceeds local count''
      else if unat (word_offset r) \<noteq> expected then Inl ''compact procedure ranges are not contiguous''
      else if usize_max < expected + unat (instruction_count r) then Inl ''compact procedure range overflow''
      else if word_count < expected + unat (instruction_count r)
        then Inl ''compact procedure range exceeds word table''
      else check_records string_count word_count rs (expected + unat (instruction_count r)))"

definition validate_image :: "wordcode_image \<Rightarrow> cw_error + unit" where
  "validate_image img =
     (if CW_MAX_STRINGS < length (cw_strings img) \<or> CW_MAX_PROCEDURES < length (cw_procedures img)
        \<or> CW_MAX_WORDS < length (cw_words img)
      then Inl ''compact wordcode image exceeds item limits''
      else res_bind (check_strings (cw_strings img) 0 {}) (\<lambda>_.
        res_bind (check_records (length (cw_strings img)) (length (cw_words img)) (cw_procedures img) 0) (\<lambda>expected.
          if expected \<noteq> length (cw_words img) then Inl ''compact word table has unclaimed words'' else Inr ())))"

text \<open>The identities of the strings of an image, collected into a map.\<close>

definition string_ids :: "string list \<Rightarrow> (string \<rightharpoonup> u32)" where
  "string_ids ss = fold (\<lambda>(index, v) m. m(v \<mapsto> of_nat index)) (zip [0..<length ss] ss) Map.empty"

fun check_words :: "nat \<Rightarrow> (string \<rightharpoonup> u32) \<Rightarrow> nat \<Rightarrow> (instruction \<times> u32) list \<Rightarrow> cw_error + unit" where
  "check_words index ids pc [] = Inr ()"
| "check_words index ids pc ((i, actual) # rest) = res_bind (selector_word_from_ids ids i) (\<lambda>expected.
     if actual \<noteq> expected
     then Inl (''compact procedure '' @ decimal index @ '' selector differs at instruction '' @ decimal pc)
     else check_words index ids (Suc pc) rest)"

definition check_procedure :: "wordcode_image \<Rightarrow> (string \<rightharpoonup> u32) \<Rightarrow> string list \<Rightarrow> nat
    \<Rightarrow> compact_record \<times> program \<Rightarrow> cw_error + unit" where
  "check_procedure img ids ps index rp = (case rp of (r, p) \<Rightarrow>
     res_bind (ok_or ''missing rich procedure path'' (nth_opt ps index)) (\<lambda>path.
     res_bind (ok_or ''compact path id is invalid'' (nth_opt (cw_strings img) (unat (path_id r)))) (\<lambda>compact_path.
       if compact_path \<noteq> path then Inl (''compact procedure '' @ decimal index @ '' path differs'')
       else if unat (instruction_count r) \<noteq> length (instructions p)
          \<or> unat (record_local_count r) \<noteq> local_count p
          \<or> unat (record_parameter_count r) \<noteq> parameter_count p
          \<or> record_flags r \<noteq> (if wait_for p then 1 else 0)
       then Inl (''compact procedure '' @ decimal index @ '' metadata differs'')
       else let start = unat (word_offset r); e = start + unat (instruction_count r) in
         if usize_max < e then Inl ''compact procedure range overflow''
         else if length (cw_words img) < e then Inl ''compact procedure range is invalid''
         else check_words index ids 0 (zip (instructions p) (take (e - start) (drop start (cw_words img)))))))"

fun check_procedures :: "wordcode_image \<Rightarrow> (string \<rightharpoonup> u32) \<Rightarrow> string list \<Rightarrow> nat
    \<Rightarrow> (compact_record \<times> program) list \<Rightarrow> cw_error + unit" where
  "check_procedures img ids ps index [] = Inr ()"
| "check_procedures img ids ps index (rp # rest) =
     res_bind (check_procedure img ids ps index rp) (\<lambda>_. check_procedures img ids ps (Suc index) rest)"

definition validate_against :: "wordcode_image \<Rightarrow> 'd vm_module \<Rightarrow> cw_error + unit" where
  "validate_against img m = res_bind (validate_image img) (\<lambda>_.
     if deferred m \<noteq> Map.empty then Inl ''cannot validate compact wordcode against a deferred module''
     else if length (cw_procedures img) \<noteq> length (procedures m) then Inl ''compact and rich procedure counts differ''
     else check_procedures img (string_ids (cw_strings img)) (paths m) 0 (zip (cw_procedures img) (procedures m)))"

section \<open>Building\<close>

fun build_words :: "instruction list \<Rightarrow> string_pool \<Rightarrow> cw_error + u32 list \<times> string_pool" where
  "build_words [] st = Inr ([], st)"
| "build_words (i # is) st = res_bind (selector_word i st) (\<lambda>(w, st).
     res_bind (build_words is st) (\<lambda>(ws, st). Inr (w # ws, st)))"

definition try_u32 :: "string \<Rightarrow> nat \<Rightarrow> cw_error + u32" where
  "try_u32 message n = (if u32_max < n then Inl message else Inr (of_nat n))"

fun build_procedures :: "string list \<Rightarrow> nat \<Rightarrow> program list \<Rightarrow> compact_record list \<times> u32 list \<times> string_pool
    \<Rightarrow> cw_error + compact_record list \<times> u32 list \<times> string_pool" where
  "build_procedures ps index [] st = Inr st"
| "build_procedures ps index (p # rest) (rs, words, pool) =
     res_bind (ok_or ''missing procedure path'' (nth_opt ps index)) (\<lambda>path.
     res_bind (intern_string path pool) (\<lambda>(pid, pool).
     res_bind (try_u32 ''compact word offset exceeds u32'' (length words)) (\<lambda>offset.
     res_bind (try_u32 ''procedure instruction count exceeds u32'' (length (instructions p))) (\<lambda>count.
     res_bind (try_u32 ''local count exceeds u32'' (local_count p)) (\<lambda>locals.
     res_bind (try_u32 ''parameter count exceeds u32'' (parameter_count p)) (\<lambda>parameters.
     res_bind (build_words (instructions p) pool) (\<lambda>(ws, pool).
       build_procedures ps (Suc index) rest (rs @ [\<lparr>path_id = pid, word_offset = offset,
         instruction_count = count, record_local_count = locals, record_parameter_count = parameters,
         record_flags = (if wait_for p then 1 else 0)\<rparr>], words @ ws, pool))))))))"

fun total_words :: "program list \<Rightarrow> nat \<Rightarrow> cw_error + nat" where
  "total_words [] acc = Inr acc"
| "total_words (p # ps) acc = (if usize_max < acc + length (instructions p)
     then Inl ''compact word count overflow'' else total_words ps (acc + length (instructions p)))"

definition build_image :: "'d vm_module \<Rightarrow> cw_error + wordcode_image" where
  "build_image m =
     (if deferred m \<noteq> Map.empty then Inl ''compact wordcode requires a fully eager module''
      else if CW_MAX_PROCEDURES < length (procedures m) then Inl ''compact wordcode procedure count exceeds limit''
      else res_bind (total_words (procedures m) 0) (\<lambda>acc.
        if CW_MAX_WORDS < acc then Inl ''compact wordcode instruction count exceeds limit''
        else res_bind (build_procedures (paths m) 0 (procedures m) ([], [], ([], Map.empty))) (\<lambda>(rs, words, pool).
          let img = \<lparr>cw_strings = fst pool, cw_procedures = rs, cw_words = words\<rparr> in
          res_bind (validate_against img m) (\<lambda>_. Inr img))))"

section \<open>Encoding\<close>

fun string_table_bytes :: "string list \<Rightarrow> nat \<Rightarrow> cw_error + nat" where
  "string_table_bytes [] acc = Inr acc"
| "string_table_bytes (s # ss) acc = (if usize_max < acc + 4 + length s
     then Inl ''string table length overflow'' else string_table_bytes ss (acc + 4 + length s))"

definition cw_string :: "string \<Rightarrow> u8 list" where
  "cw_string s = le_bytes 4 (of_nat (length s) :: u32) @ as_bytes s"

definition cw_record :: "compact_record \<Rightarrow> u8 list" where
  "cw_record r = le_bytes 4 (path_id r) @ le_bytes 4 (word_offset r) @ le_bytes 4 (instruction_count r)
     @ le_bytes 4 (record_local_count r) @ le_bytes 4 (record_parameter_count r) @ le_bytes 4 (record_flags r)"

definition encode_image :: "wordcode_image \<Rightarrow> cw_error + u8 list" where
  "encode_image img = res_bind (validate_image img) (\<lambda>_.
     res_bind (string_table_bytes (cw_strings img) 0) (\<lambda>string_bytes.
       let procedure_bytes = length (cw_procedures img) * PROCEDURE_BYTES; word_bytes = length (cw_words img) * 4 in
       if usize_max < procedure_bytes then Inl ''procedure table length overflow''
       else if usize_max < word_bytes then Inl ''word table length overflow''
       else if usize_max < HEADER_BYTES + string_bytes + procedure_bytes + word_bytes
         then Inl ''compact image length overflow''
       else Inr (CW_MAGIC @ le_bytes 2 CW_VERSION @ le_bytes 2 (0 :: u16)
         @ le_bytes 4 (of_nat (length (cw_strings img)) :: u32)
         @ le_bytes 4 (of_nat (length (cw_procedures img)) :: u32)
         @ le_bytes 4 (of_nat (length (cw_words img)) :: u32)
         @ concat (map cw_string (cw_strings img)) @ concat (map cw_record (cw_procedures img))
         @ concat (map (le_bytes 4) (cw_words img)))))"

section \<open>Decoding\<close>

record cw_reader =
  cw_bytes :: "u8 list"
  cw_position :: nat

type_synonym 'a cw_rd = "cw_reader \<Rightarrow> cw_error + 'a \<times> cw_reader"

definition cw_new :: "u8 list \<Rightarrow> cw_reader" where
  "cw_new bs = \<lparr>cw_bytes = bs, cw_position = 0\<rparr>"

definition cw_take :: "nat \<Rightarrow> string \<Rightarrow> u8 list cw_rd" where
  "cw_take n label r = (let e = cw_position r + n in
     if usize_max < e then Inl (label @ '' length overflow'')
     else if length (cw_bytes r) < e then Inl (''truncated '' @ label)
     else Inr (take n (drop (cw_position r) (cw_bytes r)), r\<lparr>cw_position := e\<rparr>))"

definition cw_bind :: "cw_error + 'a \<times> cw_reader \<Rightarrow> ('a \<Rightarrow> 'b cw_rd) \<Rightarrow> cw_error + 'b \<times> cw_reader" where
  "cw_bind d f = res_bind d (\<lambda>(x, r). f x r)"

definition cw_u16 :: "string \<Rightarrow> u16 cw_rd" where
  "cw_u16 label r = cw_bind (cw_take 2 label r) (\<lambda>bs r. Inr (from_le bs, r))"

definition cw_u32 :: "string \<Rightarrow> u32 cw_rd" where
  "cw_u32 label r = cw_bind (cw_take 4 label r) (\<lambda>bs r. Inr (from_le bs, r))"

definition cw_count :: "nat \<Rightarrow> string \<Rightarrow> nat cw_rd" where
  "cw_count mx label r = cw_bind (cw_u32 label r) (\<lambda>n r.
     if mx < unat n then Inl (label @ '' exceeds limit'') else Inr (unat n, r))"

fun decode_strings :: "nat \<Rightarrow> nat \<Rightarrow> string list cw_rd" where
  "decode_strings 0 acc r = Inr ([], r)"
| "decode_strings (Suc n) acc r = cw_bind (cw_count CW_MAX_STRING_BYTES ''string length'' r) (\<lambda>len r.
     if usize_max < acc + len then Inl ''string byte count overflow''
     else if CW_MAX_TOTAL_STRING_BYTES < acc + len then Inl ''compact string table exceeds byte limit''
     else cw_bind (cw_take len ''string bytes'' r) (\<lambda>raw r.
       res_bind (ok_or ''compact string is not UTF-8'' (from_utf8 raw)) (\<lambda>s.
         cw_bind (decode_strings n (acc + len) r) (\<lambda>ss r. Inr (s # ss, r)))))"

definition decode_record :: "compact_record cw_rd" where
  "decode_record r = cw_bind (cw_u32 ''path id'' r) (\<lambda>a r. cw_bind (cw_u32 ''word offset'' r) (\<lambda>b r.
     cw_bind (cw_u32 ''instruction count'' r) (\<lambda>c r. cw_bind (cw_u32 ''local count'' r) (\<lambda>d r.
     cw_bind (cw_u32 ''parameter count'' r) (\<lambda>e r. cw_bind (cw_u32 ''procedure flags'' r) (\<lambda>f r.
       Inr (\<lparr>path_id = a, word_offset = b, instruction_count = c, record_local_count = d,
         record_parameter_count = e, record_flags = f\<rparr>, r)))))))"

primrec cw_repeat :: "nat \<Rightarrow> 'a cw_rd \<Rightarrow> 'a list cw_rd" where
  "cw_repeat 0 d r = Inr ([], r)"
| "cw_repeat (Suc n) d r = cw_bind (d r) (\<lambda>x r. cw_bind (cw_repeat n d r) (\<lambda>xs r. Inr (x # xs, r)))"

text \<open>The three parts of \<open>decode\<close>: the header, the counts, the tables up to the end of the input.\<close>

definition decode_header :: "unit cw_rd" where
  "decode_header r = cw_bind (cw_take (length CW_MAGIC) ''header'' r) (\<lambda>magic r.
     if magic \<noteq> CW_MAGIC then Inl ''invalid compact wordcode header''
     else cw_bind (cw_u16 ''version'' r) (\<lambda>version r.
       if version \<noteq> CW_VERSION
       then Inl (''unsupported compact wordcode version '' @ decimal (unat version))
       else cw_bind (cw_u16 ''flags'' r) (\<lambda>flags r.
         if flags \<noteq> 0 then Inl ''unknown compact wordcode flags'' else Inr ((), r))))"

definition decode_counts :: "(nat \<times> nat \<times> nat) cw_rd" where
  "decode_counts r = cw_bind (cw_count CW_MAX_STRINGS ''string count'' r) (\<lambda>string_count r.
     cw_bind (cw_count CW_MAX_PROCEDURES ''procedure count'' r) (\<lambda>procedure_count r.
     cw_bind (cw_count CW_MAX_WORDS ''word count'' r) (\<lambda>word_count r.
       Inr ((string_count, procedure_count, word_count), r))))"

definition decode_tables :: "nat \<times> nat \<times> nat \<Rightarrow> wordcode_image cw_rd" where
  "decode_tables counts r = (case counts of (string_count, procedure_count, word_count) \<Rightarrow>
     cw_bind (decode_strings string_count 0 r) (\<lambda>ss r.
     cw_bind (cw_repeat procedure_count decode_record r) (\<lambda>rs r.
     cw_bind (cw_repeat word_count (cw_u32 ''dispatch word'') r) (\<lambda>ws r.
       if cw_position r \<noteq> length (cw_bytes r) then Inl ''trailing bytes after compact wordcode image''
       else Inr (\<lparr>cw_strings = ss, cw_procedures = rs, cw_words = ws\<rparr>, r)))))"

definition decode_image :: "u8 list \<Rightarrow> cw_error + wordcode_image" where
  "decode_image bs = res_bind (cw_bind (decode_header (cw_new bs)) (\<lambda>_ r.
     cw_bind (decode_counts r) decode_tables)) (\<lambda>(img, r). res_bind (validate_image img) (\<lambda>_. Inr img))"

section \<open>Queries\<close>

definition image_procedure :: "wordcode_image \<Rightarrow> procedure_id \<Rightarrow> compact_record option" where
  "image_procedure img p = nth_opt (cw_procedures img) (unat p)"

definition image_word :: "wordcode_image \<Rightarrow> procedure_id \<Rightarrow> nat \<Rightarrow> u32 option" where
  "image_word img p pc = (case image_procedure img p of
       None \<Rightarrow> None
     | Some r \<Rightarrow>
         if unat (instruction_count r) \<le> pc then None
         else if usize_max < unat (word_offset r) + pc then None
         else nth_opt (cw_words img) (unat (word_offset r) + pc))"

definition specialized_word_count :: "wordcode_image \<Rightarrow> nat" where
  "specialized_word_count img = length (filter (\<lambda>w. cw_selector w \<noteq> OP_ESCAPE) (cw_words img))"

end
