(* ===== verification/Interp.thy ===== *)
theory Interp
  imports Wordcode Heap
begin

text \<open>
  The interpreter core of \<open>crates/dm-vm/src/execution/interpreter.rs\<close>: the instructions that work on
  the active frame, the heap, reference cells and static locals, as one step of
  \<open>dispatch_instruction\<close>; the exception handlers of a chain of frames; and the fast path for
  compact words of \<open>native/fastpath_jit.rs\<close>. A stack is a list with its top at the end. \<open>None\<close> is a
  panic of the code. The instructions that call builtins, other procedures or the world are
  \<open>Elsewhere\<close>: the step says nothing about them. Binary32 addition and conversion of an \<open>i8\<close> are
  the parameters \<open>f32_add\<close> and \<open>f32_of_i8\<close>.
\<close>

section \<open>State\<close>

datatype vm_error =
    StackUnderflow
  | RequiresBaseTypePath
  | InvalidLocalSlot u16
  | InvalidStaticLocalSlot u16
  | ListLiteralTooLarge
  | AlistLiteralTooLarge
  | InvalidJumpTarget nat
  | HandlerOutsideProcedure
  | EndTryWithoutHandler
  | InvalidCatchLocal u16
  | NotComparable dm_value dm_value
  | NotScalar dm_value
  | HeapError value_error

record exception_handler =
  eh_start :: nat
  eh_end :: nat
  eh_catch :: nat
  eh_local :: "u16 option"
  eh_stack_depth :: nat

record call_frame =
  fr_procedure :: procedure_id
  fr_instruction :: nat
  fr_locals :: "dm_value list"
  fr_stack :: "dm_value list"
  fr_result :: dm_value
  fr_src :: dm_value
  fr_usr :: dm_value
  fr_arguments :: "dm_value list"
  fr_args_list :: "list_id option"
  fr_declared_argument_count :: nat
  fr_supplied_parameters :: "bool list"
  fr_static_locals :: "u16 list"
  fr_exception_handlers :: "exception_handler list"

text \<open>The parts of \<open>ExecutionState\<close> the modelled instructions touch.\<close>

record vm_state =
  vm_heap :: value_heap
  reference_lists :: "list_id set"
  associative_lists :: "list_id set"
  procedure_static_locals :: "string \<rightharpoonup> (u16 \<rightharpoonup> dm_value)"

text \<open>What an instruction does: go on, raise a runtime error, or something outside this theory.\<close>

datatype flow =
    Continue call_frame vm_state
  | Raised vm_error call_frame vm_state
  | Elsewhere

section \<open>Values\<close>

definition canonicalize_value :: "value_heap \<Rightarrow> dm_value \<Rightarrow> dm_value" where
  "canonicalize_value h v = (case v of
       VDatum d \<Rightarrow> if isl (heap_datum h d) then VNull else v
     | VList l \<Rightarrow> if isl (heap_list h l) then VNull else v
     | _ \<Rightarrow> v)"

definition runtime_truthy :: "value_heap \<Rightarrow> dm_value \<Rightarrow> value_error + bool" where
  "runtime_truthy h v = truthy h (canonicalize_value h v)"

definition values_equal :: "value_heap \<Rightarrow> dm_value \<Rightarrow> dm_value \<Rightarrow> bool" where
  "values_equal h v w = semantic_eq (canonicalize_value h v) (canonicalize_value h w)"

datatype ordering = OrdLess | OrdEqual | OrdGreater

text \<open>The order of binary32 numbers on their bits: sign and magnitude, both zeros equal.\<close>

definition f32_rank :: "u32 \<Rightarrow> int" where
  "f32_rank b = (let magnitude = uint (b AND 0x7fffffff) in if bit b 31 then - magnitude else magnitude)"

definition f32_partial_cmp :: "u32 \<Rightarrow> u32 \<Rightarrow> ordering option" where
  "f32_partial_cmp a b = (if f32_is_nan a \<or> f32_is_nan b then None
     else Some (if f32_rank a < f32_rank b then OrdLess else if f32_rank a = f32_rank b then OrdEqual else OrdGreater))"

text \<open>\<open>str::cmp\<close>: lexicographic on bytes.\<close>

fun text_cmp :: "string \<Rightarrow> string \<Rightarrow> ordering" where
  "text_cmp [] [] = OrdEqual"
| "text_cmp [] (d # ds) = OrdLess"
| "text_cmp (c # cs) [] = OrdGreater"
| "text_cmp (c # cs) (d # ds) = (if byte c < byte d then OrdLess else if byte d < byte c then OrdGreater
     else text_cmp cs ds)"

definition compare_values :: "dm_value \<Rightarrow> dm_value \<Rightarrow> vm_error + ordering option" where
  "compare_values v w = (case (v, w) of
       (VText s, VText t) \<Rightarrow> Inr (Some (text_cmp s t))
     | (VNull, VNull) \<Rightarrow> Inr (f32_partial_cmp 0 0)
     | (VNull, VNumber n) \<Rightarrow> Inr (f32_partial_cmp 0 n)
     | (VNumber m, VNull) \<Rightarrow> Inr (f32_partial_cmp m 0)
     | (VNumber m, VNumber n) \<Rightarrow> Inr (f32_partial_cmp m n)
     | _ \<Rightarrow> Inl (NotComparable v w))"

text \<open>\<open>f32::from(bool)\<close> and the constant \<open>-1.0\<close>, as bits.\<close>

definition f32_of_bool :: "bool \<Rightarrow> u32" where
  "f32_of_bool b = (if b then 0x3f800000 else 0)"

definition F32_MINUS_ONE :: u32 where "F32_MINUS_ONE = 0xbf800000"

definition mutate_scalar_value :: "(u32 \<Rightarrow> u32 \<Rightarrow> u32) \<Rightarrow> (i8 \<Rightarrow> u32) \<Rightarrow> dm_value \<Rightarrow> i8 \<Rightarrow> bool
    \<Rightarrow> vm_error + dm_value \<times> dm_value" where
  "mutate_scalar_value f32_add f32_of_i8 v delta prefix =
     res_bind (case v of VNull \<Rightarrow> Inr 0 | VText t \<Rightarrow> Inr 0 | VNumber n \<Rightarrow> Inr n | _ \<Rightarrow> Inl (NotScalar v))
       (\<lambda>old. let updated = VNumber (f32_add old (f32_of_i8 delta)) in
          Inr (if prefix then updated else v, updated))"

section \<open>Frames\<close>

definition advance :: "call_frame \<Rightarrow> vm_state \<Rightarrow> flow" where
  "advance f st = Continue (f\<lparr>fr_instruction := fr_instruction f + 1\<rparr>) st"

definition push :: "dm_value \<Rightarrow> call_frame \<Rightarrow> call_frame" where
  "push v f = f\<lparr>fr_stack := fr_stack f @ [v]\<rparr>"

definition pop_then :: "call_frame \<Rightarrow> vm_state \<Rightarrow> (dm_value \<Rightarrow> call_frame \<Rightarrow> flow option) \<Rightarrow> flow option" where
  "pop_then f st k = (if fr_stack f = [] then Some (Raised StackUnderflow f st)
     else k (last (fr_stack f)) (f\<lparr>fr_stack := butlast (fr_stack f)\<rparr>))"

definition validate_jump :: "nat \<Rightarrow> nat \<Rightarrow> vm_error + unit" where
  "validate_jump target n = (if n < target then Inl (InvalidJumpTarget target) else Inr ())"

definition jump_to :: "program \<Rightarrow> nat \<Rightarrow> call_frame \<Rightarrow> vm_state \<Rightarrow> flow" where
  "jump_to p target f st = (case validate_jump target (length (instructions p)) of
       Inl e \<Rightarrow> Raised e f st | Inr _ \<Rightarrow> Continue (f\<lparr>fr_instruction := target\<rparr>) st)"

text \<open>The declared parameters: up to the last one with a name.\<close>

definition program_declared_argument_count :: "program \<Rightarrow> nat" where
  "program_declared_argument_count p = (case vec_position (\<lambda>n. n \<noteq> []) (rev (parameter_names p)) of
       None \<Rightarrow> 0 | Some i \<Rightarrow> length (parameter_names p) - i)"

text \<open>The live parameter values, then the extra arguments; writing past \<open>arguments\<close> panics.\<close>

primrec overwrite :: "dm_value list \<Rightarrow> nat \<Rightarrow> dm_value list \<Rightarrow> dm_value list option" where
  "overwrite [] index as = Some as"
| "overwrite (v # vs) index as = do { as' \<leftarrow> vec_set as index v; overwrite vs (Suc index) as' }"

definition forwarded_frame_arguments :: "call_frame \<Rightarrow> program \<Rightarrow> dm_value list option" where
  "forwarded_frame_arguments f p =
     overwrite (take (program_declared_argument_count p) (fr_locals f)) 0 (fr_arguments f)"

text \<open>
  A fresh frame: parameters bound from the left, \<open>args\<close> padded with null to the declared count and
  keeping what was supplied beyond it.
\<close>

definition make_frame :: "procedure_id \<Rightarrow> program \<Rightarrow> dm_value list \<Rightarrow> dm_value \<Rightarrow> dm_value \<Rightarrow> call_frame" where
  "make_frame pid p arguments src usr = (let declared = program_declared_argument_count p;
       bound = min (min (length arguments) (parameter_count p)) (local_count p) in
     \<lparr>fr_procedure = pid, fr_instruction = 0,
      fr_locals = take bound arguments @ replicate (local_count p - bound) VNull, fr_stack = [],
      fr_result = VNull, fr_src = src, fr_usr = usr,
      fr_arguments = arguments @ replicate (declared - length arguments) VNull, fr_args_list = None,
      fr_declared_argument_count = declared,
      fr_supplied_parameters = map (\<lambda>i. i < length arguments) [0..<parameter_count p],
      fr_static_locals = [], fr_exception_handlers = []\<rparr>)"

text \<open>Named arguments go to the parameter of their name, the others to the next position.\<close>

definition argument_slot :: "program \<Rightarrow> string option \<Rightarrow> nat \<Rightarrow> nat \<times> nat" where
  "argument_slot p name next_positional =
     (case Option.bind name (\<lambda>n. vec_position ((=) n) (parameter_names p)) of
        Some slot \<Rightarrow> (slot, next_positional)
      | None \<Rightarrow> (next_positional, next_positional + 1))"

fun bind_arguments :: "program \<Rightarrow> string option list \<Rightarrow> nat \<Rightarrow> nat \<Rightarrow> dm_value list
    \<Rightarrow> dm_value list \<times> bool list \<times> dm_value list \<Rightarrow> dm_value list \<times> bool list \<times> dm_value list" where
  "bind_arguments p ns index next_positional [] st = st"
| "bind_arguments p ns index next_positional (v # vs) (positioned, supplied, extras) =
     (let (slot, next_positional) = argument_slot p (Option.bind (nth_opt ns index) (\<lambda>n. n)) next_positional in
      bind_arguments p ns (Suc index) next_positional vs
        (if slot < length positioned then (positioned[slot := v], supplied[slot := True], extras)
         else (positioned, supplied, extras @ [v])))"

definition make_frame_named :: "procedure_id \<Rightarrow> program \<Rightarrow> dm_value list \<Rightarrow> string option list \<Rightarrow> dm_value \<Rightarrow> dm_value
    \<Rightarrow> call_frame option" where
  "make_frame_named pid p arguments ns src usr =
     (if list_all (\<lambda>n. n = None) ns then Some (make_frame pid p arguments src usr)
      else let n = parameter_count p;
          (positioned, supplied, extras) =
            bind_arguments p ns 0 0 arguments (replicate n VNull, replicate n False, []) in do {
        declared \<leftarrow> vec_slice positioned 0 (program_declared_argument_count p);
        Some ((make_frame pid p positioned src usr)\<lparr>fr_arguments := declared @ extras,
          fr_supplied_parameters := supplied\<rparr>) })"

section \<open>Lists through the heap\<close>

text \<open>\<open>list_mut(list).and_then(|values| values.set(index, value))\<close>\<close>

definition list_cell_set :: "(hash_write list \<Rightarrow> u64) \<Rightarrow> list_id \<Rightarrow> nat \<Rightarrow> dm_value \<Rightarrow> value_heap
    \<Rightarrow> ((value_error + dm_value) \<times> value_heap) option" where
  "list_cell_set sip hid index v h = map_option (\<lambda>(r, h). (res_bind r (\<lambda>r. r), h))
     (list_update hid (list_set sip index v) h)"

text \<open>\<open>list(list).and_then(|values| values.get(1))\<close>: the contents of a reference cell.\<close>

definition list_cell_get :: "list_id \<Rightarrow> value_heap \<Rightarrow> (value_error + dm_value) option" where
  "list_cell_get hid h = (case heap_list h hid of Inl e \<Rightarrow> Some (Inl e) | Inr l \<Rightarrow> list_get l 1)"

text \<open>Writes into a list that was just allocated; an error is the panic of \<open>expect\<close>.\<close>

definition fresh_write :: "list_id \<Rightarrow> (dm_list \<Rightarrow> dm_list option) \<Rightarrow> value_heap \<Rightarrow> value_heap option" where
  "fresh_write hid g h = do {
     (r, h') \<leftarrow> list_update hid (\<lambda>l. map_option (Pair ()) (g l)) h;
     (if isl r then None else Some h') }"

primrec add_items :: "list_id \<Rightarrow> dm_value list \<Rightarrow> value_heap \<Rightarrow> value_heap option" where
  "add_items hid [] h = Some h"
| "add_items hid (v # vs) h = do {
     h' \<leftarrow> fresh_write hid (\<lambda>l. map_option snd (list_add v l)) h; add_items hid vs h' }"

fun literal_values :: "list_entry_kind list \<Rightarrow> nat" where
  "literal_values [] = 0"
| "literal_values (Positional # ks) = Suc (literal_values ks)"
| "literal_values (Associative # ks) = Suc (Suc (literal_values ks))"

text \<open>A list literal from its values, positional entries added or set as keys of an alist.\<close>

fun fill_literal :: "(hash_write list \<Rightarrow> u64) \<Rightarrow> bool \<Rightarrow> list_entry_kind list \<Rightarrow> dm_value list \<Rightarrow> dm_list \<Rightarrow> dm_list option" where
  "fill_literal sip alist [] vs l = Some l"
| "fill_literal sip alist (Positional # ks) (v # vs) l = do {
     l' \<leftarrow> (if alist then map_option snd (set_key sip v VNull l) else map_option snd (list_add v l));
     fill_literal sip alist ks vs l' }"
| "fill_literal sip alist (Associative # ks) (k # v # vs) l = do {
     l' \<leftarrow> map_option snd (set_key sip k v l); fill_literal sip alist ks vs l' }"
| "fill_literal sip alist _ _ l = None"

section \<open>Locals\<close>

text \<open>The cell behind a local whose address was taken.\<close>

definition reference_cell :: "vm_state \<Rightarrow> dm_value \<Rightarrow> list_id option" where
  "reference_cell st v = (case v of VList l \<Rightarrow> if l \<in> reference_lists st then Some l else None | _ \<Rightarrow> None)"

definition address_local :: "u16 \<Rightarrow> call_frame \<Rightarrow> vm_state \<Rightarrow> flow option" where
  "address_local slot f st = (case nth_opt (fr_locals f) (unat slot) of
       None \<Rightarrow> Some (Raised (InvalidLocalSlot slot) f st)
     | Some v \<Rightarrow> (case reference_cell st v of
           Some l \<Rightarrow> Some (advance (push (VList l) f) st)
         | None \<Rightarrow> do {
             (l, h) \<leftarrow> allocate_list (vm_heap st);
             h \<leftarrow> fresh_write l (\<lambda>x. map_option snd (list_add v x)) h;
             Some (advance (push (VList l) (f\<lparr>fr_locals := (fr_locals f)[unat slot := VList l]\<rparr>))
               (st\<lparr>vm_heap := h, reference_lists := insert l (reference_lists st)\<rparr>)) }))"

text \<open>A local with its reference cell followed, as \<open>LoadLocal\<close> and the fused list forms read it.\<close>

definition read_local :: "u16 \<Rightarrow> call_frame \<Rightarrow> vm_state \<Rightarrow> (vm_error + dm_value) option" where
  "read_local slot f st = (case nth_opt (fr_locals f) (unat slot) of
       None \<Rightarrow> Some (Inl (InvalidLocalSlot slot))
     | Some v \<Rightarrow> (case reference_cell st v of
           None \<Rightarrow> Some (Inr v)
         | Some l \<Rightarrow> map_option (map_err HeapError) (list_cell_get l (vm_heap st))))"

definition load_local :: "u16 \<Rightarrow> call_frame \<Rightarrow> vm_state \<Rightarrow> flow option" where
  "load_local slot f st = map_option (\<lambda>r. case r of
       Inl e \<Rightarrow> Raised e f st
     | Inr v \<Rightarrow> advance (push (canonicalize_value (vm_heap st) v) f) st) (read_local slot f st)"

definition insert_static :: "string \<Rightarrow> u16 \<Rightarrow> dm_value \<Rightarrow> vm_state \<Rightarrow> vm_state" where
  "insert_static path slot v st = (let m = (case procedure_static_locals st path of None \<Rightarrow> Map.empty | Some m \<Rightarrow> m) in
     st\<lparr>procedure_static_locals := (procedure_static_locals st)(path \<mapsto> m(slot \<mapsto> v))\<rparr>)"

text \<open>What a write to a parameter owes the argument vector and the live \<open>args\<close> list.\<close>

definition sync_parameter :: "(hash_write list \<Rightarrow> u64) \<Rightarrow> nat \<Rightarrow> dm_value \<Rightarrow> call_frame \<Rightarrow> vm_state
    \<Rightarrow> (vm_error option \<times> call_frame \<times> vm_state) option" where
  "sync_parameter sip index v f st = do {
     as \<leftarrow> vec_set (fr_arguments f) index v;
     let f = f\<lparr>fr_arguments := as\<rparr>;
     (case fr_args_list f of
        None \<Rightarrow> Some (None, f, st)
      | Some l \<Rightarrow> do {
          (r, h) \<leftarrow> list_cell_set sip l (index + 1) v (vm_heap st);
          Some (case r of Inl e \<Rightarrow> Some (HeapError e) | Inr _ \<Rightarrow> None, f, st\<lparr>vm_heap := h\<rparr>) }) }"

text \<open>The write itself: through the reference cell where there is one, else into the local.\<close>

definition write_local :: "(hash_write list \<Rightarrow> u64) \<Rightarrow> list_id option \<Rightarrow> nat \<Rightarrow> dm_value \<Rightarrow> call_frame \<Rightarrow> vm_state
    \<Rightarrow> (vm_error option \<times> call_frame \<times> vm_state) option" where
  "write_local sip cell index v f st = (case cell of
       None \<Rightarrow> Some (None, f\<lparr>fr_locals := (fr_locals f)[index := v]\<rparr>, st)
     | Some l \<Rightarrow> do {
         (r, h) \<leftarrow> list_cell_set sip l 1 v (vm_heap st);
         Some (case r of Inl e \<Rightarrow> Some (HeapError e) | Inr _ \<Rightarrow> None, f, st\<lparr>vm_heap := h\<rparr>) })"

text \<open>Go on after a write that did not fail.\<close>

definition after_write :: "(vm_error option \<times> call_frame \<times> vm_state) option
    \<Rightarrow> (call_frame \<Rightarrow> vm_state \<Rightarrow> flow option) \<Rightarrow> flow option" where
  "after_write m k = do {
     (e, f, st) \<leftarrow> m;
     (case e of Some e \<Rightarrow> Some (Raised e f st) | None \<Rightarrow> k f st) }"

definition store_local :: "(hash_write list \<Rightarrow> u64) \<Rightarrow> string \<Rightarrow> u16 \<Rightarrow> call_frame \<Rightarrow> vm_state \<Rightarrow> flow option" where
  "store_local sip path slot f0 st0 = pop_then f0 st0 (\<lambda>v f. let index = unat slot in
     case nth_opt (fr_locals f) index of
       None \<Rightarrow> Some (Raised (InvalidLocalSlot slot) f st0)
     | Some current \<Rightarrow>
         let cell = reference_cell st0 current; parameter = (index < fr_declared_argument_count f);
             static_local = (slot \<in> set (fr_static_locals f)) in
         if cell = None \<and> \<not> parameter \<and> \<not> static_local
         then Some (advance (f\<lparr>fr_locals := (fr_locals f)[index := v]\<rparr>) st0)
         else after_write (write_local sip cell index v f st0) (\<lambda>f st.
           after_write (if parameter then sync_parameter sip index v f st else Some (None, f, st)) (\<lambda>f st.
             Some (advance f (if static_local then insert_static path slot v st else st)))))"

definition load_static_local_or_jump :: "string \<Rightarrow> u16 \<Rightarrow> nat \<Rightarrow> call_frame \<Rightarrow> vm_state \<Rightarrow> flow" where
  "load_static_local_or_jump path slot target f st =
     (case Option.bind (procedure_static_locals st path) (\<lambda>m. m slot) of
        None \<Rightarrow> advance f st
      | Some v \<Rightarrow>
          if length (fr_locals f) \<le> unat slot then Raised (InvalidStaticLocalSlot slot) f st
          else advance (f\<lparr>fr_locals := (fr_locals f)[unat slot := v],
            fr_static_locals := fr_static_locals f @ [slot], fr_instruction := target - 1\<rparr>) st)"

definition initialize_static_local :: "string \<Rightarrow> u16 \<Rightarrow> call_frame \<Rightarrow> vm_state \<Rightarrow> flow option" where
  "initialize_static_local path slot f st = pop_then f st (\<lambda>v f.
     Some (advance (push v (f\<lparr>fr_static_locals := fr_static_locals f @ [slot]\<rparr>)) (insert_static path slot v st)))"

definition mutate_local :: "(u32 \<Rightarrow> u32 \<Rightarrow> u32) \<Rightarrow> (i8 \<Rightarrow> u32) \<Rightarrow> u16 \<Rightarrow> i8 \<Rightarrow> bool \<Rightarrow> call_frame \<Rightarrow> vm_state \<Rightarrow> flow" where
  "mutate_local f32_add f32_of_i8 slot delta prefix f st = (case nth_opt (fr_locals f) (unat slot) of
       None \<Rightarrow> Raised (InvalidLocalSlot slot) f st
     | Some current \<Rightarrow> (case mutate_scalar_value f32_add f32_of_i8 current delta prefix of
           Inl e \<Rightarrow> Raised e f st
         | Inr (result, updated) \<Rightarrow> advance (push result (f\<lparr>fr_locals := (fr_locals f)[unat slot := updated]\<rparr>)) st))"

definition mutate_result :: "(u32 \<Rightarrow> u32 \<Rightarrow> u32) \<Rightarrow> (i8 \<Rightarrow> u32) \<Rightarrow> i8 \<Rightarrow> bool \<Rightarrow> call_frame \<Rightarrow> vm_state \<Rightarrow> flow" where
  "mutate_result f32_add f32_of_i8 delta prefix f st =
     (case mutate_scalar_value f32_add f32_of_i8 (fr_result f) delta prefix of
        Inl e \<Rightarrow> Raised e f st
      | Inr (result, updated) \<Rightarrow> advance (push result (f\<lparr>fr_result := updated\<rparr>)) st)"

section \<open>One instruction\<close>

definition pop_pair :: "call_frame \<Rightarrow> vm_state \<Rightarrow> (dm_value \<Rightarrow> dm_value \<Rightarrow> call_frame \<Rightarrow> flow option) \<Rightarrow> flow option" where
  "pop_pair f st k = pop_then f st (\<lambda>right f. pop_then f st (\<lambda>left f. k left right f))"

text \<open>Go on with a pushed value, or raise what computing it raised.\<close>

definition push_result :: "vm_error + dm_value \<Rightarrow> call_frame \<Rightarrow> vm_state \<Rightarrow> flow" where
  "push_result r f st = (case r of Inl e \<Rightarrow> Raised e f st | Inr v \<Rightarrow> advance (push v f) st)"

definition bool_value :: "bool \<Rightarrow> dm_value" where
  "bool_value b = VNumber (f32_of_bool b)"

definition make_modified_type_path :: "string list \<Rightarrow> call_frame \<Rightarrow> vm_state \<Rightarrow> flow" where
  "make_modified_type_path ns f st = (let s = fr_stack f in
     if length s < length ns + 1 then Raised StackUnderflow f st
     else let values_start = length s - length ns; base_index = values_start - 1 in
       case s ! base_index of
         VTypePath base \<Rightarrow> advance (push (VModifiedTypePath base (zip ns (drop values_start s)))
           (f\<lparr>fr_stack := take base_index s\<rparr>)) st
       | _ \<Rightarrow> Raised RequiresBaseTypePath f st)"

definition step_value :: "value_instruction \<Rightarrow> call_frame \<Rightarrow> vm_state \<Rightarrow> flow option" where
  "step_value i f st = (case i of
       PushNull \<Rightarrow> Some (advance (push VNull f) st)
     | PushNumber n \<Rightarrow> Some (advance (push (VNumber n) f) st)
     | PushText t \<Rightarrow> Some (advance (push (VText t) f) st)
     | PushFile p \<Rightarrow> Some (advance (push (VFile p) f) st)
     | PushTypePath p \<Rightarrow> Some (advance (push (VTypePath p) f) st)
     | MakeModifiedTypePath ns \<Rightarrow> Some (make_modified_type_path ns f st)
     | AddressLocal slot \<Rightarrow> address_local slot f st
     | LoadLocalRaw slot \<Rightarrow> Some (case nth_opt (fr_locals f) (unat slot) of
           None \<Rightarrow> Raised (InvalidLocalSlot slot) f st
         | Some v \<Rightarrow> advance (push (canonicalize_value (vm_heap st) v) f) st)
     | _ \<Rightarrow> Some Elsewhere)"

text \<open>\<open>split_off\<close> of the top values for a list literal, and the new list pushed in their place.\<close>

definition push_new_list :: "nat \<Rightarrow> (dm_value list \<Rightarrow> list_id \<Rightarrow> value_heap \<Rightarrow> value_heap option)
    \<Rightarrow> (list_id \<Rightarrow> vm_state \<Rightarrow> vm_state) \<Rightarrow> call_frame \<Rightarrow> vm_state \<Rightarrow> flow option" where
  "push_new_list count fill after f st = (let s = fr_stack f in
     if length s < count then Some (Raised StackUnderflow f st)
     else do {
       (l, h) \<leftarrow> allocate_list (vm_heap st);
       h \<leftarrow> fill (drop (length s - count) s) l h;
       Some (advance (push (VList l) (f\<lparr>fr_stack := take (length s - count) s\<rparr>)) (after l (st\<lparr>vm_heap := h\<rparr>))) })"

definition mark_associative_list :: "list_id \<Rightarrow> vm_state \<Rightarrow> vm_state" where
  "mark_associative_list l st = st\<lparr>associative_lists := insert l (associative_lists st)\<rparr>"

definition make_args :: "program \<Rightarrow> call_frame \<Rightarrow> vm_state \<Rightarrow> flow option" where
  "make_args p f st = do {
     (l, h) \<leftarrow> allocate_list (vm_heap st);
     arguments \<leftarrow> forwarded_frame_arguments f p;
     h \<leftarrow> add_items l arguments h;
     Some (advance (push (VList l) (f\<lparr>fr_args_list := Some l\<rparr>)) (st\<lparr>vm_heap := h\<rparr>)) }"

definition step_query :: "(hash_write list \<Rightarrow> u64) \<Rightarrow> program \<Rightarrow> query_instruction \<Rightarrow> call_frame \<Rightarrow> vm_state \<Rightarrow> flow option" where
  "step_query sip p i f st = (case i of
       MakeList n \<Rightarrow> push_new_list (unat n) (\<lambda>items l. add_items l items) (\<lambda>_ st. st) f st
     | MakeArgs \<Rightarrow> make_args p f st
     | MakeListEntries kinds \<Rightarrow>
         if usize_max < literal_values kinds then Some (Raised ListLiteralTooLarge f st)
         else push_new_list (literal_values kinds) (\<lambda>vs l. fresh_write l (fill_literal sip False kinds vs))
           (\<lambda>_ st. st) f st
     | MakeAssociativeListEntries kinds \<Rightarrow>
         if usize_max < literal_values kinds then Some (Raised AlistLiteralTooLarge f st)
         else push_new_list (literal_values kinds) (\<lambda>vs l. fresh_write l (fill_literal sip True kinds vs))
           mark_associative_list f st
     | _ \<Rightarrow> Some Elsewhere)"

definition step_access :: "(hash_write list \<Rightarrow> u64) \<Rightarrow> string \<Rightarrow> access_instruction \<Rightarrow> call_frame \<Rightarrow> vm_state \<Rightarrow> flow option" where
  "step_access sip path i f st = (case i of
       LoadLocal slot \<Rightarrow> load_local slot f st
     | StoreLocal slot \<Rightarrow> store_local sip path slot f st
     | LoadStaticLocalOrJump slot target \<Rightarrow> Some (load_static_local_or_jump path slot target f st)
     | InitializeStaticLocal slot \<Rightarrow> initialize_static_local path slot f st
     | LoadSrc \<Rightarrow> Some (advance (push (canonicalize_value (vm_heap st) (fr_src f)) f) st)
     | StoreSrc \<Rightarrow> pop_then f st (\<lambda>v f. Some (advance (f\<lparr>fr_src := v\<rparr>) st))
     | LoadUsr \<Rightarrow> Some (advance (push (canonicalize_value (vm_heap st) (fr_usr f)) f) st)
     | StoreUsr \<Rightarrow> pop_then f st (\<lambda>v f. Some (advance (f\<lparr>fr_usr := v\<rparr>) st))
     | _ \<Rightarrow> Some Elsewhere)"

definition begin_try :: "program \<Rightarrow> nat \<Rightarrow> nat \<Rightarrow> u16 option \<Rightarrow> call_frame \<Rightarrow> vm_state \<Rightarrow> flow" where
  "begin_try p catch_pc end_pc slot f st =
     (if length (instructions p) \<le> catch_pc \<or> length (instructions p) \<le> end_pc
      then Raised HandlerOutsideProcedure f st
      else advance (f\<lparr>fr_exception_handlers := fr_exception_handlers f @
        [\<lparr>eh_start = fr_instruction f + 1, eh_end = end_pc, eh_catch = catch_pc, eh_local = slot,
          eh_stack_depth = length (fr_stack f)\<rparr>]\<rparr>) st)"

definition step_mutate :: "(u32 \<Rightarrow> u32 \<Rightarrow> u32) \<Rightarrow> (i8 \<Rightarrow> u32) \<Rightarrow> program \<Rightarrow> mutate_instruction \<Rightarrow> call_frame \<Rightarrow> vm_state
    \<Rightarrow> flow option" where
  "step_mutate f32_add f32_of_i8 p i f st = (case i of
       MutateLocal slot delta prefix \<Rightarrow> Some (mutate_local f32_add f32_of_i8 slot delta prefix f st)
     | MutateResult delta prefix \<Rightarrow> Some (mutate_result f32_add f32_of_i8 delta prefix f st)
     | Duplicate \<Rightarrow> Some (if fr_stack f = [] then Raised StackUnderflow f st
         else advance (push (last (fr_stack f)) f) st)
     | LoadResult \<Rightarrow> Some (advance (push (fr_result f) f) st)
     | StoreResult \<Rightarrow> pop_then f st (\<lambda>v f. Some (advance (f\<lparr>fr_result := v\<rparr>) st))
     | Pop \<Rightarrow> pop_then f st (\<lambda>v f. Some (advance f st))
     | BeginTry catch_pc end_pc slot \<Rightarrow> Some (begin_try p catch_pc end_pc slot f st)
     | EndTry \<Rightarrow> Some (if fr_exception_handlers f = [] then Raised EndTryWithoutHandler f st
         else advance (f\<lparr>fr_exception_handlers := butlast (fr_exception_handlers f)\<rparr>) st)
     | _ \<Rightarrow> Some Elsewhere)"

text \<open>The four relational operators read an ordering; unordered operands are false.\<close>

definition relational :: "operator_instruction \<Rightarrow> ordering option \<Rightarrow> bool" where
  "relational i c = (case i of
       Less \<Rightarrow> c = Some OrdLess
     | LessEqual \<Rightarrow> c = Some OrdLess \<or> c = Some OrdEqual
     | Greater \<Rightarrow> c = Some OrdGreater
     | GreaterEqual \<Rightarrow> c = Some OrdGreater \<or> c = Some OrdEqual
     | _ \<Rightarrow> False)"

definition ordering_number :: "ordering option \<Rightarrow> u32" where
  "ordering_number c = (case c of Some OrdLess \<Rightarrow> F32_MINUS_ONE | Some OrdGreater \<Rightarrow> f32_of_bool True | _ \<Rightarrow> 0)"

definition step_relational :: "operator_instruction \<Rightarrow> call_frame \<Rightarrow> vm_state \<Rightarrow> flow option" where
  "step_relational i f st = pop_pair f st (\<lambda>left right f. Some (push_result
     (res_bind (compare_values left right) (\<lambda>c. Inr (bool_value (relational i c)))) f st))"

definition step_equal :: "bool \<Rightarrow> call_frame \<Rightarrow> vm_state \<Rightarrow> flow option" where
  "step_equal negated f st = pop_pair f st (\<lambda>left right f.
     Some (advance (push (bool_value (values_equal (vm_heap st) left right \<noteq> negated)) f) st))"

text \<open>The right operand's truth is decided before the left one is popped.\<close>

definition step_logical :: "(bool \<Rightarrow> bool \<Rightarrow> bool) \<Rightarrow> call_frame \<Rightarrow> vm_state \<Rightarrow> flow option" where
  "step_logical combine f st = pop_then f st (\<lambda>right f. case runtime_truthy (vm_heap st) right of
       Inl e \<Rightarrow> Some (Raised (HeapError e) f st)
     | Inr r \<Rightarrow> pop_then f st (\<lambda>left f. Some (push_result
         (map_err HeapError (res_bind (runtime_truthy (vm_heap st) left) (\<lambda>l. Inr (bool_value (combine l r))))) f st)))"

definition step_operator :: "operator_instruction \<Rightarrow> call_frame \<Rightarrow> vm_state \<Rightarrow> flow option" where
  "step_operator i f st = (case i of
       Not \<Rightarrow> pop_then f st (\<lambda>v f. Some (push_result
         (map_err HeapError (res_bind (runtime_truthy (vm_heap st) v) (\<lambda>b. Inr (bool_value (\<not> b))))) f st))
     | Equal \<Rightarrow> step_equal False f st
     | NotEqual \<Rightarrow> step_equal True f st
     | Compare \<Rightarrow> pop_pair f st (\<lambda>left right f. Some (push_result
         (res_bind (compare_values left right) (\<lambda>c. Inr (VNumber (ordering_number c)))) f st))
     | Less \<Rightarrow> step_relational Less f st
     | LessEqual \<Rightarrow> step_relational LessEqual f st
     | Greater \<Rightarrow> step_relational Greater f st
     | GreaterEqual \<Rightarrow> step_relational GreaterEqual f st
     | And \<Rightarrow> step_logical (\<and>) f st
     | Or \<Rightarrow> step_logical (\<or>) f st
     | _ \<Rightarrow> Some Elsewhere)"

definition argument_supplied :: "nat \<Rightarrow> call_frame \<Rightarrow> bool" where
  "argument_supplied parameter f = (nth_opt (fr_supplied_parameters f) parameter = Some True
     \<and> nth_opt (fr_locals f) parameter \<noteq> Some VNull)"

definition step_control :: "program \<Rightarrow> control_instruction \<Rightarrow> call_frame \<Rightarrow> vm_state \<Rightarrow> flow option" where
  "step_control p i f st = (case i of
       JumpIfNull target \<Rightarrow> pop_then f st (\<lambda>v f. Some (
         if canonicalize_value (vm_heap st) v = VNull then jump_to p target f st else advance f st))
     | JumpIfFalse target \<Rightarrow> pop_then f st (\<lambda>v f. Some (case runtime_truthy (vm_heap st) v of
           Inl e \<Rightarrow> Raised (HeapError e) f st
         | Inr b \<Rightarrow> if b then advance f st else jump_to p target f st))
     | Jump target \<Rightarrow> Some (jump_to p target f st)
     | JumpIfArgumentSupplied parameter target \<Rightarrow> Some (
         if argument_supplied (unat parameter) f then jump_to p target f st else advance f st)
     | _ \<Rightarrow> Some Elsewhere)"

text \<open>\<open>x ||= list()\<close> on a local: the new list goes where \<open>StoreLocal\<close> would put it.\<close>

definition logical_or_empty_list_local :: "(hash_write list \<Rightarrow> u64) \<Rightarrow> string \<Rightarrow> program \<Rightarrow> u16 \<Rightarrow> call_frame \<Rightarrow> vm_state
    \<Rightarrow> flow option" where
  "logical_or_empty_list_local sip path p slot f0 st0 = do {
     r \<leftarrow> read_local slot f0 st0;
     (case res_bind r (\<lambda>current. map_err HeapError (res_bind (runtime_truthy (vm_heap st0) current) (\<lambda>b. Inr (current, b)))) of
        Inl e \<Rightarrow> Some (Raised e f0 st0)
      | Inr (current, True) \<Rightarrow> Some (advance (push current f0) st0)
      | Inr (_, False) \<Rightarrow> do {
          (l, h) \<leftarrow> allocate_list (vm_heap st0);
          let index = unat slot;
          after_write (write_local sip (reference_cell st0 (fr_locals f0 ! index)) index (VList l) f0
              (st0\<lparr>vm_heap := h\<rparr>)) (\<lambda>f st.
            after_write (if index < program_declared_argument_count p then sync_parameter sip index (VList l) f st
                else Some (None, f, st)) (\<lambda>f st.
              Some (advance (push (VList l) f)
                (if slot \<in> set (fr_static_locals f) then insert_static path slot (VList l) st else st)))) }) }"

definition prepare_rhs_first_index_assignment :: "call_frame \<Rightarrow> vm_state \<Rightarrow> flow" where
  "prepare_rhs_first_index_assignment f st = (let s = fr_stack f; n = length s in
     if n < 3 then Raised StackUnderflow f st
     else advance (f\<lparr>fr_stack := take (n - 3) s @ rotate 1 (drop (n - 3) s)\<rparr>) st)"

definition step_fused :: "(hash_write list \<Rightarrow> u64) \<Rightarrow> string \<Rightarrow> program \<Rightarrow> fused_instruction \<Rightarrow> call_frame \<Rightarrow> vm_state
    \<Rightarrow> flow option" where
  "step_fused sip path p i f st = (case i of
       LogicalOrEmptyListLocal slot \<Rightarrow> logical_or_empty_list_local sip path p slot f st
     | PrepareRhsFirstIndexAssignment \<Rightarrow> Some (prepare_rhs_first_index_assignment f st)
     | _ \<Rightarrow> Some Elsewhere)"

definition dispatch_instruction :: "(u32 \<Rightarrow> u32 \<Rightarrow> u32) \<Rightarrow> (i8 \<Rightarrow> u32) \<Rightarrow> (hash_write list \<Rightarrow> u64) \<Rightarrow> string \<Rightarrow> program
    \<Rightarrow> instruction \<Rightarrow> call_frame \<Rightarrow> vm_state \<Rightarrow> flow option" where
  "dispatch_instruction f32_add f32_of_i8 sip path p i f st = (case i of
       ValueInstr j \<Rightarrow> step_value j f st
     | QueryInstr j \<Rightarrow> step_query sip p j f st
     | AccessInstr j \<Rightarrow> step_access sip path j f st
     | MutateInstr j \<Rightarrow> step_mutate f32_add f32_of_i8 p j f st
     | OperatorInstr j \<Rightarrow> step_operator j f st
     | ControlInstr j \<Rightarrow> step_control p j f st
     | FusedInstr j \<Rightarrow> step_fused sip path p j f st)"

section \<open>The compact fast path\<close>

text \<open>\<open>execute_compact_fast_instruction\<close> only fails by underflow; it never changes the state.\<close>

definition fast_pop :: "call_frame \<Rightarrow> (dm_value \<Rightarrow> call_frame \<Rightarrow> call_frame) \<Rightarrow> vm_error + call_frame" where
  "fast_pop f k = (if fr_stack f = [] then Inl StackUnderflow
     else Inr (k (last (fr_stack f)) (f\<lparr>fr_stack := butlast (fr_stack f)\<rparr>)))"

definition execute_compact_fast_instruction :: "compact_fast_instruction \<Rightarrow> call_frame \<Rightarrow> vm_state
    \<Rightarrow> vm_error + call_frame" where
  "execute_compact_fast_instruction operation f st = (case operation of
       FastPushNull \<Rightarrow> Inr (push VNull f)
     | FastLoadSrc \<Rightarrow> Inr (push (canonicalize_value (vm_heap st) (fr_src f)) f)
     | FastStoreSrc \<Rightarrow> fast_pop f (\<lambda>v f. f\<lparr>fr_src := v\<rparr>)
     | FastLoadUsr \<Rightarrow> Inr (push (canonicalize_value (vm_heap st) (fr_usr f)) f)
     | FastStoreUsr \<Rightarrow> fast_pop f (\<lambda>v f. f\<lparr>fr_usr := v\<rparr>)
     | FastLoadResult \<Rightarrow> Inr (push (fr_result f) f)
     | FastStoreResult \<Rightarrow> fast_pop f (\<lambda>v f. f\<lparr>fr_result := v\<rparr>)
     | FastPop \<Rightarrow> fast_pop f (\<lambda>v f. f)
     | FastDuplicate \<Rightarrow> (if fr_stack f = [] then Inl StackUnderflow else Inr (push (last (fr_stack f)) f)))"

section \<open>Exceptions\<close>

text \<open>The last element with a property, with its position: \<open>enumerate().rev()\<close> and \<open>rposition\<close>.\<close>

definition rposition :: "('a \<Rightarrow> bool) \<Rightarrow> 'a list \<Rightarrow> nat option" where
  "rposition p xs = map_option (\<lambda>i. length xs - 1 - i) (vec_position p (rev xs))"

definition covers :: "nat \<Rightarrow> exception_handler \<Rightarrow> bool" where
  "covers pc h = (eh_start h \<le> pc \<and> pc \<le> eh_end h)"

definition frame_handler :: "call_frame \<Rightarrow> nat option" where
  "frame_handler f = rposition (covers (fr_instruction f)) (fr_exception_handlers f)"

definition find_active_exception_handler :: "call_frame list \<Rightarrow> (nat \<times> nat) option" where
  "find_active_exception_handler frames = do {
     i \<leftarrow> rposition (\<lambda>f. frame_handler f \<noteq> None) frames;
     j \<leftarrow> frame_handler (frames ! i);
     Some (i, j) }"

definition deliver_to_exception_handler :: "call_frame list \<Rightarrow> nat \<times> nat \<Rightarrow> dm_value \<Rightarrow> vm_error + call_frame list" where
  "deliver_to_exception_handler frames location v = (let (i, j) = location; f = frames ! i;
       h = fr_exception_handlers f ! j;
       f = f\<lparr>fr_exception_handlers := take j (fr_exception_handlers f), fr_stack := take (eh_stack_depth h) (fr_stack f)\<rparr> in
     case eh_local h of
       None \<Rightarrow> Inr (take i frames @ [f\<lparr>fr_instruction := eh_catch h\<rparr>])
     | Some slot \<Rightarrow> if length (fr_locals f) \<le> unat slot then Inl (InvalidCatchLocal slot)
         else Inr (take i frames @ [f\<lparr>fr_locals := (fr_locals f)[unat slot := v], fr_instruction := eh_catch h\<rparr>]))"

end
