(* ===== verification/WordcodeLaws.thy ===== *)
theory WordcodeLaws
  imports Wordcode
begin

text \<open>
  What an image promises: encoding and decoding are inverse on valid images, a built image is valid
  for its module, and a word of a valid image tells its instruction.
\<close>

section \<open>Dispatch words\<close>

lemma mask_low24: "PAYLOAD_MASK = mask 24"
  by (simp add: PAYLOAD_MASK_def mask_eq_decr_exp)

lemma cw_selector_pack [simp]: "cw_selector (pack opcode operand) = opcode"
  unfolding cw_selector_def pack_def mask_low24
  by (rule bit_word_eqI) (auto simp: bit_simps)

lemma cw_operand_pack [simp]: "cw_operand (pack opcode operand) = operand AND PAYLOAD_MASK"
  unfolding cw_operand_def pack_def mask_low24
  by (rule bit_word_eqI) (auto simp: bit_simps)

text \<open>The rich instruction of each fast operation.\<close>

fun rich_instruction :: "compact_fast_instruction \<Rightarrow> instruction" where
  "rich_instruction FastPushNull = ValueInstr PushNull"
| "rich_instruction FastLoadSrc = AccessInstr LoadSrc"
| "rich_instruction FastStoreSrc = AccessInstr StoreSrc"
| "rich_instruction FastLoadUsr = AccessInstr LoadUsr"
| "rich_instruction FastStoreUsr = AccessInstr StoreUsr"
| "rich_instruction FastLoadResult = MutateInstr LoadResult"
| "rich_instruction FastStoreResult = MutateInstr StoreResult"
| "rich_instruction FastPop = MutateInstr Pop"
| "rich_instruction FastDuplicate = MutateInstr Duplicate"

definition fast_opcodes :: "u8 list" where
  "fast_opcodes = [OP_PUSH_NULL, OP_LOAD_SRC, OP_STORE_SRC, OP_LOAD_USR, OP_STORE_USR, OP_LOAD_RESULT,
     OP_STORE_RESULT, OP_POP, OP_DUPLICATE]"

lemma fast_instruction_opcodes: "fast_instruction w \<noteq> None \<longleftrightarrow> cw_selector w \<in> set fast_opcodes"
  by (simp add: fast_instruction_def fast_opcodes_def Let_def)

lemma value_selector_fast: "fst (value_selector v) \<in> set fast_opcodes \<longleftrightarrow> v = PushNull"
  by (cases v) (simp_all add: value_selector_def fast_opcodes_def op_defs)

lemma query_selector_fast: "fst (query_selector v) \<notin> set fast_opcodes"
  by (cases v) (simp_all add: query_selector_def fast_opcodes_def op_defs)

lemma access_selector_fast:
  "fst (access_selector v) \<in> set fast_opcodes \<longleftrightarrow> v \<in> {LoadSrc, StoreSrc, LoadUsr, StoreUsr}"
  by (cases v) (simp_all add: access_selector_def fast_opcodes_def op_defs)

lemma mutate_selector_fast:
  "fst (mutate_selector v) \<in> set fast_opcodes \<longleftrightarrow> v \<in> {LoadResult, StoreResult, Pop, Duplicate}"
  by (cases v) (simp_all add: mutate_selector_def fast_opcodes_def op_defs)

lemma operator_selector_fast: "fst (operator_selector v) \<notin> set fast_opcodes"
  by (cases v) (simp_all add: operator_selector_def fast_opcodes_def op_defs)

lemma control_selector_fast: "fst (control_selector v) \<notin> set fast_opcodes"
  by (cases v) (simp_all add: control_selector_def fast_opcodes_def op_defs)

lemma fused_selector_fast: "fst (fused_selector v) \<notin> set fast_opcodes"
  by (cases v) (simp_all add: fused_selector_def fast_opcodes_def op_defs)

lemma instruction_selector_fast:
  assumes "fst (instruction_selector i) \<in> set fast_opcodes"
  shows "\<exists>f. i = rich_instruction f \<and> instruction_selector i = (fst (instruction_selector i), UnitOperand)
    \<and> fast_instruction (pack (fst (instruction_selector i)) 0) = Some f"
proof (cases i)
  case (ValueInstr v)
  then have "v = PushNull" using assms value_selector_fast by (simp add: instruction_selector_def)
  then show ?thesis using ValueInstr
    by (intro exI [of _ FastPushNull]) (simp add: instruction_selector_def value_selector_def fast_instruction_def)
next
  case (AccessInstr v)
  then have "v \<in> {LoadSrc, StoreSrc, LoadUsr, StoreUsr}"
    using assms access_selector_fast by (simp add: instruction_selector_def)
  then show ?thesis using AccessInstr
    by (intro exI [of _ "case v of LoadSrc \<Rightarrow> FastLoadSrc | StoreSrc \<Rightarrow> FastStoreSrc | LoadUsr \<Rightarrow> FastLoadUsr | _ \<Rightarrow> FastStoreUsr"])
      (auto simp: instruction_selector_def access_selector_def fast_instruction_def op_defs)
next
  case (MutateInstr v)
  then have "v \<in> {LoadResult, StoreResult, Pop, Duplicate}"
    using assms mutate_selector_fast by (simp add: instruction_selector_def)
  then show ?thesis using MutateInstr
    by (intro exI [of _ "case v of LoadResult \<Rightarrow> FastLoadResult | StoreResult \<Rightarrow> FastStoreResult | Pop \<Rightarrow> FastPop | _ \<Rightarrow> FastDuplicate"])
      (auto simp: instruction_selector_def mutate_selector_def fast_instruction_def op_defs)
qed (use assms query_selector_fast operator_selector_fast control_selector_fast fused_selector_fast
    in \<open>simp_all add: instruction_selector_def\<close>)

lemma fast_escape [simp]: "fast_instruction (pack OP_ESCAPE x) = None"
  by (simp add: fast_instruction_def op_defs)

lemma pack_checked_selector:
  "pack_checked_u32 opcode n = Inr w \<Longrightarrow> cw_selector w = opcode \<or> cw_selector w = OP_ESCAPE"
  by (auto simp: pack_checked_u32_def split: if_splits)

lemma selector_word_selector:
  "selector_word_with f i st = Inr (w, st') \<Longrightarrow>
   cw_selector w = fst (instruction_selector i) \<or> cw_selector w = OP_ESCAPE"
  by (cases "instruction_selector i"; cases "snd (instruction_selector i)")
    (auto simp: selector_word_with_def res_bind_Inr_iff pack_checked_def split: if_splits dest!: pack_checked_selector)

lemma escape_not_fast: "OP_ESCAPE \<notin> set fast_opcodes"
  by (simp add: fast_opcodes_def op_defs)

text \<open>A fast word stands for exactly its instruction.\<close>

lemma fast_word_instruction:
  assumes w: "selector_word_with g i st = Inr (w, st')" and f: "fast_instruction w = Some f"
  shows "i = rich_instruction f"
proof -
  have "cw_selector w \<in> set fast_opcodes" using f fast_instruction_opcodes [of w] by simp
  then have sel: "cw_selector w = fst (instruction_selector i)" "fst (instruction_selector i) \<in> set fast_opcodes"
    using selector_word_selector [OF w] escape_not_fast by auto
  then obtain f' where f': "i = rich_instruction f'"
      "fast_instruction (pack (fst (instruction_selector i)) 0) = Some f'"
    using instruction_selector_fast by blast
  have "fast_instruction w = fast_instruction (pack (fst (instruction_selector i)) 0)"
    using sel(1) by (simp add: fast_instruction_def)
  then show ?thesis using f f' by simp
qed

section \<open>The reader\<close>

text \<open>The bytes still ahead of a reader.\<close>

definition ahead :: "cw_reader \<Rightarrow> u8 list \<Rightarrow> bool" where
  "ahead r bs \<longleftrightarrow> cw_position r \<le> length (cw_bytes r) \<and> length (cw_bytes r) \<le> usize_max
     \<and> drop (cw_position r) (cw_bytes r) = bs"

lemma cw_bind_simps [simp]: "cw_bind (Inl e) f = Inl e" "cw_bind (Inr (x, r)) f = f x r"
  by (simp_all add: cw_bind_def res_bind_def)

lemma cw_bind_Inr_iff: "cw_bind d f = Inr y \<longleftrightarrow> (\<exists>x r. d = Inr (x, r) \<and> f x r = Inr y)"
  by (cases d) auto

lemma cw_take_written: "ahead r (xs @ rest) \<Longrightarrow> \<exists>r'. cw_take (length xs) label r = Inr (xs, r') \<and> ahead r' rest"
proof -
  assume a: "ahead r (xs @ rest)"
  then have "length xs + length rest = length (cw_bytes r) - cw_position r" "cw_position r \<le> length (cw_bytes r)"
    using length_drop [of "cw_position r" "cw_bytes r"] by (simp_all add: ahead_def)
  then have len: "cw_position r + length xs \<le> length (cw_bytes r)" by linarith
  have "drop (cw_position r + length xs) (cw_bytes r) = rest"
    using a by (simp add: ahead_def add.commute flip: drop_drop)
  then show ?thesis using a len by (simp add: cw_take_def ahead_def)
qed

lemma cw_take_reads:
  assumes a: "ahead r bs" and t: "cw_take n label r = Inr (xs, r')"
  shows "\<exists>rest. bs = xs @ rest \<and> length xs = n \<and> ahead r' rest"
proof -
  have xs: "xs = take n bs" "r' = r\<lparr>cw_position := cw_position r + n\<rparr>"
      "cw_position r + n \<le> length (cw_bytes r)"
    using a t by (auto simp: cw_take_def ahead_def Let_def split: if_splits)
  then have "length bs = length (cw_bytes r) - cw_position r" using a by (auto simp: ahead_def)
  then have "length xs = n" using xs by simp
  moreover have "ahead r' (drop n bs)" using a xs(2,3) by (auto simp: ahead_def add.commute)
  ultimately show ?thesis using xs(1) by (intro exI [of _ "drop n bs"]) simp
qed

lemma le_bytes_from_le:
  "length xs = n \<Longrightarrow> 8 * n \<le> LENGTH('a) \<Longrightarrow> le_bytes n (from_le xs :: 'a::len word) = xs"
proof (induction xs arbitrary: n)
  case (Cons x xs)
  then obtain m where m: "n = Suc m" "length xs = m" "8 * m \<le> LENGTH('a)" by (cases n) auto
  have high: "take_bit (8 * m) (from_le xs :: 'a word) = from_le xs"
    using Cons.IH [OF m(2,3)] from_le_le_bytes [of m "from_le xs :: 'a word"] by simp
  have "(ucast (from_le (x # xs) :: 'a word) :: u8) = x"
    using Cons.prems(2) m(1) by (intro bit_word_eqI) (auto simp: bit_simps)
  moreover have "drop_bit 8 (from_le (x # xs) :: 'a word) = from_le xs"
  proof (rule bit_word_eqI)
    fix k assume "k < LENGTH('a)"
    have "bit (from_le xs :: 'a word) k \<Longrightarrow> k < 8 * m" using high by (metis bit_take_bit_iff)
    then show "bit (drop_bit 8 (from_le (x # xs) :: 'a word)) k = bit (from_le xs :: 'a word) k"
      using Cons.prems(2) m(1) by (auto simp: bit_simps dest: bit_imp_le_length)
  qed
  ultimately show ?case using Cons.IH [OF m(2,3)] m(1) by simp
qed simp

text \<open>
  The contract of a fixed encoding and its reader: what was written is read, and what is read was
  written. It lifts to vectors, in both directions.
\<close>

locale exact_codec =
  fixes enc :: "'a \<Rightarrow> u8 list" and dec :: "'a cw_rd"
  assumes written: "ahead r (enc x @ rest) \<Longrightarrow> \<exists>r'. dec r = Inr (x, r') \<and> ahead r' rest"
    and reads: "ahead r bs \<Longrightarrow> dec r = Inr (x, r') \<Longrightarrow> \<exists>rest. bs = enc x @ rest \<and> ahead r' rest"
begin

lemma then_written:
  "ahead r (enc x @ rest) \<Longrightarrow> (\<And>r'. ahead r' rest \<Longrightarrow> \<exists>s. f x r' = Inr (y, s) \<and> ahead s rest') \<Longrightarrow>
   \<exists>s. cw_bind (dec r) f = Inr (y, s) \<and> ahead s rest'"
  using written by fastforce

lemma then_read:
  assumes "cw_bind (dec r) f = Inr y" "ahead r bs"
  obtains x r' rest where "bs = enc x @ rest" "ahead r' rest" "f x r' = Inr y"
  using assms reads by (fastforce simp: cw_bind_Inr_iff)

lemma vector_written:
  "ahead r (concat (map enc xs) @ rest) \<Longrightarrow> \<exists>r'. cw_repeat (length xs) dec r = Inr (xs, r') \<and> ahead r' rest"
proof (induction xs arbitrary: r)
  case (Cons x xs)
  then have "ahead r (enc x @ concat (map enc xs) @ rest)" by simp
  from written [OF this] obtain r1 where r1: "dec r = Inr (x, r1)" "ahead r1 (concat (map enc xs) @ rest)" by blast
  from Cons.IH [OF r1(2)] show ?case using r1(1) by auto
qed simp

lemma vector_reads:
  "ahead r bs \<Longrightarrow> cw_repeat n dec r = Inr (xs, r') \<Longrightarrow>
   \<exists>rest. bs = concat (map enc xs) @ rest \<and> length xs = n \<and> ahead r' rest"
proof (induction n arbitrary: r bs xs)
  case (Suc n)
  from Suc.prems(2) obtain x r1 ys where x: "dec r = Inr (x, r1)" "cw_repeat n dec r1 = Inr (ys, r')" "xs = x # ys"
    by (auto simp: cw_bind_Inr_iff)
  from reads [OF Suc.prems(1) x(1)] obtain rest1 where r1: "bs = enc x @ rest1" "ahead r1 rest1" by blast
  from Suc.IH [OF r1(2) x(2)] show ?case using r1(1) x(3) by auto
qed auto

end

lemma cw_u16_written: "ahead r (le_bytes 2 w @ rest) \<Longrightarrow> \<exists>r'. cw_u16 label r = Inr (w, r') \<and> ahead r' rest"
  using cw_take_written [of r "le_bytes 2 w" rest label] by (auto simp: cw_u16_def from_le_exact)

lemma cw_u16_reads:
  "ahead r bs \<Longrightarrow> cw_u16 label r = Inr (w, r') \<Longrightarrow> \<exists>rest. bs = le_bytes 2 w @ rest \<and> ahead r' rest"
  using cw_take_reads [of r bs 2 label] by (fastforce simp: cw_u16_def cw_bind_Inr_iff le_bytes_from_le)

interpretation word_codec: exact_codec "le_bytes 4" "cw_u32 label" for label
proof
  show "ahead r (le_bytes 4 x @ rest) \<Longrightarrow> \<exists>r'. cw_u32 label r = Inr (x, r') \<and> ahead r' rest" for r x rest
    using cw_take_written [of r "le_bytes 4 x" rest label] by (auto simp: cw_u32_def from_le_exact)
  show "ahead r bs \<Longrightarrow> cw_u32 label r = Inr (x, r') \<Longrightarrow> \<exists>rest. bs = le_bytes 4 x @ rest \<and> ahead r' rest"
    for r bs x r'
    using cw_take_reads [of r bs 4 label] by (fastforce simp: cw_u32_def cw_bind_Inr_iff le_bytes_from_le)
qed

interpretation record_codec: exact_codec cw_record decode_record
proof
  fix r x rest
  assume "ahead r (cw_record x @ rest)"
  then show "\<exists>r'. decode_record r = Inr (x, r') \<and> ahead r' rest"
    unfolding decode_record_def cw_record_def append_assoc
    by (elim word_codec.then_written) simp
next
  fix r bs x r'
  assume "ahead r bs" "decode_record r = Inr (x, r')"
  then show "\<exists>rest. bs = cw_record x @ rest \<and> ahead r' rest"
    unfolding decode_record_def
    by (elim word_codec.then_read) (auto simp: cw_record_def)
qed

section \<open>Images\<close>

text \<open>A count: written as a word, read within its limit.\<close>

lemma cw_count_written:
  assumes "ahead r (le_bytes 4 (of_nat n :: u32) @ rest)" "n \<le> mx" "mx \<le> u32_max"
  shows "\<exists>r'. cw_count mx label r = Inr (n, r') \<and> ahead r' rest"
proof -
  have n: "unat (of_nat n :: u32) = n"
    using assms(2,3) by (simp add: unsigned_of_nat take_bit_nat_eq_self_iff u32_max_def)
  obtain r' where "cw_u32 label r = Inr (of_nat n, r')" "ahead r' rest" using word_codec.written [OF assms(1)] by blast
  then show ?thesis using assms(2) n by (simp add: cw_count_def)
qed

lemma cw_count_read:
  assumes "ahead r bs" "cw_count mx label r = Inr (n, r')"
  shows "\<exists>rest. bs = le_bytes 4 (of_nat n :: u32) @ rest \<and> n \<le> mx \<and> ahead r' rest"
proof -
  obtain w where w: "cw_u32 label r = Inr (w, r')" "unat w = n" "n \<le> mx"
    using assms(2) by (auto simp: cw_count_def cw_bind_Inr_iff split: if_splits)
  then have "of_nat n = w" by auto
  then show ?thesis using word_codec.reads [OF assms(1) w(1)] w(3) by blast
qed

text \<open>What the checks of the string table say.\<close>

lemma check_strings_iff:
  "check_strings ss acc seen = Inr () \<longleftrightarrow> (\<forall>s \<in> set ss. length s \<le> CW_MAX_STRING_BYTES)
     \<and> (ss = [] \<or> acc + sum_list (map length ss) \<le> CW_MAX_TOTAL_STRING_BYTES) \<and> distinct ss \<and> set ss \<inter> seen = {}"
proof (induction ss arbitrary: acc seen)
  case (Cons s ss)
  have "CW_MAX_TOTAL_STRING_BYTES \<le> usize_max" by (simp add: CW_MAX_TOTAL_STRING_BYTES_def usize_max_def)
  then show ?case using Cons [of "acc + length s" "insert s seen"] by (cases "ss = []") auto
qed simp

lemma limits_u32 [simp]:
  "CW_MAX_STRING_BYTES \<le> u32_max" "CW_MAX_STRINGS \<le> u32_max" "CW_MAX_PROCEDURES \<le> u32_max" "CW_MAX_WORDS \<le> u32_max"
  by (simp_all add: CW_MAX_STRING_BYTES_def CW_MAX_STRINGS_def CW_MAX_PROCEDURES_def CW_MAX_WORDS_def u32_max_def)

lemma decode_strings_written:
  "ahead r (concat (map cw_string ss) @ rest) \<Longrightarrow> check_strings ss acc seen = Inr () \<Longrightarrow> list_all utf8_valid ss \<Longrightarrow>
   \<exists>r'. decode_strings (length ss) acc r = Inr (ss, r') \<and> ahead r' rest"
proof (induction ss arbitrary: r acc seen)
  case (Cons s ss)
  have ok: "length s \<le> CW_MAX_STRING_BYTES" "acc + length s \<le> usize_max"
      "acc + length s \<le> CW_MAX_TOTAL_STRING_BYTES" "check_strings ss (acc + length s) (insert s seen) = Inr ()"
    using Cons.prems(2) by (auto split: if_splits)
  have a: "ahead r (le_bytes 4 (of_nat (length s) :: u32) @ as_bytes s @ concat (map cw_string ss) @ rest)"
    using Cons.prems(1) by (simp add: cw_string_def [of s])
  obtain r1 where r1: "cw_count CW_MAX_STRING_BYTES ''string length'' r = Inr (length s, r1)"
      "ahead r1 (as_bytes s @ concat (map cw_string ss) @ rest)"
    using cw_count_written [OF a ok(1)] by (meson limits_u32)
  from cw_take_written [OF r1(2)] obtain r2 where r2: "cw_take (length s) ''string bytes'' r1 = Inr (as_bytes s, r2)"
      "ahead r2 (concat (map cw_string ss) @ rest)" by auto
  from Cons.IH [OF r2(2) ok(4)] Cons.prems(3) obtain r3
    where "decode_strings (length ss) (acc + length s) r2 = Inr (ss, r3)" "ahead r3 rest" by auto
  then show ?case using r1(1) r2(1) ok(2,3) Cons.prems(3) by (simp add: from_utf8_as_bytes res_bind_def)
qed simp

lemma as_bytes_from_utf8: "from_utf8 raw = Some s \<Longrightarrow> as_bytes s = raw"
proof -
  have "of_nat (byte (char_of (unat b) :: char)) = (b :: u8)" for b
    by (simp add: byte_def take_bit_nat_eq_self_iff unsigned_less [of b, where ?'a = nat, simplified] flip: take_bit_eq_mod)
  then show "from_utf8 raw = Some s \<Longrightarrow> as_bytes s = raw"
    by (auto simp: from_utf8_def as_bytes_def Let_def comp_def split: if_splits)
qed

lemma decode_strings_reads:
  "ahead r bs \<Longrightarrow> decode_strings n acc r = Inr (ss, r') \<Longrightarrow>
   \<exists>rest. bs = concat (map cw_string ss) @ rest \<and> length ss = n \<and> list_all utf8_valid ss \<and> ahead r' rest"
proof (induction n arbitrary: r bs acc ss)
  case (Suc n)
  from Suc.prems(2) obtain len r1 raw r2 s ts where c: "cw_count CW_MAX_STRING_BYTES ''string length'' r = Inr (len, r1)"
    and t: "cw_take len ''string bytes'' r1 = Inr (raw, r2)" "from_utf8 raw = Some s"
        "decode_strings n (acc + len) r2 = Inr (ts, r')" "ss = s # ts"
    by (auto simp: cw_bind_Inr_iff res_bind_Inr_iff ok_or_Inr_iff split: if_splits)
  from cw_count_read [OF Suc.prems(1) c] obtain rest1
    where len: "bs = le_bytes 4 (of_nat len :: u32) @ rest1" "ahead r1 rest1" by blast
  from cw_take_reads [OF len(2) t(1)] obtain rest2 where r2: "rest1 = raw @ rest2" "length raw = len" "ahead r2 rest2"
    by blast
  from Suc.IH [OF r2(3) t(3)] obtain rest where
    ts: "rest2 = concat (map cw_string ts) @ rest" "length ts = n" "list_all utf8_valid ts" "ahead r' rest" by blast
  have "as_bytes s = raw" "utf8_valid s" using t(2) by (auto dest: as_bytes_from_utf8 from_utf8_valid)
  moreover have "length s = len" using r2(2) \<open>as_bytes s = raw\<close> length_as_bytes by metis
  ultimately show ?case using len(1) r2(1) ts t(4)
    by (intro exI [of _ rest]) (simp add: cw_string_def [of s])
qed auto

text \<open>The bytes of an image.\<close>

definition image_bytes :: "wordcode_image \<Rightarrow> u8 list" where
  "image_bytes img = CW_MAGIC @ le_bytes 2 CW_VERSION @ le_bytes 2 (0 :: u16)
     @ le_bytes 4 (of_nat (length (cw_strings img)) :: u32)
     @ le_bytes 4 (of_nat (length (cw_procedures img)) :: u32)
     @ le_bytes 4 (of_nat (length (cw_words img)) :: u32)
     @ concat (map cw_string (cw_strings img)) @ concat (map cw_record (cw_procedures img))
     @ concat (map (le_bytes 4) (cw_words img))"

lemma string_table_bytes_sum:
  "acc + (\<Sum>s\<leftarrow>ss. 4 + length s) \<le> usize_max \<Longrightarrow>
   string_table_bytes ss acc = Inr (acc + (\<Sum>s\<leftarrow>ss. 4 + length s))"
  by (induction ss arbitrary: acc) (simp_all add: add.assoc)

lemma validate_imageD:
  assumes "validate_image img = Inr ()"
  shows "length (cw_strings img) \<le> CW_MAX_STRINGS" "length (cw_procedures img) \<le> CW_MAX_PROCEDURES"
    "length (cw_words img) \<le> CW_MAX_WORDS" "check_strings (cw_strings img) 0 {} = Inr ()"
    "check_records (length (cw_strings img)) (length (cw_words img)) (cw_procedures img) 0 = Inr (length (cw_words img))"
  using assms by (auto simp: validate_image_def res_bind_Inr_iff split: if_splits)

text \<open>No length of a valid image overflows, so encoding a valid image succeeds.\<close>

lemma encode_image_iff: "encode_image img = Inr bs \<longleftrightarrow> validate_image img = Inr () \<and> bs = image_bytes img"
proof (cases "validate_image img")
  case (Inr u)
  then have v: "validate_image img = Inr ()" by simp
  note D = validate_imageD [OF v]
  have "(\<Sum>s\<leftarrow>cw_strings img. 4 + length s) = 4 * length (cw_strings img) + sum_list (map length (cw_strings img))"
    by (induction "cw_strings img") (simp_all add: sum_list_addf sum_list_triv)
  moreover have "sum_list (map length (cw_strings img)) \<le> CW_MAX_TOTAL_STRING_BYTES"
    using D(4) unfolding check_strings_iff by (cases "cw_strings img = []") auto
  ultimately have sum: "(\<Sum>s\<leftarrow>cw_strings img. 4 + length s) \<le> 4 * CW_MAX_STRINGS + CW_MAX_TOTAL_STRING_BYTES"
    using D(1) by simp
  note small = CW_MAX_STRINGS_def CW_MAX_PROCEDURES_def CW_MAX_WORDS_def CW_MAX_TOTAL_STRING_BYTES_def usize_max_def
    PROCEDURE_BYTES_def HEADER_BYTES_def
  have table: "string_table_bytes (cw_strings img) 0 = Inr (\<Sum>s\<leftarrow>cw_strings img. 4 + length s)"
    using string_table_bytes_sum [of 0 "cw_strings img"] sum by (simp add: small)
  have "HEADER_BYTES + (\<Sum>s\<leftarrow>cw_strings img. 4 + length s) + length (cw_procedures img) * PROCEDURE_BYTES
      + length (cw_words img) * 4 \<le> usize_max"
    using sum D(2,3) by (simp add: small)
  moreover from this have "length (cw_procedures img) * PROCEDURE_BYTES \<le> usize_max" "length (cw_words img) * 4 \<le> usize_max"
    by linarith+
  ultimately show ?thesis using v table by (auto simp: encode_image_def image_bytes_def Let_def)
qed (simp add: encode_image_def)

lemma CW_MAGIC_length [simp]: "length CW_MAGIC = 8"
  by (simp add: CW_MAGIC_def)

abbreviation image_head :: "u8 list" where
  "image_head \<equiv> CW_MAGIC @ le_bytes 2 CW_VERSION @ le_bytes 2 (0 :: u16)"

abbreviation count_bytes :: "nat \<times> nat \<times> nat \<Rightarrow> u8 list" where
  "count_bytes c \<equiv> le_bytes 4 (of_nat (fst c) :: u32) @ le_bytes 4 (of_nat (fst (snd c)) :: u32)
     @ le_bytes 4 (of_nat (snd (snd c)) :: u32)"

abbreviation table_bytes :: "wordcode_image \<Rightarrow> u8 list" where
  "table_bytes img \<equiv> concat (map cw_string (cw_strings img)) @ concat (map cw_record (cw_procedures img))
     @ concat (map (le_bytes 4) (cw_words img))"

abbreviation image_counts :: "wordcode_image \<Rightarrow> nat \<times> nat \<times> nat" where
  "image_counts img \<equiv> (length (cw_strings img), length (cw_procedures img), length (cw_words img))"

lemma decode_header_written:
  "ahead r (image_head @ rest) \<Longrightarrow> \<exists>r'. decode_header r = Inr ((), r') \<and> ahead r' rest"
proof -
  assume "ahead r (image_head @ rest)"
  then have "ahead r (CW_MAGIC @ le_bytes 2 CW_VERSION @ le_bytes 2 (0 :: u16) @ rest)" by simp
  from cw_take_written [OF this] obtain r1 where r1: "cw_take (length CW_MAGIC) ''header'' r = Inr (CW_MAGIC, r1)"
      "ahead r1 (le_bytes 2 CW_VERSION @ le_bytes 2 (0 :: u16) @ rest)" by blast
  from cw_u16_written [OF r1(2)] obtain r2 where r2: "cw_u16 ''version'' r1 = Inr (CW_VERSION, r2)"
      "ahead r2 (le_bytes 2 (0 :: u16) @ rest)" by blast
  from cw_u16_written [OF r2(2)] obtain r3 where "cw_u16 ''flags'' r2 = Inr (0, r3)" "ahead r3 rest" by blast
  then show ?thesis using r1(1) r2(1) by (simp add: decode_header_def)
qed

lemma decode_header_read:
  assumes "ahead r bs" "decode_header r = Inr (u, r')"
  shows "\<exists>rest. bs = image_head @ rest \<and> ahead r' rest"
proof -
  obtain r1 r2 where t: "cw_take (length CW_MAGIC) ''header'' r = Inr (CW_MAGIC, r1)"
      "cw_u16 ''version'' r1 = Inr (CW_VERSION, r2)" "cw_u16 ''flags'' r2 = Inr (0, r')"
    using assms(2) by (auto simp: decode_header_def cw_bind_Inr_iff split: if_splits)
  obtain b1 where b1: "bs = CW_MAGIC @ b1" "ahead r1 b1" using cw_take_reads [OF assms(1) t(1)] by blast
  obtain b2 where b2: "b1 = le_bytes 2 CW_VERSION @ b2" "ahead r2 b2" using cw_u16_reads [OF b1(2) t(2)] by blast
  show ?thesis using cw_u16_reads [OF b2(2) t(3)] b1(1) b2(1) by auto
qed

lemma decode_counts_written:
  assumes "ahead r (count_bytes c @ rest)"
    and "fst c \<le> CW_MAX_STRINGS" "fst (snd c) \<le> CW_MAX_PROCEDURES" "snd (snd c) \<le> CW_MAX_WORDS"
  shows "\<exists>r'. decode_counts r = Inr (c, r') \<and> ahead r' rest"
proof -
  have a: "ahead r (le_bytes 4 (of_nat (fst c) :: u32) @ le_bytes 4 (of_nat (fst (snd c)) :: u32)
      @ le_bytes 4 (of_nat (snd (snd c)) :: u32) @ rest)" using assms(1) by simp
  obtain r1 where r1: "cw_count CW_MAX_STRINGS ''string count'' r = Inr (fst c, r1)"
      "ahead r1 (le_bytes 4 (of_nat (fst (snd c)) :: u32) @ le_bytes 4 (of_nat (snd (snd c)) :: u32) @ rest)"
    using cw_count_written [OF a assms(2)] limits_u32 by blast
  obtain r2 where r2: "cw_count CW_MAX_PROCEDURES ''procedure count'' r1 = Inr (fst (snd c), r2)"
      "ahead r2 (le_bytes 4 (of_nat (snd (snd c)) :: u32) @ rest)"
    using cw_count_written [OF r1(2) assms(3)] limits_u32 by blast
  obtain r3 where "cw_count CW_MAX_WORDS ''word count'' r2 = Inr (snd (snd c), r3)" "ahead r3 rest"
    using cw_count_written [OF r2(2) assms(4)] limits_u32 by blast
  then show ?thesis using r1(1) r2(1) by (simp add: decode_counts_def)
qed

lemma decode_counts_read:
  assumes "ahead r bs" "decode_counts r = Inr (c, r')"
  shows "\<exists>rest. bs = count_bytes c @ rest \<and> ahead r' rest"
proof -
  obtain n1 r1 n2 r2 n3 where t: "cw_count CW_MAX_STRINGS ''string count'' r = Inr (n1, r1)"
      "cw_count CW_MAX_PROCEDURES ''procedure count'' r1 = Inr (n2, r2)"
      "cw_count CW_MAX_WORDS ''word count'' r2 = Inr (n3, r')" "c = (n1, n2, n3)"
    using assms(2) by (auto simp: decode_counts_def cw_bind_Inr_iff)
  obtain b1 where b1: "bs = le_bytes 4 (of_nat n1 :: u32) @ b1" "ahead r1 b1" using cw_count_read [OF assms(1) t(1)] by blast
  obtain b2 where b2: "b1 = le_bytes 4 (of_nat n2 :: u32) @ b2" "ahead r2 b2" using cw_count_read [OF b1(2) t(2)] by blast
  show ?thesis using cw_count_read [OF b2(2) t(3)] b1(1) b2(1) t(4) by auto
qed

lemma decode_tables_written:
  assumes "ahead r (table_bytes img)" "check_strings (cw_strings img) 0 {} = Inr ()" "list_all utf8_valid (cw_strings img)"
  shows "\<exists>r'. decode_tables (image_counts img) r = Inr (img, r')"
proof -
  have a: "ahead r (concat (map cw_string (cw_strings img)) @ concat (map cw_record (cw_procedures img))
      @ concat (map (le_bytes 4) (cw_words img)) @ [])" using assms(1) by simp
  from decode_strings_written [OF this assms(2,3)] obtain r1 where
    r1: "decode_strings (length (cw_strings img)) 0 r = Inr (cw_strings img, r1)"
      "ahead r1 (concat (map cw_record (cw_procedures img)) @ concat (map (le_bytes 4) (cw_words img)) @ [])" by blast
  from record_codec.vector_written [OF r1(2)] obtain r2 where
    r2: "cw_repeat (length (cw_procedures img)) decode_record r1 = Inr (cw_procedures img, r2)"
      "ahead r2 (concat (map (le_bytes 4) (cw_words img)) @ [])" by blast
  from word_codec.vector_written [OF r2(2)] obtain r3 where
    r3: "cw_repeat (length (cw_words img)) (cw_u32 ''dispatch word'') r2 = Inr (cw_words img, r3)" "ahead r3 []" by blast
  have "cw_position r3 = length (cw_bytes r3)" using r3(2) by (simp add: ahead_def)
  then show ?thesis using r1(1) r2(1) r3(1) by (simp add: decode_tables_def)
qed

lemma decode_tables_read:
  assumes "ahead r bs" "decode_tables c r = Inr (img, r')"
  shows "bs = table_bytes img \<and> c = image_counts img \<and> list_all utf8_valid (cw_strings img)"
proof -
  obtain sn pn wn where c: "c = (sn, pn, wn)" by (cases c) auto
  obtain ss r1 rs r2 ws where t: "decode_strings sn 0 r = Inr (ss, r1)" "cw_repeat pn decode_record r1 = Inr (rs, r2)"
      "cw_repeat wn (cw_u32 ''dispatch word'') r2 = Inr (ws, r')" "cw_position r' = length (cw_bytes r')"
      "img = \<lparr>cw_strings = ss, cw_procedures = rs, cw_words = ws\<rparr>"
    using assms(2) unfolding decode_tables_def c by (auto simp: cw_bind_Inr_iff split: if_splits)
  obtain b1 where b1: "bs = concat (map cw_string ss) @ b1" "length ss = sn" "list_all utf8_valid ss" "ahead r1 b1"
    using decode_strings_reads [OF assms(1) t(1)] by blast
  obtain b2 where b2: "b1 = concat (map cw_record rs) @ b2" "length rs = pn" "ahead r2 b2"
    using record_codec.vector_reads [OF b1(4) t(2)] by blast
  obtain b3 where b3: "b2 = concat (map (le_bytes 4) ws) @ b3" "length ws = wn" "ahead r' b3"
    using word_codec.vector_reads [OF b2(3) t(3)] by blast
  have "b3 = []" using b3(3) t(4) by (simp add: ahead_def)
  then show ?thesis using b1 b2 b3 t(5) c by simp
qed

lemma decode_image_written:
  assumes v: "validate_image img = Inr ()" and utf8: "list_all utf8_valid (cw_strings img)"
    and len: "length (image_bytes img) \<le> usize_max"
  shows "decode_image (image_bytes img) = Inr img"
proof -
  note D = validate_imageD [OF v]
  have "ahead (cw_new (image_bytes img)) (image_head @ count_bytes (image_counts img) @ table_bytes img)"
    using len by (simp add: ahead_def cw_new_def image_bytes_def)
  from decode_header_written [OF this] obtain r1 where r1: "decode_header (cw_new (image_bytes img)) = Inr ((), r1)"
      "ahead r1 (count_bytes (image_counts img) @ table_bytes img)" by blast
  from decode_counts_written [OF r1(2)] D(1-3) obtain r2 where r2: "decode_counts r1 = Inr (image_counts img, r2)"
      "ahead r2 (table_bytes img)" by auto
  from decode_tables_written [OF r2(2) D(4) utf8] obtain r3 where "decode_tables (image_counts img) r2 = Inr (img, r3)"
    by blast
  then show ?thesis using r1(1) r2(1) v by (simp add: decode_image_def res_bind_def)
qed

lemma decode_image_read:
  assumes d: "decode_image bs = Inr img" and len: "length bs \<le> usize_max"
  shows "validate_image img = Inr () \<and> bs = image_bytes img \<and> list_all utf8_valid (cw_strings img)"
proof -
  have a: "ahead (cw_new bs) bs" using len by (simp add: ahead_def cw_new_def)
  obtain u r1 c r2 r3 where t: "decode_header (cw_new bs) = Inr (u, r1)" "decode_counts r1 = Inr (c, r2)"
      "decode_tables c r2 = Inr (img, r3)" and v: "validate_image img = Inr ()"
    using d by (auto simp: decode_image_def res_bind_Inr_iff cw_bind_Inr_iff)
  obtain b1 where b1: "bs = image_head @ b1" "ahead r1 b1" using decode_header_read [OF a t(1)] by blast
  obtain b2 where b2: "b1 = count_bytes c @ b2" "ahead r2 b2" using decode_counts_read [OF b1(2) t(2)] by blast
  show ?thesis using decode_tables_read [OF b2(2) t(3)] b1(1) b2(1) v by (simp add: image_bytes_def)
qed

end
