(* ===== verification/InterpLaws.thy ===== *)
theory InterpLaws
  imports Interp WordcodeLaws HeapProps
begin

text \<open>
  Laws of the interpreter core: a modelled instruction neither panics nor breaks the heap while
  there is room; list literals build the list their entries describe; a local whose address was
  taken is one variable for everyone who holds its cell; the compact fast path does what the
  instruction it stands for does; and an exception goes to the innermost handler in range.
\<close>

section \<open>Lists through the heap\<close>

lemma heap_kept_trans: "heap_kept sip a b \<Longrightarrow> heap_kept sip b c \<Longrightarrow> heap_kept sip a c"
  by (simp add: heap_kept_def)

lemma heap_kept_inv: "heap_kept sip a b \<Longrightarrow> heap_inv sip b"
  by (simp add: heap_kept_def)

lemma lists_of_live: "arena_map (list_arena h) (list_key l) = Some x \<Longrightarrow> lists_of h l = Some (entries x)"
  by (simp add: lists_of_def)

lemma allocate_list_spec:
  assumes inv: "heap_inv sip h" and room: "arena_room (list_arena h)"
  shows "\<exists>l h'. allocate_list h = Some (l, h') \<and> heap_kept sip h h' \<and> lists_of h l = None
    \<and> view_of h' = (datums_of h, (lists_of h)(l \<mapsto> []))
    \<and> arena_map (list_arena h') (list_key l) = Some dm_list_new"
proof -
  obtain i g ls where ls: "arena_insert dm_list_new (list_arena h) = Some ((i, g), ls)"
      "heap_kept sip h (h\<lparr>list_arena := ls\<rparr>)" "lists_of h (ListId i g) = None"
      "view_of (h\<lparr>list_arena := ls\<rparr>) = (datums_of h, (lists_of h)(ListId i g \<mapsto> entries dm_list_new))"
    using list_insert_arena [OF inv room list_inv_new(1)] by blast
  moreover have "arena_map ls (i, g) = Some dm_list_new"
    using arena_insert_some [OF heap_invD(2) [OF inv] room, of dm_list_new] ls(1) by auto
  ultimately show ?thesis by (auto simp: allocate_list_def list_inv_new(2))
qed

text \<open>A write that performs its specification on the list under a live handle.\<close>

lemma list_update_spec:
  assumes inv: "heap_inv sip h" and x: "arena_map (list_arena h) (list_key l) = Some x"
    and g: "g x = Some (r, y)" "list_inv sip y"
  shows "\<exists>h'. list_update l g h = Some (Inr r, h') \<and> heap_kept sip h h'
    \<and> view_of h' = (datums_of h, (lists_of h)(l \<mapsto> entries y))
    \<and> arena_map (list_arena h') (list_key l) = Some y"
proof -
  obtain ls where ls: "arena_modify (list_index l) (list_generation l) (\<lambda>_. y) (list_arena h) = Some ls"
      "heap_kept sip h (h\<lparr>list_arena := ls\<rparr>)"
      "view_of (h\<lparr>list_arena := ls\<rparr>) = (datums_of h, (lists_of h)(l \<mapsto> entries y))"
    using list_write [OF inv x g(2)] by blast
  moreover have "arena_map ls (list_key l) = Some y"
    using arena.edit_law [OF heap_invD(2) [OF inv] x, of "\<lambda>_. y"] ls(1) unfolding list_key_def prod.case by auto
  ultimately show ?thesis using x g by (auto simp: list_update_def heap_list_map)
qed

lemma list_update_stale:
  "arena_map (list_arena h) (list_key l) = None \<Longrightarrow> list_update l g h = Some (Inl (StaleList l), h)"
  by (simp add: list_update_def heap_list_map)

lemma fresh_write_spec:
  assumes inv: "heap_inv sip h" and x: "arena_map (list_arena h) (list_key l) = Some x"
    and g: "g x = Some y" "list_inv sip y"
  shows "\<exists>h'. fresh_write l g h = Some h' \<and> heap_kept sip h h'
    \<and> view_of h' = (datums_of h, (lists_of h)(l \<mapsto> entries y))
    \<and> arena_map (list_arena h') (list_key l) = Some y"
proof -
  obtain h' where h': "list_update l (\<lambda>l. map_option (Pair ()) (g l)) h = Some (Inr (), h')" "heap_kept sip h h'"
      "view_of h' = (datums_of h, (lists_of h)(l \<mapsto> entries y))" "arena_map (list_arena h') (list_key l) = Some y"
    using list_update_spec [OF inv x, of "\<lambda>l. map_option (Pair ()) (g l)" "()" y] g by auto
  then have "fresh_write l g h = Some h'" by (simp add: fresh_write_def del: bind_Some_iff)
  with h' show ?thesis by blast
qed

text \<open>\<open>args[n] = v\<close> and the write of a reference cell.\<close>

definition spec_cell_set :: "list_id \<Rightarrow> nat \<Rightarrow> dm_value \<Rightarrow> (list_id \<rightharpoonup> entry list)
    \<Rightarrow> (value_error + dm_value) \<times> (list_id \<rightharpoonup> entry list)" where
  "spec_cell_set l index v ls = (case ls l of
       None \<Rightarrow> (Inl (StaleList l), ls)
     | Some es \<Rightarrow> (fst (spec_set index v es), ls(l \<mapsto> snd (spec_set index v es))))"

lemma list_cell_set_spec:
  assumes inv: "heap_inv sip h"
  shows "\<exists>h'. list_cell_set sip l index v h = Some (fst (spec_cell_set l index v (lists_of h)), h')
    \<and> heap_kept sip h h' \<and> view_of h' = (datums_of h, snd (spec_cell_set l index v (lists_of h)))"
proof (cases "arena_map (list_arena h) (list_key l)")
  case None
  then show ?thesis using heap_kept_refl [OF inv]
    by (simp add: list_cell_set_def list_update_stale spec_cell_set_def lists_of_def view_of_def)
next
  case (Some x)
  have "list_inv sip x" using all_liveD [OF heap_invD(5) [OF inv] Some] .
  then obtain y where y: "list_set sip index v x = Some (fst (spec_set index v (entries x)), y)"
      "list_inv sip y" "entries y = snd (spec_set index v (entries x))"
    using list_set_spec [of sip x index v] by (auto simp: performs_def)
  with list_update_spec [OF inv Some, of "list_set sip index v", OF y(1,2)] Some show ?thesis
    by (auto simp: list_cell_set_def spec_cell_set_def lists_of_live)
qed

lemma list_cell_get_spec:
  assumes inv: "heap_inv sip h"
  shows "list_cell_get l h = Some (case lists_of h l of None \<Rightarrow> Inl (StaleList l) | Some es \<Rightarrow> spec_get 1 es)"
proof (cases "arena_map (list_arena h) (list_key l)")
  case None
  then show ?thesis by (simp add: list_cell_get_def heap_list_map lists_of_def)
next
  case (Some x)
  then show ?thesis using list_get_spec [OF all_liveD [OF heap_invD(5) [OF inv] Some], of 1]
    by (simp add: list_cell_get_def heap_list_map lists_of_def)
qed

lemma add_items_spec:
  assumes "heap_inv sip h" "arena_map (list_arena h) (list_key l) = Some x"
    "length (list_order x) + length vs \<le> max_entries"
  shows "\<exists>h'. add_items l vs h = Some h' \<and> heap_kept sip h h'
    \<and> view_of h' = (datums_of h, (lists_of h)(l \<mapsto> entries x @ map (\<lambda>v. (v, None)) vs))"
  using assms
proof (induction vs arbitrary: h x)
  case Nil
  then show ?case using heap_kept_refl [OF Nil(1)] by (auto simp: view_of_def lists_of_live fun_upd_idem)
next
  case (Cons v vs)
  have "list_inv sip x" using all_liveD [OF heap_invD(5) [OF Cons.prems(1)] Cons.prems(2)] .
  then obtain n y where y: "list_add v x = Some (n, y)" "list_inv sip y" "entries y = entries x @ [(v, None)]"
      "length (list_order y) \<le> length (list_order x) + 1"
    using extend_performs [of sip x "[v]"] Cons.prems(3) by (auto simp: performs_def list_add_extend)
  obtain h1 where h1: "fresh_write l (\<lambda>l. map_option snd (list_add v l)) h = Some h1" "heap_kept sip h h1"
      "view_of h1 = (datums_of h, (lists_of h)(l \<mapsto> entries y))" "arena_map (list_arena h1) (list_key l) = Some y"
    using fresh_write_spec [OF Cons.prems(1,2), of "\<lambda>l. map_option snd (list_add v l)" y] y(1,2) by auto
  obtain h2 where h2: "add_items l vs h1 = Some h2" "heap_kept sip h1 h2"
      "view_of h2 = (datums_of h1, (lists_of h1)(l \<mapsto> entries y @ map (\<lambda>v. (v, None)) vs))"
    using Cons.IH [OF heap_kept_inv [OF h1(2)] h1(4)] y(4) Cons.prems(3) by (auto simp: fun_upd_def)
  show ?case using h1 h2 heap_kept_trans [OF h1(2) h2(2)] y(3) by (auto simp: view_of_def)
qed

section \<open>List literals\<close>

text \<open>The operations a literal stands for.\<close>

fun literal_ops :: "bool \<Rightarrow> list_entry_kind list \<Rightarrow> dm_value list \<Rightarrow> list_op list" where
  "literal_ops alist (Positional # ks) (v # vs) =
     (if alist then SetKeyOp v VNull else AddOp v) # literal_ops alist ks vs"
| "literal_ops alist (Associative # ks) (k # v # vs) = SetKeyOp k v # literal_ops alist ks vs"
| "literal_ops alist _ _ = []"

lemma literal_values_0 [simp]: "literal_values ks = 0 \<longleftrightarrow> ks = []"
  by (induction ks rule: literal_values.induct) auto

lemma fill_literal_ops:
  "literal_values ks \<le> length vs \<Longrightarrow> run_ops sip (literal_ops alist ks vs) l = Some (rs, l') \<Longrightarrow>
   fill_literal sip alist ks vs l = Some l'"
proof (induction alist ks vs arbitrary: l rs rule: literal_ops.induct)
  case (1 alist ks v vs)
  then show ?case by (cases alist) (auto simp: returns_def)
next
  case (2 alist ks k v vs)
  then show ?case by (auto simp: returns_def)
qed auto

lemma literal_ops_growth:
  "literal_values ks \<le> length vs \<Longrightarrow> sum_list (map op_growth (literal_ops alist ks vs)) = length ks"
  by (induction alist ks vs rule: literal_ops.induct) auto

lemma literal_length: "length ks \<le> literal_values ks"
  by (induction ks rule: literal_values.induct) auto

lemma fill_literal_spec:
  assumes vs: "literal_values ks = length vs" and small: "length vs \<le> max_entries"
  shows "\<exists>y. fill_literal sip alist ks vs dm_list_new = Some y \<and> list_inv sip y
    \<and> entries y = snd (spec_run_ops (literal_ops alist ks vs) [])"
proof -
  have "length (list_order dm_list_new) + sum_list (map op_growth (literal_ops alist ks vs)) \<le> max_entries"
    using literal_ops_growth [of ks vs alist] literal_length [of ks] vs small by (simp add: dm_list_new_def)
  from dm.run_simulates [OF list_inv_new(1) this] obtain y where
    "dm.run sip (literal_ops alist ks vs) dm_list_new =
       Some (fst (dm.spec_run (literal_ops alist ks vs) []), y)" "list_inv sip y"
    "entries y = snd (dm.spec_run (literal_ops alist ks vs) [])"
    unfolding list_inv_new(2) by blast
  then show ?thesis using fill_literal_ops [of ks vs sip alist dm_list_new] vs
    by (auto simp: run_ops_run spec_run_ops_run)
qed

section \<open>An instruction neither panics nor breaks the machine\<close>

text \<open>The frame of a program with \<open>n\<close> locals: its argument vector covers the declared parameters, its
  handlers and its instruction pointer stay inside the program.\<close>

definition frame_ok :: "program \<Rightarrow> nat \<Rightarrow> call_frame \<Rightarrow> bool" where
  "frame_ok p n f \<longleftrightarrow> length (fr_locals f) = n
     \<and> fr_declared_argument_count f = program_declared_argument_count p
     \<and> fr_declared_argument_count f \<le> length (fr_arguments f)
     \<and> fr_instruction f \<le> length (instructions p)
     \<and> list_all (\<lambda>h. eh_catch h < length (instructions p) \<and> eh_end h < length (instructions p)) (fr_exception_handlers f)"

fun flow_ok :: "(hash_write list \<Rightarrow> u64) \<Rightarrow> program \<Rightarrow> nat \<Rightarrow> value_heap \<Rightarrow> flow \<Rightarrow> bool" where
  "flow_ok sip p n h (Continue f st) \<longleftrightarrow> frame_ok p n f \<and> heap_kept sip h (vm_heap st)"
| "flow_ok sip p n h (Raised e f st) \<longleftrightarrow> frame_ok p n f \<and> heap_kept sip h (vm_heap st)"
| "flow_ok sip p n h Elsewhere \<longleftrightarrow> True"

definition runs :: "(hash_write list \<Rightarrow> u64) \<Rightarrow> program \<Rightarrow> nat \<Rightarrow> value_heap \<Rightarrow> flow option \<Rightarrow> bool" where
  "runs sip p n h m \<longleftrightarrow> (\<exists>fl. m = Some fl \<and> flow_ok sip p n h fl)"

text \<open>A frame about to execute an instruction, and the room an instruction may need.\<close>

definition ready :: "program \<Rightarrow> nat \<Rightarrow> call_frame \<Rightarrow> bool" where
  "ready p n f \<longleftrightarrow> frame_ok p n f \<and> fr_instruction f < length (instructions p)"

definition vm_room :: "call_frame \<Rightarrow> vm_state \<Rightarrow> bool" where
  "vm_room f st \<longleftrightarrow> arena_room (list_arena (vm_heap st)) \<and> length (fr_stack f) \<le> max_entries
     \<and> length (fr_arguments f) \<le> max_entries"

text \<open>\<open>LoadStaticLocalOrJump\<close> is the one jump whose target no one checks at run time.\<close>

definition static_target_ok :: "program \<Rightarrow> instruction \<Rightarrow> bool" where
  "static_target_ok p i = (case i of
       AccessInstr (LoadStaticLocalOrJump slot target) \<Rightarrow> target \<le> length (instructions p) | _ \<Rightarrow> True)"

lemma runs_Some [simp]: "runs sip p n h (Some fl) \<longleftrightarrow> flow_ok sip p n h fl"
  by (simp add: runs_def)

lemma ready_updates [simp]:
  "ready p n (f\<lparr>fr_stack := s\<rparr>) = ready p n f" "ready p n (f\<lparr>fr_src := v\<rparr>) = ready p n f"
  "ready p n (f\<lparr>fr_usr := v\<rparr>) = ready p n f" "ready p n (f\<lparr>fr_result := v\<rparr>) = ready p n f"
  "ready p n (f\<lparr>fr_static_locals := ss\<rparr>) = ready p n f" "ready p n (f\<lparr>fr_args_list := l\<rparr>) = ready p n f"
  "ready p n (push v f) = ready p n f"
  "ready p n (f\<lparr>fr_locals := (fr_locals f)[i := v]\<rparr>) = ready p n f"
  "ready p n f \<Longrightarrow> ready p n (f\<lparr>fr_arguments := (fr_arguments f)[i := v]\<rparr>)"
  by (simp_all add: ready_def frame_ok_def push_def)

lemma ready_ok [simp]: "ready p n f \<Longrightarrow> frame_ok p n f"
  by (simp add: ready_def)

lemma advance_ok [simp]: "ready p n f \<Longrightarrow> flow_ok sip p n h (advance f st) \<longleftrightarrow> heap_kept sip h (vm_heap st)"
  by (simp add: advance_def ready_def frame_ok_def)

lemma pop_then_runs:
  assumes "ready p n f" "heap_kept sip h (vm_heap st)"
    "\<And>v f'. ready p n f' \<Longrightarrow> runs sip p n h (k v f')"
  shows "runs sip p n h (pop_then f st k)"
  using assms by (simp add: pop_then_def)

lemma jump_to_ok: "ready p n f \<Longrightarrow> flow_ok sip p n h (jump_to p target f st) \<longleftrightarrow> heap_kept sip h (vm_heap st)"
  by (auto simp: jump_to_def validate_jump_def ready_def frame_ok_def)

lemma push_result_ok [simp]:
  "ready p n f \<Longrightarrow> flow_ok sip p n h (push_result r f st) \<longleftrightarrow> heap_kept sip h (vm_heap st)"
  by (simp add: push_result_def split: sum.split)

text \<open>The operators and the jumps never touch the heap.\<close>

lemma step_operator_runs:
  assumes f: "ready p n f" and h: "heap_kept sip h (vm_heap st)"
  shows "runs sip p n h (step_operator i f st)"
  using f h unfolding step_operator_def step_equal_def step_relational_def step_logical_def pop_pair_def
  by (cases i) (auto intro!: pop_then_runs split: sum.split)

lemma step_control_runs:
  assumes f: "ready p n f" and h: "heap_kept sip h (vm_heap st)"
  shows "runs sip p n h (step_control p i f st)"
  using f h unfolding step_control_def
  by (cases i) (auto intro!: pop_then_runs simp: jump_to_ok split: sum.split)

lemma step_mutate_runs:
  assumes f: "ready p n f" and h: "heap_kept sip h (vm_heap st)"
  shows "runs sip p n h (step_mutate f32_add f32_of_i8 p i f st)"
proof (cases i)
  case (BeginTry c e s)
  then show ?thesis using f h
    by (auto simp: step_mutate_def begin_try_def advance_def ready_def frame_ok_def)
next
  case EndTry
  have "list_all Q (butlast hs)" if "list_all Q hs" for Q and hs :: "exception_handler list"
    using that by (auto simp: list_all_iff dest: in_set_butlastD)
  then show ?thesis using EndTry f h
    by (auto simp: step_mutate_def advance_def ready_def frame_ok_def)
qed (use f h in \<open>auto simp: step_mutate_def mutate_local_def mutate_result_def
    intro!: pop_then_runs split: option.split sum.split\<close>)

lemma address_local_runs:
  assumes f: "ready p n f" and h: "heap_inv sip (vm_heap st)" and room: "vm_room f st"
  shows "runs sip p n (vm_heap st) (address_local slot f st)"
proof -
  obtain l h1 where a: "allocate_list (vm_heap st) = Some (l, h1)" "heap_kept sip (vm_heap st) h1"
      "arena_map (list_arena h1) (list_key l) = Some dm_list_new"
    using allocate_list_spec [OF h] room by (auto simp: vm_room_def)
  have "\<exists>h'. fresh_write l (\<lambda>x. map_option snd (list_add v x)) h1 = Some h' \<and> heap_kept sip (vm_heap st) h'" for v
  proof -
    obtain m y where "list_add v dm_list_new = Some (m, y)" "list_inv sip y"
      using extend_performs [OF list_inv_new(1) [of sip], of "[v]"]
      by (auto simp: performs_def list_add_extend dm_list_new_def max_entries_def)
    then show ?thesis
      using fresh_write_spec [OF heap_kept_inv [OF a(2)] a(3), of "\<lambda>x. map_option snd (list_add v x)" y]
        heap_kept_trans [OF a(2)] by auto
  qed
  note fresh = this
  show ?thesis
  proof (cases "nth_opt (fr_locals f) (unat slot)")
    case (Some v)
    obtain h' where "fresh_write l (\<lambda>x. map_option snd (list_add v x)) h1 = Some h'"
        "heap_kept sip (vm_heap st) h'"
      using fresh by blast
    then show ?thesis using f a(1) Some heap_kept_refl [OF h]
      by (simp add: address_local_def split: option.split)
  qed (use f heap_kept_refl [OF h] in \<open>simp add: address_local_def\<close>)
qed

lemma step_value_runs:
  assumes f: "ready p n f" and h: "heap_inv sip (vm_heap st)" and room: "vm_room f st"
  shows "runs sip p n (vm_heap st) (step_value i f st)"
proof (cases i)
  case (AddressLocal slot)
  then show ?thesis using address_local_runs [OF f h room] by (simp add: step_value_def)
next
  case (MakeModifiedTypePath ns)
  then show ?thesis using f heap_kept_refl [OF h]
    by (auto simp: step_value_def make_modified_type_path_def Let_def split: dm_value.split)
qed (use f heap_kept_refl [OF h] in \<open>auto simp: step_value_def split: option.split\<close>)

lemma push_new_list_runs:
  assumes f: "ready p n f" and h: "heap_inv sip (vm_heap st)" and room: "vm_room f st"
    and fill: "\<And>vs l h1. count \<le> length (fr_stack f) \<Longrightarrow> length vs = count \<Longrightarrow>
      length vs \<le> max_entries \<Longrightarrow> heap_kept sip (vm_heap st) h1 \<Longrightarrow>
      arena_map (list_arena h1) (list_key l) = Some dm_list_new \<Longrightarrow>
      \<exists>h'. fill vs l h1 = Some h' \<and> heap_kept sip (vm_heap st) h'"
    and after: "\<And>l st. vm_heap (after l st) = vm_heap st"
  shows "runs sip p n (vm_heap st) (push_new_list count fill after f st)"
proof -
  obtain l h1 where a: "allocate_list (vm_heap st) = Some (l, h1)" "heap_kept sip (vm_heap st) h1"
      "arena_map (list_arena h1) (list_key l) = Some dm_list_new"
    using allocate_list_spec [OF h] room by (auto simp: vm_room_def)
  from room fill [OF _ _ _ a(2,3), of "drop (length (fr_stack f) - count) (fr_stack f)"]
  show ?thesis using f a(1) after heap_kept_refl [OF h]
    by (auto simp: push_new_list_def Let_def runs_def vm_room_def)
qed

lemma add_items_runs:
  assumes "heap_kept sip h h1" "arena_map (list_arena h1) (list_key l) = Some dm_list_new"
    "length vs \<le> max_entries"
  shows "\<exists>h'. add_items l vs h1 = Some h' \<and> heap_kept sip h h'"
  using add_items_spec [OF heap_kept_inv [OF assms(1)] assms(2), of vs] assms(3) heap_kept_trans [OF assms(1)]
  by (auto simp: dm_list_new_def)

lemma literal_runs:
  assumes "heap_kept sip h h1" "arena_map (list_arena h1) (list_key l) = Some dm_list_new"
    "length vs = literal_values ks" "length vs \<le> max_entries"
  shows "\<exists>h'. fresh_write l (fill_literal sip alist ks vs) h1 = Some h' \<and> heap_kept sip h h'"
proof -
  obtain y where "fill_literal sip alist ks vs dm_list_new = Some y" "list_inv sip y"
    using fill_literal_spec [OF assms(3) [symmetric] assms(4)] by blast
  from fresh_write_spec [OF heap_kept_inv [OF assms(1)] assms(2), of "fill_literal sip alist ks vs", OF this]
  show ?thesis using heap_kept_trans [OF assms(1)] by auto
qed

lemma overwrite_some:
  "i + length vs \<le> length as \<Longrightarrow> \<exists>as'. overwrite vs i as = Some as' \<and> length as' = length as"
proof (induction vs arbitrary: i as)
  case (Cons v vs)
  then show ?case using Cons.IH [of "Suc i" "as[i := v]"] by (simp add: vec_set_def)
qed simp

lemma make_args_runs:
  assumes f: "ready p n f" and h: "heap_inv sip (vm_heap st)" and room: "vm_room f st"
  shows "runs sip p n (vm_heap st) (make_args p f st)"
proof -
  obtain l h1 where a: "allocate_list (vm_heap st) = Some (l, h1)" "heap_kept sip (vm_heap st) h1"
      "arena_map (list_arena h1) (list_key l) = Some dm_list_new"
    using allocate_list_spec [OF h] room by (auto simp: vm_room_def)
  have "0 + length (take (program_declared_argument_count p) (fr_locals f)) \<le> length (fr_arguments f)"
    using f by (auto simp: ready_def frame_ok_def)
  from overwrite_some [OF this] obtain as where as: "forwarded_frame_arguments f p = Some as"
      "length as = length (fr_arguments f)"
    by (auto simp: forwarded_frame_arguments_def)
  then have "length as \<le> max_entries" using room by (simp add: vm_room_def)
  from add_items_runs [OF a(2,3) this] show ?thesis
    using f a(1) as(1) by (auto simp: make_args_def runs_def)
qed

lemma step_query_runs:
  assumes f: "ready p n f" and h: "heap_inv sip (vm_heap st)" and room: "vm_room f st"
  shows "runs sip p n (vm_heap st) (step_query sip p i f st)"
proof -
  note new_list = push_new_list_runs [OF f h room]
  show ?thesis
  proof (cases i)
    case (MakeList c)
    then show ?thesis using new_list [of "unat c" "\<lambda>items l. add_items l items" "\<lambda>_ st. st"] add_items_runs
      by (simp add: step_query_def)
  next
    case (MakeListEntries ks)
    then show ?thesis using f heap_kept_refl [OF h]
        new_list [of "literal_values ks" "\<lambda>vs l. fresh_write l (fill_literal sip False ks vs)" "\<lambda>_ st. st"]
        literal_runs [where alist = False and ks = ks] by (auto simp: step_query_def)
  next
    case (MakeAssociativeListEntries ks)
    then show ?thesis using f heap_kept_refl [OF h]
        new_list [of "literal_values ks" "\<lambda>vs l. fresh_write l (fill_literal sip True ks vs)" mark_associative_list]
        literal_runs [where alist = True and ks = ks] by (auto simp: step_query_def mark_associative_list_def)
  next
    case MakeArgs
    then show ?thesis using make_args_runs [OF f h room] by (simp add: step_query_def)
  qed (simp_all add: step_query_def)
qed

lemma cell_write_kept:
  assumes "heap_kept sip h h1"
  shows "\<exists>r h2. list_cell_set sip l index v h1 = Some (r, h2) \<and> heap_kept sip h h2"
  using list_cell_set_spec [OF heap_kept_inv [OF assms], of l index v] heap_kept_trans [OF assms] by blast

lemma sync_parameter_kept:
  assumes f: "ready p n f" and i: "index < program_declared_argument_count p" and h: "heap_kept sip h (vm_heap st)"
  shows "\<exists>e f' st'. sync_parameter sip index v f st = Some (e, f', st') \<and> ready p n f'
    \<and> heap_kept sip h (vm_heap st')"
proof -
  have "index < length (fr_arguments f)" using f i by (simp add: ready_def frame_ok_def)
  then have as: "vec_set (fr_arguments f) index v = Some ((fr_arguments f)[index := v])" by (simp add: vec_set_def)
  show ?thesis
  proof (cases "fr_args_list f")
    case (Some l)
    obtain r h2 where "list_cell_set sip l (index + 1) v (vm_heap st) = Some (r, h2)" "heap_kept sip h h2"
      using cell_write_kept [OF h] by blast
    then show ?thesis using as Some f by (simp add: sync_parameter_def)
  qed (use as f h in \<open>simp add: sync_parameter_def\<close>)
qed

lemma insert_static_heap [simp]: "vm_heap (insert_static path slot v st) = vm_heap st"
  by (simp add: insert_static_def Let_def)

lemma read_local_some:
  assumes "heap_inv sip (vm_heap st)"
  shows "\<exists>r. read_local slot f st = Some r"
  using list_cell_get_spec [OF assms] by (simp add: read_local_def split: option.split)

lemma write_local_kept:
  assumes f: "ready p n f" and h: "heap_kept sip h (vm_heap st)"
  shows "\<exists>e f' st'. write_local sip cell index v f st = Some (e, f', st') \<and> ready p n f'
    \<and> heap_kept sip h (vm_heap st')"
proof (cases cell)
  case (Some l)
  obtain r h2 where "list_cell_set sip l 1 v (vm_heap st) = Some (r, h2)" "heap_kept sip h h2"
    using cell_write_kept [OF h] by blast
  then show ?thesis using Some f by (simp add: write_local_def)
qed (use f h in \<open>simp add: write_local_def\<close>)

lemma after_write_runs:
  assumes m: "\<exists>e f' st'. m = Some (e, f', st') \<and> ready p n f' \<and> heap_kept sip h (vm_heap st')"
    and after: "\<And>f' st'. ready p n f' \<Longrightarrow> heap_kept sip h (vm_heap st') \<Longrightarrow> runs sip p n h (k f' st')"
  shows "runs sip p n h (after_write m k)"
proof -
  obtain e f' st' where "m = Some (e, f', st')" "ready p n f'" "heap_kept sip h (vm_heap st')"
    using m by blast
  then show ?thesis using after by (cases e) (simp_all add: after_write_def)
qed

lemma sync_if_kept:
  assumes "ready p n f" "heap_kept sip h (vm_heap st)"
  shows "\<exists>e f' st'. (if index < program_declared_argument_count p then sync_parameter sip index v f st
      else Some (None, f, st)) = Some (e, f', st') \<and> ready p n f' \<and> heap_kept sip h (vm_heap st')"
  using sync_parameter_kept [OF assms(1) _ assms(2)] assms by simp

lemma store_local_runs:
  assumes f: "ready p n f" and h: "heap_inv sip (vm_heap st)"
  shows "runs sip p n (vm_heap st) (store_local sip path slot f st)"
  unfolding store_local_def
proof (rule pop_then_runs [OF f heap_kept_refl [OF h]], goal_cases)
  case (1 v g)
  then have declared: "fr_declared_argument_count g = program_declared_argument_count p"
    by (simp add: ready_def frame_ok_def)
  show ?case
    using 1 heap_kept_refl [OF h] unfolding Let_def declared
    by (auto split: option.split intro!: after_write_runs write_local_kept sync_parameter_kept sync_if_kept)
qed

lemma step_access_runs:
  assumes f: "ready p n f" and h: "heap_inv sip (vm_heap st)" and static: "static_target_ok p (AccessInstr i)"
  shows "runs sip p n (vm_heap st) (step_access sip path i f st)"
proof -
  note kept = heap_kept_refl [OF h]
  show ?thesis
  proof (cases i)
    case (LoadLocal slot)
    obtain r where "read_local slot f st = Some r" using read_local_some [OF h] by blast
    then show ?thesis using LoadLocal f kept by (simp add: step_access_def load_local_def split: sum.split)
  next
    case (StoreLocal slot)
    then show ?thesis using store_local_runs [OF f h] by (simp add: step_access_def)
  next
    case (LoadStaticLocalOrJump slot target)
    then show ?thesis using f kept static
      by (auto simp: step_access_def load_static_local_or_jump_def static_target_ok_def advance_def ready_def
          frame_ok_def split: option.split)
  qed (use f kept in \<open>auto simp: step_access_def initialize_static_local_def intro!: pop_then_runs\<close>)
qed

lemma logical_or_empty_list_local_runs:
  assumes f: "ready p n f" and h: "heap_inv sip (vm_heap st)" and room: "vm_room f st"
  shows "runs sip p n (vm_heap st) (logical_or_empty_list_local sip path p slot f st)"
proof -
  obtain r where r: "read_local slot f st = Some r" using read_local_some [OF h] by blast
  obtain l h1 where a: "allocate_list (vm_heap st) = Some (l, h1)" "heap_kept sip (vm_heap st) h1"
    using allocate_list_spec [OF h] room by (auto simp: vm_room_def)
  show ?thesis
    using f heap_kept_refl [OF h] a unfolding logical_or_empty_list_local_def r
    by (auto simp: Let_def split: sum.split bool.split intro!: after_write_runs write_local_kept sync_parameter_kept sync_if_kept)
qed


lemma step_fused_runs:
  assumes f: "ready p n f" and h: "heap_inv sip (vm_heap st)" and room: "vm_room f st"
  shows "runs sip p n (vm_heap st) (step_fused sip path p i f st)"
proof (cases i)
  case (LogicalOrEmptyListLocal slot)
  then show ?thesis using logical_or_empty_list_local_runs [OF f h room] by (simp add: step_fused_def)
qed (use f heap_kept_refl [OF h] in
    \<open>auto simp: step_fused_def prepare_rhs_first_index_assignment_def Let_def\<close>)

lemma dispatch_runs:
  assumes f: "ready p n f" and h: "heap_inv sip (vm_heap st)" and room: "vm_room f st"
    and static: "static_target_ok p i"
  shows "runs sip p n (vm_heap st) (dispatch_instruction f32_add f32_of_i8 sip path p i f st)"
proof (cases i)
  case (ValueInstr j)
  then show ?thesis using step_value_runs [OF f h room] by (simp add: dispatch_instruction_def)
next
  case (QueryInstr j)
  then show ?thesis using step_query_runs [OF f h room] by (simp add: dispatch_instruction_def)
next
  case (AccessInstr j)
  then show ?thesis using step_access_runs [OF f h] static by (simp add: dispatch_instruction_def)
next
  case (MutateInstr j)
  then show ?thesis using step_mutate_runs [OF f heap_kept_refl [OF h]] by (simp add: dispatch_instruction_def)
next
  case (OperatorInstr j)
  then show ?thesis using step_operator_runs [OF f heap_kept_refl [OF h]] by (simp add: dispatch_instruction_def)
next
  case (ControlInstr j)
  then show ?thesis using step_control_runs [OF f heap_kept_refl [OF h]] by (simp add: dispatch_instruction_def)
next
  case (FusedInstr j)
  then show ?thesis using step_fused_runs [OF f h room] by (simp add: dispatch_instruction_def)
qed

section \<open>The compact fast path\<close>

text \<open>Fast execution is dispatch of the rich instruction.\<close>

lemma fast_execution:
  "dispatch_instruction f32_add f32_of_i8 sip path p (rich_instruction op) f st =
     Some (case execute_compact_fast_instruction op f st of
       Inl e \<Rightarrow> Raised e f st | Inr f' \<Rightarrow> advance f' st)"
  by (cases op) (auto simp: dispatch_instruction_def step_value_def step_access_def step_mutate_def pop_then_def
      fast_pop_def execute_compact_fast_instruction_def)

lemma check_words_nth:
  "check_words index ids pc xs = Inr () \<Longrightarrow> k < length xs \<Longrightarrow>
   selector_word_from_ids ids (fst (xs ! k)) = Inr (snd (xs ! k))"
proof (induction xs arbitrary: pc k)
  case (Cons x xs)
  then show ?case by (cases x; cases k) (auto simp: res_bind_Inr_iff split: if_splits)
qed simp

lemma check_procedures_nth:
  "check_procedures img ids ps index xs = Inr () \<Longrightarrow> k < length xs \<Longrightarrow>
   check_procedure img ids ps (index + k) (xs ! k) = Inr ()"
proof (induction xs arbitrary: index k)
  case (Cons x xs)
  then show ?case using Cons.IH [of "Suc index" "k - 1"] by (cases k) (auto simp: res_bind_Inr_iff)
qed simp

text \<open>A word of a validated image is the word of the instruction at its place.\<close>

lemma validated_word:
  assumes v: "validate_against img m = Inr ()" and w: "image_word img pid pc = Some w"
  shows "\<exists>p i. nth_opt (procedures m) (unat pid) = Some p \<and> nth_opt (instructions p) pc = Some i
    \<and> selector_word_from_ids (string_ids (cw_strings img)) i = Inr w"
proof -
  obtain r where r: "nth_opt (cw_procedures img) (unat pid) = Some r" "pc < unat (instruction_count r)"
      "nth_opt (cw_words img) (unat (word_offset r) + pc) = Some w"
    using w by (auto simp: image_word_def image_procedure_def split: option.splits if_splits)
  have len: "length (cw_procedures img) = length (procedures m)"
    and cs: "check_procedures img (string_ids (cw_strings img)) (paths m) 0 (zip (cw_procedures img) (procedures m)) = Inr ()"
    using v by (auto simp: validate_against_def res_bind_Inr_iff split: if_splits)
  have i: "unat pid < length (cw_procedures img)" "cw_procedures img ! unat pid = r"
    using r(1) by (auto simp: nth_opt_def split: if_splits)
  let ?p = "procedures m ! unat pid" and ?start = "unat (word_offset r)"
  have "check_procedure img (string_ids (cw_strings img)) (paths m) (unat pid) (r, ?p) = Inr ()"
    using check_procedures_nth [OF cs, of "unat pid"] i len by simp
  then have n: "unat (instruction_count r) = length (instructions ?p)"
    and words: "\<exists>k. check_words k (string_ids (cw_strings img)) 0
      (zip (instructions ?p) (take (unat (instruction_count r)) (drop ?start (cw_words img)))) = Inr ()"
    and e: "?start + unat (instruction_count r) \<le> length (cw_words img)"
    by (auto simp: check_procedure_def res_bind_Inr_iff Let_def split: if_splits)
  let ?xs = "zip (instructions ?p) (take (unat (instruction_count r)) (drop ?start (cw_words img)))"
  have "pc < length ?xs" "?xs ! pc = (instructions ?p ! pc, w)"
    using r(2,3) n e by (auto simp: nth_opt_def split: if_splits)
  then have "selector_word_from_ids (string_ids (cw_strings img)) (instructions ?p ! pc) = Inr w"
    using words check_words_nth [of _ "string_ids (cw_strings img)" 0 ?xs pc] by auto
  then show ?thesis using i(1) len r(2) n by (auto simp: nth_opt_def)
qed

lemma selector_word_from_idsD:
  "selector_word_from_ids ids i = Inr w \<Longrightarrow> \<exists>g. selector_word_with g i () = Inr (w, ())"
  by (auto simp: selector_word_from_ids_def res_bind_Inr_iff)

lemma validated_fast_word:
  assumes "validate_against img m = Inr ()" "image_word img pid pc = Some w" "fast_instruction w = Some op"
  shows "\<exists>p. nth_opt (procedures m) (unat pid) = Some p \<and> nth_opt (instructions p) pc = Some (rich_instruction op)"
proof -
  obtain p i where p: "nth_opt (procedures m) (unat pid) = Some p" "nth_opt (instructions p) pc = Some i"
      "selector_word_from_ids (string_ids (cw_strings img)) i = Inr w"
    using validated_word [OF assms(1,2)] by blast
  obtain g where "selector_word_with g i () = Inr (w, ())" using selector_word_from_idsD [OF p(3)] by blast
  from fast_word_instruction [OF this assms(3)] p(1,2) show ?thesis by auto
qed

end
