(* ===== verification/InterpProps.thy ===== *)
theory InterpProps
  imports InterpLaws
begin

text \<open>
  Properties of the interpreter core and of compact wordcode.
\<close>

section \<open>Frames\<close>

lemma declared_le_names: "program_declared_argument_count p \<le> length (parameter_names p)"
  by (simp add: program_declared_argument_count_def split: option.split)

lemma make_frame_ok: "frame_ok p (local_count p) (make_frame pid p arguments src usr)"
  by (simp add: frame_ok_def make_frame_def Let_def)

lemma bind_arguments_lengths:
  "bind_arguments p ns index k vs (ps, ss, xs) = (ps', ss', xs') \<Longrightarrow>
   length ps' = length ps \<and> length ss' = length ss"
proof (induction vs arbitrary: index k ps ss xs)
  case (Cons v vs)
  then show ?case by (auto simp: Let_def split: prod.splits if_splits)
qed simp

text \<open>C16. A new frame has one slot per local, an argument vector that covers the declared parameters,
  and starts inside the program; binding named arguments panics exactly when some argument is named
  and the last named parameter lies beyond the parameter count.\<close>

theorem new_frame_type:
  "frame_ok p (local_count p) (make_frame pid p arguments src usr)
   \<and> (case make_frame_named pid p arguments ns src usr of
        None \<Rightarrow> list_ex (\<lambda>n. n \<noteq> None) ns \<and> parameter_count p < program_declared_argument_count p
      | Some f \<Rightarrow> frame_ok p (local_count p) f
          \<and> (list_all (\<lambda>n. n = None) ns \<or> program_declared_argument_count p \<le> parameter_count p))"
proof -
  obtain ps ss xs where b: "bind_arguments p ns 0 0 arguments
      (replicate (parameter_count p) VNull, replicate (parameter_count p) False, []) = (ps, ss, xs)"
    by (metis prod_cases3)
  then have "length ps = parameter_count p" using bind_arguments_lengths by fastforce
  then show ?thesis using b make_frame_ok [of p pid arguments src usr] make_frame_ok [of p pid ps src usr]
    by (auto simp: make_frame_named_def vec_slice_def frame_ok_def make_frame_def Let_def list_all_iff list_ex_iff)
qed

section \<open>Samples\<close>

definition sample_program :: program where
  "sample_program = \<lparr>wait_for = True, parameter_count = 1, parameter_names = [''a''],
     verb_parameter_types = [VptAnything], verb_name = None, local_count = 2,
     instructions = [ValueInstr PushNull, MutateInstr Duplicate, ControlInstr Return], source_spans = []\<rparr>"

definition sample_state :: "value_heap \<Rightarrow> list_id set \<Rightarrow> vm_state" where
  "sample_state h cells = \<lparr>vm_heap = h, reference_lists = cells, associative_lists = {},
     procedure_static_locals = Map.empty\<rparr>"

definition sample_frame :: "dm_value list \<Rightarrow> dm_value list \<Rightarrow> call_frame" where
  "sample_frame ls s = (make_frame 0 sample_program [VNumber 0] VNull VNull)\<lparr>fr_locals := ls, fr_stack := s\<rparr>"

lemma sample_room: "arena_room (list_arena heap_new)"
  by (simp add: heap_new_def arena_new_def arena_room_def)

lemma sample_simps_vm [simp]:
  "vm_heap (sample_state h cells) = h" "reference_lists (sample_state h cells) = cells"
  "(sample_state h cells)\<lparr>vm_heap := h'\<rparr> = sample_state h' cells"
  "fr_locals (sample_frame ls s) = ls" "fr_stack (sample_frame ls s) = s" "fr_instruction (sample_frame ls s) = 0"
  "(sample_frame ls s)\<lparr>fr_stack := t\<rparr> = sample_frame ls t"
  by (simp_all add: sample_state_def sample_frame_def make_frame_def Let_def)

section \<open>One step\<close>

text \<open>C6. A modelled instruction never panics while there is room for a list, given that the target of a
  \<open>LoadStaticLocalOrJump\<close> lies in the program (\<open>static_target_ok\<close>, which the validation of modules checks); whether it goes on or
  raises, the heap keeps its invariant and its dead handles dead, the frame keeps its shape, and
  the instruction pointer and every handler stay inside the program.\<close>

theorem dispatch_safe:
  assumes "heap_inv sip (vm_heap st)" "frame_ok p n f" "fr_instruction f < length (instructions p)"
    "arena_room (list_arena (vm_heap st))" "length (fr_stack f) \<le> max_entries"
    "length (fr_arguments f) \<le> max_entries" "static_target_ok p i"
  shows "\<exists>fl. dispatch_instruction f32_add f32_of_i8 sip path p i f st = Some fl
    \<and> flow_ok sip p n (vm_heap st) fl"
  using dispatch_runs [of p n f sip st i f32_add f32_of_i8 path] assms
  by (simp add: ready_def vm_room_def runs_def)

theorem dispatch_safe_witness:
  "\<exists>fl. dispatch_instruction (\<lambda>a b. a) (\<lambda>_. 0) (\<lambda>_. 7) ''/proc/a'' sample_program (ValueInstr (AddressLocal 1))
      (sample_frame [VNumber 0, VNull] []) (sample_state heap_new {}) = Some fl
    \<and> flow_ok (\<lambda>_. 7) sample_program 2 heap_new fl"
  using dispatch_safe [of "\<lambda>_. 7" "sample_state heap_new {}" sample_program 2 "sample_frame [VNumber 0, VNull] []"
      "ValueInstr (AddressLocal 1)" "\<lambda>a b. a" "\<lambda>_. 0" "''/proc/a''"]
  by (simp add: sample_state_def sample_frame_def make_frame_def frame_ok_def heap_new_inv sample_room
      sample_program_def program_declared_argument_count_def static_target_ok_def max_entries_def)

text \<open>C15. A list literal pushes one fresh list whose entries are those its elements build in order,
  positional ones added and associations set as keys; every other list and datum is untouched.\<close>

theorem list_literal_entries:
  assumes h: "heap_inv sip (vm_heap st)" and room: "arena_room (list_arena (vm_heap st))"
    and s: "fr_stack f = s @ vs" "length vs = literal_values ks" "length vs \<le> max_entries"
  shows "\<exists>l h'. dispatch_instruction f32_add f32_of_i8 sip path p (QueryInstr (MakeListEntries ks)) f st =
      Some (Continue (f\<lparr>fr_stack := s @ [VList l], fr_instruction := fr_instruction f + 1\<rparr>) (st\<lparr>vm_heap := h'\<rparr>))
    \<and> lists_of (vm_heap st) l = None
    \<and> view_of h' = (datums_of (vm_heap st),
        (lists_of (vm_heap st))(l \<mapsto> snd (spec_run_ops (literal_ops False ks vs) [])))"
proof -
  obtain l h1 where a: "allocate_list (vm_heap st) = Some (l, h1)" "heap_kept sip (vm_heap st) h1"
      "lists_of (vm_heap st) l = None" "view_of h1 = (datums_of (vm_heap st), (lists_of (vm_heap st))(l \<mapsto> []))"
      "arena_map (list_arena h1) (list_key l) = Some dm_list_new"
    using allocate_list_spec [OF h room] by blast
  obtain y where y: "fill_literal sip False ks vs dm_list_new = Some y" "list_inv sip y"
      "entries y = snd (spec_run_ops (literal_ops False ks vs) [])"
    using fill_literal_spec [OF s(2) [symmetric] s(3)] by blast
  obtain h' where h': "fresh_write l (fill_literal sip False ks vs) h1 = Some h'"
      "view_of h' = (datums_of h1, (lists_of h1)(l \<mapsto> entries y))"
    using fresh_write_spec [OF heap_kept_inv [OF a(2)] a(5), of "fill_literal sip False ks vs", OF y(1,2)] by blast
  have "\<not> usize_max < literal_values ks" using s(2,3) by (simp add: max_entries_def usize_max_def)
  then show ?thesis using a h' y(3) s(1,2)
    by (auto simp: dispatch_instruction_def step_query_def push_new_list_def Let_def advance_def push_def view_of_def
        simp del: bind_Some_iff)
qed

theorem list_literal_entries_witness:
  "\<exists>l h'. dispatch_instruction (\<lambda>a b. a) (\<lambda>_. 0) (\<lambda>_. 7) ''/proc/a'' sample_program
      (QueryInstr (MakeListEntries [Positional, Associative])) (sample_frame [] [VNull, VText ''k'', VNumber 0])
      (sample_state heap_new {}) =
      Some (Continue ((sample_frame [] [VList l])\<lparr>fr_instruction := 1\<rparr>) (sample_state h' {}))
    \<and> lists_of h' l = Some [(VNull, None), (VText ''k'', Some (VNumber 0))]"
proof -
  obtain l h' where "dispatch_instruction (\<lambda>a b. a) (\<lambda>_. 0) (\<lambda>_. 7) ''/proc/a'' sample_program
      (QueryInstr (MakeListEntries [Positional, Associative])) (sample_frame [] [VNull, VText ''k'', VNumber 0])
      (sample_state heap_new {}) =
      Some (Continue ((sample_frame [] [VList l])\<lparr>fr_instruction := 1\<rparr>) (sample_state h' {}))"
    "view_of h' = (datums_of heap_new, (lists_of heap_new)(l \<mapsto> snd (spec_run_ops (literal_ops False
      [Positional, Associative] [VNull, VText ''k'', VNumber 0]) [])))"
    using list_literal_entries [of "\<lambda>_. 7" "sample_state heap_new {}"
      "sample_frame [] [VNull, VText ''k'', VNumber 0]" "[]" "[VNull, VText ''k'', VNumber 0]"
      "[Positional, Associative]" "\<lambda>a b. a" "\<lambda>_. 0" "''/proc/a''" sample_program]
    by (auto simp: heap_new_inv sample_room max_entries_def)
  then show ?thesis
    by (intro exI [of _ l] exI [of _ h']) (simp add: view_of_def spec_set_key_def plain_match_def assoc_match_def Let_def)
qed

section \<open>Reference cells\<close>

lemma address_local_spec:
  assumes h: "heap_inv sip (vm_heap st)" and room: "arena_room (list_arena (vm_heap st))"
    and v: "nth_opt (fr_locals f) (unat slot) = Some v" "reference_cell st v = None"
  shows "\<exists>l h'. address_local slot f st = Some (advance (push (VList l)
        (f\<lparr>fr_locals := (fr_locals f)[unat slot := VList l]\<rparr>))
      (st\<lparr>vm_heap := h', reference_lists := insert l (reference_lists st)\<rparr>))
    \<and> heap_inv sip h' \<and> view_of h' = (datums_of (vm_heap st), (lists_of (vm_heap st))(l \<mapsto> [(v, None)]))"
proof -
  obtain l h1 where a: "allocate_list (vm_heap st) = Some (l, h1)" "heap_kept sip (vm_heap st) h1"
      "view_of h1 = (datums_of (vm_heap st), (lists_of (vm_heap st))(l \<mapsto> []))"
      "arena_map (list_arena h1) (list_key l) = Some dm_list_new"
    using allocate_list_spec [OF h room] by blast
  obtain m y where "list_add v dm_list_new = Some (m, y)" "list_inv sip y" "entries y = [(v, None)]"
    using extend_performs [OF list_inv_new(1) [of sip], of "[v]"]
    by (auto simp: performs_def list_add_extend list_inv_new(2)) (auto simp: dm_list_new_def max_entries_def)
  then obtain h' where "fresh_write l (\<lambda>x. map_option snd (list_add v x)) h1 = Some h'" "heap_kept sip h1 h'"
      "view_of h' = (datums_of h1, (lists_of h1)(l \<mapsto> [(v, None)]))"
    using fresh_write_spec [OF heap_kept_inv [OF a(2)] a(4), of "\<lambda>x. map_option snd (list_add v x)" y] by auto
  then show ?thesis using a v
    by (intro exI [of _ l] exI [of _ h']) (simp add: address_local_def view_of_def heap_kept_inv del: bind_Some_iff)
qed

text \<open>What reading through a live cell gives.\<close>

lemma read_cell:
  assumes "heap_inv sip (vm_heap st)" "nth_opt (fr_locals f) (unat slot) = Some (VList l)"
    "l \<in> reference_lists st" "lists_of (vm_heap st) l = Some (e # es)"
  shows "read_local slot f st = Some (Inr (fst e))"
  using list_cell_get_spec [OF assms(1), of l] assms(2-4)
  by (simp add: read_local_def reference_cell_def spec_get_def checked_index_def)

text \<open>C37. Taking the address of a local does not change what the local reads as, but the increment
  instruction reads past the cell: on a local whose address was taken it raises instead of counting.\<close>

theorem increment_of_addressed_local_raises:
  assumes h: "heap_inv sip (vm_heap st)" and room: "arena_room (list_arena (vm_heap st))"
    and v: "nth_opt (fr_locals f) (unat slot) = Some (VNumber x)"
  shows "\<exists>l f' st'. address_local slot f st = Some (Continue f' st')
    \<and> read_local slot f' st' = Some (Inr (VNumber x))
    \<and> mutate_local f32_add f32_of_i8 slot delta prefix f' st' = Raised (NotScalar (VList l)) f' st'"
proof -
  have "reference_cell st (VNumber x) = None" by (simp add: reference_cell_def)
  from address_local_spec [OF h room v this] obtain l h' where
    "address_local slot f st = Some (advance (push (VList l) (f\<lparr>fr_locals := (fr_locals f)[unat slot := VList l]\<rparr>))
       (st\<lparr>vm_heap := h', reference_lists := insert l (reference_lists st)\<rparr>))" "heap_inv sip h'"
    "view_of h' = (datums_of (vm_heap st), (lists_of (vm_heap st))(l \<mapsto> [(VNumber x, None)]))"
    by blast
  moreover have "unat slot < length (fr_locals f)" using v by (auto simp: nth_opt_def split: if_splits)
  ultimately show ?thesis
    using read_cell [of sip "st\<lparr>vm_heap := h', reference_lists := insert l (reference_lists st)\<rparr>"
        "f\<lparr>fr_locals := (fr_locals f)[unat slot := VList l], fr_stack := fr_stack f @ [VList l],
          fr_instruction := fr_instruction f + 1\<rparr>" slot l "(VNumber x, None)" "[]"]
    by (auto simp: advance_def push_def nth_opt_def view_of_def mutate_local_def mutate_scalar_value_def)
qed


theorem increment_of_addressed_local_raises_witness:
  "\<exists>l f' st'. address_local 0 (sample_frame [VNumber 0] []) (sample_state heap_new {}) = Some (Continue f' st')
    \<and> read_local 0 f' st' = Some (Inr (VNumber 0))
    \<and> mutate_local (\<lambda>a b. a) (\<lambda>_. 0) 0 1 True f' st' = Raised (NotScalar (VList l)) f' st'"
  using increment_of_addressed_local_raises [of "\<lambda>_. 7" "sample_state heap_new {}" "sample_frame [VNumber 0] []" 0 0]
  by (simp add: sample_state_def sample_frame_def heap_new_inv sample_room nth_opt_def)

text \<open>What \<open>StoreLocal\<close> leaves in the cell it writes through, whatever it also owes \<open>args\<close>.\<close>

lemma spec_cell_set_first:
  assumes "ls l = Some ((v, None) # es)"
  shows "\<exists>es'. snd (spec_cell_set m (Suc k) v ls) l = Some ((v, None) # es')"
proof (cases "m = l")
  case True
  then show ?thesis using assms
    by (cases k) (auto simp: spec_cell_set_def spec_set_def checked_index_def split: sum.split)
next
  case False
  then show ?thesis using assms by (auto simp: spec_cell_set_def split: option.split)
qed

lemma sync_parameter_first:
  assumes "heap_inv sip (vm_heap st)" "lists_of (vm_heap st) l = Some ((v, None) # es)"
    "sync_parameter sip index v f st = Some (e, f', st')"
  shows "heap_inv sip (vm_heap st') \<and> (\<exists>es'. lists_of (vm_heap st') l = Some ((v, None) # es'))
    \<and> reference_lists st' = reference_lists st"
proof (cases "fr_args_list f")
  case (Some m)
  obtain h' where "list_cell_set sip m (index + 1) v (vm_heap st) =
      Some (fst (spec_cell_set m (index + 1) v (lists_of (vm_heap st))), h')" "heap_kept sip (vm_heap st) h'"
      "view_of h' = (datums_of (vm_heap st), snd (spec_cell_set m (index + 1) v (lists_of (vm_heap st))))"
    using list_cell_set_spec [OF assms(1)] by blast
  then show ?thesis using assms(3) Some spec_cell_set_first [of "lists_of (vm_heap st)" l, OF assms(2)]
    by (auto simp: sync_parameter_def view_of_def heap_kept_inv)
qed (use assms in \<open>auto simp: sync_parameter_def\<close>)

lemma write_local_cell:
  assumes "heap_inv sip (vm_heap st)" "lists_of (vm_heap st) l = Some (e # es)"
    "write_local sip (Some l) index v f st = Some (r, f', st')"
  shows "heap_inv sip (vm_heap st') \<and> lists_of (vm_heap st') l = Some ((v, None) # es)
    \<and> reference_lists st' = reference_lists st \<and> f' = f \<and> r = None"
proof -
  obtain h' where "list_cell_set sip l 1 v (vm_heap st) =
      Some (fst (spec_cell_set l 1 v (lists_of (vm_heap st))), h')" "heap_kept sip (vm_heap st) h'"
      "view_of h' = (datums_of (vm_heap st), snd (spec_cell_set l 1 v (lists_of (vm_heap st))))"
    using list_cell_set_spec [OF assms(1)] by blast
  then show ?thesis using assms(2,3)
    by (auto simp: write_local_def view_of_def heap_kept_inv spec_cell_set_def spec_set_def checked_index_def)
qed

lemma after_write_Continue:
  "after_write m k = Some (Continue f st) \<longleftrightarrow> (\<exists>g s. m = Some (None, g, s) \<and> k g s = Some (Continue f st))"
  by (auto simp: after_write_def split: option.splits)

lemma insert_static_references [simp]: "reference_lists (insert_static path slot v st) = reference_lists st"
  by (simp add: insert_static_def Let_def)

lemma pop_then_push: "pop_then (push v f) st k = k v f"
  by (simp add: pop_then_def push_def)

text \<open>C13. Locals that hold the same reference cell are one variable: after a store through one of them,
  in whatever frame and with whatever else the store updates, a load through any other gives the
  stored value.\<close>

theorem reference_cell_shared:
  assumes h: "heap_inv sip (vm_heap st)" and l: "l \<in> reference_lists st" "lists_of (vm_heap st) l = Some (e # es)"
    and f: "nth_opt (fr_locals f) (unat a) = Some (VList l)" and g: "nth_opt (fr_locals g) (unat b) = Some (VList l)"
    and s: "store_local sip path a (push v f) st = Some (Continue f' st')"
  shows "load_local b g st' = Some (advance (push (canonicalize_value (vm_heap st') v) g) st')"
proof -
  have cell: "reference_cell st (VList l) = Some l" using l by (simp add: reference_cell_def)
  have "after_write (write_local sip (Some l) (unat a) v f st) (\<lambda>f1 s1.
      after_write (if unat a < fr_declared_argument_count f then sync_parameter sip (unat a) v f1 s1
          else Some (None, f1, s1)) (\<lambda>f2 s2.
        Some (advance f2 (if a \<in> set (fr_static_locals f) then insert_static path a v s2 else s2)))) =
      Some (Continue f' st')"
    using s f cell by (simp add: store_local_def pop_then_push Let_def)
  then obtain s1 f2 s2 where w: "write_local sip (Some l) (unat a) v f st = Some (None, f, s1)"
      and y: "sync_parameter sip (unat a) v f s1 = Some (None, f2, s2) \<or> s2 = s1"
      and st': "advance f2 (if a \<in> set (fr_static_locals f) then insert_static path a v s2 else s2) = Continue f' st'"
    unfolding after_write_Continue
    by (auto split: if_splits dest: write_local_cell [OF h l(2)])
  note w1 = write_local_cell [OF h l(2) w]
  have "heap_inv sip (vm_heap s2) \<and> (\<exists>es'. lists_of (vm_heap s2) l = Some ((v, None) # es'))
      \<and> reference_lists s2 = reference_lists st"
    using y w1 sync_parameter_first [of sip s1 l v es "unat a" f None f2 s2] by auto
  then obtain es' where "heap_inv sip (vm_heap st')" "lists_of (vm_heap st') l = Some ((v, None) # es')"
      "l \<in> reference_lists st'"
    using st' l(1) by (auto simp: advance_def split: if_splits)
  then have "read_local b g st' = Some (Inr v)" using read_cell [OF _ g] by fastforce
  then show ?thesis by (simp add: load_local_def)
qed

theorem reference_cell_shared_witness:
  "\<exists>l st f' st'. store_local (\<lambda>_. 7) ''/proc/a'' 1 (push (VText ''x'') (sample_frame [VNull, VList l] [])) st =
      Some (Continue f' st')
    \<and> load_local 0 (sample_frame [VList l] []) st' =
        Some (advance (push (VText ''x'') (sample_frame [VList l] [])) st')"
proof -
  obtain l h where "heap_inv (\<lambda>_. 7) h" "view_of h = (datums_of heap_new, (lists_of heap_new)(l \<mapsto> [(VNull, None)]))"
    using address_local_spec [of "\<lambda>_. 7" "sample_state heap_new {}" "sample_frame [VNull] []" 0 VNull]
    by (auto simp: heap_new_inv sample_room nth_opt_def reference_cell_def)
  then have h: "heap_inv (\<lambda>_. 7) h" "lists_of h l = Some [(VNull, None)]" by (simp_all add: view_of_def)
  obtain h' where h': "list_cell_set (\<lambda>_. 7) l 1 (VText ''x'') h =
      Some (fst (spec_cell_set l 1 (VText ''x'') (lists_of h)), h')"
    using list_cell_set_spec [OF h(1)] by blast
  let ?st = "sample_state h {l}" and ?f = "sample_frame [VNull, VList l] []" and ?g = "sample_frame [VList l] []"
  obtain f' st' where s: "store_local (\<lambda>_. 7) ''/proc/a'' 1 (push (VText ''x'') ?f) ?st = Some (Continue f' st')"
    using h h' unfolding store_local_def pop_then_push
    by (auto simp: sample_state_def sample_frame_def make_frame_def sample_program_def nth_opt_def Let_def advance_def
        program_declared_argument_count_def reference_cell_def write_local_def after_write_def spec_cell_set_def
        spec_set_def checked_index_def simp del: bind_Some_iff)
  have "load_local 0 ?g st' = Some (advance (push (canonicalize_value (vm_heap st') (VText ''x'')) ?g) st')"
    using reference_cell_shared [of "\<lambda>_. 7" ?st l "(VNull, None)" "[]" ?f 1 ?g 0] h s
    by (auto simp: sample_state_def sample_frame_def nth_opt_def)
  then show ?thesis using s by (auto simp: canonicalize_value_def)
qed

section \<open>Compact wordcode\<close>

text \<open>C7. Where the image of a module validates against it, executing a fast word is executing the
  instruction at the same place: same effect on the frame, same error, state untouched.\<close>

theorem fast_path_exact:
  assumes "validate_against img m = Inr ()" "image_word img pid pc = Some w" "fast_instruction w = Some op"
  shows "\<exists>p i. nth_opt (procedures m) (unat pid) = Some p \<and> nth_opt (instructions p) pc = Some i
    \<and> dispatch_instruction f32_add f32_of_i8 sip path p i f st =
        Some (case execute_compact_fast_instruction op f st of Inl e \<Rightarrow> Raised e f st | Inr f' \<Rightarrow> advance f' st)"
  using validated_fast_word [OF assms] fast_execution by blast

definition sample_image :: wordcode_image where
  "sample_image = \<lparr>cw_strings = [''/proc/a''],
     cw_procedures = [\<lparr>path_id = 0, word_offset = 0, instruction_count = 3, record_local_count = 2,
       record_parameter_count = 1, record_flags = 1\<rparr>],
     cw_words = [pack OP_PUSH_NULL 0, pack OP_DUPLICATE 0, pack OP_RETURN 0]\<rparr>"

definition sample_module :: "unit vm_module" where
  "sample_module = \<lparr>procedures = [sample_program], paths = [''/proc/a''], names = Map.empty,
     dynamic_names = Map.empty, deferred = Map.empty, initializer_call_names = None, procedure_types = [[]]\<rparr>"

lemma sample_image_valid: "validate_image sample_image = Inr ()"
  by (simp add: validate_image_def sample_image_def res_bind_def CW_MAX_STRINGS_def CW_MAX_PROCEDURES_def
      CW_MAX_WORDS_def CW_MAX_STRING_BYTES_def CW_MAX_TOTAL_STRING_BYTES_def usize_max_def)

lemma sample_image_matches: "validate_against sample_image sample_module = Inr ()"
  unfolding validate_against_def sample_image_valid
  by (simp add: sample_image_def sample_module_def sample_program_def string_ids_def check_procedure_def res_bind_def
      ok_or_def selector_word_from_ids_def selector_word_with_def nth_opt_def instruction_selector_def value_selector_def mutate_selector_def
      control_selector_def usize_max_def)

theorem fast_path_exact_witness:
  "\<exists>p i. nth_opt (procedures sample_module) 0 = Some p \<and> nth_opt (instructions p) 1 = Some i
    \<and> dispatch_instruction (\<lambda>a b. a) (\<lambda>_. 0) (\<lambda>_. 7) ''/proc/a'' p i (sample_frame [] []) (sample_state heap_new {}) =
        Some (Raised StackUnderflow (sample_frame [] []) (sample_state heap_new {}))"
proof -
  have "image_word sample_image 0 1 = Some (pack OP_DUPLICATE 0)"
    by (simp add: image_word_def image_procedure_def sample_image_def nth_opt_def usize_max_def)
  moreover have "fast_instruction (pack OP_DUPLICATE 0) = Some FastDuplicate"
    by (simp add: fast_instruction_def op_defs)
  ultimately show ?thesis
    using sample_image_matches fast_path_exact [of sample_image sample_module 0 1 "pack OP_DUPLICATE 0" FastDuplicate
        "\<lambda>a b. a" "\<lambda>_. 0" "\<lambda>_. 7" "''/proc/a''" "sample_frame [] []" "sample_state heap_new {}"]
    by (simp add: execute_compact_fast_instruction_def sample_frame_def)
qed

text \<open>C12. The bytes of a compact image determine it and are determined by it: any byte string decodes
  to an image exactly when the image is valid, its strings are UTF-8, and it encodes to those bytes.\<close>

theorem wordcode_roundtrip:
  assumes "length bs \<le> usize_max"
  shows "decode_image bs = Inr img \<longleftrightarrow> encode_image img = Inr bs \<and> list_all utf8_valid (cw_strings img)"
  using decode_image_written [of img] decode_image_read [OF _ assms] assms by (auto simp: encode_image_iff)

theorem wordcode_roundtrip_witness:
  "\<exists>bs. encode_image sample_image = Inr bs \<and> decode_image bs = Inr sample_image"
proof -
  have "encode_image sample_image = Inr (image_bytes sample_image)" by (simp add: encode_image_iff sample_image_valid)
  moreover have "length (image_bytes sample_image) \<le> usize_max"
    by (simp add: image_bytes_def sample_image_def usize_max_def cw_string_def cw_record_def)
  moreover have "list_all utf8_valid (cw_strings sample_image)"
    unfolding sample_image_def by code_simp
  ultimately show ?thesis using wordcode_roundtrip [of "image_bytes sample_image" sample_image] by blast
qed

section \<open>Exceptions\<close>

lemma rposition_snoc:
  "rposition q (xs @ [x]) = (if q x then Some (length xs) else rposition q xs)"
  by (simp add: rposition_def option.map_comp comp_def)

lemma later_snoc:
  "(\<forall>j. i < j \<and> j < length (xs @ [x]) \<longrightarrow> \<not> q ((xs @ [x]) ! j)) \<longleftrightarrow>
   (\<forall>j. i < j \<and> j < length xs \<longrightarrow> \<not> q (xs ! j)) \<and> (i < length xs \<longrightarrow> \<not> q x)"
  (is "?all \<longleftrightarrow> ?some \<and> ?last")
proof
  assume all: ?all
  have "\<not> q (xs ! j)" if "i < j \<and> j < length xs" for j using all [rule_format, of j] that by (simp add: nth_append)
  moreover have "\<not> q x" if "i < length xs" using all [rule_format, of "length xs"] that by simp
  ultimately show "?some \<and> ?last" by blast
next
  assume "?some \<and> ?last"
  then show ?all by (simp add: nth_append)
qed

lemma rposition_Some_iff:
  "rposition q xs = Some i \<longleftrightarrow> i < length xs \<and> q (xs ! i) \<and> (\<forall>j. i < j \<and> j < length xs \<longrightarrow> \<not> q (xs ! j))"
proof (induction xs rule: rev_induct)
  case (snoc x xs)
  show ?case
  proof (cases "q x")
    case True
    have "i = length xs" if "i < Suc (length xs)" "\<not> i < length xs" using that by simp
    then show ?thesis unfolding later_snoc using True by (auto simp: rposition_snoc)
  next
    case False
    have "i < length (xs @ [x]) \<and> q ((xs @ [x]) ! i) \<longleftrightarrow> i < length xs \<and> q (xs ! i)"
      using False by (auto simp: nth_append less_Suc_eq)
    then show ?thesis unfolding later_snoc using False snoc by (auto simp: rposition_snoc)
  qed
qed (simp add: rposition_def)

text \<open>The number of handlers still armed.\<close>

definition armed :: "call_frame list \<Rightarrow> nat" where
  "armed frames = sum_list (map (\<lambda>f. length (fr_exception_handlers f)) frames)"

lemma armed_take: "i < length frames \<Longrightarrow>
  armed (take i frames) + length (fr_exception_handlers (frames ! i)) \<le> armed frames"
  by (subst (3) id_take_nth_drop [of i frames]) (simp_all add: armed_def)

text \<open>C14. A failure goes to the last armed handler of the innermost frame that has one in range;
  delivery drops the inner frames, that handler and the ones armed after it, cuts the stack to its
  depth and resumes at its \<open>catch\<close>, so a handler is never entered twice.\<close>

theorem exception_delivery:
  assumes "find_active_exception_handler frames = Some (i, j)"
    and "deliver_to_exception_handler frames (i, j) v = Inr frames'"
  shows "i < length frames \<and> j < length (fr_exception_handlers (frames ! i))
    \<and> covers (fr_instruction (frames ! i)) (fr_exception_handlers (frames ! i) ! j)
    \<and> (\<forall>k < length (fr_exception_handlers (frames ! i)). covers (fr_instruction (frames ! i))
         (fr_exception_handlers (frames ! i) ! k) \<longrightarrow> k \<le> j)
    \<and> (\<forall>k < length frames. frame_handler (frames ! k) \<noteq> None \<longrightarrow> k \<le> i)
    \<and> length frames' = i + 1 \<and> take i frames' = take i frames
    \<and> fr_instruction (last frames') = eh_catch (fr_exception_handlers (frames ! i) ! j)
    \<and> fr_stack (last frames') = take (eh_stack_depth (fr_exception_handlers (frames ! i) ! j)) (fr_stack (frames ! i))
    \<and> fr_exception_handlers (last frames') = take j (fr_exception_handlers (frames ! i))
    \<and> armed frames' < armed frames"
proof -
  have r: "rposition (\<lambda>f. frame_handler f \<noteq> None) frames = Some i"
      "rposition (covers (fr_instruction (frames ! i))) (fr_exception_handlers (frames ! i)) = Some j"
    using assms(1) by (auto simp: find_active_exception_handler_def frame_handler_def)
  note a = r(1) [unfolded rposition_Some_iff] and b = r(2) [unfolded rposition_Some_iff]
  obtain g where g: "frames' = take i frames @ [g]"
      "fr_instruction g = eh_catch (fr_exception_handlers (frames ! i) ! j)"
      "fr_stack g = take (eh_stack_depth (fr_exception_handlers (frames ! i) ! j)) (fr_stack (frames ! i))"
      "fr_exception_handlers g = take j (fr_exception_handlers (frames ! i))"
    using assms(2) by (auto simp: deliver_to_exception_handler_def Let_def split: option.splits if_splits)
  have "armed frames' < armed frames" using armed_take [of i frames] a b g by (simp add: armed_def)
  then show ?thesis using a b g by (auto simp: not_less [symmetric])
qed

theorem exception_delivery_witness:
  "\<exists>frames'. deliver_to_exception_handler
      [(sample_frame [VNull] [VNull])\<lparr>fr_exception_handlers := [\<lparr>eh_start = 0, eh_end = 1, eh_catch = 2,
         eh_local = Some 0, eh_stack_depth = 0\<rparr>]\<rparr>, sample_frame [] []] (0, 0) (VText ''e'') = Inr frames'
    \<and> fr_instruction (last frames') = 2 \<and> fr_stack (last frames') = [] \<and> armed frames' = 0"
proof -
  let ?frames = "[(sample_frame [VNull] [VNull])\<lparr>fr_exception_handlers := [\<lparr>eh_start = 0, eh_end = 1, eh_catch = 2,
     eh_local = Some 0, eh_stack_depth = 0\<rparr>]\<rparr>, sample_frame [] []]"
  have find: "find_active_exception_handler ?frames = Some (0, 0)"
    by (simp add: find_active_exception_handler_def rposition_def frame_handler_def covers_def sample_frame_def
        make_frame_def Let_def)
  obtain frames' where d: "deliver_to_exception_handler ?frames (0, 0) (VText ''e'') = Inr frames'"
    by (simp add: deliver_to_exception_handler_def sample_frame_def)
  have "armed ?frames = 1" by (simp add: armed_def sample_frame_def make_frame_def Let_def)
  then show ?thesis using d exception_delivery [OF find d] by auto
qed

end
