(* ===== verification/DmmParser.thy ===== *)
theory DmmParser
  imports Lexer
begin

text \<open>
  The parser of text maps, \<open>crates/dm-map/src/lib.rs\<close>: quoted keys with atom initializers, their
  variable blocks, and coordinate blocks whose rows are sequences of keys. A method of \<open>Parser\<close>
  takes the source and the offset and returns its result with the new offset. A slice that is not
  on character boundaries and a span that ends before it starts are \<open>MapPanic\<close>. Offsets that index
  single bytes always lie inside the source, so the scans over a range read it as a list.
\<close>

section \<open>Data\<close>

datatype map_error =
    ExpectedChar char
  | EmptyKey
  | NonUniformKeys
  | DuplicateKey
  | ExpectedDefinition
  | NoKeys
  | RowNotDivisible
  | KeySplitsCharacter
  | UnknownKey string
  | AtomNotAbsolute
  | UnterminatedVariables
  | InvalidCoordinate
  | UnterminatedEscape
  | UnterminatedString
  | UnexpectedDelimiter char
  | MismatchedDelimiter char
  | UnterminatedDelimiter char
  | UnterminatedQuotedValue
  | UnterminatedComment
  | MissingEquals
  | MissingTarget
  | MissingValue

datatype map_failure = MapError map_error source_span | MapPanic

type_synonym 'a map_result = "map_failure + 'a"

datatype map_value_kind =
    KindText | KindResource | KindList | KindPath | KindNumber | KindNull | KindIdentifier | KindExpression

record map_value =
  mv_kind :: map_value_kind
  mv_raw :: string
  mv_span :: source_span

record map_assignment =
  as_name :: string
  as_name_span :: source_span
  as_value :: map_value
  as_raw :: string
  as_span :: source_span

record atom_initializer =
  at_path :: string
  at_variables :: "string option"
  at_assignments :: "map_assignment list"
  at_span :: source_span

record key_definition =
  kd_key :: string
  kd_atoms :: "atom_initializer list"
  kd_span :: source_span

record map_block =
  mb_x :: int
  mb_y :: int
  mb_z :: int
  mb_rows :: "string list list"
  mb_span :: source_span

record dmm =
  key_width :: nat
  dmm_keys :: "string \<rightharpoonup> key_definition"
  dmm_blocks :: "map_block list"

section \<open>Bytes, slices and spans\<close>

definition map_slice :: "string \<Rightarrow> nat \<Rightarrow> nat \<Rightarrow> string map_result" where
  "map_slice s a b = (case slice s a b of None \<Rightarrow> Inl MapPanic | Some p \<Rightarrow> Inr p)"

definition map_span :: "nat \<Rightarrow> nat \<Rightarrow> source_span map_result" where
  "map_span a b = (case source_span_new a b of None \<Rightarrow> Inl MapPanic | Some sp \<Rightarrow> Inr sp)"

definition error_at :: "nat \<Rightarrow> nat \<Rightarrow> map_error \<Rightarrow> map_failure" where
  "error_at a b e = (case source_span_new a b of None \<Rightarrow> MapPanic | Some sp \<Rightarrow> MapError e sp)"

definition ascii_space :: "char \<Rightarrow> bool" where
  "ascii_space c \<longleftrightarrow> byte c \<in> {9, 10, 12, 13, 32}"

definition peek :: "string \<Rightarrow> nat \<Rightarrow> char option" where
  "peek s pos = (if pos < length s then Some (s ! pos) else None)"

definition map_rest :: "string \<Rightarrow> nat \<Rightarrow> string map_result" where
  "map_rest s pos = map_slice s pos (length s)"

text \<open>\<open>self.remaining().chars().next()\<close>\<close>

definition next_char :: "string \<Rightarrow> nat \<Rightarrow> string option map_result" where
  "next_char s pos = res_bind (map_rest s pos) (\<lambda>r.
     Inr (if r = [] then None else Some (take (utf8_width (hd r)) r)))"

text \<open>\<open>while self.peek().is_some_and(p) { self.offset += 1 }\<close>\<close>

definition skip_while :: "(char \<Rightarrow> bool) \<Rightarrow> string \<Rightarrow> nat \<Rightarrow> nat" where
  "skip_while p s pos = pos + length (takeWhile p (drop pos s))"

lemma skip_while_ge: "pos \<le> skip_while p s pos"
  by (simp add: skip_while_def)

lemma map_rest_Inr: "map_rest s pos = Inr r \<Longrightarrow> r = drop pos s \<and> pos \<le> length s"
  by (auto simp: map_rest_def map_slice_def slice_def split: option.splits if_splits)

lemma next_char_moves: "next_char s pos = Inr (Some c) \<Longrightarrow> 0 < length c \<and> pos < length s"
  using utf8_width_pos [of "hd (drop pos s)"]
  by (auto simp: next_char_def res_bind_Inr_iff dest!: map_rest_Inr split: if_splits)

function skip_space_and_comments :: "string \<Rightarrow> nat \<Rightarrow> nat map_result" where
  "skip_space_and_comments s pos = (let q = skip_while ascii_space s pos in
     case map_rest s q of
       Inl e \<Rightarrow> Inl e
     | Inr r \<Rightarrow>
         if starts_with r ''//'' then skip_space_and_comments s (skip_while (\<lambda>c. c \<noteq> nl_char) s q) else Inr q)"
  by pat_completeness auto
termination
proof (relation "measure (\<lambda>(s, pos). length s - pos)")
  fix s pos q r
  assume q: "q = skip_while ascii_space s pos" and r: "map_rest s q = Inr r" "starts_with r ''//''"
  have "r = drop q s" using r(1) map_rest_Inr by blast
  then obtain t where t: "drop q s = ''//'' @ t" using r(2) by (auto simp: starts_with_iff)
  have "q < length s" using t by (metis append_is_Nil_conv drop_all list.distinct(1) not_le)
  moreover have "pos \<le> q" using q by (simp add: skip_while_ge)
  moreover have "q < skip_while (\<lambda>c. c \<noteq> nl_char) s q" using t by (simp add: skip_while_def)
  ultimately show "((s, skip_while (\<lambda>c. c \<noteq> nl_char) s q), s, pos) \<in> measure (\<lambda>(s, pos). length s - pos)"
    by simp
qed simp

declare skip_space_and_comments.simps [simp del]

definition skip_horizontal_space :: "string \<Rightarrow> nat \<Rightarrow> nat" where
  "skip_horizontal_space = skip_while (\<lambda>c. byte c \<in> {32, 9, 13, 10})"

definition consume :: "char \<Rightarrow> string \<Rightarrow> nat \<Rightarrow> nat option" where
  "consume c s pos = (if peek s pos = Some c then Some (pos + 1) else None)"

definition expect :: "char \<Rightarrow> string \<Rightarrow> nat \<Rightarrow> nat map_result" where
  "expect c s pos = (case consume c s pos of Some q \<Rightarrow> Inr q | None \<Rightarrow> Inl (error_at pos pos (ExpectedChar c)))"

section \<open>Strings and coordinates\<close>

definition unescape :: "string \<Rightarrow> string" where
  "unescape c = (if c = ''n'' then [nl_char] else if c = ''r'' then [cr_char] else if c = ''t'' then [tab_char] else c)"

function quoted_loop :: "string \<Rightarrow> string \<Rightarrow> nat \<Rightarrow> nat \<Rightarrow> (string \<times> nat) map_result" where
  "quoted_loop s v segment pos = (case peek s pos of
       None \<Rightarrow> Inl (error_at pos pos UnterminatedString)
     | Some b \<Rightarrow>
         if b = quote_char then res_bind (map_slice s segment pos) (\<lambda>p. Inr (v @ p, pos + 1))
         else if b \<noteq> backslash_char then (case next_char s pos of
             Inr (Some c) \<Rightarrow> quoted_loop s v segment (pos + length c)
           | Inr None \<Rightarrow> Inl MapPanic
           | Inl e \<Rightarrow> Inl e)
         else (case map_slice s segment pos of
             Inl e \<Rightarrow> Inl e
           | Inr p \<Rightarrow> (case next_char s (pos + 1) of
                 Inl e \<Rightarrow> Inl e
               | Inr None \<Rightarrow> Inl (error_at (pos + 1) (pos + 1) UnterminatedEscape)
               | Inr (Some c) \<Rightarrow> quoted_loop s (v @ p @ unescape c) (pos + 1 + length c) (pos + 1 + length c))))"
  by pat_completeness auto
termination
  by (relation "measure (\<lambda>(s, v, segment, pos). length s - pos)")
    (auto dest!: next_char_moves intro: diff_less_mono2)

declare quoted_loop.simps [simp del]

definition quoted_string :: "string \<Rightarrow> nat \<Rightarrow> (string \<times> nat) map_result" where
  "quoted_string s pos = res_bind (expect quote_char s pos) (\<lambda>q. quoted_loop s [] q q)"

text \<open>\<open>str::parse::<i32>\<close> on an optional minus sign and digits.\<close>

definition digits_value :: "string \<Rightarrow> int" where
  "digits_value ds = fold (\<lambda>c n. 10 * n + int (byte c) - 48) ds 0"

definition parse_i32 :: "string \<Rightarrow> int option" where
  "parse_i32 t = (let (negative, ds) = (case t of c # r \<Rightarrow> if c = CHR ''-'' then (True, r) else (False, t) | [] \<Rightarrow> (False, []));
       n = if negative then - digits_value ds else digits_value ds in
     if ds = [] \<or> \<not> list_all is_digit ds then None
     else if - (2 ^ 31) \<le> n \<and> n < 2 ^ 31 then Some n else None)"

definition integer :: "string \<Rightarrow> nat \<Rightarrow> (int \<times> nat) map_result" where
  "integer s pos = (let start = skip_horizontal_space s pos;
       q = skip_while is_digit s (if peek s start = Some (CHR ''-'') then start + 1 else start) in
     res_bind (map_slice s start q) (\<lambda>t. case parse_i32 t of
       Some n \<Rightarrow> Inr (n, q) | None \<Rightarrow> Inl (error_at start q InvalidCoordinate)))"

section \<open>Values of variables\<close>

text \<open>Characters with the \<open>White_Space\<close> property, and \<open>trim_start\<close>.\<close>

definition space_encodings :: "nat list set" where
  "space_encodings = {[9], [10], [11], [12], [13], [32], [194, 133], [194, 160], [225, 154, 128],
     [226, 128, 128], [226, 128, 129], [226, 128, 130], [226, 128, 131], [226, 128, 132], [226, 128, 133],
     [226, 128, 134], [226, 128, 135], [226, 128, 136], [226, 128, 137], [226, 128, 138],
     [226, 128, 168], [226, 128, 169], [226, 128, 175], [226, 129, 159], [227, 128, 128]}"

function trim_start :: "string \<Rightarrow> string" where
  "trim_start t = (case t of [] \<Rightarrow> []
     | c # _ \<Rightarrow> if map byte (take (utf8_width c) t) \<in> space_encodings then trim_start (drop (utf8_width c) t) else t)"
  by pat_completeness auto
termination
  using utf8_width_pos by (relation "measure length") auto

declare trim_start.simps [simp del]

fun quoted_end :: "char \<Rightarrow> bool \<Rightarrow> string \<Rightarrow> string option" where
  "quoted_end d escaped [] = None"
| "quoted_end d escaped (c # r) =
     (if escaped then quoted_end d False r
      else if c = backslash_char then quoted_end d True r
      else if c = d then Some r else quoted_end d False r)"

text \<open>The slice after the closing delimiter starts after an ASCII byte.\<close>

definition complete_quoted_literal :: "string \<Rightarrow> char \<Rightarrow> bool" where
  "complete_quoted_literal raw d = (case raw of [] \<Rightarrow> False
     | c # r \<Rightarrow> c = d \<and> (case quoted_end d False r of None \<Rightarrow> False | Some t \<Rightarrow> trim_start t = []))"

definition call_spelling :: "string \<Rightarrow> string \<Rightarrow> bool" where
  "call_spelling raw name \<longleftrightarrow> starts_with raw name \<and> starts_with (trim_start (drop (length name) raw)) ''(''"

text \<open>What \<open>str::parse::<f64>\<close> accepts.\<close>

definition strip_sign :: "string \<Rightarrow> string" where
  "strip_sign t = (case t of [] \<Rightarrow> [] | c # r \<Rightarrow> if c = CHR ''+'' \<or> c = CHR ''-'' then r else t)"

definition ascii_lower :: "char \<Rightarrow> char" where
  "ascii_lower c = (if 65 \<le> byte c \<and> byte c \<le> 90 then char_of (byte c + 32) else c)"

definition exponent_spelling :: "string \<Rightarrow> bool" where
  "exponent_spelling t = (case t of [] \<Rightarrow> True
     | c # r \<Rightarrow> ascii_lower c = CHR ''e'' \<and> strip_sign r \<noteq> [] \<and> list_all is_digit (strip_sign r))"

definition number_spelling :: "string \<Rightarrow> bool" where
  "number_spelling t = (let i = takeWhile is_digit t; r = dropWhile is_digit t in
     if starts_with r ''.'' then (let f = takeWhile is_digit (tl r) in
         (i \<noteq> [] \<or> f \<noteq> []) \<and> exponent_spelling (dropWhile is_digit (tl r)))
     else i \<noteq> [] \<and> exponent_spelling r)"

definition f64_spelling :: "string \<Rightarrow> bool" where
  "f64_spelling t = (let u = strip_sign t in
     map ascii_lower u \<in> {''inf'', ''infinity'', ''nan''} \<or> number_spelling u)"

definition identifier_spelling :: "string \<Rightarrow> bool" where
  "identifier_spelling raw \<longleftrightarrow> list_all ident_byte raw \<and> (raw = [] \<or> \<not> is_digit (hd raw))"

definition classify_value :: "string \<Rightarrow> map_value_kind" where
  "classify_value raw =
     (if complete_quoted_literal raw quote_char then KindText
      else if complete_quoted_literal raw apostrophe_char then KindResource
      else if call_spelling raw ''list'' \<or> call_spelling raw ''newlist'' then KindList
      else if starts_with raw ''/'' then KindPath
      else if raw = ''null'' then KindNull
      else if f64_spelling raw then KindNumber
      else if identifier_spelling raw then KindIdentifier
      else KindExpression)"

section \<open>Variable blocks\<close>

definition trimmed_range :: "string \<Rightarrow> nat \<Rightarrow> nat \<Rightarrow> (nat \<times> nat) option" where
  "trimmed_range s a b = (let a' = a + length (takeWhile ascii_space (take (b - a) (drop a s)));
       b' = b - length (takeWhile ascii_space (rev (take (b - a') (drop a' s)))) in
     if a' < b' then Some (a', b') else None)"

text \<open>\<open>find_assignment_equals\<close> over the bytes of its range, \<open>pos\<close> being the offset of the first.\<close>

fun find_equals :: "char option \<Rightarrow> bool \<Rightarrow> nat \<Rightarrow> nat \<Rightarrow> string \<Rightarrow> nat option" where
  "find_equals q escaped depth pos [] = None"
| "find_equals q escaped depth pos (c # r) = (case q of
       Some d \<Rightarrow>
         if escaped then find_equals q False depth (pos + 1) r
         else if c = backslash_char then find_equals q True depth (pos + 1) r
         else if c = d then find_equals None escaped depth (pos + 1) r
         else find_equals q escaped depth (pos + 1) r
     | None \<Rightarrow>
         if c = quote_char \<or> c = apostrophe_char then find_equals (Some c) escaped depth (pos + 1) r
         else if c \<in> set ''([{'' then find_equals q escaped (depth + 1) (pos + 1) r
         else if c \<in> set '')]}'' then find_equals q escaped (depth - 1) (pos + 1) r
         else if c = CHR ''='' \<and> depth = 0 then Some pos
         else find_equals q escaped depth (pos + 1) r)"

definition find_assignment_equals :: "string \<Rightarrow> nat \<Rightarrow> nat \<Rightarrow> nat option" where
  "find_assignment_equals s a b = find_equals None False 0 a (take (b - a) (drop a s))"

definition push_variable_assignment :: "string \<Rightarrow> nat \<Rightarrow> nat \<Rightarrow> map_assignment list \<Rightarrow> map_assignment list map_result" where
  "push_variable_assignment s a0 b0 acc = (case trimmed_range s a0 b0 of
       None \<Rightarrow> Inr acc
     | Some (a, b) \<Rightarrow> (case find_assignment_equals s a b of
           None \<Rightarrow> Inl (error_at a b MissingEquals)
         | Some equals \<Rightarrow> (case trimmed_range s a equals of
               None \<Rightarrow> Inl (error_at a equals MissingTarget)
             | Some (name_a, name_b) \<Rightarrow> (case trimmed_range s (equals + 1) b of
                   None \<Rightarrow> Inl (error_at (equals + 1) b MissingValue)
                 | Some (value_a, value_b) \<Rightarrow>
                     res_bind (map_slice s value_a value_b) (\<lambda>raw_value.
                     res_bind (map_slice s name_a name_b) (\<lambda>name.
                     res_bind (map_span name_a name_b) (\<lambda>name_span.
                     res_bind (map_span value_a value_b) (\<lambda>value_span.
                     res_bind (map_slice s a b) (\<lambda>raw.
                     res_bind (map_span a b) (\<lambda>span.
                       Inr (acc @ [\<lparr>as_name = name, as_name_span = name_span,
                         as_value = \<lparr>mv_kind = classify_value raw_value, mv_raw = raw_value, mv_span = value_span\<rparr>,
                         as_raw = raw, as_span = span\<rparr>])))))))))))"

text \<open>The flags of both scanners.\<close>

record scan =
  sc_quote :: "char option"
  sc_escaped :: bool
  sc_line :: bool
  sc_block :: bool

definition scan_start :: scan where
  "scan_start = \<lparr>sc_quote = None, sc_escaped = False, sc_line = False, sc_block = False\<rparr>"

text \<open>One byte inside a quoted literal.\<close>

definition scan_quoted :: "char \<Rightarrow> char \<Rightarrow> scan \<Rightarrow> scan" where
  "scan_quoted d c sc = (if sc_escaped sc then sc\<lparr>sc_escaped := False\<rparr>
     else if c = backslash_char then sc\<lparr>sc_escaped := True\<rparr>
     else if c = d then sc\<lparr>sc_quote := None\<rparr> else sc)"

record vars_scan =
  vs_segment :: nat
  vs_delimiters :: "(char \<times> nat) list"
  vs_scan :: scan
  vs_assignments :: "map_assignment list"

definition delimiters_match :: "char \<Rightarrow> char \<Rightarrow> bool" where
  "delimiters_match opening closing \<longleftrightarrow> (opening, closing) \<in> {(CHR ''('', CHR '')''), (CHR ''['', CHR '']''), (CHR ''{'', CHR ''}'')}"

text \<open>A byte outside quotes and comments; \<open>Inr\<close> is the next offset and state.\<close>

definition vars_plain :: "string \<Rightarrow> char \<Rightarrow> nat \<Rightarrow> vars_scan \<Rightarrow> (nat \<times> vars_scan) map_result" where
  "vars_plain s c pos vs =
     (if c = CHR ''/'' \<and> peek s (pos + 1) = Some (CHR ''/'')
      then Inr (pos + 2, vs\<lparr>vs_scan := (vs_scan vs)\<lparr>sc_line := True\<rparr>\<rparr>)
      else if c = CHR ''/'' \<and> peek s (pos + 1) = Some (CHR ''*'')
      then Inr (pos + 2, vs\<lparr>vs_scan := (vs_scan vs)\<lparr>sc_block := True\<rparr>\<rparr>)
      else if c = quote_char \<or> c = apostrophe_char
      then Inr (pos + 1, vs\<lparr>vs_scan := (vs_scan vs)\<lparr>sc_quote := Some c\<rparr>\<rparr>)
      else if c \<in> set ''([{'' then Inr (pos + 1, vs\<lparr>vs_delimiters := vs_delimiters vs @ [(c, pos)]\<rparr>)
      else if c \<in> set '')]}'' then
        (if vs_delimiters vs = [] then Inl (error_at pos (pos + 1) (UnexpectedDelimiter c))
         else if \<not> delimiters_match (fst (last (vs_delimiters vs))) c
         then Inl (error_at pos (pos + 1) (MismatchedDelimiter c))
         else Inr (pos + 1, vs\<lparr>vs_delimiters := butlast (vs_delimiters vs)\<rparr>))
      else if c = CHR '';'' \<and> vs_delimiters vs = [] then
        res_bind (push_variable_assignment s (vs_segment vs) pos (vs_assignments vs)) (\<lambda>acc.
          Inr (pos + 1, vs\<lparr>vs_assignments := acc, vs_segment := pos + 1\<rparr>))
      else Inr (pos + 1, vs))"

definition vars_step :: "string \<Rightarrow> nat \<Rightarrow> vars_scan \<Rightarrow> (nat \<times> vars_scan) map_result" where
  "vars_step s pos vs = (let c = s ! pos; sc = vs_scan vs in
     if sc_line sc then Inr (pos + 1, if c = nl_char then vs\<lparr>vs_scan := sc\<lparr>sc_line := False\<rparr>\<rparr> else vs)
     else if sc_block sc then
       (if c = CHR ''*'' \<and> peek s (pos + 1) = Some (CHR ''/'') then Inr (pos + 2, vs\<lparr>vs_scan := sc\<lparr>sc_block := False\<rparr>\<rparr>)
        else Inr (pos + 1, vs))
     else case sc_quote sc of
         Some d \<Rightarrow> Inr (pos + 1, vs\<lparr>vs_scan := scan_quoted d c sc\<rparr>)
       | None \<Rightarrow> vars_plain s c pos vs)"

lemma vars_step_moves: "vars_step s pos vs = Inr (q, vs') \<Longrightarrow> pos < q"
  by (auto simp: vars_step_def vars_plain_def Let_def res_bind_Inr_iff split: if_splits option.splits)

function vars_loop :: "string \<Rightarrow> nat \<Rightarrow> nat \<Rightarrow> vars_scan \<Rightarrow> vars_scan map_result" where
  "vars_loop s body_end pos vs = (if pos < body_end then (case vars_step s pos vs of
       Inl e \<Rightarrow> Inl e | Inr (q, vs') \<Rightarrow> vars_loop s body_end q vs') else Inr vs)"
  by pat_completeness auto
termination
  by (relation "measure (\<lambda>(s, body_end, pos, vs). body_end - pos)") (auto dest!: vars_step_moves)

declare vars_loop.simps [simp del]

definition finish_variable_assignments :: "string \<Rightarrow> nat \<Rightarrow> vars_scan \<Rightarrow> map_assignment list map_result" where
  "finish_variable_assignments s body_end vs =
     (if vs_delimiters vs \<noteq> [] then (let (opening, pos) = last (vs_delimiters vs) in
        Inl (error_at pos (pos + 1) (UnterminatedDelimiter opening)))
      else if sc_quote (vs_scan vs) \<noteq> None then Inl (error_at body_end body_end UnterminatedQuotedValue)
      else if sc_block (vs_scan vs) then Inl (error_at body_end body_end UnterminatedComment)
      else push_variable_assignment s (vs_segment vs) body_end (vs_assignments vs))"

definition parse_variable_assignments :: "string \<Rightarrow> nat \<Rightarrow> nat \<Rightarrow> map_assignment list map_result" where
  "parse_variable_assignments s body_start body_end = res_bind (vars_loop s body_end body_start
      \<lparr>vs_segment = body_start, vs_delimiters = [], vs_scan = scan_start, vs_assignments = []\<rparr>)
     (finish_variable_assignments s body_end)"

text \<open>One byte of a variable block with the bytes after it: the new flags and depth and the bytes
  consumed, or \<open>None\<close> at the closing brace.\<close>

definition brace_step :: "scan \<Rightarrow> nat \<Rightarrow> char \<Rightarrow> string \<Rightarrow> (scan \<times> nat \<times> nat) option" where
  "brace_step sc depth c r =
     (if sc_line sc then Some (if c = nl_char then sc\<lparr>sc_line := False\<rparr> else sc, depth, 1)
      else if sc_block sc then
        (if c = CHR ''*'' \<and> starts_with r ''/'' then Some (sc\<lparr>sc_block := False\<rparr>, depth, 2) else Some (sc, depth, 1))
      else case sc_quote sc of
          Some d \<Rightarrow> Some (scan_quoted d c sc, depth, 1)
        | None \<Rightarrow>
            if c = CHR ''/'' \<and> starts_with r ''/'' then Some (sc\<lparr>sc_line := True\<rparr>, depth, 2)
            else if c = CHR ''/'' \<and> starts_with r ''*'' then Some (sc\<lparr>sc_block := True\<rparr>, depth, 2)
            else if c = quote_char \<or> c = apostrophe_char then Some (sc\<lparr>sc_quote := Some c\<rparr>, depth, 1)
            else if c = CHR ''{'' then Some (sc, depth + 1, 1)
            else if c = CHR ''}'' then (if depth = 1 then None else Some (sc, depth - 1, 1))
            else Some (sc, depth, 1))"

lemma brace_step_moves: "brace_step sc depth c r = Some (sc', depth', n) \<Longrightarrow> 0 < n \<and> n \<le> length (c # r)"
  by (cases r) (auto simp: brace_step_def split: if_splits option.splits)

text \<open>The end of a variable block, given the bytes ahead; \<open>None\<close> where the source ends first.\<close>

function scan_brace :: "scan \<Rightarrow> nat \<Rightarrow> nat \<Rightarrow> string \<Rightarrow> nat option" where
  "scan_brace sc depth pos [] = None"
| "scan_brace sc depth pos (c # r) = (case brace_step sc depth c r of
       None \<Rightarrow> Some pos
     | Some (sc', depth', n) \<Rightarrow> scan_brace sc' depth' (pos + n) (drop n (c # r)))"
  by pat_completeness auto
termination
  by (relation "measure (\<lambda>(sc, depth, pos, r). length r)") (auto dest: brace_step_moves)

lemma scan_brace_ge: "scan_brace sc depth pos r = Some e \<Longrightarrow> pos \<le> e \<and> e < pos + length r"
proof (induction sc depth pos r rule: scan_brace.induct)
  case (2 sc depth pos c r)
  show ?case
  proof (cases "brace_step sc depth c r")
    case (Some x)
    obtain sc' depth' n where x: "x = (sc', depth', n)" by (cases x)
    have "scan_brace sc' depth' (pos + n) (drop n (c # r)) = Some e" using 2(2) Some x by simp
    from 2(1) [OF Some [unfolded x] refl refl this] brace_step_moves [OF Some [unfolded x]]
    show ?thesis by auto
  qed (use 2 in simp)
qed simp

section \<open>What a parsing step gives\<close>

definition gives :: "('a \<Rightarrow> bool) \<Rightarrow> 'a map_result \<Rightarrow> bool" where
  "gives Q m \<longleftrightarrow> (\<forall>x. m = Inr x \<longrightarrow> Q x)"

lemma gives_bind: "gives P m \<Longrightarrow> (\<And>x. P x \<Longrightarrow> gives Q (f x)) \<Longrightarrow> gives Q (res_bind m f)"
  by (auto simp: gives_def res_bind_Inr_iff)

lemma gives_simps [simp]: "gives Q (Inl e)" "gives Q (Inr x) = Q x"
  by (simp_all add: gives_def)

lemma gives_mono: "gives P m \<Longrightarrow> (\<And>x. P x \<Longrightarrow> Q x) \<Longrightarrow> gives Q m"
  by (simp add: gives_def)

lemma givesD: "gives Q m \<Longrightarrow> m = Inr x \<Longrightarrow> Q x"
  by (simp add: gives_def)

lemma gives_any: "gives (\<lambda>_. True) (map_span a b)" "gives (\<lambda>_. True) (map_slice s a b)"
  "gives (\<lambda>_. True) (parse_variable_assignments s a b)"
  by (simp_all add: gives_def)

section \<open>Keys\<close>

definition path_byte :: "char \<Rightarrow> bool" where
  "path_byte c \<longleftrightarrow> \<not> ascii_space c \<and> c \<notin> set ''{,)''"

definition parse_atom :: "string \<Rightarrow> nat \<Rightarrow> (atom_initializer \<times> nat) map_result" where
  "parse_atom s start = (if peek s start \<noteq> Some (CHR ''/'') then Inl (error_at start start AtomNotAbsolute)
     else let q = skip_while path_byte s start in
       res_bind (map_slice s start q) (\<lambda>path.
       res_bind (skip_space_and_comments s q) (\<lambda>q. case consume (CHR ''{'') s q of
           None \<Rightarrow> res_bind (map_span start q) (\<lambda>span.
             Inr (\<lparr>at_path = path, at_variables = None, at_assignments = [], at_span = span\<rparr>, q))
         | Some body_start \<Rightarrow> (case scan_brace scan_start 1 body_start (drop body_start s) of
               None \<Rightarrow> Inl (error_at (length s) (length s) UnterminatedVariables)
             | Some e \<Rightarrow>
                 res_bind (map_slice s body_start e) (\<lambda>body.
                 res_bind (parse_variable_assignments s body_start e) (\<lambda>assignments.
                 res_bind (map_span start (e + 1)) (\<lambda>span.
                   Inr (\<lparr>at_path = path, at_variables = Some body, at_assignments = assignments, at_span = span\<rparr>,
                     e + 1))))))))"

lemma skip_space_ge: "gives (\<lambda>q. pos \<le> q) (skip_space_and_comments s pos)"
proof (induction s pos rule: skip_space_and_comments.induct)
  case (1 s pos)
  let ?q = "skip_while ascii_space s pos"
  have q: "pos \<le> ?q" "?q \<le> skip_while (\<lambda>c. c \<noteq> nl_char) s ?q" by (rule skip_while_ge)+
  show ?case
  proof (cases "map_rest s ?q")
    case (Inr r)
    then show ?thesis using 1 [OF refl Inr] q gives_mono [of _ _ "\<lambda>x. pos \<le> x"]
      by (subst skip_space_and_comments.simps) (auto simp: Let_def)
  qed (subst skip_space_and_comments.simps, simp add: Let_def)
qed

lemma parse_atom_moves: "gives (\<lambda>(a, q). pos < q) (parse_atom s pos)"
proof (cases "peek s pos = Some (CHR ''/'')")
  case True
  then obtain t where "drop pos s = CHR ''/'' # t" "pos < length s"
    by (auto simp: peek_def Cons_nth_drop_Suc [symmetric] split: if_splits)
  then have q: "pos < skip_while path_byte s pos" by (simp add: skip_while_def path_byte_def ascii_space_def byte_def)
  show ?thesis unfolding parse_atom_def Let_def using True q
    by (auto simp: consume_def intro!: gives_bind [OF gives_any(1)] gives_bind [OF gives_any(2)]
        gives_bind [OF gives_any(3)] gives_bind [OF skip_space_ge]
        dest!: scan_brace_ge split: option.split)
qed (simp add: parse_atom_def)

function atoms_loop :: "string \<Rightarrow> nat \<Rightarrow> atom_initializer list \<Rightarrow> (atom_initializer list \<times> nat) map_result" where
  "atoms_loop s pos atoms = (case skip_space_and_comments s pos of
       Inl e \<Rightarrow> Inl e
     | Inr q \<Rightarrow> (case consume (CHR '')'') s q of
           Some q \<Rightarrow> Inr (atoms, q)
         | None \<Rightarrow> (case parse_atom s q of
               Inl e \<Rightarrow> Inl e
             | Inr (atom, q) \<Rightarrow> (case skip_space_and_comments s q of
                   Inl e \<Rightarrow> Inl e
                 | Inr q \<Rightarrow> (case consume (CHR '','') s q of
                       Some q \<Rightarrow> atoms_loop s q (atoms @ [atom])
                     | None \<Rightarrow> res_bind (expect (CHR '')'') s q) (\<lambda>q. Inr (atoms @ [atom], q)))))))"
  by pat_completeness auto
termination
  by (relation "measure (\<lambda>(s, pos, atoms). length s - pos)")
    (auto simp: consume_def peek_def dest!: givesD [OF skip_space_ge] givesD [OF parse_atom_moves] split: if_splits)

declare atoms_loop.simps [simp del]

definition parse_key :: "string \<Rightarrow> nat \<Rightarrow> (key_definition \<times> nat) map_result" where
  "parse_key s start = res_bind (quoted_string s start) (\<lambda>(key, q).
     res_bind (skip_space_and_comments s q) (\<lambda>q.
     res_bind (expect (CHR ''='') s q) (\<lambda>q.
     res_bind (skip_space_and_comments s q) (\<lambda>q.
     res_bind (expect (CHR ''('') s q) (\<lambda>q.
     res_bind (atoms_loop s q []) (\<lambda>(atoms, q).
     res_bind (map_span start q) (\<lambda>span.
       Inr (\<lparr>kd_key = key, kd_atoms = atoms, kd_span = span\<rparr>, q))))))))"

section \<open>Blocks\<close>

text \<open>\<open>str::lines\<close>: a final line break ends the last line, and a line loses \<open>\r\n\<close>.\<close>

definition strip_last :: "char \<Rightarrow> string \<Rightarrow> string" where
  "strip_last c t = (if t \<noteq> [] \<and> last t = c then butlast t else t)"

definition str_lines :: "string \<Rightarrow> string list" where
  "str_lines t = (let ls = split_char nl_char t; ended = map (strip_last cr_char) (butlast ls) in
     if last ls = [] then ended else ended @ [last ls])"

definition trim_end_cr :: "string \<Rightarrow> string" where
  "trim_end_cr t = rev (dropWhile (\<lambda>c. c = cr_char) (rev t))"

definition parse_block :: "string \<Rightarrow> nat \<Rightarrow> (map_block \<times> nat) map_result" where
  "parse_block s start = res_bind (expect (CHR ''('') s start) (\<lambda>q.
     res_bind (integer s q) (\<lambda>(x, q). res_bind (expect (CHR '','') s q) (\<lambda>q.
     res_bind (integer s q) (\<lambda>(y, q). res_bind (expect (CHR '','') s q) (\<lambda>q.
     res_bind (integer s q) (\<lambda>(z, q). res_bind (expect (CHR '')'') s q) (\<lambda>q.
     res_bind (skip_space_and_comments s q) (\<lambda>q.
     res_bind (expect (CHR ''='') s q) (\<lambda>q.
     res_bind (expect (CHR ''{'') s (skip_horizontal_space s q)) (\<lambda>q.
     res_bind (quoted_string s q) (\<lambda>(payload, q).
     res_bind (expect (CHR ''}'') s q) (\<lambda>q.
     res_bind (map_span start q) (\<lambda>span.
       Inr (\<lparr>mb_x = x, mb_y = y, mb_z = z,
         mb_rows = map (\<lambda>line. [trim_end_cr line]) (filter (\<lambda>line. line \<noteq> []) (str_lines payload)),
         mb_span = span\<rparr>, q))))))))))))))"

lemma expect_moves: "gives (\<lambda>q. q = pos + 1 \<and> peek s pos = Some c) (expect c s pos)"
  by (simp add: expect_def consume_def)

lemma quoted_loop_ge: "gives (\<lambda>(t, q). pos < q) (quoted_loop s v segment pos)"
proof (induction s v segment pos rule: quoted_loop.induct)
  case (1 s v segment pos)
  show ?case
  proof (cases "peek s pos")
    case (Some b)
    consider "b = quote_char" | "b \<noteq> quote_char" "b \<noteq> backslash_char" | "b = backslash_char" by blast
    then show ?thesis
    proof cases
      case 1
      then show ?thesis using Some by (subst quoted_loop.simps) (auto intro!: gives_bind [OF gives_any(1)] gives_bind [OF gives_any(2)])
    next
      case 2
      then show ?thesis using Some 1(1) [OF Some 2]
        by (subst quoted_loop.simps) (auto split: sum.split option.split elim!: gives_mono)
    next
      case 3
      have step: "gives (\<lambda>(t, q). pos < q) (quoted_loop s (v @ p @ unescape c) (pos + 1 + length c) (pos + 1 + length c))"
        if "map_slice s segment pos = Inr p" "next_char s (pos + 1) = Inr (Some c)" for p c
        using 1(2) [OF Some _ _ that(1,2) refl] 3 by (auto elim!: gives_mono)
      then show ?thesis using Some 3
        by (subst quoted_loop.simps) (auto split: sum.split option.split)
    qed
  qed (subst quoted_loop.simps, simp)
qed

lemma quoted_string_ge: "gives (\<lambda>(t, q). pos < q) (quoted_string s pos)"
  unfolding quoted_string_def
  by (rule gives_bind [OF expect_moves]) (auto intro: gives_mono [OF quoted_loop_ge])

lemma atoms_loop_ge: "gives (\<lambda>(as', q). pos < q) (atoms_loop s pos atoms)"
proof (induction s pos atoms rule: atoms_loop.induct)
  case (1 s pos atoms)
  show ?case
  proof (cases "skip_space_and_comments s pos")
    case (Inr q)
    have q: "pos \<le> q" using givesD [OF skip_space_ge Inr] .
    show ?thesis
    proof (cases "consume (CHR '')'') s q")
      case None
      have "gives (\<lambda>(as', r). pos < r) (case parse_atom s q of Inl e \<Rightarrow> Inl e
        | Inr (atom, q) \<Rightarrow> (case skip_space_and_comments s q of
            Inl e \<Rightarrow> Inl e
          | Inr q \<Rightarrow> (case consume (CHR '','') s q of
                Some q \<Rightarrow> atoms_loop s q (atoms @ [atom])
              | None \<Rightarrow> res_bind (expect (CHR '')'') s q) (\<lambda>q. Inr (atoms @ [atom], q)))))"
      proof (cases "parse_atom s q")
        case p: (Inr x)
        obtain atom q1 where x: "x = (atom, q1)" by (cases x)
        have q1: "q < q1" using givesD [OF parse_atom_moves p] x by simp
        show ?thesis
        proof (cases "skip_space_and_comments s q1")
          case r: (Inr q2)
          have q2: "q1 \<le> q2" using givesD [OF skip_space_ge r] .
          show ?thesis
          proof (cases "consume (CHR '','') s q2")
            case n: None
            show ?thesis using p x r n q q1 q2 by (auto intro!: gives_bind [OF expect_moves])
          next
            case c: (Some q3)
            have "q3 = q2 + 1" using c by (auto simp: consume_def split: if_splits)
            then show ?thesis using 1 [OF Inr None p x [symmetric] r c] p x r c q q1 q2 by (auto elim!: gives_mono)
          qed
        qed (use p x in simp)
      qed simp
      then show ?thesis using Inr None by (subst atoms_loop.simps) simp
    qed (use Inr q in \<open>subst atoms_loop.simps, auto simp: consume_def split: if_splits\<close>)
  qed (subst atoms_loop.simps, simp)
qed

lemma parse_key_moves: "gives (\<lambda>(k, q). pos < q) (parse_key s pos)"
  unfolding parse_key_def
  by (auto intro!: gives_bind [OF quoted_string_ge] gives_bind [OF skip_space_ge] gives_bind [OF expect_moves]
      gives_bind [OF atoms_loop_ge] gives_bind [OF gives_any(1)] gives_bind [OF gives_any(2)])

lemma integer_ge: "gives (\<lambda>(n, q). pos \<le> q) (integer s pos)"
proof -
  have "pos \<le> skip_horizontal_space s pos" by (simp add: skip_horizontal_space_def skip_while_ge)
  moreover have "r \<le> skip_while is_digit s r" for r by (rule skip_while_ge)
  moreover have "Suc r \<le> skip_while is_digit s (Suc r)" for r by (rule skip_while_ge)
  ultimately show ?thesis
    by (auto simp: integer_def Let_def split: option.split intro!: gives_bind [OF gives_any(1)] gives_bind [OF gives_any(2)]) (meson Suc_leD le_trans)+
qed

lemma parse_block_moves: "gives (\<lambda>(b, q). pos < q) (parse_block s pos)"
proof -
  have h: "gives (\<lambda>q. r < q) (expect (CHR ''{'') s (skip_horizontal_space s r))" for r
    using skip_while_ge [of r] expect_moves [of "skip_horizontal_space s r" s "CHR ''{''"]
    by (auto simp: skip_horizontal_space_def less_Suc_eq_le elim!: gives_mono)
  show ?thesis unfolding parse_block_def
    by (auto intro!: gives_bind [OF quoted_string_ge] gives_bind [OF skip_space_ge] gives_bind [OF h]
      gives_bind [OF expect_moves [of _ _ "CHR ''(''"]] gives_bind [OF expect_moves [of _ _ "CHR '',''"]]
      gives_bind [OF expect_moves [of _ _ "CHR '')''"]] gives_bind [OF expect_moves [of _ _ "CHR ''=''"]]
      gives_bind [OF expect_moves [of _ _ "CHR ''}''"]] gives_bind [OF integer_ge] gives_bind [OF gives_any(1)] gives_bind [OF gives_any(2)])
qed

section \<open>The map\<close>

text \<open>Keys and blocks in source order, up to the end of the source.\<close>

function parse_loop :: "string \<Rightarrow> nat \<Rightarrow> (string \<rightharpoonup> key_definition) \<Rightarrow> nat option \<Rightarrow> map_block list
    \<Rightarrow> ((string \<rightharpoonup> key_definition) \<times> nat option \<times> map_block list \<times> nat) map_result" where
  "parse_loop s pos keys width blocks = (case skip_space_and_comments s pos of
       Inl e \<Rightarrow> Inl e
     | Inr q \<Rightarrow>
         if q = length s then Inr (keys, width, blocks, q)
         else if peek s q = Some quote_char then (case parse_key s q of
             Inl e \<Rightarrow> Inl e
           | Inr (d, q) \<Rightarrow>
               if kd_key d = [] then Inl (MapError EmptyKey (kd_span d))
               else if width \<noteq> None \<and> width \<noteq> Some (length (kd_key d)) then Inl (MapError NonUniformKeys (kd_span d))
               else if keys (kd_key d) \<noteq> None then Inl (error_at q q DuplicateKey)
               else parse_loop s q (keys(kd_key d \<mapsto> d)) (Some (length (kd_key d))) blocks)
         else if peek s q = Some (CHR ''('') then (case parse_block s q of
             Inl e \<Rightarrow> Inl e
           | Inr (b, q) \<Rightarrow> parse_loop s q keys width (blocks @ [b]))
         else Inl (error_at q q ExpectedDefinition))"
  by pat_completeness auto
termination
  by (relation "measure (\<lambda>(s, pos, keys, width, blocks). length s - pos)")
    (auto simp: peek_def dest!: givesD [OF skip_space_ge] givesD [OF parse_key_moves] givesD [OF parse_block_moves]
      split: if_splits)

declare parse_loop.simps [simp del]

text \<open>The keys of a row of text, cut at every multiple of the key width.\<close>

fun resolve_keys :: "(string \<rightharpoonup> key_definition) \<Rightarrow> nat \<Rightarrow> source_span \<Rightarrow> string \<Rightarrow> nat list \<Rightarrow> string list map_result" where
  "resolve_keys keys width span raw [] = Inr []"
| "resolve_keys keys width span raw (start # starts) =
     (if \<not> char_boundary raw start \<or> \<not> char_boundary raw (start + width) then Inl (MapError KeySplitsCharacter span)
      else res_bind (map_slice raw start (start + width)) (\<lambda>key.
        if keys key = None then Inl (MapError (UnknownKey key) span)
        else res_bind (resolve_keys keys width span raw starts) (\<lambda>ks. Inr (key # ks))))"

definition resolve_row :: "(string \<rightharpoonup> key_definition) \<Rightarrow> nat \<Rightarrow> source_span \<Rightarrow> string list \<Rightarrow> string list map_result" where
  "resolve_row keys width span row = (if row = [] then Inl MapPanic else let raw = last row in
     if length raw mod width \<noteq> 0 then Inl (MapError RowNotDivisible span)
     else res_bind (resolve_keys keys width span raw (map (\<lambda>i. i * width) [0..<length raw div width])) (\<lambda>ks.
       Inr (butlast row @ ks)))"

primrec map_each :: "('a \<Rightarrow> 'b map_result) \<Rightarrow> 'a list \<Rightarrow> 'b list map_result" where
  "map_each f [] = Inr []"
| "map_each f (x # xs) = res_bind (f x) (\<lambda>y. res_bind (map_each f xs) (\<lambda>ys. Inr (y # ys)))"

definition resolve_block :: "(string \<rightharpoonup> key_definition) \<Rightarrow> nat \<Rightarrow> map_block \<Rightarrow> map_block map_result" where
  "resolve_block keys width b = res_bind (map_each (resolve_row keys width (mb_span b)) (mb_rows b)) (\<lambda>rows.
     Inr (b\<lparr>mb_rows := rows\<rparr>))"

definition dmm_parse :: "string \<Rightarrow> dmm map_result" where
  "dmm_parse s = res_bind (parse_loop s 0 Map.empty None []) (\<lambda>(keys, width, blocks, q). case width of
       None \<Rightarrow> Inl (error_at q q NoKeys)
     | Some w \<Rightarrow> res_bind (map_each (resolve_block keys w) blocks) (\<lambda>blocks.
         Inr \<lparr>key_width = w, dmm_keys = keys, dmm_blocks = blocks\<rparr>))"

end
