(* ===== verification/DmmLaws.thy ===== *)
theory DmmLaws
  imports DmmParser
begin

text \<open>
  Laws of the map parser: on valid UTF-8 it never panics and every error lies inside the source;
  what it returns shows the source (spans, paths, assignments), and every grid cell names a key.
\<close>

section \<open>Offsets on character boundaries\<close>

definition on_char :: "string \<Rightarrow> nat \<Rightarrow> bool" where
  "on_char s pos \<longleftrightarrow> pos \<le> length s \<and> utf8_valid (drop pos s)"

lemma on_char_iff: "utf8_valid s \<Longrightarrow> on_char s pos \<longleftrightarrow> char_boundary s pos"
  using utf8_valid_split [of "take pos s" "drop pos s"] utf8_valid_first(4) [of "drop pos s"]
  by (cases "pos < length s") (auto simp: on_char_def char_boundary_def hd_drop_conv_nth)

lemma on_char_stop:
  assumes "utf8_valid s" "pos \<le> length s" "pos < length s \<Longrightarrow> \<not> utf8_cont (s ! pos)"
  shows "on_char s pos"
  using assms by (simp add: on_char_iff char_boundary_def)

lemma on_char_Suc:
  assumes "on_char s pos" "pos < length s" "ascii (s ! pos)"
  shows "on_char s (Suc pos)"
proof -
  have "drop pos s = s ! pos # drop (Suc pos) s" using assms(2) by (rule Cons_nth_drop_Suc [symmetric])
  then show ?thesis using assms utf8_valid_ascii_Cons [of "s ! pos" "drop (Suc pos) s"] by (simp add: on_char_def)
qed

lemma on_char_peek: "on_char s pos \<Longrightarrow> peek s pos = Some c \<Longrightarrow> ascii c \<Longrightarrow> on_char s (Suc pos)"
  using on_char_Suc by (simp add: peek_def split: if_splits)

lemma map_slice_ok:
  "utf8_valid s \<Longrightarrow> on_char s a \<Longrightarrow> on_char s b \<Longrightarrow> a \<le> b \<Longrightarrow> map_slice s a b = Inr (take (b - a) (drop a s))"
  by (simp add: map_slice_def slice_def on_char_iff char_boundary_def)

lemma on_char_takeWhile:
  assumes "on_char s pos" "\<And>c. p c \<Longrightarrow> ascii c"
  shows "on_char s (skip_while p s pos)"
proof -
  have "utf8_valid (drop (length (takeWhile p t)) t)" if "utf8_valid t" for t
    using that
  proof (induction t)
    case (Cons c t)
    then show ?case using assms(2) [of c] by (auto simp: utf8_valid_ascii_Cons)
  qed simp
  from this [of "drop pos s"] assms(1) show ?thesis
    using length_takeWhile_le [of p "drop pos s"]
    by (simp add: on_char_def skip_while_def add.commute) (metis Nat.le_diff_conv2 add.commute)
qed

lemma on_char_skip_until:
  assumes "utf8_valid s" "pos \<le> length s" "\<And>c. \<not> p c \<Longrightarrow> \<not> utf8_cont c"
  shows "on_char s (skip_while p s pos)"
proof (rule on_char_stop [OF assms(1)])
  let ?n = "length (takeWhile p (drop pos s))"
  show "skip_while p s pos \<le> length s"
    using length_takeWhile_le [of p "drop pos s"] assms(2) by (simp add: skip_while_def)
  assume "skip_while p s pos < length s"
  then have "?n < length (drop pos s)" by (simp add: skip_while_def)
  from nth_length_takeWhile [OF this] assms(2,3) show "\<not> utf8_cont (s ! skip_while p s pos)"
    by (simp add: skip_while_def)
qed

section \<open>Safe results\<close>

text \<open>No panic, error spans inside the source, and a result that satisfies \<open>Q\<close>.\<close>

fun failure_inside :: "string \<Rightarrow> map_failure \<Rightarrow> bool" where
  "failure_inside s (MapError e sp) \<longleftrightarrow> span_start sp \<le> span_end sp \<and> span_end sp \<le> length s"
| "failure_inside s MapPanic \<longleftrightarrow> False"

abbreviation safe :: "string \<Rightarrow> ('a \<Rightarrow> bool) \<Rightarrow> 'a map_result \<Rightarrow> bool" where
  "safe s \<equiv> satisfies (failure_inside s)"

lemmas safe_bind = satisfies_bind [where E = "failure_inside s" for s]
lemmas safe_bind_eq = satisfies_bind_eq [where E = "failure_inside s" for s]
lemmas safe_mono = satisfies_mono [where E = "failure_inside s" for s]
lemmas safe_Inr = satisfies_Inr [where E = "failure_inside s" for s]

lemma safe_Inl: "safe s Q m \<Longrightarrow> m = Inl e \<Longrightarrow> safe s P (Inl e)"
  by simp

lemma error_at_safe [simp]: "a \<le> b \<Longrightarrow> b \<le> length s \<Longrightarrow> failure_inside s (error_at a b e)"
  by (simp add: error_at_def source_span_new_def)

lemma map_span_ok: "a \<le> b \<Longrightarrow> map_span a b = Inr \<lparr>span_start = a, span_end = b\<rparr>"
  by (simp add: map_span_def source_span_new_def)

lemma map_rest_ok: "utf8_valid s \<Longrightarrow> on_char s pos \<Longrightarrow> map_rest s pos = Inr (drop pos s)"
  using map_slice_ok [of s pos "length s"] by (simp add: map_rest_def on_char_def)

lemma ascii_space_ascii: "ascii_space c \<Longrightarrow> ascii c"
  by (auto simp: ascii_space_def ascii_def)

lemma nl_not_cont: "\<not> utf8_cont nl_char"
  by (simp add: utf8_cont_def byte_def)

lemma skip_space_safe:
  assumes v: "utf8_valid s" and pos: "on_char s pos"
  shows "safe s (\<lambda>q. pos \<le> q \<and> on_char s q) (skip_space_and_comments s pos)"
  using v pos
proof (induction s pos rule: skip_space_and_comments.induct)
  case (1 s pos)
  let ?q = "skip_while ascii_space s pos"
  let ?e = "skip_while (\<lambda>c. c \<noteq> nl_char) s ?q"
  have q: "on_char s ?q" "pos \<le> ?q" "?q \<le> ?e"
    using on_char_takeWhile [OF 1(3) ascii_space_ascii] skip_while_ge by auto
  have e: "on_char s ?e"
    using on_char_skip_until [OF 1(2), of ?q "\<lambda>c. c \<noteq> nl_char"] q(1) nl_not_cont by (auto simp: on_char_def)
  note r = map_rest_ok [OF 1(2) q(1)]
  show ?case
  proof (cases "starts_with (drop ?q s) ''//''")
    case True
    from 1(1) [OF refl r True 1(2) e] show ?thesis
      using r True q by (subst skip_space_and_comments.simps) (auto simp: Let_def elim!: safe_mono)
  qed (use r q in \<open>subst skip_space_and_comments.simps, simp add: Let_def\<close>)
qed

lemma expect_safe:
  "ascii c \<Longrightarrow> on_char s pos \<Longrightarrow> safe s (\<lambda>q. q = Suc pos \<and> on_char s q \<and> peek s pos = Some c) (expect c s pos)"
  using on_char_peek [of s pos c] by (auto simp: expect_def consume_def on_char_def)

lemma consume_on_char: "consume c s pos = Some q \<Longrightarrow> on_char s pos \<Longrightarrow> ascii c \<Longrightarrow> q = Suc pos \<and> on_char s q"
  using on_char_peek [of s pos c] by (auto simp: consume_def split: if_splits)

lemma next_char_ok:
  assumes "utf8_valid s" "on_char s pos"
  shows "next_char s pos = Inr (if pos = length s then None else Some (take (utf8_width (s ! pos)) (drop pos s)))"
    "pos < length s \<Longrightarrow> on_char s (pos + length (take (utf8_width (s ! pos)) (drop pos s)))"
proof -
  show "next_char s pos = Inr (if pos = length s then None else Some (take (utf8_width (s ! pos)) (drop pos s)))"
    using assms map_rest_ok [OF assms] by (auto simp: next_char_def on_char_def hd_drop_conv_nth)
  assume "pos < length s"
  then show "on_char s (pos + length (take (utf8_width (s ! pos)) (drop pos s)))"
    using utf8_valid_first(1,2) [of "drop pos s"] assms(2)
    by (auto simp: on_char_def hd_drop_conv_nth min_def add.commute)
qed

lemma quoted_loop_safe:
  assumes "utf8_valid s" "on_char s segment" "segment \<le> pos" "on_char s pos" 
  shows "safe s (\<lambda>(t, q). pos < q \<and> on_char s q) (quoted_loop s v segment pos)"
  using assms
proof (induction s v segment pos rule: quoted_loop.induct)
  case (1 s v segment pos)
  have slice: "map_slice s segment pos = Inr (take (pos - segment) (drop segment s))"
    using map_slice_ok 1 by blast
  show ?case
  proof (cases "peek s pos")
    case None
    then show ?thesis using 1(6) by (subst quoted_loop.simps) (auto simp: on_char_def)
  next
    case (Some b)
    then have b: "pos < length s" "s ! pos = b" by (auto simp: peek_def split: if_splits)
    consider "b = quote_char" | "b \<noteq> quote_char" "b \<noteq> backslash_char" | "b = backslash_char" by blast
    then show ?thesis
    proof cases
      case 1
      then show ?thesis using Some slice on_char_peek [OF \<open>on_char s pos\<close> Some]
        by (subst quoted_loop.simps) (auto simp: ascii_def byte_def)
    next
      case 2
      let ?c = "take (utf8_width (s ! pos)) (drop pos s)"
      have c: "next_char s pos = Inr (Some ?c)" "on_char s (pos + length ?c)"
        using next_char_ok [OF 1(3,6)] b by simp_all
      from 1(1) [OF Some 2 c(1) refl 1(3,4) _ c(2)] 1(5) show ?thesis
        using Some 2 c(1) by (subst quoted_loop.simps) (auto elim!: safe_mono)
    next
      case 3
      have suc: "on_char s (pos + 1)" using on_char_peek [OF 1(6) Some] 3 by (simp add: ascii_def byte_def)
      let ?c = "take (utf8_width (s ! (pos + 1))) (drop (pos + 1) s)"
      have nq: "\<not> b = quote_char" "\<not> b \<noteq> backslash_char" using 3 by simp_all
      show ?thesis
      proof (cases "pos + 1 = length s")
        case True
        then show ?thesis using Some nq slice next_char_ok(1) [OF 1(3) suc]
          by (subst quoted_loop.simps) simp
      next
        case False
        then have c: "next_char s (pos + 1) = Inr (Some ?c)" "on_char s (pos + 1 + length ?c)"
          using next_char_ok [OF 1(3) suc] b by simp_all
        from 1(2) [OF Some nq slice c(1) refl 1(3) c(2) order_refl c(2)] show ?thesis
          using Some nq slice c(1) by (subst quoted_loop.simps) (auto elim!: safe_mono)
      qed
    qed
  qed
qed

lemma quoted_string_safe:
  assumes "utf8_valid s" "on_char s pos"
  shows "safe s (\<lambda>(t, q). pos < q \<and> on_char s q) (quoted_string s pos)"
  unfolding quoted_string_def
  by (rule safe_bind [OF expect_safe [OF _ assms(2)]])
    (auto simp: ascii_def byte_def intro: assms safe_mono [OF quoted_loop_safe])

lemma ascii_chars [simp]:
  "ascii quote_char" "ascii apostrophe_char" "ascii (CHR ''('')" "ascii (CHR '')'')" "ascii (CHR ''{'')" "ascii (CHR ''}'')"
  "ascii (CHR '','')" "ascii (CHR ''='')" "ascii (CHR '';'')" "ascii (CHR ''-'')" "ascii (CHR ''/'')"
  by (simp_all add: ascii_def byte_def)

lemma is_digit_ascii: "is_digit c \<Longrightarrow> ascii c"
  by (simp add: is_digit_def ascii_def)

lemma skip_horizontal_ok: "on_char s pos \<Longrightarrow> on_char s (skip_horizontal_space s pos) \<and> pos \<le> skip_horizontal_space s pos"
proof -
  assume "on_char s pos"
  moreover have "ascii c" if "byte c \<in> {32, 9, 13, 10}" for c using that by (auto simp: ascii_def)
  ultimately show ?thesis unfolding skip_horizontal_space_def
    using on_char_takeWhile [of s pos "\<lambda>c. byte c \<in> {32, 9, 13, 10}"] skip_while_ge by presburger
qed

lemma integer_safe:
  assumes v: "utf8_valid s" and p: "on_char s pos"
  shows "safe s (\<lambda>(n, q). pos \<le> q \<and> on_char s q) (integer s pos)"
proof -
  let ?a = "skip_horizontal_space s pos"
  let ?m = "if peek s ?a = Some (CHR ''-'') then ?a + 1 else ?a"
  let ?q = "skip_while is_digit s ?m"
  have a: "on_char s ?a" "pos \<le> ?a" using skip_horizontal_ok [OF p] by simp_all
  then have m: "on_char s ?m" "?a \<le> ?m" using on_char_peek [of s ?a] by auto
  then have q: "on_char s ?q" "?m \<le> ?q" using on_char_takeWhile [OF m(1) is_digit_ascii] skip_while_ge by auto
  have "map_slice s ?a ?q = Inr (take (?q - ?a) (drop ?a s))" using map_slice_ok [OF v a(1) q(1)] m q by simp
  then show ?thesis using a m q unfolding integer_def Let_def
    by (auto simp: on_char_def split: option.split)
qed

section \<open>Assignments\<close>

definition range_of :: "string \<Rightarrow> nat \<Rightarrow> nat \<Rightarrow> string" where
  "range_of s a b = take (b - a) (drop a s)"

lemma range_of_split: "a \<le> b \<Longrightarrow> b \<le> c \<Longrightarrow> range_of s a c = range_of s a b @ range_of s b c"
proof -
  assume "a \<le> b" "b \<le> c"
  then obtain m n where "b = a + m" "c = a + m + n" by (metis le_add_diff_inverse)
  then show ?thesis by (simp add: range_of_def take_add add.commute)
qed

lemma length_range_of [simp]: "b \<le> length s \<Longrightarrow> length (range_of s a b) = b - a"
  by (simp add: range_of_def)

lemma range_of_one: "a < length s \<Longrightarrow> range_of s a (Suc a) = [s ! a]"
  by (simp add: range_of_def take_Suc_conv_app_nth hd_drop_conv_nth Suc_diff_le take_Suc)

lemma takeWhile_prefix:
  assumes "n = length (takeWhile p t)"
  shows "take n t = takeWhile p t" "list_all p (take n t)" "n \<le> length t" "n < length t \<Longrightarrow> \<not> p (t ! n)"
proof -
  show "take n t = takeWhile p t" using assms by (metis takeWhile_eq_take)
  then show "list_all p (take n t)" by (auto simp: list_all_iff dest: set_takeWhileD)
  show "n \<le> length t" using assms by (simp add: length_takeWhile_le)
  show "n < length t \<Longrightarrow> \<not> p (t ! n)" using assms nth_length_takeWhile [of p t] by simp
qed

lemma trimmed_range_spec:
  assumes t: "trimmed_range s a b = Some (x, y)" and b: "b \<le> length s"
  shows "a \<le> x \<and> x < y \<and> y \<le> b" "list_all ascii_space (range_of s a x)" "list_all ascii_space (range_of s y b)"
    "\<not> ascii_space (s ! x)" "\<not> ascii_space (s ! (y - 1))"
proof -
  define m n where "m = length (takeWhile ascii_space (range_of s a b))"
    and "n = length (takeWhile ascii_space (rev (range_of s x b)))"
  have x: "x = a + m" and y: "y = b - n" and xy: "x < y"
    using t by (auto simp: trimmed_range_def Let_def range_of_def m_def n_def split: if_splits)
  then show order: "a \<le> x \<and> x < y \<and> y \<le> b" by simp
  note M = takeWhile_prefix [OF m_def] and N = takeWhile_prefix [OF n_def]
  have "m \<le> b - a" using x order by linarith
  then have "range_of s a x = take m (range_of s a b)" using x by (simp add: range_of_def min_absorb1)
  then show "list_all ascii_space (range_of s a x)" using M(2) by simp
  show "\<not> ascii_space (s ! x)" 
  proof -
    have "m < b - a" "a + m < length s" using x order b by linarith+
    then show ?thesis using M(4) x b by (simp add: range_of_def)
  qed
  have split: "range_of s x b = range_of s x y @ range_of s y b" using range_of_split order by simp
  have "n \<le> b - x" using N(3) b by simp
  then have len: "length (range_of s y b) = n" using y order b by simp
  have "rev (range_of s y b) = take n (rev (range_of s x b))" unfolding split using len by simp
  then have "list_all ascii_space (rev (range_of s y b))" using N(2) by simp
  then show "list_all ascii_space (range_of s y b)" by simp
  have "rev (range_of s x b) ! n = rev (range_of s x y) ! 0" unfolding split using len order b by (simp add: nth_append)
  also have "\<dots> = range_of s x y ! (y - x - 1)" using order b by (simp add: rev_nth)
  also have "\<dots> = s ! (y - 1)"
  proof -
    have "x + (y - x - 1) = y - 1" "y - x - 1 < y - x" using order by linarith+
    then show ?thesis using order b by (simp add: range_of_def)
  qed
  finally have "rev (range_of s x b) ! n = s ! (y - 1)" .
  moreover have "n < b - x" using y order \<open>n \<le> b - x\<close> by linarith
  ultimately show "\<not> ascii_space (s ! (y - 1))" using N(4) b by simp
qed


lemma find_equals_spec:
  "find_equals q escaped depth pos t = Some e \<Longrightarrow> pos \<le> e \<and> e < pos + length t \<and> t ! (e - pos) = CHR ''=''"
proof (induction q escaped depth pos t rule: find_equals.induct)
  case (2 q escaped depth pos c r)
  have step: "pos \<le> e \<and> e < pos + length (c # r) \<and> (c # r) ! (e - pos) = CHR ''=''"
    if "pos + 1 \<le> e \<and> e < pos + 1 + length r \<and> r ! (e - (pos + 1)) = CHR ''=''"
  proof -
    have "e - pos = Suc (e - (pos + 1))" using that by linarith
    then show ?thesis using that by simp
  qed
  show ?case
    by (cases q; rule classical) (use 2 step in \<open>auto split: if_splits\<close>)
qed simp

lemma trimmed_range_on_char:
  assumes t: "trimmed_range s a b = Some (x, y)" and v: "utf8_valid s" and a: "on_char s a" and b: "on_char s b"
  shows "on_char s x" "on_char s y"
proof -
  have bl: "b \<le> length s" using b by (simp add: on_char_def)
  note T = trimmed_range_spec [OF t bl]
  have asc: "ascii_space (s ! i)" if "i < m" "l \<le> i" "list_all ascii_space (range_of s l m)" "m \<le> length s" for l i m
    using that by (auto simp: list_all_length range_of_def dest: spec [of _ "i - l"])
  have "on_char s i" if "a \<le> i" "i \<le> x" for i
    using that(1,2)
  proof (induction i rule: dec_induct)
    case (step i)
    then show ?case using on_char_Suc [of s i] asc [of i x a] T bl ascii_space_ascii by auto
  qed (use a in simp)
  then show "on_char s x" using T(1) by blast
  show "on_char s y"
  proof (cases "y < b")
    case True
    then have "ascii_space (s ! y)" using asc [of y b y] T(3) bl by simp
    then have "\<not> utf8_cont (s ! y)" using ascii_space_ascii ascii_not_cont by blast
    then show ?thesis using on_char_stop [OF v] T(1) bl by simp
  qed (use b T(1) in \<open>auto dest: antisym\<close>)
qed

text \<open>What an assignment shows of the source between \<open>lo\<close> and \<open>hi\<close>: its text, its target and its value
  are slices of it, only blanks stand around the equals sign, and the kind is that of the value.\<close>

definition shown :: "string \<Rightarrow> source_span \<Rightarrow> string \<Rightarrow> bool" where
  "shown s sp t \<longleftrightarrow> slice s (span_start sp) (span_end sp) = Some t"

definition assignment_ok :: "string \<Rightarrow> nat \<Rightarrow> nat \<Rightarrow> map_assignment \<Rightarrow> bool" where
  "assignment_ok s lo hi x \<longleftrightarrow> lo \<le> span_start (as_span x) \<and> span_end (as_span x) \<le> hi
     \<and> shown s (as_span x) (as_raw x) \<and> shown s (as_name_span x) (as_name x)
     \<and> shown s (mv_span (as_value x)) (mv_raw (as_value x))
     \<and> as_name x \<noteq> [] \<and> mv_raw (as_value x) \<noteq> [] \<and> mv_kind (as_value x) = classify_value (mv_raw (as_value x))
     \<and> (\<exists>u w. as_raw x = as_name x @ u @ ''='' @ w @ mv_raw (as_value x) \<and> list_all ascii_space (u @ w))"

lemma slice_range_of: "utf8_valid s \<Longrightarrow> on_char s a \<Longrightarrow> on_char s b \<Longrightarrow> a \<le> b \<Longrightarrow> slice s a b = Some (range_of s a b)"
  by (simp add: slice_def range_of_def on_char_iff char_boundary_def)


lemma range_of_head_space:
  assumes "list_all ascii_space (range_of s a x)" "\<not> ascii_space (s ! a)" "a \<le> x" "x \<le> length s"
  shows "x = a"
proof (rule ccontr)
  assume "x \<noteq> a"
  then have "0 < x - a" "range_of s a x ! 0 = s ! a" using assms(3,4) by (simp_all add: range_of_def)
  then have "s ! a \<in> set (range_of s a x)" using assms(4) by (metis length_range_of nth_mem)
  then show False using assms(1,2) by (simp add: list_all_iff)
qed

lemma range_of_last_space:
  assumes "list_all ascii_space (range_of s y b)" "\<not> ascii_space (s ! (b - 1))" "y \<le> b" "b \<le> length s"
  shows "y = b"
proof (rule ccontr)
  assume "y \<noteq> b"
  then have i: "b - y - 1 < length (range_of s y b)" "range_of s y b ! (b - y - 1) = s ! (y + (b - y - 1))"
    using assms(3,4) by (simp_all add: range_of_def)
  moreover have "y + (b - y - 1) = b - 1" using \<open>y \<noteq> b\<close> assms(3) by linarith
  ultimately have "s ! (b - 1) \<in> set (range_of s y b)" by (metis nth_mem)
  then show False using assms(1,2) by (simp add: list_all_iff)
qed

lemma assignment_at_equals:
  assumes v: "utf8_valid s" and ab: "trimmed_range s a0 b0 = Some (a, b)" and on: "on_char s a0" "on_char s b0"
    and lo: "lo \<le> a0" "b0 \<le> hi" and e: "e < b" "s ! e = CHR ''=''" "on_char s e" "on_char s (e + 1)"
    and n: "trimmed_range s a e = Some (na, nb)" and w: "trimmed_range s (e + 1) b = Some (va, vb)"
  shows "na = a \<and> vb = b \<and> a \<le> nb \<and> va \<le> b \<and> on_char s a \<and> on_char s b \<and> on_char s nb \<and> on_char s va"
    and "assignment_ok s lo hi \<lparr>as_name = range_of s a nb, as_name_span = \<lparr>span_start = a, span_end = nb\<rparr>,
      as_value = \<lparr>mv_kind = classify_value (range_of s va b), mv_raw = range_of s va b,
        mv_span = \<lparr>span_start = va, span_end = b\<rparr>\<rparr>,
      as_raw = range_of s a b, as_span = \<lparr>span_start = a, span_end = b\<rparr>\<rparr>"
proof -
  have b0: "b0 \<le> length s" using on by (simp add: on_char_def)
  note T = trimmed_range_spec [OF ab b0] and C = trimmed_range_on_char [OF ab v on]
  have bl: "b \<le> length s" and el: "e < length s" using T(1) b0 e(1) by linarith+
  note N = trimmed_range_spec [OF n less_imp_le [OF el]] and NC = trimmed_range_on_char [OF n v C(1) e(3)]
  note W = trimmed_range_spec [OF w bl] and WC = trimmed_range_on_char [OF w v e(4) C(2)]
  have na: "na = a" using range_of_head_space [OF N(2) T(4)] N(1) el by linarith
  have vb: "vb = b" using range_of_last_space [OF W(3) T(5)] W(1) bl by linarith
  show "na = a \<and> vb = b \<and> a \<le> nb \<and> va \<le> b \<and> on_char s a \<and> on_char s b \<and> on_char s nb \<and> on_char s va"
    using na vb C NC WC N(1) W(1) by auto
  have "range_of s a b = range_of s a nb @ range_of s nb e @ range_of s e (Suc e) @ range_of s (Suc e) va @ range_of s va b"
    using range_of_split [of a nb b] range_of_split [of nb e b] range_of_split [of e "Suc e" b]
      range_of_split [of "Suc e" va b] N(1) W(1) e na vb by simp
  then have raw: "range_of s a b = range_of s a nb @ range_of s nb e @ ''='' @ range_of s (Suc e) va @ range_of s va b"
    using range_of_one [OF el] e(2) by simp
  have "list_all ascii_space (range_of s nb e @ range_of s (Suc e) va)" using N(3) W(2) by simp
  with raw have shape: "\<exists>u w. range_of s a b = range_of s a nb @ u @ ''='' @ w @ range_of s va b
      \<and> list_all ascii_space (u @ w)" by blast
  have "range_of s a nb \<noteq> []" "range_of s va b \<noteq> []"
    using N(1) W(1) na vb el bl by (simp_all add: range_of_def)
  then show "assignment_ok s lo hi \<lparr>as_name = range_of s a nb, as_name_span = \<lparr>span_start = a, span_end = nb\<rparr>,
      as_value = \<lparr>mv_kind = classify_value (range_of s va b), mv_raw = range_of s va b,
        mv_span = \<lparr>span_start = va, span_end = b\<rparr>\<rparr>,
      as_raw = range_of s a b, as_span = \<lparr>span_start = a, span_end = b\<rparr>\<rparr>"
    using slice_range_of [OF v] C NC WC N(1) W(1) T(1) lo na vb shape
    by (simp add: assignment_ok_def shown_def less_imp_le)
qed

lemma push_variable_assignment_safe:
  assumes v: "utf8_valid s" and a0: "on_char s a0" and b0: "on_char s b0" and lo: "lo \<le> a0" "b0 \<le> hi"
    and acc: "list_all (assignment_ok s lo hi) acc"
  shows "safe s (list_all (assignment_ok s lo hi)) (push_variable_assignment s a0 b0 acc)"
proof (cases "trimmed_range s a0 b0")
  case (Some ab)
  obtain a b where ab: "trimmed_range s a0 b0 = Some (a, b)" using Some by (cases ab) auto
  have bl: "b0 \<le> length s" using b0 by (simp add: on_char_def)
  note T = trimmed_range_spec [OF ab bl]
  show ?thesis
  proof (cases "find_assignment_equals s a b")
    case None
    then show ?thesis using ab T(1) bl by (simp add: push_variable_assignment_def)
  next
    case eq: (Some e)
    have e: "a \<le> e" "e < b" "s ! e = CHR ''=''"
      using find_equals_spec [OF eq [unfolded find_assignment_equals_def]] T(1) bl by auto
    have el: "e < length s" using e T(1) bl by linarith
    have ce: "on_char s e" using on_char_stop [OF v, of e] el e(3) ascii_not_cont [of "CHR ''=''"] by simp
    have ce1: "on_char s (e + 1)" using on_char_Suc [OF ce el] e(3) by simp
    show ?thesis
    proof (cases "trimmed_range s a e = None \<or> trimmed_range s (e + 1) b = None")
      case True
      then show ?thesis using ab eq e el T(1) bl by (auto simp: push_variable_assignment_def split: option.split)
    next
      case False
      then obtain na nb va vb where nw: "trimmed_range s a e = Some (na, nb)" "trimmed_range s (e + 1) b = Some (va, vb)" by auto
      note A = assignment_at_equals [OF v ab a0 b0 lo e(2,3) ce ce1 nw]
      have "map_slice s x y = Inr (range_of s x y)" if "on_char s x" "on_char s y" "x \<le> y" for x y
        using map_slice_ok [OF v that] by (simp add: range_of_def)
      then show ?thesis using ab nw eq acc A T(1)
        by (simp add: push_variable_assignment_def map_span_ok less_imp_le)
    qed
  qed
qed (use acc in \<open>simp add: push_variable_assignment_def\<close>)


section \<open>Variable blocks\<close>

definition vars_inv :: "string \<Rightarrow> nat \<Rightarrow> nat \<Rightarrow> vars_scan \<Rightarrow> bool" where
  "vars_inv s lo hi vs \<longleftrightarrow> on_char s (vs_segment vs) \<and> lo \<le> vs_segment vs \<and> vs_segment vs \<le> hi
     \<and> list_all (assignment_ok s lo hi) (vs_assignments vs) \<and> list_all (\<lambda>d. snd d < length s) (vs_delimiters vs)"

lemma vars_inv_scan [simp]: "vars_inv s lo hi (vs\<lparr>vs_scan := sc\<rparr>) = vars_inv s lo hi vs"
  by (simp add: vars_inv_def)

lemma vars_inv_delimiters:
  "vars_inv s lo hi vs \<Longrightarrow> pos < length s \<Longrightarrow> vars_inv s lo hi (vs\<lparr>vs_delimiters := vs_delimiters vs @ [(c, pos)]\<rparr>)"
  "vars_inv s lo hi vs \<Longrightarrow> vars_inv s lo hi (vs\<lparr>vs_delimiters := butlast (vs_delimiters vs)\<rparr>)"
  by (auto simp: vars_inv_def list_all_iff dest: in_set_butlastD)

lemma vars_plain_safe:
  assumes v: "utf8_valid s" and hi: "hi \<le> length s" and pos: "lo \<le> pos" "pos < hi" and inv: "vars_inv s lo hi vs"
  shows "safe s (\<lambda>(q, vs'). vars_inv s lo hi vs') (vars_plain s (s ! pos) pos vs)"
proof (cases "s ! pos = CHR '';'' \<and> vs_delimiters vs = []")
  case True
  have c: "on_char s pos" using on_char_stop [OF v, of pos] True ascii_not_cont [of "CHR '';''"] pos hi by simp
  have c1: "on_char s (Suc pos)" using on_char_Suc [OF c] True pos hi by simp
  have "safe s (list_all (assignment_ok s lo hi)) (push_variable_assignment s (vs_segment vs) pos (vs_assignments vs))"
    using push_variable_assignment_safe [OF v _ c, of "vs_segment vs" lo hi] inv pos by (simp add: vars_inv_def)
  then have "safe s (\<lambda>(q, vs'). vars_inv s lo hi vs')
      (res_bind (push_variable_assignment s (vs_segment vs) pos (vs_assignments vs)) (\<lambda>acc.
        Inr (pos + 1, vs\<lparr>vs_assignments := acc, vs_segment := pos + 1\<rparr>)))"
    by (rule safe_bind) (use inv c1 pos in \<open>simp add: vars_inv_def\<close>)
  then show ?thesis using True by (simp add: vars_plain_def)
next
  case False
  then show ?thesis using inv pos hi vars_inv_delimiters [OF inv] by (auto simp: vars_plain_def)
qed

lemma vars_step_safe:
  assumes "utf8_valid s" "hi \<le> length s" "lo \<le> pos" "pos < hi" "vars_inv s lo hi vs"
  shows "safe s (\<lambda>(q, vs'). vars_inv s lo hi vs') (vars_step s pos vs)"
  using vars_plain_safe [OF assms] assms(5) unfolding vars_step_def Let_def
  by (cases "sc_line (vs_scan vs)"; cases "sc_block (vs_scan vs)"; cases "sc_quote (vs_scan vs)") simp_all

lemma vars_loop_safe:
  assumes "utf8_valid s" "hi \<le> length s" "lo \<le> pos" "vars_inv s lo hi vs"
  shows "safe s (vars_inv s lo hi) (vars_loop s hi pos vs)"
  using assms
proof (induction s hi pos vs rule: vars_loop.induct)
  case (1 s hi pos vs)
  show ?case
  proof (cases "pos < hi")
    case True
    note step = vars_step_safe [OF 1(2,3,4) True 1(5)]
    show ?thesis
    proof (cases "vars_step s pos vs")
      case (Inl e)
      then show ?thesis using True safe_Inl [OF step Inl] by (subst vars_loop.simps) simp
    next
      case (Inr x)
      obtain q vs' where x: "x = (q, vs')" by (cases x)
      have "lo \<le> q" "vars_inv s lo hi vs'" using vars_step_moves Inr 1(4) safe_Inr [OF step Inr] x by fastforce+
      from 1(1) [OF True Inr x [symmetric] 1(2,3) this] show ?thesis using True Inr x by (subst vars_loop.simps) simp
    qed
  qed (subst vars_loop.simps, use 1(5) in simp)
qed

lemma parse_variable_assignments_safe:
  assumes v: "utf8_valid s" and a: "on_char s a" and b: "on_char s b" and ab: "a \<le> b"
  shows "safe s (list_all (assignment_ok s a b)) (parse_variable_assignments s a b)"
  unfolding parse_variable_assignments_def
proof (rule safe_bind)
  have bl: "b \<le> length s" using b by (simp add: on_char_def)
  show "safe s (vars_inv s a b) (vars_loop s b a
      \<lparr>vs_segment = a, vs_delimiters = [], vs_scan = scan_start, vs_assignments = []\<rparr>)"
    by (rule vars_loop_safe [OF v bl order_refl]) (use a ab in \<open>simp add: vars_inv_def\<close>)
  fix vs assume inv: "vars_inv s a b vs"
  show "safe s (list_all (assignment_ok s a b)) (finish_variable_assignments s b vs)"
  proof (cases "vs_delimiters vs = []")
    case True
    then show ?thesis
      using push_variable_assignment_safe [OF v _ b, of "vs_segment vs" a b "vs_assignments vs"] inv bl
      by (simp add: finish_variable_assignments_def vars_inv_def)
  next
    case False
    obtain c p where l: "last (vs_delimiters vs) = (c, p)" by (cases "last (vs_delimiters vs)")
    have "snd (last (vs_delimiters vs)) < length s"
      using inv last_in_set [OF False] by (simp add: vars_inv_def list_all_iff)
    then show ?thesis using False l by (simp add: finish_variable_assignments_def)
  qed
qed

lemma scan_brace_closes: "scan_brace sc depth pos r = Some e \<Longrightarrow> r ! (e - pos) = CHR ''}''"
proof (induction sc depth pos r rule: scan_brace.induct)
  case (2 sc depth pos c r)
  show ?case
  proof (cases "brace_step sc depth c r")
    case None
    then show ?thesis using 2(2) by (auto simp: brace_step_def split: if_splits option.splits)
  next
    case (Some x)
    obtain sc' depth' n where x: "x = (sc', depth', n)" by (cases x)
    have t: "scan_brace sc' depth' (pos + n) (drop n (c # r)) = Some e" using 2(2) Some x by simp
    have "drop n (c # r) ! (e - (pos + n)) = CHR ''}''" using 2(1) [OF Some [unfolded x] refl refl t] .
    moreover have "n \<le> length (c # r)" "pos + n \<le> e"
      using brace_step_moves [OF Some [unfolded x]] scan_brace_ge [OF t] by simp_all
    moreover have "n + (e - (pos + n)) = e - pos" using \<open>pos + n \<le> e\<close> by linarith
    ultimately show ?thesis by (simp add: nth_drop)
  qed
qed simp

section \<open>Atoms and keys\<close>

definition atom_ok :: "string \<Rightarrow> nat \<Rightarrow> nat \<Rightarrow> atom_initializer \<Rightarrow> bool" where
  "atom_ok s lo hi a \<longleftrightarrow> lo \<le> span_start (at_span a) \<and> span_end (at_span a) \<le> hi
     \<and> starts_with (at_path a) ''/'' \<and> list_all path_byte (at_path a)
     \<and> (\<exists>t. shown s (at_span a) (at_path a @ t))
     \<and> (case at_variables a of
          None \<Rightarrow> at_assignments a = []
        | Some body \<Rightarrow> \<exists>b e. slice s b e = Some body \<and> span_start (at_span a) \<le> b \<and> Suc e = span_end (at_span a)
            \<and> list_all (assignment_ok s b e) (at_assignments a))"

definition key_ok :: "string \<Rightarrow> key_definition \<Rightarrow> bool" where
  "key_ok s d \<longleftrightarrow> (\<exists>t. shown s (kd_span d) t)
     \<and> list_all (atom_ok s (span_start (kd_span d)) (span_end (kd_span d))) (kd_atoms d)"

lemma shown_path:
  assumes v: "utf8_valid s" and c: "on_char s a" "on_char s m" "on_char s b" and le: "a \<le> m" "m \<le> b"
  shows "\<exists>t. shown s \<lparr>span_start = a, span_end = b\<rparr> (range_of s a m @ t)"
  using slice_range_of [OF v c(1,3)] range_of_split [OF le] le by (auto simp: shown_def)

lemma path_range: "range_of s a (skip_while p s a) = takeWhile p (drop a s)"
  by (simp add: range_of_def skip_while_def takeWhile_eq_take [symmetric])

lemma parse_atom_safe:
  assumes v: "utf8_valid s" and a: "on_char s a" and lo: "lo \<le> a"
  shows "safe s (\<lambda>(x, q). a < q \<and> on_char s q \<and> atom_ok s lo q x) (parse_atom s a)"
proof (cases "peek s a = Some (CHR ''/'')")
  case True
  then obtain r where r: "drop a s = CHR ''/'' # r" "a < length s"
    by (auto simp: peek_def Cons_nth_drop_Suc [symmetric] split: if_splits)
  let ?q = "skip_while path_byte s a"
  have stop: "\<not> utf8_cont c" if "\<not> path_byte c" for c
    using that by (auto simp: path_byte_def ascii_space_ascii ascii_not_cont)
  have q: "on_char s ?q" using on_char_skip_until [OF v _ stop] r(2) by simp
  have "a < ?q" using r by (simp add: path_byte_def skip_while_def ascii_space_def byte_def)
  note q = q this
  have path: "starts_with (range_of s a ?q) ''/''" "list_all path_byte (range_of s a ?q)"
    using r by (auto simp: path_range path_byte_def ascii_space_def byte_def list_all_iff dest: set_takeWhileD)
  have slice: "map_slice s a ?q = Inr (range_of s a ?q)" using map_slice_ok [OF v a q(1)] q(2) by (simp add: range_of_def)
  have "safe s (\<lambda>(x, q). a < q \<and> on_char s q \<and> atom_ok s lo q x) (case consume (CHR ''{'') s q of
           None \<Rightarrow> res_bind (map_span a q) (\<lambda>span.
             Inr (\<lparr>at_path = range_of s a ?q, at_variables = None, at_assignments = [], at_span = span\<rparr>, q))
         | Some body_start \<Rightarrow> (case scan_brace scan_start 1 body_start (drop body_start s) of
               None \<Rightarrow> Inl (error_at (length s) (length s) UnterminatedVariables)
             | Some e \<Rightarrow>
                 res_bind (map_slice s body_start e) (\<lambda>body.
                 res_bind (parse_variable_assignments s body_start e) (\<lambda>assignments.
                 res_bind (map_span a (e + 1)) (\<lambda>span.
                   Inr (\<lparr>at_path = range_of s a ?q, at_variables = Some body, at_assignments = assignments, at_span = span\<rparr>,
                     e + 1))))))" if c: "on_char s q" "?q \<le> q" for q
  proof (cases "consume (CHR ''{'') s q")
    case None
    then show ?thesis using c \<open>a < ?q\<close> lo path shown_path [OF v a \<open>on_char s ?q\<close> c(1)]
      by (simp add: map_span_ok atom_ok_def)
  next
    case (Some b)
    have b: "b = Suc q" "on_char s b" using consume_on_char [OF Some c(1)] by auto
    show ?thesis
    proof (cases "scan_brace scan_start 1 b (drop b s)")
      case e: (Some e)
      have E: "b \<le> e" "e < length s" using scan_brace_ge [OF e] by auto
      have "s ! e = CHR ''}''" using scan_brace_closes [OF e] E by simp
      then have ce: "on_char s e" "on_char s (Suc e)"
        using on_char_stop [OF v, of e] on_char_Suc [of s e] E ascii_not_cont [of "CHR ''}''"] by simp_all
      have body: "map_slice s b e = Inr (range_of s b e)" "slice s b e = Some (range_of s b e)"
        using map_slice_ok [OF v b(2) ce(1) E(1)] slice_range_of [OF v b(2) ce(1) E(1)] by (simp_all add: range_of_def)
      have qe: "a < Suc e" "?q \<le> Suc e" "a \<le> b" using E(1) b(1) c(2) q(2) by linarith+
      have "safe s (\<lambda>(x, q). a < q \<and> on_char s q \<and> atom_ok s lo q x)
          (res_bind (parse_variable_assignments s b e) (\<lambda>assignments. res_bind (map_span a (e + 1)) (\<lambda>span.
             Inr (\<lparr>at_path = range_of s a ?q, at_variables = Some (range_of s b e), at_assignments = assignments,
               at_span = span\<rparr>, e + 1))))"
        by (rule safe_bind [OF parse_variable_assignments_safe [OF v b(2) ce(1) E(1)]])
          (use qe lo path ce body(2) shown_path [OF v a \<open>on_char s ?q\<close> ce(2)] q(2) in
            \<open>auto simp: map_span_ok atom_ok_def intro!: exI [of _ b]\<close>)
      then show ?thesis using Some e body(1) by simp
    qed (use Some in simp)
  qed
  note step = this
  show ?thesis
    by (simp only: parse_atom_def Let_def True slice res_bind_simps simp_thms if_False,
        rule safe_bind [OF skip_space_safe [OF v q(1)]], rule step) simp_all
qed (use a in \<open>simp add: parse_atom_def on_char_def\<close>)


lemma atom_ok_wider: "atom_ok s lo hi a \<Longrightarrow> lo' \<le> lo \<Longrightarrow> hi \<le> hi' \<Longrightarrow> atom_ok s lo' hi' a"
  by (auto simp: atom_ok_def)

lemma atoms_loop_unfold:
  "atoms_loop s pos atoms = res_bind (skip_space_and_comments s pos) (\<lambda>q. case consume (CHR '')'') s q of
       Some q \<Rightarrow> Inr (atoms, q)
     | None \<Rightarrow> res_bind (parse_atom s q) (\<lambda>(atom, q). res_bind (skip_space_and_comments s q) (\<lambda>q.
         case consume (CHR '','') s q of
           Some q \<Rightarrow> atoms_loop s q (atoms @ [atom])
         | None \<Rightarrow> res_bind (expect (CHR '')'') s q) (\<lambda>q. Inr (atoms @ [atom], q)))))"
  by (subst atoms_loop.simps) (auto simp: res_bind_def split: sum.split option.split prod.split)

lemma atoms_loop_safe:
  assumes "utf8_valid s" "on_char s pos" "lo \<le> pos" "list_all (atom_ok s lo pos) atoms"
  shows "safe s (\<lambda>(as', q). pos < q \<and> on_char s q \<and> list_all (atom_ok s lo q) as') (atoms_loop s pos atoms)"
  using assms
proof (induction s pos atoms rule: atoms_loop.induct)
  case (1 s pos atoms)
  note v = 1(2)
  have wider: "list_all (atom_ok s lo q') as'" if "list_all (atom_ok s lo q) as'" "q \<le> q'" for as' q q'
    using that atom_ok_wider [of s lo q _ lo q'] by (auto simp: list_all_iff)
  show ?case unfolding atoms_loop_unfold [of s pos atoms]
  proof (rule safe_bind_eq [OF skip_space_safe [OF v 1(3)]], split option.split, safe)
    fix q r assume q: "pos \<le> q" "on_char s q" and r: "consume (CHR '')'') s q = Some r"
    show "safe s (\<lambda>(as', q). pos < q \<and> on_char s q \<and> list_all (atom_ok s lo q) as') (Inr (atoms, r))"
      using consume_on_char [OF r q(2)] q wider [OF 1(5), of r] by auto
  next
    fix q assume sq: "skip_space_and_comments s pos = Inr q" and q: "pos \<le> q" "on_char s q"
      and n: "consume (CHR '')'') s q = None"
    show "safe s (\<lambda>(as', q). pos < q \<and> on_char s q \<and> list_all (atom_ok s lo q) as')
        (res_bind (parse_atom s q) (\<lambda>(atom, q). res_bind (skip_space_and_comments s q) (\<lambda>q.
         case consume (CHR '','') s q of
           Some q \<Rightarrow> atoms_loop s q (atoms @ [atom])
         | None \<Rightarrow> res_bind (expect (CHR '')'') s q) (\<lambda>q. Inr (atoms @ [atom], q)))))"
    proof (rule safe_bind_eq [OF parse_atom_safe [OF v q(2) order.trans [OF 1(4) q(1)]]], clarify,
        rule safe_bind_eq [OF skip_space_safe [OF v]], assumption, split option.split, safe)
      fix a q1 q2 assume p: "parse_atom s q = Inr (a, q1)" "skip_space_and_comments s q1 = Inr q2"
        and o: "q < q1" "atom_ok s lo q1 a" "q1 \<le> q2" "on_char s q2"
      have all: "list_all (atom_ok s lo q') (atoms @ [a])" if "q2 \<le> q'" for q'
        using wider [OF 1(5), of q'] atom_ok_wider [OF o(2) order_refl, of q'] that q(1) o by simp
      show "safe s (\<lambda>(as', q). pos < q \<and> on_char s q \<and> list_all (atom_ok s lo q) as')
          (res_bind (expect (CHR '')'') s q2) (\<lambda>q. Inr (atoms @ [a], q)))"
        by (rule safe_bind [OF expect_safe [OF _ o(4)]]) (use all q o in auto)
      fix q3 assume c: "consume (CHR '','') s q2 = Some q3"
      have q3: "q3 = Suc q2" "on_char s q3" using consume_on_char [OF c o(4)] by auto
      from 1(1) [OF sq n p(1) refl p(2) c v q3(2) _ all] q3 q o 1(4)
      show "safe s (\<lambda>(as', q). pos < q \<and> on_char s q \<and> list_all (atom_ok s lo q) as') (atoms_loop s q3 (atoms @ [a]))"
        by (auto elim!: safe_mono)
    qed
  qed
qed

lemma parse_key_safe:
  assumes v: "utf8_valid s" and a: "on_char s a"
  shows "safe s (\<lambda>(d, q). a < q \<and> on_char s q \<and> key_ok s d \<and> span_end (kd_span d) \<le> length s
    \<and> span_start (kd_span d) \<le> span_end (kd_span d)) (parse_key s a)"
  unfolding parse_key_def
proof (rule safe_bind [OF quoted_string_safe [OF v a]], clarify)
  fix key q assume "a < q" "on_char s q"
  have atoms: "safe s (\<lambda>(d, q). a < q \<and> on_char s q \<and> key_ok s d \<and> span_end (kd_span d) \<le> length s
      \<and> span_start (kd_span d) \<le> span_end (kd_span d)) (res_bind (atoms_loop s r []) (\<lambda>(atoms, q).
        res_bind (map_span a q) (\<lambda>span. Inr (\<lparr>kd_key = key, kd_atoms = atoms, kd_span = span\<rparr>, q))))"
    if "a < r" "on_char s r" for r
  proof (rule safe_bind [OF atoms_loop_safe [OF v that(2), of a]], goal_cases)
    case (3 x)
    obtain atoms q where x: "x = (atoms, q)" by (cases x)
    show ?case using 3 that slice_range_of [OF v a, of q] x
      by (auto simp: map_span_ok key_ok_def shown_def on_char_def)
  qed (use that in simp_all)
  show "safe s (\<lambda>(d, q). a < q \<and> on_char s q \<and> key_ok s d \<and> span_end (kd_span d) \<le> length s
      \<and> span_start (kd_span d) \<le> span_end (kd_span d))
     (res_bind (skip_space_and_comments s q) (\<lambda>q. res_bind (expect (CHR ''='') s q) (\<lambda>q.
      res_bind (skip_space_and_comments s q) (\<lambda>q. res_bind (expect (CHR ''('') s q) (\<lambda>q.
      res_bind (atoms_loop s q []) (\<lambda>(atoms, q).
      res_bind (map_span a q) (\<lambda>span. Inr (\<lparr>kd_key = key, kd_atoms = atoms, kd_span = span\<rparr>, q))))))))"
    by (intro safe_bind [OF skip_space_safe [OF v]] safe_bind [OF expect_safe [of "CHR ''=''"]]
        safe_bind [OF expect_safe [of "CHR ''(''"]] atoms) (use \<open>a < q\<close> \<open>on_char s q\<close> in auto)
qed


section \<open>Blocks and the grid\<close>

definition block_ok :: "string \<Rightarrow> map_block \<Rightarrow> bool" where
  "block_ok s b \<longleftrightarrow> (\<exists>t. shown s (mb_span b) t) \<and> list_all (\<lambda>row. length row = 1) (mb_rows b)"

lemma shown_span: "shown s sp t \<Longrightarrow> span_start sp \<le> span_end sp \<and> span_end sp \<le> length s"
  by (auto simp: shown_def slice_def split: if_splits)

lemma parse_block_safe:
  assumes v: "utf8_valid s" and a: "on_char s a"
  shows "safe s (\<lambda>(b, q). a < q \<and> on_char s q \<and> block_ok s b) (parse_block s a)"
proof -
  have final: "safe s (\<lambda>(b, q). a < q \<and> on_char s q \<and> block_ok s b) (res_bind (map_span a q) (\<lambda>span.
      Inr (\<lparr>mb_x = x, mb_y = y, mb_z = z,
         mb_rows = map (\<lambda>line. [trim_end_cr line]) (filter (\<lambda>line. line \<noteq> []) (str_lines payload)),
         mb_span = span\<rparr>, q)))" if "a < q" "on_char s q" for x y z payload q
    using that slice_range_of [OF v a that(2)] by (simp add: map_span_ok block_ok_def shown_def list_all_iff)
  have brace: "safe s (\<lambda>q. r < q \<and> on_char s q) (expect (CHR ''{'') s (skip_horizontal_space s r))" if "on_char s r" for r
    by (rule safe_mono [OF expect_safe]) (use skip_horizontal_ok [OF that] in auto)
  note step = safe_bind [OF expect_safe [of "CHR ''(''"]] safe_bind [OF expect_safe [of "CHR '',''"]]
    safe_bind [OF expect_safe [of "CHR '')''"]] safe_bind [OF expect_safe [of "CHR ''=''"]]
    safe_bind [OF expect_safe [of "CHR ''}''"]] safe_bind [OF brace]
    safe_bind [OF skip_space_safe [OF v]] safe_bind [OF integer_safe [OF v]] safe_bind [OF quoted_string_safe [OF v]]
  show ?thesis unfolding parse_block_def
    by (auto intro!: step final simp: a)
qed

lemma resolve_keys_spec:
  assumes "0 < w" "span_start span \<le> span_end span" "span_end span \<le> length s"
  shows "safe s (\<lambda>ks. list_all (\<lambda>k. keys k \<noteq> None \<and> length k = w) ks \<and> concat ks = range_of raw (m * w) (n * w))
    (resolve_keys keys w span raw (map (\<lambda>i. i * w) [m..<n]))"
proof (induction "n - m" arbitrary: m)
  case 0
  then show ?case by (simp add: range_of_def)
next
  case (Suc d)
  then have mn: "m < n" by simp
  have i: "[m..<n] = m # [Suc m..<n]" using mn by (rule upt_conv_Cons)
  have le: "Suc m * w \<le> n * w" using mn by (intro mult_le_mono1) simp
  show ?case
  proof (cases "char_boundary raw (m * w) \<and> char_boundary raw (m * w + w)")
    case True
    let ?k = "range_of raw (m * w) (Suc m * w)"
    have b: "m * w + w \<le> length raw" using True by (simp add: char_boundary_def)
    have k: "map_slice raw (m * w) (m * w + w) = Inr ?k" "length ?k = w"
      using True b by (simp_all add: map_slice_def slice_def range_of_def add.commute)
    have split: "range_of raw (m * w) (n * w) = ?k @ range_of raw (Suc m * w) (n * w)"
      by (rule range_of_split) (use le in simp_all)
    have "safe s (\<lambda>ks. list_all (\<lambda>k. keys k \<noteq> None \<and> length k = w) ks \<and> concat ks = range_of raw (m * w) (n * w))
        (res_bind (resolve_keys keys w span raw (map (\<lambda>i. i * w) [Suc m..<n])) (\<lambda>ks. Inr (?k # ks)))"
      if "keys ?k \<noteq> None"
      by (rule safe_bind [OF Suc(1) [of "Suc m"]]) (use Suc(2) that k split in simp_all)
    then show ?thesis using True k assms i by simp
  qed (use assms i in auto)
qed

lemma resolve_row_safe:
  assumes "0 < w" "span_start span \<le> span_end span" "span_end span \<le> length s" "length row = 1"
  shows "safe s (\<lambda>ks. list_all (\<lambda>k. keys k \<noteq> None \<and> length k = w) ks \<and> [concat ks] = row) (resolve_row keys w span row)"
proof -
  obtain raw where row: "row = [raw]" using assms(4) by (cases row) auto
  note R = resolve_keys_spec [OF assms(1-3), of keys raw 0 "length raw div w"]
  have "safe s (\<lambda>ks. list_all (\<lambda>k. keys k \<noteq> None \<and> length k = w) ks \<and> [concat ks] = row)
      (res_bind (resolve_keys keys w span raw (map (\<lambda>i. i * w) [0..<length raw div w])) (\<lambda>ks. Inr ks))"
    if "length raw mod w = 0"
  proof (rule safe_bind [OF R])
    have "length raw div w * w = length raw" using that by (metis add.right_neutral div_mult_mod_eq)
    then show "safe s (\<lambda>ks. list_all (\<lambda>k. keys k \<noteq> None \<and> length k = w) ks \<and> [concat ks] = row) (Inr ks)"
      if "list_all (\<lambda>k. keys k \<noteq> None \<and> length k = w) ks \<and> concat ks = range_of raw (0 * w) (length raw div w * w)" for ks
      using that row by (simp add: range_of_def)
  qed
  then show ?thesis using row assms(2,3) by (simp add: resolve_row_def)
qed

lemma map_each_safe:
  assumes "\<And>x. x \<in> set xs \<Longrightarrow> safe s (Q x) (f x)"
  shows "safe s (\<lambda>ys. list_all2 Q xs ys) (map_each f xs)"
  using assms
proof (induction xs)
  case (Cons x xs)
  have "safe s (\<lambda>ys. list_all2 Q (x # xs) ys) (res_bind (map_each f xs) (\<lambda>ys. Inr (y # ys)))" if "Q x y" for y
    by (rule safe_bind [OF Cons(1)]) (use Cons(2) that in auto)
  note rest = this
  have "safe s (list_all2 Q (x # xs)) (res_bind (f x) (\<lambda>y. res_bind (map_each f xs) (\<lambda>ys. Inr (y # ys))))"
    by (rule safe_bind [OF Cons(2) rest]) simp
  then show ?case by simp
qed simp

text \<open>A block of the result against the block as it was read: the same but for its rows, whose cells are
  keys of the right width that spell out the row.\<close>

definition grid_ok :: "(string \<rightharpoonup> key_definition) \<Rightarrow> nat \<Rightarrow> map_block \<Rightarrow> map_block \<Rightarrow> bool" where
  "grid_ok keys w read b \<longleftrightarrow> read = b\<lparr>mb_rows := map (\<lambda>row. [concat row]) (mb_rows b)\<rparr>
     \<and> list_all (list_all (\<lambda>k. keys k \<noteq> None \<and> length k = w)) (mb_rows b)"

lemma resolve_block_safe:
  assumes w: "0 < w" and b: "block_ok s b"
  shows "safe s (grid_ok keys w b) (resolve_block keys w b)"
proof -
  have sp: "span_start (mb_span b) \<le> span_end (mb_span b)" "span_end (mb_span b) \<le> length s"
    using b shown_span by (auto simp: block_ok_def)
  have "safe s (\<lambda>rows. list_all2 (\<lambda>row ks. list_all (\<lambda>k. keys k \<noteq> None \<and> length k = w) ks \<and> [concat ks] = row) (mb_rows b) rows)
      (map_each (resolve_row keys w (mb_span b)) (mb_rows b))"
    by (rule map_each_safe, rule resolve_row_safe [OF w sp]) (use b in \<open>simp add: block_ok_def list_all_iff\<close>)
  then show ?thesis unfolding resolve_block_def
  proof (rule safe_bind)
    fix rows assume r: "list_all2 (\<lambda>row ks. list_all (\<lambda>k. keys k \<noteq> None \<and> length k = w) ks \<and> [concat ks] = row) (mb_rows b) rows"
    then have "mb_rows b = map (\<lambda>row. [concat row]) rows"
      by (induction rule: list_all2_induct) auto
    moreover have "list_all (list_all (\<lambda>k. keys k \<noteq> None \<and> length k = w)) rows"
      using r by (auto simp: list_all2_conv_all_nth list_all_length)
    ultimately show "safe s (grid_ok keys w b) (Inr (b\<lparr>mb_rows := rows\<rparr>))" by (simp add: grid_ok_def)
  qed
qed

section \<open>The whole map\<close>

definition keys_ok :: "string \<Rightarrow> (string \<rightharpoonup> key_definition) \<Rightarrow> nat option \<Rightarrow> bool" where
  "keys_ok s keys width \<longleftrightarrow> (\<forall>k d. keys k = Some d \<longrightarrow> kd_key d = k \<and> key_ok s d \<and> width = Some (length k))
     \<and> (\<forall>w. width = Some w \<longrightarrow> 0 < w)"

definition block_read :: "string \<Rightarrow> map_block \<Rightarrow> bool" where
  "block_read s b \<longleftrightarrow> block_ok s b \<and> (\<exists>p q. parse_block s p = Inr (b, q))"

lemma parse_loop_unfold:
  "parse_loop s pos keys width blocks = res_bind (skip_space_and_comments s pos) (\<lambda>q.
     if q = length s then Inr (keys, width, blocks, q)
     else if peek s q = Some quote_char then res_bind (parse_key s q) (\<lambda>(d, q).
       if kd_key d = [] then Inl (MapError EmptyKey (kd_span d))
       else if width \<noteq> None \<and> width \<noteq> Some (length (kd_key d)) then Inl (MapError NonUniformKeys (kd_span d))
       else if keys (kd_key d) \<noteq> None then Inl (error_at q q DuplicateKey)
       else parse_loop s q (keys(kd_key d \<mapsto> d)) (Some (length (kd_key d))) blocks)
     else if peek s q = Some (CHR ''('') then res_bind (parse_block s q) (\<lambda>(b, q).
       parse_loop s q keys width (blocks @ [b]))
     else Inl (error_at q q ExpectedDefinition))"
  by (subst parse_loop.simps) (auto simp: res_bind_def split: sum.split)

lemma parse_loop_safe:
  assumes "utf8_valid s" "on_char s pos" "keys_ok s keys width" "list_all (block_read s) blocks"
  shows "safe s (\<lambda>(keys', width', blocks', q). q \<le> length s \<and> keys_ok s keys' width' \<and> list_all (block_read s) blocks')
    (parse_loop s pos keys width blocks)"
  using assms
proof (induction s pos keys width blocks rule: parse_loop.induct)
  case (1 s pos keys width blocks)
  note v = 1(3)
  show ?case unfolding parse_loop_unfold [of s pos keys width blocks]
  proof (rule safe_bind_eq [OF skip_space_safe [OF v 1(4)]], goal_cases)
    case (1 q)
    then have q: "on_char s q" "q \<le> length s" by (simp_all add: on_char_def)
    note sq = \<open>skip_space_and_comments s pos = Inr q\<close>
    have key: "safe s (\<lambda>(keys', width', blocks', q). q \<le> length s \<and> keys_ok s keys' width' \<and> list_all (block_read s) blocks')
        (res_bind (parse_key s q) (\<lambda>(d, q).
       if kd_key d = [] then Inl (MapError EmptyKey (kd_span d))
       else if width \<noteq> None \<and> width \<noteq> Some (length (kd_key d)) then Inl (MapError NonUniformKeys (kd_span d))
       else if keys (kd_key d) \<noteq> None then Inl (error_at q q DuplicateKey)
       else parse_loop s q (keys(kd_key d \<mapsto> d)) (Some (length (kd_key d))) blocks))"
      if quote: "q \<noteq> length s" "peek s q = Some quote_char"
    proof (rule safe_bind_eq [OF parse_key_safe [OF v q(1)]], goal_cases)
      case (1 x)
      obtain d r where x: "x = (d, r)" by (cases x)
      have "safe s (\<lambda>(keys', width', blocks', q). q \<le> length s \<and> keys_ok s keys' width' \<and> list_all (block_read s) blocks')
          (parse_loop s r (keys(kd_key d \<mapsto> d)) (Some (length (kd_key d))) blocks)"
        if ok: "kd_key d \<noteq> []" "\<not> (width \<noteq> None \<and> width \<noteq> Some (length (kd_key d)))" "\<not> keys (kd_key d) \<noteq> None"
      proof (rule "1.IH"(1) [OF sq quote 1(1) [unfolded x] refl ok v])
        show "keys_ok s (keys(kd_key d \<mapsto> d)) (Some (length (kd_key d)))"
          using ok 1(2) x "1.prems"(3) by (auto simp: keys_ok_def)
      qed (use 1 x "1.prems" in auto)
      then show ?case using 1(2) x by (auto simp: on_char_def)
    qed
    have block: "safe s (\<lambda>(keys', width', blocks', q). q \<le> length s \<and> keys_ok s keys' width' \<and> list_all (block_read s) blocks')
        (res_bind (parse_block s q) (\<lambda>(b, q). parse_loop s q keys width (blocks @ [b])))"
      if "q \<noteq> length s" "peek s q \<noteq> Some quote_char" "peek s q = Some (CHR ''('')"
    proof (rule safe_bind_eq [OF parse_block_safe [OF v q(1)]], clarify)
      fix b r assume b: "parse_block s q = Inr (b, r)" "q < r" "on_char s r" "block_ok s b"
      show "safe s (\<lambda>(keys', width', blocks', q). q \<le> length s \<and> keys_ok s keys' width' \<and> list_all (block_read s) blocks')
          (parse_loop s r keys width (blocks @ [b]))"
        by (rule "1.IH"(2) [OF sq that b(1) refl v b(3)]) (use "1.prems" b in \<open>auto simp: block_read_def\<close>)
    qed
    show ?case using key block q "1.prems" by simp
  qed
qed

end
