(* ===== verification/DmmSpelling.thy ===== *)
theory DmmSpelling
  imports DmmLaws
begin

text \<open>
  How a map is spelled in its source: gaps, quoted strings, atoms with their variable blocks, key
  definitions and coordinate blocks, each as a relation on text that does not mention the parser.
  What the parser returns is spelled by the source, whole and in order.
\<close>

section \<open>Text between offsets\<close>

definition reads :: "string \<Rightarrow> nat \<Rightarrow> nat \<Rightarrow> string \<Rightarrow> bool" where
  "reads s a b t \<longleftrightarrow> a \<le> b \<and> b \<le> length s \<and> range_of s a b = t"

lemma reads_append [trans]: "reads s a b t \<Longrightarrow> reads s b c u \<Longrightarrow> reads s a c (t @ u)"
  using range_of_split [of a b c s] by (simp add: reads_def)

lemma reads_bounds: "reads s a b t \<Longrightarrow> a \<le> b \<and> b \<le> length s"
  by (simp add: reads_def)

lemma reads_Nil: "a \<le> length s \<Longrightarrow> reads s a a []"
  by (simp add: reads_def range_of_def)

lemma reads_one: "a < length s \<Longrightarrow> reads s a (Suc a) [s ! a]"
  by (simp add: reads_def range_of_one)

lemma reads_hd: "reads s a b t \<Longrightarrow> t \<noteq> [] \<Longrightarrow> a < b \<and> hd t = s ! a"
  using range_of_split [of a "Suc a" b s] range_of_one [of a s]
  by (cases "a < b") (auto simp: reads_def range_of_def)

lemma reads_range: "a \<le> b \<Longrightarrow> b \<le> length s \<Longrightarrow> reads s a b (range_of s a b)"
  by (simp add: reads_def)

lemma reads_while: "a \<le> length s \<Longrightarrow> reads s a (skip_while p s a) (takeWhile p (drop a s))"
  using length_takeWhile_le [of p "drop a s"] path_range [of s a p] by (simp add: reads_def skip_while_def)

lemma map_slice_reads: "map_slice s a b = Inr t \<Longrightarrow> reads s a b t"
  by (auto simp: map_slice_def slice_def reads_def range_of_def split: option.splits if_splits)

lemma map_span_Inr: "map_span a b = Inr sp \<longleftrightarrow> a \<le> b \<and> sp = \<lparr>span_start = a, span_end = b\<rparr>"
  by (auto simp: map_span_def source_span_new_def)

lemma consume_reads: "consume c s pos = Some q \<Longrightarrow> reads s pos q [c]"
  using reads_one [of pos s] by (auto simp: consume_def peek_def split: if_splits)

lemma expect_reads: "expect c s pos = Inr q \<Longrightarrow> reads s pos q [c]"
  using consume_reads by (auto simp: expect_def split: option.splits)

section \<open>Gaps\<close>

text \<open>White space and line comments, each comment with its line break.\<close>

inductive gap :: "string \<Rightarrow> bool" where
  gap_Nil: "gap []"
| gap_space: "ascii_space c \<Longrightarrow> gap t \<Longrightarrow> gap (c # t)"
| gap_comment: "nl_char \<notin> set u \<Longrightarrow> gap (nl_char # t) \<Longrightarrow> gap (''//'' @ u @ nl_char # t)"

text \<open>At the end of the source the line break may be missing.\<close>

definition final_gap :: "string \<Rightarrow> bool" where
  "final_gap t \<longleftrightarrow> gap t \<or> (\<exists>g u. t = g @ ''//'' @ u \<and> gap g \<and> nl_char \<notin> set u)"

lemma gap_spaces: "list_all ascii_space u \<Longrightarrow> gap t \<Longrightarrow> gap (u @ t)"
  by (induction u) (auto intro: gap_space)

lemma final_gap_spaces: "list_all ascii_space u \<Longrightarrow> final_gap t \<Longrightarrow> final_gap (u @ t)"
  unfolding final_gap_def using gap_spaces by (metis append.assoc)

lemma final_gap_comment: "nl_char \<notin> set u \<Longrightarrow> final_gap t \<Longrightarrow> t = [] \<or> hd t = nl_char \<Longrightarrow> final_gap (''//'' @ u @ t)"
proof (cases t)
  case Nil
  assume "nl_char \<notin> set u"
  then show ?thesis using Nil gap_Nil unfolding final_gap_def by auto
next
  case (Cons c r)
  assume u: "nl_char \<notin> set u" and t: "final_gap t" and h: "t = [] \<or> hd t = nl_char"
  from t consider "gap t" | g w where "t = g @ ''//'' @ w" "gap g" "nl_char \<notin> set w" by (auto simp: final_gap_def)
  then show ?thesis
  proof cases
    case 1
    then show ?thesis using gap_comment [OF u, of r] Cons h by (simp add: final_gap_def)
  next
    case (2 g w)
    then obtain g' where "g = nl_char # g'" using Cons h by (cases g) auto
    then have "gap (''//'' @ u @ g)" using gap_comment [OF u, of g'] 2(2) by simp
    then show ?thesis using 2 unfolding final_gap_def by (metis append.assoc)
  qed
qed

lemma skip_space_reads:
  assumes "skip_space_and_comments s pos = Inr q" "pos \<le> length s"
  shows "\<exists>g. reads s pos q g \<and> final_gap g \<and> (q < length s \<longrightarrow> gap g \<and> \<not> ascii_space (s ! q))"
  using assms
proof (induction s pos arbitrary: q rule: skip_space_and_comments.induct)
  case (1 s pos)
  let ?p = "skip_while ascii_space s pos"
  let ?w = "takeWhile ascii_space (drop pos s)"
  let ?e = "skip_while (\<lambda>c. c \<noteq> nl_char) s ?p"
  have w: "reads s pos ?p ?w" "list_all ascii_space ?w"
    using reads_while [OF 1(3)] by (auto simp: list_all_iff dest: set_takeWhileD)
  show ?case
  proof (cases "map_rest s ?p")
    case (Inr r)
    then have r: "r = drop ?p s" using map_rest_Inr by blast
    show ?thesis
    proof (cases "starts_with r ''//''")
      case True
      then obtain t where t: "drop ?p s = ''//'' @ t" using r by (auto simp: starts_with_iff)
      have rest: "skip_space_and_comments s ?e = Inr q"
        using 1(2) Inr True by (subst (asm) skip_space_and_comments.simps) (simp add: Let_def)
      have pl: "?p \<le> length s" using reads_bounds [OF w(1)] by simp
      have c: "reads s ?p ?e (takeWhile (\<lambda>c. c \<noteq> nl_char) (drop ?p s))" by (rule reads_while [OF pl])
      let ?u = "takeWhile (\<lambda>c. c \<noteq> nl_char) t"
      have u: "takeWhile (\<lambda>c. c \<noteq> nl_char) (drop ?p s) = ''//'' @ ?u" "nl_char \<notin> set ?u"
        using t by (auto dest: set_takeWhileD)
      have el: "?e \<le> length s" using reads_bounds [OF c] by simp
      obtain g where g: "reads s ?e q g" "final_gap g" "q < length s \<longrightarrow> gap g \<and> \<not> ascii_space (s ! q)"
        using 1(1) [OF refl Inr True rest el] by blast
      have stop: "s ! ?e = nl_char" if "?e < length s"
        using nth_length_takeWhile [of "\<lambda>c. c \<noteq> nl_char" "drop ?p s"] that
        by (auto simp: skip_while_def add.commute)
      have h: "g = [] \<or> hd g = nl_char"
      proof (cases "g = []")
        case False
        have "?e < length s" using reads_hd [OF g(1) False] reads_bounds [OF g(1)] by linarith
        then show ?thesis using stop reads_hd [OF g(1) False] by simp
      qed simp
      have f: "final_gap (?w @ ''//'' @ ?u @ g)" by (intro final_gap_spaces final_gap_comment w u g h)
      have "gap (?w @ ''//'' @ ?u @ g)" if ql: "q < length s"
      proof -
        have "g \<noteq> []"
        proof
          assume "g = []"
          then have "q - ?e = 0" using g(1) length_range_of [of q s ?e] by (simp only: reads_def list.size)
          then have "q = ?e" using reads_bounds [OF g(1)] by linarith
          then show False using g(3) ql stop by (simp add: ascii_space_def byte_def)
        qed
        then obtain g' where "g = nl_char # g'" using h by (cases g) auto
        then show ?thesis using gap_spaces [OF w(2)] gap_comment [OF u(2)] g(3) ql by simp
      qed
      moreover have "reads s pos q (?w @ (''//'' @ ?u) @ g)" 
        using reads_append [OF w(1) reads_append [OF c g(1)]] u(1) by simp
      ultimately show ?thesis using f g(3) by auto
    next
      case False
      then have "q = ?p" using 1(2) Inr by (subst (asm) skip_space_and_comments.simps) (simp add: Let_def)
      moreover have "gap ?w" using gap_spaces [OF w(2) gap_Nil] by simp
      moreover have "\<not> ascii_space (s ! ?p)" if "?p < length s"
        using nth_length_takeWhile [of ascii_space "drop pos s"] that by (simp add: skip_while_def)
      ultimately show ?thesis using w(1) by (auto simp: final_gap_def)
    qed
  qed (use 1(2) in \<open>subst (asm) skip_space_and_comments.simps, simp add: Let_def\<close>)
qed

lemma skip_space_gap:
  assumes "skip_space_and_comments s pos = Inr q" "pos \<le> length s" "q < length s"
  shows "\<exists>g. reads s pos q g \<and> gap g"
  using skip_space_reads [OF assms(1,2)] assms(3) by blast

lemma skip_space_expect:
  assumes "skip_space_and_comments s pos = Inr q" "expect c s q = Inr r" "pos \<le> length s"
  shows "\<exists>g. reads s pos r (g @ [c]) \<and> gap g"
proof -
  note c = expect_reads [OF assms(2)]
  then have "q < length s" using reads_hd [OF c] reads_bounds [OF c] by simp
  then show ?thesis using skip_space_gap [OF assms(1,3)] reads_append c by blast
qed

section \<open>Quoted strings\<close>

text \<open>The text between the quotes, byte by byte: no quote but an escaped one, and no backslash at the end.\<close>

definition escaped :: "char \<Rightarrow> char" where
  "escaped d = (if d = CHR ''n'' then nl_char else if d = CHR ''r'' then cr_char else if d = CHR ''t'' then tab_char else d)"

fun quoted_text :: "string \<Rightarrow> string option" where
  "quoted_text [] = Some []"
| "quoted_text (c # r) =
     (if c = quote_char then None
      else if c = backslash_char then (case r of [] \<Rightarrow> None | d # r \<Rightarrow> map_option (\<lambda>t. escaped d # t) (quoted_text r))
      else map_option (\<lambda>t. c # t) (quoted_text r))"

lemma quoted_text_plain:
  "list_all (\<lambda>c. c \<noteq> quote_char \<and> c \<noteq> backslash_char) p \<Longrightarrow> quoted_text (p @ u) = map_option (\<lambda>t. p @ t) (quoted_text u)"
  by (cases "quoted_text u"; induction p) simp_all

lemma cont_plain: "list_all utf8_cont r \<Longrightarrow> list_all (\<lambda>c. c \<noteq> quote_char \<and> c \<noteq> backslash_char) r"
  by (auto simp: list_all_iff utf8_cont_def byte_def)

lemma unescape_character: "\<not> ascii d \<or> r = [] \<Longrightarrow> unescape (d # r) = escaped d # r"
  by (auto simp: unescape_def escaped_def ascii_def byte_def)

lemma quoted_loop_reads:
  assumes "quoted_loop s v segment pos = Inr (t, q)" "utf8_valid s" "on_char s segment" "segment \<le> pos" "on_char s pos"
  shows "\<exists>u w. reads s pos q (u @ [quote_char]) \<and> quoted_text u = Some w \<and> t = v @ range_of s segment pos @ w"
  using assms
proof (induction s v segment pos arbitrary: t q rule: quoted_loop.induct)
  case (1 s v segment pos)
  note run = 1(3) and v = 1(4)
  obtain b where b: "peek s pos = Some b" "pos < length s" "s ! pos = b"
    using run by (subst (asm) quoted_loop.simps) (auto simp: peek_def split: if_splits)
  have slice: "map_slice s segment pos = Inr (range_of s segment pos)"
    using map_slice_ok [OF v 1(5,7,6)] by (simp add: range_of_def)
  have char: "\<exists>r. take (utf8_width (s ! i)) (drop i s) = s ! i # r \<and> list_all utf8_cont r \<and> (ascii (s ! i) \<longrightarrow> r = [])
      \<and> reads s i (i + Suc (length r)) (s ! i # r)" if i: "on_char s i" "i < length s" for i
  proof -
    have h: "hd (drop i s) = s ! i" "drop i s \<noteq> []" using i(2) by (simp_all add: hd_drop_conv_nth)
    obtain r where r: "take (utf8_width (s ! i)) (drop i s) = s ! i # r" "list_all utf8_cont r" "ascii (s ! i) \<Longrightarrow> r = []"
      using first_character [of "drop i s"] i(1) h by (auto simp: on_char_def)
    have "Suc (length r) \<le> utf8_width (s ! i)" "i + Suc (length r) \<le> length s"
      using arg_cong [OF r(1), of length] i(2) by simp_all
    moreover have "take (length (take n t)) t = take n t" for n and t :: string by (cases "n \<le> length t") (simp_all add: min_def)
    from this [of "utf8_width (s ! i)" "drop i s"] have "range_of s i (i + Suc (length r)) = s ! i # r"
      unfolding r(1) by (simp add: range_of_def)
    ultimately have "range_of s i (i + Suc (length r)) = s ! i # r" "i + Suc (length r) \<le> length s" by blast+
    then show ?thesis using r \<open>i + Suc (length r) \<le> length s\<close> by (auto simp: reads_def)
  qed
  consider "b = quote_char" | "b \<noteq> quote_char" "b \<noteq> backslash_char" | "b = backslash_char" by blast
  then show ?case
  proof cases
    case 1
    then have "t = v @ range_of s segment pos" "q = Suc pos"
      using run b slice by (subst (asm) quoted_loop.simps, simp)+
    then show ?thesis using reads_one [OF b(2)] b(3) 1 by (intro exI [of _ "[]"]) simp
  next
    case 2
    obtain r where r: "take (utf8_width (s ! pos)) (drop pos s) = b # r" "list_all utf8_cont r" "reads s pos (pos + Suc (length r)) (b # r)"
      using char [OF 1(7) b(2)] b(3) by auto
    have c: "next_char s pos = Inr (Some (b # r))" "on_char s (pos + length (b # r))"
      using next_char_ok [OF v 1(7), unfolded r(1)] b(2) by simp_all
    have "quoted_loop s v segment (pos + length (b # r)) = Inr (t, q)"
      using run b(1) 2 c(1) by (subst (asm) quoted_loop.simps) simp
    from 1(1) [OF b(1) 2 c(1) refl this v 1(5) _ c(2)] 1(6)
    obtain u w where u: "reads s (pos + length (b # r)) q (u @ [quote_char])" "quoted_text u = Some w"
      "t = v @ range_of s segment (pos + length (b # r)) @ w" by auto
    have "quoted_text ((b # r) @ u) = Some ((b # r) @ w)"
      using quoted_text_plain [of "b # r" u] cont_plain [OF r(2)] 2 u(2) by simp
    moreover have "range_of s segment (pos + length (b # r)) = range_of s segment pos @ b # r"
      using range_of_split [OF 1(6), of "pos + length (b # r)" s] r(3) by (simp add: reads_def)
    moreover have "reads s pos q (((b # r) @ u) @ [quote_char])" using reads_append [OF r(3)] u(1) by simp
    ultimately show ?thesis using u(3) by (intro exI [of _ "(b # r) @ u"] exI [of _ "(b # r) @ w"]) simp
  next
    case 3
    have suc: "on_char s (pos + 1)" using on_char_peek [OF 1(7) b(1)] 3 by (simp add: ascii_def byte_def)
    have nq: "\<not> b = quote_char" "\<not> b \<noteq> backslash_char" using 3 by simp_all
    have ne: "pos + 1 < length s"
    proof (rule ccontr)
      assume "\<not> pos + 1 < length s"
      then have "pos + 1 = length s" using b(2) by simp
      then show False using run b(1) nq slice next_char_ok(1) [OF v suc] by (subst (asm) quoted_loop.simps) simp
    qed
    obtain d r where r: "take (utf8_width (s ! (pos + 1))) (drop (pos + 1) s) = d # r" "list_all utf8_cont r"
      "ascii d \<Longrightarrow> r = []" "reads s (pos + 1) (pos + 1 + Suc (length r)) (d # r)"
      using char [OF suc ne] by auto
    let ?p = "pos + 1 + length (d # r)" and ?v = "v @ range_of s segment pos @ unescape (d # r)"
    have c: "next_char s (pos + 1) = Inr (Some (d # r))" "on_char s ?p" using next_char_ok [OF v suc, unfolded r(1)] ne by simp_all
    have "quoted_loop s ?v ?p ?p = Inr (t, q)"
      using run b(1) nq slice c(1) by (subst (asm) quoted_loop.simps) simp
    from 1(2) [OF b(1) nq slice c(1) refl this v c(2) order_refl c(2)]
    obtain u w where u: "reads s ?p q (u @ [quote_char])" "quoted_text u = Some w" "t = ?v @ w"
      by (auto simp: range_of_def)
    have "quoted_text (r @ u) = Some (r @ w)" using quoted_text_plain [OF cont_plain [OF r(2)], of u] u(2) by simp
    then have "quoted_text (b # d # r @ u) = Some (unescape (d # r) @ w)"
      using nq unescape_character [of d r] r(3) by auto
    moreover have "reads s pos q ((b # d # r @ u) @ [quote_char])"
    proof -
      have one: "reads s pos (pos + 1) [b]" using reads_one [OF b(2)] b(3) by simp
      have char: "reads s (pos + 1) ?p (d # r)" using r(4) by simp
      show ?thesis using reads_append [OF one reads_append [OF char u(1)]] by simp
    qed
    ultimately show ?thesis using u(3) by (intro exI [of _ "b # d # r @ u"] exI [of _ "unescape (d # r) @ w"]) simp
  qed
qed

lemma quoted_string_reads:
  assumes "quoted_string s pos = Inr (t, q)" "utf8_valid s" "on_char s pos"
  shows "\<exists>u. reads s pos q (quote_char # u @ [quote_char]) \<and> quoted_text u = Some t"
proof -
  obtain p where p: "expect quote_char s pos = Inr p" "quoted_loop s [] p p = Inr (t, q)"
    using assms(1) by (auto simp: quoted_string_def res_bind_Inr_iff)
  have "on_char s p" using safe_Inr [OF expect_safe [OF ascii_chars(1) assms(3)] p(1)] by blast
  from quoted_loop_reads [OF p(2) assms(2) this order_refl this]
  obtain u where u: "reads s p q (u @ [quote_char])" "quoted_text u = Some t" by (auto simp: range_of_def)
  then show ?thesis using reads_append [OF expect_reads [OF p(1)] u(1)] by auto
qed

section \<open>Variable blocks\<close>

text \<open>The segments between the semicolons: each is blank, or one assignment between blanks.\<close>

fun segment_spelled :: "string \<Rightarrow> map_assignment list \<Rightarrow> bool" where
  "segment_spelled seg [] \<longleftrightarrow> list_all ascii_space seg"
| "segment_spelled seg [x] \<longleftrightarrow> (\<exists>u w. seg = u @ as_raw x @ w \<and> list_all ascii_space (u @ w))"
| "segment_spelled seg _ \<longleftrightarrow> False"

definition segments_spelled :: "string \<Rightarrow> map_assignment list \<Rightarrow> bool" where
  "segments_spelled body xs \<longleftrightarrow> (\<exists>segs xss. list_all2 segment_spelled segs xss \<and> xs = concat xss
     \<and> body = concat (map (\<lambda>seg. seg @ '';'') segs))"

definition body_spelled :: "string \<Rightarrow> map_assignment list \<Rightarrow> bool" where
  "body_spelled body xs \<longleftrightarrow> segments_spelled (body @ '';'') xs"

lemma segments_spelled_Nil: "segments_spelled [] []"
  unfolding segments_spelled_def by (rule exI [of _ "[]"]) simp

lemma segments_spelled_snoc:
  "segments_spelled body xs \<Longrightarrow> segment_spelled seg ys \<Longrightarrow> segments_spelled (body @ seg @ '';'') (xs @ ys)"
  unfolding segments_spelled_def
proof (elim exE conjE)
  fix segs xss
  assume "list_all2 segment_spelled segs xss" "xs = concat xss" "body = concat (map (\<lambda>seg. seg @ '';'') segs)"
    and "segment_spelled seg ys"
  then show "\<exists>segs xss. list_all2 segment_spelled segs xss \<and> xs @ ys = concat xss
      \<and> body @ seg @ '';'' = concat (map (\<lambda>seg. seg @ '';'') segs)"
    by (intro exI [of _ "segs @ [seg]"] exI [of _ "xss @ [ys]"]) (simp add: list_all2_appendI)
qed

lemma trimmed_range_None:
  assumes "trimmed_range s a b = None" "a \<le> b" "b \<le> length s"
  shows "list_all ascii_space (range_of s a b)"
proof -
  define m where "m = length (takeWhile ascii_space (range_of s a b))"
  have m: "m \<le> b - a" using length_takeWhile_le [of ascii_space "range_of s a b"] assms(3) by (simp add: m_def)
  show ?thesis
  proof (cases "m = b - a")
    case True
    then have "takeWhile ascii_space (range_of s a b) = range_of s a b"
      using takeWhile_prefix(1) [OF m_def] assms(3) by simp
    then show ?thesis by (metis list_all_iff set_takeWhileD)
  next
    case False
    then have am: "a + m < b" "\<not> ascii_space (range_of s a b ! m)" using m takeWhile_prefix(4) [OF m_def] assms(3) by simp_all
    define n where "n = length (takeWhile ascii_space (rev (range_of s (a + m) b)))"
    have "range_of s (a + m) b ! 0 = range_of s a b ! m" using am assms(3) by (simp add: range_of_def)
    then have "\<not> list_all ascii_space (rev (range_of s (a + m) b))"
      using am assms(3) by (auto simp: list_all_iff in_set_conv_nth intro!: bexI [of _ "range_of s (a + m) b ! 0"] exI [of _ 0])
    then have "n < b - (a + m)"
      using takeWhile_prefix(1,2) [OF n_def] takeWhile_prefix(3) [OF n_def] assms(3)
      by (cases "n = b - (a + m)") simp_all
    then have "a + m < b - n" using am(1) by linarith
    then have "trimmed_range s a b = Some (a + m, b - n)" by (simp add: trimmed_range_def Let_def range_of_def m_def n_def)
    then show ?thesis using assms(1) by simp
  qed
qed

lemma push_variable_assignment_reads:
  assumes "push_variable_assignment s a0 b0 acc = Inr acc'" "a0 \<le> b0" "b0 \<le> length s"
  shows "\<exists>ys. acc' = acc @ ys \<and> segment_spelled (range_of s a0 b0) ys"
proof (cases "trimmed_range s a0 b0")
  case None
  then show ?thesis using assms trimmed_range_None by (intro exI [of _ "[]"]) (simp add: push_variable_assignment_def)
next
  case (Some ab)
  obtain a b where ab: "trimmed_range s a0 b0 = Some (a, b)" using Some by (cases ab) auto
  note T = trimmed_range_spec [OF ab assms(3)]
  obtain x where x: "acc' = acc @ [x]" "as_raw x = range_of s a b"
    using assms(1) ab by (auto simp: push_variable_assignment_def res_bind_Inr_iff reads_def dest!: map_slice_reads
      split: option.splits)
  have "range_of s a0 b0 = range_of s a0 a @ range_of s a b @ range_of s b b0"
    using range_of_split [of a0 a b0 s] range_of_split [of a b b0 s] T(1) by simp
  then show ?thesis using x T(2,3) by (intro exI [of _ "[x]"]) auto
qed

definition vars_spelled :: "string \<Rightarrow> nat \<Rightarrow> vars_scan \<Rightarrow> bool" where
  "vars_spelled s a vs \<longleftrightarrow> a \<le> vs_segment vs \<and> segments_spelled (range_of s a (vs_segment vs)) (vs_assignments vs)"

lemma vars_plain_cases:
  assumes "vars_plain s c pos vs = Inr (q, vs')"
  shows "(vs_assignments vs' = vs_assignments vs \<and> vs_segment vs' = vs_segment vs)
    \<or> (c = CHR '';'' \<and> (\<exists>acc. push_variable_assignment s (vs_segment vs) pos (vs_assignments vs) = Inr acc
      \<and> q = pos + 1 \<and> vs' = vs\<lparr>vs_assignments := acc, vs_segment := pos + 1\<rparr>))"
proof (cases "c = CHR '';'' \<and> vs_delimiters vs = []")
  case True
  then show ?thesis using assms by (auto simp: vars_plain_def res_bind_Inr_iff)
next
  case False
  have "gives (\<lambda>(q, vs'). vs_assignments vs' = vs_assignments vs \<and> vs_segment vs' = vs_segment vs) (vars_plain s c pos vs)"
    unfolding vars_plain_def if_not_P [OF False] by (simp split: if_split)
  then show ?thesis using assms by (simp add: gives_def)
qed

lemma vars_step_cases:
  assumes "vars_step s pos vs = Inr (q, vs')"
  shows "(vs_assignments vs' = vs_assignments vs \<and> vs_segment vs' = vs_segment vs)
    \<or> (s ! pos = CHR '';'' \<and> (\<exists>acc. push_variable_assignment s (vs_segment vs) pos (vs_assignments vs) = Inr acc
      \<and> q = pos + 1 \<and> vs' = vs\<lparr>vs_assignments := acc, vs_segment := pos + 1\<rparr>))"
  using assms vars_plain_cases [of s "s ! pos" pos vs q vs'] unfolding vars_step_def Let_def
  by (cases "sc_line (vs_scan vs)"; cases "sc_block (vs_scan vs)"; cases "sc_quote (vs_scan vs)") (auto split: if_splits)

lemma vars_step_spelled:
  assumes "vars_step s pos vs = Inr (q, vs')" "vars_spelled s a vs" "vs_segment vs \<le> pos" "pos < length s"
  shows "vars_spelled s a vs' \<and> vs_segment vs' \<le> q"
proof (cases "vs_assignments vs' = vs_assignments vs \<and> vs_segment vs' = vs_segment vs")
  case True
  then show ?thesis using assms vars_step_moves [OF assms(1)] by (simp add: vars_spelled_def)
next
  case False
  then obtain acc where acc: "s ! pos = CHR '';''" "push_variable_assignment s (vs_segment vs) pos (vs_assignments vs) = Inr acc"
    "q = pos + 1" "vs' = vs\<lparr>vs_assignments := acc, vs_segment := pos + 1\<rparr>"
    using vars_step_cases [OF assms(1)] by blast
  obtain ys where ys: "acc = vs_assignments vs @ ys" "segment_spelled (range_of s (vs_segment vs) pos) ys"
    using push_variable_assignment_reads [OF acc(2) assms(3)] assms(4) by auto
  have "range_of s a (Suc pos) = range_of s a (vs_segment vs) @ range_of s (vs_segment vs) pos @ '';''"
    using range_of_split [of a "vs_segment vs" "Suc pos" s] range_of_split [of "vs_segment vs" pos "Suc pos" s] assms(2,3,4)
      range_of_one [OF assms(4)] acc(1) by (simp add: vars_spelled_def)
  then show ?thesis using segments_spelled_snoc [OF _ ys(2)] assms(2,3) acc(3,4) ys(1) by (simp add: vars_spelled_def)
qed

lemma vars_step_stays: 
  "vars_step s pos vs = Inr (q, vs') \<Longrightarrow> vs_segment vs' = vs_segment vs \<or> vs_segment vs' = Suc pos"
  using vars_step_cases [of s pos vs q vs'] by auto

lemma vars_loop_spelled:
  assumes "vars_loop s e pos vs = Inr vs'" "vars_spelled s a vs" "vs_segment vs \<le> pos" "vs_segment vs \<le> e" "e \<le> length s"
  shows "vars_spelled s a vs' \<and> vs_segment vs' \<le> e"
  using assms
proof (induction s e pos vs rule: vars_loop.induct)
  case (1 s e pos vs)
  show ?case
  proof (cases "pos < e")
    case True
    then obtain q vs1 where st: "vars_step s pos vs = Inr (q, vs1)" "vars_loop s e q vs1 = Inr vs'"
      using 1(2) by (subst (asm) vars_loop.simps) (auto split: sum.splits)
    note S = vars_step_spelled [OF st(1) 1(3,4)] and T = vars_step_stays [OF st(1)]
    show ?thesis by (rule 1(1) [OF True st(1) refl st(2)]) (use S T True 1(5,6) in auto)
  next
    case False
    then show ?thesis using 1 by (subst (asm) vars_loop.simps) simp
  qed
qed

lemma parse_variable_assignments_reads:
  assumes "parse_variable_assignments s a b = Inr xs" "a \<le> b" "b \<le> length s"
  shows "body_spelled (range_of s a b) xs"
proof -
  let ?v = "\<lparr>vs_segment = a, vs_delimiters = [], vs_scan = scan_start, vs_assignments = []\<rparr>"
  obtain vs where vs: "vars_loop s b a ?v = Inr vs" "finish_variable_assignments s b vs = Inr xs"
    using assms(1) by (auto simp: parse_variable_assignments_def res_bind_Inr_iff)
  have "vars_spelled s a ?v" using segments_spelled_Nil by (simp add: vars_spelled_def range_of_def)
  from vars_loop_spelled [OF vs(1) this] have v: "vars_spelled s a vs" "vs_segment vs \<le> b" using assms(2,3) by simp_all
  have "push_variable_assignment s (vs_segment vs) b (vs_assignments vs) = Inr xs"
    using vs(2) by (simp add: finish_variable_assignments_def Let_def split: if_splits prod.splits)
  then obtain ys where ys: "xs = vs_assignments vs @ ys" "segment_spelled (range_of s (vs_segment vs) b) ys"
    using push_variable_assignment_reads v(2) assms(3) by blast
  have "range_of s a b = range_of s a (vs_segment vs) @ range_of s (vs_segment vs) b"
    using range_of_split [of a "vs_segment vs" b s] v by (simp add: vars_spelled_def)
  then show ?thesis using segments_spelled_snoc [OF _ ys(2)] v(1) ys(1) by (simp add: vars_spelled_def body_spelled_def)
qed

section \<open>Atoms and key definitions\<close>

definition atom_spelled :: "atom_initializer \<Rightarrow> string \<Rightarrow> bool" where
  "atom_spelled x t \<longleftrightarrow> starts_with (at_path x) ''/'' \<and> list_all path_byte (at_path x) \<and> (case at_variables x of
       None \<Rightarrow> at_assignments x = [] \<and> (\<exists>g. final_gap g \<and> t = at_path x @ g)
     | Some body \<Rightarrow> body_spelled body (at_assignments x) \<and> (\<exists>g. gap g \<and> t = at_path x @ g @ ''{'' @ body @ ''}''))"

lemma parse_atom_reads:
  assumes "parse_atom s a = Inr (x, q)"
  shows "\<exists>t. reads s a q t \<and> atom_spelled x t \<and> at_span x = \<lparr>span_start = a, span_end = q\<rparr>"
proof -
  have slash: "peek s a = Some (CHR ''/'')" using assms by (auto simp: parse_atom_def split: if_splits)
  then obtain r where r: "drop a s = CHR ''/'' # r" "a < length s"
    by (auto simp: peek_def Cons_nth_drop_Suc [symmetric] split: if_splits)
  let ?p = "takeWhile path_byte (drop a s)" and ?e = "skip_while path_byte s a"
  have p: "reads s a ?e ?p" using reads_while r(2) by simp
  have path: "starts_with ?p ''/''" "list_all path_byte ?p"
    using r by (auto simp: path_byte_def ascii_space_def byte_def list_all_iff dest: set_takeWhileD)
  from assms slash obtain m where m: "skip_space_and_comments s ?e = Inr m"
    and k: "(case consume (CHR ''{'') s m of
           None \<Rightarrow> res_bind (map_span a m) (\<lambda>span.
             Inr (\<lparr>at_path = ?p, at_variables = None, at_assignments = [], at_span = span\<rparr>, m))
         | Some b \<Rightarrow> (case scan_brace scan_start 1 b (drop b s) of
               None \<Rightarrow> Inl (error_at (length s) (length s) UnterminatedVariables)
             | Some e \<Rightarrow>
                 res_bind (map_slice s b e) (\<lambda>body.
                 res_bind (parse_variable_assignments s b e) (\<lambda>assignments.
                 res_bind (map_span a (e + 1)) (\<lambda>span.
                   Inr (\<lparr>at_path = ?p, at_variables = Some body, at_assignments = assignments, at_span = span\<rparr>,
                     e + 1)))))) = Inr (x, q)"
    using p by (auto simp: parse_atom_def Let_def res_bind_Inr_iff reads_def dest!: map_slice_reads)
  obtain g where g: "reads s ?e m g" "final_gap g" "m < length s \<longrightarrow> gap g"
    using skip_space_reads [OF m] reads_bounds [OF p] by blast
  show ?thesis
  proof (cases "consume (CHR ''{'') s m")
    case None
    then show ?thesis using k g(2) path reads_append [OF p g(1)]
      by (auto simp: res_bind_Inr_iff map_span_Inr atom_spelled_def)
  next
    case (Some b)
    note b = consume_reads [OF Some]
    obtain e body xs where e: "scan_brace scan_start 1 b (drop b s) = Some e" "map_slice s b e = Inr body"
      "parse_variable_assignments s b e = Inr xs" "q = e + 1"
      "x = \<lparr>at_path = ?p, at_variables = Some body, at_assignments = xs, at_span = \<lparr>span_start = a, span_end = q\<rparr>\<rparr>"
      using k Some by (auto simp: res_bind_Inr_iff map_span_Inr split: option.splits)
    note body = map_slice_reads [OF e(2)]
    have el: "e < length s" "s ! e = CHR ''}''"
      using scan_brace_ge [OF e(1)] scan_brace_closes [OF e(1)] reads_bounds [OF b] by simp_all
    have "m < length s" using reads_hd [OF b] reads_bounds [OF b] by simp
    moreover have "body_spelled body xs"
      using parse_variable_assignments_reads [OF e(3)] body by (auto simp: reads_def)
    moreover have "reads s a q (?p @ g @ ''{'' @ body @ ''}'')"
      using reads_append [OF p reads_append [OF g(1) reads_append [OF b reads_append [OF body reads_one [OF el(1)]]]]] el(2) e(4)
      by simp
    ultimately show ?thesis using g(3) path e(5) by (auto simp: atom_spelled_def)
  qed
qed

text \<open>The atoms of a key from the byte after its opening parenthesis to the byte after the closing one, with
  a comma after every atom but possibly the last, at the spans the atoms have.\<close>

inductive atoms_listed :: "string \<Rightarrow> nat \<Rightarrow> atom_initializer list \<Rightarrow> nat \<Rightarrow> bool" for s where
  listed_end: "reads s pos q (g @ '')'') \<Longrightarrow> gap g \<Longrightarrow> atoms_listed s pos [] q"
| listed_last: "reads s pos a g \<Longrightarrow> gap g \<Longrightarrow> reads s a b t \<Longrightarrow> atom_spelled x t
    \<Longrightarrow> at_span x = \<lparr>span_start = a, span_end = b\<rparr> \<Longrightarrow> reads s b q (h @ '')'') \<Longrightarrow> gap h \<Longrightarrow> atoms_listed s pos [x] q"
| listed_more: "reads s pos a g \<Longrightarrow> gap g \<Longrightarrow> reads s a b t \<Longrightarrow> atom_spelled x t
    \<Longrightarrow> at_span x = \<lparr>span_start = a, span_end = b\<rparr> \<Longrightarrow> reads s b r (h @ '','') \<Longrightarrow> gap h \<Longrightarrow> atoms_listed s r xs q
    \<Longrightarrow> atoms_listed s pos (x # xs) q"

lemma atoms_listed_bounds: "atoms_listed s pos xs q \<Longrightarrow> pos \<le> q \<and> q \<le> length s"
  by (induction rule: atoms_listed.induct) (auto simp: reads_def)

lemma gap_before:
  assumes "skip_space_and_comments s pos = Inr q" "reads s q r (c # t)" "pos \<le> length s"
  shows "\<exists>g. reads s pos q g \<and> gap g"
  using skip_space_gap [OF assms(1,3)] reads_hd [OF assms(2)] reads_bounds [OF assms(2)] by auto

lemma atoms_loop_reads:
  assumes "atoms_loop s pos atoms = Inr (out, q)" "pos \<le> length s"
  shows "\<exists>xs. out = atoms @ xs \<and> atoms_listed s pos xs q"
  using assms
proof (induction s pos atoms rule: atoms_loop.induct)
  case (1 s pos atoms)
  obtain p where p: "skip_space_and_comments s pos = Inr p"
    using 1(2) unfolding atoms_loop_unfold [of s pos atoms] by (auto simp: res_bind_Inr_iff)
  show ?case
  proof (cases "consume (CHR '')'') s p")
    case (Some r)
    note c = consume_reads [OF Some]
    obtain g where g: "reads s pos p g" "gap g" using gap_before [OF p c 1(3)] by blast
    have "out = atoms" "q = r" using 1(2) Some unfolding atoms_loop_unfold [of s pos atoms] p by simp_all
    then show ?thesis using listed_end [OF reads_append [OF g(1) c] g(2)] by simp
  next
    case None
    obtain x b m where x: "parse_atom s p = Inr (x, b)" "skip_space_and_comments s b = Inr m"
      and k: "(case consume (CHR '','') s m of Some q \<Rightarrow> atoms_loop s q (atoms @ [x])
         | None \<Rightarrow> res_bind (expect (CHR '')'') s m) (\<lambda>q. Inr (atoms @ [x], q))) = Inr (out, q)"
      using 1(2) None unfolding atoms_loop_unfold [of s pos atoms] p by (auto simp: res_bind_Inr_iff)
    obtain t where t: "reads s p b t" "atom_spelled x t" "at_span x = \<lparr>span_start = p, span_end = b\<rparr>"
      using parse_atom_reads [OF x(1)] by blast
    have "t \<noteq> []" using t(2) by (auto simp: atom_spelled_def split: option.splits)
    then obtain c u where "t = c # u" by (cases t) auto
    then obtain g where g: "reads s pos p g" "gap g" using gap_before [OF p _ 1(3)] t(1) by blast
    have bl: "b \<le> length s" using reads_bounds [OF t(1)] by simp
    show ?thesis
    proof (cases "consume (CHR '','') s m")
      case c: (Some r)
      note cr = consume_reads [OF c]
      obtain h where h: "reads s b m h" "gap h" using gap_before [OF x(2) cr bl] by blast
      have run: "atoms_loop s r (atoms @ [x]) = Inr (out, q)" using k c by simp
      have "r \<le> length s" using reads_bounds [OF cr] by simp
      from 1(1) [OF p None x(1) refl x(2) c run this] obtain xs where "out = (atoms @ [x]) @ xs" "atoms_listed s r xs q" by blast
      then show ?thesis using listed_more [OF g t reads_append [OF h(1) cr] h(2)] by auto
    next
      case c: None
      then have e: "expect (CHR '')'') s m = Inr q" "out = atoms @ [x]" using k by (auto simp: res_bind_Inr_iff)
      obtain h where "reads s b q (h @ '')'')" "gap h" using skip_space_expect [OF x(2) e(1) bl] by blast
      then show ?thesis using listed_last [OF g t] e(2) by blast
    qed
  qed
qed

definition key_spelled :: "string \<Rightarrow> key_definition \<Rightarrow> bool" where
  "key_spelled s d \<longleftrightarrow> (\<exists>u g h p. reads s (span_start (kd_span d)) p (quote_char # u @ quote_char # g @ ''='' @ h @ ''('')
     \<and> quoted_text u = Some (kd_key d) \<and> gap g \<and> gap h \<and> atoms_listed s p (kd_atoms d) (span_end (kd_span d)))"

lemma skip_space_on_char: "utf8_valid s \<Longrightarrow> on_char s pos \<Longrightarrow> skip_space_and_comments s pos = Inr q \<Longrightarrow> on_char s q"
  using safe_Inr [OF skip_space_safe] by blast

lemma parse_key_reads:
  assumes "parse_key s a = Inr (d, q)" "utf8_valid s" "on_char s a"
  shows "key_spelled s d \<and> span_start (kd_span d) = a \<and> span_end (kd_span d) = q \<and> a \<le> q \<and> q \<le> length s"
proof -
  obtain key p1 p2 p3 p4 p5 atoms where k: "quoted_string s a = Inr (key, p1)"
    "skip_space_and_comments s p1 = Inr p2" "expect (CHR ''='') s p2 = Inr p3"
    "skip_space_and_comments s p3 = Inr p4" "expect (CHR ''('') s p4 = Inr p5" "atoms_loop s p5 [] = Inr (atoms, q)"
    "d = \<lparr>kd_key = key, kd_atoms = atoms, kd_span = \<lparr>span_start = a, span_end = q\<rparr>\<rparr>"
    using assms(1) by (auto simp: parse_key_def res_bind_Inr_iff map_span_Inr)
  obtain u where u: "reads s a p1 (quote_char # u @ [quote_char])" "quoted_text u = Some key"
    using quoted_string_reads [OF k(1) assms(2,3)] by blast
  obtain g where g: "reads s p1 p3 (g @ ''='')" "gap g"
    using skip_space_expect [OF k(2,3)] reads_bounds [OF u(1)] by blast
  obtain h where h: "reads s p3 p5 (h @ ''('')" "gap h"
    using skip_space_expect [OF k(4,5)] reads_bounds [OF g(1)] by blast
  have all: "reads s a p5 (quote_char # u @ quote_char # g @ ''='' @ h @ ''('')"
    using reads_append [OF u(1) reads_append [OF g(1) h(1)]] by simp
  have "atoms_listed s p5 atoms q" using atoms_loop_reads [OF k(6)] reads_bounds [OF all] by simp
  then show ?thesis using all u(2) g(2) h(2) k(7) atoms_listed_bounds reads_bounds [OF all]
    by (fastforce simp: key_spelled_def)
qed

section \<open>Coordinate blocks\<close>

definition blank :: "string \<Rightarrow> bool" where
  "blank = list_all (\<lambda>c. byte c \<in> {32, 9, 13, 10})"

text \<open>The rows of a block: the lines of its text but the empty ones, without final carriage returns.\<close>

definition payload_rows :: "string \<Rightarrow> string list" where
  "payload_rows t = map trim_end_cr (filter (\<lambda>line. line \<noteq> []) (str_lines t))"

definition integer_spelled :: "string \<Rightarrow> int \<Rightarrow> bool" where
  "integer_spelled t n \<longleftrightarrow> (\<exists>h ds. t = h @ ds \<and> blank h \<and> parse_i32 ds = Some n)"

definition block_spelled :: "string \<Rightarrow> map_block \<Rightarrow> bool" where
  "block_spelled s b \<longleftrightarrow> (\<exists>x y z g h u payload. reads s (span_start (mb_span b)) (span_end (mb_span b))
       (''('' @ x @ '','' @ y @ '','' @ z @ '')'' @ g @ ''='' @ h @ ''{'' @ quote_char # u @ quote_char # ''}'')
     \<and> integer_spelled x (mb_x b) \<and> integer_spelled y (mb_y b) \<and> integer_spelled z (mb_z b) \<and> gap g \<and> blank h
     \<and> quoted_text u = Some payload \<and> mb_rows b = map (\<lambda>row. [row]) (payload_rows payload))"

lemma reads_horizontal: "pos \<le> length s \<Longrightarrow> \<exists>h. reads s pos (skip_horizontal_space s pos) h \<and> blank h"
  using reads_while [of pos s "\<lambda>c. byte c \<in> {32, 9, 13, 10}"]
  unfolding skip_horizontal_space_def blank_def by (metis (no_types, lifting) list_all_iff set_takeWhileD)

lemma integer_reads:
  assumes "integer s pos = Inr (n, q)" "pos \<le> length s"
  shows "\<exists>t. reads s pos q t \<and> integer_spelled t n"
proof -
  obtain h where h: "reads s pos (skip_horizontal_space s pos) h" "blank h" using reads_horizontal [OF assms(2)] by blast
  obtain t where t: "reads s (skip_horizontal_space s pos) q t" "parse_i32 t = Some n"
    using assms(1) by (auto simp: integer_def Let_def res_bind_Inr_iff dest!: map_slice_reads split: option.splits)
  show ?thesis using reads_append [OF h(1) t(1)] h(2) t(2) by (auto simp: integer_spelled_def)
qed

lemma parse_block_reads:
  assumes "parse_block s a = Inr (b, q)" "utf8_valid s" "on_char s a"
  shows "block_spelled s b \<and> span_start (mb_span b) = a \<and> span_end (mb_span b) = q \<and> a \<le> q \<and> q \<le> length s"
proof -
  obtain p1 x p2 p3 y p4 p5 z p6 p7 p8 p9 p10 payload p11 where k: "expect (CHR ''('') s a = Inr p1" "integer s p1 = Inr (x, p2)"
    "expect (CHR '','') s p2 = Inr p3" "integer s p3 = Inr (y, p4)" "expect (CHR '','') s p4 = Inr p5" "integer s p5 = Inr (z, p6)"
    "expect (CHR '')'') s p6 = Inr p7" "skip_space_and_comments s p7 = Inr p8" "expect (CHR ''='') s p8 = Inr p9"
    "expect (CHR ''{'') s (skip_horizontal_space s p9) = Inr p10" "quoted_string s p10 = Inr (payload, p11)"
    "expect (CHR ''}'') s p11 = Inr q"
    and b: "b = \<lparr>mb_x = x, mb_y = y, mb_z = z, mb_rows = map (\<lambda>line. [trim_end_cr line]) (filter (\<lambda>line. line \<noteq> []) (str_lines payload)),
         mb_span = \<lparr>span_start = a, span_end = q\<rparr>\<rparr>"
    using assms(1) by (auto simp: parse_block_def res_bind_Inr_iff map_span_Inr)
  note e = k(1,3,5,7,9,10,12) [THEN expect_reads]
  obtain tx where tx: "reads s p1 p2 tx" "integer_spelled tx x" using integer_reads [OF k(2)] reads_bounds [OF e(1)] by blast
  obtain ty where ty: "reads s p3 p4 ty" "integer_spelled ty y" using integer_reads [OF k(4)] reads_bounds [OF e(2)] by blast
  obtain tz where tz: "reads s p5 p6 tz" "integer_spelled tz z" using integer_reads [OF k(6)] reads_bounds [OF e(3)] by blast
  obtain g where g: "reads s p7 p9 (g @ ''='')" "gap g" using skip_space_expect [OF k(8,9)] reads_bounds [OF e(4)] by blast
  obtain h where h: "reads s p9 (skip_horizontal_space s p9) h" "blank h" using reads_horizontal reads_bounds [OF e(5)] by blast
  have "on_char s p10"
  proof -
    have "p10 = Suc (skip_horizontal_space s p9)" "s ! skip_horizontal_space s p9 = CHR ''{''" "p10 \<le> length s"
      using k(10) reads_bounds [OF e(6)] by (auto simp: expect_def consume_def peek_def split: if_splits)
    then show ?thesis using on_char_stop [OF assms(2), of "skip_horizontal_space s p9"] on_char_Suc [of s "skip_horizontal_space s p9"]
      ascii_not_cont [of "CHR ''{''"] by simp
  qed
  then obtain u where u: "reads s p10 p11 (quote_char # u @ [quote_char])" "quoted_text u = Some payload"
    using quoted_string_reads [OF k(11) assms(2)] by blast
  have "reads s a q (''('' @ tx @ '','' @ ty @ '','' @ tz @ '')'' @ g @ ''='' @ h @ ''{'' @ quote_char # u @ quote_char # ''}'')"
    using reads_append [OF e(1) reads_append [OF tx(1) reads_append [OF e(2) reads_append [OF ty(1) reads_append [OF e(3)
      reads_append [OF tz(1) reads_append [OF e(4) reads_append [OF g(1) reads_append [OF h(1) reads_append [OF e(6)
      reads_append [OF u(1) e(7)]]]]]]]]]]] by simp
  note all = this
  have "block_spelled s b" unfolding block_spelled_def
    by (rule exI [of _ tx], rule exI [of _ ty], rule exI [of _ tz], rule exI [of _ g], rule exI [of _ h],
        rule exI [of _ u], rule exI [of _ payload])
      (use all b tx ty tz g h u in \<open>simp add: payload_rows_def comp_def\<close>)
  then show ?thesis using all b reads_bounds [OF all] by simp
qed

section \<open>The whole map\<close>

text \<open>Key definitions and blocks in the order of the source, from an offset to its end.\<close>

inductive map_spelled :: "string \<Rightarrow> nat \<Rightarrow> key_definition list \<Rightarrow> map_block list \<Rightarrow> bool" for s where
  spelled_end: "reads s pos (length s) g \<Longrightarrow> final_gap g \<Longrightarrow> map_spelled s pos [] []"
| spelled_key: "reads s pos (span_start (kd_span d)) g \<Longrightarrow> gap g \<Longrightarrow> key_spelled s d
    \<Longrightarrow> map_spelled s (span_end (kd_span d)) ds bs \<Longrightarrow> map_spelled s pos (d # ds) bs"
| spelled_block: "reads s pos (span_start (mb_span b)) g \<Longrightarrow> gap g \<Longrightarrow> block_spelled s b
    \<Longrightarrow> map_spelled s (span_end (mb_span b)) ds bs \<Longrightarrow> map_spelled s pos ds (b # bs)"

definition insert_key :: "key_definition \<Rightarrow> (string \<rightharpoonup> key_definition) \<Rightarrow> (string \<rightharpoonup> key_definition)" where
  "insert_key d keys = keys(kd_key d \<mapsto> d)"

lemma parse_loop_reads:
  assumes "parse_loop s pos keys width blocks = Inr (keys', width', blocks', q)" "utf8_valid s" "on_char s pos"
  shows "\<exists>ds bs. map_spelled s pos ds bs \<and> keys' = fold insert_key ds keys \<and> blocks' = blocks @ bs
    \<and> distinct (map kd_key ds) \<and> (\<forall>d \<in> set ds. keys (kd_key d) = None)"
  using assms
proof (induction s pos keys width blocks rule: parse_loop.induct)
  case (1 s pos keys width blocks)
  note run = 1(3) and v = 1(4)
  obtain p where p: "skip_space_and_comments s pos = Inr p"
    using run unfolding parse_loop_unfold [of s pos keys width blocks] by (auto simp: res_bind_Inr_iff)
  have pos: "pos \<le> length s" and c: "on_char s p" using 1(5) skip_space_on_char [OF v 1(5) p] by (simp_all add: on_char_def)
  obtain g where g: "reads s pos p g" "final_gap g" "p < length s \<longrightarrow> gap g" using skip_space_reads [OF p pos] by blast
  have pl: "p \<le> length s" using c by (simp add: on_char_def)
  note run = run [unfolded parse_loop_unfold [of s pos keys width blocks] p res_bind_simps]
  consider "p = length s" | "p < length s" "peek s p = Some quote_char" | "p < length s" "peek s p = Some (CHR ''('')"
    using run pl by (auto split: if_splits)
  then show ?case
  proof cases
    case 1
    then show ?thesis using run g spelled_end [of s pos g] by (intro exI [of _ "[]"]) simp
  next
    case 2
    obtain d r where d: "parse_key s p = Inr (d, r)" "kd_key d \<noteq> []" "\<not> (width \<noteq> None \<and> width \<noteq> Some (length (kd_key d)))"
      "\<not> keys (kd_key d) \<noteq> None" and k: "parse_loop s r (keys(kd_key d \<mapsto> d)) (Some (length (kd_key d))) blocks = Inr (keys', width', blocks', q)"
      using run 2 by (auto simp: res_bind_Inr_iff split: if_splits)
    note D = parse_key_reads [OF d(1) v c]
    have cr: "on_char s r" using safe_Inr [OF parse_key_safe [OF v c] d(1)] by simp
    obtain ds bs where t: "map_spelled s r ds bs" "keys' = fold insert_key ds (keys(kd_key d \<mapsto> d))" "blocks' = blocks @ bs"
      "distinct (map kd_key ds)" "\<forall>e \<in> set ds. (keys(kd_key d \<mapsto> d)) (kd_key e) = None"
      using "1.IH"(1) [OF p less_imp_neq [OF 2(1)] 2(2) d(1) refl d(2-4) k v cr] by blast
    have "map_spelled s pos (d # ds) bs" using spelled_key [of s pos d g] D g 2(1) t(1) by simp
    moreover have "kd_key d \<notin> kd_key ` set ds" "\<forall>e \<in> set ds. keys (kd_key e) = None" using t(5) by (auto split: if_splits)
    ultimately show ?thesis using t d(4) by (intro exI [of _ "d # ds"] exI [of _ bs]) (simp add: insert_key_def [of d] del: fun_upd_apply)
  next
    case 3
    then have nq: "peek s p \<noteq> Some quote_char" by simp
    obtain b r where b: "parse_block s p = Inr (b, r)"
      and k: "parse_loop s r keys width (blocks @ [b]) = Inr (keys', width', blocks', q)"
      using run 3 by (auto simp: res_bind_Inr_iff)
    note B = parse_block_reads [OF b(1) v c]
    have cr: "on_char s r" using safe_Inr [OF parse_block_safe [OF v c] b] by simp
    obtain ds bs where t: "map_spelled s r ds bs" "keys' = fold insert_key ds keys" "blocks' = (blocks @ [b]) @ bs"
      "distinct (map kd_key ds)" "\<forall>e \<in> set ds. keys (kd_key e) = None"
      using "1.IH"(2) [OF p less_imp_neq [OF 3(1)] nq 3(2) b refl k v cr] by blast
    have "map_spelled s pos ds (b # bs)" using spelled_block [of s pos b g] B g 3(1) t(1) by simp
    then show ?thesis using t by (intro exI [of _ ds] exI [of _ "b # bs"]) simp
  qed
qed

end
