(* ===== verification/DmmProps.thy ===== *)
theory DmmProps
  imports DmmSpelling
begin

text \<open>
  Properties of the map parser.
\<close>

lemma dmm_parse_spec:
  assumes v: "utf8_valid s"
  shows "safe s (\<lambda>m. keys_ok s (dmm_keys m) (Some (key_width m))
    \<and> (\<exists>blocks q. parse_loop s 0 Map.empty None [] = Inr (dmm_keys m, Some (key_width m), blocks, q)
        \<and> list_all2 (grid_ok (dmm_keys m) (key_width m)) blocks (dmm_blocks m)))
    (dmm_parse s)"
  unfolding dmm_parse_def
proof (rule safe_bind_eq [OF parse_loop_safe [OF v]], goal_cases)
  case (4 x)
  obtain keys width blocks q where x: "x = (keys, width, blocks, q)" by (cases x)
  show ?case
  proof (cases width)
    case (Some w)
    have w: "0 < w" "keys_ok s keys (Some w)" "list_all (block_read s) blocks" using 4 x Some by (auto simp: keys_ok_def)
    have "safe s (list_all2 (grid_ok keys w) blocks) (map_each (resolve_block keys w) blocks)"
      by (rule map_each_safe, rule resolve_block_safe [OF w(1)]) (use w(3) in \<open>simp add: list_all_iff block_read_def\<close>)
    then have "safe s (\<lambda>m. keys_ok s (dmm_keys m) (Some (key_width m))
        \<and> (\<exists>blocks q. parse_loop s 0 Map.empty None [] = Inr (dmm_keys m, Some (key_width m), blocks, q)
            \<and> list_all2 (grid_ok (dmm_keys m) (key_width m)) blocks (dmm_blocks m)))
        (res_bind (map_each (resolve_block keys w) blocks) (\<lambda>blocks.
          Inr \<lparr>key_width = w, dmm_keys = keys, dmm_blocks = blocks\<rparr>))"
      by (rule safe_bind) (use w 4(1) x Some in auto)
    then show ?thesis using x Some by simp
  qed (use 4 x in simp)
qed (use v in \<open>simp_all add: on_char_def keys_ok_def\<close>)

text \<open>C20. On every valid UTF-8 source the map parser returns a map or an error whose span lies inside the
  source: no slice off a character boundary, no reversed span.\<close>

theorem dmm_parse_total:
  assumes "utf8_valid s"
  shows "dmm_parse s \<noteq> Inl MapPanic
    \<and> (\<forall>e sp. dmm_parse s = Inl (MapError e sp) \<longrightarrow> span_start sp \<le> span_end sp \<and> span_end sp \<le> length s)"
  using dmm_parse_spec [OF assms] by auto

definition sample_map :: string where
  "sample_map = ''\"a\" = (/obj{x = 1;y = NORTH},/turf)'' @ [nl_char] @ ''(1,2,3) = {\"'' @ [nl_char] @ ''aa'' @ [nl_char] @ ''\"}''"

lemma sample_map_valid: "utf8_valid sample_map"
  by code_simp

theorem dmm_parse_total_witness:
  "dmm_parse sample_map \<noteq> Inl MapPanic"
  using dmm_parse_total [OF sample_map_valid] by blast

text \<open>C21. A parsed map is spelled by its source, from the first byte to the last and in order. Between gaps of white space
  and line comments the source holds exactly the key definitions and the blocks of the map. A key definition is its key in
  quotes, escapes decoded, an equals sign and the parenthesised list of its atoms; an atom is its path and the variable
  block whose segments are its assignments, each with its target, equals sign and value; a block is its coordinates and
  the quoted text of its rows. Keys are distinct and of the key width, and the cells of a row are defined keys that spell
  out the row.\<close>

theorem dmm_parse_lossless:
  assumes "utf8_valid s" "dmm_parse s = Inr m"
  shows "\<exists>ds bs. map_spelled s 0 ds bs \<and> distinct (map kd_key ds) \<and> dmm_keys m = fold insert_key ds Map.empty
    \<and> 0 < key_width m \<and> (\<forall>k d. dmm_keys m k = Some d \<longrightarrow> kd_key d = k \<and> length k = key_width m \<and> key_ok s d)
    \<and> list_all2 (grid_ok (dmm_keys m) (key_width m)) bs (dmm_blocks m)"
proof -
  have spec: "keys_ok s (dmm_keys m) (Some (key_width m))"
    and "\<exists>blocks q. parse_loop s 0 Map.empty None [] = Inr (dmm_keys m, Some (key_width m), blocks, q)
      \<and> list_all2 (grid_ok (dmm_keys m) (key_width m)) blocks (dmm_blocks m)"
    using safe_Inr [OF dmm_parse_spec [OF assms(1)] assms(2)] by blast+
  then obtain blocks q where b: "parse_loop s 0 Map.empty None [] = Inr (dmm_keys m, Some (key_width m), blocks, q)"
    "list_all2 (grid_ok (dmm_keys m) (key_width m)) blocks (dmm_blocks m)" by blast
  have "on_char s 0" using assms(1) by (simp add: on_char_def)
  from parse_loop_reads [OF b(1) assms(1) this] show ?thesis using b(2) spec by (auto simp: keys_ok_def)
qed

lemma sample_map_parsed: "\<not> isl (dmm_parse sample_map)"
  by code_simp

theorem dmm_parse_lossless_witness:
  "0 < key_width (projr (dmm_parse sample_map)) \<and> (\<exists>ds bs. map_spelled sample_map 0 ds bs)"
  using dmm_parse_lossless [OF sample_map_valid, of "projr (dmm_parse sample_map)"] sample_map_parsed
  by (fastforce simp: sum.collapse)

text \<open>C38. The search for the equals sign of an assignment does not know comments: a segment that starts with a line comment
  is rejected for a missing equals sign when an apostrophe of the comment opens a quotation that the segment never closes
  (no further apostrophe) and no equals sign, bracket or quote stands before it, whatever assignment follows the comment.\<close>

theorem comment_apostrophe_hides_equals:
  assumes "trimmed_range s a b = Some (a, b)"
    and "range_of s a b = ''//'' @ t @ [apostrophe_char] @ r"
    and "list_all (\<lambda>c. c \<notin> set (''([{)]}='' @ [quote_char, apostrophe_char])) t" "apostrophe_char \<notin> set r"
  shows "push_variable_assignment s a b acc = Inl (error_at a b MissingEquals)"
proof -
  have quoted: "find_equals (Some apostrophe_char) e d pos r = None" if "apostrophe_char \<notin> set r" for e d pos r
    using that by (induction r arbitrary: e pos) auto
  have plain: "find_equals None e 0 pos (t @ [apostrophe_char] @ r) = None" for e pos
    using assms(3)
  proof (induction t arbitrary: pos)
    case Nil
    then show ?case using quoted [OF assms(4)] by simp
  qed auto
  have "find_assignment_equals s a b = None"
    using plain [of False "a + 2"] assms(2) by (simp add: find_assignment_equals_def range_of_def)
  then show ?thesis using assms(1) by (simp add: push_variable_assignment_def)
qed

definition comment_block :: string where
  "comment_block = ''// don'' @ [apostrophe_char] @ ''t'' @ [nl_char] @ ''x = 1''"

theorem comment_apostrophe_hides_equals_witness:
  "push_variable_assignment comment_block 0 15 [] = Inl (error_at 0 15 MissingEquals)"
  by (rule comment_apostrophe_hides_equals [of _ _ _ "'' don''" "''t'' @ [nl_char] @ ''x = 1''"])
    code_simp+

end
