(* ===== verification/DmSyntax.thy ===== *)
theory DmSyntax
  imports Lexer Vec
begin

text \<open>
  The syntax layer of \<open>crates/dm-syntax\<close>: the tokens of a source are grouped into logical lines,
  braced definitions are expanded to indented ones, and the lines are indexed as a tree of
  definitions with opaque procedure bodies. A panic is the outcome \<open>SyntaxPanic\<close>.
\<close>

datatype definition_kind = TypeDef | ProcedureDef | ProcedureOverride | VerbDef | VariableDef | VariableOverride

definition owns_procedure_body :: "definition_kind \<Rightarrow> bool" where
  "owns_procedure_body k \<longleftrightarrow> k \<in> {ProcedureDef, ProcedureOverride, VerbDef}"

record indentation =
  ind_tabs :: nat
  ind_spaces :: nat

definition indent_default :: indentation where
  "indent_default = \<lparr>ind_tabs = 0, ind_spaces = 0\<rparr>"

text \<open>\<open>saturating_mul\<close> and \<open>saturating_add\<close> of a \<open>usize\<close>.\<close>

definition saturated :: "int \<Rightarrow> nat" where
  "saturated n = nat (min 18446744073709551615 n)"

definition column :: "indentation \<Rightarrow> nat" where
  "column i = saturated (int (saturated (int (ind_tabs i) * 8)) + int (ind_spaces i))"

definition is_deeper_than :: "indentation \<Rightarrow> indentation \<Rightarrow> bool" where
  "is_deeper_than i j \<longleftrightarrow> column j < column i"

definition deeper_indentation :: "indentation \<Rightarrow> indentation" where
  "deeper_indentation i = i\<lparr>ind_tabs := saturated (int (ind_tabs i) + 1)\<rparr>"

datatype definition_path = DefinitionPath (path_list: "string list")

record parameter_syntax =
  ps_span :: source_span
  ps_tokens :: "spanned_token list"

record source_line =
  sl_indentation :: indentation
  sl_span :: source_span
  sl_tokens :: "spanned_token list"

record definition_syntax =
  df_path :: definition_path
  df_kind :: definition_kind
  df_parent :: "nat option"
  df_indentation :: indentation
  df_span :: source_span
  df_header :: "spanned_token list"
  df_parameters :: "parameter_syntax list"
  df_body :: "source_line list"

datatype syntax_failure =
    SyntaxLex string source_span
  | UnclosedDelimiter source_span
  | InfixNewline string source_span
  | SyntaxPanic

type_synonym 'a syntax_result = "syntax_failure + 'a"

definition syntax_span :: "nat \<Rightarrow> nat \<Rightarrow> source_span syntax_result" where
  "syntax_span a b = ok_or SyntaxPanic (source_span_new a b)"

definition definition_path_new :: "string list \<Rightarrow> definition_path syntax_result" where
  "definition_path_new segs = (if segs = [] \<or> [] \<in> set segs then Inl SyntaxPanic else Inr (DefinitionPath segs))"

definition path_ends_with :: "definition_path \<Rightarrow> string list \<Rightarrow> bool" where
  "path_ends_with p suffix \<longleftrightarrow> length suffix \<le> length (path_list p)
     \<and> drop (length (path_list p) - length suffix) (path_list p) = suffix"

abbreviation is_op :: "string \<Rightarrow> spanned_token \<Rightarrow> bool" where
  "is_op s t \<equiv> tok_kind t = Operator s"

abbreviation is_punct :: "char \<Rightarrow> spanned_token \<Rightarrow> bool" where
  "is_punct c t \<equiv> tok_kind t = Punctuation c"

abbreviation is_word :: "string \<Rightarrow> spanned_token \<Rightarrow> bool" where
  "is_word s t \<equiv> tok_kind t = Identifier s"

definition opens :: "spanned_token \<Rightarrow> bool" where
  "opens t \<longleftrightarrow> tok_kind t \<in> {Punctuation (CHR ''(''), Punctuation (CHR ''[''), Punctuation (CHR ''{'')}"

definition closes :: "spanned_token \<Rightarrow> bool" where
  "closes t \<longleftrightarrow> tok_kind t \<in> {Punctuation (CHR '')''), Punctuation (CHR '']''), Punctuation (CHR ''}'')}"

section \<open>Logical lines\<close>

record logical =
  lg_lines :: "source_line list"
  lg_indentation :: indentation
  lg_start :: "nat option"
  lg_tokens :: "spanned_token list"
  lg_delimiters :: "source_span list"

definition logical_new :: logical where
  "logical_new = \<lparr>lg_lines = [], lg_indentation = indent_default, lg_start = None, lg_tokens = [], lg_delimiters = []\<rparr>"

definition infix_operator_requires_rhs :: "string \<Rightarrow> bool" where
  "infix_operator_requires_rhs op \<longleftrightarrow> op \<in> set [''='', ''+='', ''-='', ''*='', ''/='', ''%='', ''&='', ''|='',
     ''^='', ''&&='', ''||='', ''<<='', ''>>='', ''%%='', ''**='', ''+'', ''-'', ''*'', ''/'', ''%'', ''&'',
     ''|'', ''^'', ''&&'', ''||'', ''<<'', ''>>'', ''%%'', ''**'', ''=='', ''!='', ''<>'', ''<'', ''>'', ''<='',
     ''>='', ''<=>'']"

definition line_start_of :: "logical \<Rightarrow> nat" where
  "line_start_of g = (case lg_start g of Some n \<Rightarrow> n | None \<Rightarrow> span_start (tok_span (hd (lg_tokens g))))"

text \<open>The line that ends at byte \<open>e\<close>.\<close>

definition finish_line :: "logical \<Rightarrow> nat \<Rightarrow> source_line list syntax_result" where
  "finish_line g e = (if lg_tokens g = [] then Inr (lg_lines g)
     else res_bind (syntax_span (line_start_of g) e) (\<lambda>span.
       Inr (lg_lines g @ [\<lparr>sl_indentation = lg_indentation g, sl_span = span, sl_tokens = lg_tokens g\<rparr>])))"

definition logical_newline :: "logical \<Rightarrow> spanned_token \<Rightarrow> logical syntax_result" where
  "logical_newline g t = (if lg_delimiters g = []
     then res_bind (finish_line g (span_end (tok_span t))) (\<lambda>ls.
       Inr (g\<lparr>lg_lines := ls, lg_tokens := [], lg_indentation := indent_default, lg_start := None\<rparr>))
     else (case lg_tokens g of
         [] \<Rightarrow> Inr g
       | _ \<Rightarrow> (case tok_kind (last (lg_tokens g)) of
           Operator op \<Rightarrow> if infix_operator_requires_rhs op then Inl (InfixNewline op (tok_span t)) else Inr g
         | _ \<Rightarrow> Inr g)))"

definition logical_token :: "logical \<Rightarrow> spanned_token \<Rightarrow> logical syntax_result" where
  "logical_token g t = (let h = g\<lparr>lg_tokens := lg_tokens g @ [t]\<rparr> in case tok_kind t of
     LineStart tabs spaces \<Rightarrow> Inr (if lg_tokens g = [] \<and> lg_start g = None
       then g\<lparr>lg_indentation := \<lparr>ind_tabs = tabs, ind_spaces = spaces\<rparr>, lg_start := Some (span_start (tok_span t))\<rparr>
       else g)
   | Newline \<Rightarrow> logical_newline g t
   | LineContinuation \<Rightarrow> Inr g
   | _ \<Rightarrow> Inr (if opens t then h\<lparr>lg_delimiters := lg_delimiters g @ [tok_span t]\<rparr>
        else if closes t then h\<lparr>lg_delimiters := butlast (lg_delimiters g)\<rparr>
        else h))"

fun logical_loop :: "logical \<Rightarrow> spanned_token list \<Rightarrow> logical syntax_result" where
  "logical_loop g [] = Inr g"
| "logical_loop g (t # ts) = res_bind (logical_token g t) (\<lambda>g. logical_loop g ts)"

definition build_logical_lines :: "spanned_token list \<Rightarrow> source_line list syntax_result" where
  "build_logical_lines toks = res_bind (logical_loop logical_new toks) (\<lambda>g. case lg_delimiters g of
       sp # _ \<Rightarrow> Inl (UnclosedDelimiter sp)
     | [] \<Rightarrow> if lg_tokens g = [] then Inr (lg_lines g) else finish_line g (span_end (tok_span (last (lg_tokens g)))))"

section \<open>Declaration headers\<close>

definition starts_with_slash :: "spanned_token list \<Rightarrow> bool" where
  "starts_with_slash ts \<longleftrightarrow> ts \<noteq> [] \<and> is_op ''/'' (hd ts)"

definition is_preprocessor_line :: "spanned_token list \<Rightarrow> bool" where
  "is_preprocessor_line ts \<longleftrightarrow> ts \<noteq> [] \<and> is_op ''#'' (hd ts)"

definition operator_procedure_suffix :: "token_kind \<Rightarrow> string option" where
  "operator_procedure_suffix k = (case k of
       Operator op \<Rightarrow> if op \<noteq> ''/'' \<and> op \<noteq> ''='' then Some op else None
     | StringLit text \<Rightarrow> if text = [] then Some [quote_char, quote_char] else None
     | _ \<Rightarrow> None)"

definition operator_index_suffix :: "spanned_token list \<Rightarrow> string option" where
  "operator_index_suffix ts = (let assignment = (ts \<noteq> [] \<and> is_op ''='' (last ts));
       e = length ts - (if assignment then 1 else 0) in
     if 3 \<le> e \<and> is_punct (CHR '']'') (ts ! (e - 1)) \<and> is_punct (CHR ''['') (ts ! (e - 2)) \<and> is_word ''operator'' (ts ! (e - 3))
     then Some (if assignment then ''[]='' else ''[]'') else None)"

fun identifier_names :: "spanned_token list \<Rightarrow> string list" where
  "identifier_names [] = []"
| "identifier_names (t # ts) = (case tok_kind t of Identifier name \<Rightarrow> name # identifier_names ts | _ \<Rightarrow> identifier_names ts)"

definition push_last :: "string \<Rightarrow> string list \<Rightarrow> string list" where
  "push_last suffix segs = butlast segs @ [last segs @ suffix]"

definition path_segments :: "spanned_token list \<Rightarrow> string list" where
  "path_segments ts = (let segs = identifier_names ts in
     if segs \<noteq> [] \<and> last segs = ''operator''
     then (case operator_procedure_suffix (tok_kind (last ts)) of
         Some suffix \<Rightarrow> push_last suffix segs
       | None \<Rightarrow> (case operator_index_suffix ts of Some suffix \<Rightarrow> push_last suffix segs | None \<Rightarrow> segs))
     else segs)"

definition path_token :: "spanned_token list \<Rightarrow> nat \<Rightarrow> bool" where
  "path_token ts i \<longleftrightarrow> (case tok_kind (ts ! i) of Identifier _ \<Rightarrow> True | _ \<Rightarrow> False)
     \<or> is_op ''/'' (ts ! i)
     \<or> (i + 1 = length ts \<and> i \<noteq> 0 \<and> is_word ''operator'' (ts ! (i - 1))
        \<and> operator_procedure_suffix (tok_kind (ts ! i)) \<noteq> None)"

function is_path_spelling :: "spanned_token list \<Rightarrow> bool" where
  "is_path_spelling ts = (case operator_index_suffix ts of
       Some _ \<Rightarrow> is_path_spelling (take (length ts - (if is_op ''='' (last ts) then 3 else 2)) ts)
     | None \<Rightarrow> list_all (path_token ts) [0..<length ts])"
  by pat_completeness auto
termination
  by (relation "measure length") (auto simp: operator_index_suffix_def Let_def split: if_splits)

declare is_path_spelling.simps [simp del]

record candidate =
  cd_segments :: "string list"
  cd_kind :: definition_kind
  cd_absolute :: bool

fun header_end_from :: "bool \<Rightarrow> spanned_token list \<Rightarrow> nat option" where
  "header_end_from seen_var [] = None"
| "header_end_from seen_var (t # ts) =
     (if is_punct (CHR ''('') t \<or> is_punct (CHR '';'') t \<or> (is_punct (CHR ''['') t \<and> seen_var) \<or> is_op ''='' t then Some 0
      else map_option Suc (header_end_from (seen_var \<or> is_word ''var'' t) ts))"

definition or_length :: "'a list \<Rightarrow> nat option \<Rightarrow> nat" where
  "or_length xs i = (case i of Some n \<Rightarrow> n | None \<Rightarrow> length xs)"

definition index_assignment_at :: "spanned_token list \<Rightarrow> nat \<Rightarrow> bool" where
  "index_assignment_at ts i \<longleftrightarrow> 3 \<le> i \<and> is_op ''='' (ts ! (i - 1)) \<and> is_punct (CHR '']'') (ts ! (i - 2))
     \<and> list_ex (is_word ''operator'') (take (i - 2) ts)"

definition header_end :: "spanned_token list \<Rightarrow> nat" where
  "header_end ts = (case vec_position (is_punct (CHR ''('')) ts of
       Some i \<Rightarrow> if index_assignment_at ts i then i else or_length ts (header_end_from False ts)
     | None \<Rightarrow> or_length ts (header_end_from False ts))"

definition candidate_kind :: "string list \<Rightarrow> spanned_token list \<Rightarrow> definition_kind" where
  "candidate_kind segs ts = (let open_paren = vec_position (is_punct (CHR ''('')) ts;
       assignment = vec_position (is_op ''='') ts in
     if ''verb'' \<in> set segs then VerbDef
     else if ''proc'' \<in> set segs then ProcedureDef
     else if ''var'' \<in> set segs then VariableDef
     else if open_paren \<noteq> None \<and> (assignment = None \<or> the open_paren < the assignment) then ProcedureOverride
     else if assignment \<noteq> None then VariableOverride
     else TypeDef)"

definition classify_line :: "spanned_token list \<Rightarrow> candidate option" where
  "classify_line ts = (if ts = [] \<or> is_preprocessor_line ts then None
     else let path = take (header_end ts) ts; segs = path_segments path in
       if segs = [] \<or> \<not> is_path_spelling path then None
       else Some \<lparr>cd_segments = segs, cd_kind = candidate_kind segs ts, cd_absolute = starts_with_slash path\<rparr>)"

text \<open>The index of the last element that satisfies \<open>p\<close>.\<close>

definition rposition :: "('a \<Rightarrow> bool) \<Rightarrow> 'a list \<Rightarrow> nat option" where
  "rposition p xs = map_option (\<lambda>i. length xs - 1 - i) (vec_position p (rev xs))"

definition canonicalize_path :: "string list option \<Rightarrow> candidate \<Rightarrow> definition_path syntax_result" where
  "canonicalize_path base c = (let segs =
       (if cd_absolute c then [] else case base of Some b \<Rightarrow> b | None \<Rightarrow> []) @ cd_segments c in
     case cd_kind c of
       ProcedureOverride \<Rightarrow> if segs = [] then Inl SyntaxPanic else definition_path_new (butlast segs @ [''proc'', last segs])
     | VariableOverride \<Rightarrow> if segs = [] then Inl SyntaxPanic else definition_path_new (butlast segs @ [''var'', last segs])
     | VariableDef \<Rightarrow> (case rposition (\<lambda>s. s = ''var'') segs of
           None \<Rightarrow> Inl SyntaxPanic
         | Some node \<Rightarrow> definition_path_new
             (if node + 1 < length segs then take (node + 1) segs @ [last segs] else segs))
     | _ \<Rightarrow> definition_path_new segs)"

text \<open>The token after the parameter list; \<open>depth\<close> counts the open parentheses.\<close>

fun signature_loop :: "nat \<Rightarrow> spanned_token list \<Rightarrow> nat option" where
  "signature_loop depth [] = None"
| "signature_loop depth (t # ts) =
     (if is_punct (CHR ''('') t then map_option Suc (signature_loop (depth + 1) ts)
      else if is_punct (CHR '')'') t then
        (if depth = 0 then None else if depth = 1 then Some 1 else map_option Suc (signature_loop (depth - 1) ts))
      else map_option Suc (signature_loop depth ts))"

definition procedure_signature_end :: "spanned_token list \<Rightarrow> nat option" where
  "procedure_signature_end ts = (case vec_position (is_punct (CHR ''('')) ts of
       None \<Rightarrow> None
     | Some i \<Rightarrow> map_option ((+) i) (signature_loop 0 (drop i ts)))"

definition push_parameter :: "spanned_token list \<Rightarrow> parameter_syntax list \<Rightarrow> parameter_syntax list syntax_result" where
  "push_parameter ts ps = (if ts = [] then Inr ps
     else res_bind (syntax_span (span_start (tok_span (hd ts))) (span_end (tok_span (last ts)))) (\<lambda>span.
       Inr (ps @ [\<lparr>ps_span = span, ps_tokens = ts\<rparr>])))"

text \<open>The parameters of the tokens between the parentheses; \<open>cur\<close> is the parameter being read.\<close>

fun parameters_loop :: "nat \<Rightarrow> spanned_token list \<Rightarrow> parameter_syntax list \<Rightarrow> spanned_token list \<Rightarrow> parameter_syntax list syntax_result" where
  "parameters_loop depth cur ps [] = push_parameter cur ps"
| "parameters_loop depth cur ps (t # ts) =
     (if opens t then parameters_loop (depth + 1) (cur @ [t]) ps ts
      else if closes t then parameters_loop (depth - 1) (cur @ [t]) ps ts
      else if is_punct (CHR '','') t \<and> depth = 0 then res_bind (push_parameter cur ps) (\<lambda>ps. parameters_loop depth [] ps ts)
      else parameters_loop depth (cur @ [t]) ps ts)"

definition parse_parameters :: "spanned_token list \<Rightarrow> parameter_syntax list syntax_result" where
  "parse_parameters ts = (case (vec_position (is_punct (CHR ''('')) ts, rposition (is_punct (CHR '')'')) ts) of
       (Some a, Some b) \<Rightarrow> if b \<le> a + 1 then Inr [] else parameters_loop 0 [] [] (take (b - (a + 1)) (drop (a + 1) ts))
     | _ \<Rightarrow> Inr [])"

section \<open>Braced definitions\<close>

definition line_from_tokens :: "spanned_token list \<Rightarrow> indentation \<Rightarrow> source_line option syntax_result" where
  "line_from_tokens ts ind = (if ts = [] then Inr None
     else res_bind (syntax_span (span_start (tok_span (hd ts))) (span_end (tok_span (last ts)))) (\<lambda>span.
       Inr (Some \<lparr>sl_indentation = ind, sl_span = span, sl_tokens = ts\<rparr>)))"

datatype boundary = AtSemicolon nat | AtBrace nat

fun sequence_boundary :: "nat \<Rightarrow> nat \<Rightarrow> spanned_token list \<Rightarrow> boundary option" where
  "sequence_boundary depth i [] = None"
| "sequence_boundary depth i (t # ts) =
     (if is_punct (CHR ''('') t \<or> is_punct (CHR ''['') t then sequence_boundary (depth + 1) (Suc i) ts
      else if is_punct (CHR '')'') t \<or> is_punct (CHR '']'') t then sequence_boundary (depth - 1) (Suc i) ts
      else if is_punct (CHR '';'') t \<and> depth = 0 then Some (AtSemicolon i)
      else if is_punct (CHR ''{'') t \<and> depth = 0 then Some (AtBrace i)
      else sequence_boundary depth (Suc i) ts)"

fun matching_brace :: "nat \<Rightarrow> nat \<Rightarrow> spanned_token list \<Rightarrow> nat option" where
  "matching_brace depth i [] = None"
| "matching_brace depth i (t # ts) =
     (if is_punct (CHR ''{'') t then matching_brace (depth + 1) (Suc i) ts
      else if is_punct (CHR ''}'') t then
        (if depth = 0 then None else if depth = 1 then Some i else matching_brace (depth - 1) (Suc i) ts)
      else matching_brace depth (Suc i) ts)"

text \<open>
  A definition line to be added to the output: none for no tokens, and failure (\<open>None\<close>) for
  tokens that are no declaration.
\<close>

definition push_definition_line :: "spanned_token list \<Rightarrow> indentation \<Rightarrow> source_line list \<Rightarrow> source_line list option syntax_result" where
  "push_definition_line ts ind output = res_bind (line_from_tokens ts ind) (\<lambda>line. case line of
       None \<Rightarrow> Inr (Some output)
     | Some line \<Rightarrow> if classify_line (sl_tokens line) = None then Inr None else Inr (Some (output @ [line])))"

definition push_token_segment :: "spanned_token list list \<Rightarrow> spanned_token list \<Rightarrow> spanned_token list list" where
  "push_token_segment segs seg = (if seg = [] then segs else segs @ [seg])"

text \<open>A line break in the source between the tokens read last and \<open>t\<close>.\<close>

definition line_break_before :: "string \<Rightarrow> nat \<Rightarrow> spanned_token list \<Rightarrow> spanned_token \<Rightarrow> bool syntax_result" where
  "line_break_before source depth cur t = (if cur \<noteq> [] \<and> depth = 0
     then (case slice source (span_end (tok_span (last cur))) (span_start (tok_span t)) of
         None \<Rightarrow> Inl SyntaxPanic | Some gap \<Rightarrow> Inr (list_ex newline_byte gap))
     else Inr False)"

fun split_loop :: "string \<Rightarrow> nat \<Rightarrow> spanned_token list \<Rightarrow> spanned_token list list \<Rightarrow> spanned_token list
    \<Rightarrow> spanned_token list list syntax_result" where
  "split_loop source depth cur segs [] = Inr (push_token_segment segs cur)"
| "split_loop source depth cur segs (t # ts) = res_bind (line_break_before source depth cur t) (\<lambda>broken.
     let segs = (if broken then push_token_segment segs cur else segs); cur = (if broken then [] else cur) in
     if opens t then split_loop source (depth + 1) (cur @ [t]) segs ts
     else if closes t then split_loop source (depth - 1) (cur @ [t]) segs ts
     else if is_punct (CHR '';'') t \<and> depth = 0 then split_loop source depth [] (push_token_segment segs cur) ts
     else split_loop source depth (cur @ [t]) segs ts)"

definition split_braced_body :: "string \<Rightarrow> spanned_token list \<Rightarrow> spanned_token list list syntax_result" where
  "split_braced_body source ts = split_loop source 0 [] [] ts"

lemma push_token_segment_size [simp]:
  "sum_list (map length (push_token_segment segs seg)) = sum_list (map length segs) + length seg"
  by (simp add: push_token_segment_def)

lemma split_loop_size:
  "split_loop source depth cur segs ts = Inr segs' \<Longrightarrow>
   sum_list (map length segs') \<le> sum_list (map length segs) + length cur + length ts"
proof (induction source depth cur segs ts rule: split_loop.induct)
  case (2 source depth cur segs t ts)
  obtain b where b: "line_break_before source depth cur t = Inr b" using 2(5) by (cases "line_break_before source depth cur t") auto
  show ?case using 2(5) 2(1) [OF b refl refl] 2(2) [OF b refl refl] 2(3) [OF b refl refl] 2(4) [OF b refl refl]
    by (auto simp: b Let_def split: if_splits)
qed auto

text \<open>
  The expansion of a sequence of definitions, with the lines it adds to the output; \<open>None\<close> when
  the tokens are no such sequence, and the output is truncated back to where it was. The cursor
  of the code is the list of the tokens still to read.
\<close>

function expand_sequence :: "string \<Rightarrow> indentation \<Rightarrow> bool \<Rightarrow> source_line list \<Rightarrow> spanned_token list
    \<Rightarrow> source_line list option syntax_result"
  and expand_body :: "string \<Rightarrow> indentation \<Rightarrow> definition_kind \<Rightarrow> source_line list \<Rightarrow> spanned_token list list
    \<Rightarrow> source_line list syntax_result" where
  "expand_sequence source ind found lines tokens = (case dropWhile (is_punct (CHR '';'')) tokens of
       [] \<Rightarrow> Inr (if found then Some lines else None)
     | t # ts \<Rightarrow> (case sequence_boundary 0 0 (t # ts) of
           None \<Rightarrow> res_bind (push_definition_line (t # ts) ind lines) (\<lambda>r. Inr (if found then r else None))
         | Some (AtSemicolon e) \<Rightarrow> res_bind (push_definition_line (take e (t # ts)) ind lines) (\<lambda>r. case r of
               None \<Rightarrow> Inr None | Some lines \<Rightarrow> expand_sequence source ind True lines (drop e ts))
         | Some (AtBrace e) \<Rightarrow> res_bind (line_from_tokens (take e (t # ts)) ind) (\<lambda>r. case r of
               None \<Rightarrow> Inr None
             | Some header \<Rightarrow> (case classify_line (sl_tokens header) of
                   None \<Rightarrow> Inr None
                 | Some c \<Rightarrow> if cd_kind c \<noteq> TypeDef \<and> \<not> owns_procedure_body (cd_kind c) then Inr None
                     else (case matching_brace 0 0 (drop e (t # ts)) of
                         None \<Rightarrow> Inr None
                       | Some n \<Rightarrow> res_bind (split_braced_body source (take (n - 1) (drop e ts))) (\<lambda>segs.
                           res_bind (expand_body source (deeper_indentation ind) (cd_kind c) (lines @ [header]) segs) (\<lambda>lines.
                             expand_sequence source ind True lines (drop (e + n) ts))))))))"
| "expand_body source ind kind lines [] = Inr lines"
| "expand_body source ind kind lines (seg # segs) =
     res_bind (if kind = TypeDef then expand_sequence source ind False lines seg else Inr None) (\<lambda>r. case r of
       Some lines \<Rightarrow> expand_body source ind kind lines segs
     | None \<Rightarrow> res_bind (line_from_tokens seg ind) (\<lambda>r. case r of
         None \<Rightarrow> expand_body source ind kind lines segs
       | Some line \<Rightarrow> expand_body source ind kind (lines @ [line]) segs))"
  by pat_completeness auto
termination
proof (relation "measures [case_sum (\<lambda>(source, ind, found, output, ts). length ts)
      (\<lambda>(source, ind, kind, output, segs). sum_list (map length segs)),
    case_sum (\<lambda>_. 0) (\<lambda>_. 1), case_sum (\<lambda>_. 0) (\<lambda>(source, ind, kind, output, segs). length segs)]",
    goal_cases)
  case (2 source ind found lines tokens t ts)
  then show ?case using length_dropWhile_le [of "is_punct (CHR '';'')" tokens] by simp
next
  case (3 source ind found lines tokens t ts)
  then show ?case using length_dropWhile_le [of "is_punct (CHR '';'')" tokens]
    by (auto simp: split_braced_body_def dest!: split_loop_size)
next
  case (4 source ind found lines tokens t ts)
  then show ?case using length_dropWhile_le [of "is_punct (CHR '';'')" tokens] by simp
qed (auto simp: zero_less_iff_neq_zero)

declare expand_sequence.simps [simp del] expand_body.simps(2) [simp del]

fun expand_braced_lines :: "string \<Rightarrow> source_line list \<Rightarrow> source_line list \<Rightarrow> source_line list syntax_result" where
  "expand_braced_lines source expanded [] = Inr expanded"
| "expand_braced_lines source expanded (line # ls) =
     res_bind (expand_sequence source (sl_indentation line) False expanded (sl_tokens line)) (\<lambda>r. case r of
         Some expanded \<Rightarrow> expand_braced_lines source expanded ls
       | None \<Rightarrow> expand_braced_lines source (expanded @ [line]) ls)"

section \<open>The tree of definitions\<close>

datatype namespace_kind = NsVariable | NsProcedure | NsVerb

fun ns_definition_kind :: "namespace_kind \<Rightarrow> definition_kind" where
  "ns_definition_kind NsVariable = VariableDef"
| "ns_definition_kind NsProcedure = ProcedureDef"
| "ns_definition_kind NsVerb = VerbDef"

datatype parse_context =
    InDefinition nat
  | InNamespace (ns_indentation: indentation) (ns_segments: "string list") (ns_owner: "nat option") (ns_kind: namespace_kind)

text \<open>The stack of open contexts, innermost first.\<close>

record syntax_parser =
  sp_definitions :: "definition_syntax list"
  sp_stack :: "parse_context list"

definition definition_at :: "syntax_parser \<Rightarrow> nat \<Rightarrow> definition_syntax syntax_result" where
  "definition_at p i = ok_or SyntaxPanic (vec_get (sp_definitions p) i)"

definition context_indentation :: "definition_syntax list \<Rightarrow> parse_context \<Rightarrow> indentation syntax_result" where
  "context_indentation defs ctx = (case ctx of
       InDefinition i \<Rightarrow> res_bind (ok_or SyntaxPanic (vec_get defs i)) (\<lambda>d. Inr (df_indentation d))
     | InNamespace ind _ _ _ \<Rightarrow> Inr ind)"

fun pop_finished :: "definition_syntax list \<Rightarrow> indentation \<Rightarrow> parse_context list \<Rightarrow> parse_context list syntax_result" where
  "pop_finished defs ind [] = Inr []"
| "pop_finished defs ind (ctx # stack) = res_bind (context_indentation defs ctx) (\<lambda>i.
     if is_deeper_than ind i then Inr (ctx # stack) else pop_finished defs ind stack)"

definition procedure_body_owner :: "syntax_parser \<Rightarrow> nat option syntax_result" where
  "procedure_body_owner p = (case sp_stack p of
       InDefinition i # _ \<Rightarrow> res_bind (definition_at p i) (\<lambda>d. Inr (if owns_procedure_body (df_kind d) then Some i else None))
     | _ \<Rightarrow> Inr None)"

definition indentation_base :: "syntax_parser \<Rightarrow> (string list option \<times> nat option) syntax_result" where
  "indentation_base p = (case sp_stack p of
       InDefinition i # _ \<Rightarrow> res_bind (definition_at p i) (\<lambda>d.
         Inr (if df_kind d = TypeDef then (Some (path_list (df_path d)), Some i) else (None, None)))
     | InNamespace _ segs owner _ # _ \<Rightarrow> Inr (Some segs, owner)
     | [] \<Rightarrow> Inr (None, None))"

definition current_namespace :: "syntax_parser \<Rightarrow> namespace_kind option" where
  "current_namespace p = (case sp_stack p of InNamespace _ _ _ k # _ \<Rightarrow> Some k | _ \<Rightarrow> None)"

definition namespace_kind_from_segments :: "string list \<Rightarrow> namespace_kind option" where
  "namespace_kind_from_segments segs = (if ''verb'' \<in> set segs then Some NsVerb
     else if ''proc'' \<in> set segs then Some NsProcedure
     else if ''var'' \<in> set segs then Some NsVariable else None)"

definition classify_namespace :: "syntax_parser \<Rightarrow> source_line \<Rightarrow> source_line option \<Rightarrow> (string list \<times> namespace_kind) option" where
  "classify_namespace p line next = (
     if (case next of None \<Rightarrow> True | Some l \<Rightarrow> \<not> is_deeper_than (sl_indentation l) (sl_indentation line))
       \<or> sl_tokens line = [] \<or> \<not> is_path_spelling (sl_tokens line) then None
     else let segs = path_segments (sl_tokens line) in
       case (case namespace_kind_from_segments segs of Some k \<Rightarrow> Some k | None \<Rightarrow> current_namespace p) of
         None \<Rightarrow> None
       | Some k \<Rightarrow> Some (segs, k))"

text \<open>Where a body starts on the line of its procedure's header.\<close>

definition inline_body_start :: "definition_kind \<Rightarrow> spanned_token list \<Rightarrow> nat option" where
  "inline_body_start kind ts = (if owns_procedure_body kind
     then (case procedure_signature_end ts of
         Some e \<Rightarrow> if e < length ts \<and> \<not> is_word ''as'' (ts ! e) then Some e else None
       | None \<Rightarrow> None)
     else None)"

definition push_namespace :: "syntax_parser \<Rightarrow> source_line \<Rightarrow> string list \<Rightarrow> namespace_kind \<Rightarrow> syntax_parser syntax_result" where
  "push_namespace p line segs kind = res_bind (indentation_base p) (\<lambda>(base, owner).
     let absolute = starts_with_slash (sl_tokens line);
         path = (if absolute then [] else case base of Some b \<Rightarrow> b | None \<Rightarrow> []) @ segs in
     Inr (p\<lparr>sp_stack := InNamespace (sl_indentation line) path (if absolute then None else owner) kind # sp_stack p\<rparr>))"

definition push_definition :: "syntax_parser \<Rightarrow> source_line \<Rightarrow> candidate \<Rightarrow> syntax_parser syntax_result" where
  "push_definition p line candidate = (let c = (case current_namespace p of
         Some k \<Rightarrow> candidate\<lparr>cd_kind := ns_definition_kind k\<rparr> | None \<Rightarrow> candidate) in
     res_bind (indentation_base p) (\<lambda>(base, owner).
     res_bind (canonicalize_path (if cd_absolute c then None else base) c) (\<lambda>path.
     let ts = sl_tokens line; inline = inline_body_start (cd_kind c) ts;
         header = (case inline of Some n \<Rightarrow> take n ts | None \<Rightarrow> ts);
         body = (case inline of Some n \<Rightarrow> [line\<lparr>sl_tokens := drop n ts\<rparr>] | None \<Rightarrow> []) in
     res_bind (if owns_procedure_body (cd_kind c) then parse_parameters header else Inr []) (\<lambda>parameters.
       Inr (p\<lparr>sp_definitions := sp_definitions p @
           [\<lparr>df_path = path, df_kind = cd_kind c, df_parent = (if cd_absolute c then None else owner),
             df_indentation = sl_indentation line, df_span = sl_span line, df_header = header,
             df_parameters = parameters, df_body = body\<rparr>],
         sp_stack := InDefinition (length (sp_definitions p)) # sp_stack p\<rparr>)))))"

definition push_body_line :: "syntax_parser \<Rightarrow> nat \<Rightarrow> source_line \<Rightarrow> syntax_parser syntax_result" where
  "push_body_line p i line = res_bind (definition_at p i) (\<lambda>d.
     Inr (p\<lparr>sp_definitions := (sp_definitions p)[i := d\<lparr>df_body := df_body d @ [line]\<rparr>]\<rparr>))"

text \<open>The procedure whose body a line continues.\<close>

definition body_target :: "syntax_parser \<Rightarrow> source_line \<Rightarrow> nat option syntax_result" where
  "body_target p line = res_bind (procedure_body_owner p) (\<lambda>owner. case owner of
       None \<Rightarrow> Inr None
     | Some i \<Rightarrow> res_bind (definition_at p i) (\<lambda>d.
         Inr (if is_deeper_than (sl_indentation line) (df_indentation d) then Some i else None)))"

definition parse_line :: "syntax_parser \<Rightarrow> source_line \<Rightarrow> source_line option \<Rightarrow> syntax_parser syntax_result" where
  "parse_line p line next = res_bind (pop_finished (sp_definitions p) (sl_indentation line) (sp_stack p)) (\<lambda>stack.
     let p = p\<lparr>sp_stack := stack\<rparr> in
     res_bind (body_target p line) (\<lambda>target. case target of
         Some i \<Rightarrow> push_body_line p i line
       | None \<Rightarrow> (case classify_namespace p line next of
             Some (segs, kind) \<Rightarrow> push_namespace p line segs kind
           | None \<Rightarrow> (case classify_line (sl_tokens line) of
                 None \<Rightarrow> Inr p
               | Some candidate \<Rightarrow> push_definition p line candidate))))"

fun parser_run :: "syntax_parser \<Rightarrow> source_line list \<Rightarrow> syntax_parser syntax_result" where
  "parser_run p [] = Inr p"
| "parser_run p (line # ls) = res_bind (parse_line p line (case ls of [] \<Rightarrow> None | l # _ \<Rightarrow> Some l)) (\<lambda>p. parser_run p ls)"

definition syntax_parser_new :: syntax_parser where
  "syntax_parser_new = \<lparr>sp_definitions = [], sp_stack = []\<rparr>"

definition syntax_lines :: "string \<Rightarrow> source_line list syntax_result" where
  "syntax_lines source = (case lex source of
       Inl LexPanic \<Rightarrow> Inl SyntaxPanic
     | Inl (LexError message span) \<Rightarrow> Inl (SyntaxLex message span)
     | Inr toks \<Rightarrow> res_bind (build_logical_lines toks) (expand_braced_lines source []))"

definition syntax_parse :: "string \<Rightarrow> definition_syntax list syntax_result" where
  "syntax_parse source = res_bind (syntax_lines source) (\<lambda>ls. res_bind (parser_run syntax_parser_new ls) (\<lambda>p. Inr (sp_definitions p)))"

end
