(* ===== verification/DmSyntaxLaws.thy ===== *)
theory DmSyntaxLaws
  imports DmSyntax LexerLaws
begin

text \<open>
  Laws of the syntax layer up to the list of expanded lines: no step panics on the tokens of a
  source, error spans lie inside it, and no token but separators and braces is lost.
\<close>

section \<open>Tokens of a source\<close>

definition tokens_ok :: "string \<Rightarrow> spanned_token list \<Rightarrow> bool" where
  "tokens_ok source ts \<longleftrightarrow> in_order ts \<and> (\<forall>t \<in> set ts. token_ok source (length source) t)"

lemma tokens_ok_append:
  "tokens_ok source (xs @ ys) \<longleftrightarrow> tokens_ok source xs \<and> tokens_ok source ys
     \<and> (\<forall>x \<in> set xs. \<forall>y \<in> set ys. span_end (tok_span x) \<le> span_start (tok_span y))"
  by (auto simp: tokens_ok_def in_order_def sorted_wrt_append)

lemma tokens_ok_Nil [simp]: "tokens_ok source []"
  by (simp add: tokens_ok_def in_order_def)

lemma tokens_ok_one [simp]: "tokens_ok source [t] \<longleftrightarrow> token_ok source (length source) t"
  by (simp add: tokens_ok_def in_order_def)

lemma tokens_ok_Cons:
  "tokens_ok source (x # ys) \<longleftrightarrow> token_ok source (length source) x \<and> tokens_ok source ys
     \<and> (\<forall>y \<in> set ys. span_end (tok_span x) \<le> span_start (tok_span y))"
  using tokens_ok_append [of source "[x]" ys] by simp

lemma tokens_ok_parts: "tokens_ok source ts \<Longrightarrow> tokens_ok source (take n ts)" "tokens_ok source ts \<Longrightarrow> tokens_ok source (drop n ts)"
  using tokens_ok_append [of source "take n ts" "drop n ts"] by auto

lemma tokens_ok_filter: "tokens_ok source ts \<Longrightarrow> tokens_ok source (filter p ts)"
  by (induction ts) (auto simp: tokens_ok_Cons)

lemma tokens_ok_dropWhile: "tokens_ok source ts \<Longrightarrow> tokens_ok source (dropWhile p ts)"
  by (simp add: dropWhile_eq_drop tokens_ok_parts)

lemma tokens_ok_member: "tokens_ok source ts \<Longrightarrow> t \<in> set ts \<Longrightarrow> token_ok source (length source) t"
  by (simp add: tokens_ok_def)

definition span_inside :: "string \<Rightarrow> source_span \<Rightarrow> bool" where
  "span_inside source sp \<longleftrightarrow> span_start sp \<le> span_end sp \<and> span_end sp \<le> length source"

lemma token_inside: "token_ok source (length source) t \<Longrightarrow> span_inside source (tok_span t)"
  by (simp add: token_ok_def span_inside_def)

lemma tokens_span:
  assumes "tokens_ok source ts" "ts \<noteq> []"
  shows "span_start (tok_span (hd ts)) \<le> span_end (tok_span (last ts)) \<and> span_end (tok_span (last ts)) \<le> length source"
proof (cases ts)
  case (Cons t rest)
  have "token_ok source (length source) t" "token_ok source (length source) (last ts)"
    using assms Cons by (auto intro: tokens_ok_member)
  moreover have "span_end (tok_span t) \<le> span_start (tok_span (last rest))" if "rest \<noteq> []"
    using assms that Cons by (simp add: tokens_ok_Cons)
  ultimately show ?thesis using Cons by (cases "rest = []") (auto simp: token_ok_def)
qed (use assms in simp)

fun syntax_failure_ok :: "string \<Rightarrow> syntax_failure \<Rightarrow> bool" where
  "syntax_failure_ok source (SyntaxLex message sp) \<longleftrightarrow> span_inside source sp"
| "syntax_failure_ok source (UnclosedDelimiter sp) \<longleftrightarrow> span_inside source sp"
| "syntax_failure_ok source (InfixNewline op sp) \<longleftrightarrow> span_inside source sp"
| "syntax_failure_ok source SyntaxPanic \<longleftrightarrow> False"

abbreviation sound :: "string \<Rightarrow> ('a \<Rightarrow> bool) \<Rightarrow> 'a syntax_result \<Rightarrow> bool" where
  "sound source \<equiv> satisfies (syntax_failure_ok source)"

lemma syntax_span_ok: "a \<le> b \<Longrightarrow> syntax_span a b = Inr \<lparr>span_start = a, span_end = b\<rparr>"
  by (simp add: syntax_span_def source_span_new_def)

section \<open>Logical lines\<close>

definition code_token :: "spanned_token \<Rightarrow> bool" where
  "code_token t \<longleftrightarrow> (case tok_kind t of LineStart _ _ \<Rightarrow> False | Newline \<Rightarrow> False | LineContinuation \<Rightarrow> False | _ \<Rightarrow> True)"

definition line_ok :: "string \<Rightarrow> source_line \<Rightarrow> bool" where
  "line_ok source l \<longleftrightarrow> sl_tokens l \<noteq> [] \<and> tokens_ok source (sl_tokens l) \<and> span_inside source (sl_span l)
     \<and> span_start (sl_span l) \<le> span_start (tok_span (hd (sl_tokens l)))
     \<and> span_end (tok_span (last (sl_tokens l))) \<le> span_end (sl_span l)"

definition line_tokens :: "source_line list \<Rightarrow> spanned_token list" where
  "line_tokens ls = concat (map sl_tokens ls)"

lemma line_tokens_simps [simp]: "line_tokens [] = []" "line_tokens (xs @ ys) = line_tokens xs @ line_tokens ys"
  "line_tokens (l # ls) = sl_tokens l @ line_tokens ls"
  by (simp_all add: line_tokens_def)

lemma line_from_tokens_sound:
  assumes "tokens_ok source ts"
  shows "sound source (\<lambda>r. case r of None \<Rightarrow> ts = []
    | Some l \<Rightarrow> sl_tokens l = ts \<and> line_ok source l \<and> sl_indentation l = ind) (line_from_tokens ts ind)"
  using tokens_span [OF assms] assms
  by (auto simp: line_from_tokens_def line_ok_def span_inside_def syntax_span_ok)

definition logical_ok :: "string \<Rightarrow> spanned_token list \<Rightarrow> spanned_token list \<Rightarrow> logical \<Rightarrow> bool" where
  "logical_ok source before after g \<longleftrightarrow> tokens_ok source (before @ after)
     \<and> line_tokens (lg_lines g) @ lg_tokens g = filter code_token before
     \<and> list_all (line_ok source) (lg_lines g)
     \<and> (\<forall>n. lg_start g = Some n \<longrightarrow> (\<forall>t \<in> set (lg_tokens g @ after). n \<le> span_start (tok_span t)))
     \<and> (\<forall>sp \<in> set (lg_delimiters g). span_inside source sp)"

lemma logical_tokens_ok:
  assumes "logical_ok source before after g"
  shows "tokens_ok source (lg_tokens g)" "lg_tokens g \<noteq> [] \<Longrightarrow> line_start_of g \<le> span_start (tok_span (hd (lg_tokens g)))"
proof -
  have "tokens_ok source (line_tokens (lg_lines g) @ lg_tokens g)"
    using assms tokens_ok_filter [of source before code_token] by (simp add: logical_ok_def tokens_ok_append)
  then show "tokens_ok source (lg_tokens g)" by (simp add: tokens_ok_append)
  show "line_start_of g \<le> span_start (tok_span (hd (lg_tokens g)))" if "lg_tokens g \<noteq> []"
    using assms that by (auto simp: logical_ok_def line_start_of_def split: option.split)
qed

lemma finish_line_sound:
  assumes "logical_ok source before after g" "e \<le> length source" "lg_tokens g \<noteq> [] \<Longrightarrow> span_end (tok_span (last (lg_tokens g))) \<le> e"
  shows "sound source (\<lambda>ls. list_all (line_ok source) ls \<and> line_tokens ls = filter code_token before) (finish_line g e)"
  using logical_tokens_ok [OF assms(1)] tokens_span [of source "lg_tokens g"] assms
  by (auto simp: finish_line_def syntax_span_ok line_ok_def span_inside_def logical_ok_def)

lemma logical_token_sound:
  assumes g: "logical_ok source before (t # after) g"
  shows "sound source (logical_ok source (before @ [t]) after) (logical_token g t)"
proof -
  have t: "token_ok source (length source) t" using g by (simp add: logical_ok_def tokens_ok_append tokens_ok_Cons)
  have later: "span_end (tok_span t) \<le> span_start (tok_span u)" if "u \<in> set after" for u
    using g that by (simp add: logical_ok_def tokens_ok_append tokens_ok_Cons)
  have earlier: "span_end (tok_span u) \<le> span_start (tok_span t)" if "u \<in> set (lg_tokens g)" for u
  proof -
    have "u \<in> set (filter code_token before)" using g that by (metis logical_ok_def Un_iff set_append)
    then show ?thesis using g by (simp add: logical_ok_def tokens_ok_append)
  qed
  have start: "span_start (tok_span t) \<le> span_start (tok_span u)" if "u \<in> set after" for u
    using t later [OF that] by (simp add: token_ok_def)
  have line: "span_end (tok_span (last (lg_tokens g))) \<le> span_end (tok_span t)" if "lg_tokens g \<noteq> []"
    using earlier [of "last (lg_tokens g)"] that t by (simp add: token_ok_def)
  have skip: "logical_ok source (before @ [t]) after g" if "\<not> code_token t"
    using g that by (simp add: logical_ok_def)
  have newline: "sound source (logical_ok source (before @ [t]) after) (logical_newline g t)" if "tok_kind t = Newline"
  proof (cases "lg_delimiters g = []")
    case True
    have "sound source (\<lambda>ls. list_all (line_ok source) ls \<and> line_tokens ls = filter code_token before)
        (finish_line g (span_end (tok_span t)))"
      by (rule finish_line_sound [OF g]) (use t line in \<open>auto simp: token_ok_def\<close>)
    then show ?thesis unfolding logical_newline_def if_P [OF True]
    proof (rule satisfies_bind)
      fix ls assume "list_all (line_ok source) ls \<and> line_tokens ls = filter code_token before"
      then show "sound source (logical_ok source (before @ [t]) after)
          (Inr (g\<lparr>lg_lines := ls, lg_tokens := [], lg_indentation := indent_default, lg_start := None\<rparr>))"
        using g that True by (simp add: logical_ok_def code_token_def)
    qed
  next
    case False
    have "\<not> code_token t" using that by (simp add: code_token_def)
    then show ?thesis using False skip token_inside [OF t]
      by (simp add: logical_newline_def split: list.split token_kind.split)
  qed
  have push: "logical_ok source (before @ [t]) after (g\<lparr>lg_tokens := lg_tokens g @ [t], lg_delimiters := ds\<rparr>)"
    if "code_token t" "\<forall>sp \<in> set ds. span_inside source sp" for ds
    using g that by (simp add: logical_ok_def)
  have code: "sound source (logical_ok source (before @ [t]) after) (Inr (
      if opens t then g\<lparr>lg_tokens := lg_tokens g @ [t], lg_delimiters := lg_delimiters g @ [tok_span t]\<rparr>
      else if closes t then g\<lparr>lg_tokens := lg_tokens g @ [t], lg_delimiters := butlast (lg_delimiters g)\<rparr>
      else g\<lparr>lg_tokens := lg_tokens g @ [t]\<rparr>))" if "code_token t"
    using push [OF that, of "lg_delimiters g"] push [OF that, of "butlast (lg_delimiters g)"] g token_inside [OF t]
      push [OF that, of "lg_delimiters g @ [tok_span t]"]
    by (auto simp: logical_ok_def dest: in_set_butlastD)
  show ?thesis
  proof (cases "tok_kind t")
    case (LineStart tabs spaces)
    then have "logical_ok source (before @ [t]) after (g\<lparr>lg_indentation := i, lg_start := Some (span_start (tok_span t))\<rparr>)"
      if "lg_tokens g = []" for i
      using g start that by (simp add: logical_ok_def code_token_def)
    then show ?thesis using skip LineStart by (simp add: logical_token_def Let_def code_token_def)
  qed (use code newline skip in \<open>simp_all add: logical_token_def Let_def code_token_def\<close>)
qed

lemma logical_loop_sound:
  "logical_ok source before after g \<Longrightarrow> sound source (logical_ok source (before @ after) []) (logical_loop g after)"
proof (induction g after arbitrary: before rule: logical_loop.induct)
  case (2 g t ts)
  show ?case using satisfies_bind_eq [OF logical_token_sound [OF 2(2)], of _ "\<lambda>g. logical_loop g ts"]
    2(1) [of _ "before @ [t]"] by simp
qed simp

lemma build_logical_lines_sound:
  assumes "tokens_ok source toks"
  shows "sound source (\<lambda>ls. list_all (line_ok source) ls \<and> line_tokens ls = filter code_token toks) (build_logical_lines toks)"
  unfolding build_logical_lines_def
proof (rule satisfies_bind [OF logical_loop_sound])
  show "logical_ok source [] toks logical_new" using assms by (simp add: logical_ok_def logical_new_def)
  fix g assume "logical_ok source ([] @ toks) [] g"
  then have g: "logical_ok source toks [] g" by simp
  have "sound source (\<lambda>ls. list_all (line_ok source) ls \<and> line_tokens ls = filter code_token toks)
      (finish_line g (span_end (tok_span (last (lg_tokens g)))))" if "lg_tokens g \<noteq> []"
    by (rule finish_line_sound [OF g]) (use that tokens_span [OF logical_tokens_ok(1) [OF g]] in auto)
  then show "sound source (\<lambda>ls. list_all (line_ok source) ls \<and> line_tokens ls = filter code_token toks)
      (case lg_delimiters g of sp # _ \<Rightarrow> Inl (UnclosedDelimiter sp)
       | [] \<Rightarrow> if lg_tokens g = [] then Inr (lg_lines g) else finish_line g (span_end (tok_span (last (lg_tokens g)))))"
    using g by (auto simp: logical_ok_def split: list.split)
qed

section \<open>Braced definitions\<close>

text \<open>The tokens that expansion keeps: all but the separators and the braces.\<close>

definition kept_token :: "spanned_token \<Rightarrow> bool" where
  "kept_token t \<longleftrightarrow> tok_kind t \<notin> {Punctuation (CHR '';''), Punctuation (CHR ''{''), Punctuation (CHR ''}'')}"

abbreviation kept :: "source_line list \<Rightarrow> spanned_token list" where
  "kept ls \<equiv> filter kept_token (line_tokens ls)"

lemma kept_dropWhile_semicolons: "filter kept_token (dropWhile (is_punct (CHR '';'')) ts) = filter kept_token ts"
  by (induction ts) (auto simp: kept_token_def)

lemma sequence_boundary_at:
  assumes "sequence_boundary depth i ts = Some b"
  shows "(case b of AtSemicolon e \<Rightarrow> i \<le> e \<and> e < i + length ts \<and> is_punct (CHR '';'') (ts ! (e - i))
    | AtBrace e \<Rightarrow> i \<le> e \<and> e < i + length ts \<and> is_punct (CHR ''{'') (ts ! (e - i)))"
  using assms
proof (induction depth i ts rule: sequence_boundary.induct)
  case (2 depth i t ts)
  have nth: "(t # ts) ! (e - i) = ts ! (e - Suc i)" if "Suc i \<le> e" for e
    using that by (simp add: Suc_diff_Suc [symmetric] Suc_le_lessD)
  show ?case using 2 by (auto simp: nth split: if_splits boundary.splits)
qed simp

lemma matching_brace_at:
  assumes "matching_brace depth i ts = Some n"
  shows "i \<le> n \<and> n < i + length ts \<and> is_punct (CHR ''}'') (ts ! (n - i))"
  using assms
proof (induction depth i ts rule: matching_brace.induct)
  case (2 depth i t ts)
  have nth: "(t # ts) ! (n - i) = ts ! (n - Suc i)" if "Suc i \<le> n"
    using that by (simp add: Suc_diff_Suc [symmetric] Suc_le_lessD)
  show ?case using 2 by (auto simp: nth split: if_splits)
qed simp

text \<open>The pieces of a token list at a semicolon, and at a brace and its match.\<close>

lemma split_at_semicolon:
  assumes "sequence_boundary 0 0 (t # ts) = Some (AtSemicolon e)"
  shows "filter kept_token (take e (t # ts)) @ filter kept_token (drop e ts) = filter kept_token (t # ts)"
proof -
  have e: "e < length (t # ts)" "is_punct (CHR '';'') ((t # ts) ! e)" using sequence_boundary_at [OF assms] by auto
  have "t # ts = take e (t # ts) @ (t # ts) ! e # drop e ts"
    using id_take_nth_drop [OF e(1)] by simp
  from arg_cong [OF this, of "filter kept_token"] show ?thesis using e(2) by (simp add: kept_token_def)
qed

lemma split_at_braces:
  assumes "sequence_boundary 0 0 (t # ts) = Some (AtBrace e)" "matching_brace 0 0 (drop e (t # ts)) = Some n"
  shows "filter kept_token (take e (t # ts)) @ filter kept_token (take (n - 1) (drop e ts))
    @ filter kept_token (drop (e + n) ts) = filter kept_token (t # ts)"
proof -
  have e: "e < length (t # ts)" "is_punct (CHR ''{'') ((t # ts) ! e)" using sequence_boundary_at [OF assms(1)] by auto
  define brace rest where "brace = (t # ts) ! e" and "rest = drop e ts"
  have tail: "drop e (t # ts) = brace # rest" using Cons_nth_drop_Suc [OF e(1)] by (simp add: brace_def rest_def)
  have "matching_brace 1 1 rest = Some n" using assms(2) e(2) tail by (simp add: brace_def)
  from matching_brace_at [OF this] obtain m where m: "n = Suc m" "m < length rest" "is_punct (CHR ''}'') (rest ! m)"
    by (cases n) auto
  have "rest = take m rest @ rest ! m # drop (Suc m) rest" using id_take_nth_drop [OF m(2)] .
  from arg_cong [OF this, of "filter kept_token"]
  have "filter kept_token rest = filter kept_token (take m rest) @ filter kept_token (drop (Suc m) rest)"
    using m(3) by (simp add: kept_token_def)
  moreover have "filter kept_token (t # ts) = filter kept_token (take e (t # ts)) @ filter kept_token rest"
    using arg_cong [OF append_take_drop_id [of e "t # ts"], of "filter kept_token"] e(2) tail
    by (simp add: kept_token_def brace_def)
  ultimately show ?thesis using m(1) by (simp add: rest_def add.commute)
qed

lemma tokens_ok_segment: "tokens_ok source (t # ts) \<Longrightarrow> tokens_ok source (take k (drop e ts))"
  by (simp add: tokens_ok_Cons tokens_ok_parts)

lemma line_break_before_sound:
  assumes "tokens_ok source (cur @ t # ts)"
  shows "sound source (\<lambda>_. True) (line_break_before source depth cur t)"
proof (cases "cur = []")
  case False
  define a b where "a = span_end (tok_span (last cur))" and "b = span_start (tok_span t)"
  have "token_ok source (length source) (last cur)" "token_ok source (length source) t" "a \<le> b"
    using assms False by (auto simp: tokens_ok_append tokens_ok_Cons a_def b_def intro: tokens_ok_member)
  then have "slice source a b \<noteq> None" by (auto simp: slice_def token_ok_def a_def b_def)
  then show ?thesis by (auto simp: line_break_before_def a_def b_def)
qed (simp add: line_break_before_def)

definition segments_ok :: "string \<Rightarrow> spanned_token list list \<Rightarrow> bool" where
  "segments_ok source segs \<longleftrightarrow> (\<forall>seg \<in> set segs. tokens_ok source seg)"

lemma push_token_segment_ok:
  "segments_ok source (push_token_segment segs seg) \<longleftrightarrow> segments_ok source segs \<and> tokens_ok source seg"
  "concat (push_token_segment segs seg) = concat segs @ seg"
  by (auto simp: push_token_segment_def segments_ok_def)

lemma split_loop_sound:
  assumes "tokens_ok source (cur @ ts)" "segments_ok source segs"
  shows "sound source (\<lambda>segs'. segments_ok source segs'
    \<and> filter kept_token (concat segs') = filter kept_token (concat segs @ cur @ ts)) (split_loop source depth cur segs ts)"
  using assms
proof (induction source depth cur segs ts rule: split_loop.induct)
  case (1 source depth cur segs)
  then show ?case by (simp add: push_token_segment_ok)
next
  case (2 source depth cur segs t ts)
  show ?case unfolding split_loop.simps
  proof (rule satisfies_bind_eq [OF line_break_before_sound [OF 2(5)]], goal_cases)
    case (1 broken)
    define segs2 where "segs2 = (if broken then push_token_segment segs cur else segs)"
    define cur2 where "cur2 = (if broken then [] else cur)"
    have ok: "segments_ok source segs2" "tokens_ok source cur2" "tokens_ok source (cur2 @ t # ts)"
      and same: "concat segs2 @ cur2 = concat segs @ cur"
      using 2(5,6) by (auto simp: segs2_def cur2_def push_token_segment_ok tokens_ok_append)
    have reassoc: "filter kept_token (concat segs2) @ filter kept_token cur2 = filter kept_token (concat segs) @ filter kept_token cur"
      using arg_cong [OF same, of "filter kept_token"] by simp
    have rest: "tokens_ok source ((cur2 @ [t]) @ ts)" "tokens_ok source ([] @ ts)"
      using ok(3) by (simp_all add: tokens_ok_append tokens_ok_Cons)
    note D = segs2_def cur2_def
    have goal: "filter kept_token (concat segs @ cur @ t # ts) = filter kept_token (concat segs2 @ cur2) @ filter kept_token (t # ts)"
      using reassoc by simp
    have step: "sound source (\<lambda>segs'. segments_ok source segs'
        \<and> filter kept_token (concat segs') = filter kept_token (concat segs @ cur @ t # ts)) (split_loop source depth' (cur2 @ [t]) segs2 ts)"
      if "sound source (\<lambda>segs'. segments_ok source segs'
        \<and> filter kept_token (concat segs') = filter kept_token (concat segs2 @ (cur2 @ [t]) @ ts)) (split_loop source depth' (cur2 @ [t]) segs2 ts)" for depth'
      using that unfolding goal by simp
    consider "opens t" | "\<not> opens t" "closes t" | "\<not> opens t" "\<not> closes t" "is_punct (CHR '';'') t \<and> depth = 0"
      | "\<not> opens t" "\<not> closes t" "\<not> (is_punct (CHR '';'') t \<and> depth = 0)" by blast
    then show ?case
    proof cases
      case c: 1
      show ?thesis using step [OF 2(1) [OF 1(1) D c rest(1) ok(1)]] c unfolding Let_def D [symmetric] by simp
    next
      case c: 2
      show ?thesis using step [OF 2(2) [OF 1(1) D c rest(1) ok(1)]] c unfolding Let_def D [symmetric] by simp
    next
      case c: 3
      have "segments_ok source (push_token_segment segs2 cur2)" using ok by (simp add: push_token_segment_ok)
      moreover have "\<not> kept_token t" using c by (simp add: kept_token_def)
      ultimately show ?thesis using 2(3) [OF 1(1) D c rest(2)] c unfolding goal Let_def D [symmetric]
        by (simp add: push_token_segment_ok)
    next
      case c: 4
      show ?thesis using step [OF 2(4) [OF 1(1) D c rest(1) ok(1)]] c unfolding Let_def D [symmetric] if_not_P [OF c(3)] by simp
    qed
  qed
qed

lemma split_braced_body_sound:
  "tokens_ok source ts \<Longrightarrow> sound source (\<lambda>segs. segments_ok source segs
     \<and> filter kept_token (concat segs) = filter kept_token ts) (split_braced_body source ts)"
  using split_loop_sound [of source "[]" ts "[]" 0] by (simp add: split_braced_body_def segments_ok_def)

lemma push_definition_line_sound:
  assumes "tokens_ok source ts" "list_all (line_ok source) lines"
  shows "sound source (\<lambda>r. \<forall>ls. r = Some ls \<longrightarrow> list_all (line_ok source) ls \<and> kept ls = kept lines @ filter kept_token ts)
    (push_definition_line ts ind lines)"
  unfolding push_definition_line_def
  by (rule satisfies_bind [OF line_from_tokens_sound [OF assms(1)]]) (use assms(2) in \<open>auto split: option.splits\<close>)

lemma tail_ok: "tokens_ok source (t # ts) \<Longrightarrow> tokens_ok source (drop e ts)"
  by (simp add: tokens_ok_Cons tokens_ok_parts)

definition expands :: "string \<Rightarrow> source_line list \<Rightarrow> spanned_token list \<Rightarrow> source_line list \<Rightarrow> bool" where
  "expands source lines ts ls \<longleftrightarrow> list_all (line_ok source) ls \<and> kept ls = kept lines @ filter kept_token ts"

abbreviation expanded :: "string \<Rightarrow> source_line list \<Rightarrow> spanned_token list \<Rightarrow> source_line list option syntax_result \<Rightarrow> bool" where
  "expanded source lines ts \<equiv> sound source (\<lambda>r. \<forall>ls. r = Some ls \<longrightarrow> expands source lines ts ls)"

lemma expand_at_semicolon:
  assumes at: "sequence_boundary 0 0 (t # ts) = Some (AtSemicolon e)"
    and ok: "tokens_ok source (t # ts)" "list_all (line_ok source) lines"
    and rest: "\<And>lines'. push_definition_line (take e (t # ts)) ind lines = Inr (Some lines') \<Longrightarrow>
      list_all (line_ok source) lines' \<Longrightarrow> expanded source lines' (drop e ts) (f lines')"
  shows "expanded source lines (t # ts) (res_bind (push_definition_line (take e (t # ts)) ind lines) (\<lambda>r. case r of
    None \<Rightarrow> Inr None | Some lines \<Rightarrow> f lines))"
proof (rule satisfies_bind_eq [OF push_definition_line_sound [OF tokens_ok_parts(1) [OF ok(1)] ok(2)]], goal_cases)
  case (1 r)
  show ?case
  proof (cases r)
    case (Some lines')
    then have l: "list_all (line_ok source) lines'" "kept lines' = kept lines @ filter kept_token (take e (t # ts))"
      using 1(2) by auto
    have "expanded source lines' (drop e ts) (f lines')" by (rule rest) (use 1(1) Some l in auto)
    then have "expanded source lines (t # ts) (f lines')"
      by (rule satisfies_mono) (use l split_at_semicolon [OF at] in \<open>auto simp: expands_def\<close>)
    then show ?thesis using Some by simp
  qed simp
qed

lemma expand_at_brace:
  assumes at: "sequence_boundary 0 0 (t # ts) = Some (AtBrace e)" "matching_brace 0 0 (drop e (t # ts)) = Some n"
    and ok: "tokens_ok source (t # ts)" "list_all (line_ok source) lines" "line_ok source header" "sl_tokens header = take e (t # ts)"
    and body: "\<And>segs. split_braced_body source (take (n - 1) (drop e ts)) = Inr segs \<Longrightarrow> segments_ok source segs \<Longrightarrow>
      sound source (expands source (lines @ [header]) (concat segs)) (g segs)"
    and rest: "\<And>segs lines'. split_braced_body source (take (n - 1) (drop e ts)) = Inr segs \<Longrightarrow> g segs = Inr lines' \<Longrightarrow>
      list_all (line_ok source) lines' \<Longrightarrow> expanded source lines' (drop (e + n) ts) (f lines')"
  shows "expanded source lines (t # ts)
    (res_bind (split_braced_body source (take (n - 1) (drop e ts))) (\<lambda>segs. res_bind (g segs) f))"
proof (rule satisfies_bind_eq [OF split_braced_body_sound [OF tokens_ok_segment [OF ok(1)]]], goal_cases)
  case (1 segs)
  have b: "sound source (expands source (lines @ [header]) (concat segs)) (g segs)" by (rule body) (use 1 in auto)
  show ?case
  proof (rule satisfies_bind_eq [OF b], goal_cases)
    case (1 lines')
    have "expanded source lines' (drop (e + n) ts) (f lines')"
      by (rule rest) (use 1 \<open>split_braced_body _ _ = Inr segs\<close> in \<open>auto simp: expands_def\<close>)
    then show ?case
      by (rule satisfies_mono)
        (use 1(2) \<open>segments_ok source segs \<and> _\<close> split_at_braces [OF at] ok(4) in \<open>auto simp: expands_def\<close>)
  qed
qed

lemma expand_at_header:
  assumes at: "sequence_boundary 0 0 (t # ts) = Some (AtBrace e)"
    and ok: "tokens_ok source (t # ts)" "list_all (line_ok source) lines"
    and r: "case r of None \<Rightarrow> take e (t # ts) = [] | Some l \<Rightarrow> sl_tokens l = take e (t # ts) \<and> line_ok source l \<and> sl_indentation l = ind"
    and body: "\<And>header c n segs. r = Some header \<Longrightarrow> classify_line (sl_tokens header) = Some c \<Longrightarrow>
      \<not> (cd_kind c \<noteq> TypeDef \<and> \<not> owns_procedure_body (cd_kind c)) \<Longrightarrow> matching_brace 0 0 (drop e (t # ts)) = Some n \<Longrightarrow>
      split_braced_body source (take (n - 1) (drop e ts)) = Inr segs \<Longrightarrow> segments_ok source segs \<Longrightarrow>
      list_all (line_ok source) (lines @ [header]) \<Longrightarrow> sound source (expands source (lines @ [header]) (concat segs)) (g header c segs)"
    and rest: "\<And>header c n segs lines'. r = Some header \<Longrightarrow> classify_line (sl_tokens header) = Some c \<Longrightarrow>
      \<not> (cd_kind c \<noteq> TypeDef \<and> \<not> owns_procedure_body (cd_kind c)) \<Longrightarrow> matching_brace 0 0 (drop e (t # ts)) = Some n \<Longrightarrow>
      split_braced_body source (take (n - 1) (drop e ts)) = Inr segs \<Longrightarrow> g header c segs = Inr lines' \<Longrightarrow>
      list_all (line_ok source) lines' \<Longrightarrow> expanded source lines' (drop (e + n) ts) (f n lines')"
  shows "expanded source lines (t # ts) (case r of None \<Rightarrow> Inr None
    | Some header \<Rightarrow> (case classify_line (sl_tokens header) of
          None \<Rightarrow> Inr None
        | Some c \<Rightarrow> if cd_kind c \<noteq> TypeDef \<and> \<not> owns_procedure_body (cd_kind c) then Inr None
            else (case matching_brace 0 0 (drop e (t # ts)) of
                None \<Rightarrow> Inr None
              | Some n \<Rightarrow> res_bind (split_braced_body source (take (n - 1) (drop e ts))) (\<lambda>segs.
                  res_bind (g header c segs) (f n)))))"
proof (cases r)
  case h: (Some header)
  show ?thesis
  proof (cases "classify_line (sl_tokens header)")
    case c: (Some c)
    show ?thesis
    proof (cases "cd_kind c \<noteq> TypeDef \<and> \<not> owns_procedure_body (cd_kind c)")
      case k: False
      show ?thesis
      proof (cases "matching_brace 0 0 (drop e (t # ts))")
        case m: (Some n)
        have H: "line_ok source header" "sl_tokens header = take e (t # ts)" using r h by simp_all
        show ?thesis unfolding h c m option.case if_not_P [OF k]
          by (rule expand_at_brace [OF at m ok H]) (use ok(2) H in \<open>simp_all add: body [OF h c k m] rest [OF h c k m]\<close>)
      qed (use h c k in simp)
    qed (use h c in simp)
  qed (use h in simp)
qed simp

lemma expands_same: "filter kept_token ts = filter kept_token us \<Longrightarrow> expanded source lines ts r \<Longrightarrow> expanded source lines us r"
  by (simp add: expands_def)

lemma expand_sound:
  "tokens_ok source ts \<Longrightarrow> list_all (line_ok source) lines \<Longrightarrow> expanded source lines ts (expand_sequence source ind found lines ts)"
  "segments_ok source segs \<Longrightarrow> list_all (line_ok source) lines \<Longrightarrow>
     sound source (expands source lines (concat segs)) (expand_body source ind kind lines segs)"
proof (induction source ind found lines ts and source ind kind lines segs rule: expand_sequence_expand_body.induct)
  case (1 source ind found lines tokens)
  show ?case
  proof (cases "dropWhile (is_punct (CHR '';'')) tokens")
    case Nil
    have "filter kept_token tokens = []" using kept_dropWhile_semicolons [of tokens] unfolding Nil by simp
    then show ?thesis using 1(5) unfolding expand_sequence.simps [of source ind found lines tokens] Nil list.case
      by (simp add: expands_def)
  next
    case dw: (Cons t ts)
    have ok: "tokens_ok source (t # ts)" using 1(4) tokens_ok_dropWhile [of source tokens] dw by metis
    have "expanded source lines (t # ts) (expand_sequence source ind found lines tokens)"
    proof (cases "sequence_boundary 0 0 (t # ts)")
      case None
      show ?thesis
        unfolding expand_sequence.simps [of source ind found lines tokens] dw None list.case option.case
        by (rule satisfies_bind [OF push_definition_line_sound [OF ok 1(5)]]) (auto simp: expands_def)
    next
      case (Some b)
      show ?thesis
      proof (cases b)
        case s: (AtSemicolon e)
        show ?thesis
          unfolding expand_sequence.simps [of source ind found lines tokens] dw Some s list.case option.case boundary.case
          by (rule expand_at_semicolon [OF Some [unfolded s] ok 1(5)], rule 1(1) [OF dw Some s _ refl tail_ok [OF ok]])
      next
        case s: (AtBrace e)
        show ?thesis
          unfolding expand_sequence.simps [of source ind found lines tokens] dw Some s list.case option.case boundary.case
        proof (rule satisfies_bind_eq [OF line_from_tokens_sound [OF tokens_ok_parts(1) [OF ok]]], goal_cases)
          case l: (1 r)
          show ?case
          proof (rule expand_at_header [OF Some [unfolded s] ok 1(5) l(2),
                where g = "\<lambda>header c. expand_body source (deeper_indentation ind) (cd_kind c) (lines @ [header])"
                  and f = "\<lambda>n lines. expand_sequence source ind True lines (drop (e + n) ts)"], goal_cases)
            case c: (1 header c n segs)
            show ?case by (rule 1(2) [OF dw Some s l(1) c])
          next
            case c: (2 header c n segs lines')
            show ?case by (rule 1(3) [OF dw Some s l(1) c(1-6) tail_ok [OF ok] c(7)])
          qed
        qed
      qed
    qed
    then show ?thesis by (rule expands_same [rotated]) (use kept_dropWhile_semicolons [of tokens] dw in simp)
  qed
next
  case (2 source ind kind lines)
  then show ?case by (simp add: expands_def)
next
  case (3 source ind kind lines seg segs)
  have seg: "tokens_ok source seg" "segments_ok source segs" using 3(5) by (simp_all add: segments_ok_def)
  have first: "expanded source lines seg (if kind = TypeDef then expand_sequence source ind False lines seg else Inr None)"
    using 3(1) seg 3(6) by simp
  show ?case unfolding expand_body.simps
  proof (rule satisfies_bind_eq [OF first], goal_cases)
    case f: (1 r)
    show ?case
    proof (cases r)
      case (Some ls)
      then have l: "list_all (line_ok source) ls" "kept ls = kept lines @ filter kept_token seg" using f(2) by (simp_all add: expands_def)
      show ?thesis using 3(4) [OF f(1) Some seg(2) l(1)] Some l(2) by (auto simp: expands_def elim!: satisfies_mono)
    next
      case None
      show ?thesis unfolding None option.case
      proof (rule satisfies_bind_eq [OF line_from_tokens_sound [OF seg(1), of ind]], goal_cases)
        case l: (1 x)
        show ?case
        proof (cases x)
          case n: None
          then show ?thesis using 3(2) [OF f(1) None l(1) n seg(2) 3(6)] l(2) by (auto simp: expands_def elim!: satisfies_mono)
        next
          case y: (Some line)
          have "list_all (line_ok source) (lines @ [line])" using 3(6) l(2) y by simp
          from 3(3) [OF f(1) None l(1) y seg(2) this] show ?thesis using l(2) y by (auto simp: expands_def elim!: satisfies_mono)
        qed
      qed
    qed
  qed
qed

lemma expand_braced_lines_sound:
  "list_all (line_ok source) lines \<Longrightarrow> list_all (line_ok source) ls \<Longrightarrow>
   sound source (expands source lines (line_tokens ls)) (expand_braced_lines source lines ls)"
proof (induction source lines ls rule: expand_braced_lines.induct)
  case (2 source lines line ls)
  have ls: "line_ok source line" "list_all (line_ok source) ls" using 2(4) by simp_all
  then have line: "tokens_ok source (sl_tokens line)" by (simp add: line_ok_def)
  show ?case unfolding expand_braced_lines.simps
  proof (rule satisfies_bind_eq [OF expand_sound(1) [OF line 2(3)]], goal_cases)
    case (1 r)
    then show ?case using 2(1) [OF 1(1)] 2(2) [OF 1(1)] 2(3,4) ls
      by (cases r) (auto simp: expands_def elim!: satisfies_mono)
  qed
qed (simp add: expands_def)

text \<open>The lines of a source, before they are indexed.\<close>

lemma syntax_lines_sound:
  assumes "utf8_valid source" "\<not> lex source = Inl LexPanic"
  shows "sound source (\<lambda>ls. list_all (line_ok source) ls) (syntax_lines source)"
    and "lex source = Inr toks \<Longrightarrow> sound source (\<lambda>ls. kept ls = filter (\<lambda>t. kept_token t \<and> code_token t) toks) (syntax_lines source)"
proof -
  have lexed: "tokens_ok source toks" if "lex source = Inr toks" for toks
    using lex_ok [OF assms(1)] that by (simp add: run_ok_def tokens_ok_def)
  have lines: "sound source (\<lambda>ls. list_all (line_ok source) ls \<and> kept ls = filter (\<lambda>t. kept_token t \<and> code_token t) toks)
      (syntax_lines source)" if "lex source = Inr toks" for toks
    unfolding syntax_lines_def that sum.case
    by (rule satisfies_bind [OF build_logical_lines_sound [OF lexed [OF that]]], clarify,
        rule satisfies_mono [OF expand_braced_lines_sound]) (auto simp: expands_def conj_commute)
  then show "sound source (\<lambda>ls. kept ls = filter (\<lambda>t. kept_token t \<and> code_token t) toks) (syntax_lines source)"
    if "lex source = Inr toks"
    using that by (auto elim!: satisfies_mono)
  show "sound source (\<lambda>ls. list_all (line_ok source) ls) (syntax_lines source)"
  proof (cases "lex source")
    case (Inl e)
    then show ?thesis using assms lex_ok [OF assms(1)]
      by (cases e) (auto simp: syntax_lines_def run_ok_def span_inside_def)
  next
    case (Inr toks)
    then show ?thesis using lines by (auto elim!: satisfies_mono)
  qed
qed

end
