(* ===== verification/DmSyntaxTree.thy ===== *)
theory DmSyntaxTree
  imports DmSyntaxLaws
begin

text \<open>
  Laws of the definition tree: the invariant of the parser, what one line does to it, and the one
  input on which building a path panics.
\<close>

section \<open>Positions\<close>

lemma rposition_Some:
  assumes "rposition p xs = Some i"
  shows "i < length xs" "p (xs ! i)" "i < j \<Longrightarrow> j < length xs \<Longrightarrow> \<not> p (xs ! j)"
proof -
  obtain k where k: "vec_position p (rev xs) = Some k" "i = length xs - 1 - k" using assms by (auto simp: rposition_def)
  have len: "k < length xs" using k(1) by (simp add: vec_position_Some_iff)
  then show "i < length xs" using k(2) by simp
  show "p (xs ! i)" using k len by (simp add: vec_position_Some_iff rev_nth)
  show "\<not> p (xs ! j)" if "i < j" "j < length xs"
    using k len that
    by (auto simp: vec_position_Some_iff rev_nth dest!: spec [of _ "length xs - 1 - j"])
qed

lemma rposition_None: "rposition p xs = None \<longleftrightarrow> (\<forall>x \<in> set xs. \<not> p x)"
  by (simp add: rposition_def vec_position_None_iff)

section \<open>Paths\<close>

definition kind_shape :: "definition_kind \<Rightarrow> string list \<Rightarrow> bool" where
  "kind_shape k path \<longleftrightarrow> (case k of
       TypeDef \<Rightarrow> set path \<inter> {''var'', ''proc'', ''verb''} = {}
     | VariableDef \<Rightarrow> ''var'' \<in> set path
     | VariableOverride \<Rightarrow> (\<exists>p n. path = p @ [''var'', n])
     | ProcedureOverride \<Rightarrow> (\<exists>p n. path = p @ [''proc'', n])
     | _ \<Rightarrow> True)"

definition base_segments :: "string list option \<Rightarrow> candidate \<Rightarrow> string list" where
  "base_segments base c = (if cd_absolute c then [] else case base of Some b \<Rightarrow> b | None \<Rightarrow> [])"

lemma definition_path_new_Inr: "definition_path_new segs = Inr p \<longleftrightarrow> segs \<noteq> [] \<and> [] \<notin> set segs \<and> p = DefinitionPath segs"
  by (auto simp: definition_path_new_def)

lemma canonicalize_path_extends:
  assumes c: "canonicalize_path base c = Inr path" and segs: "cd_segments c \<noteq> []"
    and b: "base_segments base c = P @ s" and P: "''var'' \<notin> set P"
  shows "\<exists>t. path_list path = P @ t \<and> t \<noteq> []"
proof -
  define segs where "segs = base_segments base c @ cd_segments c"
  then have shape: "segs = P @ s @ cd_segments c" "segs \<noteq> []" "last segs = last (cd_segments c)"
    "butlast segs = P @ s @ butlast (cd_segments c)" using b segs by (simp_all add: butlast_append)
  note D = c [unfolded canonicalize_path_def base_segments_def [symmetric] segs_def [symmetric] Let_def]
  show ?thesis
  proof (cases "cd_kind c = VariableDef")
    case True
    obtain node where n: "rposition (\<lambda>s. s = ''var'') segs = Some node" using D True by (auto split: option.splits)
    note N = rposition_Some [OF n]
    have "length P \<le> node"
    proof (rule ccontr)
      assume "\<not> length P \<le> node"
      then have "segs ! node \<in> set P" using shape(1) by (simp add: nth_append)
      then show False using N(2) P by simp
    qed
    then have "take (node + 1) segs = P @ take (node + 1 - length P) (s @ cd_segments c)" using shape(1) by simp
    then show ?thesis using D True n shape segs by (auto simp: definition_path_new_Inr split: if_splits)
  qed (use D shape segs in \<open>auto simp: definition_path_new_Inr split: definition_kind.splits if_splits\<close>)
qed

lemma canonicalize_path_shape:
  assumes c: "canonicalize_path base c = Inr path"
    and t: "cd_kind c = TypeDef \<Longrightarrow> (set (base_segments base c) \<union> set (cd_segments c)) \<inter> {''var'', ''proc'', ''verb''} = {}"
  shows "kind_shape (cd_kind c) (path_list path) \<and> path_list path \<noteq> [] \<and> [] \<notin> set (path_list path)"
proof -
  note D = c [unfolded canonicalize_path_def base_segments_def [symmetric] Let_def]
  have var: "''var'' \<in> set (path_list path)" if k: "cd_kind c = VariableDef"
  proof -
    define segs where "segs = base_segments base c @ cd_segments c"
    obtain node where n: "rposition (\<lambda>s. s = ''var'') segs = Some node"
      using D k by (auto simp: segs_def split: option.splits)
    note N = rposition_Some [OF n]
    have "''var'' \<in> set segs" "''var'' \<in> set (take (node + 1) segs)"
      using N(1,2) by (metis nth_mem, metis in_set_conv_nth less_add_one length_take min_less_iff_conj nth_take)
    then show ?thesis using D k n by (auto simp: definition_path_new_Inr segs_def split: if_splits)
  qed
  show ?thesis using D t var
    by (cases "cd_kind c") (auto simp: kind_shape_def definition_path_new_Inr split: if_splits option.splits)
qed

text \<open>
  The canonical path of the segments a header and the blocks around it give: an override gets the
  node of its kind before its name, a variable drops the type between the last \<open>var\<close> and its name.
\<close>

definition canonical_of :: "definition_kind \<Rightarrow> string list \<Rightarrow> string list \<Rightarrow> bool" where
  "canonical_of k segs path \<longleftrightarrow> (case k of
       ProcedureOverride \<Rightarrow> \<exists>p n. segs = p @ [n] \<and> path = p @ [''proc'', n]
     | VariableOverride \<Rightarrow> \<exists>p n. segs = p @ [n] \<and> path = p @ [''var'', n]
     | VariableDef \<Rightarrow> \<exists>p t. segs = p @ ''var'' # t \<and> ''var'' \<notin> set t \<and> path = p @ ''var'' # (if t = [] then [] else [last t])
     | _ \<Rightarrow> path = segs)"

lemma rposition_split:
  assumes "rposition (\<lambda>s. s = x) xs = Some i"
  shows "xs = take i xs @ x # drop (Suc i) xs" "x \<notin> set (drop (Suc i) xs)"
proof -
  note R = rposition_Some [OF assms]
  show "xs = take i xs @ x # drop (Suc i) xs" using id_take_nth_drop [OF R(1)] R(2) by simp
  show "x \<notin> set (drop (Suc i) xs)"
  proof
    assume "x \<in> set (drop (Suc i) xs)"
    then obtain j where j: "j < length xs - Suc i" "xs ! (Suc i + j) = x" by (auto simp: in_set_conv_nth)
    then have "Suc i + j < length xs" by linarith
    then show False using R(3) [of "Suc i + j"] j(2) by simp
  qed
qed

lemma canonicalize_path_canonical:
  assumes c: "canonicalize_path base c = Inr path" and segs: "cd_segments c \<noteq> []"
  shows "canonical_of (cd_kind c) (base_segments base c @ cd_segments c) (path_list path)"
proof -
  define segs where "segs = base_segments base c @ cd_segments c"
  then have "segs \<noteq> []" using assms(2) by simp
  then have ne: "segs = butlast segs @ [last segs]" by simp
  note D = c [unfolded canonicalize_path_def base_segments_def [symmetric] segs_def [symmetric] Let_def]
  have "canonical_of (cd_kind c) segs (path_list path)"
  proof (cases "cd_kind c = VariableDef")
    case True
    obtain i where i: "rposition (\<lambda>s. s = ''var'') segs = Some i" using D True by (auto split: option.splits)
    note S = rposition_split [OF i] and R = rposition_Some(1) [OF i]
    have path: "path_list path = (if i + 1 < length segs then take (i + 1) segs @ [last segs] else segs)"
      using D True i by (auto simp: definition_path_new_Inr split: if_splits)
    have "path_list path = take i segs @ ''var'' # (if drop (Suc i) segs = [] then [] else [last (drop (Suc i) segs)])"
    proof (cases "i + 1 < length segs")
      case more: True
      have "take (i + 1) segs = take i segs @ [''var'']" using rposition_Some(2) [OF i] R by (simp add: take_Suc_conv_app_nth)
      then show ?thesis using path more by (simp add: last_drop)
    next
      case False
      then have "drop (Suc i) segs = []" by simp
      then show ?thesis using path False S(1) by simp
    qed
    then have "segs = take i segs @ ''var'' # drop (Suc i) segs \<and> ''var'' \<notin> set (drop (Suc i) segs)
        \<and> path_list path = take i segs @ ''var'' # (if drop (Suc i) segs = [] then [] else [last (drop (Suc i) segs)])"
      using S by blast
    then have "\<exists>p t. segs = p @ ''var'' # t \<and> ''var'' \<notin> set t \<and> path_list path = p @ ''var'' # (if t = [] then [] else [last t])"
      by (intro exI)
    then show ?thesis by (simp add: canonical_of_def True)
  qed (use D ne in \<open>auto simp: canonical_of_def definition_path_new_Inr split: definition_kind.splits if_splits\<close>)
  then show ?thesis by (simp add: segs_def)
qed

lemma canonicalize_path_total:
  assumes "cd_segments c \<noteq> []" "[] \<notin> set (base_segments base c @ cd_segments c)"
    and "cd_kind c = VariableDef \<Longrightarrow> ''var'' \<in> set (base_segments base c @ cd_segments c)"
  shows "\<exists>path. canonicalize_path base c = Inr path"
proof -
  define segs where "segs = base_segments base c @ cd_segments c"
  have s: "segs \<noteq> []" "[] \<notin> set segs" "last segs \<noteq> []" "[] \<notin> set (butlast segs)"
    using assms(1,2) by (auto simp: segs_def dest: in_set_butlastD) (metis last_in_set)
  have take: "[] \<notin> set (take n segs)" for n using s(2) by (meson in_set_takeD)
  show ?thesis unfolding canonicalize_path_def base_segments_def [symmetric] segs_def [symmetric] Let_def
  proof (cases "cd_kind c")
    case VariableDef
    then obtain node where "rposition (\<lambda>s. s = ''var'') segs = Some node"
      using assms(3) rposition_None [of "\<lambda>s. s = ''var''" segs] by (auto simp: segs_def)
    then show "\<exists>path. (case cd_kind c of
       ProcedureOverride \<Rightarrow> if segs = [] then Inl SyntaxPanic else definition_path_new (butlast segs @ [''proc'', last segs])
     | VariableOverride \<Rightarrow> if segs = [] then Inl SyntaxPanic else definition_path_new (butlast segs @ [''var'', last segs])
     | VariableDef \<Rightarrow> (case rposition (\<lambda>s. s = ''var'') segs of
           None \<Rightarrow> Inl SyntaxPanic
         | Some node \<Rightarrow> definition_path_new
             (if node + 1 < length segs then take (node + 1) segs @ [last segs] else segs))
     | _ \<Rightarrow> definition_path_new segs) = Inr path"
      using VariableDef s take by (auto simp: definition_path_new_def)
  qed (use s in \<open>auto simp: definition_path_new_def\<close>)
qed

section \<open>Headers\<close>

lemma identifier_names_nonempty: "tokens_ok source ts \<Longrightarrow> [] \<notin> set (identifier_names ts)"
  by (induction ts) (auto simp: tokens_ok_Cons token_ok_def spelled_as_def split: token_kind.splits)

lemma path_segments_nonempty:
  assumes "tokens_ok source ts"
  shows "[] \<notin> set (path_segments ts)"
proof -
  have names: "[] \<notin> set (identifier_names ts)" using identifier_names_nonempty [OF assms] .
  have "[] \<notin> set (push_last suffix (identifier_names ts))" if "identifier_names ts \<noteq> []" for suffix
  proof -
    have "last (identifier_names ts) \<noteq> []" using names last_in_set [OF that] by metis
    then show ?thesis using names by (auto simp: push_last_def dest: in_set_butlastD)
  qed
  then show ?thesis using names by (auto simp: path_segments_def Let_def split: option.split)
qed

lemma classify_line_candidate:
  assumes "classify_line ts = Some c"
  shows "cd_segments c \<noteq> []" "tokens_ok source ts \<Longrightarrow> [] \<notin> set (cd_segments c)"
    "cd_kind c = TypeDef \<Longrightarrow> set (cd_segments c) \<inter> {''var'', ''proc'', ''verb''} = {}"
    "cd_kind c = VariableDef \<Longrightarrow> ''var'' \<in> set (cd_segments c)"
  using assms path_segments_nonempty [of source "take (header_end ts) ts"] tokens_ok_parts(1) [of source ts]
  by (auto simp: classify_line_def candidate_kind_def Let_def split: if_splits)

definition header_segments :: "spanned_token list \<Rightarrow> string list" where
  "header_segments ts = path_segments (take (header_end ts) ts)"

text \<open>Cutting a body off the line leaves the header its path.\<close>

lemma header_end_from_take:
  assumes "vec_position (is_punct (CHR ''('')) ts = Some i" "i < n"
  shows "\<exists>m. m \<le> i \<and> header_end_from b ts = Some m \<and> header_end_from b (take n ts) = Some m"
  using assms
proof (induction ts arbitrary: b i n)
  case (Cons t ts)
  show ?case
  proof (cases "is_punct (CHR ''('') t")
    case True
    then show ?thesis using Cons.prems by (cases n) auto
  next
    case False
    then obtain j where j: "vec_position (is_punct (CHR ''('')) ts = Some j" "i = Suc j" using Cons.prems(1) by auto
    obtain n' where n: "n = Suc n'" "j < n'" using Cons.prems(2) j(2) by (cases n) auto
    obtain m where "m \<le> j" "header_end_from (b \<or> is_word ''var'' t) ts = Some m"
        "header_end_from (b \<or> is_word ''var'' t) (take n' ts) = Some m"
      using Cons.IH [OF j(1) n(2)] by blast
    then show ?thesis using j(2) n(1) by auto
  qed
qed simp

lemma vec_position_take: "vec_position p xs = Some i \<Longrightarrow> i < n \<Longrightarrow> vec_position p (take n xs) = Some i"
  by (auto simp: vec_position_Some_iff)

lemma signature_loop_positive: "signature_loop depth ts = Some n \<Longrightarrow> 0 < n"
  by (induction depth ts rule: signature_loop.induct) (auto split: if_splits)

lemma inline_body_start_positive:
  assumes "inline_body_start k ts = Some n"
  shows "\<exists>i. vec_position (is_punct (CHR ''('')) ts = Some i \<and> i < n"
  using assms by (fastforce simp: inline_body_start_def procedure_signature_end_def split: if_splits option.splits
      dest: signature_loop_positive)

lemma header_segments_take:
  assumes "inline_body_start k ts = Some n"
  shows "header_segments (take n ts) = header_segments ts"
proof -
  obtain i where i: "vec_position (is_punct (CHR ''('')) ts = Some i" "i < n"
    using inline_body_start_positive [OF assms] by blast
  obtain m where m: "m \<le> i" "header_end_from False ts = Some m" "header_end_from False (take n ts) = Some m"
    using header_end_from_take [OF i] by blast
  have len: "i < length ts" using i(1) by (simp add: vec_position_Some_iff)
  have idx: "index_assignment_at (take n ts) i = index_assignment_at ts i"
    using i(2) len by (auto simp: index_assignment_at_def min_def)
  have e: "header_end (take n ts) = header_end ts" "header_end ts \<le> n"
    using m i by (auto simp: header_end_def vec_position_take idx or_length_def)
  then show ?thesis by (simp add: header_segments_def min_def)
qed

lemma push_parameter_sound:
  assumes "tokens_ok source ts"
  shows "sound source (\<lambda>_. True) (push_parameter ts ps)"
  using tokens_span [OF assms] by (auto simp: push_parameter_def syntax_span_ok)

lemma parameters_loop_sound:
  "tokens_ok source (cur @ ts) \<Longrightarrow> sound source (\<lambda>_. True) (parameters_loop depth cur ps ts)"
proof (induction depth cur ps ts rule: parameters_loop.induct)
  case (2 depth cur ps t ts)
  have ok: "tokens_ok source cur" "tokens_ok source ([] @ ts)" "tokens_ok source ((cur @ [t]) @ ts)"
    using 2(5) by (simp_all add: tokens_ok_append tokens_ok_Cons)
  have "sound source (\<lambda>_. True) (res_bind (push_parameter cur ps) (\<lambda>ps. parameters_loop depth [] ps ts))"
    if "\<not> opens t" "\<not> closes t" "is_punct (CHR '','') t \<and> depth = 0"
    by (rule satisfies_bind_eq [OF push_parameter_sound [OF ok(1)]]) (rule 2(3) [OF that _ ok(2)])
  then show ?case using 2(1,2,4) ok(3) by simp
qed (simp add: push_parameter_sound)

lemma parse_parameters_sound: "tokens_ok source ts \<Longrightarrow> sound source (\<lambda>_. True) (parse_parameters ts)"
  by (auto simp: parse_parameters_def tokens_ok_parts intro!: parameters_loop_sound split: option.split)

lemma inline_body_start_bound: "inline_body_start kind ts = Some n \<Longrightarrow> n < length ts \<and> owns_procedure_body kind"
  by (auto simp: inline_body_start_def split: if_splits option.splits)

section \<open>The invariant\<close>

text \<open>Contexts and definitions name enclosing types that exist, are less indented and start their path.\<close>

definition encloses :: "definition_syntax list \<Rightarrow> nat option \<Rightarrow> indentation \<Rightarrow> (string list \<Rightarrow> bool) \<Rightarrow> bool" where
  "encloses defs owner ind below \<longleftrightarrow> (\<forall>j. owner = Some j \<longrightarrow> j < length defs \<and> df_kind (defs ! j) = TypeDef
     \<and> is_deeper_than ind (df_indentation (defs ! j)) \<and> below (path_list (df_path (defs ! j))))"

definition extends :: "string list \<Rightarrow> string list \<Rightarrow> bool" where
  "extends path base \<longleftrightarrow> (\<exists>s. path = base @ s)"

definition extends_strictly :: "string list \<Rightarrow> string list \<Rightarrow> bool" where
  "extends_strictly path base \<longleftrightarrow> (\<exists>s. path = base @ s \<and> s \<noteq> [])"

text \<open>
  The headers of the blocks between a definition and its parent: lines of the source that spell paths,
  each deeper than the one before it and less deep than the definition. Their segments come between
  the path of the parent and those of the definition's own header.
\<close>

definition enclosing_blocks :: "string \<Rightarrow> indentation \<Rightarrow> source_line list \<Rightarrow> bool" where
  "enclosing_blocks source ind hs \<longleftrightarrow> list_all (\<lambda>h. line_ok source h \<and> is_path_spelling (sl_tokens h)
       \<and> is_deeper_than ind (sl_indentation h)) hs
     \<and> sorted_wrt (\<lambda>a b. is_deeper_than (sl_indentation b) (sl_indentation a)) hs"

definition block_segments :: "source_line list \<Rightarrow> string list" where
  "block_segments hs = concat (map (\<lambda>h. path_segments (sl_tokens h)) hs)"

definition owner_segments :: "definition_syntax list \<Rightarrow> nat option \<Rightarrow> string list" where
  "owner_segments defs owner = (case owner of None \<Rightarrow> [] | Some j \<Rightarrow> path_list (df_path (defs ! j)))"

fun context_ok :: "string \<Rightarrow> definition_syntax list \<Rightarrow> parse_context \<Rightarrow> bool" where
  "context_ok source defs (InDefinition i) \<longleftrightarrow> i < length defs"
| "context_ok source defs (InNamespace ind segs owner kind) \<longleftrightarrow> encloses defs owner ind (extends segs) \<and> [] \<notin> set segs
     \<and> (\<exists>hs h. enclosing_blocks source ind hs \<and> line_ok source h \<and> is_path_spelling (sl_tokens h) \<and> sl_indentation h = ind
          \<and> segs = owner_segments defs owner @ block_segments (hs @ [h]))"

definition body_line_ok :: "string \<Rightarrow> definition_syntax \<Rightarrow> source_line \<Rightarrow> bool" where
  "body_line_ok source d l \<longleftrightarrow> line_ok source l \<and> owns_procedure_body (df_kind d)
     \<and> (is_deeper_than (sl_indentation l) (df_indentation d) \<or> sl_indentation l = df_indentation d)"

text \<open>The path of a definition, from its parent, the blocks around it and its header.\<close>

definition path_canonical :: "string \<Rightarrow> definition_syntax list \<Rightarrow> definition_syntax \<Rightarrow> bool" where
  "path_canonical source defs d \<longleftrightarrow> (\<exists>hs. enclosing_blocks source (df_indentation d) hs
     \<and> (starts_with_slash (df_header d) \<longrightarrow> hs = [] \<and> df_parent d = None)
     \<and> canonical_of (df_kind d) (owner_segments defs (df_parent d) @ block_segments hs @ header_segments (df_header d))
         (path_list (df_path d)))"

definition definition_ok :: "string \<Rightarrow> definition_syntax list \<Rightarrow> definition_syntax \<Rightarrow> bool" where
  "definition_ok source defs d \<longleftrightarrow> encloses defs (df_parent d) (df_indentation d) (extends_strictly (path_list (df_path d)))
     \<and> path_list (df_path d) \<noteq> [] \<and> [] \<notin> set (path_list (df_path d)) \<and> kind_shape (df_kind d) (path_list (df_path d))
     \<and> path_canonical source defs d
     \<and> tokens_ok source (df_header d) \<and> span_inside source (df_span d) \<and> list_all (body_line_ok source d) (df_body d)"

definition tree_ok :: "string \<Rightarrow> syntax_parser \<Rightarrow> bool" where
  "tree_ok source p \<longleftrightarrow> list_all (context_ok source (sp_definitions p)) (sp_stack p)
     \<and> (\<forall>k < length (sp_definitions p). definition_ok source (take k (sp_definitions p)) (sp_definitions p ! k))"

text \<open>What of a definition the others rely on.\<close>

definition same_heads :: "definition_syntax list \<Rightarrow> definition_syntax list \<Rightarrow> bool" where
  "same_heads defs defs' \<longleftrightarrow> length defs \<le> length defs' \<and> (\<forall>j < length defs. df_kind (defs' ! j) = df_kind (defs ! j)
     \<and> df_path (defs' ! j) = df_path (defs ! j) \<and> df_indentation (defs' ! j) = df_indentation (defs ! j))"

lemma encloses_same: "same_heads defs defs' \<Longrightarrow> encloses defs owner ind below \<Longrightarrow> encloses defs' owner ind below"
  by (auto simp: same_heads_def encloses_def)

lemma owner_segments_same: "same_heads defs defs' \<Longrightarrow> encloses defs owner ind below \<Longrightarrow> owner_segments defs' owner = owner_segments defs owner"
  by (auto simp: same_heads_def encloses_def owner_segments_def split: option.split)

lemma context_ok_same: "same_heads defs defs' \<Longrightarrow> context_ok source defs ctx \<Longrightarrow> context_ok source defs' ctx"
proof (cases ctx)
  case (InNamespace ind segs owner kind)
  assume "same_heads defs defs'" "context_ok source defs ctx"
  then show ?thesis using encloses_same owner_segments_same unfolding InNamespace context_ok.simps by metis
qed (auto simp: same_heads_def)

lemma definition_ok_same: "same_heads defs defs' \<Longrightarrow> definition_ok source defs d \<Longrightarrow> definition_ok source defs' d"
  using encloses_same owner_segments_same unfolding definition_ok_def path_canonical_def by metis

lemma same_heads_append: "same_heads defs (defs @ ds)"
  by (simp add: same_heads_def nth_append)

section \<open>One line\<close>

lemma definition_at_ok: "i < length (sp_definitions p) \<Longrightarrow> definition_at p i = Inr (sp_definitions p ! i)"
  by (simp add: definition_at_def vec_get_def)

definition deeper_than_context :: "definition_syntax list \<Rightarrow> indentation \<Rightarrow> parse_context \<Rightarrow> bool" where
  "deeper_than_context defs ind ctx \<longleftrightarrow> (\<exists>i. context_indentation defs ctx = Inr i \<and> is_deeper_than ind i)"

lemma pop_finished_ok:
  assumes "list_all (context_ok source defs) stack"
  shows "\<exists>stack'. pop_finished defs ind stack = Inr stack' \<and> list_all (context_ok source defs) stack'
    \<and> set stack' \<subseteq> set stack \<and> (stack' \<noteq> [] \<longrightarrow> deeper_than_context defs ind (hd stack'))"
  using assms
proof (induction defs ind stack rule: pop_finished.induct)
  case (2 defs ind ctx stack)
  obtain i where i: "context_indentation defs ctx = Inr i"
    using 2(2) by (cases ctx) (auto simp: context_indentation_def vec_get_def)
  show ?case using 2 i by (auto simp: deeper_than_context_def)
qed simp

text \<open>The state in which a line is placed: what is finished has been popped.\<close>

definition placed :: "string \<Rightarrow> syntax_parser \<Rightarrow> indentation \<Rightarrow> bool" where
  "placed source p ind \<longleftrightarrow> tree_ok source p
     \<and> (sp_stack p \<noteq> [] \<longrightarrow> deeper_than_context (sp_definitions p) ind (hd (sp_stack p)))"

lemma is_deeper_trans: "is_deeper_than i j \<Longrightarrow> is_deeper_than j k \<Longrightarrow> is_deeper_than i k"
  by (simp add: is_deeper_than_def)

lemma enclosing_blocks_Nil [simp]: "enclosing_blocks source ind []" "block_segments [] = []"
  by (simp_all add: enclosing_blocks_def block_segments_def)

lemma enclosing_blocks_snoc:
  assumes "enclosing_blocks source ind' hs" "line_ok source h" "is_path_spelling (sl_tokens h)" "sl_indentation h = ind'"
    and "is_deeper_than ind ind'"
  shows "enclosing_blocks source ind (hs @ [h])"
  using assms is_deeper_trans [OF assms(5)] by (auto simp: enclosing_blocks_def list_all_iff sorted_wrt_append)

lemma indentation_base_ok:
  assumes "placed source p ind"
  shows "\<exists>base owner. indentation_base p = Inr (base, owner)
    \<and> encloses (sp_definitions p) owner ind (\<lambda>P. \<exists>b. base = Some b \<and> extends b P)
    \<and> (\<forall>b. base = Some b \<longrightarrow> [] \<notin> set b)
    \<and> (\<exists>hs. enclosing_blocks source ind hs
        \<and> (case base of Some b \<Rightarrow> b | None \<Rightarrow> []) = owner_segments (sp_definitions p) owner @ block_segments hs)
    \<and> (current_namespace p = None \<longrightarrow> (\<forall>b. base = Some b \<longrightarrow> set b \<inter> {''var'', ''proc'', ''verb''} = {}))"
proof (cases "sp_stack p")
  case (Cons ctx stack)
  have ctx: "context_ok source (sp_definitions p) ctx" "deeper_than_context (sp_definitions p) ind ctx"
    using assms Cons by (simp_all add: placed_def tree_ok_def)
  show ?thesis
  proof (cases ctx)
    case (InDefinition i)
    then have i: "i < length (sp_definitions p)" using ctx by simp
    then have "definition_ok source (take i (sp_definitions p)) (sp_definitions p ! i)"
      using assms by (simp add: placed_def tree_ok_def)
    then show ?thesis using i ctx(2) Cons InDefinition
      by (auto simp: indentation_base_def definition_at_ok encloses_def deeper_than_context_def context_indentation_def
          vec_get_def extends_def definition_ok_def kind_shape_def current_namespace_def owner_segments_def
          intro: exI [of _ "[]"])
  next
    case (InNamespace ind' segs owner kind)
    have d: "is_deeper_than ind ind'" using ctx(2) InNamespace by (simp add: deeper_than_context_def context_indentation_def)
    obtain hs h where h: "enclosing_blocks source ind' hs" "line_ok source h" "is_path_spelling (sl_tokens h)" "sl_indentation h = ind'"
        "segs = owner_segments (sp_definitions p) owner @ block_segments (hs @ [h])" using ctx(1) unfolding InNamespace by auto
    have "enclosing_blocks source ind (hs @ [h])" by (rule enclosing_blocks_snoc [OF h(1-4) d])
    then show ?thesis using ctx(1) d h(5) Cons InNamespace
      by (auto simp: indentation_base_def encloses_def current_namespace_def intro: is_deeper_trans)
  qed
qed (auto simp: indentation_base_def encloses_def owner_segments_def intro: exI [of _ "[]"])

lemma tree_ok_append:
  assumes p: "tree_ok source p" and d: "definition_ok source (sp_definitions p) d"
  shows "tree_ok source (p\<lparr>sp_definitions := sp_definitions p @ [d], sp_stack := InDefinition (length (sp_definitions p)) # sp_stack p\<rparr>)"
  unfolding tree_ok_def
proof (intro conjI allI impI, goal_cases)
  case 1
  then show ?case using p context_ok_same [OF same_heads_append [of "sp_definitions p" "[d]"]]
    by (auto simp: tree_ok_def list_all_iff)
next
  case (2 k)
  then show ?case using p d by (cases "k = length (sp_definitions p)") (auto simp: tree_ok_def nth_append)
qed

lemma push_namespace_eq:
  "indentation_base p = Inr (base, owner) \<Longrightarrow> push_namespace p line segs kind = Inr (p\<lparr>sp_stack :=
     InNamespace (sl_indentation line) ((if starts_with_slash (sl_tokens line) then [] else case base of Some b \<Rightarrow> b | None \<Rightarrow> []) @ segs)
       (if starts_with_slash (sl_tokens line) then None else owner) kind # sp_stack p\<rparr>)"
  by (simp add: push_namespace_def Let_def)

lemma push_namespace_ok:
  assumes p: "placed source p (sl_indentation line)" and segs: "[] \<notin> set segs"
    and l: "line_ok source line" "is_path_spelling (sl_tokens line)" "segs = path_segments (sl_tokens line)"
  shows "\<exists>p'. push_namespace p line segs kind = Inr p' \<and> tree_ok source p'"
proof -
  obtain base owner where b: "indentation_base p = Inr (base, owner)"
    and e: "encloses (sp_definitions p) owner (sl_indentation line) (\<lambda>P. \<exists>b. base = Some b \<and> extends b P)"
    and s: "\<forall>b. base = Some b \<longrightarrow> [] \<notin> set b"
    and hs: "\<exists>hs. enclosing_blocks source (sl_indentation line) hs
        \<and> (case base of Some b \<Rightarrow> b | None \<Rightarrow> []) = owner_segments (sp_definitions p) owner @ block_segments hs"
    using indentation_base_ok [OF p] by (elim exE conjE) (rule that; (assumption | (rule exI, rule conjI; assumption)))
  have "encloses (sp_definitions p) owner (sl_indentation line) (extends ((case base of Some b \<Rightarrow> b | None \<Rightarrow> []) @ segs))"
    unfolding encloses_def
  proof (intro allI impI)
    fix j assume "owner = Some j"
    note j = e [unfolded encloses_def, rule_format, OF this]
    then obtain b where "base = Some b" "extends b (path_list (df_path (sp_definitions p ! j)))" by blast
    then have "extends ((case base of Some b \<Rightarrow> b | None \<Rightarrow> []) @ segs) (path_list (df_path (sp_definitions p ! j)))"
      by (auto simp: extends_def)
    with j show "j < length (sp_definitions p) \<and> df_kind (sp_definitions p ! j) = TypeDef
        \<and> is_deeper_than (sl_indentation line) (df_indentation (sp_definitions p ! j))
        \<and> extends ((case base of Some b \<Rightarrow> b | None \<Rightarrow> []) @ segs) (path_list (df_path (sp_definitions p ! j)))"
      by blast
  qed
  moreover have "[] \<notin> set (case base of Some b \<Rightarrow> b | None \<Rightarrow> [])" using s by (auto split: option.split)
  moreover have "\<exists>hs h. enclosing_blocks source (sl_indentation line) hs \<and> line_ok source h \<and> is_path_spelling (sl_tokens h)
      \<and> sl_indentation h = sl_indentation line
      \<and> (if starts_with_slash (sl_tokens line) then [] else case base of Some b \<Rightarrow> b | None \<Rightarrow> []) @ segs
          = owner_segments (sp_definitions p) (if starts_with_slash (sl_tokens line) then None else owner) @ block_segments (hs @ [h])"
  proof (cases "starts_with_slash (sl_tokens line)")
    case True
    then show ?thesis using l by (intro exI [of _ "[]"] exI [of _ line]) (simp add: owner_segments_def block_segments_def)
  next
    case False
    obtain hs where "enclosing_blocks source (sl_indentation line) hs"
        "(case base of Some b \<Rightarrow> b | None \<Rightarrow> []) = owner_segments (sp_definitions p) owner @ block_segments hs" using hs by blast
    then show ?thesis using l False by (intro exI [of _ hs] exI [of _ line]) (simp add: block_segments_def)
  qed
  ultimately have "context_ok source (sp_definitions p) (InNamespace (sl_indentation line)
      ((if starts_with_slash (sl_tokens line) then [] else case base of Some b \<Rightarrow> b | None \<Rightarrow> []) @ segs)
      (if starts_with_slash (sl_tokens line) then None else owner) kind)"
    using segs by (simp add: encloses_def)
  then show ?thesis using p by (simp add: push_namespace_eq [OF b] placed_def tree_ok_def)
qed

lemma push_body_line_ok:
  assumes p: "placed source p (sl_indentation line)" and l: "line_ok source line" and t: "body_target p line = Inr (Some i)"
  shows "\<exists>p'. push_body_line p i line = Inr p' \<and> tree_ok source p' \<and> sp_stack p' = sp_stack p"
proof -
  let ?defs = "sp_definitions p"
  obtain stack where stack: "sp_stack p = InDefinition i # stack" and i: "i < length ?defs"
    using p t by (auto simp: body_target_def procedure_body_owner_def definition_at_ok placed_def tree_ok_def
        split: list.splits parse_context.splits if_splits)
  have d: "owns_procedure_body (df_kind (?defs ! i))" "is_deeper_than (sl_indentation line) (df_indentation (?defs ! i))"
    using t stack i by (auto simp: body_target_def procedure_body_owner_def definition_at_ok split: if_splits)
  let ?d = "(?defs ! i)\<lparr>df_body := df_body (?defs ! i) @ [line]\<rparr>"
  have heads: "same_heads (take k ?defs) (take k (?defs[i := ?d]))" for k
    using i by (auto simp: same_heads_def nth_list_update)
  have "list_all (context_ok source (?defs[i := ?d])) (sp_stack p)"
    using p context_ok_same [OF heads [of "length ?defs"]] by (auto simp: placed_def tree_ok_def list_all_iff)
  moreover have "definition_ok source (take k (?defs[i := ?d])) (?defs[i := ?d] ! k)" if "k < length ?defs" for k
  proof -
    have ok: "definition_ok source (take k (?defs[i := ?d])) (?defs ! k)"
      using p that definition_ok_same [OF heads] by (simp add: placed_def tree_ok_def)
    show ?thesis
    proof (cases "k = i")
      case True
      have same: "body_line_ok source ?d = body_line_ok source (?defs ! i)" by (auto simp: body_line_ok_def)
      show ?thesis using ok True i d l by (auto simp: definition_ok_def path_canonical_def same) (auto simp: body_line_ok_def)
    qed (use ok in simp)
  qed
  ultimately show ?thesis using i by (simp add: push_body_line_def definition_at_ok tree_ok_def)
qed

definition placed_candidate :: "syntax_parser \<Rightarrow> candidate \<Rightarrow> candidate" where
  "placed_candidate p c = (case current_namespace p of Some k \<Rightarrow> c\<lparr>cd_kind := ns_definition_kind k\<rparr> | None \<Rightarrow> c)"

lemma placed_candidate_simps [simp]:
  "cd_segments (placed_candidate p c) = cd_segments c" "cd_absolute (placed_candidate p c) = cd_absolute c"
  by (simp_all add: placed_candidate_def split: option.split)

definition placed_definition :: "syntax_parser \<Rightarrow> source_line \<Rightarrow> candidate \<Rightarrow> nat option \<Rightarrow> definition_path \<Rightarrow> parameter_syntax list
    \<Rightarrow> definition_syntax" where
  "placed_definition p line c owner path ps = (let ts = sl_tokens line; inline = inline_body_start (cd_kind c) ts in
     \<lparr>df_path = path, df_kind = cd_kind c, df_parent = (if cd_absolute c then None else owner),
      df_indentation = sl_indentation line, df_span = sl_span line,
      df_header = (case inline of Some n \<Rightarrow> take n ts | None \<Rightarrow> ts), df_parameters = ps,
      df_body = (case inline of Some n \<Rightarrow> [line\<lparr>sl_tokens := drop n ts\<rparr>] | None \<Rightarrow> [])\<rparr>)"

lemma push_definition_eq:
  assumes b: "indentation_base p = Inr (base, owner)" and c: "c = placed_candidate p candidate"
  shows "push_definition p line candidate =
    res_bind (canonicalize_path (if cd_absolute c then None else base) c) (\<lambda>path.
    res_bind (if owns_procedure_body (cd_kind c)
      then parse_parameters (df_header (placed_definition p line c owner path [])) else Inr []) (\<lambda>ps.
      Inr (p\<lparr>sp_definitions := sp_definitions p @ [placed_definition p line c owner path ps],
        sp_stack := InDefinition (length (sp_definitions p)) # sp_stack p\<rparr>)))"
  unfolding push_definition_def placed_candidate_def [symmetric] c [symmetric] b placed_definition_def Let_def by simp

lemma base_segments_simps [simp]: "base_segments (if cd_absolute c then None else base) c = base_segments base c"
  by (simp add: base_segments_def)

lemma inline_line_ok:
  assumes l: "line_ok source line" and n: "n < length (sl_tokens line)"
  shows "line_ok source (line\<lparr>sl_tokens := drop n (sl_tokens line)\<rparr>)"
proof -
  have ts: "tokens_ok source (sl_tokens line)" using l by (simp add: line_ok_def)
  have "span_start (tok_span (hd (sl_tokens line))) \<le> span_start (tok_span (hd (drop n (sl_tokens line))))"
  proof (cases n)
    case (Suc m)
    obtain t rest where r: "sl_tokens line = t # rest" using n by (cases "sl_tokens line") auto
    have "rest ! m \<in> set rest" using n r Suc by simp
    then have "span_end (tok_span t) \<le> span_start (tok_span (rest ! m))" "token_ok source (length source) t"
      using ts r by (auto simp: tokens_ok_Cons)
    then show ?thesis using r Suc n by (simp add: hd_drop_conv_nth token_ok_def)
  qed simp
  then show ?thesis using l n tokens_ok_parts(2) [OF ts] by (auto simp: line_ok_def)
qed

lemma starts_with_slash_take: "0 < n \<Longrightarrow> starts_with_slash (take n ts) = starts_with_slash ts"
  by (cases ts; cases n) (auto simp: starts_with_slash_def)

lemma classified_slash:
  assumes "classify_line ts = Some c"
  shows "cd_segments c = header_segments ts" "cd_absolute c = starts_with_slash ts" "cd_segments c \<noteq> []"
proof -
  have c: "cd_segments c = path_segments (take (header_end ts) ts)" "cd_absolute c = starts_with_slash (take (header_end ts) ts)"
      "path_segments (take (header_end ts) ts) \<noteq> []" "ts \<noteq> []"
    using assms by (auto simp: classify_line_def Let_def split: if_splits)
  show "cd_segments c = header_segments ts" "cd_segments c \<noteq> []" using c by (simp_all add: header_segments_def)
  have "path_segments [] = []" by (simp add: path_segments_def)
  then have "0 < header_end ts" using c(3) by (metis gr0I take_0)
  then show "cd_absolute c = starts_with_slash ts" using c(2) starts_with_slash_take by simp
qed

lemma placed_path_canonical:
  assumes p: "placed source p (sl_indentation line)"
    and c: "classify_line (sl_tokens line) = Some candidate" "c = placed_candidate p candidate"
    and b: "indentation_base p = Inr (base, owner)"
    and path: "canonicalize_path (if cd_absolute c then None else base) c = Inr path"
  shows "path_canonical source (sp_definitions p) (placed_definition p line c owner path ps)"
proof -
  let ?d = "placed_definition p line c owner path ps"
  note C = classified_slash [OF c(1)]
  have h: "header_segments (df_header ?d) = cd_segments c"
    using header_segments_take C(1) c(2) by (auto simp: placed_definition_def Let_def split: option.split)
  have slash: "starts_with_slash (df_header ?d) = cd_absolute c"
  proof (cases "inline_body_start (cd_kind c) (sl_tokens line)")
    case (Some n)
    then have "0 < n" using inline_body_start_positive [OF Some] by auto
    then show ?thesis using C(2) c(2) Some by (simp add: placed_definition_def Let_def starts_with_slash_take)
  qed (use C(2) c(2) in \<open>simp add: placed_definition_def Let_def\<close>)
  have can: "canonical_of (cd_kind c) (base_segments base c @ cd_segments c) (path_list path)"
    using canonicalize_path_canonical [OF path] C(3) c(2) base_segments_simps [of c base] by (simp only: placed_candidate_simps) simp
  show ?thesis
  proof (cases "cd_absolute c")
    case True
    then show ?thesis using can h slash unfolding path_canonical_def
      by (intro exI [of _ "[]"]) (simp add: placed_definition_def Let_def owner_segments_def base_segments_def)
  next
    case False
    obtain hs where "enclosing_blocks source (sl_indentation line) hs"
        "(case base of Some b \<Rightarrow> b | None \<Rightarrow> []) = owner_segments (sp_definitions p) owner @ block_segments hs"
      using indentation_base_ok [OF p] b by auto
    then show ?thesis using can h slash False unfolding path_canonical_def
      by (intro exI [of _ hs]) (simp add: placed_definition_def Let_def base_segments_def)
  qed
qed

lemma placed_definition_ok:
  assumes p: "placed source p (sl_indentation line)" and l: "line_ok source line"
    and c: "classify_line (sl_tokens line) = Some candidate" "c = placed_candidate p candidate"
    and b: "indentation_base p = Inr (base, owner)"
    and path: "canonicalize_path (if cd_absolute c then None else base) c = Inr path"
  shows "definition_ok source (sp_definitions p) (placed_definition p line c owner path ps)"
proof -
  note C = classify_line_candidate [OF c(1)]
  have ts: "tokens_ok source (sl_tokens line)" "span_inside source (sl_span line)" using l by (simp_all add: line_ok_def)
  have base: "encloses (sp_definitions p) owner (sl_indentation line) (\<lambda>P. \<exists>b. base = Some b \<and> extends b P)"
    "current_namespace p = None \<Longrightarrow> base = Some b \<Longrightarrow> set b \<inter> {''var'', ''proc'', ''verb''} = {}" for b
    using indentation_base_ok [OF p] b by auto
  have "encloses (sp_definitions p) (if cd_absolute c then None else owner) (sl_indentation line) (extends_strictly (path_list path))"
    unfolding encloses_def
  proof (intro allI impI)
    fix j assume j: "(if cd_absolute c then None else owner) = Some j"
    then have o: "owner = Some j" and a: "\<not> cd_absolute c" by (auto split: if_splits)
    note J = base(1) [unfolded encloses_def, rule_format, OF o]
    then obtain b s where bs: "base = Some b" "b = path_list (df_path (sp_definitions p ! j)) @ s" by (auto simp: extends_def)
    have "definition_ok source (take j (sp_definitions p)) (sp_definitions p ! j)" using p J by (simp add: placed_def tree_ok_def)
    then have "''var'' \<notin> set (path_list (df_path (sp_definitions p ! j)))" using J by (simp add: definition_ok_def kind_shape_def)
    then have "extends_strictly (path_list path) (path_list (df_path (sp_definitions p ! j)))"
      using canonicalize_path_extends [OF path] C(1) a bs by (simp add: c(2) base_segments_def extends_strictly_def)
    then show "j < length (sp_definitions p) \<and> df_kind (sp_definitions p ! j) = TypeDef
        \<and> is_deeper_than (sl_indentation line) (df_indentation (sp_definitions p ! j))
        \<and> extends_strictly (path_list path) (path_list (df_path (sp_definitions p ! j)))" using J by blast
  qed
  moreover have "kind_shape (cd_kind c) (path_list path) \<and> path_list path \<noteq> [] \<and> [] \<notin> set (path_list path)"
  proof (rule canonicalize_path_shape [OF path])
    assume "cd_kind c = TypeDef"
    then have n: "current_namespace p = None" "cd_kind candidate = TypeDef"
      using c(2) ns_definition_kind.elims by (auto simp: placed_candidate_def split: option.splits)
    then show "(set (base_segments (if cd_absolute c then None else base) c) \<union> set (cd_segments c)) \<inter> {''var'', ''proc'', ''verb''} = {}"
      using C(3) base(2) c(2) by (auto simp: base_segments_def split: option.split)
  qed
  moreover have "path_canonical source (sp_definitions p) (placed_definition p line c owner path ps)"
    by (rule placed_path_canonical [OF p c b path])
  moreover have "tokens_ok source (df_header (placed_definition p line c owner path ps))"
    using ts(1) by (simp add: placed_definition_def Let_def tokens_ok_parts split: option.split)
  moreover have "list_all (body_line_ok source (placed_definition p line c owner path ps)) (df_body (placed_definition p line c owner path ps))"
    using inline_line_ok [OF l] inline_body_start_bound [of "cd_kind c" "sl_tokens line"]
    by (auto simp: placed_definition_def Let_def body_line_ok_def split: option.split)
  ultimately show ?thesis using ts(2) by (simp add: definition_ok_def placed_definition_def Let_def)
qed

section \<open>The panic\<close>

text \<open>Every open variable block has a \<open>var\<close> node on its path.\<close>

definition variables_context :: "parse_context \<Rightarrow> bool" where
  "variables_context ctx \<longleftrightarrow> (case ctx of
     InNamespace _ segs _ kind \<Rightarrow> kind = NsVariable \<longrightarrow> ''var'' \<in> set segs | InDefinition _ \<Rightarrow> True)"

definition variables_ok :: "syntax_parser \<Rightarrow> bool" where
  "variables_ok p \<longleftrightarrow> list_all variables_context (sp_stack p)"

lemma variables_context_simps [simp]:
  "variables_context (InDefinition i)"
  "variables_context (InNamespace ind segs owner kind) \<longleftrightarrow> (kind = NsVariable \<longrightarrow> ''var'' \<in> set segs)"
  by (simp_all add: variables_context_def)

text \<open>An absolute path directly in a variable block: it replaces the path of the block, and the \<open>var\<close> node with it.\<close>

definition absolute_in_variables :: "syntax_parser \<Rightarrow> source_line \<Rightarrow> bool" where
  "absolute_in_variables p line \<longleftrightarrow> current_namespace p = Some NsVariable \<and> starts_with_slash (sl_tokens line)"

lemma current_namespace_base:
  assumes "variables_ok p" "current_namespace p = Some NsVariable" "indentation_base p = Inr (base, owner)"
  shows "\<exists>b. base = Some b \<and> ''var'' \<in> set b"
  using assms by (auto simp: current_namespace_def indentation_base_def variables_ok_def split: list.splits parse_context.splits)

definition line_failure :: "string \<Rightarrow> syntax_parser \<Rightarrow> source_line \<Rightarrow> syntax_failure \<Rightarrow> bool" where
  "line_failure source p line e \<longleftrightarrow> (variables_ok p \<and> \<not> absolute_in_variables p line \<longrightarrow> syntax_failure_ok source e)"

definition line_result :: "string \<Rightarrow> syntax_parser \<Rightarrow> source_line \<Rightarrow> syntax_parser \<Rightarrow> bool" where
  "line_result source p line p' \<longleftrightarrow> tree_ok source p' \<and> (variables_ok p \<and> \<not> absolute_in_variables p line \<longrightarrow> variables_ok p')"

abbreviation line_sound :: "string \<Rightarrow> syntax_parser \<Rightarrow> source_line \<Rightarrow> syntax_parser syntax_result \<Rightarrow> bool" where
  "line_sound source p line \<equiv> satisfies (line_failure source p line) (line_result source p line)"

lemma push_definition_sound:
  assumes p: "placed source p (sl_indentation line)" and l: "line_ok source line"
    and c: "classify_line (sl_tokens line) = Some candidate"
  shows "line_sound source p line (push_definition p line candidate)"
proof -
  define c' where c': "c' = placed_candidate p candidate"
  note C = classify_line_candidate [OF c]
  obtain base owner where b: "indentation_base p = Inr (base, owner)" using indentation_base_ok [OF p] by auto
  have base: "base = Some x \<Longrightarrow> [] \<notin> set x" for x using indentation_base_ok [OF p] b by auto
  have ts: "tokens_ok source (sl_tokens line)" using l by (simp add: line_ok_def)
  have path: "\<exists>path. canonicalize_path (if cd_absolute c' then None else base) c' = Inr path"
    if v: "variables_ok p" and a: "\<not> absolute_in_variables p line"
  proof (rule canonicalize_path_total)
    show "cd_segments c' \<noteq> []" using C(1) c' by simp
    show "[] \<notin> set (base_segments (if cd_absolute c' then None else base) c' @ cd_segments c')"
      using C(2) [OF ts] base c' by (auto simp: base_segments_def split: option.split)
    assume k: "cd_kind c' = VariableDef"
    show "''var'' \<in> set (base_segments (if cd_absolute c' then None else base) c' @ cd_segments c')"
    proof (cases "current_namespace p")
      case None
      then show ?thesis using C(4) k c' by (simp add: placed_candidate_def)
    next
      case (Some ns)
      then have n: "current_namespace p = Some NsVariable" using k c' by (cases ns) (simp_all add: placed_candidate_def)
      then have "\<not> cd_absolute candidate" using a c
        by (auto simp: absolute_in_variables_def classify_line_def Let_def starts_with_slash_def split: if_splits)
      then show ?thesis using current_namespace_base [OF v n b] c' by (auto simp: base_segments_def)
    qed
  qed
  show ?thesis unfolding push_definition_eq [OF b c']
  proof (rule satisfies_bind_eq [where P = "\<lambda>_. True"])
    show "satisfies (line_failure source p line) (\<lambda>_. True) (canonicalize_path (if cd_absolute c' then None else base) c')"
      using path by (cases "canonicalize_path (if cd_absolute c' then None else base) c'") (auto simp: line_failure_def)
    fix path assume path: "canonicalize_path (if cd_absolute c' then None else base) c' = Inr path"
    note D = placed_definition_ok [OF p l c c' b path]
    have "sound source (\<lambda>_. True) (parse_parameters (df_header (placed_definition p line c' owner path [])))"
      using D [of "[]"] by (intro parse_parameters_sound) (simp add: definition_ok_def)
    then have "satisfies (line_failure source p line) (\<lambda>_. True) (if owns_procedure_body (cd_kind c')
        then parse_parameters (df_header (placed_definition p line c' owner path [])) else Inr [])"
      by (cases "parse_parameters (df_header (placed_definition p line c' owner path []))") (auto simp: line_failure_def)
    then show "line_sound source p line (res_bind (if owns_procedure_body (cd_kind c')
        then parse_parameters (df_header (placed_definition p line c' owner path [])) else Inr []) (\<lambda>ps.
        Inr (p\<lparr>sp_definitions := sp_definitions p @ [placed_definition p line c' owner path ps],
          sp_stack := InDefinition (length (sp_definitions p)) # sp_stack p\<rparr>)))"
    proof (rule satisfies_bind)
      fix ps
      show "line_sound source p line (Inr (p\<lparr>sp_definitions := sp_definitions p @ [placed_definition p line c' owner path ps],
          sp_stack := InDefinition (length (sp_definitions p)) # sp_stack p\<rparr>))"
        using tree_ok_append [OF _ D] p by (simp add: line_result_def placed_def variables_ok_def)
    qed
  qed
qed

lemma push_namespace_sound:
  assumes p: "placed source p (sl_indentation line)" and l: "line_ok source line"
    and c: "classify_namespace p line next = Some (segs, kind)"
  shows "line_sound source p line (push_namespace p line segs kind)"
proof -
  obtain base owner where b: "indentation_base p = Inr (base, owner)" using indentation_base_ok [OF p] by auto
  have segs: "segs = path_segments (sl_tokens line)"
    and kind: "namespace_kind_from_segments segs = Some kind \<or> current_namespace p = Some kind"
    using c by (auto simp: classify_namespace_def Let_def split: if_splits option.splits)
  have spelled: "is_path_spelling (sl_tokens line)" using c by (auto simp: classify_namespace_def Let_def split: if_splits)
  have "[] \<notin> set segs" using l path_segments_nonempty [of source "sl_tokens line"] segs by (simp add: line_ok_def)
  then obtain p' where p': "push_namespace p line segs kind = Inr p'" "tree_ok source p'"
    using push_namespace_ok [OF p _ l spelled segs] by blast
  have "variables_ok p'" if v: "variables_ok p" and a: "\<not> absolute_in_variables p line"
  proof -
    have "''var'' \<in> set ((if starts_with_slash (sl_tokens line) then [] else case base of Some b \<Rightarrow> b | None \<Rightarrow> []) @ segs)"
      if "kind = NsVariable"
    proof (cases "namespace_kind_from_segments segs = Some kind")
      case True
      then show ?thesis using that by (auto simp: namespace_kind_from_segments_def split: if_splits)
    next
      case False
      then have "current_namespace p = Some NsVariable" using kind that by simp
      then show ?thesis using current_namespace_base [OF v _ b] a by (auto simp: absolute_in_variables_def)
    qed
    then show ?thesis using v p'(1) by (auto simp: push_namespace_eq [OF b] variables_ok_def)
  qed
  then show ?thesis using p' by (simp add: line_result_def)
qed

text \<open>The state of the parser once the definitions that a line ends are closed.\<close>

definition popped :: "syntax_parser \<Rightarrow> source_line \<Rightarrow> syntax_parser" where
  "popped p line = p\<lparr>sp_stack := projr (pop_finished (sp_definitions p) (sl_indentation line) (sp_stack p))\<rparr>"

lemma parse_line_popped:
  assumes "tree_ok source p"
  shows "placed source (popped p line) (sl_indentation line)" "variables_ok p \<Longrightarrow> variables_ok (popped p line)"
    "parse_line p line next = (let p = popped p line in
     res_bind (body_target p line) (\<lambda>target. case target of
         Some i \<Rightarrow> push_body_line p i line
       | None \<Rightarrow> (case classify_namespace p line next of
             Some (segs, kind) \<Rightarrow> push_namespace p line segs kind
           | None \<Rightarrow> (case classify_line (sl_tokens line) of
                 None \<Rightarrow> Inr p
               | Some candidate \<Rightarrow> push_definition p line candidate))))"
proof -
  obtain stack where s: "pop_finished (sp_definitions p) (sl_indentation line) (sp_stack p) = Inr stack"
    "list_all (context_ok source (sp_definitions p)) stack" "set stack \<subseteq> set (sp_stack p)"
    "stack \<noteq> [] \<longrightarrow> deeper_than_context (sp_definitions p) (sl_indentation line) (hd stack)"
    using pop_finished_ok [of source "sp_definitions p" "sp_stack p" "sl_indentation line"] assms by (auto simp: tree_ok_def)
  then show "placed source (popped p line) (sl_indentation line)" using assms by (simp add: popped_def placed_def tree_ok_def)
  show "variables_ok (popped p line)" if "variables_ok p" using that s(1,3) by (auto simp: popped_def variables_ok_def list_all_iff)
  show "parse_line p line next = (let p = popped p line in
     res_bind (body_target p line) (\<lambda>target. case target of
         Some i \<Rightarrow> push_body_line p i line
       | None \<Rightarrow> (case classify_namespace p line next of
             Some (segs, kind) \<Rightarrow> push_namespace p line segs kind
           | None \<Rightarrow> (case classify_line (sl_tokens line) of
                 None \<Rightarrow> Inr p
               | Some candidate \<Rightarrow> push_definition p line candidate))))"
    by (simp add: parse_line_def s(1) popped_def Let_def)
qed

lemma body_target_total: "placed source p ind \<Longrightarrow> \<exists>t. body_target p line = Inr t"
  by (auto simp: body_target_def procedure_body_owner_def definition_at_ok placed_def tree_ok_def
      split: list.splits parse_context.splits option.split)

lemma push_body_line_variables:
  assumes "push_body_line p i line = Inr p'" "variables_ok p"
  shows "variables_ok p'"
  using assms by (auto simp: push_body_line_def res_bind_Inr_iff variables_ok_def)

lemma parse_line_sound:
  assumes t: "tree_ok source p" and l: "line_ok source line"
  shows "line_sound source (popped p line) line (parse_line p line next)"
proof -
  note P = parse_line_popped [OF t, of line]
  obtain target where b: "body_target (popped p line) line = Inr target" using body_target_total [OF P(1)] by auto
  show ?thesis unfolding P(3) Let_def b res_bind_simps
  proof (cases target)
    case (Some i)
    obtain p' where p': "push_body_line (popped p line) i line = Inr p'" "tree_ok source p'"
      using push_body_line_ok [OF P(1) l b [unfolded Some]] by auto
    then show "line_sound source (popped p line) line (case target of
         Some i \<Rightarrow> push_body_line (popped p line) i line
       | None \<Rightarrow> (case classify_namespace (popped p line) line next of
             Some (segs, kind) \<Rightarrow> push_namespace (popped p line) line segs kind
           | None \<Rightarrow> (case classify_line (sl_tokens line) of
                 None \<Rightarrow> Inr (popped p line)
               | Some candidate \<Rightarrow> push_definition (popped p line) line candidate)))"
      using push_body_line_variables Some by (auto simp: line_result_def)
  next
    case None
    have "line_sound source (popped p line) line (Inr (popped p line))" using P(1) by (simp add: line_result_def placed_def)
    then show "line_sound source (popped p line) line (case target of
         Some i \<Rightarrow> push_body_line (popped p line) i line
       | None \<Rightarrow> (case classify_namespace (popped p line) line next of
             Some (segs, kind) \<Rightarrow> push_namespace (popped p line) line segs kind
           | None \<Rightarrow> (case classify_line (sl_tokens line) of
                 None \<Rightarrow> Inr (popped p line)
               | Some candidate \<Rightarrow> push_definition (popped p line) line candidate)))"
      using push_namespace_sound [OF P(1) l] push_definition_sound [OF P(1) l] None by (auto split: option.split)
  qed
qed

section \<open>Runs\<close>

text \<open>The states in which the parser reads the lines \<open>ls\<close>, with the lines still to read.\<close>

inductive reading :: "source_line list \<Rightarrow> syntax_parser \<Rightarrow> source_line list \<Rightarrow> bool" for ls where
  reading_start: "reading ls syntax_parser_new ls"
| reading_line: "reading ls p (l # rest) \<Longrightarrow> parse_line p l (case rest of [] \<Rightarrow> None | l # _ \<Rightarrow> Some l) = Inr p' \<Longrightarrow> reading ls p' rest"

lemma reading_ok:
  assumes "reading ls p rest" "list_all (line_ok source) ls"
  shows "tree_ok source p \<and> list_all (line_ok source) rest
    \<and> ((\<forall>p l rest. reading ls p (l # rest) \<longrightarrow> \<not> absolute_in_variables (popped p l) l) \<longrightarrow> variables_ok p)"
  using assms
proof induction
  case reading_start
  then show ?case by (simp add: tree_ok_def syntax_parser_new_def variables_ok_def)
next
  case (reading_line p l rest p')
  have l: "tree_ok source p" "line_ok source l" "list_all (line_ok source) rest" using reading_line by simp_all
  have "line_result source (popped p l) l p'"
    using parse_line_sound [OF l(1,2)] reading_line(2) by (metis satisfies_Inr)
  then show ?case using reading_line l parse_line_popped(2) [OF l(1)] by (auto simp: line_result_def)
qed

lemma parser_run_sound:
  assumes "reading ls p rest" "list_all (line_ok source) ls"
  shows "satisfies (\<lambda>e. (\<forall>p l rest. reading ls p (l # rest) \<longrightarrow> \<not> absolute_in_variables (popped p l) l) \<longrightarrow> syntax_failure_ok source e)
    (tree_ok source) (parser_run p rest)"
  using assms(1)
proof (induction rest arbitrary: p rule: list.induct)
  case Nil
  then show ?case using reading_ok [OF Nil assms(2)] by simp
next
  case (Cons l rest)
  note R = reading_ok [OF Cons(2) assms(2)]
  have l: "tree_ok source p" "line_ok source l" using R by simp_all
  have v: "variables_ok (popped p l) \<and> \<not> absolute_in_variables (popped p l) l"
    if "\<forall>p l rest. reading ls p (l # rest) \<longrightarrow> \<not> absolute_in_variables (popped p l) l"
    using that R Cons(2) parse_line_popped(2) [OF l(1)] by blast
  show ?case
  proof (cases "parse_line p l (case rest of [] \<Rightarrow> None | l # _ \<Rightarrow> Some l)")
    case (Inl e)
    have "line_failure source (popped p l) l e" using parse_line_sound [OF l] Inl by (metis satisfies_Inl)
    then show ?thesis using v Inl by (auto simp: line_failure_def)
  next
    case (Inr p')
    then show ?thesis using Cons(1) [OF reading_line [OF Cons(2) Inr]] by simp
  qed
qed

section \<open>Words of the kinds\<close>

text \<open>
  Every definition of a procedure, verb or variable block has the word of the block on its path, as
  long as no header inside such a block is written with a leading slash.
\<close>

fun kind_word :: "namespace_kind \<Rightarrow> string" where
  "kind_word NsVariable = ''var''"
| "kind_word NsProcedure = ''proc''"
| "kind_word NsVerb = ''verb''"

definition absolute_in :: "namespace_kind \<Rightarrow> syntax_parser \<Rightarrow> source_line \<Rightarrow> bool" where
  "absolute_in k p line \<longleftrightarrow> current_namespace p = Some k \<and> starts_with_slash (sl_tokens line)"

definition blocks_named :: "namespace_kind \<Rightarrow> syntax_parser \<Rightarrow> bool" where
  "blocks_named k p \<longleftrightarrow> (\<forall>ind segs owner. InNamespace ind segs owner k \<in> set (sp_stack p) \<longrightarrow> kind_word k \<in> set segs)"

definition definitions_named :: "namespace_kind \<Rightarrow> syntax_parser \<Rightarrow> bool" where
  "definitions_named k p \<longleftrightarrow> (\<forall>d \<in> set (sp_definitions p). df_kind d = ns_definition_kind k \<longrightarrow> kind_word k \<in> set (path_list (df_path d)))"

lemma popped_named: "tree_ok source p \<Longrightarrow> blocks_named k p \<Longrightarrow> blocks_named k (popped p line)"
proof -
  assume t: "tree_ok source p" and b: "blocks_named k p"
  obtain stack where "pop_finished (sp_definitions p) (sl_indentation line) (sp_stack p) = Inr stack" "set stack \<subseteq> set (sp_stack p)"
    using pop_finished_ok [of source "sp_definitions p" "sp_stack p" "sl_indentation line"] t by (auto simp: tree_ok_def)
  then show ?thesis using b by (auto simp: popped_def blocks_named_def)
qed

lemma named_base:
  assumes "blocks_named k p" "current_namespace p = Some k" "indentation_base p = Inr (base, owner)"
  shows "\<exists>b. base = Some b \<and> kind_word k \<in> set b"
  using assms by (auto simp: current_namespace_def indentation_base_def blocks_named_def split: list.splits parse_context.splits)

lemma push_namespace_named:
  assumes "push_namespace p line segs kind = Inr p'" "classify_namespace p line next = Some (segs, kind)"
    and named: "blocks_named k p" "\<not> absolute_in k p line"
  shows "blocks_named k p'" "sp_definitions p' = sp_definitions p"
proof -
  obtain base owner where b: "indentation_base p = Inr (base, owner)" using assms(1) by (auto simp: push_namespace_def res_bind_Inr_iff)
  have p': "p' = p\<lparr>sp_stack := InNamespace (sl_indentation line) ((if starts_with_slash (sl_tokens line) then []
      else case base of Some b \<Rightarrow> b | None \<Rightarrow> []) @ segs) (if starts_with_slash (sl_tokens line) then None else owner) kind # sp_stack p\<rparr>"
    using assms(1) by (simp add: push_namespace_eq [OF b])
  then show "sp_definitions p' = sp_definitions p" by simp
  have "namespace_kind_from_segments segs = Some kind \<or> current_namespace p = Some kind"
    using assms(2) by (auto simp: classify_namespace_def Let_def split: if_splits option.splits)
  moreover have "kind_word kind \<in> set segs" if "namespace_kind_from_segments segs = Some kind"
    using that by (auto simp: namespace_kind_from_segments_def split: if_splits)
  ultimately have "kind_word k \<in> set ((if starts_with_slash (sl_tokens line) then [] else case base of Some b \<Rightarrow> b | None \<Rightarrow> []) @ segs)"
    if "kind = k"
    using that named_base [OF named(1) _ b] named(2) by (auto simp: absolute_in_def)
  then show "blocks_named k p'" using named(1) unfolding p' blocks_named_def by auto
qed

lemma push_definition_named:
  assumes "push_definition p line candidate = Inr p'" "classify_line (sl_tokens line) = Some candidate"
    and named: "blocks_named k p" "definitions_named k p" "\<not> absolute_in k p line" and b: "indentation_base p = Inr (base, owner)"
  shows "blocks_named k p' \<and> definitions_named k p'"
proof -
  let ?c = "placed_candidate p candidate"
  obtain path ps where path: "canonicalize_path (if cd_absolute ?c then None else base) ?c = Inr path"
    and p': "p' = p\<lparr>sp_definitions := sp_definitions p @ [placed_definition p line ?c owner path ps],
        sp_stack := InDefinition (length (sp_definitions p)) # sp_stack p\<rparr>"
    using assms(1) unfolding push_definition_eq [OF b refl] by (auto simp: res_bind_Inr_iff)
  note C = classified_slash [OF assms(2)]
  have can: "canonical_of (cd_kind ?c) (base_segments base ?c @ cd_segments candidate) (path_list path)"
    using canonicalize_path_canonical [OF path] C(3) base_segments_simps [of ?c base] by simp
  have "kind_word k \<in> set (path_list path)" if kind: "cd_kind ?c = ns_definition_kind k"
  proof -
    have "kind_word k \<in> set (base_segments base ?c @ cd_segments candidate)"
    proof (cases "current_namespace p")
      case None
      then have "cd_kind candidate = ns_definition_kind k" using kind by (simp add: placed_candidate_def)
      then show ?thesis using assms(2) by (cases k) (auto simp: classify_line_def candidate_kind_def Let_def split: if_splits)
    next
      case (Some j)
      then have j: "j = k" using kind by (cases j; cases k) (simp_all add: placed_candidate_def)
      then have "\<not> cd_absolute candidate" using named(3) Some C(2) by (simp add: absolute_in_def)
      then show ?thesis using named_base [OF named(1) _ b] Some j by (auto simp: base_segments_def)
    qed
    then show ?thesis using can kind by (cases k) (auto simp: canonical_of_def)
  qed
  then show ?thesis using named(1,2) unfolding p' blocks_named_def definitions_named_def
    by (auto simp: placed_definition_def Let_def)
qed

lemma push_body_line_named:
  assumes "push_body_line p i line = Inr p'" "blocks_named k p" "definitions_named k p"
  shows "blocks_named k p' \<and> definitions_named k p'"
  using assms by (fastforce simp: push_body_line_def res_bind_Inr_iff definition_at_def ok_or_Inr_iff vec_get_iff blocks_named_def
      definitions_named_def in_set_conv_nth nth_list_update split: if_splits)

lemma parse_line_named:
  assumes t: "tree_ok source p" and named: "blocks_named k p" "definitions_named k p" "\<not> absolute_in k (popped p line) line"
    and l: "parse_line p line next = Inr p'"
  shows "blocks_named k p' \<and> definitions_named k p'"
proof -
  let ?p = "popped p line"
  note P = parse_line_popped [OF t, of line]
  have n: "blocks_named k ?p" "definitions_named k ?p" using popped_named [OF t named(1)] named(2) by (simp_all add: popped_def definitions_named_def)
  obtain base owner where b: "indentation_base ?p = Inr (base, owner)" using indentation_base_ok [OF P(1)] by auto
  obtain target where target: "body_target ?p line = Inr target" using body_target_total [OF P(1)] by auto
  note L = l [unfolded P(3) Let_def target res_bind_simps]
  show ?thesis
  proof (cases target)
    case (Some i)
    then show ?thesis using L push_body_line_named [OF _ n] by simp
  next
    case target: None
    show ?thesis
    proof (cases "classify_namespace ?p line next")
      case (Some r)
      obtain segs kind where r: "r = (segs, kind)" by (cases r)
      have "push_namespace ?p line segs kind = Inr p'" using L target Some r by simp
      from push_namespace_named [OF this Some [unfolded r] n(1) named(3)] show ?thesis using n(2) by (simp add: definitions_named_def)
    next
      case None
      then show ?thesis using L target push_definition_named [OF _ _ n named(3) b] n by (auto split: option.splits)
    qed
  qed
qed

lemma reading_named:
  assumes "reading ls p rest" "list_all (line_ok source) ls"
    and "\<forall>p l rest. reading ls p (l # rest) \<longrightarrow> \<not> absolute_in k (popped p l) l"
  shows "blocks_named k p \<and> definitions_named k p"
  using assms(1)
proof induction
  case reading_start
  then show ?case by (simp add: blocks_named_def definitions_named_def syntax_parser_new_def)
next
  case (reading_line p l rest p')
  have "tree_ok source p" using reading_ok [OF reading_line(1) assms(2)] by blast
  then show ?case using parse_line_named [of source p k l] reading_line assms(3) by blast
qed

lemma reading_run: "reading ls p rest \<Longrightarrow> parser_run syntax_parser_new ls = parser_run p rest"
  by (induction rule: reading.induct) simp_all

lemma run_reading: "reading ls p rest \<Longrightarrow> parser_run p rest = Inr p' \<Longrightarrow> reading ls p' []"
proof (induction rest arbitrary: p rule: list.induct)
  case (Cons l rest)
  obtain q where q: "parse_line p l (case rest of [] \<Rightarrow> None | l # _ \<Rightarrow> Some l) = Inr q" "parser_run q rest = Inr p'"
    using Cons.prems(2) by (auto simp: res_bind_Inr_iff)
  show ?case by (rule Cons.IH [OF reading_line [OF Cons.prems(1) q(1)] q(2)])
qed simp

text \<open>A header with a leading slash in a block of the kind \<open>k\<close>, somewhere in the source.\<close>

definition slash_in_block :: "string \<Rightarrow> namespace_kind \<Rightarrow> bool" where
  "slash_in_block source k \<longleftrightarrow> (\<exists>ls p l rest. syntax_lines source = Inr ls \<and> reading ls p (l # rest) \<and> absolute_in k (popped p l) l)"

section \<open>The panic of a variable without its node\<close>

lemma absolute_variable_line:
  assumes t: "tree_ok source p" and a: "absolute_in_variables (popped p line) line"
    and c: "classify_namespace (popped p line) line next = None" "classify_line (sl_tokens line) = Some c" "''var'' \<notin> set (cd_segments c)"
  shows "parse_line p line next = Inl SyntaxPanic"
proof -
  let ?p = "popped p line" and ?c = "placed_candidate (popped p line) c"
  note P = parse_line_popped [OF t, of line]
  have n: "current_namespace ?p = Some NsVariable" using a by (simp add: absolute_in_variables_def)
  then have target: "body_target ?p line = Inr None"
    by (auto simp: current_namespace_def body_target_def procedure_body_owner_def split: list.splits parse_context.splits)
  obtain base owner where b: "indentation_base ?p = Inr (base, owner)" using indentation_base_ok [OF P(1)] by auto
  have k: "cd_kind ?c = VariableDef" "cd_absolute ?c" using n a classified_slash(2) [OF c(2)]
    by (simp_all add: placed_candidate_def absolute_in_variables_def)
  have "rposition (\<lambda>s. s = ''var'') (cd_segments c) = None" using c(3) by (auto simp: rposition_None)
  then have "canonicalize_path (if cd_absolute ?c then None else base) ?c = Inl SyntaxPanic"
    using k by (simp add: canonicalize_path_def Let_def)
  then have "push_definition ?p line c = Inl SyntaxPanic" by (simp add: push_definition_eq [OF b refl])
  then show ?thesis unfolding P(3) by (simp add: Let_def target c)
qed

end
