(* ===== verification/DmSyntaxProps.thy ===== *)
theory DmSyntaxProps
  imports DmSyntaxTree
begin

text \<open>
  Properties of the syntax layer.
\<close>

lemma syntax_lines_panic: "lex source = Inl LexPanic \<Longrightarrow> syntax_lines source = Inl SyntaxPanic"
  by (simp add: syntax_lines_def)

text \<open>C17. A failure of the syntax layer on a valid source has its span inside the source, unless the lexer panicked or
  the parser met an absolute path while a variable block was innermost: there is no other panic.\<close>

theorem syntax_parse_safe:
  assumes "utf8_valid source" and "syntax_parse source = Inl e"
  shows "syntax_failure_ok source e \<or> lex source = Inl LexPanic
    \<or> (\<exists>ls p l rest. syntax_lines source = Inr ls \<and> reading ls p (l # rest) \<and> absolute_in_variables (popped p l) l)"
proof (cases "lex source = Inl LexPanic")
  case False
  note L = syntax_lines_sound(1) [OF assms(1) False]
  show ?thesis
  proof (cases "syntax_lines source")
    case (Inl e')
    then show ?thesis using L assms(2) by (simp add: syntax_parse_def)
  next
    case (Inr ls)
    then have "list_all (line_ok source) ls" using L by simp
    from parser_run_sound [OF reading_start this] show ?thesis
      using Inr assms(2) by (cases "parser_run syntax_parser_new ls") (auto simp: syntax_parse_def)
  qed
qed simp

definition unclosed_call :: string where
  "unclosed_call = ''/proc/f()'' @ [nl_char, tab_char] @ ''g(1''"

theorem syntax_parse_safe_witness:
  "syntax_parse unclosed_call = Inl (UnclosedDelimiter \<lparr>span_start = 12, span_end = 13\<rparr>)
    \<and> (syntax_failure_ok unclosed_call (UnclosedDelimiter \<lparr>span_start = 12, span_end = 13\<rparr>) \<or> lex unclosed_call = Inl LexPanic
      \<or> (\<exists>ls p l rest. syntax_lines unclosed_call = Inr ls \<and> reading ls p (l # rest) \<and> absolute_in_variables (popped p l) l))"
proof -
  have e: "syntax_parse unclosed_call = Inl (UnclosedDelimiter \<lparr>span_start = 12, span_end = 13\<rparr>)" by code_simp
  have "utf8_valid unclosed_call" by code_simp
  from syntax_parse_safe [OF this e] e show ?thesis by blast
qed


definition sample_types :: string where
  "sample_types = ''/obj'' @ [nl_char, tab_char] @ ''f() x(1)'' @ [nl_char]"




text \<open>C19. No code is lost on the way to the expanded lines: their tokens are the tokens of the source but for layout,
  separators and braces, in order, and every line is a non-empty run of them under its span.\<close>

theorem syntax_lines_lossless:
  assumes "utf8_valid source" and "lex source = Inr toks" and "syntax_lines source = Inr ls"
  shows "filter kept_token (line_tokens ls) = filter (\<lambda>t. kept_token t \<and> code_token t) toks \<and> list_all (line_ok source) ls"
  using syntax_lines_sound(1) [OF assms(1)] syntax_lines_sound(2) [OF assms(1) _ assms(2)] assms(2,3) by simp

theorem syntax_lines_lossless_witness:
  "list_all (line_ok sample_types) (projr (syntax_lines sample_types))"
proof -
  have v: "utf8_valid sample_types" by code_simp
  have l: "lex sample_types = Inr (projr (lex sample_types))" "syntax_lines sample_types = Inr (projr (syntax_lines sample_types))"
    by code_simp+
  from syntax_lines_lossless [OF v l] show ?thesis by simp
qed

definition absolute_variable_source :: string where
  "absolute_variable_source = ''/obj'' @ [nl_char, tab_char] @ ''var'' @ [nl_char, tab_char, tab_char] @ ''/x = 1'' @ [nl_char]"

text \<open>C39. A variable whose header starts with a slash, read while a variable block is innermost, makes the parser panic
  unless the header itself has the segment \<open>var\<close>: whatever was read before and whatever follows, although \<open>parse\<close>
  documents errors only.\<close>

theorem absolute_variable_panics:
  assumes "utf8_valid source" and "syntax_lines source = Inr ls" and "reading ls p (l # rest)"
    and "absolute_in_variables (popped p l) l"
    and "classify_namespace (popped p l) l (case rest of [] \<Rightarrow> None | l # _ \<Rightarrow> Some l) = None"
    and "classify_line (sl_tokens l) = Some c" and "''var'' \<notin> set (cd_segments c)"
  shows "syntax_parse source = Inl SyntaxPanic"
proof -
  have "lex source \<noteq> Inl LexPanic" using assms(2) syntax_lines_panic [of source] by auto
  then have "list_all (line_ok source) ls" using syntax_lines_sound(1) [OF assms(1)] assms(2) by simp
  then have "tree_ok source p" using reading_ok [OF assms(3)] by blast
  from absolute_variable_line [OF this assms(4-7)] show ?thesis
    using reading_run [OF assms(3)] assms(2) by (simp add: syntax_parse_def)
qed

definition absolute_lines :: "source_line list" where
  "absolute_lines = projr (syntax_lines absolute_variable_source)"

definition absolute_reader :: "nat \<Rightarrow> syntax_parser" where
  "absolute_reader n = (if n = 0 then syntax_parser_new
     else projr (parse_line (if n = 1 then syntax_parser_new else projr (parse_line syntax_parser_new (absolute_lines ! 0) (Some (absolute_lines ! 1))))
       (absolute_lines ! (n - 1)) (Some (absolute_lines ! n))))"

lemma absolute_lines_cases: "absolute_lines = [absolute_lines ! 0, absolute_lines ! 1, absolute_lines ! 2]"
  by code_simp

lemma absolute_reading: "reading absolute_lines (absolute_reader 2) [absolute_lines ! 2]"
proof -
  have s: "parse_line syntax_parser_new (absolute_lines ! 0) (Some (absolute_lines ! 1)) = Inr (absolute_reader 1)"
    "parse_line (absolute_reader 1) (absolute_lines ! 1) (Some (absolute_lines ! 2)) = Inr (absolute_reader 2)"
    by code_simp+
  have "reading absolute_lines syntax_parser_new [absolute_lines ! 0, absolute_lines ! 1, absolute_lines ! 2]"
    using reading_start [of absolute_lines] absolute_lines_cases by simp
  from reading_line [OF this] s(1) have "reading absolute_lines (absolute_reader 1) [absolute_lines ! 1, absolute_lines ! 2]" by simp
  from reading_line [OF this] s(2) show ?thesis by simp
qed

theorem absolute_variable_panics_witness: "syntax_parse absolute_variable_source = Inl SyntaxPanic"
proof -
  have v: "utf8_valid absolute_variable_source" by code_simp
  have l: "syntax_lines absolute_variable_source = Inr absolute_lines" by code_simp
  have a: "absolute_in_variables (popped (absolute_reader 2) (absolute_lines ! 2)) (absolute_lines ! 2)" by code_simp
  have n: "classify_namespace (popped (absolute_reader 2) (absolute_lines ! 2)) (absolute_lines ! 2) (case [] of [] \<Rightarrow> None | l # _ \<Rightarrow> Some l) = None"
    by code_simp
  have c: "classify_line (sl_tokens (absolute_lines ! 2)) = Some (the (classify_line (sl_tokens (absolute_lines ! 2))))"
    "''var'' \<notin> set (cd_segments (the (classify_line (sl_tokens (absolute_lines ! 2)))))"
    by code_simp+
  from absolute_variable_panics [OF v l absolute_reading a n c] show ?thesis .
qed

text \<open>A token that neither opens nor closes a delimiter and is no part of the layout.\<close>

definition plain_token :: "spanned_token \<Rightarrow> bool" where
  "plain_token t \<longleftrightarrow> \<not> opens t \<and> \<not> closes t \<and> (case tok_kind t of LineStart _ _ \<Rightarrow> False | Newline \<Rightarrow> False | LineContinuation \<Rightarrow> False | _ \<Rightarrow> True)"

lemma logical_token_plain: "plain_token t \<Longrightarrow> logical_token g t = Inr (g\<lparr>lg_tokens := lg_tokens g @ [t]\<rparr>)"
  by (cases "tok_kind t") (auto simp: logical_token_def plain_token_def)

lemma logical_loop_plain:
  "list_all plain_token ts \<Longrightarrow> logical_loop g (ts @ rest) = logical_loop (g\<lparr>lg_tokens := lg_tokens g @ ts\<rparr>) rest"
  by (induction ts arbitrary: g) (simp_all add: logical_token_plain)

lemma logical_newline_open:
  "lg_delimiters h \<noteq> [] \<Longrightarrow> lg_tokens h = ts @ [b] \<Longrightarrow> is_punct c b \<Longrightarrow> logical_newline h t = Inr h"
proof -
  assume d: "lg_delimiters h \<noteq> []" and h: "lg_tokens h = ts @ [b]" and b: "is_punct c b"
  have "last (lg_tokens h) = b" using h by simp
  then show ?thesis using d h b by (cases ts) (simp_all add: logical_newline_def)
qed

text \<open>C40. The closing bracket of a null-conditional index, whose opening token is one operator, closes the delimiter around
  the index: inside one open parenthesis the line ends at the next newline, after the bracket. After a plain index the
  parenthesis is still open and the line goes on.\<close>

theorem null_index_cuts_line:
  assumes "lg_delimiters g = [d]" and "list_all plain_token ts" and "is_punct (CHR '']'') b" and "tok_kind nl = Newline"
    and "is_op ''?['' q" and "is_punct (CHR ''['') q'"
  shows "logical_loop g (q # ts @ b # nl # rest) = res_bind
      (finish_line (g\<lparr>lg_tokens := lg_tokens g @ q # ts @ [b], lg_delimiters := []\<rparr>) (span_end (tok_span nl)))
      (\<lambda>ls. logical_loop (g\<lparr>lg_delimiters := [], lg_lines := ls, lg_tokens := [], lg_indentation := indent_default, lg_start := None\<rparr>) rest)
    \<and> logical_loop g (q' # ts @ b # nl # rest) = logical_loop (g\<lparr>lg_tokens := lg_tokens g @ q' # ts @ [b], lg_delimiters := [d]\<rparr>) rest"
proof -
  have q: "logical_token g q = Inr (g\<lparr>lg_tokens := lg_tokens g @ [q]\<rparr>)"
    using assms(5) by (simp add: logical_token_def opens_def closes_def)
  have q': "logical_token g q' = Inr (g\<lparr>lg_tokens := lg_tokens g @ [q'], lg_delimiters := [d, tok_span q']\<rparr>)"
    using assms(1,6) by (simp add: logical_token_def opens_def)
  have b: "logical_token h b = Inr (h\<lparr>lg_tokens := lg_tokens h @ [b], lg_delimiters := butlast (lg_delimiters h)\<rparr>)" for h
    using assms(3) by (simp add: logical_token_def opens_def closes_def)
  have nl: "logical_token h nl = logical_newline h nl" for h using assms(4) by (simp add: logical_token_def)
  have "logical_loop g (q # ts @ b # nl # rest) = res_bind
      (finish_line (g\<lparr>lg_tokens := lg_tokens g @ q # ts @ [b], lg_delimiters := []\<rparr>) (span_end (tok_span nl)))
      (\<lambda>ls. logical_loop (g\<lparr>lg_delimiters := [], lg_lines := ls, lg_tokens := [], lg_indentation := indent_default, lg_start := None\<rparr>) rest)"
    by (simp add: q b nl logical_loop_plain [OF assms(2)] assms(1) logical_newline_def res_bind_assoc)
  moreover have "logical_loop g (q' # ts @ b # nl # rest) = logical_loop (g\<lparr>lg_tokens := lg_tokens g @ q' # ts @ [b], lg_delimiters := [d]\<rparr>) rest"
    using logical_newline_open [OF _ _ assms(3), of "g\<lparr>lg_tokens := lg_tokens g @ q' # ts @ [b], lg_delimiters := [d]\<rparr>" "lg_tokens g @ q' # ts" nl] assms(1)
    by (simp add: q' b nl logical_loop_plain [OF assms(2)])
  ultimately show ?thesis ..
qed

definition index_tokens :: "string \<Rightarrow> spanned_token list" where
  "index_tokens op = projr (lex (''f(a'' @ op @ ''1]'' @ [nl_char] @ '',b)''))"

definition index_state :: logical where
  "index_state = projr (logical_loop logical_new (take 4 (index_tokens ''?['')))"

theorem null_index_cuts_line_witness:
  "map_sum (\<lambda>_. ()) (length \<circ> lg_lines) (logical_loop index_state (drop 4 (index_tokens ''?[''))) = Inr 1
    \<and> lg_delimiters index_state \<noteq> []"
proof -
  let ?t = "\<lambda>i. index_tokens ''?['' ! i" and ?g = index_state
  have t: "lg_delimiters ?g = [hd (lg_delimiters ?g)]" "list_all plain_token [?t 5]" "is_punct (CHR '']'') (?t 6)"
    "tok_kind (?t 7) = Newline" "is_op ''?['' (?t 4)" "is_punct (CHR ''['') (index_tokens ''['' ! 4)"
    by code_simp+
  have d: "drop 4 (index_tokens ''?['') = ?t 4 # [?t 5] @ ?t 6 # ?t 7 # drop 8 (index_tokens ''?['')" by code_simp
  have "lg_delimiters ?g \<noteq> []" by code_simp
  moreover have "map_sum (\<lambda>_. ()) (length \<circ> lg_lines) (res_bind
      (finish_line (?g\<lparr>lg_tokens := lg_tokens ?g @ ?t 4 # [?t 5] @ [?t 6], lg_delimiters := []\<rparr>) (span_end (tok_span (?t 7))))
      (\<lambda>ls. logical_loop (?g\<lparr>lg_delimiters := [], lg_lines := ls, lg_tokens := [], lg_indentation := indent_default, lg_start := None\<rparr>)
        (drop 8 (index_tokens ''?['')))) = Inr 1"
    by code_simp
  ultimately show ?thesis using null_index_cuts_line [OF t] unfolding d by simp
qed

end
