(* ===== verification/Spec2Isabelle.thy ===== *)
theory Spec2Isabelle
  imports ModuleLaws LexerLaws HeapContainerProps InterpProps DmmProps DmSyntaxProps
begin

text \<open>
  A verification development for Dream64, a compiler and runtime for the DM language written in
  Rust (\<open>crates/\<close>). The program reads DM source (\<open>dm-lexer\<close>, \<open>dm-syntax\<close>, \<open>dm-semantics\<close>),
  compiles it to a register-less bytecode (\<open>dm-vm\<close>), stores compiled modules in a portable
  binary format, and executes them over a heap of values, lists and datums (\<open>dm-value\<close>) under a
  lifecycle server (\<open>dm-lifecycle\<close>).

  Theories and the code they model:

  \<^item> \<open>Prelude\<close>: machine words, Rust strings as UTF-8 bytes, \<open>Result\<close> as a sum, shared lemmas.
  \<^item> \<open>Vec\<close>: the standard vector operations, with their panics as \<open>None\<close>.
  \<^item> \<open>Value\<close> (\<open>dm-value/src/lib.rs\<close>): type paths, field names, the \<open>Value\<close> enum, semantic
    equality, index keys and hashes, packed values.
  \<^item> \<open>Fenwick\<close>, \<open>DmList\<close> (\<open>dm-value/src/lib.rs\<close>): the list storage and every method of \<open>DmList\<close>;
    \<open>DmListLaws\<close> (order entries as slots, the association index), \<open>DmListOps\<close> (the storage
    invariant \<open>list_inv\<close> and what each basic operation does to the entries), \<open>DmListKeys\<close>
    (associations and searches), \<open>DmListRanges\<close> (cuts, compaction, resizing), \<open>DmListRemoval\<close>
    (removal by value, quotas, copies), \<open>DmListProps\<close> (the refinement of the entry sequence by any
    run of operations, and the properties).
  \<^item> \<open>Arena\<close> (\<open>dm-value/src/lib.rs\<close>): generational slots in chunks; \<open>ArenaLaws\<close>: chunks as one
    vector, the invariant, the contract \<open>handle_store\<close> of a store of handles and its interpretation
    on the arena, handles that never resolve again, sweeping, snapshot validation, iteration.
  \<^item> \<open>Datum\<close> (\<open>dm-value/src/lib.rs\<close>): fields, the field index, the layout cache; \<open>DatumLaws\<close>: a datum
    is an association list in first-declaration order.
  \<^item> \<open>Heap\<close>, \<open>HeapGc\<close>, \<open>HeapSnapshot\<close> (\<open>dm-value/src/lib.rs\<close>): \<open>ValueHeap\<close>, its two collectors and
    its pointer-free images; \<open>HeapLaws\<close> (the heap as two maps from handles), \<open>HeapGcLaws\<close>
    (reachability and exactness of marking and sweeping), \<open>HeapProps\<close> (every operation against its
    specification, runs), \<open>HeapSnapshotLaws\<close> (restoring), \<open>HeapTheorems\<close> (the properties).
  \<^item> \<open>HeapContainer\<close> (\<open>dm-value/src/snapshot.rs\<close>): the binary container of heap images, streaming and
    two-step; \<open>HeapContainerLaws\<close> (reading what was written, the streaming writer),
    \<open>HeapContainerProps\<close> (the streaming loader, the properties).
  \<^item> \<open>DmCore\<close> (\<open>dm-core/src/lib.rs\<close>): file ids and byte spans.
  \<^item> \<open>Lexer\<close> (\<open>dm-lexer/src/lib.rs\<close>): the lexer state and every method of it, slicing panics
    included; \<open>LexerLaws\<close>: spans, spelling, errors, panics.
  \<^item> \<open>DmSyntax\<close> (\<open>dm-syntax/src/lib.rs\<close>): the tokens of a source as logical lines, braced definitions
    expanded to indented ones, and the tree of definitions; \<open>DmSyntaxLaws\<close> (lines and expansion on the
    tokens of the lexer), \<open>DmSyntaxTree\<close> (the invariant of the parser, canonical paths, and its one panic,
    over every state a run reads), \<open>DmSyntaxProps\<close> (the properties).
  \<^item> \<open>Instruction\<close> (\<open>dm-vm/src/bytecode.rs\<close>): the instruction set, programs and modules.
  \<^item> \<open>CodecIO\<close>, \<open>InstructionCodec\<close>, \<open>ModuleCodec\<close> (\<open>dm-vm/src/module_codec.rs\<close>,
    \<open>compile.rs\<close>): byte writer and reader, the 137 instruction encodings, the portable module
    format, its validation, the name indexes and the semantic digests; \<open>InstructionLaws\<close>,
    \<open>ModuleLaws\<close>: round trips, soundness of validation (every jump target but the exit of a fused list
    iteration, which \<open>validate_program\<close> does not check), digests.
  \<^item> \<open>Wordcode\<close> (\<open>dm-vm/src/compact_wordcode.rs\<close>): the 32-bit dispatch words of a module, their
    string table and binary image; \<open>WordcodeLaws\<close>: words and their instructions, the contract
    \<open>exact_codec\<close> of a codec, the image reader.
  \<^item> \<open>Interp\<close> (\<open>dm-vm/src/execution/interpreter.rs\<close>, \<open>frame.rs\<close>, \<open>value_ops/mod.rs\<close>): frames, one
    step of \<open>dispatch_instruction\<close> on locals, lists, operators, jumps and handlers, the compact fast
    path of \<open>native/fastpath_jit.rs\<close>, the search for exception handlers; \<open>InterpLaws\<close> (no step
    panics or breaks the machine, literals, validated words), \<open>InterpProps\<close> (the properties).
  \<^item> \<open>DmmParser\<close> (\<open>dm-map/src/lib.rs\<close>): the parser of text maps, a byte cursor over the source with
    its slices and spans; \<open>DmmLaws\<close>: the cursor stays on character boundaries, and what each step
    reads; \<open>DmmSpelling\<close>: how a map is spelled, as relations on text that do not mention the parser, and
    that what is parsed is spelled by the source; \<open>DmmProps\<close>: the properties.

  State and errors. A struct is a record with the same fields, an enum a datatype with the same
  variants, a method a function that takes and returns the state. \<open>Result\<close> is a sum with the
  error on the left; a panic is \<open>None\<close> (in the list theories) or a constructor of the failure type
  (in the lexer). A theorem that an operation returns \<open>Some\<close> therefore says that it does not panic.

  Parameters. \<open>sip\<close> is the digest of the standard \<open>DefaultHasher\<close>, whose algorithm its
  documentation leaves open; the theorems hold for every function. The SHA-256 of the semantic
  digests and the deferred compiler of a module are parameters likewise. The collector takes the
  in-memory size of a list entry, which the compiler of the program decides, and which list storages
  have a second owner; neither shows in what it keeps. The interpreter takes binary32 addition and
  the conversion of an \<open>i8\<close> to binary32.

  Bounds. Lists are followed up to \<open>2^31\<close> entries (\<open>max_entries\<close>), the limit of the order encoding;
  the Fenwick index up to \<open>2^62\<close> positions. No loop uses fuel: the lexer's loops end because the
  rest of the input shrinks, the Fenwick walk down because its cursor does, and the Fenwick walk up,
  a partial function, is shown to return within every tree of less than \<open>2^63\<close> nodes; the
  mark loop of the collector ends because each round pops an object and every push marks one, the
  list-only one because marks only grow. An arena holds at most \<open>2^32\<close> slots.

  Not modelled: the builtins, calls, fields and world access of the interpreter, the compiler and
  the native paths of \<open>dm-vm\<close>, the semantic analysis, project loading, icons,
  interface files, the client and the lifecycle server. Of \<open>dm-value\<close>, capacities and storage
  telemetry are left out. Next are the task scheduler of \<open>dm-vm\<close> and the wire format and the scheduler
  of \<open>dm-lifecycle\<close>.
\<close>

end
